(* ===== verification/Ledger_Prelude.thy ===== *)
theory Ledger_Prelude
  imports Main "HOL-Library.Word" "HOL-Library.AList" "HOL-Library.Monad_Syntax"
begin

text \<open>
  What every theory of the development shares: the machine integers of the source (\<open>i64\<close> as
  \<open>int\<close> with the wrap-around of a release build written out, \<open>usize\<close> as \<open>nat\<close> with
  an explicit wrapping subtraction, the id widths as \<open>word\<close>s), results as sums with a bind for
  Rust's \<open>?\<close> operator, panics as \<open>None\<close>, the hash maps as association lists, and the
  generic lemmas about them. Collections: \<open>i64_simps\<close> for amount arithmetic, \<open>alist_simps\<close>
  for the maps, \<open>panic_simps\<close> for the option monad that carries panics.
\<close>

unbundle bit_operations_syntax

named_theorems i64_simps "arithmetic on in-range i64 amounts"
named_theorems alist_simps "hash maps as association lists"
named_theorems panic_simps "the option monad that carries panics"

section \<open>Machine integers\<close>

type_synonym u8 = "8 word"
type_synonym u16 = "16 word"
type_synonym u32 = "32 word"
type_synonym u64 = "64 word"
type_synonym u128 = "128 word"

text \<open>Amounts are \<open>i64\<close>. A release build wraps, which is what \<open>wrap64\<close> says.\<close>

definition wrap64 :: "int \<Rightarrow> int" where
  "wrap64 x = (x + 2 ^ 63) mod 2 ^ 64 - 2 ^ 63"

definition i64_ok :: "int \<Rightarrow> bool" where
  "i64_ok x \<longleftrightarrow> - (2 ^ 63) \<le> x \<and> x < 2 ^ 63"

definition i64_max :: int where
  "i64_max = 2 ^ 63 - 1"

definition i64_add :: "int \<Rightarrow> int \<Rightarrow> int" where
  "i64_add a b = wrap64 (a + b)"

definition i64_sub :: "int \<Rightarrow> int \<Rightarrow> int" where
  "i64_sub a b = wrap64 (a - b)"

definition i64_neg :: "int \<Rightarrow> int" where
  "i64_neg a = wrap64 (- a)"

definition checked_add :: "int \<Rightarrow> int \<Rightarrow> int option" where
  "checked_add a b = (if i64_ok (a + b) then Some (a + b) else None)"

lemma wrap64_ok [simp, i64_simps]: "i64_ok (wrap64 x)"
  using pos_mod_bound [of "2 ^ 64" "x + 2 ^ 63"] pos_mod_sign [of "2 ^ 64" "x + 2 ^ 63"]
  by (simp add: wrap64_def i64_ok_def)

lemma wrap64_id [i64_simps]: "i64_ok x \<Longrightarrow> wrap64 x = x"
  by (simp add: wrap64_def i64_ok_def)

lemma wrap64_cong: "wrap64 x = wrap64 y \<longleftrightarrow> x mod 2 ^ 64 = y mod 2 ^ 64"
proof -
  have "wrap64 x = wrap64 y \<longleftrightarrow> (x + 2 ^ 63) mod 2 ^ 64 = (y + 2 ^ 63) mod 2 ^ 64"
    by (auto simp: wrap64_def)
  also have "\<dots> \<longleftrightarrow> x mod 2 ^ 64 = y mod 2 ^ 64"
    by (simp add: mod_eq_dvd_iff)
  finally show ?thesis .
qed

lemma wrap64_mod: "wrap64 x mod 2 ^ 64 = x mod 2 ^ 64"
proof -
  have "wrap64 x mod 2 ^ 64 = ((x + 2 ^ 63) - 2 ^ 63) mod 2 ^ 64"
    unfolding wrap64_def by (rule mod_diff_left_eq)
  then show ?thesis by simp
qed

lemma wrap64_add_left [simp]: "wrap64 (wrap64 a + b) = wrap64 (a + b)"
  using mod_add_cong [OF wrap64_mod [of a] refl [of "b mod 2 ^ 64"]]
  by (simp only: wrap64_cong)

lemma wrap64_add_right [simp]: "wrap64 (a + wrap64 b) = wrap64 (a + b)"
  using wrap64_add_left [of b a] by (simp add: add.commute)

lemma wrap64_wrap [simp]: "wrap64 (wrap64 a) = wrap64 a"
  using wrap64_add_left [of a 0] by simp

lemma wrap64_sub_left [simp]: "wrap64 (wrap64 a - b) = wrap64 (a - b)"
  using wrap64_add_left [of a "- b"] by simp

lemma i64_add_sub_cancel [i64_simps, simp]: "i64_ok a \<Longrightarrow> i64_sub (i64_add a b) b = a"
  by (simp add: i64_add_def i64_sub_def wrap64_id)

lemma i64_ok_zero [simp]: "i64_ok 0"
  by (simp add: i64_ok_def)

lemma i64_add_ok [simp]: "i64_ok (i64_add a b)" "i64_ok (i64_sub a b)" "i64_ok (i64_neg a)"
  by (simp_all add: i64_add_def i64_sub_def i64_neg_def)

lemma i64_add_id [i64_simps]: "i64_ok (a + b) \<Longrightarrow> i64_add a b = a + b"
  by (simp add: i64_add_def wrap64_id)

lemma i64_sub_id [i64_simps]: "i64_ok (a - b) \<Longrightarrow> i64_sub a b = a - b"
  by (simp add: i64_sub_def wrap64_id)

lemma i64_neg_id [i64_simps]: "i64_ok (- a) \<Longrightarrow> i64_neg a = - a"
  by (simp add: i64_neg_def wrap64_id)

lemma checked_add_Some: "checked_add a b = Some c \<longleftrightarrow> c = a + b \<and> i64_ok (a + b)"
  by (auto simp: checked_add_def)

text \<open>\<open>usize\<close> counts are \<open>nat\<close>; a subtraction below zero wraps as it does in a release build.\<close>

definition usize_sub :: "nat \<Rightarrow> nat \<Rightarrow> nat" where
  "usize_sub a b = (if b \<le> a then a - b else 2 ^ 64 + a - b)"

lemma usize_sub_le [simp]: "b \<le> a \<Longrightarrow> usize_sub a b = a - b"
  by (simp add: usize_sub_def)

section \<open>Results and panics\<close>

text \<open>Rust's \<open>?\<close>: the error returns early, the value goes on.\<close>

definition rbind :: "'e + 'a \<Rightarrow> ('a \<Rightarrow> 'e + 'b) \<Rightarrow> 'e + 'b" where
  "rbind r f = (case r of Inl e \<Rightarrow> Inl e | Inr x \<Rightarrow> f x)"

lemma rbind_simps [simp]: "rbind (Inl e) f = Inl e" "rbind (Inr x) f = f x"
  by (simp_all add: rbind_def)

lemma rbind_eq_Inr: "rbind r f = Inr y \<longleftrightarrow> (\<exists>x. r = Inr x \<and> f x = Inr y)"
  by (cases r) auto

text \<open>\<open>Option::ok_or\<close>.\<close>

definition ok_or :: "'e \<Rightarrow> 'a option \<Rightarrow> 'e + 'a" where
  "ok_or e x = (case x of None \<Rightarrow> Inl e | Some y \<Rightarrow> Inr y)"

lemma ok_or_simps [simp]: "ok_or e None = Inl e" "ok_or e (Some y) = Inr y"
  by (simp_all add: ok_or_def)

lemma ok_or_eq_Inr: "ok_or e x = Inr y \<longleftrightarrow> x = Some y"
  by (cases x) auto

text \<open>
  An indexing out of range panics. A function that indexes returns an option, \<open>None\<close> being the
  panic; \<open>vec_get\<close> and \<open>vec_set\<close> are the source's \<open>v[i]\<close> read and written.
\<close>

definition vec_get :: "'a list \<Rightarrow> nat \<Rightarrow> 'a option" where
  "vec_get xs i = (if i < length xs then Some (xs ! i) else None)"

definition vec_set :: "'a list \<Rightarrow> nat \<Rightarrow> 'a \<Rightarrow> 'a list option" where
  "vec_set xs i x = (if i < length xs then Some (xs[i := x]) else None)"

lemma vec_get_Some [panic_simps]: "vec_get xs i = Some x \<longleftrightarrow> i < length xs \<and> xs ! i = x"
  by (auto simp: vec_get_def)

lemma vec_set_Some [panic_simps]: "vec_set xs i x = Some ys \<longleftrightarrow> i < length xs \<and> ys = xs[i := x]"
  by (auto simp: vec_set_def)

lemma vec_in_range [simp]:
  "i < length xs \<Longrightarrow> vec_get xs i = Some (xs ! i)"
  "i < length xs \<Longrightarrow> vec_set xs i x = Some (xs[i := x])"
  by (simp_all add: vec_get_def vec_set_def)

lemmas bind_Some_conv [panic_simps] = Option.bind_eq_Some_conv

section \<open>Powers of two\<close>

text \<open>\<open>usize::next_power_of_two\<close>, by doubling.\<close>

function pow2_at_least :: "nat \<Rightarrow> nat \<Rightarrow> nat" where
  "pow2_at_least p n = (if p = 0 \<or> n \<le> p then p else pow2_at_least (2 * p) n)"
  by auto
termination by (relation "measure (\<lambda>(p, n). n - p)") auto

definition next_power_of_two :: "nat \<Rightarrow> nat" where
  "next_power_of_two n = pow2_at_least 1 n"

lemma pow2_at_least_power: "n \<le> 2 ^ m \<Longrightarrow> j \<le> m \<Longrightarrow> \<exists>k \<le> m. pow2_at_least (2 ^ j) n = 2 ^ k \<and> n \<le> 2 ^ k"
proof (induction "m - j" arbitrary: j)
  case 0
  then show ?case by auto
next
  case (Suc d)
  show ?case
  proof (cases "n \<le> 2 ^ j")
    case True
    then show ?thesis using Suc.prems by auto
  next
    case False
    then have "j < m" using Suc.prems(1) by (metis le_neq_implies_less Suc.prems(2))
    then show ?thesis
      using Suc.hyps(1) [of "Suc j"] Suc.hyps(2) Suc.prems(1) False
      by (subst pow2_at_least.simps) (simp del: pow2_at_least.simps)
  qed
qed

declare pow2_at_least.simps [simp del]

end
