(* ===== verification/Base_Types.thy ===== *)
theory Base_Types
  imports Ledger_Prelude
begin

text \<open>
  The vocabulary of the ledger, from \<open>base/src\<close>: the ids (\<open>ids.rs\<close>), the errors
  (\<open>error.rs\<close>), the transfer a client submits and its shape check (\<open>transfer.rs\<close>), the
  effect the leader replicates and its delta table (\<open>effect.rs\<close>), the request and ack of the
  client protocol (\<open>protocol.rs\<close>) and the data the ports carry (\<open>ports/*.rs\<close>).
  The lemmas show what the reserved id space promises, the exact shape a valid transfer has, and that
  the body digest separates any two bodies that differ in one word.
\<close>

section \<open>Ids (ids.rs)\<close>

type_synonym Amount = int
type_synonym Seq = u64
type_synonym TxId = u128
type_synonym AccountId = u64
type_synonym LinkedChainId = u32
type_synonym BudgetGroup = u128
type_synonym AcctHandle = u32

definition UNORDERED :: Seq where
  "UNORDERED = 0"

definition MAX_AMOUNT :: Amount where
  "MAX_AMOUNT = 2 ^ 40"

text \<open>The id types share one macro: zero is the absent id.\<close>

definition is_absent :: "'a::len word \<Rightarrow> bool" where
  "is_absent i \<longleftrightarrow> i = 0"

definition LEDGER_ORIGIN :: u128 where
  "LEDGER_ORIGIN = push_bit 127 1"

definition expiry_void_of :: "TxId \<Rightarrow> TxId" where
  "expiry_void_of hold = hold OR LEDGER_ORIGIN"

definition is_ledger_origin :: "TxId \<Rightarrow> bool" where
  "is_ledger_origin i \<longleftrightarrow> i AND LEDGER_ORIGIN \<noteq> 0"

definition handle_new :: "nat \<Rightarrow> AcctHandle" where
  "handle_new index = word_of_nat index"

definition handle_index :: "AcctHandle \<Rightarrow> nat" where
  "handle_index h = unat h"

definition HANDLE_INVALID :: AcctHandle where
  "HANDLE_INVALID = - 1"

section \<open>Errors (error.rs)\<close>

datatype LedgerError =
    InvalidFlags
  | ReservedTransactionId
  | InvalidAmount
  | SameAccount
  | UnknownAccount AccountId
  | LedgerMismatch
  | MissingPendingRef
  | UnexpectedPendingRef
  | SeqGap Seq Seq
  | AccountQuarantined AccountId
  | FailStop
  | InsufficientBalance Amount Amount
  | PendingRefNotFound TxId
  | PendingRefMismatch
  | PendingRefAlreadyResolved
  | SettleExceedsRemaining Amount Amount
  | DuplicateRequest
  | DuplicateDifferentBody
  | LinkedChainTooLong
  | LinkedChainUnterminated
  | QuarantineDraining
  | ConfigInvalid
  | SharedBudgetGroupRequired
  | PartialResolutionNotAllowed
  | SharedBudgetGroupIncomplete
  | BalanceOverflow
  | ColumnWentNegative
  | RaftCommitFailed
  | Overloaded

type_synonym 'a result = "LedgerError + 'a"

text \<open>The stable label of an error; the log carries its length.\<close>

fun error_name :: "LedgerError \<Rightarrow> string" where
  "error_name InvalidFlags = ''InvalidFlags''"
| "error_name ReservedTransactionId = ''ReservedTransactionId''"
| "error_name InvalidAmount = ''InvalidAmount''"
| "error_name SameAccount = ''SameAccount''"
| "error_name (UnknownAccount _) = ''UnknownAccount''"
| "error_name LedgerMismatch = ''LedgerMismatch''"
| "error_name MissingPendingRef = ''MissingPendingRef''"
| "error_name UnexpectedPendingRef = ''UnexpectedPendingRef''"
| "error_name (SeqGap _ _) = ''SeqGap''"
| "error_name (AccountQuarantined _) = ''AccountQuarantined''"
| "error_name FailStop = ''FailStop''"
| "error_name (InsufficientBalance _ _) = ''InsufficientBalance''"
| "error_name (PendingRefNotFound _) = ''PendingRefNotFound''"
| "error_name PendingRefMismatch = ''PendingRefMismatch''"
| "error_name PendingRefAlreadyResolved = ''PendingRefAlreadyResolved''"
| "error_name (SettleExceedsRemaining _ _) = ''SettleExceedsRemaining''"
| "error_name DuplicateRequest = ''DuplicateRequest''"
| "error_name DuplicateDifferentBody = ''DuplicateDifferentBody''"
| "error_name LinkedChainTooLong = ''LinkedChainTooLong''"
| "error_name LinkedChainUnterminated = ''LinkedChainUnterminated''"
| "error_name QuarantineDraining = ''QuarantineDraining''"
| "error_name ConfigInvalid = ''ConfigInvalid''"
| "error_name SharedBudgetGroupRequired = ''SharedBudgetGroupRequired''"
| "error_name PartialResolutionNotAllowed = ''PartialResolutionNotAllowed''"
| "error_name SharedBudgetGroupIncomplete = ''SharedBudgetGroupIncomplete''"
| "error_name BalanceOverflow = ''BalanceOverflow''"
| "error_name ColumnWentNegative = ''ColumnWentNegative''"
| "error_name RaftCommitFailed = ''RaftCommitFailed''"
| "error_name Overloaded = ''Overloaded''"

section \<open>Transfers (transfer.rs)\<close>

type_synonym TransferFlags = u16

definition TF_NONE :: TransferFlags where "TF_NONE = 0"
definition TF_PENDING :: TransferFlags where "TF_PENDING = 1"
definition TF_POST_PENDING :: TransferFlags where "TF_POST_PENDING = 2"
definition TF_VOID_PENDING :: TransferFlags where "TF_VOID_PENDING = 4"
definition TF_LINKED :: TransferFlags where "TF_LINKED = 8"
definition PHASE_MASK :: u16 where "PHASE_MASK = 7"

definition flags_contains :: "'a::len word \<Rightarrow> 'a word \<Rightarrow> bool" where
  "flags_contains self other \<longleftrightarrow> self AND other = other"

definition flags_with :: "'a::len word \<Rightarrow> 'a word \<Rightarrow> 'a word" where
  "flags_with self other = self OR other"

datatype TransferKind = SinglePhase | Hold | Settle | VoidClient | VoidExpiry

fun needs_pending_lookup :: "TransferKind \<Rightarrow> bool" where
  "needs_pending_lookup k \<longleftrightarrow>
     (case k of TransferKind.Settle \<Rightarrow> True | VoidClient \<Rightarrow> True | VoidExpiry \<Rightarrow> True | _ \<Rightarrow> False)"

fun is_client :: "TransferKind \<Rightarrow> bool" where
  "is_client k \<longleftrightarrow> (case k of VoidExpiry \<Rightarrow> False | _ \<Rightarrow> True)"

record Transfer =
  tr_id :: TxId
  tr_pending_ref :: TxId
  tr_debit_account :: AccountId
  tr_credit_account :: AccountId
  tr_amount :: Amount
  tr_ledger :: u32
  tr_flags :: TransferFlags

definition tr_lane :: "Transfer \<Rightarrow> AccountId" where
  "tr_lane t = tr_debit_account t"

definition tr_kind :: "Transfer \<Rightarrow> TransferKind result" where
  "tr_kind t =
     (let phase = tr_flags t AND PHASE_MASK in
      if phase = 0 then Inr SinglePhase
      else if phase = 1 then Inr TransferKind.Hold
      else if phase = 2 then Inr TransferKind.Settle
      else if phase = 4 then (if is_ledger_origin (tr_id t) then Inr VoidExpiry else Inr VoidClient)
      else Inl InvalidFlags)"

definition tr_budget :: "Transfer \<Rightarrow> BudgetGroup" where
  "tr_budget t = (case tr_kind t of Inr TransferKind.Hold \<Rightarrow> tr_pending_ref t | _ \<Rightarrow> 0)"

definition tr_validate :: "Transfer \<Rightarrow> TransferKind result" where
  "tr_validate t =
     rbind (tr_kind t) (\<lambda>kind.
       if is_absent (tr_id t) \<or> is_absent (tr_debit_account t) \<or> is_absent (tr_credit_account t)
       then Inl InvalidFlags
       else if tr_debit_account t = tr_credit_account t then Inl SameAccount
       else case kind of
         SinglePhase \<Rightarrow>
           if tr_amount t \<le> 0 \<or> tr_amount t > MAX_AMOUNT then Inl InvalidAmount
           else if \<not> is_absent (tr_pending_ref t) then Inl UnexpectedPendingRef
           else Inr kind
       | TransferKind.Hold \<Rightarrow>
           if tr_amount t \<le> 0 \<or> tr_amount t > MAX_AMOUNT then Inl InvalidAmount
           else Inr kind
       | TransferKind.Settle \<Rightarrow>
           if tr_amount t \<le> 0 \<or> tr_amount t > MAX_AMOUNT then Inl InvalidAmount
           else if is_absent (tr_pending_ref t) then Inl MissingPendingRef
           else Inr kind
       | VoidClient \<Rightarrow> if is_absent (tr_pending_ref t) then Inl MissingPendingRef else Inr kind
       | VoidExpiry \<Rightarrow> if is_absent (tr_pending_ref t) then Inl MissingPendingRef else Inr kind)"

definition DIGEST_MIX :: u64 where
  "DIGEST_MIX = 0x517cc1b727220a95"

definition digest_words :: "Transfer \<Rightarrow> u64 list" where
  "digest_words t =
     [ucast (tr_id t),
      ucast (drop_bit 64 (tr_id t)),
      tr_debit_account t,
      tr_credit_account t,
      word_of_int (tr_amount t),
      ucast (tr_pending_ref t),
      ucast (drop_bit 64 (tr_pending_ref t)),
      push_bit 16 (ucast (tr_ledger t)) OR ucast (tr_flags t)]"

definition digest_step :: "u64 \<Rightarrow> u64 \<Rightarrow> u64" where
  "digest_step hash word = (word_rotl 5 hash XOR word) * DIGEST_MIX"

definition tr_digest :: "Transfer \<Rightarrow> u64" where
  "tr_digest t = foldl digest_step DIGEST_MIX (digest_words t)"

section \<open>Effects (effect.rs)\<close>

record ColumnDelta =
  cd_posted :: Amount
  cd_pending :: Amount

datatype EffectKind = Post | Hold | Settle | Void

record Effect =
  ef_tx_id :: TxId
  ef_pending_ref :: TxId
  ef_debit_account :: AccountId
  ef_credit_account :: AccountId
  ef_amount :: Amount
  ef_remaining_after :: Amount
  ef_debit :: AcctHandle
  ef_credit :: AcctHandle
  ef_chain :: LinkedChainId
  ef_budget :: BudgetGroup
  ef_ledger :: u32
  ef_kind :: EffectKind

datatype PendingEffect =
    Create TxId AccountId AccountId Amount u32 BudgetGroup
  | Reduce TxId AccountId AccountId Amount Amount u32 BudgetGroup
  | Remove TxId BudgetGroup Amount

definition ef_columns :: "Effect \<Rightarrow> ColumnDelta" where
  "ef_columns e =
     (let amount = ef_amount e in
      case ef_kind e of
        Post \<Rightarrow> \<lparr>cd_posted = amount, cd_pending = 0\<rparr>
      | EffectKind.Hold \<Rightarrow> \<lparr>cd_posted = 0, cd_pending = amount\<rparr>
      | EffectKind.Settle \<Rightarrow> \<lparr>cd_posted = amount, cd_pending = i64_neg amount\<rparr>
      | Void \<Rightarrow> \<lparr>cd_posted = 0, cd_pending = i64_neg amount\<rparr>)"

definition ef_reservation :: "Effect \<Rightarrow> Amount" where
  "ef_reservation e =
     (case ef_kind e of Post \<Rightarrow> ef_amount e | EffectKind.Hold \<Rightarrow> ef_amount e | _ \<Rightarrow> 0)"

definition ef_gain :: "Effect \<Rightarrow> (AcctHandle \<times> Amount) option" where
  "ef_gain e =
     (case ef_kind e of
        Post \<Rightarrow> Some (ef_credit e, ef_amount e)
      | EffectKind.Settle \<Rightarrow> Some (ef_credit e, ef_amount e)
      | Void \<Rightarrow> Some (ef_debit e, ef_amount e)
      | EffectKind.Hold \<Rightarrow> None)"

definition ef_pending_effect :: "Effect \<Rightarrow> Amount \<Rightarrow> PendingEffect option" where
  "ef_pending_effect e hold_amount =
     (let remove = Remove (ef_pending_ref e) (ef_budget e) (ef_amount e) in
      case ef_kind e of
        Post \<Rightarrow> None
      | EffectKind.Hold \<Rightarrow>
          Some (Create (ef_tx_id e) (ef_debit_account e) (ef_credit_account e)
                  (ef_amount e) (ef_ledger e) (ef_budget e))
      | EffectKind.Settle \<Rightarrow>
          if ef_remaining_after e > 0
          then Some (Reduce (ef_pending_ref e) (ef_debit_account e) (ef_credit_account e)
                       hold_amount (ef_remaining_after e) (ef_ledger e) (ef_budget e))
          else Some remove
      | Void \<Rightarrow> Some remove)"

section \<open>The client protocol (protocol.rs)\<close>

record Request =
  rq_tx :: Transfer
  rq_submitted_at_nanos :: nat
  rq_end_of_batch :: bool

definition request_single :: "Transfer \<Rightarrow> nat \<Rightarrow> Request" where
  "request_single tx at = \<lparr>rq_tx = tx, rq_submitted_at_nanos = at, rq_end_of_batch = True\<rparr>"

datatype AckOutcome = Committed | Duplicate | Rejected LedgerError

record Ack =
  ak_tx_id :: TxId
  ak_lane :: AccountId
  ak_seq :: Seq
  ak_outcome :: AckOutcome
  ak_submitted_at_nanos :: nat

section \<open>What the ports carry (ports/*.rs)\<close>

type_synonym Correlation = u32
type_synonym ApplyIndex = nat

datatype IdemVerdict = Fresh | DuplicateSameBody | DuplicateDifferentBody | NotChecked

datatype IdemAsk = Check | Serialize

record IdemRequest =
  iq_correlation :: Correlation
  iq_tx_id :: TxId
  iq_lane :: AccountId
  iq_seq :: Seq
  iq_digest :: u64
  iq_ask :: IdemAsk

record IdemReply =
  ir_correlation :: Correlation
  ir_lane :: AccountId
  ir_seq :: Seq
  ir_verdict :: IdemVerdict

record HoldData =
  hd_debit_account :: AccountId
  hd_credit_account :: AccountId
  hd_amount :: Amount
  hd_remaining :: Amount
  hd_ledger :: u32
  hd_budget :: BudgetGroup
  hd_budget_members :: u32
  hd_budget_remaining :: Amount

record PendingLookup =
  pl_correlation :: Correlation
  pl_tx_id :: TxId
  pl_lane :: AccountId
  pl_seq :: Seq
  pl_pending_ref :: TxId

record PendingFence =
  pf_correlation :: Correlation
  pf_lane :: AccountId
  pf_seq :: Seq

record PendingReply =
  pr_correlation :: Correlation
  pr_lane :: AccountId
  pr_seq :: Seq
  pr_pending_ref :: TxId
  pr_found :: "HoldData option"
  pr_applied :: nat

datatype PendingCommand =
    Lookup PendingLookup
  | Fence PendingFence
  | Apply PendingEffect ApplyIndex
  | ExpiryDeclined TxId

datatype PendingNotice = HoldNotStored TxId | HoldExpired Transfer | StoreFailed

record OverlayState =
  os_remaining :: "Amount option"
  os_taken :: Amount
  os_resolved :: bool

definition overlay_default :: OverlayState where
  "overlay_default = \<lparr>os_remaining = None, os_taken = 0, os_resolved = False\<rparr>"

record HoldView =
  hv_debit_account :: AccountId
  hv_credit_account :: AccountId
  hv_ledger :: u32
  hv_budget :: BudgetGroup
  hv_budget_members :: u32
  hv_budget_remaining :: Amount
  hv_remaining :: Amount
  hv_resolved :: bool

definition hold_view_compose :: "HoldData \<Rightarrow> OverlayState \<Rightarrow> HoldView" where
  "hold_view_compose rec ov =
     (let committed = min (case os_remaining ov of None \<Rightarrow> hd_remaining rec | Some r \<Rightarrow> r)
                          (hd_remaining rec) in
      \<lparr>hv_debit_account = hd_debit_account rec,
       hv_credit_account = hd_credit_account rec,
       hv_ledger = hd_ledger rec,
       hv_budget = hd_budget rec,
       hv_budget_members = hd_budget_members rec,
       hv_budget_remaining = hd_budget_remaining rec,
       hv_remaining = i64_sub committed (os_taken ov),
       hv_resolved = os_resolved ov\<rparr>)"

record RaftProposal =
  rp_batch_id :: nat
  rp_effects :: "Effect list"

datatype RaftOutcome = BatchCommitted | BatchFailed

record RaftCommit =
  rc_batch_id :: nat
  rc_index :: ApplyIndex
  rc_outcome :: RaftOutcome
  rc_effects :: "Effect list"

section \<open>What the reserved id space promises\<close>

lemma bit_LEDGER_ORIGIN: "bit LEDGER_ORIGIN n \<longleftrightarrow> n = 127"
  unfolding LEDGER_ORIGIN_def by (subst bit_push_bit_iff) (auto simp: bit_1_iff)

lemma ledger_origin_bit: "is_ledger_origin i \<longleftrightarrow> bit i 127"
proof
  assume "is_ledger_origin i"
  then obtain n where "bit (i AND LEDGER_ORIGIN) n"
    by (auto simp: is_ledger_origin_def bit_eq_iff)
  then show "bit i 127" by (auto simp: bit_and_iff bit_LEDGER_ORIGIN)
next
  assume "bit i 127"
  then have "bit (i AND LEDGER_ORIGIN) 127" by (simp add: bit_and_iff bit_LEDGER_ORIGIN)
  then show "is_ledger_origin i" by (auto simp: is_ledger_origin_def)
qed

lemma bit_expiry_void_of: "bit (expiry_void_of h) n \<longleftrightarrow> bit h n \<or> n = 127"
  by (simp add: expiry_void_of_def bit_or_iff bit_LEDGER_ORIGIN)

lemma expiry_void_of_not_zero [simp]: "expiry_void_of h \<noteq> 0"
  using bit_expiry_void_of [of h 127] by auto

text \<open>C40: an expiry void's id lies in the reserved space, is never absent, and two holds a client
  can name never derive the same id: the derived id determines its hold.\<close>

theorem expiry_void_id_injective:
  assumes "\<not> is_ledger_origin h" "\<not> is_ledger_origin k"
  shows "is_ledger_origin (expiry_void_of h) \<and> \<not> is_absent (expiry_void_of h)
         \<and> (expiry_void_of h = expiry_void_of k \<longleftrightarrow> h = k)"
proof -
  have "h = k" if "expiry_void_of h = expiry_void_of k"
  proof (rule bit_eqI)
    fix n
    from that have "bit (expiry_void_of h) n = bit (expiry_void_of k) n" by simp
    then show "bit h n = bit k n"
      using assms by (cases "n = 127") (auto simp: bit_expiry_void_of ledger_origin_bit)
  qed
  then show ?thesis
    by (auto simp: ledger_origin_bit bit_expiry_void_of is_absent_def)
qed

theorem expiry_void_id_injective_witness:
  "is_ledger_origin (expiry_void_of 5) \<and> \<not> is_absent (expiry_void_of 5)
   \<and> (expiry_void_of 5 = expiry_void_of 9 \<longleftrightarrow> (5::TxId) = 9)"
  by (rule expiry_void_id_injective) (simp_all add: is_ledger_origin_def LEDGER_ORIGIN_def)

section \<open>What the shape check and the digest promise\<close>

lemma rotl_cancel: "word_rotl 5 (a::u64) = word_rotl 5 b \<longleftrightarrow> a = b"
  by (metis word_rot_lr)

lemma mix_cancel: "a * DIGEST_MIX = b * DIGEST_MIX \<longleftrightarrow> a = b"
proof
  assume "a * DIGEST_MIX = b * DIGEST_MIX"
  then have "a * (DIGEST_MIX * 2323857671730065597) = b * (DIGEST_MIX * 2323857671730065597)"
    by (simp only: mult.assoc [symmetric])
  moreover have "DIGEST_MIX * 2323857671730065597 = 1" by (simp add: DIGEST_MIX_def)
  ultimately show "a = b" by simp
qed simp

lemma xor_cancel: "(x XOR a) = (x XOR (b::'a::len word)) \<longleftrightarrow> a = b"
  by (metis xor.assoc xor_self_eq xor.left_neutral)

lemma digest_step_word: "digest_step h a = digest_step h b \<longleftrightarrow> a = b"
  by (simp add: digest_step_def mix_cancel xor_cancel)

lemma digest_step_hash: "digest_step g w = digest_step h w \<longleftrightarrow> g = h"
  using xor_cancel [of w "word_rotl 5 g" "word_rotl 5 h"]
  by (simp add: digest_step_def mix_cancel rotl_cancel xor.commute)

lemma digest_fold_hash: "foldl digest_step g ws = foldl digest_step h ws \<longleftrightarrow> g = h"
  by (induction ws arbitrary: g h) (auto simp: digest_step_hash)

lemma digest_fold_word:
  "foldl digest_step h (xs @ a # ys) = foldl digest_step h (xs @ b # ys) \<longleftrightarrow> a = b"
  by (simp add: digest_fold_hash digest_step_word)

lemma digest_one_word:
  assumes i: "i < length ws" and eq: "length us = length ws"
    and same: "\<forall>j < length ws. j \<noteq> i \<longrightarrow> ws ! j = us ! j"
  shows "foldl digest_step h ws = foldl digest_step h us \<longleftrightarrow> ws ! i = us ! i"
proof -
  have t: "take i ws = take i us" and d: "drop (Suc i) ws = drop (Suc i) us"
    using i eq same by (auto intro!: nth_equalityI)
  have "ws = take i ws @ ws ! i # drop (Suc i) ws"
    and "us = take i us @ us ! i # drop (Suc i) us"
    using i eq by (auto simp: id_take_nth_drop)
  then show ?thesis
    using t d digest_fold_word [of h "take i ws" "ws ! i" "drop (Suc i) ws" "us ! i"] by metis
qed

lemma digest_words_length [simp]: "length (digest_words t) = 8"
  by (simp add: digest_words_def)

lemma word_of_amount_inj:
  "i64_ok a \<Longrightarrow> i64_ok b \<Longrightarrow> (word_of_int a :: u64) = word_of_int b \<longleftrightarrow> a = b"
  using wrap64_cong [of a b] by (auto simp: word_of_int_eq_iff take_bit_eq_mod wrap64_id)

text \<open>The body digest idempotency compares separates any two bodies of one transaction id that
  differ in their amount alone, in their debit account alone, or in their credit account alone: such
  a pair is always told apart, never answered as the same body.\<close>

theorem digest_detects_changed_field:
  assumes "i64_ok a" "i64_ok b"
  shows "(tr_digest (t\<lparr>tr_amount := a\<rparr>) = tr_digest (t\<lparr>tr_amount := b\<rparr>) \<longleftrightarrow> a = b)
       \<and> (tr_digest (t\<lparr>tr_debit_account := d\<rparr>) = tr_digest (t\<lparr>tr_debit_account := e\<rparr>) \<longleftrightarrow> d = e)
       \<and> (tr_digest (t\<lparr>tr_credit_account := f\<rparr>) = tr_digest (t\<lparr>tr_credit_account := g\<rparr>) \<longleftrightarrow> f = g)"
proof -
  let ?w = "digest_words"
  have amount: "tr_digest (t\<lparr>tr_amount := a\<rparr>) = tr_digest (t\<lparr>tr_amount := b\<rparr>) \<longleftrightarrow>
      ?w (t\<lparr>tr_amount := a\<rparr>) ! 4 = ?w (t\<lparr>tr_amount := b\<rparr>) ! 4"
    unfolding tr_digest_def
    by (rule digest_one_word) (auto simp: digest_words_def nth_Cons' split: if_splits)
  have debit: "tr_digest (t\<lparr>tr_debit_account := d\<rparr>) = tr_digest (t\<lparr>tr_debit_account := e\<rparr>) \<longleftrightarrow>
      ?w (t\<lparr>tr_debit_account := d\<rparr>) ! 2 = ?w (t\<lparr>tr_debit_account := e\<rparr>) ! 2"
    unfolding tr_digest_def
    by (rule digest_one_word) (auto simp: digest_words_def nth_Cons' split: if_splits)
  have credit: "tr_digest (t\<lparr>tr_credit_account := f\<rparr>) = tr_digest (t\<lparr>tr_credit_account := g\<rparr>) \<longleftrightarrow>
      ?w (t\<lparr>tr_credit_account := f\<rparr>) ! 3 = ?w (t\<lparr>tr_credit_account := g\<rparr>) ! 3"
    unfolding tr_digest_def
    by (rule digest_one_word) (auto simp: digest_words_def nth_Cons' split: if_splits)
  show ?thesis
    using assms by (simp add: amount debit credit) (simp add: digest_words_def word_of_amount_inj)
qed

definition sample_transfer :: Transfer where
  "sample_transfer = \<lparr>tr_id = 7, tr_pending_ref = 0, tr_debit_account = 1, tr_credit_account = 2,
     tr_amount = 100, tr_ledger = 1, tr_flags = 0\<rparr>"

theorem digest_detects_changed_field_witness:
  "tr_digest (sample_transfer\<lparr>tr_amount := 100\<rparr>) \<noteq> tr_digest (sample_transfer\<lparr>tr_amount := 101\<rparr>)"
  using digest_detects_changed_field [of 100 101 sample_transfer] by (simp add: i64_ok_def)

lemma tr_kind_void_origin:
  "tr_kind t = Inr VoidExpiry \<Longrightarrow> is_ledger_origin (tr_id t)"
  "tr_kind t = Inr VoidClient \<Longrightarrow> \<not> is_ledger_origin (tr_id t)"
  by (auto simp: tr_kind_def Let_def split: if_splits)

text \<open>The shape check accepts exactly the well-shaped transfers. The four phase encodings are the
  only ones, both accounts and the id are present and the accounts differ; a transfer that moves an
  amount moves between one and \<open>MAX_AMOUNT\<close> units, a single-phase transfer names no hold, and
  every resolution names one. Only a ledger-origin id can be an expiry void.\<close>

theorem validate_accepts_exactly:
  "tr_validate t = Inr k \<longleftrightarrow>
     tr_kind t = Inr k \<and> tr_id t \<noteq> 0 \<and> tr_debit_account t \<noteq> 0 \<and> tr_credit_account t \<noteq> 0
     \<and> tr_debit_account t \<noteq> tr_credit_account t
     \<and> (k \<in> {SinglePhase, TransferKind.Hold, TransferKind.Settle} \<longrightarrow>
          0 < tr_amount t \<and> tr_amount t \<le> MAX_AMOUNT)
     \<and> (k = SinglePhase \<longrightarrow> tr_pending_ref t = 0)
     \<and> (needs_pending_lookup k \<longrightarrow> tr_pending_ref t \<noteq> 0)
     \<and> (k = VoidExpiry \<longrightarrow> is_ledger_origin (tr_id t))"
  by (cases "tr_kind t"; cases k)
     (auto simp: tr_validate_def is_absent_def dest: tr_kind_void_origin
           split: TransferKind.splits if_splits)

theorem validate_accepts_exactly_witness: "tr_validate sample_transfer = Inr SinglePhase"
  using validate_accepts_exactly [of sample_transfer SinglePhase]
  by (simp add: sample_transfer_def tr_kind_def MAX_AMOUNT_def Let_def)

end
