(* ===== verification/Accounts.thy ===== *)
theory Accounts
  imports Base_Types
begin

text \<open>
  The account component: the four columns of an account (\<open>base/src/ports/account.rs\<close>) and the
  in-memory store the sequencer reads and applies to (\<open>account/src/store.rs\<close>). The lemmas show
  that a committed effect moves both sides or neither, that the two sums of double-entry stay equal
  whatever is applied, that no column ever leaves \<open>0..=i64::MAX\<close>, and that a follower replaying by
  account id reaches the state the leader reached by handle.
\<close>

section \<open>One account (ports/account.rs)\<close>

type_synonym AccountFlags = u8

definition AF_NONE :: AccountFlags where "AF_NONE = 0"
definition AF_CONSTRAINED :: AccountFlags where "AF_CONSTRAINED = 1"

record AccountRecord =
  ac_debits_posted :: Amount
  ac_credits_posted :: Amount
  ac_debits_pending :: Amount
  ac_credits_pending :: Amount
  ac_ledger :: u32
  ac_flags :: AccountFlags

definition account_new :: "u32 \<Rightarrow> AccountFlags \<Rightarrow> AccountRecord" where
  "account_new ledger flags =
     \<lparr>ac_debits_posted = 0, ac_credits_posted = 0, ac_debits_pending = 0, ac_credits_pending = 0,
      ac_ledger = ledger, ac_flags = flags\<rparr>"

definition is_constrained :: "AccountRecord \<Rightarrow> bool" where
  "is_constrained a \<longleftrightarrow> flags_contains (ac_flags a) AF_CONSTRAINED"

definition available :: "AccountRecord \<Rightarrow> Amount" where
  "available a = i64_sub (i64_sub (ac_credits_posted a) (ac_debits_posted a)) (ac_debits_pending a)"

definition column_check :: "Amount \<Rightarrow> Amount \<Rightarrow> unit result" where
  "column_check value delta =
     (case checked_add value delta of
        None \<Rightarrow> Inl BalanceOverflow
      | Some tot \<Rightarrow> if tot < 0 then Inl ColumnWentNegative else Inr ())"

definition column_sum :: "Amount \<Rightarrow> Amount \<Rightarrow> Amount result" where
  "column_sum value delta = rbind (column_check value delta) (\<lambda>_. Inr (i64_add value delta))"

definition can_credit :: "AccountRecord \<Rightarrow> ColumnDelta \<Rightarrow> unit result" where
  "can_credit a columns =
     rbind (column_check (ac_credits_posted a) (cd_posted columns)) (\<lambda>_.
       column_check (ac_credits_pending a) (cd_pending columns))"

definition apply_debit :: "AccountRecord \<Rightarrow> ColumnDelta \<Rightarrow> AccountRecord result" where
  "apply_debit a columns =
     rbind (column_sum (ac_debits_posted a) (cd_posted columns)) (\<lambda>posted.
     rbind (column_sum (ac_debits_pending a) (cd_pending columns)) (\<lambda>pending.
       Inr (a\<lparr>ac_debits_posted := posted, ac_debits_pending := pending\<rparr>)))"

definition apply_credit :: "AccountRecord \<Rightarrow> ColumnDelta \<Rightarrow> AccountRecord result" where
  "apply_credit a columns =
     rbind (column_sum (ac_credits_posted a) (cd_posted columns)) (\<lambda>posted.
     rbind (column_sum (ac_credits_pending a) (cd_pending columns)) (\<lambda>pending.
       Inr (a\<lparr>ac_credits_posted := posted, ac_credits_pending := pending\<rparr>)))"

record LedgerTotals =
  lt_debits_posted :: Amount
  lt_credits_posted :: Amount
  lt_debits_pending :: Amount
  lt_credits_pending :: Amount

definition balanced :: "LedgerTotals \<Rightarrow> bool" where
  "balanced t \<longleftrightarrow> lt_debits_posted t = lt_credits_posted t \<and> lt_debits_pending t = lt_credits_pending t"

section \<open>The store (account/src/store.rs)\<close>

record MemoryAccounts =
  ma_records :: "AccountRecord list"
  ma_ids :: "AccountId list"
  ma_index :: "AccountId \<rightharpoonup> AcctHandle"
  ma_applied :: nat

definition accounts_empty :: MemoryAccounts where
  "accounts_empty = \<lparr>ma_records = [], ma_ids = [], ma_index = Map.empty, ma_applied = 0\<rparr>"

definition accounts_open ::
  "AccountId \<Rightarrow> u32 \<Rightarrow> AccountFlags \<Rightarrow> MemoryAccounts \<Rightarrow> AcctHandle \<times> MemoryAccounts" where
  "accounts_open i ledger flags s =
     (case ma_index s i of
        Some handle \<Rightarrow> (handle, s)
      | None \<Rightarrow>
          let handle = handle_new (length (ma_records s)) in
          (handle, s\<lparr>ma_records := ma_records s @ [account_new ledger flags],
                     ma_ids := ma_ids s @ [i],
                     ma_index := (ma_index s)(i \<mapsto> handle)\<rparr>))"

definition accounts_resolve :: "MemoryAccounts \<Rightarrow> AccountId \<Rightarrow> AcctHandle option" where
  "accounts_resolve s i = ma_index s i"

definition accounts_record :: "MemoryAccounts \<Rightarrow> AcctHandle \<Rightarrow> AccountRecord option" where
  "accounts_record s h = vec_get (ma_records s) (handle_index h)"

definition totals_add :: "LedgerTotals \<Rightarrow> AccountRecord \<Rightarrow> LedgerTotals" where
  "totals_add t a =
     \<lparr>lt_debits_posted = i64_add (lt_debits_posted t) (ac_debits_posted a),
      lt_credits_posted = i64_add (lt_credits_posted t) (ac_credits_posted a),
      lt_debits_pending = i64_add (lt_debits_pending t) (ac_debits_pending a),
      lt_credits_pending = i64_add (lt_credits_pending t) (ac_credits_pending a)\<rparr>"

definition column_totals :: "MemoryAccounts \<Rightarrow> LedgerTotals" where
  "column_totals s =
     foldl totals_add
       \<lparr>lt_debits_posted = 0, lt_credits_posted = 0, lt_debits_pending = 0, lt_credits_pending = 0\<rparr>
       (ma_records s)"

text \<open>
  \<open>move_columns\<close> writes the records one at a time and stops at the first refusal, keeping whatever
  it wrote before. \<open>None\<close> is the panic of a handle out of range.
\<close>

definition move_columns ::
  "AcctHandle \<Rightarrow> AcctHandle \<Rightarrow> Effect \<Rightarrow> MemoryAccounts \<Rightarrow> (unit result \<times> MemoryAccounts) option" where
  "move_columns debit credit effect s =
     (let columns = ef_columns effect in
      do {
        far \<leftarrow> vec_get (ma_records s) (handle_index credit);
        case can_credit far columns of
          Inl e \<Rightarrow> Some (Inl e, s)
        | Inr _ \<Rightarrow> do {
            near \<leftarrow> vec_get (ma_records s) (handle_index debit);
            case apply_debit near columns of
              Inl e \<Rightarrow> Some (Inl e, s)
            | Inr near' \<Rightarrow> do {
                let s1 = s\<lparr>ma_records := (ma_records s)[handle_index debit := near']\<rparr>;
                far1 \<leftarrow> vec_get (ma_records s1) (handle_index credit);
                case apply_credit far1 columns of
                  Inl e \<Rightarrow> Some (Inl e, s1)
                | Inr far' \<Rightarrow>
                    Some (Inr (), s1\<lparr>ma_records := (ma_records s1)[handle_index credit := far'],
                                     ma_applied := ma_applied s1 + 1\<rparr>)
              }
          }
      })"

definition accounts_apply ::
  "Effect \<Rightarrow> MemoryAccounts \<Rightarrow> (unit result \<times> MemoryAccounts) option" where
  "accounts_apply effect s = move_columns (ef_debit effect) (ef_credit effect) effect s"

definition accounts_replay ::
  "Effect \<Rightarrow> MemoryAccounts \<Rightarrow> (unit result \<times> MemoryAccounts) option" where
  "accounts_replay effect s =
     (case accounts_resolve s (ef_debit_account effect) of
        None \<Rightarrow> Some (Inl (UnknownAccount (ef_debit_account effect)), s)
      | Some debit \<Rightarrow>
          (case accounts_resolve s (ef_credit_account effect) of
             None \<Rightarrow> Some (Inl (UnknownAccount (ef_credit_account effect)), s)
           | Some credit \<Rightarrow> move_columns debit credit effect s))"

section \<open>Invariants\<close>

text \<open>Every column is a running total between zero and \<open>i64::MAX\<close>.\<close>

definition columns_ok :: "AccountRecord \<Rightarrow> bool" where
  "columns_ok a \<longleftrightarrow>
     0 \<le> ac_debits_posted a \<and> ac_debits_posted a \<le> i64_max \<and>
     0 \<le> ac_credits_posted a \<and> ac_credits_posted a \<le> i64_max \<and>
     0 \<le> ac_debits_pending a \<and> ac_debits_pending a \<le> i64_max \<and>
     0 \<le> ac_credits_pending a \<and> ac_credits_pending a \<le> i64_max"

text \<open>The id list, the index and the records describe the same accounts.\<close>

definition accounts_wf :: "MemoryAccounts \<Rightarrow> bool" where
  "accounts_wf s \<longleftrightarrow>
     length (ma_ids s) = length (ma_records s) \<and> length (ma_records s) \<le> 2 ^ 32 \<and>
     (\<forall>i h. ma_index s i = Some h \<longrightarrow>
        handle_index h < length (ma_ids s) \<and> ma_ids s ! handle_index h = i) \<and>
     (\<forall>n < length (ma_ids s). ma_index s (ma_ids s ! n) = Some (handle_new n)) \<and>
     (\<forall>a \<in> set (ma_records s). columns_ok a)"

definition totals_balanced :: "MemoryAccounts \<Rightarrow> bool" where
  "totals_balanced s \<longleftrightarrow> balanced (column_totals s)"

section \<open>Column arithmetic\<close>

lemma column_check_Inr:
  "column_check v d = Inr u \<longleftrightarrow> 0 \<le> v + d \<and> i64_ok (v + d)"
  by (auto simp: column_check_def checked_add_def)

lemma column_sum_Inr:
  "column_sum v d = Inr w \<longleftrightarrow> w = v + d \<and> 0 \<le> v + d \<and> i64_ok (v + d)"
  by (auto simp: column_sum_def rbind_eq_Inr column_check_Inr i64_simps)

lemma can_credit_Inr:
  "can_credit a c = Inr u \<longleftrightarrow>
     0 \<le> ac_credits_posted a + cd_posted c \<and> i64_ok (ac_credits_posted a + cd_posted c) \<and>
     0 \<le> ac_credits_pending a + cd_pending c \<and> i64_ok (ac_credits_pending a + cd_pending c)"
  by (auto simp: can_credit_def rbind_eq_Inr column_check_Inr)

lemma apply_debit_Inr:
  "apply_debit a c = Inr b \<longleftrightarrow>
     b = a\<lparr>ac_debits_posted := ac_debits_posted a + cd_posted c,
           ac_debits_pending := ac_debits_pending a + cd_pending c\<rparr> \<and>
     0 \<le> ac_debits_posted a + cd_posted c \<and> i64_ok (ac_debits_posted a + cd_posted c) \<and>
     0 \<le> ac_debits_pending a + cd_pending c \<and> i64_ok (ac_debits_pending a + cd_pending c)"
  by (auto simp: apply_debit_def rbind_eq_Inr column_sum_Inr)

lemma apply_credit_Inr:
  "apply_credit a c = Inr b \<longleftrightarrow>
     can_credit a c = Inr () \<and>
     b = a\<lparr>ac_credits_posted := ac_credits_posted a + cd_posted c,
           ac_credits_pending := ac_credits_pending a + cd_pending c\<rparr>"
  by (auto simp: apply_credit_def rbind_eq_Inr column_sum_Inr can_credit_Inr)

lemma can_credit_apply_credit:
  "can_credit a c = Inr u \<Longrightarrow>
     apply_credit a c = Inr (a\<lparr>ac_credits_posted := ac_credits_posted a + cd_posted c,
                              ac_credits_pending := ac_credits_pending a + cd_pending c\<rparr>)"
  by (simp add: apply_credit_Inr)

lemma can_credit_after_debit:
  "apply_debit a c = Inr b \<Longrightarrow> can_credit b c = can_credit a c"
  by (auto simp: apply_debit_Inr can_credit_def)

text \<open>What the record of the debit side and of the credit side become.\<close>

definition debit_moved :: "ColumnDelta \<Rightarrow> AccountRecord \<Rightarrow> AccountRecord" where
  "debit_moved c a = a\<lparr>ac_debits_posted := ac_debits_posted a + cd_posted c,
                      ac_debits_pending := ac_debits_pending a + cd_pending c\<rparr>"

definition credit_moved :: "ColumnDelta \<Rightarrow> AccountRecord \<Rightarrow> AccountRecord" where
  "credit_moved c a = a\<lparr>ac_credits_posted := ac_credits_posted a + cd_posted c,
                       ac_credits_pending := ac_credits_pending a + cd_pending c\<rparr>"

definition columns_moved :: "nat \<Rightarrow> nat \<Rightarrow> ColumnDelta \<Rightarrow> AccountRecord list \<Rightarrow> AccountRecord list" where
  "columns_moved d k c rs =
     (let rs1 = rs[d := debit_moved c (rs ! d)] in rs1[k := credit_moved c (rs1 ! k)])"

lemma columns_moved_length [simp]: "length (columns_moved d k c rs) = length rs"
  by (simp add: columns_moved_def Let_def)

text \<open>The complete behaviour of \<open>move_columns\<close>: refused with nothing written, or both sides moved.\<close>

lemma move_columns_cases:
  assumes "move_columns d k e s = Some (r, s')"
  shows "(\<exists>err. r = Inl err \<and>
       rbind (can_credit (ma_records s ! handle_index k) (ef_columns e))
         (\<lambda>_. apply_debit (ma_records s ! handle_index d) (ef_columns e)) = Inl err) \<and> s' = s \<or>
     r = Inr () \<and> handle_index d < length (ma_records s) \<and> handle_index k < length (ma_records s) \<and>
     can_credit (ma_records s ! handle_index k) (ef_columns e) = Inr () \<and>
     (\<exists>b. apply_debit (ma_records s ! handle_index d) (ef_columns e) = Inr b) \<and>
     s' = s\<lparr>ma_records := columns_moved (handle_index d) (handle_index k) (ef_columns e) (ma_records s),
            ma_applied := ma_applied s + 1\<rparr>"
proof -
  let ?c = "ef_columns e" and ?d = "handle_index d" and ?k = "handle_index k" and ?rs = "ma_records s"
  from assms have k: "?k < length ?rs"
    by (auto simp: move_columns_def Let_def panic_simps)
  show ?thesis
  proof (cases "can_credit (?rs ! ?k) ?c")
    case (Inl err)
    with k have "move_columns d k e s = Some (Inl err, s)"
      by (simp add: move_columns_def Let_def)
    with assms have "r = Inl err \<and> s' = s" by auto
    with Inl show ?thesis by simp
  next
    case credit: (Inr u)
    with assms k have d: "?d < length ?rs"
      by (simp add: move_columns_def Let_def panic_simps)
    show ?thesis
    proof (cases "apply_debit (?rs ! ?d) ?c")
      case (Inl err)
      with k d credit have "move_columns d k e s = Some (Inl err, s)"
        by (simp add: move_columns_def Let_def)
      with assms have "r = Inl err \<and> s' = s" by auto
      with credit Inl show ?thesis by simp
    next
      case debit: (Inr near)
      then have near: "near = debit_moved ?c (?rs ! ?d)"
        by (simp add: apply_debit_Inr debit_moved_def)
      have "can_credit (?rs[?d := near] ! ?k) ?c = Inr u"
        using credit can_credit_after_debit [OF debit] by (cases "?d = ?k") (simp_all add: d k)
      from can_credit_apply_credit [OF this] k d credit debit
      have "move_columns d k e s = Some (Inr (), s\<lparr>ma_records := columns_moved ?d ?k ?c ?rs,
                                                 ma_applied := ma_applied s + 1\<rparr>)"
        by (simp add: move_columns_def Let_def columns_moved_def credit_moved_def near)
      with assms k d credit debit show ?thesis by simp
    qed
  qed
qed

lemma move_columns_total:
  assumes "handle_index d < length (ma_records s)" "handle_index k < length (ma_records s)"
  shows "\<exists>r s'. move_columns d k e s = Some (r, s')"
  using assms
  by (auto simp: move_columns_def Let_def vec_get_def split: sum.splits)

section \<open>Double entry\<close>

text \<open>A column summed as the code sums it is the exact sum, wrapped.\<close>

definition col_sum :: "(AccountRecord \<Rightarrow> Amount) \<Rightarrow> AccountRecord list \<Rightarrow> int" where
  "col_sum f rs = sum_list (map f rs)"

lemma totals_fold:
  "foldl totals_add t rs =
     \<lparr>lt_debits_posted = foldl (\<lambda>x a. i64_add x (ac_debits_posted a)) (lt_debits_posted t) rs,
      lt_credits_posted = foldl (\<lambda>x a. i64_add x (ac_credits_posted a)) (lt_credits_posted t) rs,
      lt_debits_pending = foldl (\<lambda>x a. i64_add x (ac_debits_pending a)) (lt_debits_pending t) rs,
      lt_credits_pending = foldl (\<lambda>x a. i64_add x (ac_credits_pending a)) (lt_credits_pending t) rs\<rparr>"
  by (induction rs arbitrary: t) (auto simp: totals_add_def)

lemma fold_i64_add:
  "wrap64 (foldl (\<lambda>x a. i64_add x (f a)) z rs) = wrap64 (z + col_sum f rs)"
proof (induction rs arbitrary: z)
  case (Cons a rs)
  then show ?case
    using wrap64_add_left [of "z + f a" "sum_list (map f rs)"]
    by (simp add: i64_add_def col_sum_def add.assoc)
qed (simp add: col_sum_def)

lemma fold_i64_ok: "i64_ok z \<Longrightarrow> i64_ok (foldl (\<lambda>x a. i64_add x (f a)) z rs)"
  by (induction rs arbitrary: z) auto

lemma column_totals_eq:
  "column_totals s =
     \<lparr>lt_debits_posted = wrap64 (col_sum ac_debits_posted (ma_records s)),
      lt_credits_posted = wrap64 (col_sum ac_credits_posted (ma_records s)),
      lt_debits_pending = wrap64 (col_sum ac_debits_pending (ma_records s)),
      lt_credits_pending = wrap64 (col_sum ac_credits_pending (ma_records s))\<rparr>"
proof -
  have "foldl (\<lambda>x a. i64_add x (f a)) 0 rs = wrap64 (col_sum f rs)" for f rs
    using fold_i64_add [of f 0 rs] wrap64_id [OF fold_i64_ok [of 0 f rs]] by simp
  then show ?thesis by (simp add: column_totals_def totals_fold)
qed

lemma col_sum_update:
  "i < length rs \<Longrightarrow> col_sum f (rs[i := a]) = col_sum f rs - f (rs ! i) + f a"
  by (induction rs arbitrary: i) (auto simp: col_sum_def nth_Cons' split: nat.splits)

lemma col_sum_moved:
  assumes "d < length rs" "k < length rs"
  shows "col_sum ac_debits_posted (columns_moved d k c rs) = col_sum ac_debits_posted rs + cd_posted c"
    and "col_sum ac_credits_posted (columns_moved d k c rs) = col_sum ac_credits_posted rs + cd_posted c"
    and "col_sum ac_debits_pending (columns_moved d k c rs) = col_sum ac_debits_pending rs + cd_pending c"
    and "col_sum ac_credits_pending (columns_moved d k c rs) = col_sum ac_credits_pending rs + cd_pending c"
  using assms
  by (auto simp: columns_moved_def Let_def col_sum_update credit_moved_def debit_moved_def nth_list_update)

lemma wrap64_eq_add: "wrap64 a = wrap64 b \<Longrightarrow> wrap64 (a + c) = wrap64 (b + c)"
  by (metis wrap64_add_left)

lemma columns_moved_balanced:
  assumes "totals_balanced s" "d < length (ma_records s)" "k < length (ma_records s)"
  shows "totals_balanced (s\<lparr>ma_records := columns_moved d k c (ma_records s), ma_applied := n\<rparr>)"
  using assms
  by (auto simp: totals_balanced_def balanced_def column_totals_eq col_sum_moved intro: wrap64_eq_add)

lemma move_columns_balanced:
  assumes "move_columns d k e s = Some (r, s')" "totals_balanced s"
  shows "totals_balanced s'"
proof -
  consider "s' = s" | "handle_index d < length (ma_records s)" "handle_index k < length (ma_records s)"
      "s' = s\<lparr>ma_records := columns_moved (handle_index d) (handle_index k) (ef_columns e) (ma_records s),
             ma_applied := ma_applied s + 1\<rparr>"
    using move_columns_cases [OF assms(1)] by blast
  then show ?thesis
    by cases (use assms(2) columns_moved_balanced in auto)
qed

lemma columns_moved_ok:
  assumes d: "d < length rs" and k: "k < length rs"
    and ok: "\<forall>a \<in> set rs. columns_ok a"
    and credit: "can_credit (rs ! k) c = Inr ()" and debit: "apply_debit (rs ! d) c = Inr b"
  shows "\<forall>a \<in> set (columns_moved d k c rs). columns_ok a"
proof -
  have near: "columns_ok (debit_moved c (rs ! d))"
    using ok d debit by (auto simp: columns_ok_def debit_moved_def apply_debit_Inr i64_ok_def i64_max_def)
  let ?rs1 = "rs[d := debit_moved c (rs ! d)]"
  have rs1: "\<forall>a \<in> set ?rs1. columns_ok a"
    using ok near by (auto dest: set_update_subset_insert [THEN subsetD])
  have "can_credit (?rs1 ! k) c = Inr ()"
    using credit d k by (auto simp: nth_list_update debit_moved_def can_credit_def)
  then have "columns_ok (credit_moved c (?rs1 ! k))"
    using rs1 k by (auto simp: columns_ok_def credit_moved_def can_credit_Inr i64_ok_def i64_max_def)
  then show ?thesis
    using rs1 unfolding columns_moved_def Let_def
    by (auto dest: set_update_subset_insert [THEN subsetD])
qed

lemma move_columns_wf:
  assumes "move_columns d k e s = Some (r, s')" "accounts_wf s"
  shows "accounts_wf s'"
  using move_columns_cases [OF assms(1)]
proof (elim disjE conjE exE)
  fix b
  assume "handle_index d < length (ma_records s)" "handle_index k < length (ma_records s)"
    "can_credit (ma_records s ! handle_index k) (ef_columns e) = Inr ()"
    "apply_debit (ma_records s ! handle_index d) (ef_columns e) = Inr b"
    and s': "s' = s\<lparr>ma_records := columns_moved (handle_index d) (handle_index k) (ef_columns e) (ma_records s),
             ma_applied := ma_applied s + 1\<rparr>"
  from columns_moved_ok [OF this(1,2) _ this(3,4)] assms(2)
  show ?thesis by (auto simp: s' accounts_wf_def)
qed (use assms(2) in auto)

lemma move_columns_frame:
  assumes "move_columns d k e s = Some (r, s')"
  shows "ma_ids s' = ma_ids s \<and> ma_index s' = ma_index s
       \<and> length (ma_records s') = length (ma_records s)"
  using move_columns_cases [OF assms] by auto

text \<open>What an applied effect does to the available balance of each account.\<close>

lemma columns_moved_static:
  "d < length rs \<Longrightarrow> k < length rs \<Longrightarrow>
     ac_flags (columns_moved d k c rs ! i) = ac_flags (rs ! i) \<and>
     ac_ledger (columns_moved d k c rs ! i) = ac_ledger (rs ! i)"
  by (auto simp: columns_moved_def Let_def nth_list_update credit_moved_def debit_moved_def)

section \<open>Claims on the account component\<close>

text \<open>C10: a committed effect lands on both sides or on neither. When the store refuses an effect its
  state is exactly what it was, records and applied count included; when it accepts, the debit side's
  two columns and the credit side's two columns have moved by the same delta and nothing else has
  changed but the count.\<close>

theorem effect_moves_both_sides_or_neither:
  assumes "accounts_apply e s = Some (r, s')"
  shows "case r of
     Inl err \<Rightarrow> s' = s
   | Inr _ \<Rightarrow> s' = s\<lparr>ma_records := columns_moved (handle_index (ef_debit e)) (handle_index (ef_credit e))
                          (ef_columns e) (ma_records s), ma_applied := ma_applied s + 1\<rparr>"
  using move_columns_cases [of "ef_debit e" "ef_credit e" e s r s'] assms
  by (auto simp: accounts_apply_def split: sum.splits)

definition sample_effect :: Effect where
  "sample_effect = \<lparr>ef_tx_id = 7, ef_pending_ref = 0, ef_debit_account = 1, ef_credit_account = 2,
     ef_amount = 100, ef_remaining_after = 0, ef_debit = 0, ef_credit = 1, ef_chain = 0,
     ef_budget = 0, ef_ledger = 1, ef_kind = Post\<rparr>"

definition sample_accounts :: MemoryAccounts where
  "sample_accounts = snd (accounts_open 2 1 AF_CONSTRAINED (snd (accounts_open 1 1 AF_NONE accounts_empty)))"

lemmas sample_accounts_eval = sample_accounts_def sample_effect_def accounts_open_def accounts_empty_def
  account_new_def handle_new_def handle_index_def AF_NONE_def AF_CONSTRAINED_def Let_def

lemma sample_apply:
  "accounts_apply sample_effect sample_accounts =
     Some (Inr (), sample_accounts\<lparr>ma_records :=
       [(account_new 1 AF_NONE)\<lparr>ac_debits_posted := 100\<rparr>,
        (account_new 1 AF_CONSTRAINED)\<lparr>ac_credits_posted := 100\<rparr>], ma_applied := 1\<rparr>)"
  by (simp add: accounts_apply_def move_columns_def ef_columns_def can_credit_def apply_debit_def
        apply_credit_def column_sum_def column_check_def checked_add_def i64_ok_def i64_add_def
        wrap64_def sample_accounts_eval)

theorem effect_moves_both_sides_or_neither_witness:
  "ma_records (sample_accounts\<lparr>ma_records :=
       [(account_new 1 AF_NONE)\<lparr>ac_debits_posted := 100\<rparr>,
        (account_new 1 AF_CONSTRAINED)\<lparr>ac_credits_posted := 100\<rparr>], ma_applied := 1\<rparr>) =
     columns_moved 0 1 (ef_columns sample_effect) (ma_records sample_accounts)"
  using effect_moves_both_sides_or_neither [OF sample_apply]
  by (simp add: sample_effect_def handle_index_def)

fun apply_all :: "(Effect \<Rightarrow> MemoryAccounts \<Rightarrow> (unit result \<times> MemoryAccounts) option)
                  \<Rightarrow> Effect list \<Rightarrow> MemoryAccounts \<Rightarrow> MemoryAccounts option" where
  "apply_all step [] s = Some s"
| "apply_all step (e # es) s = Option.bind (step e s) (\<lambda>(r, s'). apply_all step es s')"

lemma accounts_replay_cases:
  "accounts_replay e s = Some (r, s') \<Longrightarrow> s' = s \<or> (\<exists>d k. move_columns d k e s = Some (r, s'))"
  by (auto simp: accounts_replay_def split: option.splits)

lemma apply_all_keeps:
  assumes "\<And>e s r s'. step e s = Some (r, s') \<Longrightarrow> P s \<Longrightarrow> P s'"
    and "apply_all step es s = Some s'" and "P s"
  shows "P s'"
  using assms(2,3)
proof (induction es arbitrary: s)
  case (Cons e es)
  then obtain r t where "step e s = Some (r, t)" "apply_all step es t = Some s'"
    by (auto simp: panic_simps)
  then show ?case using Cons assms(1) by blast
qed simp

text \<open>C9: double entry. Whatever effects a leader applies or a follower replays, refused ones included, the
  posted debits and credits of the whole ledger stay equal and so do the pending ones, summed the way
  the ledger sums them, wrap-around included; and every column of every account stays between zero and
  \<open>i64::MAX\<close>.\<close>

theorem double_entry_preserved:
  assumes "step \<in> {accounts_apply, accounts_replay}" and "apply_all step es s = Some s'"
    and "accounts_wf s" and "totals_balanced s"
  shows "balanced (column_totals s') \<and> accounts_wf s'"
proof -
  have one: "totals_balanced u \<and> accounts_wf u"
    if "step e t = Some (r, u)" "totals_balanced t \<and> accounts_wf t" for e t r u
    using that assms(1) accounts_replay_cases [of e t r u] move_columns_balanced move_columns_wf
    by (auto simp: accounts_apply_def)
  have "totals_balanced s' \<and> accounts_wf s'"
    by (rule apply_all_keeps [where P = "\<lambda>t. totals_balanced t \<and> accounts_wf t", OF one assms(2)])
       (use assms in auto)
  then show ?thesis by (simp add: totals_balanced_def)
qed

lemma handle_round_trip: "n < 2 ^ 32 \<Longrightarrow> handle_index (handle_new n) = n"
  by (simp add: handle_index_def handle_new_def unat_of_nat)

lemma handle_index_bound: "handle_index h < 2 ^ 32"
  using unsigned_less [of h] by (simp add: handle_index_def)

lemma sample_accounts_wf: "accounts_wf sample_accounts" "totals_balanced sample_accounts"
  by (auto simp: accounts_wf_def columns_ok_def totals_balanced_def balanced_def column_totals_def
        totals_add_def i64_add_def wrap64_def i64_max_def sample_accounts_eval nth_Cons' less_Suc_eq
        split: if_splits)

theorem double_entry_preserved_witness:
  "balanced (column_totals (sample_accounts\<lparr>ma_records :=
       [(account_new 1 AF_NONE)\<lparr>ac_debits_posted := 100\<rparr>,
        (account_new 1 AF_CONSTRAINED)\<lparr>ac_credits_posted := 100\<rparr>], ma_applied := 1\<rparr>))"
proof -
  have "apply_all accounts_apply [sample_effect] sample_accounts = Some (sample_accounts\<lparr>ma_records :=
       [(account_new 1 AF_NONE)\<lparr>ac_debits_posted := 100\<rparr>,
        (account_new 1 AF_CONSTRAINED)\<lparr>ac_credits_posted := 100\<rparr>], ma_applied := 1\<rparr>)"
    by (simp add: sample_apply)
  from double_entry_preserved [OF _ this sample_accounts_wf] show ?thesis by simp
qed

section \<open>Leader and follower\<close>

text \<open>
  The abstract ledger is a map from account ids to their four columns; a movement names accounts by id.
  Handles are one node's shortcut, so two nodes that opened the same accounts in different orders are
  the same abstract ledger.
\<close>

definition ledger_view :: "MemoryAccounts \<Rightarrow> AccountId \<Rightarrow> AccountRecord option" where
  "ledger_view s i = map_option (\<lambda>h. ma_records s ! handle_index h) (ma_index s i)"

definition ledger_move ::
  "AccountId \<Rightarrow> AccountId \<Rightarrow> ColumnDelta \<Rightarrow> (AccountId \<rightharpoonup> AccountRecord) \<Rightarrow>
   unit result \<times> (AccountId \<rightharpoonup> AccountRecord)" where
  "ledger_move d k c m =
     (case rbind (can_credit (the (m k)) c) (\<lambda>_. apply_debit (the (m d)) c) of
        Inl e \<Rightarrow> (Inl e, m)
      | Inr near \<Rightarrow> let m1 = m(d \<mapsto> near) in (Inr (), m1(k \<mapsto> credit_moved c (the (m1 k)))))"

lemma index_injective:
  assumes "accounts_wf s" "ma_index s i = Some h" "ma_index s j = Some g"
  shows "handle_index h = handle_index g \<longleftrightarrow> i = j"
  using assms unfolding accounts_wf_def by (metis option.inject)

lemma view_record_update:
  assumes wf: "accounts_wf s" and i: "ma_index s i = Some h"
  shows "ledger_view (s\<lparr>ma_records := (ma_records s)[handle_index h := a]\<rparr>) = (ledger_view s)(i \<mapsto> a)"
proof
  fix j
  have h: "handle_index h < length (ma_records s)" using wf i by (auto simp: accounts_wf_def)
  show "ledger_view (s\<lparr>ma_records := (ma_records s)[handle_index h := a]\<rparr>) j = ((ledger_view s)(i \<mapsto> a)) j"
    using h i index_injective [OF wf i, of j]
    by (cases "ma_index s j") (auto simp: ledger_view_def nth_list_update)
qed

lemma ledger_view_cong: "ledger_view (s\<lparr>ma_records := rs, ma_applied := n\<rparr>) = ledger_view (s\<lparr>ma_records := rs\<rparr>)"
  by (simp add: ledger_view_def fun_eq_iff)

lemma view_columns_moved:
  assumes wf: "accounts_wf s" and d: "ma_index s D = Some d" and k: "ma_index s K = Some k"
  shows "ledger_view (s\<lparr>ma_records := columns_moved (handle_index d) (handle_index k) c (ma_records s)\<rparr>) =
     (let m1 = (ledger_view s)(D \<mapsto> debit_moved c (the (ledger_view s D)))
      in m1(K \<mapsto> credit_moved c (the (m1 K))))"
proof -
  let ?near = "debit_moved c (ma_records s ! handle_index d)"
  let ?s1 = "s\<lparr>ma_records := (ma_records s)[handle_index d := ?near]\<rparr>"
  have D: "ledger_view s D = Some (ma_records s ! handle_index d)" using d by (simp add: ledger_view_def)
  have s1: "ledger_view ?s1 = (ledger_view s)(D \<mapsto> ?near)" by (rule view_record_update [OF wf d])
  have inj: "handle_index h = handle_index g \<longleftrightarrow> i = j"
    if "ma_index ?s1 i = Some h" "ma_index ?s1 j = Some g" for i j h g
    using index_injective [OF wf] that by simp
  have k1: "ma_index ?s1 K = Some k" using k by simp
  have len: "handle_index k < length (ma_records ?s1)" using wf k by (auto simp: accounts_wf_def)
  have K: "ledger_view ?s1 K = Some (ma_records ?s1 ! handle_index k)" using k by (simp add: ledger_view_def)
  have "ledger_view (?s1\<lparr>ma_records := (ma_records ?s1)[handle_index k := a]\<rparr>) x = ((ledger_view ?s1)(K \<mapsto> a)) x" for a x
    using len k inj [OF k1, of x] by (cases "ma_index s x") (auto simp: ledger_view_def nth_list_update)
  then have "ledger_view (?s1\<lparr>ma_records := (ma_records ?s1)[handle_index k := a]\<rparr>) = (ledger_view ?s1)(K \<mapsto> a)" for a
    by blast
  then show ?thesis
    using s1 D K by (simp add: columns_moved_def Let_def)
qed

lemma move_columns_refines:
  assumes wf: "accounts_wf s" and d: "ma_index s D = Some d" and k: "ma_index s K = Some k"
    and mv: "move_columns d k e s = Some (r, s')"
  shows "ledger_move D K (ef_columns e) (ledger_view s) = (r, ledger_view s')"
proof -
  let ?c = "ef_columns e"
  have D: "ledger_view s D = Some (ma_records s ! handle_index d)"
    and K: "ledger_view s K = Some (ma_records s ! handle_index k)"
    using d k by (simp_all add: ledger_view_def)
  show ?thesis
  proof (cases "rbind (can_credit (ma_records s ! handle_index k) ?c)
                  (\<lambda>_. apply_debit (ma_records s ! handle_index d) ?c)")
    case (Inl err)
    with move_columns_cases [OF mv] D K show ?thesis
      by (auto simp: ledger_move_def)
  next
    case (Inr near)
    then have near: "near = debit_moved ?c (ma_records s ! handle_index d)"
      by (auto simp: rbind_eq_Inr apply_debit_Inr debit_moved_def)
    have "r = Inr ()" "ledger_view s' =
        ledger_view (s\<lparr>ma_records := columns_moved (handle_index d) (handle_index k) ?c (ma_records s)\<rparr>)"
      using move_columns_cases [OF mv] Inr by (auto simp: ledger_view_cong)
    then show ?thesis
      using Inr D K view_columns_moved [OF wf d k, of ?c] near
      by (simp add: ledger_move_def Let_def)
  qed
qed

text \<open>C11: the store refines the abstract ledger. A movement by handle computes what the movement by id
  computes on the abstract map, with the same verdict: the handles are only a shortcut.\<close>

theorem store_refines_abstract_ledger:
  assumes "accounts_wf s" and "ma_index s D = Some d" and "ma_index s K = Some k"
    and "move_columns d k e s = Some (r, s')"
  shows "ledger_move D K (ef_columns e) (ledger_view s) = (r, ledger_view s')"
  using assms by (rule move_columns_refines)

text \<open>The store's own view never names an account outside its index.\<close>

lemma move_columns_index: "move_columns d k e s = Some (r, s') \<Longrightarrow> ma_index s' = ma_index s"
  using move_columns_frame by blast

theorem store_refines_abstract_ledger_witness:
  "fst (ledger_move 1 2 (ef_columns sample_effect) (ledger_view sample_accounts)) = Inr ()"
proof -
  have "ma_index sample_accounts 1 = Some 0" "ma_index sample_accounts 2 = Some 1"
    by (simp_all add: sample_accounts_eval)
  moreover have "move_columns 0 1 sample_effect sample_accounts =
      Some (Inr (), sample_accounts\<lparr>ma_records :=
       [(account_new 1 AF_NONE)\<lparr>ac_debits_posted := 100\<rparr>,
        (account_new 1 AF_CONSTRAINED)\<lparr>ac_credits_posted := 100\<rparr>], ma_applied := 1\<rparr>)"
    using sample_apply by (simp add: accounts_apply_def sample_effect_def)
  ultimately show ?thesis
    using store_refines_abstract_ledger [OF sample_accounts_wf(1)] by (metis fst_conv)
qed

definition handles_resolve :: "MemoryAccounts \<Rightarrow> Effect \<Rightarrow> bool" where
  "handles_resolve s e \<longleftrightarrow>
     ma_index s (ef_debit_account e) = Some (ef_debit e) \<and>
     ma_index s (ef_credit_account e) = Some (ef_credit e)"

lemma move_columns_in_range:
  assumes "accounts_wf s" "ma_index s D = Some d" "ma_index s K = Some k"
  shows "\<exists>r s'. move_columns d k e s = Some (r, s')"
  by (rule move_columns_total) (use assms in \<open>auto simp: accounts_wf_def\<close>)

lemma ledger_view_dom: "dom (ledger_view s) = dom (ma_index s)"
  by (auto simp: ledger_view_def)

lemma ledger_view_None: "ledger_view s i = None \<longleftrightarrow> ma_index s i = None"
  by (simp add: ledger_view_def)

lemma applied_count:
  "move_columns d k e s = Some (r, s') \<Longrightarrow> ma_applied s' = ma_applied s + (case r of Inl _ \<Rightarrow> 0 | Inr _ \<Rightarrow> 1)"
  using move_columns_cases [of d k e s r s'] by auto

lemma follower_step:
  assumes wf: "accounts_wf s" "accounts_wf t" and eq: "ledger_view s = ledger_view t"
    and cnt: "ma_applied s = ma_applied t"
    and res: "handles_resolve s e" and ap: "accounts_apply e s = Some (r, s')"
  shows "\<exists>t'. accounts_replay e t = Some (r, t') \<and> ledger_view s' = ledger_view t'
             \<and> accounts_wf s' \<and> accounts_wf t' \<and> ma_index s' = ma_index s \<and> ma_applied s' = ma_applied t'"
proof -
  from res have s: "ma_index s (ef_debit_account e) = Some (ef_debit e)"
      "ma_index s (ef_credit_account e) = Some (ef_credit e)"
    by (auto simp: handles_resolve_def)
  have "ma_index t (ef_debit_account e) \<noteq> None" "ma_index t (ef_credit_account e) \<noteq> None"
    using s eq ledger_view_None by (metis option.distinct(1))+
  then obtain d k where t: "ma_index t (ef_debit_account e) = Some d" "ma_index t (ef_credit_account e) = Some k"
    by blast
  obtain r2 t' where mv: "move_columns d k e t = Some (r2, t')"
    using move_columns_in_range [OF wf(2) t] by blast
  have ap': "move_columns (ef_debit e) (ef_credit e) e s = Some (r, s')"
    using ap by (simp add: accounts_apply_def)
  have "(r, ledger_view s') = (r2, ledger_view t')"
    using move_columns_refines [OF wf(1) s ap'] move_columns_refines [OF wf(2) t mv] eq by simp
  then show ?thesis
    using mv t ap' wf cnt move_columns_wf [OF ap' wf(1)] move_columns_wf [OF mv wf(2)]
      move_columns_index [OF ap'] applied_count [OF ap'] applied_count [OF mv]
    by (auto simp: accounts_replay_def accounts_resolve_def)
qed

text \<open>C12: a follower that replays the leader's log by account id, having opened the same accounts in any
  order, ends with the same four columns for every account and the same applied count as the leader that
  applied it by handle.\<close>

theorem follower_replays_leader:
  assumes "accounts_wf s" "accounts_wf t" "ledger_view s = ledger_view t" "ma_applied s = ma_applied t"
    and "\<forall>e \<in> set es. handles_resolve s e"
    and "apply_all accounts_apply es s = Some s'"
  shows "\<exists>t'. apply_all accounts_replay es t = Some t' \<and> ledger_view t' = ledger_view s'
            \<and> ma_applied t' = ma_applied s'"
  using assms
proof (induction es arbitrary: s t)
  case (Cons e es)
  from Cons.prems(6) obtain r u where ap: "accounts_apply e s = Some (r, u)"
    and rest: "apply_all accounts_apply es u = Some s'"
    by (auto simp: panic_simps)
  obtain v where v: "accounts_replay e t = Some (r, v)" "ledger_view u = ledger_view v"
      "accounts_wf u" "accounts_wf v" "ma_index u = ma_index s" "ma_applied u = ma_applied v"
    using follower_step [OF Cons.prems(1-4) _ ap] Cons.prems(5) by auto
  have "\<forall>e \<in> set es. handles_resolve u e"
    using Cons.prems(5) v(5) by (simp add: handles_resolve_def)
  with Cons.IH [OF v(3,4,2,6) _ rest] v(1) show ?case by auto
qed auto

definition sample_follower :: MemoryAccounts where
  "sample_follower = snd (accounts_open 1 1 AF_NONE (snd (accounts_open 2 1 AF_CONSTRAINED accounts_empty)))"

lemma sample_follower_wf:
  "accounts_wf sample_follower" "ledger_view sample_accounts = ledger_view sample_follower"
  "ma_applied sample_accounts = ma_applied sample_follower" "handles_resolve sample_accounts sample_effect"
  by (auto simp: accounts_wf_def columns_ok_def i64_max_def sample_follower_def sample_accounts_eval
        ledger_view_def handles_resolve_def fun_eq_iff nth_Cons' less_Suc_eq split: if_splits)

theorem follower_replays_leader_witness:
  "\<exists>t'. apply_all accounts_replay [sample_effect] sample_follower = Some t' \<and>
     ma_applied t' = 1 \<and> map_option ac_credits_posted (ledger_view t' 2) = Some 100"
proof -
  let ?s' = "sample_accounts\<lparr>ma_records :=
       [(account_new 1 AF_NONE)\<lparr>ac_debits_posted := 100\<rparr>,
        (account_new 1 AF_CONSTRAINED)\<lparr>ac_credits_posted := 100\<rparr>], ma_applied := 1\<rparr>"
  have run: "apply_all accounts_apply [sample_effect] sample_accounts = Some ?s'"
    by (simp add: sample_apply)
  have "map_option ac_credits_posted (ledger_view ?s' 2) = Some 100" "ma_applied ?s' = 1"
    by (simp_all add: ledger_view_def sample_accounts_eval)
  then show ?thesis
    using follower_replays_leader [OF sample_accounts_wf(1) sample_follower_wf(1,2,3) _ run]
      sample_follower_wf(4) by auto
qed

end
