(* ===== verification/Lanes.thy ===== *)
theory Lanes
  imports Base_Types
begin

text \<open>
  One account's lane from the sequencer's side and the table of them
  (\<open>sequencer/src/state/lane.rs\<close>). The counters keep their source widths: seqs are \<open>u64\<close>,
  requests in flight \<open>u32\<close>, outstanding pending replies \<open>u16\<close>, and all of them wrap the way a
  release build does. The lemmas show the contract-1 check (a lane judges exactly the seqs it issued, in
  order), that reserving and releasing an effect are inverse, and that the table only ever grows with
  default lanes.
\<close>

record LaneState =
  ln_seq_counter :: Seq
  ln_last_seq :: Seq
  ln_speculative :: Amount
  ln_in_flight :: u32
  ln_pending_replies :: u16
  ln_quarantined :: bool

definition lane_default :: LaneState where
  "lane_default = \<lparr>ln_seq_counter = 0, ln_last_seq = 0, ln_speculative = 0, ln_in_flight = 0,
     ln_pending_replies = 0, ln_quarantined = False\<rparr>"

definition MAX_PENDING_REPLIES :: u16 where
  "MAX_PENDING_REPLIES = - 1"

definition issue_seq :: "LaneState \<Rightarrow> Seq \<times> LaneState" where
  "issue_seq l = (let c = ln_seq_counter l + 1 in (c, l\<lparr>ln_seq_counter := c\<rparr>))"

definition accept_seq :: "Seq \<Rightarrow> LaneState \<Rightarrow> unit result \<times> LaneState" where
  "accept_seq seq l =
     (let expected = ln_last_seq l + 1 in
      if seq \<noteq> expected then (Inl (SeqGap expected seq), l)
      else (Inr (), l\<lparr>ln_last_seq := seq\<rparr>))"

definition lane_reserve :: "Amount \<Rightarrow> LaneState \<Rightarrow> LaneState" where
  "lane_reserve amount l = l\<lparr>ln_speculative := i64_sub (ln_speculative l) amount\<rparr>"

definition lane_release :: "Amount \<Rightarrow> LaneState \<Rightarrow> LaneState" where
  "lane_release amount l = l\<lparr>ln_speculative := i64_add (ln_speculative l) amount\<rparr>"

definition awaits_pending_reply :: "LaneState \<Rightarrow> bool" where
  "awaits_pending_reply l \<longleftrightarrow> ln_pending_replies l > 0"

definition has_reply_capacity :: "LaneState \<Rightarrow> bool" where
  "has_reply_capacity l \<longleftrightarrow> ln_pending_replies l < MAX_PENDING_REPLIES"

definition expect_pending_reply :: "LaneState \<Rightarrow> LaneState" where
  "expect_pending_reply l = l\<lparr>ln_pending_replies := ln_pending_replies l + 1\<rparr>"

definition pending_reply_arrived :: "LaneState \<Rightarrow> LaneState" where
  "pending_reply_arrived l = l\<lparr>ln_pending_replies := ln_pending_replies l - 1\<rparr>"

definition lane_entered :: "LaneState \<Rightarrow> LaneState" where
  "lane_entered l = l\<lparr>ln_in_flight := ln_in_flight l + 1\<rparr>"

definition lane_left :: "LaneState \<Rightarrow> LaneState" where
  "lane_left l = l\<lparr>ln_in_flight := ln_in_flight l - 1\<rparr>"

definition lane_quarantine :: "LaneState \<Rightarrow> LaneState" where
  "lane_quarantine l = l\<lparr>ln_quarantined := True\<rparr>"

definition lane_release_quarantine :: "LaneState \<Rightarrow> unit result \<times> LaneState" where
  "lane_release_quarantine l =
     (if ln_in_flight l > 0 then (Inl QuarantineDraining, l)
      else (Inr (), l\<lparr>ln_quarantined := False, ln_seq_counter := ln_last_seq l\<rparr>))"

section \<open>The table\<close>

type_synonym LaneTable = "LaneState list"

definition lanes_try_get :: "LaneTable \<Rightarrow> AcctHandle \<Rightarrow> LaneState option" where
  "lanes_try_get t h = (if handle_index h < length t then Some (t ! handle_index h) else None)"

text \<open>\<open>get\<close> indexes without checking: out of range is a panic.\<close>

definition lanes_get :: "LaneTable \<Rightarrow> AcctHandle \<Rightarrow> LaneState option" where
  "lanes_get t h = vec_get t (handle_index h)"

text \<open>\<open>get_mut\<close> grows the table with default lanes first, so it never panics; the lane it lends
  out is rewritten by \<open>f\<close>.\<close>

definition lanes_grow :: "nat \<Rightarrow> LaneTable \<Rightarrow> LaneTable" where
  "lanes_grow n t = (if n \<ge> length t then t @ replicate (n + 1 - length t) lane_default else t)"

definition lanes_get_mut :: "AcctHandle \<Rightarrow> (LaneState \<Rightarrow> LaneState) \<Rightarrow> LaneTable \<Rightarrow> LaneTable" where
  "lanes_get_mut h f t =
     (let t' = lanes_grow (handle_index h) t in t'[handle_index h := f (t' ! handle_index h)])"

text \<open>The lane \<open>get_mut\<close> lends, as it is before it is written.\<close>

definition lanes_peek :: "LaneTable \<Rightarrow> AcctHandle \<Rightarrow> LaneState" where
  "lanes_peek t h = lanes_grow (handle_index h) t ! handle_index h"

definition lanes_reserve :: "Effect \<Rightarrow> LaneTable \<Rightarrow> LaneTable" where
  "lanes_reserve effect t =
     (let amount = ef_reservation effect in
      if amount \<noteq> 0 then lanes_get_mut (ef_debit effect) (lane_reserve amount) t else t)"

definition lanes_release :: "Effect \<Rightarrow> LaneTable \<Rightarrow> LaneTable" where
  "lanes_release effect t =
     (let amount = ef_reservation effect in
      if amount \<noteq> 0 then lanes_get_mut (ef_debit effect) (lane_release amount) t else t)"

definition overlay_total :: "LaneTable \<Rightarrow> Amount" where
  "overlay_total t = foldl i64_add 0 (map ln_speculative t)"

section \<open>The lane a handle has, made or not\<close>

definition lane_at :: "LaneTable \<Rightarrow> nat \<Rightarrow> LaneState" where
  "lane_at t n = (if n < length t then t ! n else lane_default)"

lemma lanes_grow_lane_at [simp]: "lane_at (lanes_grow n t) m = lane_at t m"
  by (auto simp: lane_at_def lanes_grow_def nth_append)

lemma lanes_grow_length [simp]: "length (lanes_grow n t) = max (length t) (n + 1)"
  by (auto simp: lanes_grow_def)

lemma lanes_peek_eq: "lanes_peek t h = lane_at t (handle_index h)"
proof -
  have "handle_index h < length (lanes_grow (handle_index h) t)" by simp
  then have "lanes_peek t h = lane_at (lanes_grow (handle_index h) t) (handle_index h)"
    unfolding lanes_peek_def lane_at_def by simp
  then show ?thesis by simp
qed

lemma lane_at_get_mut:
  "lane_at (lanes_get_mut h f t) n =
     (if n = handle_index h then f (lane_at t n) else lane_at t n)"
proof -
  let ?t = "lanes_grow (handle_index h) t"
  have len: "handle_index h < length ?t" by simp
  have "lane_at (lanes_get_mut h f t) n = (if n = handle_index h then f (lane_at ?t n) else lane_at ?t n)"
    using len unfolding lanes_get_mut_def Let_def lane_at_def by (auto simp: nth_list_update)
  then show ?thesis by simp
qed

lemma length_get_mut [simp]: "length (lanes_get_mut h f t) = max (length t) (handle_index h + 1)"
  by (simp add: lanes_get_mut_def Let_def)

lemma lanes_get_Some: "lanes_get t h = Some l \<longleftrightarrow> handle_index h < length t \<and> l = lane_at t (handle_index h)"
  by (auto simp: lanes_get_def vec_get_Some lane_at_def)

lemma lanes_get_in_range [simp]: "handle_index h < length t \<Longrightarrow> lanes_get t h = Some (lane_at t (handle_index h))"
  by (simp add: lanes_get_Some)

lemma lane_at_reserve:
  "lane_at (lanes_reserve e t) n =
     (if n = handle_index (ef_debit e) \<and> ef_reservation e \<noteq> 0
      then lane_reserve (ef_reservation e) (lane_at t n) else lane_at t n)"
  by (auto simp: lanes_reserve_def Let_def lane_at_get_mut)

lemma lane_at_release:
  "lane_at (lanes_release e t) n =
     (if n = handle_index (ef_debit e) \<and> ef_reservation e \<noteq> 0
      then lane_release (ef_reservation e) (lane_at t n) else lane_at t n)"
  by (auto simp: lanes_release_def Let_def lane_at_get_mut)

lemma lanes_reserve_length: "length t \<le> length (lanes_reserve e t)"
  by (simp add: lanes_reserve_def Let_def)

lemma lanes_release_length: "length t \<le> length (lanes_release e t)"
  by (simp add: lanes_release_def Let_def)

lemmas lane_ops = issue_seq_def accept_seq_def lane_reserve_def lane_release_def awaits_pending_reply_def
  has_reply_capacity_def expect_pending_reply_def pending_reply_arrived_def lane_entered_def
  lane_left_def lane_quarantine_def lane_release_quarantine_def

section \<open>Contract 1\<close>

text \<open>A lane accepting a run of seqs, stopping at the first gap.\<close>

fun accept_run :: "Seq list \<Rightarrow> LaneState \<Rightarrow> unit result \<times> LaneState" where
  "accept_run [] l = (Inr (), l)"
| "accept_run (s # ss) l =
     (case accept_seq s l of (Inl e, l') \<Rightarrow> (Inl e, l') | (Inr _, l') \<Rightarrow> accept_run ss l')"

fun issue_run :: "nat \<Rightarrow> LaneState \<Rightarrow> Seq list \<times> LaneState" where
  "issue_run 0 l = ([], l)"
| "issue_run (Suc n) l =
     (let (s, l1) = issue_seq l; (ss, l2) = issue_run n l1 in (s # ss, l2))"

text \<open>The \<open>n\<close> seqs that follow \<open>a\<close>.\<close>

fun seqs_after :: "Seq \<Rightarrow> nat \<Rightarrow> Seq list" where
  "seqs_after a 0 = []"
| "seqs_after a (Suc n) = (a + 1) # seqs_after (a + 1) n"

lemma seqs_after_length [simp]: "length (seqs_after a n) = n"
  by (induction n arbitrary: a) auto

lemma issue_run_eq:
  "issue_run n l =
     (seqs_after (ln_seq_counter l) n, l\<lparr>ln_seq_counter := ln_seq_counter l + word_of_nat n\<rparr>)"
  by (induction n arbitrary: l) (auto simp: issue_seq_def Let_def algebra_simps)

lemma accept_run_iff:
  "accept_run ss l = (Inr (), l') \<longleftrightarrow>
     ss = seqs_after (ln_last_seq l) (length ss)
     \<and> l' = l\<lparr>ln_last_seq := ln_last_seq l + word_of_nat (length ss)\<rparr>"
  by (induction ss arbitrary: l) (auto simp: accept_seq_def Let_def algebra_simps)

lemma accept_run_gap:
  "accept_run (seqs_after (ln_last_seq l) n @ s # ss) l =
     (if s = ln_last_seq l + word_of_nat n + 1
      then accept_run ss (l\<lparr>ln_last_seq := s\<rparr>)
      else (Inl (SeqGap (ln_last_seq l + word_of_nat n + 1) s),
            l\<lparr>ln_last_seq := ln_last_seq l + word_of_nat n\<rparr>))"
proof (induction n arbitrary: l)
  case (Suc n)
  have "accept_run (seqs_after (ln_last_seq l) (Suc n) @ s # ss) l =
      accept_run (seqs_after (ln_last_seq (l\<lparr>ln_last_seq := ln_last_seq l + 1\<rparr>)) n @ s # ss)
        (l\<lparr>ln_last_seq := ln_last_seq l + 1\<rparr>)"
    by (simp add: accept_seq_def Let_def)
  then show ?case unfolding Suc.IH by (simp add: algebra_simps)
qed (auto simp: accept_seq_def Let_def)

text \<open>Contract 1 from the lane's side. A lane accepts a run of replies completely exactly when they
  carry, in order, the seqs that continue the last one it judged; and a reply out of order is reported
  with the seq that was expected and the one that came, leaving the lane at the last seq it judged.\<close>

theorem lane_accepts_exactly_in_order:
  "(accept_run ss l = (Inr (), l') \<longleftrightarrow>
     ss = seqs_after (ln_last_seq l) (length ss)
     \<and> l' = l\<lparr>ln_last_seq := ln_last_seq l + word_of_nat (length ss)\<rparr>)
   \<and> (s \<noteq> ln_last_seq l + word_of_nat n + 1 \<longrightarrow>
       accept_run (seqs_after (ln_last_seq l) n @ s # rest) l =
         (Inl (SeqGap (ln_last_seq l + word_of_nat n + 1) s),
          l\<lparr>ln_last_seq := ln_last_seq l + word_of_nat n\<rparr>))"
  by (simp add: accept_run_iff accept_run_gap)

theorem lane_accepts_exactly_in_order_witness:
  "accept_run [1, 2, 4, 3] lane_default = (Inl (SeqGap 3 4), lane_default\<lparr>ln_last_seq := 2\<rparr>)"
  using lane_accepts_exactly_in_order [of "[]" lane_default lane_default 4 2 "[3]"]
  by (simp add: lane_default_def numeral_2_eq_2)

text \<open>Seqs issued by an idle lane and delivered back in the order they were issued are all accepted,
  and afterwards the lane is idle again: last judged equals last issued.\<close>

theorem issued_seqs_are_accepted:
  assumes "ln_last_seq l = ln_seq_counter l" and "issue_run n l = (ss, l1)"
  shows "accept_run ss l1 =
     (Inr (), l\<lparr>ln_seq_counter := ln_seq_counter l + word_of_nat n,
                ln_last_seq := ln_seq_counter l + word_of_nat n\<rparr>)"
  using assms by (auto simp: issue_run_eq accept_run_iff)

theorem issued_seqs_are_accepted_witness:
  "accept_run [1, 2] (lane_default\<lparr>ln_seq_counter := 2\<rparr>) =
     (Inr (), lane_default\<lparr>ln_seq_counter := 2, ln_last_seq := 2\<rparr>)"
  using issued_seqs_are_accepted [of lane_default 2 "[1, 2]" "lane_default\<lparr>ln_seq_counter := 2\<rparr>"]
  by (simp add: lane_default_def issue_run_eq numeral_2_eq_2)

section \<open>The overlay\<close>

lemma lane_reserve_release [simp]:
  "i64_ok (ln_speculative l) \<Longrightarrow> lane_release a (lane_reserve a l) = l"
  by (simp add: lane_reserve_def lane_release_def i64_add_def i64_sub_def wrap64_id)

lemma lanes_reserve_release:
  assumes "\<forall>n. i64_ok (ln_speculative (lane_at t n))"
  shows "lane_at (lanes_release e (lanes_reserve e t)) n = lane_at t n"
  using assms by (auto simp: lane_at_release lane_at_reserve)

end
