(* ===== verification/Channels.thy ===== *)
theory Channels
  imports Base_Types
begin

text \<open>
  The queues between threads (\<open>base/src/spsc.rs\<close>). The contract every client relies on is a bounded
  first-in first-out queue, stated as a locale; the ring buffer with its wrapping indices and cached
  ends is interpreted as one, and so is the list the other theories carry as a queue's contents. Each
  operation of one end is one step here: the two ends interleave, and the cached copies of the other
  end's index go stale, but a step itself is not cut in half.
\<close>

section \<open>The contract: a bounded first-in first-out queue\<close>

locale bounded_fifo =
  fixes push :: "'a \<Rightarrow> 'q \<Rightarrow> bool \<times> 'q"
    and pop :: "'q \<Rightarrow> 'a option \<times> 'q"
    and contents :: "'q \<Rightarrow> 'a list"
    and capacity :: "'q \<Rightarrow> nat"
    and invar :: "'q \<Rightarrow> bool"
  assumes push_invar: "invar q \<Longrightarrow> invar (snd (push x q))"
    and pop_invar: "invar q \<Longrightarrow> invar (snd (pop q))"
    and push_ok: "invar q \<Longrightarrow> fst (push x q) \<longleftrightarrow> length (contents q) < capacity q"
    and push_contents: "invar q \<Longrightarrow>
      contents (snd (push x q)) = (if fst (push x q) then contents q @ [x] else contents q)"
    and pop_contents: "invar q \<Longrightarrow>
      (case contents q of [] \<Rightarrow> fst (pop q) = None \<and> contents (snd (pop q)) = []
       | y # ys \<Rightarrow> fst (pop q) = Some y \<and> contents (snd (pop q)) = ys)"
    and push_capacity: "invar q \<Longrightarrow> capacity (snd (push x q)) = capacity q"
    and pop_capacity: "invar q \<Longrightarrow> capacity (snd (pop q)) = capacity q"
begin

text \<open>A schedule of the two ends: each entry is a push by the producer or a pop by the consumer. The run
  yields what the producer had accepted, what the consumer received, and the queue.\<close>

fun run :: "'a option list \<Rightarrow> 'q \<Rightarrow> 'a list \<times> 'a list \<times> 'q" where
  "run [] q = ([], [], q)"
| "run (Some x # ops) q =
     (let (ok, q') = push x q; (acc, rec, q'') = run ops q'
      in (if ok then x # acc else acc, rec, q''))"
| "run (None # ops) q =
     (let (y, q') = pop q; (acc, rec, q'') = run ops q'
      in (acc, (case y of None \<Rightarrow> rec | Some v \<Rightarrow> v # rec), q''))"

lemma run_invar: "invar q \<Longrightarrow> run ops q = (acc, rec, q') \<Longrightarrow> invar q' \<and> capacity q' = capacity q"
proof (induction ops arbitrary: q acc rec q')
  case (Cons op ops)
  show ?case
  proof (cases op)
    case None
    obtain y q1 where p: "pop q = (y, q1)" by force
    obtain acc1 rec1 q2 where r: "run ops q1 = (acc1, rec1, q2)" by (cases "run ops q1") auto
    have "q2 = q'" using Cons.prems p r None by simp
    then show ?thesis
      using Cons.IH [OF _ r] pop_invar [OF Cons.prems(1)] pop_capacity [OF Cons.prems(1)] p by simp
  next
    case (Some x)
    obtain ok q1 where p: "push x q = (ok, q1)" by force
    obtain acc1 rec1 q2 where r: "run ops q1 = (acc1, rec1, q2)" by (cases "run ops q1") auto
    have "q2 = q'" using Cons.prems p r Some by simp
    then show ?thesis
      using Cons.IH [OF _ r] push_invar [OF Cons.prems(1), of x] push_capacity [OF Cons.prems(1), of x] p
      by simp
  qed
qed simp

text \<open>Nothing is lost, invented or reordered, whatever the interleaving.\<close>

lemma run_fifo: "invar q \<Longrightarrow> run ops q = (acc, rec, q') \<Longrightarrow> contents q @ acc = rec @ contents q'"
proof (induction ops arbitrary: q acc rec q')
  case (Cons op ops)
  show ?case
  proof (cases op)
    case None
    obtain y q1 where p: "pop q = (y, q1)" by force
    obtain acc1 rec1 q2 where r: "run ops q1 = (acc1, rec1, q2)" by (cases "run ops q1") auto
    have step: "contents q1 @ acc1 = rec1 @ contents q2"
      using Cons.IH [OF _ r] pop_invar [OF Cons.prems(1)] p by simp
    have "acc = acc1" "rec = (case y of None \<Rightarrow> rec1 | Some v \<Rightarrow> v # rec1)" "q' = q2"
      using Cons.prems p r None by simp_all
    then show ?thesis
      using step p pop_contents [OF Cons.prems(1)] by (auto split: list.splits)
  next
    case (Some x)
    obtain ok q1 where p: "push x q = (ok, q1)" by force
    obtain acc1 rec1 q2 where r: "run ops q1 = (acc1, rec1, q2)" by (cases "run ops q1") auto
    have step: "contents q1 @ acc1 = rec1 @ contents q2"
      using Cons.IH [OF _ r] push_invar [OF Cons.prems(1), of x] p by simp
    have "acc = (if ok then x # acc1 else acc1)" "rec = rec1" "q' = q2"
      using Cons.prems p r Some by simp_all
    then show ?thesis
      using step p push_contents [OF Cons.prems(1), of x] by (cases ok) auto
  qed
qed simp

lemma push_bound: "invar q \<Longrightarrow> length (contents q) \<le> capacity q \<Longrightarrow>
  length (contents (snd (push x q))) \<le> capacity (snd (push x q))"
  by (simp add: push_contents push_ok push_capacity)

end

section \<open>A queue as its contents\<close>

text \<open>What the reactor's model carries for a channel: the elements in flight and the capacity.\<close>

record 'a Channel =
  ch_items :: "'a list"
  ch_capacity :: nat

definition chan_push :: "'a \<Rightarrow> 'a Channel \<Rightarrow> bool \<times> 'a Channel" where
  "chan_push x c =
     (if length (ch_items c) < ch_capacity c then (True, c\<lparr>ch_items := ch_items c @ [x]\<rparr>) else (False, c))"

definition chan_pop :: "'a Channel \<Rightarrow> 'a option \<times> 'a Channel" where
  "chan_pop c =
     (case ch_items c of [] \<Rightarrow> (None, c) | x # xs \<Rightarrow> (Some x, c\<lparr>ch_items := xs\<rparr>))"

interpretation chan: bounded_fifo chan_push chan_pop ch_items ch_capacity "\<lambda>_. True"
  by unfold_locales (auto simp: chan_push_def chan_pop_def split: list.splits)

lemma chan_push_items:
  "chan_push x c = (ok, c') \<Longrightarrow>
     ch_items c' = (if ok then ch_items c @ [x] else ch_items c) \<and> ch_capacity c' = ch_capacity c"
  by (auto simp: chan_push_def split: if_splits)

section \<open>The ring (spsc.rs)\<close>

text \<open>
  \<open>head\<close> and \<open>tail\<close> are the shared atomics; each end also keeps its own index and a cached copy of
  the other's. A slot is \<open>None\<close> while uninitialised.
\<close>

record 'a Ring =
  rg_slots :: "'a option list"
  rg_mask :: u64
  rg_head :: u64
  rg_tail :: u64
  pd_tail :: u64
  pd_cached_head :: u64
  cs_head :: u64
  cs_cached_tail :: u64

definition ring_capacity :: "'a Ring \<Rightarrow> u64" where
  "ring_capacity r = rg_mask r + 1"

definition ring_channel :: "nat \<Rightarrow> 'a Ring" where
  "ring_channel cap =
     \<lparr>rg_slots = replicate (next_power_of_two cap) None,
      rg_mask = word_of_nat (next_power_of_two cap - 1), rg_head = 0, rg_tail = 0,
      pd_tail = 0, pd_cached_head = 0, cs_head = 0, cs_cached_tail = 0\<rparr>"

definition ring_slot :: "'a Ring \<Rightarrow> u64 \<Rightarrow> nat" where
  "ring_slot r i = unat (i AND rg_mask r)"

definition producer_push :: "'a \<Rightarrow> 'a Ring \<Rightarrow> bool \<times> 'a Ring" where
  "producer_push value r =
     (let tail = pd_tail r;
          r1 = (if tail - pd_cached_head r = ring_capacity r
                then r\<lparr>pd_cached_head := rg_head r\<rparr> else r) in
      if tail - pd_cached_head r = ring_capacity r \<and> tail - pd_cached_head r1 = ring_capacity r
      then (False, r1)
      else (True, r1\<lparr>rg_slots := (rg_slots r1)[ring_slot r1 tail := Some value],
                     rg_tail := tail + 1, pd_tail := tail + 1\<rparr>))"

definition consumer_pop :: "'a Ring \<Rightarrow> 'a option \<times> 'a Ring" where
  "consumer_pop r =
     (let head = cs_head r;
          r1 = (if head = cs_cached_tail r then r\<lparr>cs_cached_tail := rg_tail r\<rparr> else r) in
      if head = cs_cached_tail r \<and> head = cs_cached_tail r1 then (None, r1)
      else (rg_slots r1 ! ring_slot r1 head,
            r1\<lparr>rg_slots := (rg_slots r1)[ring_slot r1 head := None],
               rg_head := head + 1, cs_head := head + 1\<rparr>))"

text \<open>\<open>push_from\<close>: one release store for a whole batch; \<open>fill\<close> supplies the values.\<close>

fun ring_fill :: "nat \<Rightarrow> (nat \<Rightarrow> 'a) \<Rightarrow> u64 \<Rightarrow> 'a Ring \<Rightarrow> 'a Ring" where
  "ring_fill 0 fill tail r = r"
| "ring_fill (Suc n) fill tail r =
     (let r1 = ring_fill n fill tail r in
      r1\<lparr>rg_slots := (rg_slots r1)[ring_slot r1 (tail + word_of_nat n) := Some (fill n)]\<rparr>)"

definition producer_push_from :: "nat \<Rightarrow> (nat \<Rightarrow> 'a) \<Rightarrow> 'a Ring \<Rightarrow> nat \<times> 'a Ring" where
  "producer_push_from count fill r =
     (let tail = pd_tail r;
          free = unat (ring_capacity r - (tail - pd_cached_head r));
          r1 = (if free < count then r\<lparr>pd_cached_head := rg_head r\<rparr> else r);
          free' = unat (ring_capacity r1 - (tail - pd_cached_head r1));
          taken = min free' count;
          r2 = ring_fill taken fill tail r1 in
      (taken, r2\<lparr>rg_tail := tail + word_of_nat taken, pd_tail := tail + word_of_nat taken\<rparr>))"

definition ring_len :: "'a Ring \<Rightarrow> u64" where
  "ring_len r = rg_tail r - rg_head r"

text \<open>A producer with one slot of its own for what a full ring refused. A send while stuck overwrites
  the slot, which the source only asserts against in a debug build.\<close>

record 'a StagedProducer =
  sp_producer :: "'a Ring"
  sp_staged :: "'a option"

definition staged_is_stuck :: "'a StagedProducer \<Rightarrow> bool" where
  "staged_is_stuck p \<longleftrightarrow> sp_staged p \<noteq> None"

definition staged_send :: "'a \<Rightarrow> 'a StagedProducer \<Rightarrow> 'a StagedProducer" where
  "staged_send value p =
     (case producer_push value (sp_producer p) of
        (True, r) \<Rightarrow> p\<lparr>sp_producer := r\<rparr>
      | (False, r) \<Rightarrow> p\<lparr>sp_producer := r, sp_staged := Some value\<rparr>)"

definition staged_flush :: "'a StagedProducer \<Rightarrow> bool \<times> 'a StagedProducer" where
  "staged_flush p =
     (case sp_staged p of
        None \<Rightarrow> (True, p)
      | Some value \<Rightarrow>
          (case producer_push value (sp_producer p) of
             (True, r) \<Rightarrow> (True, p\<lparr>sp_producer := r, sp_staged := None\<rparr>)
           | (False, r) \<Rightarrow> (False, p\<lparr>sp_producer := r, sp_staged := Some value\<rparr>)))"

section \<open>The ring is a bounded queue\<close>

definition ring_contents :: "'a Ring \<Rightarrow> 'a list" where
  "ring_contents r =
     map (\<lambda>i. the (rg_slots r ! ring_slot r (rg_head r + word_of_nat i))) [0..<unat (ring_len r)]"

definition ring_invar :: "'a Ring \<Rightarrow> bool" where
  "ring_invar r \<longleftrightarrow>
     (\<exists>k < 64. length (rg_slots r) = 2 ^ k \<and> rg_mask r = mask k) \<and>
     pd_tail r = rg_tail r \<and> cs_head r = rg_head r \<and>
     unat (rg_tail r - pd_cached_head r) \<le> length (rg_slots r) \<and>
     unat (rg_tail r - rg_head r) \<le> unat (rg_tail r - pd_cached_head r) \<and>
     unat (cs_cached_tail r - rg_head r) \<le> unat (rg_tail r - rg_head r) \<and>
     (\<forall>i < unat (ring_len r). rg_slots r ! ring_slot r (rg_head r + word_of_nat i) \<noteq> None)"

lemma ring_shape:
  assumes "ring_invar r"
  obtains k where "k < 64" "length (rg_slots r) = 2 ^ k" "rg_mask r = mask k"
  using assms unfolding ring_invar_def by blast

lemma unat_and_mask: "unat (w AND mask k) = unat w mod 2 ^ k"
  by (simp only: take_bit_eq_mask [symmetric] unsigned_take_bit_eq) (simp only: take_bit_eq_mod)

lemma ring_slot_mod:
  assumes "ring_invar r"
  shows "ring_slot r w = unat w mod length (rg_slots r)"
  using ring_shape [OF assms] by (metis ring_slot_def unat_and_mask)

lemma slots_dvd:
  assumes "ring_invar r"
  shows "length (rg_slots r) dvd 2 ^ 64" "0 < length (rg_slots r)" "length (rg_slots r) \<le> 2 ^ 63"
proof -
  obtain k where k: "k < 64" "length (rg_slots r) = 2 ^ k" using ring_shape [OF assms] by blast
  show "length (rg_slots r) dvd 2 ^ 64" unfolding k(2) by (rule le_imp_power_dvd) (use k in simp)
  show "0 < length (rg_slots r)" using k by simp
  show "length (rg_slots r) \<le> 2 ^ 63" unfolding k(2) by (rule power_increasing) (use k in simp_all)
qed

lemma ring_slot_offset:
  assumes "ring_invar r"
  shows "ring_slot r (w + word_of_nat i) = (unat w + i) mod length (rg_slots r)"
proof -
  let ?N = "length (rg_slots r)"
  have "unat (w + word_of_nat i) = (unat w + i) mod 2 ^ 64"
    by (simp add: unat_word_ariths unat_of_nat mod_add_right_eq)
  then show ?thesis
    using slots_dvd(1) [OF assms] ring_slot_mod [OF assms] by (simp only: mod_mod_cancel)
qed

lemma offset_inj:
  assumes "(h + i) mod N = (h + j) mod N" "i < N" "j < (N::nat)"
  shows "i = j"
  using assms
proof (induction i j rule: linorder_wlog)
  case (le i j)
  then have "N dvd (h + j) - (h + i)" by (metis add_left_mono mod_eq_dvd_iff_nat)
  then have "N dvd j - i" by simp
  with le show ?case by (metis diff_is_0_eq dvd_imp_le le_antisym less_imp_diff_less not_le zero_less_diff)
qed auto

lemma upt_split_first: "0 < n \<Longrightarrow> [0..<n] = 0 # map Suc [0..<n - 1]"
  by (simp add: map_Suc_upt upt_conv_Cons)

lemma unat_of_nat_u64: "n < 2 ^ 64 \<Longrightarrow> unat (word_of_nat n :: u64) = n"
  by (simp add: unat_of_nat)

lemma ring_capacity_eq:
  assumes "ring_invar r"
  shows "unat (ring_capacity r) = length (rg_slots r)"
proof -
  obtain k where k: "k < 64" "length (rg_slots r) = 2 ^ k" "rg_mask r = mask k"
    using ring_shape [OF assms] by blast
  have "ring_capacity r = 2 ^ k" using k by (simp add: ring_capacity_def mask_eq_exp_minus_1)
  moreover have "unat (2 ^ k :: u64) = 2 ^ k"
  proof -
    have "(2 ^ k :: nat) < 2 ^ 64" using k(1) by (rule power_strict_increasing) simp
    then have "unat (word_of_nat (2 ^ k) :: u64) = 2 ^ k"
      by (rule unat_of_nat_u64)
    then show ?thesis by simp
  qed
  ultimately show ?thesis using k by simp
qed

lemma ring_invar_parts:
  assumes "ring_invar r"
  shows "pd_tail r = rg_tail r" "cs_head r = rg_head r"
    "unat (rg_tail r - pd_cached_head r) \<le> length (rg_slots r)"
    "unat (rg_tail r - rg_head r) \<le> unat (rg_tail r - pd_cached_head r)"
    "unat (cs_cached_tail r - rg_head r) \<le> unat (rg_tail r - rg_head r)"
  using assms by (auto simp: ring_invar_def)

lemma ring_contents_length [simp]: "length (ring_contents r) = unat (ring_len r)"
  by (simp add: ring_contents_def)

text \<open>The producer may re-read the head at any time; nothing it can see changes.\<close>

lemma refresh_head:
  assumes "ring_invar r"
  shows "ring_invar (r\<lparr>pd_cached_head := rg_head r\<rparr>)"
  using assms by (auto simp: ring_invar_def ring_slot_def ring_len_def)

lemma refresh_tail:
  assumes "ring_invar r"
  shows "ring_invar (r\<lparr>cs_cached_tail := rg_tail r\<rparr>)"
  using assms by (auto simp: ring_invar_def ring_slot_def ring_len_def)

lemma refresh_contents [simp]:
  "ring_contents (r\<lparr>pd_cached_head := w\<rparr>) = ring_contents r"
  "ring_contents (r\<lparr>cs_cached_tail := w\<rparr>) = ring_contents r"
  "ring_len (r\<lparr>pd_cached_head := w\<rparr>) = ring_len r"
  "ring_len (r\<lparr>cs_cached_tail := w\<rparr>) = ring_len r"
  "ring_capacity (r\<lparr>pd_cached_head := w\<rparr>) = ring_capacity r"
  "ring_capacity (r\<lparr>cs_cached_tail := w\<rparr>) = ring_capacity r"
  by (simp_all add: ring_contents_def ring_len_def ring_slot_def ring_capacity_def)

text \<open>Writing one slot behind the tail and publishing it.\<close>

definition ring_append :: "'a \<Rightarrow> 'a Ring \<Rightarrow> 'a Ring" where
  "ring_append value r =
     r\<lparr>rg_slots := (rg_slots r)[ring_slot r (rg_tail r) := Some value],
       rg_tail := rg_tail r + 1, pd_tail := rg_tail r + 1\<rparr>"

lemma unat_Suc: "unat w < 2 ^ 63 \<Longrightarrow> unat (w + 1 :: u64) = unat w + 1"
  by (simp add: unat_word_ariths)

lemma ring_append_ok:
  assumes inv: "ring_invar r" and room: "unat (rg_tail r - pd_cached_head r) < length (rg_slots r)"
  shows "ring_invar (ring_append v r)" "ring_contents (ring_append v r) = ring_contents r @ [v]"
proof -
  let ?N = "length (rg_slots r)" and ?n = "unat (ring_len r)" and ?r = "ring_append v r"
  note parts = ring_invar_parts [OF inv]
  have N: "?N \<le> 2 ^ 63" using slots_dvd(3) [OF inv] .
  have n: "?n < ?N" using room parts by (simp add: ring_len_def)
  have tail: "rg_tail r = rg_head r + word_of_nat ?n" by (simp add: ring_len_def)
  have slot: "ring_slot r (rg_head r + word_of_nat i) = (unat (rg_head r) + i) mod ?N" for i
    by (rule ring_slot_offset [OF inv])
  have pos: "ring_slot r (rg_head r + word_of_nat i) < ?N" for i
    unfolding slot using slots_dvd(2) [OF inv] by (rule mod_less_divisor)
  have same: "ring_slot ?r w = ring_slot r w" for w by (simp add: ring_append_def ring_slot_def)
  have head: "rg_head ?r = rg_head r" by (simp add: ring_append_def)
  have slots: "rg_slots ?r = (rg_slots r)[ring_slot r (rg_head r + word_of_nat ?n) := Some v]"
    unfolding ring_append_def using tail by simp
  have read: "rg_slots ?r ! ring_slot ?r (rg_head ?r + word_of_nat i) =
      (if i = ?n then Some v else rg_slots r ! ring_slot r (rg_head r + word_of_nat i))" if "i \<le> ?n" for i
  proof -
    have "ring_slot r (rg_head r + word_of_nat i) = ring_slot r (rg_head r + word_of_nat ?n) \<longleftrightarrow> i = ?n"
      unfolding slot using that n offset_inj [of "unat (rg_head r)" i ?N ?n] by auto
    then show ?thesis
      unfolding same head slots using pos [of ?n] by (simp only: nth_list_update if_cancel) auto
  qed
  have len: "unat (ring_len ?r) = ?n + 1"
  proof -
    have "ring_len ?r = ring_len r + 1" by (simp add: ring_append_def ring_len_def)
    moreover have "?n < 2 ^ 63" using n N by simp
    ultimately show ?thesis using unat_Suc [of "ring_len r"] by simp
  qed
  have cached: "unat (rg_tail r + 1 - pd_cached_head r) = unat (rg_tail r - pd_cached_head r) + 1"
  proof -
    have "unat (rg_tail r - pd_cached_head r) < 2 ^ 63" using room N by simp
    moreover have "rg_tail r + 1 - pd_cached_head r = rg_tail r - pd_cached_head r + 1"
      by (simp add: algebra_simps)
    ultimately show ?thesis using unat_Suc [of "rg_tail r - pd_cached_head r"] by (simp only:)
  qed
  have len': "unat (rg_tail r + 1 - rg_head r) = ?n + 1"
    using len by (simp add: ring_append_def ring_len_def)
  have written: "\<forall>i < unat (ring_len ?r). rg_slots ?r ! ring_slot ?r (rg_head ?r + word_of_nat i) \<noteq> None"
    using inv read by (auto simp: len less_Suc_eq_le ring_invar_def)
  obtain k where k: "k < 64" "?N = 2 ^ k" "rg_mask r = mask k" using ring_shape [OF inv] by blast
  show "ring_invar ?r"
    unfolding ring_invar_def
    using written k parts cached len' room
    by (auto simp: ring_append_def ring_len_def)
  have "ring_contents ?r = map (\<lambda>i. the (rg_slots ?r ! ring_slot ?r (rg_head ?r + word_of_nat i))) ([0..<?n] @ [?n])"
    by (simp add: ring_contents_def len)
  also have "\<dots> = map (\<lambda>i. the (rg_slots r ! ring_slot r (rg_head r + word_of_nat i))) [0..<?n] @ [v]"
  proof -
    have "map (\<lambda>i. the (rg_slots ?r ! ring_slot ?r (rg_head ?r + word_of_nat i))) [0..<?n] =
        map (\<lambda>i. the (rg_slots r ! ring_slot r (rg_head r + word_of_nat i))) [0..<?n]"
      by (rule map_cong [OF refl]) (simp only: read set_upt atLeastLessThan_iff less_imp_le, auto)
    moreover have "the (rg_slots ?r ! ring_slot ?r (rg_head ?r + word_of_nat ?n)) = v"
      unfolding read [OF order_refl] by (simp only: refl if_True option.sel)
    ultimately show ?thesis by (simp only: map_append list.map)
  qed
  also have "\<dots> = ring_contents r @ [v]"
    by (simp add: ring_contents_def)
  finally show "ring_contents ?r = ring_contents r @ [v]" .
qed

lemma producer_push_eq:
  assumes inv: "ring_invar r"
  obtains r1 where "ring_invar r1" "ring_contents r1 = ring_contents r" "ring_capacity r1 = ring_capacity r"
    "length (rg_slots r1) = length (rg_slots r)"
    "producer_push v r =
       (if unat (ring_len r) < length (rg_slots r) then (True, ring_append v r1) else (False, r1))"
    "unat (ring_len r) < length (rg_slots r) \<longrightarrow> unat (rg_tail r1 - pd_cached_head r1) < length (rg_slots r1)"
proof -
  let ?r1 = "if rg_tail r - pd_cached_head r = ring_capacity r then r\<lparr>pd_cached_head := rg_head r\<rparr> else r"
  note parts = ring_invar_parts [OF inv]
  have cap: "w = ring_capacity r \<longleftrightarrow> unat w = length (rg_slots r)" for w
    using ring_capacity_eq [OF inv] by (metis unsigned_word_eqI)
  have "ring_invar ?r1" using inv refresh_head [OF inv] by simp
  moreover have "ring_contents ?r1 = ring_contents r" "ring_capacity ?r1 = ring_capacity r"
    "length (rg_slots ?r1) = length (rg_slots r)" by simp_all
  moreover have "producer_push v r =
       (if unat (ring_len r) < length (rg_slots r) then (True, ring_append v ?r1) else (False, ?r1))"
    using parts by (simp add: producer_push_def Let_def ring_append_def cap ring_len_def)
  moreover have "unat (ring_len r) < length (rg_slots r) \<longrightarrow>
      unat (rg_tail ?r1 - pd_cached_head ?r1) < length (rg_slots ?r1)"
    using parts by (auto simp: cap ring_len_def)
  ultimately show ?thesis by (rule that)
qed

lemma consumer_pop_eq:
  assumes inv: "ring_invar r"
  obtains r1 where "ring_invar r1" "ring_contents r1 = ring_contents r" "ring_capacity r1 = ring_capacity r"
    "ring_len r1 = ring_len r" "length (rg_slots r1) = length (rg_slots r)"
    "consumer_pop r =
       (if ring_len r = 0 then (None, r1)
        else (rg_slots r1 ! ring_slot r1 (rg_head r1),
              r1\<lparr>rg_slots := (rg_slots r1)[ring_slot r1 (rg_head r1) := None],
                 rg_head := rg_head r1 + 1, cs_head := rg_head r1 + 1\<rparr>))"
    "ring_len r \<noteq> 0 \<longrightarrow> cs_cached_tail r1 \<noteq> rg_head r1"
proof -
  let ?r1 = "if rg_head r = cs_cached_tail r then r\<lparr>cs_cached_tail := rg_tail r\<rparr> else r"
  note parts = ring_invar_parts [OF inv]
  have "ring_invar ?r1" using inv refresh_tail [OF inv] by simp
  moreover have "ring_contents ?r1 = ring_contents r" "ring_capacity ?r1 = ring_capacity r"
    "ring_len ?r1 = ring_len r" "length (rg_slots ?r1) = length (rg_slots r)" by simp_all
  moreover have "consumer_pop r =
       (if ring_len r = 0 then (None, ?r1)
        else (rg_slots ?r1 ! ring_slot ?r1 (rg_head ?r1),
              ?r1\<lparr>rg_slots := (rg_slots ?r1)[ring_slot ?r1 (rg_head ?r1) := None],
                 rg_head := rg_head ?r1 + 1, cs_head := rg_head ?r1 + 1\<rparr>))"
    using parts by (auto simp: consumer_pop_def Let_def ring_len_def unat_eq_0)
  moreover have "ring_len r \<noteq> 0 \<longrightarrow> cs_cached_tail ?r1 \<noteq> rg_head ?r1"
    using parts by (auto simp: ring_len_def)
  ultimately show ?thesis by (rule that)
qed

text \<open>Reading the slot at the head and publishing that it is free.\<close>

lemma ring_take_ok:
  assumes inv: "ring_invar r" and some: "ring_len r \<noteq> 0" and cached: "cs_cached_tail r \<noteq> rg_head r"
    and r': "r' = r\<lparr>rg_slots := (rg_slots r)[ring_slot r (rg_head r) := None],
                   rg_head := rg_head r + 1, cs_head := rg_head r + 1\<rparr>"
  shows "ring_invar r'" "\<exists>y. rg_slots r ! ring_slot r (rg_head r) = Some y \<and> ring_contents r = y # ring_contents r'"
proof -
  let ?N = "length (rg_slots r)" and ?n = "unat (ring_len r)"
  note parts = ring_invar_parts [OF inv]
  have pred: "unat (w - 1) = unat w - 1" if "w \<noteq> 0" for w :: u64 using that by (rule unat_minus_one)
  have n0: "0 < ?n" using some by (simp add: unat_gt_0)
  have nN: "?n \<le> ?N" using parts by (simp add: ring_len_def)
  have len: "unat (ring_len r') = ?n - 1"
    using pred [OF some] by (simp add: r' ring_len_def algebra_simps)
  have slot: "ring_slot r (rg_head r + word_of_nat i) = (unat (rg_head r) + i) mod ?N" for i
    by (rule ring_slot_offset [OF inv])
  have same: "ring_slot r' w = ring_slot r w" for w by (simp add: r' ring_slot_def)
  have head: "rg_head r' + word_of_nat i = rg_head r + word_of_nat (Suc i)" for i
    by (simp add: r')
  have read: "rg_slots r' ! ring_slot r' (rg_head r' + word_of_nat i) =
      rg_slots r ! ring_slot r (rg_head r + word_of_nat (Suc i))" if "i < ?n - 1" for i
  proof -
    have "ring_slot r (rg_head r + word_of_nat (Suc i)) \<noteq> ring_slot r (rg_head r + word_of_nat 0)"
    proof -
      have "Suc i < ?N" "0 < ?N" using that nN by linarith+
      then show ?thesis unfolding slot using offset_inj [of "unat (rg_head r)" "Suc i" ?N 0] by blast
    qed
    then show ?thesis unfolding same head by (simp add: r')
  qed
  have old: "\<forall>i < ?n. rg_slots r ! ring_slot r (rg_head r + word_of_nat i) \<noteq> None"
    using inv by (simp add: ring_invar_def)
  have written: "\<forall>i < unat (ring_len r'). rg_slots r' ! ring_slot r' (rg_head r' + word_of_nat i) \<noteq> None"
    unfolding len
  proof (intro allI impI)
    fix i assume "i < ?n - 1"
    with old read [OF this] show "rg_slots r' ! ring_slot r' (rg_head r' + word_of_nat i) \<noteq> None"
      by (simp only:) (meson less_diff_conv Suc_eq_plus1)
  qed
  have c: "unat (cs_cached_tail r - (rg_head r + 1)) = unat (cs_cached_tail r - rg_head r) - 1"
    using pred [of "cs_cached_tail r - rg_head r"] cached by (simp add: algebra_simps)
  have t: "unat (rg_tail r - (rg_head r + 1)) = unat (rg_tail r - rg_head r) - 1"
    using len by (simp add: r' ring_len_def)
  obtain k where k: "k < 64" "?N = 2 ^ k" "rg_mask r = mask k" using ring_shape [OF inv] by blast
  show "ring_invar r'"
    unfolding ring_invar_def using written k parts c t by (auto simp: r')
  obtain y where y: "rg_slots r ! ring_slot r (rg_head r) = Some y" using old [rule_format, OF n0] by auto
  have "[0..<?n] = 0 # map Suc [0..<?n - 1]"
    by (rule upt_split_first [OF n0])
  then have "ring_contents r = y # map (\<lambda>i. the (rg_slots r ! ring_slot r (rg_head r + word_of_nat (Suc i)))) [0..<?n - 1]"
    using y by (simp add: ring_contents_def comp_def)
  also have "\<dots> = y # ring_contents r'"
    using read by (simp add: ring_contents_def len)
  finally show "\<exists>y. rg_slots r ! ring_slot r (rg_head r) = Some y \<and> ring_contents r = y # ring_contents r'"
    using y by blast
qed

lemma ring_append_frame [simp]:
  "length (rg_slots (ring_append v r)) = length (rg_slots r)"
  "ring_capacity (ring_append v r) = ring_capacity r"
  "rg_head (ring_append v r) = rg_head r"
  "pd_cached_head (ring_append v r) = pd_cached_head r"
  "rg_tail (ring_append v r) = rg_tail r + 1"
  by (simp_all add: ring_append_def ring_capacity_def)

lemma ring_push_law:
  assumes "ring_invar r"
  shows "ring_invar (snd (producer_push v r))"
    "fst (producer_push v r) \<longleftrightarrow> length (ring_contents r) < length (rg_slots r)"
    "ring_contents (snd (producer_push v r)) =
       (if fst (producer_push v r) then ring_contents r @ [v] else ring_contents r)"
    "length (rg_slots (snd (producer_push v r))) = length (rg_slots r)"
proof -
  obtain r1 where r1: "ring_invar r1" "ring_contents r1 = ring_contents r"
    "length (rg_slots r1) = length (rg_slots r)"
    "unat (ring_len r) < length (rg_slots r) \<longrightarrow> unat (rg_tail r1 - pd_cached_head r1) < length (rg_slots r1)"
    and push: "producer_push v r =
       (if unat (ring_len r) < length (rg_slots r) then (True, ring_append v r1) else (False, r1))"
    using producer_push_eq [OF assms, of v] by metis
  show "ring_invar (snd (producer_push v r))"
    "fst (producer_push v r) \<longleftrightarrow> length (ring_contents r) < length (rg_slots r)"
    "ring_contents (snd (producer_push v r)) =
       (if fst (producer_push v r) then ring_contents r @ [v] else ring_contents r)"
    "length (rg_slots (snd (producer_push v r))) = length (rg_slots r)"
    using push r1 ring_append_ok [OF r1(1), of v] by simp_all
qed

lemma ring_pop_law:
  assumes "ring_invar r"
  shows "ring_invar (snd (consumer_pop r))"
    "case ring_contents r of [] \<Rightarrow> fst (consumer_pop r) = None \<and> ring_contents (snd (consumer_pop r)) = []
     | y # ys \<Rightarrow> fst (consumer_pop r) = Some y \<and> ring_contents (snd (consumer_pop r)) = ys"
    "length (rg_slots (snd (consumer_pop r))) = length (rg_slots r)"
proof -
  obtain r1 where r1: "ring_invar r1" "ring_contents r1 = ring_contents r" "ring_len r1 = ring_len r"
    "length (rg_slots r1) = length (rg_slots r)" "ring_len r \<noteq> 0 \<longrightarrow> cs_cached_tail r1 \<noteq> rg_head r1"
    and pop: "consumer_pop r =
       (if ring_len r = 0 then (None, r1)
        else (rg_slots r1 ! ring_slot r1 (rg_head r1),
              r1\<lparr>rg_slots := (rg_slots r1)[ring_slot r1 (rg_head r1) := None],
                 rg_head := rg_head r1 + 1, cs_head := rg_head r1 + 1\<rparr>))"
    using consumer_pop_eq [OF assms] by metis
  have empty: "ring_len r = 0 \<longleftrightarrow> ring_contents r = []"
    by (simp add: ring_contents_def unat_eq_0)
  show "ring_invar (snd (consumer_pop r))"
    using ring_take_ok(1) [OF r1(1) _ _ refl] r1 pop by (cases "ring_len r = 0") simp_all
  show "length (rg_slots (snd (consumer_pop r))) = length (rg_slots r)"
    using r1 pop by simp
  show "case ring_contents r of [] \<Rightarrow> fst (consumer_pop r) = None \<and> ring_contents (snd (consumer_pop r)) = []
     | y # ys \<Rightarrow> fst (consumer_pop r) = Some y \<and> ring_contents (snd (consumer_pop r)) = ys"
  proof (cases "ring_len r = 0")
    case True
    then show ?thesis using empty r1 pop by simp
  next
    case False
    with ring_take_ok(2) [OF r1(1) _ _ refl] r1 pop show ?thesis by auto
  qed
qed

interpretation ring: bounded_fifo producer_push consumer_pop ring_contents
  "\<lambda>r. length (rg_slots r)" ring_invar
  by unfold_locales (simp_all only: ring_push_law ring_pop_law)

lemma ring_channel_slots [simp]: "length (rg_slots (ring_channel cap)) = next_power_of_two cap"
  by (simp add: ring_channel_def)

lemma ring_channel_invar:
  assumes "cap \<le> 2 ^ 63"
  shows "ring_invar (ring_channel cap)" "ring_contents (ring_channel cap) = []"
    "cap \<le> length (rg_slots (ring_channel cap))"
proof -
  obtain k where k: "k \<le> 63" "next_power_of_two cap = 2 ^ k" "cap \<le> 2 ^ k"
    using pow2_at_least_power [OF assms, of 0] by (auto simp: next_power_of_two_def)
  have "(word_of_nat (2 ^ k - 1) :: u64) = mask k"
    by (simp add: mask_eq_exp_minus_1)
  with k show "ring_invar (ring_channel cap)"
    by (auto simp: ring_invar_def ring_channel_def ring_len_def intro!: exI [of _ k])
  show "ring_contents (ring_channel cap) = []"
    by (simp add: ring_contents_def ring_channel_def ring_len_def)
  show "cap \<le> length (rg_slots (ring_channel cap))"
    using k by simp
qed

text \<open>C39: the queue between two threads loses, invents and reorders nothing. From an empty ring, for any
  interleaving of pushes by its producer and pops by its consumer, what the consumer received followed
  by what is still in the ring is exactly what the producer's successful pushes put in, in order; and
  the ring never holds more than its capacity, however stale either end's cached index is and however
  often the indices wrap.\<close>

theorem spsc_is_fifo_under_interleaving:
  fixes ops :: "'a option list"
  assumes "cap \<le> 2 ^ 63" and "ring.run ops (ring_channel cap) = (accepted, received, r)"
  shows "accepted = received @ ring_contents r \<and> length (ring_contents r) \<le> next_power_of_two cap"
proof -
  have "ring_invar r" "length (rg_slots r) = length (rg_slots (ring_channel cap :: 'a Ring))"
    using ring.run_invar [OF ring_channel_invar(1) [OF assms(1)] assms(2)] by simp_all
  moreover have "length (ring_contents r) \<le> length (rg_slots r)"
    using ring_invar_parts(3,4) [OF \<open>ring_invar r\<close>] by (simp add: ring_len_def)
  moreover have "ring_contents (ring_channel cap :: 'a Ring) = []" by (rule ring_channel_invar(2) [OF assms(1)])
  ultimately show ?thesis
    using ring.run_fifo [OF ring_channel_invar(1) [OF assms(1)] assms(2)] by simp
qed

lemma npot_2: "next_power_of_two 2 = 2"
  by (simp add: next_power_of_two_def pow2_at_least.simps)

theorem spsc_is_fifo_under_interleaving_witness:
  "\<exists>accepted r. ring.run [Some 5, Some 6, Some (7::int), None, Some 8, None] (ring_channel 2) = (accepted, [5, 6], r)
     \<and> accepted = [5, 6] @ ring_contents r \<and> accepted = [5, 6, 8]"
proof -
  have "\<exists>r. ring.run [Some 5, Some 6, Some (7::int), None, Some 8, None] (ring_channel 2) = ([5, 6, 8], [5, 6], r)"
    by (simp add: producer_push_def consumer_pop_def ring_channel_def npot_2 Let_def ring_capacity_def
        ring_slot_def)
  with spsc_is_fifo_under_interleaving [of 2] show ?thesis by fastforce
qed

lemma ring_fill_frame [simp]:
  "rg_tail (ring_fill n f t r) = rg_tail r" "pd_tail (ring_fill n f t r) = pd_tail r"
  "rg_head (ring_fill n f t r) = rg_head r" "rg_mask (ring_fill n f t r) = rg_mask r"
  "pd_cached_head (ring_fill n f t r) = pd_cached_head r"
  by (induction n) (simp_all add: Let_def)

lemma ring_fill_slot [simp]: "ring_slot (ring_fill n f t r) w = ring_slot r w"
  by (simp add: ring_slot_def)

definition ring_publish :: "u64 \<Rightarrow> 'a Ring \<Rightarrow> 'a Ring" where
  "ring_publish t r = r\<lparr>rg_tail := t, pd_tail := t\<rparr>"

lemma fill_is_appends:
  assumes "ring_invar r"
  shows "ring_publish (rg_tail r + word_of_nat n) (ring_fill n f (rg_tail r) r) =
    fold (\<lambda>i. ring_append (f i)) [0..<n] r"
proof (induction n)
  case 0
  then show ?case using ring_invar_parts(1) [OF assms] by (simp add: ring_publish_def)
next
  case (Suc n)
  have "fold (\<lambda>i. ring_append (f i)) [0..<Suc n] r =
      ring_append (f n) (ring_publish (rg_tail r + word_of_nat n) (ring_fill n f (rg_tail r) r))"
    using Suc by simp
  also have "\<dots> = ring_publish (rg_tail r + word_of_nat (Suc n)) (ring_fill (Suc n) f (rg_tail r) r)"
    by (simp add: ring_append_def ring_publish_def Let_def ring_slot_def algebra_simps)
  finally show ?case by simp
qed

lemma appends_ok:
  "ring_invar r \<Longrightarrow> unat (rg_tail r - pd_cached_head r) + length vs \<le> length (rg_slots r) \<Longrightarrow>
   ring_invar (fold ring_append vs r) \<and> ring_contents (fold ring_append vs r) = ring_contents r @ vs"
proof (induction vs arbitrary: r)
  case (Cons v vs)
  have room: "unat (rg_tail r - pd_cached_head r) < length (rg_slots r)" using Cons.prems by simp
  then have "unat (rg_tail r - pd_cached_head r) < 2 ^ 63"
    using slots_dvd(3) [OF Cons.prems(1)] by linarith
  then have "unat (rg_tail r + 1 - pd_cached_head r) = unat (rg_tail r - pd_cached_head r) + 1"
    using unat_Suc [of "rg_tail r - pd_cached_head r"] by (simp add: algebra_simps)
  then show ?case
    using Cons.IH [of "ring_append v r"] Cons.prems ring_append_ok [OF Cons.prems(1) room, of v] by simp
qed simp

text \<open>Publishing a batch is publishing its values one by one: \<open>push_from\<close> takes as many as fit, no
  fewer, appends exactly those in order, and keeps the ring's invariant.\<close>

theorem push_from_appends_what_fits:
  assumes "ring_invar r" and "producer_push_from count fill r = (taken, r')"
  shows "taken = min count (length (rg_slots r) - length (ring_contents r))
       \<and> ring_contents r' = ring_contents r @ map fill [0..<taken] \<and> ring_invar r'"
proof -
  let ?N = "length (rg_slots r)" and ?used = "\<lambda>r. unat (rg_tail r - pd_cached_head r)"
  let ?r1 = "if ?N - ?used r < count then r\<lparr>pd_cached_head := rg_head r\<rparr> else r"
  note parts = ring_invar_parts [OF assms(1)]
  have free: "unat (ring_capacity r - (rg_tail r - w)) = ?N - unat (rg_tail r - w)"
    if "unat (rg_tail r - w) \<le> ?N" for w
    using that ring_capacity_eq [OF assms(1)] by (simp add: unat_sub word_le_nat_alt)
  have head: "unat (rg_tail r - rg_head r) \<le> ?N" using parts by simp
  have r1: "ring_invar ?r1" using assms(1) refresh_head [OF assms(1)] by simp
  have taken: "taken = min (?N - ?used ?r1) count"
    and r': "r' = ring_publish (rg_tail r + word_of_nat taken) (ring_fill taken fill (rg_tail r) ?r1)"
    using assms(2) parts free [OF parts(3)] free [OF head]
    by (auto simp: producer_push_from_def Let_def ring_publish_def split: if_splits)
  have "r' = fold (\<lambda>i. ring_append (fill i)) [0..<taken] ?r1"
  proof -
    have "rg_tail ?r1 = rg_tail r" by simp
    with fill_is_appends [OF r1, of taken fill] r' show ?thesis by (simp only:)
  qed
  then have "r' = fold ring_append (map fill [0..<taken]) ?r1" by (simp add: fold_map comp_def)
  moreover have "?used ?r1 + length (map fill [0..<taken]) \<le> length (rg_slots ?r1)"
    using taken parts by auto
  ultimately have "ring_invar r' \<and> ring_contents r' = ring_contents ?r1 @ map fill [0..<taken]"
    using appends_ok [OF r1] by blast
  then show ?thesis using taken parts by (auto simp: ring_len_def)
qed

theorem push_from_appends_what_fits_witness:
  "fst (producer_push_from 3 (\<lambda>i. i + 1) (ring_channel 2)) = 2"
  using push_from_appends_what_fits [OF ring_channel_invar(1), of 2 3 "\<lambda>i. i + 1"]
  by (cases "producer_push_from 3 (\<lambda>i. i + 1) (ring_channel 2)")
     (auto simp: npot_2 ring_channel_invar(2))

text \<open>What a staged producer still owes its consumer: the ring, then its own slot.\<close>

definition staged_contents :: "'a StagedProducer \<Rightarrow> 'a list" where
  "staged_contents p = ring_contents (sp_producer p) @ (case sp_staged p of None \<Rightarrow> [] | Some v \<Rightarrow> [v])"

text \<open>The staged producer is a queue that never refuses. A send while it is not stuck puts its value
  last whether or not the ring had room, a flush changes nothing the consumer will see, and a flush
  reports clear exactly when nothing is left behind.\<close>

theorem staged_producer_keeps_order:
  assumes "ring_invar (sp_producer p)"
  shows "(\<not> staged_is_stuck p \<longrightarrow> staged_contents (staged_send v p) = staged_contents p @ [v])
       \<and> staged_contents (snd (staged_flush p)) = staged_contents p
       \<and> (fst (staged_flush p) \<longleftrightarrow> \<not> staged_is_stuck (snd (staged_flush p)))
       \<and> ring_invar (sp_producer (staged_send v p)) \<and> ring_invar (sp_producer (snd (staged_flush p)))"
proof -
  have push: "ring_invar r' \<and> ring_contents r' = (if ok then ring_contents (sp_producer p) @ [x] else ring_contents (sp_producer p))"
    if "producer_push x (sp_producer p) = (ok, r')" for x ok r'
    using ring_push_law(1,3) [OF assms, of x] that by simp
  have "(\<not> staged_is_stuck p \<longrightarrow> staged_contents (staged_send v p) = staged_contents p @ [v])
      \<and> ring_invar (sp_producer (staged_send v p))"
    using push [of v]
    by (auto simp: staged_send_def staged_is_stuck_def staged_contents_def split: prod.splits bool.splits)
  moreover have "staged_contents (snd (staged_flush p)) = staged_contents p
       \<and> (fst (staged_flush p) \<longleftrightarrow> \<not> staged_is_stuck (snd (staged_flush p)))
       \<and> ring_invar (sp_producer (snd (staged_flush p)))"
  proof (cases "sp_staged p")
    case None
    then show ?thesis using assms by (simp add: staged_flush_def staged_is_stuck_def)
  next
    case (Some x)
    obtain ok r' where p: "producer_push x (sp_producer p) = (ok, r')" by force
    show ?thesis using Some p push [OF p]
      by (cases ok) (auto simp: staged_flush_def staged_is_stuck_def staged_contents_def)
  qed
  ultimately show ?thesis by blast
qed

theorem staged_producer_keeps_order_witness:
  "staged_contents (staged_send (9::int) \<lparr>sp_producer = ring_channel 2, sp_staged = None\<rparr>) = [9]"
  using staged_producer_keeps_order [of "\<lparr>sp_producer = ring_channel 2, sp_staged = None\<rparr>" "9::int"]
  by (simp add: ring_channel_invar staged_is_stuck_def staged_contents_def)

end
