(* ===== verification/Linked.thy ===== *)
theory Linked
  imports Queues
begin

text \<open>
  The two rules about requests that belong together: linked chains (\<open>sequencer/src/rules/linked.rs\<close>),
  whose legs commit or roll back as one, and shared budget groups (\<open>sequencer/src/rules/budget.rs\<close>),
  whose holds are resolved as one. The hash maps are association lists. The lemmas show how a run of flagged
  requests becomes one chain and how long it may get, when a chain is handed out for judgement, what a leg
  sees of the legs before it, and exactly which chains the budget coverage lets through.
\<close>

section \<open>One chain\<close>

record LinkedChain =
  lc_id :: LinkedChainId
  lc_legs :: "SlotId list"
  lc_gated :: "SlotId list"
  lc_outstanding :: nat
  lc_closed :: bool
  lc_failure :: "LedgerError option"

definition chain_is_complete :: "LinkedChain \<Rightarrow> bool" where
  "chain_is_complete c \<longleftrightarrow> lc_closed c \<and> lc_outstanding c = 0"

text \<open>\<open>Option::or\<close>: the first failure is the one that is kept.\<close>

definition chain_fail :: "LedgerError \<Rightarrow> LinkedChain \<Rightarrow> LinkedChain" where
  "chain_fail err c = c\<lparr>lc_failure := (case lc_failure c of None \<Rightarrow> Some err | Some e \<Rightarrow> Some e)\<rparr>"

section \<open>What only the chain being judged sees\<close>

record LinkedScratch =
  ls_gains :: "(AcctHandle \<times> Amount) list"
  ls_holds :: "(TxId \<times> HoldView) list"

definition scratch_new :: LinkedScratch where
  "scratch_new = \<lparr>ls_gains = [], ls_holds = []\<rparr>"

definition scratch_clear :: "LinkedScratch \<Rightarrow> LinkedScratch" where
  "scratch_clear s = s\<lparr>ls_gains := [], ls_holds := []\<rparr>"

definition scratch_add :: "(AcctHandle \<times> Amount) option \<Rightarrow> LinkedScratch \<Rightarrow> LinkedScratch" where
  "scratch_add gain s = (case gain of None \<Rightarrow> s | Some g \<Rightarrow> s\<lparr>ls_gains := ls_gains s @ [g]\<rparr>)"

fun resolve_first :: "TxId \<Rightarrow> Amount \<Rightarrow> (TxId \<times> HoldView) list \<Rightarrow> (TxId \<times> HoldView) list" where
  "resolve_first hold left [] = []"
| "resolve_first hold left ((i, v) # hs) =
     (if i = hold then (i, v\<lparr>hv_remaining := left, hv_resolved := (left = 0)\<rparr>) # hs
      else (i, v) # resolve_first hold left hs)"

definition scratch_resolve :: "Effect \<Rightarrow> LinkedScratch \<Rightarrow> LinkedScratch" where
  "scratch_resolve e s =
     s\<lparr>ls_holds := resolve_first (ef_pending_ref e) (ef_remaining_after e) (ls_holds s)\<rparr>"

definition hold_view_of :: "Effect \<Rightarrow> HoldView" where
  "hold_view_of e =
     \<lparr>hv_debit_account = ef_debit_account e, hv_credit_account = ef_credit_account e,
      hv_ledger = ef_ledger e, hv_budget = ef_budget e, hv_budget_members = 0, hv_budget_remaining = 0,
      hv_remaining = ef_amount e, hv_resolved = False\<rparr>"

definition scratch_note :: "Effect \<Rightarrow> LinkedScratch \<Rightarrow> LinkedScratch" where
  "scratch_note e s =
     (let s1 = scratch_add (ef_gain e) s in
      case ef_kind e of
        EffectKind.Hold \<Rightarrow>
          if is_absent (ef_budget e)
          then s1\<lparr>ls_holds := ls_holds s1 @ [(ef_tx_id e, hold_view_of e)]\<rparr>
          else s1
      | EffectKind.Settle \<Rightarrow> scratch_resolve e s1
      | Void \<Rightarrow> scratch_resolve e s1
      | Post \<Rightarrow> s1)"

definition scratch_hold :: "LinkedScratch \<Rightarrow> TxId \<Rightarrow> HoldView option" where
  "scratch_hold s hold = map_of (ls_holds s) hold"

definition scratch_available_for :: "LinkedScratch \<Rightarrow> AcctHandle \<Rightarrow> Amount" where
  "scratch_available_for s handle =
     foldl i64_add 0 (map snd (filter (\<lambda>g. fst g = handle) (ls_gains s)))"

section \<open>The chains of the sequencer\<close>

record LinkedChains =
  lk_open :: "LinkedChain option"
  lk_closed :: "(LinkedChainId \<times> LinkedChain) list"
  lk_gates :: "(AcctHandle \<times> LinkedChainId) list"
  lk_effects :: "Effect list"
  lk_scratch :: LinkedScratch
  lk_max_legs :: nat
  lk_next_id :: u32
  lk_leg_buffers :: "SlotId BufferPool"

definition linked_new :: "nat \<Rightarrow> nat \<Rightarrow> LinkedChains" where
  "linked_new max_legs chains_in_flight =
     \<lparr>lk_open = None, lk_closed = [], lk_gates = [], lk_effects = [], lk_scratch = scratch_new,
      lk_max_legs = max_legs, lk_next_id = 1, lk_leg_buffers = pool_new (chains_in_flight * 2)\<rparr>"

text \<open>\<open>chain_mut\<close>: the open chain when it has this id, else the closed one; \<open>chain_modify\<close> writes
  through the reference it lends.\<close>

definition chain_mut :: "LinkedChainId \<Rightarrow> LinkedChains \<Rightarrow> LinkedChain option" where
  "chain_mut i s =
     (case lk_open s of
        Some c \<Rightarrow> if lc_id c = i then Some c else map_of (lk_closed s) i
      | None \<Rightarrow> map_of (lk_closed s) i)"

definition chain_modify :: "LinkedChainId \<Rightarrow> (LinkedChain \<Rightarrow> LinkedChain) \<Rightarrow> LinkedChains \<Rightarrow> LinkedChains" where
  "chain_modify i f s =
     (case lk_open s of
        Some c \<Rightarrow>
          if lc_id c = i then s\<lparr>lk_open := Some (f c)\<rparr>
          else s\<lparr>lk_closed := AList.map_entry i f (lk_closed s)\<rparr>
      | None \<Rightarrow> s\<lparr>lk_closed := AList.map_entry i f (lk_closed s)\<rparr>)"

definition linked_start :: "LinkedChains \<Rightarrow> LinkedChains" where
  "linked_start s =
     (let (legs, p1) = pool_take (lk_leg_buffers s); (gated, p2) = pool_take p1 in
      s\<lparr>lk_open := Some \<lparr>lc_id = lk_next_id s, lc_legs = legs, lc_gated = gated, lc_outstanding = 0,
                       lc_closed = False, lc_failure = None\<rparr>,
        lk_next_id := lk_next_id s + 1, lk_leg_buffers := p2\<rparr>)"

definition linked_admit :: "bool \<Rightarrow> LinkedChains \<Rightarrow> LinkedChainId option \<times> LinkedChains" where
  "linked_admit linked s =
     (if \<not> linked then
        (case lk_open s of
           None \<Rightarrow> (None, s)
         | Some c \<Rightarrow>
             (Some (lc_id c),
              s\<lparr>lk_open := None, lk_closed := AList.update (lc_id c) (c\<lparr>lc_closed := True\<rparr>) (lk_closed s)\<rparr>))
      else
        let s1 = (case lk_open s of None \<Rightarrow> linked_start s | Some _ \<Rightarrow> s) in
        case lk_open s1 of
          None \<Rightarrow> (None, s1)
        | Some c \<Rightarrow>
            (Some (lc_id c),
             if length (lc_legs c) \<ge> lk_max_legs s1
             then s1\<lparr>lk_open := Some (chain_fail LinkedChainTooLong c)\<rparr> else s1))"

definition linked_add_leg :: "LinkedChainId \<Rightarrow> AcctHandle \<Rightarrow> SlotId \<Rightarrow> LinkedChains \<Rightarrow> LinkedChains" where
  "linked_add_leg i lane slot s =
     (let s1 = chain_modify i (\<lambda>c. c\<lparr>lc_legs := lc_legs c @ [slot],
                                   lc_outstanding := lc_outstanding c + 1\<rparr>) s in
      s1\<lparr>lk_gates := AList.update lane i (lk_gates s1)\<rparr>)"

definition gate_for :: "LinkedChains \<Rightarrow> AcctHandle \<Rightarrow> LinkedChainId option" where
  "gate_for s lane = (if lk_gates s = [] then None else map_of (lk_gates s) lane)"

definition wait_behind :: "LinkedChainId \<Rightarrow> SlotId \<Rightarrow> LinkedChains \<Rightarrow> LinkedChains" where
  "wait_behind i slot s = chain_modify i (\<lambda>c. c\<lparr>lc_gated := lc_gated c @ [slot]\<rparr>) s"

definition linked_fail :: "LinkedChainId \<Rightarrow> LedgerError \<Rightarrow> LinkedChains \<Rightarrow> LinkedChains" where
  "linked_fail i err s = chain_modify i (chain_fail err) s"

definition leg_ready :: "LinkedChainId \<Rightarrow> LinkedChains \<Rightarrow> LinkedChain option \<times> LinkedChains" where
  "leg_ready i s =
     (case chain_mut i s of
        None \<Rightarrow> (None, s)
      | Some c \<Rightarrow>
          let c' = c\<lparr>lc_outstanding := usize_sub (lc_outstanding c) 1\<rparr>;
              s1 = chain_modify i (\<lambda>_. c') s in
          if \<not> chain_is_complete c' then (None, s1)
          else (map_of (lk_closed s1) i, s1\<lparr>lk_closed := AList.delete i (lk_closed s1)\<rparr>))"

definition settle_if_complete :: "LinkedChainId \<Rightarrow> LinkedChains \<Rightarrow> LinkedChain option \<times> LinkedChains" where
  "settle_if_complete i s =
     (case chain_mut i s of
        None \<Rightarrow> (None, s)
      | Some c \<Rightarrow>
          if \<not> chain_is_complete c then (None, s)
          else (map_of (lk_closed s) i, s\<lparr>lk_closed := AList.delete i (lk_closed s)\<rparr>))"

definition close_batch :: "LinkedChains \<Rightarrow> LinkedChain option \<times> LinkedChains" where
  "close_batch s =
     (case lk_open s of
        None \<Rightarrow> (None, s)
      | Some c \<Rightarrow>
          let c' = chain_fail LinkedChainUnterminated (c\<lparr>lc_closed := True\<rparr>);
              s1 = s\<lparr>lk_open := None\<rparr> in
          if chain_is_complete c' then (Some c', s1)
          else (None, s1\<lparr>lk_closed := AList.update (lc_id c') c' (lk_closed s1)\<rparr>))"

definition take_buffers :: "LinkedChains \<Rightarrow> (Effect list \<times> LinkedScratch) \<times> LinkedChains" where
  "take_buffers s =
     ((lk_effects s, scratch_clear (lk_scratch s)), s\<lparr>lk_effects := [], lk_scratch := scratch_new\<rparr>)"

definition return_buffers :: "Effect list \<Rightarrow> LinkedScratch \<Rightarrow> LinkedChains \<Rightarrow> LinkedChains" where
  "return_buffers effects scratch s = s\<lparr>lk_effects := effects, lk_scratch := scratch\<rparr>"

definition linked_open_gates :: "LinkedChainId \<Rightarrow> LinkedChains \<Rightarrow> LinkedChains" where
  "linked_open_gates i s = s\<lparr>lk_gates := filter (\<lambda>g. snd g \<noteq> i) (lk_gates s)\<rparr>"

definition linked_recycle :: "LinkedChain \<Rightarrow> LinkedChains \<Rightarrow> LinkedChains" where
  "linked_recycle c s =
     s\<lparr>lk_leg_buffers := pool_give (lc_gated c) (pool_give (lc_legs c) (lk_leg_buffers s))\<rparr>"

section \<open>Shared budget groups (budget.rs)\<close>

definition allow_resolution :: "HoldView \<Rightarrow> Amount \<Rightarrow> bool \<Rightarrow> unit result" where
  "allow_resolution hold amount in_chain =
     (if is_absent (hv_budget hold) then Inr ()
      else if hv_budget_members hold > 1 \<and> \<not> in_chain then Inl SharedBudgetGroupRequired
      else if amount \<noteq> hv_remaining hold then Inl PartialResolutionNotAllowed
      else Inr ())"

record Tally =
  ty_budget :: BudgetGroup
  ty_legs :: u32
  ty_amount :: Amount
  ty_members :: u32
  ty_remaining :: Amount

type_synonym BudgetCoverage = "Tally list"

fun coverage_note :: "BudgetGroup \<Rightarrow> Amount \<Rightarrow> u32 \<Rightarrow> Amount \<Rightarrow> BudgetCoverage \<Rightarrow> BudgetCoverage" where
  "coverage_note budget amount members remaining [] =
     [\<lparr>ty_budget = budget, ty_legs = 1, ty_amount = amount, ty_members = members, ty_remaining = remaining\<rparr>]"
| "coverage_note budget amount members remaining (t # ts) =
     (if ty_budget t = budget
      then t\<lparr>ty_legs := ty_legs t + 1, ty_amount := i64_add (ty_amount t) amount\<rparr> # ts
      else t # coverage_note budget amount members remaining ts)"

definition misses_a_member :: "BudgetCoverage \<Rightarrow> bool" where
  "misses_a_member ts \<longleftrightarrow> (\<exists>t \<in> set ts. ty_legs t \<noteq> ty_members t \<or> ty_amount t \<noteq> ty_remaining t)"

section \<open>How a run of requests becomes a chain\<close>

text \<open>Flagged legs as \<open>admit\<close> and \<open>add_leg\<close> take them, one after the other.\<close>

fun admit_legs :: "(AcctHandle \<times> SlotId) list \<Rightarrow> LinkedChains \<Rightarrow> LinkedChains" where
  "admit_legs [] s = s"
| "admit_legs ((lane, slot) # legs) s =
     (case linked_admit True s of
        (Some i, s1) \<Rightarrow> admit_legs legs (linked_add_leg i lane slot s1)
      | (None, s1) \<Rightarrow> admit_legs legs s1)"

definition open_with :: "LinkedChains \<Rightarrow> LinkedChainId \<Rightarrow> SlotId list \<Rightarrow> bool \<Rightarrow> bool" where
  "open_with s i legs long \<longleftrightarrow>
     lk_open s = Some \<lparr>lc_id = i, lc_legs = legs, lc_gated = [], lc_outstanding = length legs,
       lc_closed = False, lc_failure = (if long then Some LinkedChainTooLong else None)\<rparr>"

lemma admit_open:
  assumes "open_with s i legs long"
  shows "\<exists>s1. linked_admit True s = (Some i, s1) \<and> lk_max_legs s1 = lk_max_legs s \<and> lk_closed s1 = lk_closed s
    \<and> open_with (linked_add_leg i lane slot s1) i (legs @ [slot]) (long \<or> lk_max_legs s \<le> length legs)
    \<and> lk_max_legs (linked_add_leg i lane slot s1) = lk_max_legs s
    \<and> lk_closed (linked_add_leg i lane slot s1) = lk_closed s"
  using assms
  by (auto simp: linked_admit_def open_with_def linked_add_leg_def chain_modify_def chain_fail_def Let_def)

lemma admit_first:
  assumes "lk_open s = None" "pool_ok (lk_leg_buffers s)"
  shows "\<exists>s1. linked_admit True s = (Some (lk_next_id s), s1)
    \<and> open_with (linked_add_leg (lk_next_id s) lane slot s1) (lk_next_id s) [slot] (lk_max_legs s = 0)
    \<and> lk_max_legs (linked_add_leg (lk_next_id s) lane slot s1) = lk_max_legs s
    \<and> lk_closed (linked_add_leg (lk_next_id s) lane slot s1) = lk_closed s"
proof -
  obtain b1 p1 where t1: "pool_take (lk_leg_buffers s) = (b1, p1)" by force
  obtain b2 p2 where t2: "pool_take p1 = (b2, p2)" by force
  have "b1 = []" "b2 = []" using pool_take_ok [OF assms(2) t1] pool_take_ok [OF _ t2] by auto
  then show ?thesis
    using assms t1 t2
    by (auto simp: linked_admit_def linked_start_def open_with_def linked_add_leg_def chain_modify_def
        chain_fail_def Let_def)
qed

lemma admit_legs_open:
  "open_with s i legs long \<Longrightarrow>
     open_with (admit_legs rest s) i (legs @ map snd rest)
       (long \<or> rest \<noteq> [] \<and> lk_max_legs s < length legs + length rest)
     \<and> lk_max_legs (admit_legs rest s) = lk_max_legs s \<and> lk_closed (admit_legs rest s) = lk_closed s"
proof (induction rest arbitrary: s legs long)
  case (Cons m rest)
  obtain lane slot where m: "m = (lane, slot)" by force
  obtain s1 where s1: "linked_admit True s = (Some i, s1)"
      "open_with (linked_add_leg i lane slot s1) i (legs @ [slot]) (long \<or> lk_max_legs s \<le> length legs)"
      "lk_max_legs (linked_add_leg i lane slot s1) = lk_max_legs s"
      "lk_closed (linked_add_leg i lane slot s1) = lk_closed s"
    using admit_open [OF Cons.prems, of lane slot] by blast
  have "(long \<or> lk_max_legs s \<le> length legs) \<or> rest \<noteq> [] \<and> lk_max_legs s < length (legs @ [slot]) + length rest
      \<longleftrightarrow> long \<or> m # rest \<noteq> [] \<and> lk_max_legs s < length legs + length (m # rest)"
    by (cases rest) auto
  then show ?case using Cons.IH [OF s1(2)] s1 m by (simp add: ac_simps)
qed simp

text \<open>C37: a run of requests flagged linked, and the request after it, become one chain in stream order:
  the flagged legs share one fresh id, the request that terminates the run is its last leg, and the chain is
  closed with one result outstanding per leg. The length check runs for flagged legs only: a chain fails as
  too long exactly when more than \<open>max_legs\<close> of its legs are flagged, so a chain of
  \<open>max_legs + 1\<close> legs, its terminator included, is let through.\<close>

theorem run_of_requests_forms_one_chain:
  assumes "lk_open s = None" and "pool_ok (lk_leg_buffers s)" and "legs \<noteq> []"
    and "linked_admit False (admit_legs legs s) = (r, s1)" and "s2 = linked_add_leg (lk_next_id s) lane slot s1"
  shows "r = Some (lk_next_id s) \<and> lk_open s2 = None
    \<and> map_of (lk_closed s2) (lk_next_id s) =
        Some \<lparr>lc_id = lk_next_id s, lc_legs = map snd legs @ [slot], lc_gated = [],
              lc_outstanding = length legs + 1, lc_closed = True,
              lc_failure = (if length legs > lk_max_legs s then Some LinkedChainTooLong else None)\<rparr>"
proof -
  obtain lane1 slot1 rest where l: "legs = (lane1, slot1) # rest" using assms(3) by (metis list.exhaust surj_pair)
  obtain t where t: "linked_admit True s = (Some (lk_next_id s), t)"
      "open_with (linked_add_leg (lk_next_id s) lane1 slot1 t) (lk_next_id s) [slot1] (lk_max_legs s = 0)"
      "lk_max_legs (linked_add_leg (lk_next_id s) lane1 slot1 t) = lk_max_legs s"
    using admit_first [OF assms(1,2), of lane1 slot1] by blast
  have "lk_max_legs s = 0 \<or> rest \<noteq> [] \<and> lk_max_legs s < length [slot1] + length rest
      \<longleftrightarrow> length legs > lk_max_legs s" unfolding l by (cases rest) auto
  then have "open_with (admit_legs legs s) (lk_next_id s) (map snd legs) (length legs > lk_max_legs s)"
    using admit_legs_open [OF t(2), of rest] t(1,3) l by simp
  then show ?thesis
    using assms(4,5)
    by (auto simp: open_with_def linked_admit_def linked_add_leg_def chain_modify_def map_of_map_entry update_conv')
qed

theorem run_of_requests_forms_one_chain_witness:
  "\<exists>c. map_of (lk_closed (linked_add_leg 1 0 12
        (snd (linked_admit False (admit_legs [(0, 10), (0, 11)] (linked_new 2 1)))))) 1 = Some c
     \<and> length (lc_legs c) = 3 \<and> lc_failure c = None"
proof -
  have new: "lk_open (linked_new 2 1) = None" "pool_ok (lk_leg_buffers (linked_new 2 1))"
    "lk_next_id (linked_new 2 1) = 1" "lk_max_legs (linked_new 2 1) = 2"
    by (simp_all add: linked_new_def)
  obtain r s1 where a: "linked_admit False (admit_legs [(0, 10), (0, 11)] (linked_new 2 1)) = (r, s1)" by force
  then have snd: "snd (linked_admit False (admit_legs [(0, 10), (0, 11)] (linked_new 2 1))) = s1" by simp
  show ?thesis
    unfolding snd
    using run_of_requests_forms_one_chain [OF new(1,2) _ a refl, of 0 12, unfolded new] by simp
qed

section \<open>What the budget coverage lets through\<close>

text \<open>The legs of a chain that resolve a group, as the coverage is told of them.\<close>

type_synonym BudgetLeg = "BudgetGroup \<times> Amount \<times> u32 \<times> Amount"

definition note_leg :: "BudgetLeg \<Rightarrow> BudgetCoverage \<Rightarrow> BudgetCoverage" where
  "note_leg l ts = (case l of (g, a, m, r) \<Rightarrow> coverage_note g a m r ts)"

definition group_legs :: "BudgetGroup \<Rightarrow> BudgetLeg list \<Rightarrow> BudgetLeg list" where
  "group_legs g ls = filter (\<lambda>l. fst l = g) ls"

definition group_sum :: "BudgetLeg list \<Rightarrow> int" where
  "group_sum ls = sum_list (map (\<lambda>l. fst (snd l)) ls)"

definition tally_of :: "BudgetGroup \<Rightarrow> BudgetCoverage \<Rightarrow> Tally option" where
  "tally_of g ts = find (\<lambda>t. ty_budget t = g) ts"

text \<open>One tally per group.\<close>

definition coverage_ok :: "BudgetCoverage \<Rightarrow> bool" where
  "coverage_ok ts \<longleftrightarrow> distinct (map ty_budget ts)"

lemma coverage_note_budgets:
  "ty_budget ` set (coverage_note g a m r ts) = insert g (ty_budget ` set ts)"
  by (induction ts) auto

lemma coverage_note_ok: "coverage_ok ts \<Longrightarrow> coverage_ok (coverage_note g a m r ts)"
proof (induction ts)
  case (Cons t ts)
  have "ty_budget t \<notin> ty_budget ` set (coverage_note g a m r ts)" if "ty_budget t \<noteq> g"
    using Cons.prems that by (auto simp: coverage_ok_def coverage_note_budgets)
  then show ?case using Cons by (auto simp: coverage_ok_def)
qed (simp add: coverage_ok_def)

lemma tally_of_note:
  "tally_of k (coverage_note g a m r ts) =
     (if k = g then
        (case tally_of g ts of
           None \<Rightarrow> Some \<lparr>ty_budget = g, ty_legs = 1, ty_amount = a, ty_members = m, ty_remaining = r\<rparr>
         | Some t \<Rightarrow> Some (t\<lparr>ty_legs := ty_legs t + 1, ty_amount := i64_add (ty_amount t) a\<rparr>))
      else tally_of k ts)"
  by (induction ts) (auto simp: tally_of_def)

lemma tally_of_set: "coverage_ok ts \<Longrightarrow> t \<in> set ts \<longleftrightarrow> tally_of (ty_budget t) ts = Some t"
proof (induction ts)
  case (Cons u ts)
  then show ?case
    by (auto simp: coverage_ok_def tally_of_def)
qed (simp add: tally_of_def)

lemma coverage_tally:
  assumes "\<forall>l \<in> set ls. i64_ok (fst (snd l))"
  shows "tally_of g (fold note_leg ls []) =
    (case group_legs g ls of
       [] \<Rightarrow> None
     | l # _ \<Rightarrow> Some \<lparr>ty_budget = g, ty_legs = word_of_nat (length (group_legs g ls)),
         ty_amount = wrap64 (group_sum (group_legs g ls)),
         ty_members = fst (snd (snd l)), ty_remaining = snd (snd (snd l))\<rparr>)"
  using assms
proof (induction ls rule: rev_induct)
  case (snoc l ls)
  obtain k a m r where l: "l = (k, a, m, r)" by (cases l)
  have a: "i64_ok a" using snoc.prems l by simp
  have IH: "tally_of g (fold note_leg ls []) =
    (case group_legs g ls of
       [] \<Rightarrow> None
     | l # _ \<Rightarrow> Some \<lparr>ty_budget = g, ty_legs = word_of_nat (length (group_legs g ls)),
         ty_amount = wrap64 (group_sum (group_legs g ls)),
         ty_members = fst (snd (snd l)), ty_remaining = snd (snd (snd l))\<rparr>)"
    using snoc by simp
  have step: "fold note_leg (ls @ [l]) [] = coverage_note k a m r (fold note_leg ls [])"
    by (simp add: note_leg_def l)
  show ?case
  proof (cases "k = g")
    case True
    then have gl: "group_legs g (ls @ [l]) = group_legs g ls @ [(k, a, m, r)]" by (simp add: group_legs_def l)
    show ?thesis
      unfolding step gl tally_of_note using a True IH
      by (cases "group_legs g ls") (simp_all add: group_sum_def wrap64_id i64_add_def algebra_simps)
  next
    case False
    then have gl: "group_legs g (ls @ [l]) = group_legs g ls" by (simp add: group_legs_def l)
    show ?thesis unfolding step gl tally_of_note using IH False by simp
  qed
qed (simp add: tally_of_def group_legs_def)

lemma coverage_fold_ok: "coverage_ok ts \<Longrightarrow> coverage_ok (fold note_leg ls ts)"
  by (induction ls arbitrary: ts) (auto simp: note_leg_def coverage_note_ok split: prod.splits)

text \<open>C38: a chain passes the budget coverage exactly when, for every group it touches, it has one leg per
  member and its legs together take the whole remainder of the group, both as the engine reported them with
  the group's first leg. A chain that leaves a member out or moves part of one is refused.\<close>

theorem budget_coverage_is_exact:
  assumes "\<forall>l \<in> set legs. i64_ok (fst (snd l))"
  shows "\<not> misses_a_member (fold note_leg legs []) \<longleftrightarrow>
    (\<forall>g \<in> fst ` set legs.
       word_of_nat (length (group_legs g legs)) = fst (snd (snd (hd (group_legs g legs))))
       \<and> wrap64 (group_sum (group_legs g legs)) = snd (snd (snd (hd (group_legs g legs)))))"
proof -
  let ?ts = "fold note_leg legs []"
  have ok: "coverage_ok ?ts" by (rule coverage_fold_ok) (simp add: coverage_ok_def)
  have none: "group_legs g legs = [] \<longleftrightarrow> g \<notin> fst ` set legs" for g
    by (auto simp: group_legs_def filter_empty_conv)
  have tally: "tally_of g ?ts = Some \<lparr>ty_budget = g, ty_legs = word_of_nat (length (group_legs g legs)),
         ty_amount = wrap64 (group_sum (group_legs g legs)),
         ty_members = fst (snd (snd (hd (group_legs g legs)))),
         ty_remaining = snd (snd (snd (hd (group_legs g legs))))\<rparr>" if "g \<in> fst ` set legs" for g
    using coverage_tally [OF assms, of g] none [of g] that by (auto split: list.splits)
  have groups: "ty_budget t \<in> fst ` set legs" if "t \<in> set ?ts" for t
    using coverage_tally [OF assms, of "ty_budget t"] none [of "ty_budget t"] that tally_of_set [OF ok, of t]
    by (auto split: list.splits)
  show ?thesis
  proof
    assume pass: "\<not> misses_a_member ?ts"
    show "\<forall>g \<in> fst ` set legs.
       word_of_nat (length (group_legs g legs)) = fst (snd (snd (hd (group_legs g legs))))
       \<and> wrap64 (group_sum (group_legs g legs)) = snd (snd (snd (hd (group_legs g legs))))"
    proof
      fix g assume "g \<in> fst ` set legs"
      note t = tally [OF this]
      let ?t = "the (tally_of g ?ts)"
      have "?t \<in> set ?ts" using tally_of_set [OF ok, of ?t] t by simp
      then have "ty_legs ?t = ty_members ?t \<and> ty_amount ?t = ty_remaining ?t"
        using pass unfolding misses_a_member_def by blast
      then show "word_of_nat (length (group_legs g legs)) = fst (snd (snd (hd (group_legs g legs))))
       \<and> wrap64 (group_sum (group_legs g legs)) = snd (snd (snd (hd (group_legs g legs))))"
        using t by simp
    qed
  next
    assume all: "\<forall>g \<in> fst ` set legs.
       word_of_nat (length (group_legs g legs)) = fst (snd (snd (hd (group_legs g legs))))
       \<and> wrap64 (group_sum (group_legs g legs)) = snd (snd (snd (hd (group_legs g legs))))"
    have "ty_legs t = ty_members t \<and> ty_amount t = ty_remaining t" if t: "t \<in> set ?ts" for t
    proof -
      have g: "ty_budget t \<in> fst ` set legs" by (rule groups [OF t])
      have e: "\<lparr>ty_budget = ty_budget t, ty_legs = word_of_nat (length (group_legs (ty_budget t) legs)),
          ty_amount = wrap64 (group_sum (group_legs (ty_budget t) legs)),
          ty_members = fst (snd (snd (hd (group_legs (ty_budget t) legs)))),
          ty_remaining = snd (snd (snd (hd (group_legs (ty_budget t) legs))))\<rparr> = t"
        using tally_of_set [OF ok, of t] t tally [OF g] by simp
      show ?thesis
        using bspec [OF all g] arg_cong [OF e, of ty_legs] arg_cong [OF e, of ty_members]
          arg_cong [OF e, of ty_amount] arg_cong [OF e, of ty_remaining] by simp
    qed
    then show "\<not> misses_a_member ?ts" unfolding misses_a_member_def by blast
  qed
qed

theorem budget_coverage_is_exact_witness:
  "misses_a_member (fold note_leg [(4, 30, 2, 100)] [])
   \<and> \<not> misses_a_member (fold note_leg [(4, 30, 2, 100), (4, 70, 2, 100)] [])"
  using budget_coverage_is_exact [of "[(4, 30, 2, 100)]"]
    budget_coverage_is_exact [of "[(4, 30, 2, 100), (4, 70, 2, 100)]"]
  by (simp add: group_legs_def group_sum_def wrap64_def i64_ok_def)

end
