(* ===== verification/Batches.thy ===== *)
theory Batches
  imports Queues
begin

text \<open>
  The batcher (\<open>sequencer/src/state/batcher.rs\<close>): judged effects accumulate, a due batch is cut at a
  chain boundary, handed to consensus, put back when refused. The lemmas show that a proposal is always a
  prefix of what was judged, paired with the slots it came with, that it never separates two legs of a
  linked chain, that a refused proposal restores the batcher, and when a proposal can be empty.
\<close>

section \<open>State and operations\<close>

record InFlightBatch =
  ib_batch_id :: nat
  ib_slots :: "SlotId list"
  ib_proposed_at_nanos :: nat

record Batcher =
  bt_policy :: BatchPolicy
  bt_effects :: "Effect list"
  bt_slots :: "SlotId list"
  bt_opened_at_nanos :: "nat option"
  bt_in_flight :: "InFlightBatch list"
  bt_effect_buffers :: "Effect BufferPool"
  bt_slot_buffers :: "SlotId BufferPool"
  bt_next_batch_id :: nat
  bt_reserved :: nat
  bt_open_peak :: Peak
  bt_in_flight_peak :: Peak

definition batcher_new :: "BatchPolicy \<Rightarrow> nat \<Rightarrow> Batcher" where
  "batcher_new policy headroom =
     \<lparr>bt_policy = policy, bt_effects = [], bt_slots = [], bt_opened_at_nanos = None, bt_in_flight = [],
      bt_effect_buffers = pool_new (bp_in_flight policy + 1),
      bt_slot_buffers = pool_new (bp_in_flight policy + 1),
      bt_next_batch_id = 1, bt_reserved = headroom, bt_open_peak = 0, bt_in_flight_peak = 0\<rparr>"

definition batcher_push :: "Effect \<Rightarrow> SlotId \<Rightarrow> nat \<Rightarrow> Batcher \<Rightarrow> Batcher" where
  "batcher_push effect slot now b =
     (let b1 = (if bt_effects b = [] then b\<lparr>bt_opened_at_nanos := Some now\<rparr> else b) in
      b1\<lparr>bt_effects := bt_effects b1 @ [effect], bt_slots := bt_slots b1 @ [slot],
         bt_open_peak := peak_saw (length (bt_effects b1) + 1) (bt_open_peak b1)\<rparr>)"

definition batcher_is_saturated :: "Batcher \<Rightarrow> bool" where
  "batcher_is_saturated b \<longleftrightarrow> length (bt_effects b) \<ge> bp_queued (bt_policy b)"

definition batcher_in_flight_len :: "Batcher \<Rightarrow> nat" where
  "batcher_in_flight_len b = length (bt_in_flight b)"

text \<open>The walk back to a chain boundary; \<open>take\<close> stays inside the list, so neither read can be out of
  range.\<close>

fun chain_boundary :: "Effect list \<Rightarrow> nat \<Rightarrow> nat" where
  "chain_boundary es 0 = 0"
| "chain_boundary es (Suc n) =
     (if Suc n < length es
      then (let prior = ef_chain (es ! n) in
            if is_absent prior \<or> prior \<noteq> ef_chain (es ! Suc n) then Suc n
            else chain_boundary es n)
      else Suc n)"

definition batcher_detach :: "nat \<Rightarrow> Batcher \<Rightarrow> (Effect list \<times> SlotId list) \<times> Batcher" where
  "batcher_detach n b =
     (let (effects, ep) = pool_take (bt_effect_buffers b); (slots, sp) = pool_take (bt_slot_buffers b);
          b1 = b\<lparr>bt_effect_buffers := ep, bt_slot_buffers := sp\<rparr> in
      if n = length (bt_effects b)
      then ((bt_effects b, bt_slots b), b1\<lparr>bt_effects := effects, bt_slots := slots\<rparr>)
      else ((effects @ take n (bt_effects b), slots @ take n (bt_slots b)),
            b1\<lparr>bt_effects := drop n (bt_effects b), bt_slots := drop n (bt_slots b)\<rparr>))"

definition take_proposal :: "nat \<Rightarrow> Batcher \<Rightarrow> (RaftProposal \<times> SlotId list) option \<times> Batcher" where
  "take_proposal now b =
     (if bt_effects b = [] \<or> length (bt_in_flight b) \<ge> bp_in_flight (bt_policy b) then (None, b)
      else
        let full = (length (bt_effects b) \<ge> bp_size (bt_policy b));
            lingered = (case bt_opened_at_nanos b of None \<Rightarrow> False
                        | Some opened \<Rightarrow> now - opened \<ge> bp_linger (bt_policy b)) in
        if \<not> full \<and> \<not> lingered then (None, b)
        else
          let n = chain_boundary (bt_effects b) (min (length (bt_effects b)) (bp_max (bt_policy b)));
              ((effects, slots), b') = batcher_detach n b in
          (Some (\<lparr>rp_batch_id = bt_next_batch_id b', rp_effects = effects\<rparr>, slots), b'))"

definition on_proposed :: "nat \<Rightarrow> SlotId list \<Rightarrow> nat \<Rightarrow> Batcher \<Rightarrow> Batcher" where
  "on_proposed batch_id slots now b =
     (let fl = bt_in_flight b @ [\<lparr>ib_batch_id = batch_id, ib_slots = slots, ib_proposed_at_nanos = now\<rparr>];
          b1 = b\<lparr>bt_in_flight := fl, bt_in_flight_peak := peak_saw (length fl) (bt_in_flight_peak b),
                 bt_next_batch_id := bt_next_batch_id b + 1\<rparr> in
      if bt_effects b1 = [] then b1\<lparr>bt_opened_at_nanos := None\<rparr> else b1)"

definition batcher_restore :: "Effect list \<Rightarrow> SlotId list \<Rightarrow> Batcher \<Rightarrow> Batcher" where
  "batcher_restore effects slots b =
     (if bt_effects b = []
      then b\<lparr>bt_effects := effects, bt_effect_buffers := pool_give (bt_effects b) (bt_effect_buffers b),
             bt_slots := slots, bt_slot_buffers := pool_give (bt_slots b) (bt_slot_buffers b)\<rparr>
      else b\<lparr>bt_effects := effects @ bt_effects b, bt_slots := slots @ bt_slots b,
             bt_effect_buffers := pool_give effects (bt_effect_buffers b),
             bt_slot_buffers := pool_give slots (bt_slot_buffers b)\<rparr>)"

definition next_committed :: "Batcher \<Rightarrow> InFlightBatch option \<times> Batcher" where
  "next_committed b =
     (case bt_in_flight b of [] \<Rightarrow> (None, b) | f # fs \<Rightarrow> (Some f, b\<lparr>bt_in_flight := fs\<rparr>))"

definition batcher_recycle :: "Effect list \<Rightarrow> SlotId list \<Rightarrow> Batcher \<Rightarrow> Batcher" where
  "batcher_recycle effects slots b =
     b\<lparr>bt_effect_buffers := pool_give effects (bt_effect_buffers b),
       bt_slot_buffers := pool_give slots (bt_slot_buffers b)\<rparr>"

section \<open>Invariant\<close>

text \<open>Effects and slots are paired, the pools hold empty buffers, and never more proposals are outstanding
  than the policy allows.\<close>

definition batcher_ok :: "Batcher \<Rightarrow> bool" where
  "batcher_ok b \<longleftrightarrow> length (bt_effects b) = length (bt_slots b)
     \<and> pool_ok (bt_effect_buffers b) \<and> pool_ok (bt_slot_buffers b)
     \<and> length (bt_in_flight b) \<le> bp_in_flight (bt_policy b)"

lemma batcher_new_ok [simp]: "batcher_ok (batcher_new p h)"
  by (simp add: batcher_ok_def batcher_new_def)

lemma batcher_push_ok [simp]: "batcher_ok b \<Longrightarrow> batcher_ok (batcher_push e s n b)"
  by (auto simp: batcher_ok_def batcher_push_def Let_def)

lemma batcher_push_simps [simp]:
  "bt_effects (batcher_push e s n b) = bt_effects b @ [e]"
  "bt_slots (batcher_push e s n b) = bt_slots b @ [s]"
  "bt_in_flight (batcher_push e s n b) = bt_in_flight b"
  "bt_policy (batcher_push e s n b) = bt_policy b"
  by (simp_all add: batcher_push_def Let_def)

lemma batcher_detach_eq:
  assumes "batcher_ok b" and "n \<le> length (bt_effects b)"
  obtains ep sp where "pool_ok ep" "pool_ok sp"
    "batcher_detach n b = ((take n (bt_effects b), take n (bt_slots b)),
       b\<lparr>bt_effects := drop n (bt_effects b), bt_slots := drop n (bt_slots b),
         bt_effect_buffers := ep, bt_slot_buffers := sp\<rparr>)"
proof -
  obtain e ep where e: "pool_take (bt_effect_buffers b) = (e, ep)" by force
  obtain s sp where s: "pool_take (bt_slot_buffers b) = (s, sp)" by force
  have ok: "e = []" "pool_ok ep" "s = []" "pool_ok sp" and len: "length (bt_slots b) = length (bt_effects b)"
    using assms pool_take_ok [OF _ e] pool_take_ok [OF _ s] by (auto simp: batcher_ok_def)
  have "batcher_detach n b = ((take n (bt_effects b), take n (bt_slots b)),
       b\<lparr>bt_effects := drop n (bt_effects b), bt_slots := drop n (bt_slots b),
         bt_effect_buffers := ep, bt_slot_buffers := sp\<rparr>)"
    using ok len by (simp add: batcher_detach_def e s Let_def)
  with ok that show ?thesis by blast
qed

lemma chain_boundary_le: "chain_boundary es n \<le> n"
  by (induction n) (auto simp: Let_def)

lemma take_proposal_cases:
  assumes ok: "batcher_ok b" and tp: "take_proposal now b = (r, b')"
  shows "r = None \<and> b' = b \<or>
    (\<exists>n ep sp. n = chain_boundary (bt_effects b) (min (length (bt_effects b)) (bp_max (bt_policy b)))
       \<and> bt_effects b \<noteq> [] \<and> length (bt_in_flight b) < bp_in_flight (bt_policy b)
       \<and> pool_ok ep \<and> pool_ok sp
       \<and> r = Some (\<lparr>rp_batch_id = bt_next_batch_id b, rp_effects = take n (bt_effects b)\<rparr>, take n (bt_slots b))
       \<and> b' = b\<lparr>bt_effects := drop n (bt_effects b), bt_slots := drop n (bt_slots b),
                bt_effect_buffers := ep, bt_slot_buffers := sp\<rparr>)"
proof -
  let ?n = "chain_boundary (bt_effects b) (min (length (bt_effects b)) (bp_max (bt_policy b)))"
  have "?n \<le> length (bt_effects b)"
    by (meson chain_boundary_le le_trans min.cobounded1)
  from batcher_detach_eq [OF ok this] obtain ep sp where d: "pool_ok ep" "pool_ok sp"
    "batcher_detach ?n b = ((take ?n (bt_effects b), take ?n (bt_slots b)),
       b\<lparr>bt_effects := drop ?n (bt_effects b), bt_slots := drop ?n (bt_slots b),
         bt_effect_buffers := ep, bt_slot_buffers := sp\<rparr>)" by blast
  show ?thesis
    using tp d by (auto simp: take_proposal_def Let_def split: if_splits)
qed

lemma take_proposal_ok:
  assumes "batcher_ok b" "take_proposal now b = (r, b')"
  shows "batcher_ok b'" "r \<noteq> None \<Longrightarrow> length (bt_in_flight b') < bp_in_flight (bt_policy b')"
  using take_proposal_cases [OF assms] assms(1) by (auto simp: batcher_ok_def)

lemma on_proposed_ok:
  "batcher_ok b \<Longrightarrow> length (bt_in_flight b) < bp_in_flight (bt_policy b) \<Longrightarrow> batcher_ok (on_proposed i s n b)"
  by (auto simp: batcher_ok_def on_proposed_def Let_def)

lemma batcher_restore_ok [simp]: "batcher_ok b \<Longrightarrow> length es = length ss \<Longrightarrow> batcher_ok (batcher_restore es ss b)"
  by (simp add: batcher_ok_def batcher_restore_def)

lemma next_committed_ok: "batcher_ok b \<Longrightarrow> next_committed b = (r, b') \<Longrightarrow> batcher_ok b'"
  by (auto simp: batcher_ok_def next_committed_def split: list.splits)

lemma batcher_recycle_ok [simp]: "batcher_ok b \<Longrightarrow> batcher_ok (batcher_recycle es ss b)"
  by (simp add: batcher_ok_def batcher_recycle_def)

section \<open>Chains and batches\<close>

text \<open>A chain's legs lie together in the open batch: between two legs of one chain there are only legs of
  that chain.\<close>

definition chains_contiguous :: "Effect list \<Rightarrow> bool" where
  "chains_contiguous es \<longleftrightarrow>
     (\<forall>i j k. i \<le> j \<and> j \<le> k \<and> k < length es \<and> ef_chain (es ! i) = ef_chain (es ! k) \<and> ef_chain (es ! i) \<noteq> 0
        \<longrightarrow> ef_chain (es ! j) = ef_chain (es ! i))"

text \<open>Where the walk stops: at the start, or between two effects that are not legs of one chain; and what
  it walked over was one chain.\<close>

lemma chain_boundary_stops:
  assumes "chain_boundary es n = r" "0 < r" "r < length es"
  shows "ef_chain (es ! (r - 1)) = 0 \<or> ef_chain (es ! (r - 1)) \<noteq> ef_chain (es ! r)"
  using assms by (induction n) (auto simp: Let_def is_absent_def split: if_splits)

lemma chain_boundary_walked:
  "chain_boundary es n = r \<Longrightarrow> r < n \<Longrightarrow> r \<le> i \<Longrightarrow> i \<le> n \<Longrightarrow>
     ef_chain (es ! i) = ef_chain (es ! n) \<and> ef_chain (es ! n) \<noteq> 0 \<and> n < length es"
proof (induction n arbitrary: i)
  case (Suc n)
  from Suc.prems have w: "Suc n < length es" "ef_chain (es ! n) \<noteq> 0"
      "ef_chain (es ! n) = ef_chain (es ! Suc n)" "chain_boundary es n = r"
    by (auto simp: Let_def is_absent_def split: if_splits)
  show ?case
  proof (cases "i = Suc n")
    case True
    then show ?thesis using w by simp
  next
    case False
    then have "i \<le> n" using Suc.prems by simp
    show ?thesis
    proof (cases "r < n")
      case True
      then show ?thesis using Suc.IH [OF w(4) True Suc.prems(3) \<open>i \<le> n\<close>] w by simp
    next
      case False
      then have "i = n" using \<open>i \<le> n\<close> Suc.prems by simp
      then show ?thesis using w by simp
    qed
  qed
qed simp

lemma chain_not_split:
  assumes "chains_contiguous es" "chain_boundary es n = r" "x \<in> set (take r es)" "y \<in> set (drop r es)"
    "ef_chain x \<noteq> 0"
  shows "ef_chain x \<noteq> ef_chain y"
proof
  assume eq: "ef_chain x = ef_chain y"
  obtain i where i: "i < r" "i < length es" "x = es ! i"
    using assms(3) by (auto simp: in_set_conv_nth)
  obtain k where k: "r \<le> k" "k < length es" "y = es ! k"
    using assms(4) by (auto simp: in_set_conv_nth) (metis add.commute le_add1 less_diff_conv)
  have same: "ef_chain (es ! j) = ef_chain (es ! i)" if "i \<le> j" "j \<le> k" for j
    using assms(1,5) i k eq that unfolding chains_contiguous_def by blast
  have "ef_chain (es ! (r - 1)) = ef_chain (es ! i)" "ef_chain (es ! r) = ef_chain (es ! i)"
    using same [of "r - 1"] same [of r] i k by auto
  with chain_boundary_stops [OF assms(2)] i k assms(5) show False by auto
qed

text \<open>C35: a proposal is a prefix of what was judged, with its slots, and never splits a chain. What is
  proposed followed by what stays is exactly what was waiting, effects and slots alike; and when the legs of
  each chain lie together, no leg of a chain in the proposal is left behind.\<close>

theorem proposal_is_prefix_and_keeps_chains_whole:
  assumes "batcher_ok b" and "take_proposal now b = (Some (p, slots), b')"
  shows "rp_effects p @ bt_effects b' = bt_effects b \<and> slots @ bt_slots b' = bt_slots b
    \<and> length slots = length (rp_effects p) \<and> length (rp_effects p) \<le> bp_max (bt_policy b)
    \<and> (chains_contiguous (bt_effects b) \<longrightarrow>
        (\<forall>x \<in> set (rp_effects p). \<forall>y \<in> set (bt_effects b'). ef_chain x \<noteq> 0 \<longrightarrow> ef_chain x \<noteq> ef_chain y))"
proof -
  let ?n = "chain_boundary (bt_effects b) (min (length (bt_effects b)) (bp_max (bt_policy b)))"
  have p: "rp_effects p = take ?n (bt_effects b)" "slots = take ?n (bt_slots b)"
    and b': "bt_effects b' = drop ?n (bt_effects b)" "bt_slots b' = drop ?n (bt_slots b)"
    using take_proposal_cases [OF assms] by auto
  have "length (bt_slots b) = length (bt_effects b)" using assms(1) by (simp add: batcher_ok_def)
  moreover have "?n \<le> bp_max (bt_policy b)" by (meson chain_boundary_le le_trans min.cobounded2)
  moreover have "ef_chain x \<noteq> ef_chain y"
    if "chains_contiguous (bt_effects b)" "x \<in> set (rp_effects p)" "y \<in> set (bt_effects b')" "ef_chain x \<noteq> 0" for x y
    using chain_not_split [OF that(1) refl _ _ that(4)] that(2,3) p b' by simp
  ultimately show ?thesis using p b' by auto
qed

definition chain_effect :: "LinkedChainId \<Rightarrow> Effect" where
  "chain_effect c = \<lparr>ef_tx_id = 9, ef_pending_ref = 0, ef_debit_account = 1, ef_credit_account = 2,
     ef_amount = 5, ef_remaining_after = 0, ef_debit = 0, ef_credit = 1, ef_chain = c, ef_budget = 0,
     ef_ledger = 1, ef_kind = Post\<rparr>"

lemma absent_ids: "is_absent (7::LinkedChainId) \<longleftrightarrow> False" "is_absent (0::LinkedChainId) \<longleftrightarrow> True"
  by (simp_all add: is_absent_def)

definition sample_policy :: BatchPolicy where
  "sample_policy = \<lparr>bp_size = 2, bp_max = 2, bp_queued = 4, bp_linger = 10, bp_in_flight = 1\<rparr>"

definition sample_batcher :: Batcher where
  "sample_batcher = batcher_push (chain_effect 7) 2 0
     (batcher_push (chain_effect 7) 1 0 (batcher_push (chain_effect 0) 0 0 (batcher_new sample_policy 9)))"

lemma sample_batcher_ok: "batcher_ok sample_batcher"
  by (simp add: sample_batcher_def)

lemma sample_take:
  "\<exists>b'. take_proposal 0 sample_batcher = (Some (\<lparr>rp_batch_id = 1, rp_effects = [chain_effect 0]\<rparr>, [0]), b')
     \<and> bt_effects b' = [chain_effect 7, chain_effect 7]"
  by (simp add: take_proposal_def sample_batcher_def batcher_push_def batcher_new_def sample_policy_def
      chain_effect_def Let_def numeral_2_eq_2 absent_ids batcher_detach_def pool_take_def pool_new_def)

theorem proposal_is_prefix_and_keeps_chains_whole_witness:
  "\<exists>b'. take_proposal 0 sample_batcher = (Some (\<lparr>rp_batch_id = 1, rp_effects = [chain_effect 0]\<rparr>, [0]), b')
     \<and> [0] @ bt_slots b' = [0, 1, 2]"
proof -
  obtain b' where t: "take_proposal 0 sample_batcher =
      (Some (\<lparr>rp_batch_id = 1, rp_effects = [chain_effect 0]\<rparr>, [0]), b')" using sample_take by blast
  have "[0] @ bt_slots b' = bt_slots sample_batcher"
    using proposal_is_prefix_and_keeps_chains_whole [OF sample_batcher_ok t] by blast
  then show ?thesis using t by (simp add: sample_batcher_def batcher_new_def)
qed

text \<open>a refused proposal costs nothing but a retry: restoring what was taken puts the batcher back with
  the same effects and slots in the same order, the same batch id to use next, and the same opening time.\<close>

theorem refused_proposal_restores:
  assumes "batcher_ok b" and "take_proposal now b = (Some (p, slots), b')"
  shows "bt_effects (batcher_restore (rp_effects p) slots b') = bt_effects b
    \<and> bt_slots (batcher_restore (rp_effects p) slots b') = bt_slots b
    \<and> bt_next_batch_id (batcher_restore (rp_effects p) slots b') = rp_batch_id p
    \<and> bt_in_flight (batcher_restore (rp_effects p) slots b') = bt_in_flight b
    \<and> bt_opened_at_nanos (batcher_restore (rp_effects p) slots b') = bt_opened_at_nanos b
    \<and> batcher_ok (batcher_restore (rp_effects p) slots b')"
proof -
  have len: "length (bt_slots b) = length (bt_effects b)" using assms(1) by (simp add: batcher_ok_def)
  have "batcher_ok b'" using take_proposal_ok [OF assms] by simp
  then have "batcher_ok (batcher_restore (rp_effects p) slots b')"
    using take_proposal_cases [OF assms] len by (intro batcher_restore_ok) auto
  then show ?thesis
    using take_proposal_cases [OF assms] len by (auto simp: batcher_restore_def)
qed

theorem refused_proposal_restores_witness:
  "\<exists>p slots b'. take_proposal 0 sample_batcher = (Some (p, slots), b') \<and>
     bt_slots (batcher_restore (rp_effects p) slots b') = [0, 1, 2]"
proof -
  obtain p slots b' where t: "take_proposal 0 sample_batcher = (Some (p, slots), b')" using sample_take by blast
  then show ?thesis
    using refused_proposal_restores [OF sample_batcher_ok t] by (auto simp: sample_batcher_def batcher_new_def)
qed

text \<open>How many legs of one chain wait in the open batch.\<close>

definition legs_waiting :: "LinkedChainId \<Rightarrow> Effect list \<Rightarrow> nat" where
  "legs_waiting c es = length (filter (\<lambda>e. ef_chain e = c) es)"

lemma legs_of_prefix:
  assumes "\<forall>i \<le> n. ef_chain (es ! i) = c" "n < length es"
  shows "n < legs_waiting c es"
proof -
  have "\<forall>e \<in> set (take (Suc n) es). ef_chain e = c"
    using assms by (auto simp: in_set_conv_nth)
  then have "filter (\<lambda>e. ef_chain e = c) (take (Suc n) es) = take (Suc n) es" by (simp add: filter_id_conv)
  then have "legs_waiting c (take (Suc n) es) = Suc n" using assms(2) by (simp add: legs_waiting_def)
  moreover have "legs_waiting c es = legs_waiting c (take (Suc n) es) + legs_waiting c (drop (Suc n) es)"
    unfolding legs_waiting_def by (simp flip: filter_append length_append)
  ultimately show ?thesis by simp
qed

text \<open>C36: a proposal taken of a well-formed batcher, with a positive bound on the effects of a batch, is empty exactly when
  one chain at the front of the open batch has more legs than a batch may carry, since the cut then walks back over all
  of it. As long as no chain waits with more than \<open>max\<close> legs, every proposal taken has something in it.\<close>

theorem proposal_empty_only_for_oversized_chain:
  assumes "batcher_ok b" and "take_proposal now b = (Some (p, slots), b')" and "0 < bp_max (bt_policy b)"
  shows "(rp_effects p = [] \<longleftrightarrow>
      (\<exists>c. c \<noteq> 0 \<and> bp_max (bt_policy b) < length (bt_effects b)
         \<and> (\<forall>i \<le> bp_max (bt_policy b). ef_chain (bt_effects b ! i) = c)))
    \<and> ((\<forall>c. c \<noteq> 0 \<longrightarrow> legs_waiting c (bt_effects b) \<le> bp_max (bt_policy b)) \<longrightarrow> rp_effects p \<noteq> [])"
proof -
  let ?es = "bt_effects b" and ?m = "bp_max (bt_policy b)"
  let ?k = "min (length ?es) ?m"
  have p: "rp_effects p = take (chain_boundary ?es ?k) ?es" and ne: "?es \<noteq> []"
    using take_proposal_cases [OF assms(1,2)] by auto
  have empty: "rp_effects p = [] \<longleftrightarrow> chain_boundary ?es ?k = 0" using p ne by simp
  have one: "\<exists>c. c \<noteq> 0 \<and> ?m < length ?es \<and> (\<forall>i \<le> ?m. ef_chain (?es ! i) = c)"
    if "rp_effects p = []"
  proof -
    have z: "chain_boundary ?es ?k = 0" and "0 < ?k" using that empty ne assms(3) by auto
    note w = chain_boundary_walked [OF z \<open>0 < ?k\<close> le0]
    have "?k < length ?es" using w [of 0] by simp
    then have "?k = ?m" by simp
    show ?thesis
    proof (intro exI conjI allI impI)
      show "ef_chain (?es ! ?k) \<noteq> 0" using w [of 0] by simp
      show "?m < length ?es" using \<open>?k < length ?es\<close> \<open>?k = ?m\<close> by simp
      show "ef_chain (?es ! i) = ef_chain (?es ! ?k)" if "i \<le> ?m" for i
        using w [of i] that \<open>?k = ?m\<close> by (simp only:)
    qed
  qed
  have two: "chain_boundary ?es n = 0"
    if "c \<noteq> 0" "?m < length ?es" "\<forall>i \<le> ?m. ef_chain (?es ! i) = c" "n \<le> ?m" for c n
    using that(4)
  proof (induction n)
    case (Suc n)
    then have "ef_chain (?es ! n) = c" "ef_chain (?es ! Suc n) = c" using that(3) by auto
    then show ?case using Suc that(1,2) by (simp add: is_absent_def)
  qed simp
  have "rp_effects p = [] \<longleftrightarrow> (\<exists>c. c \<noteq> 0 \<and> ?m < length ?es \<and> (\<forall>i \<le> ?m. ef_chain (?es ! i) = c))"
  proof
    assume "\<exists>c. c \<noteq> 0 \<and> ?m < length ?es \<and> (\<forall>i \<le> ?m. ef_chain (?es ! i) = c)"
    then obtain c where c: "c \<noteq> 0" "?m < length ?es" "\<forall>i \<le> ?m. ef_chain (?es ! i) = c" by blast
    have "?k \<le> ?m" by (rule min.cobounded2)
    from two [OF c this] show "rp_effects p = []" by (simp only: empty)
  qed (rule one)
  moreover have "rp_effects p \<noteq> []" if few: "\<forall>c. c \<noteq> 0 \<longrightarrow> legs_waiting c ?es \<le> ?m"
  proof
    assume "rp_effects p = []"
    then obtain c where "c \<noteq> 0" "?m < length ?es" "\<forall>i \<le> ?m. ef_chain (?es ! i) = c" using one by blast
    with legs_of_prefix [of ?m ?es c] few show False by (auto simp: not_le [symmetric])
  qed
  ultimately show ?thesis by blast
qed

definition oversized_batcher :: Batcher where
  "oversized_batcher = batcher_push (chain_effect 7) 2 0
     (batcher_push (chain_effect 7) 1 0 (batcher_push (chain_effect 7) 0 0 (batcher_new sample_policy 9)))"

theorem proposal_empty_only_for_oversized_chain_witness:
  "\<exists>p slots b'. take_proposal 0 oversized_batcher = (Some (p, slots), b') \<and> rp_effects p = []
     \<and> bt_effects b' = bt_effects oversized_batcher"
proof -
  have "\<exists>p slots b'. take_proposal 0 oversized_batcher = (Some (p, slots), b')
     \<and> bt_effects b' = bt_effects oversized_batcher"
    by (simp add: take_proposal_def oversized_batcher_def batcher_push_def batcher_new_def sample_policy_def
      chain_effect_def Let_def numeral_2_eq_2 absent_ids batcher_detach_def pool_take_def pool_new_def)
  then obtain p slots b' where t: "take_proposal 0 oversized_batcher = (Some (p, slots), b')"
    "bt_effects b' = bt_effects oversized_batcher" by blast
  have eff: "bt_effects oversized_batcher = [chain_effect 7, chain_effect 7, chain_effect 7]"
    "bp_max (bt_policy oversized_batcher) = 2"
    by (simp_all add: oversized_batcher_def batcher_new_def sample_policy_def)
  have ok: "batcher_ok oversized_batcher" by (simp add: oversized_batcher_def)
  have "\<forall>i \<le> 2. ef_chain ([chain_effect 7, chain_effect 7, chain_effect 7] ! i) = 7"
    by (auto simp: nth_Cons' chain_effect_def)
  then have seven: "\<exists>c. c \<noteq> 0 \<and> 2 < length [chain_effect 7, chain_effect 7, chain_effect 7]
      \<and> (\<forall>i \<le> 2. ef_chain ([chain_effect 7, chain_effect 7, chain_effect 7] ! i) = c)"
    by (intro exI [of _ 7]) simp_all
  have pos: "0 < bp_max (bt_policy oversized_batcher)" by (simp add: eff)
  have "rp_effects p = []"
    by (rule proposal_empty_only_for_oversized_chain
          [OF ok t(1) pos, THEN conjunct1, THEN iffD2, unfolded eff, OF seven])
  then show ?thesis using t by blast
qed

end
