(* ===== verification/Slots.thy ===== *)
theory Slots
  imports Queues
begin

text \<open>
  Requests in flight (\<open>sequencer/src/state/pipeline.rs\<close>): the intake queue, the slots requests live in,
  what each one still waits for, and the dispatches a full queue refused. An index out of range is a panic,
  \<open>None\<close>. The lemmas show that the pool never hands out a slot that is in use and loses none, that a
  released slot forgets its answer, and what the dependency flags count.
\<close>

section \<open>What a request waits for\<close>

type_synonym DepFlags = u8

definition DEP_NONE :: DepFlags where "DEP_NONE = 0"
definition DEP_IDEM :: DepFlags where "DEP_IDEM = 1"
definition DEP_PENDING :: DepFlags where "DEP_PENDING = 2"
definition DEP_LINKED_CHAIN :: DepFlags where "DEP_LINKED_CHAIN = 4"

definition dep_contains :: "DepFlags \<Rightarrow> DepFlags \<Rightarrow> bool" where
  "dep_contains self other \<longleftrightarrow> self AND other = other"

definition dep_with :: "DepFlags \<Rightarrow> DepFlags \<Rightarrow> DepFlags" where
  "dep_with self other = self OR other"

definition dep_without :: "DepFlags \<Rightarrow> DepFlags \<Rightarrow> DepFlags" where
  "dep_without self other = self AND NOT other"

definition dep_is_empty :: "DepFlags \<Rightarrow> bool" where
  "dep_is_empty d \<longleftrightarrow> d = 0"

section \<open>A request in flight\<close>

record WorkItem =
  wi_tx :: Transfer
  wi_digest :: u64
  wi_seq :: Seq
  wi_lane :: AccountId
  wi_kind :: TransferKind
  wi_debit :: AcctHandle
  wi_credit :: AcctHandle
  wi_chain :: LinkedChainId
  wi_deps :: DepFlags
  wi_sent :: DepFlags
  wi_verdict :: "IdemVerdict option"
  wi_submitted_at_nanos :: nat

definition work_item_default :: WorkItem where
  "work_item_default =
     \<lparr>wi_tx = \<lparr>tr_id = 0, tr_pending_ref = 0, tr_debit_account = 0, tr_credit_account = 0,
        tr_amount = 0, tr_ledger = 0, tr_flags = 0\<rparr>,
      wi_digest = 0, wi_seq = 0, wi_lane = 0, wi_kind = SinglePhase, wi_debit = HANDLE_INVALID,
      wi_credit = HANDLE_INVALID, wi_chain = 0, wi_deps = DEP_NONE, wi_sent = DEP_NONE,
      wi_verdict = None, wi_submitted_at_nanos = 0\<rparr>"

definition holds_pin :: "WorkItem \<Rightarrow> bool" where
  "holds_pin w \<longleftrightarrow> needs_pending_lookup (wi_kind w) \<and> dep_contains (wi_sent w) DEP_PENDING"

definition clear_dep :: "DepFlags \<Rightarrow> WorkItem \<Rightarrow> WorkItem" where
  "clear_dep d w = w\<lparr>wi_deps := dep_without (wi_deps w) d\<rparr>"

definition is_judgeable :: "WorkItem \<Rightarrow> bool" where
  "is_judgeable w \<longleftrightarrow> dep_is_empty (wi_deps w)"

definition keeps_lane_place :: "WorkItem \<Rightarrow> bool" where
  "keeps_lane_place w \<longleftrightarrow> wi_seq w \<noteq> UNORDERED"

section \<open>The slot pool\<close>

record Answer =
  an_record :: "HoldData option"
  an_expects_applies :: nat

definition answer_default :: Answer where
  "answer_default = \<lparr>an_record = None, an_expects_applies = 0\<rparr>"

text \<open>The free list is a stack; its top is the head of the list here.\<close>

record SlotPool =
  po_items :: "WorkItem list"
  po_records :: "Answer list"
  po_free :: "SlotId list"
  po_peak :: Peak

definition slots_new :: "nat \<Rightarrow> SlotPool" where
  "slots_new capacity =
     \<lparr>po_items = replicate capacity work_item_default, po_records = replicate capacity answer_default,
      po_free = map word_of_nat [0..<capacity], po_peak = 0\<rparr>"

definition slots_in_flight :: "SlotPool \<Rightarrow> nat" where
  "slots_in_flight p = usize_sub (length (po_items p)) (length (po_free p))"

definition slots_alloc :: "SlotPool \<Rightarrow> SlotId option \<times> SlotPool" where
  "slots_alloc p =
     (case po_free p of
        [] \<Rightarrow> (None, p)
      | s # free \<Rightarrow>
          let p1 = p\<lparr>po_free := free\<rparr> in
          (Some s, p1\<lparr>po_peak := peak_saw (slots_in_flight p1) (po_peak p1)\<rparr>))"

definition slots_release :: "SlotId \<Rightarrow> SlotPool \<Rightarrow> SlotPool option" where
  "slots_release slot p =
     do { records \<leftarrow> vec_set (po_records p) (unat slot) answer_default;
          Some (p\<lparr>po_records := records, po_free := slot # po_free p\<rparr>) }"

definition slots_record :: "SlotId \<Rightarrow> SlotPool \<Rightarrow> HoldData option option" where
  "slots_record slot p = map_option an_record (vec_get (po_records p) (unat slot))"

definition slots_set_record :: "SlotId \<Rightarrow> HoldData option \<Rightarrow> SlotPool \<Rightarrow> SlotPool option" where
  "slots_set_record slot r p =
     do { a \<leftarrow> vec_get (po_records p) (unat slot);
          records \<leftarrow> vec_set (po_records p) (unat slot) (a\<lparr>an_record := r\<rparr>);
          Some (p\<lparr>po_records := records\<rparr>) }"

definition slots_expect_applies :: "SlotId \<Rightarrow> nat \<Rightarrow> SlotPool \<Rightarrow> SlotPool option" where
  "slots_expect_applies slot n p =
     do { a \<leftarrow> vec_get (po_records p) (unat slot);
          records \<leftarrow> vec_set (po_records p) (unat slot) (a\<lparr>an_expects_applies := n\<rparr>);
          Some (p\<lparr>po_records := records\<rparr>) }"

definition slots_expected_applies :: "SlotId \<Rightarrow> SlotPool \<Rightarrow> nat option" where
  "slots_expected_applies slot p = map_option an_expects_applies (vec_get (po_records p) (unat slot))"

definition slots_get :: "SlotId \<Rightarrow> SlotPool \<Rightarrow> WorkItem option" where
  "slots_get slot p = vec_get (po_items p) (unat slot)"

definition slots_get_mut :: "SlotId \<Rightarrow> (WorkItem \<Rightarrow> WorkItem) \<Rightarrow> SlotPool \<Rightarrow> SlotPool option" where
  "slots_get_mut slot f p =
     do { w \<leftarrow> vec_get (po_items p) (unat slot);
          items \<leftarrow> vec_set (po_items p) (unat slot) (f w);
          Some (p\<lparr>po_items := items\<rparr>) }"

section \<open>The pipeline\<close>

record Pipeline =
  pp_requests :: "Request Channel"
  pp_slots :: SlotPool
  pp_deferred :: "SlotId list"
  pp_deferred_peak :: Peak

definition pipeline_new :: "Request Channel \<Rightarrow> nat \<Rightarrow> Pipeline" where
  "pipeline_new requests slots =
     \<lparr>pp_requests = requests, pp_slots = slots_new slots, pp_deferred = [], pp_deferred_peak = 0\<rparr>"

definition next_request :: "Pipeline \<Rightarrow> Request option \<times> Pipeline" where
  "next_request p = (let (r, c) = chan_pop (pp_requests p) in (r, p\<lparr>pp_requests := c\<rparr>))"

definition pipeline_alloc :: "Pipeline \<Rightarrow> SlotId option \<times> Pipeline" where
  "pipeline_alloc p = (let (s, sp) = slots_alloc (pp_slots p) in (s, p\<lparr>pp_slots := sp\<rparr>))"

definition pipeline_release :: "SlotId \<Rightarrow> Pipeline \<Rightarrow> Pipeline option" where
  "pipeline_release slot p =
     do { sp \<leftarrow> slots_release slot (pp_slots p); Some (p\<lparr>pp_slots := sp\<rparr>) }"

definition pipeline_item :: "SlotId \<Rightarrow> Pipeline \<Rightarrow> WorkItem option" where
  "pipeline_item slot p = slots_get slot (pp_slots p)"

definition pipeline_item_mut :: "SlotId \<Rightarrow> (WorkItem \<Rightarrow> WorkItem) \<Rightarrow> Pipeline \<Rightarrow> Pipeline option" where
  "pipeline_item_mut slot f p =
     do { sp \<leftarrow> slots_get_mut slot f (pp_slots p); Some (p\<lparr>pp_slots := sp\<rparr>) }"

definition pipeline_record :: "SlotId \<Rightarrow> Pipeline \<Rightarrow> HoldData option option" where
  "pipeline_record slot p = slots_record slot (pp_slots p)"

definition pipeline_set_record :: "SlotId \<Rightarrow> HoldData option \<Rightarrow> Pipeline \<Rightarrow> Pipeline option" where
  "pipeline_set_record slot r p =
     do { sp \<leftarrow> slots_set_record slot r (pp_slots p); Some (p\<lparr>pp_slots := sp\<rparr>) }"

definition pipeline_expect_applies :: "SlotId \<Rightarrow> nat \<Rightarrow> Pipeline \<Rightarrow> Pipeline option" where
  "pipeline_expect_applies slot n p =
     do { sp \<leftarrow> slots_expect_applies slot n (pp_slots p); Some (p\<lparr>pp_slots := sp\<rparr>) }"

definition pipeline_expected_applies :: "SlotId \<Rightarrow> Pipeline \<Rightarrow> nat option" where
  "pipeline_expected_applies slot p = slots_expected_applies slot (pp_slots p)"

definition pipeline_defer :: "SlotId \<Rightarrow> Pipeline \<Rightarrow> Pipeline" where
  "pipeline_defer slot p =
     p\<lparr>pp_deferred := pp_deferred p @ [slot],
       pp_deferred_peak := peak_saw (length (pp_deferred p) + 1) (pp_deferred_peak p)\<rparr>"

definition deferred_front :: "Pipeline \<Rightarrow> SlotId option" where
  "deferred_front p = (case pp_deferred p of [] \<Rightarrow> None | s # _ \<Rightarrow> Some s)"

definition deferred_done :: "Pipeline \<Rightarrow> Pipeline" where
  "deferred_done p = p\<lparr>pp_deferred := tl (pp_deferred p)\<rparr>"

definition has_deferred :: "Pipeline \<Rightarrow> bool" where
  "has_deferred p \<longleftrightarrow> pp_deferred p \<noteq> []"

definition pipeline_in_flight :: "Pipeline \<Rightarrow> nat" where
  "pipeline_in_flight p = slots_in_flight (pp_slots p)"

section \<open>The pool's invariant\<close>

definition pool_slots_ok :: "SlotPool \<Rightarrow> bool" where
  "pool_slots_ok p \<longleftrightarrow>
     length (po_records p) = length (po_items p) \<and> length (po_items p) \<le> 2 ^ 32
     \<and> distinct (po_free p) \<and> (\<forall>s \<in> set (po_free p). unat s < length (po_items p))"

text \<open>The slots requests are in.\<close>

definition slots_used :: "SlotPool \<Rightarrow> SlotId set" where
  "slots_used p = {s. unat s < length (po_items p) \<and> s \<notin> set (po_free p)}"

lemma unat_of_nat_u32: "n < 2 ^ 32 \<Longrightarrow> unat (word_of_nat n :: u32) = n"
  by (simp add: unat_of_nat)

lemma slots_new_ok:
  assumes "cap \<le> 2 ^ 32"
  shows "pool_slots_ok (slots_new cap)" "slots_used (slots_new cap) = {}"
proof -
  have un: "unat (word_of_nat n :: u32) = n" if "n < cap" for n
    by (rule unat_of_nat_u32) (use that assms in simp)
  have "inj_on (word_of_nat :: nat \<Rightarrow> u32) {0..<cap}"
    by (rule inj_on_inverseI [where g = unat]) (use un in auto)
  then have dist: "distinct (map (word_of_nat :: nat \<Rightarrow> u32) [0..<cap])" by (simp add: distinct_map)
  show "pool_slots_ok (slots_new cap)"
    using assms un dist by (auto simp: pool_slots_ok_def slots_new_def)
  have "s \<in> word_of_nat ` {0..<cap}" if "unat s < cap" for s :: u32
    using that by (intro image_eqI [of _ _ "unat s"]) auto
  then show "slots_used (slots_new cap) = {}" by (auto simp: slots_used_def slots_new_def)
qed

lemma slots_card:
  assumes "pool_slots_ok p"
  shows "card (slots_used p) = slots_in_flight p" "finite (slots_used p)"
    "length (po_free p) \<le> length (po_items p)"
proof -
  let ?n = "length (po_items p)" and ?all = "{s::u32. unat s < length (po_items p)}"
  have un: "unat (word_of_nat n :: u32) = n" if "n < ?n" for n
    by (rule unat_of_nat_u32) (use that assms in \<open>simp add: pool_slots_ok_def\<close>)
  have img: "?all = word_of_nat ` {0..<?n}"
    using un by (auto intro!: image_eqI [of _ _ "unat _"]) 
  have inj: "inj_on (word_of_nat :: nat \<Rightarrow> u32) {0..<?n}"
    by (rule inj_on_inverseI [where g = unat]) (use un in auto)
  have fin: "finite ?all" "card ?all = ?n" unfolding img using inj by (simp_all add: card_image)
  have sub: "set (po_free p) \<subseteq> ?all" using assms by (auto simp: pool_slots_ok_def)
  have used: "slots_used p = ?all - set (po_free p)" by (auto simp: slots_used_def)
  have free: "card (set (po_free p)) = length (po_free p)"
    using assms by (simp add: pool_slots_ok_def distinct_card)
  show "length (po_free p) \<le> ?n" using card_mono [OF fin(1) sub] fin(2) free by simp
  then show "card (slots_used p) = slots_in_flight p"
    unfolding used slots_in_flight_def using card_Diff_subset [OF _ sub] fin free by simp
  show "finite (slots_used p)" unfolding used using fin by simp
qed

lemma slots_alloc_ok:
  assumes "pool_slots_ok p" "slots_alloc p = (Some s, p')"
  shows "pool_slots_ok p' \<and> s \<notin> slots_used p \<and> slots_used p' = insert s (slots_used p)
    \<and> po_items p' = po_items p \<and> po_records p' = po_records p \<and> unat s < length (po_items p)"
  using assms by (auto simp: slots_alloc_def pool_slots_ok_def slots_used_def Let_def split: list.splits)

lemma slots_alloc_None: "slots_alloc p = (None, p') \<longleftrightarrow> p' = p \<and> po_free p = []"
  by (auto simp: slots_alloc_def Let_def split: list.splits)

lemma slots_release_ok:
  assumes "pool_slots_ok p" "s \<in> slots_used p"
  shows "\<exists>p'. slots_release s p = Some p' \<and> pool_slots_ok p' \<and> slots_used p' = slots_used p - {s}
    \<and> po_items p' = po_items p \<and> po_records p' = (po_records p)[unat s := answer_default]"
  using assms by (auto simp: slots_release_def pool_slots_ok_def slots_used_def)

lemma slots_get_mut_ok:
  assumes "pool_slots_ok p" "unat s < length (po_items p)"
  shows "\<exists>p'. slots_get_mut s f p = Some p' \<and> pool_slots_ok p' \<and> slots_used p' = slots_used p
    \<and> po_items p' = (po_items p)[unat s := f (po_items p ! unat s)] \<and> po_records p' = po_records p"
  using assms by (auto simp: slots_get_mut_def pool_slots_ok_def slots_used_def)

text \<open>the slot pool hands out each slot to one request at a time and loses none. An allocation gives a
  slot no request is in; it is refused exactly when as many requests are in flight as there are slots; a
  release makes exactly that slot free again and forgets the answer it held; and the number the sequencer
  reports as in flight is the number of slots in use.\<close>

theorem slot_pool_is_exclusive:
  assumes "pool_slots_ok p"
  shows "(case slots_alloc p of
            (None, p') \<Rightarrow> p' = p \<and> card (slots_used p) = length (po_items p)
          | (Some s, p') \<Rightarrow> s \<notin> slots_used p \<and> slots_used p' = insert s (slots_used p) \<and> pool_slots_ok p')
    \<and> (\<forall>s \<in> slots_used p. \<exists>p'. slots_release s p = Some p' \<and> slots_used p' = slots_used p - {s}
          \<and> slots_record s p' = Some None \<and> pool_slots_ok p')
    \<and> slots_in_flight p = card (slots_used p)"
proof -
  have rel: "\<exists>p'. slots_release s p = Some p' \<and> slots_used p' = slots_used p - {s}
          \<and> slots_record s p' = Some None \<and> pool_slots_ok p'" if s: "s \<in> slots_used p" for s
  proof -
    obtain p' where p': "slots_release s p = Some p'" "pool_slots_ok p'" "slots_used p' = slots_used p - {s}"
      "po_records p' = (po_records p)[unat s := answer_default]"
      using slots_release_ok [OF assms s] by blast
    have "unat s < length (po_records p)" using s assms by (simp add: slots_used_def pool_slots_ok_def)
    then show ?thesis using p' by (simp add: slots_record_def answer_default_def)
  qed
  obtain r p' where a: "slots_alloc p = (r, p')" by force
  have "case slots_alloc p of
            (None, p') \<Rightarrow> p' = p \<and> card (slots_used p) = length (po_items p)
          | (Some s, p') \<Rightarrow> s \<notin> slots_used p \<and> slots_used p' = insert s (slots_used p) \<and> pool_slots_ok p'"
  proof (cases r)
    case None
    then have e: "slots_alloc p = (None, p')" using a by simp
    then have "p' = p \<and> po_free p = []" by (simp only: slots_alloc_None)
    then show ?thesis using e slots_card [OF assms] by (simp add: slots_in_flight_def)
  next
    case (Some s)
    then show ?thesis using slots_alloc_ok [OF assms] a by simp
  qed
  then show ?thesis using rel slots_card [OF assms] by simp
qed

theorem slot_pool_is_exclusive_witness:
  "slots_in_flight (snd (slots_alloc (slots_new 2))) = card (slots_used (snd (slots_alloc (slots_new 2))))
   \<and> fst (slots_alloc (slots_new 2)) = Some 0"
proof -
  have ok: "pool_slots_ok (slots_new 2)" by (rule slots_new_ok) simp
  obtain p' where a: "slots_alloc (slots_new 2) = (Some 0, p')"
    by (simp add: slots_alloc_def slots_new_def numeral_2_eq_2 Let_def)
  have "pool_slots_ok p'" using slot_pool_is_exclusive [OF ok] a by simp
  from slot_pool_is_exclusive [OF this] a show ?thesis by simp
qed

end
