(* ===== verification/Holds.thy ===== *)
theory Holds
  imports Queues
begin

text \<open>
  What the sequencer knows about holds (\<open>pending/src/overlay.rs\<close>), the port of the pending engine that
  keeps it (\<open>pending/src/memory.rs\<close>, the caller's side), and the channel that orders committed decisions
  before later lookups (\<open>sequencer/src/state/pending.rs\<close>). The interface of the overlay is a locale over
  what its clients call; the overlay and the port are both interpreted as it. The lemmas show that a removed
  hold stays gone until the engine has applied the removal, that an answer never overrides a decision, what
  eviction may drop, that a reservation is given back exactly, and that every committed decision reaches the
  engine once, in commit order, ahead of any later lookup.
\<close>

section \<open>The overlay\<close>

record Hold =
  ho_pinned :: u32
  ho_committed_remaining :: Amount
  ho_reserved :: Amount
  ho_resolved :: bool

datatype Entry = Watched u32 | Missing u32 | Removed u32 nat | Decided Hold

fun entry_pinned :: "Entry \<Rightarrow> u32" where
  "entry_pinned (Watched p) = p"
| "entry_pinned (Missing p) = p"
| "entry_pinned (Removed p _) = p"
| "entry_pinned (Decided h) = ho_pinned h"

text \<open>\<open>pins\<close> lends the count to be written.\<close>

fun entry_pins :: "(u32 \<Rightarrow> u32) \<Rightarrow> Entry \<Rightarrow> Entry" where
  "entry_pins f (Watched p) = Watched (f p)"
| "entry_pins f (Missing p) = Missing (f p)"
| "entry_pins f (Removed p sa) = Removed (f p) sa"
| "entry_pins f (Decided h) = Decided (h\<lparr>ho_pinned := f (ho_pinned h)\<rparr>)"

datatype Known = KNothing | KAwaiting | KGone | KLive Hold

record HoldOverlay =
  ov_entries :: "(TxId \<times> Entry) list"
  ov_soft_limit :: nat
  ov_eviction_per_round :: nat
  ov_peak :: Peak

definition overlay_new :: "nat \<Rightarrow> nat \<Rightarrow> HoldOverlay" where
  "overlay_new soft_limit eviction_per_round =
     \<lparr>ov_entries = [], ov_soft_limit = soft_limit, ov_eviction_per_round = eviction_per_round, ov_peak = 0\<rparr>"

definition ov_get :: "HoldOverlay \<Rightarrow> TxId \<Rightarrow> Entry option" where
  "ov_get s hold = map_of (ov_entries s) hold"

definition ov_keep :: "TxId \<Rightarrow> Entry \<Rightarrow> HoldOverlay \<Rightarrow> HoldOverlay" where
  "ov_keep hold entry s =
     (let es = AList.update hold entry (ov_entries s) in
      s\<lparr>ov_entries := es, ov_peak := peak_saw (length es) (ov_peak s)\<rparr>)"

definition ov_modify :: "TxId \<Rightarrow> (Entry \<Rightarrow> Entry) \<Rightarrow> HoldOverlay \<Rightarrow> HoldOverlay" where
  "ov_modify hold f s = s\<lparr>ov_entries := AList.map_entry hold f (ov_entries s)\<rparr>"

definition ov_known :: "HoldOverlay \<Rightarrow> TxId \<Rightarrow> Known" where
  "ov_known s hold =
     (case ov_get s hold of
        None \<Rightarrow> KNothing
      | Some (Watched _) \<Rightarrow> KAwaiting
      | Some (Missing _) \<Rightarrow> KGone
      | Some (Removed _ _) \<Rightarrow> KGone
      | Some (Decided h) \<Rightarrow> KLive h)"

definition ov_hold_is_missing :: "HoldOverlay \<Rightarrow> TxId \<Rightarrow> bool" where
  "ov_hold_is_missing s hold \<longleftrightarrow> ov_known s hold = KGone"

definition ov_begin_lookup :: "TxId \<Rightarrow> HoldOverlay \<Rightarrow> HoldOverlay" where
  "ov_begin_lookup hold s =
     (let es = (case ov_get s hold of None \<Rightarrow> AList.update hold (Watched 0) (ov_entries s)
                | Some _ \<Rightarrow> ov_entries s) in
      s\<lparr>ov_entries := es, ov_peak := peak_saw (length es) (ov_peak s)\<rparr>)"

definition ov_pin :: "TxId \<Rightarrow> HoldOverlay \<Rightarrow> HoldOverlay" where
  "ov_pin hold s = ov_modify hold (entry_pins (\<lambda>p. p + 1)) s"

definition ov_unpin :: "TxId \<Rightarrow> HoldOverlay \<Rightarrow> HoldOverlay" where
  "ov_unpin hold s = ov_modify hold (entry_pins (\<lambda>p. if p = 0 then 0 else p - 1)) s"

definition ov_pins_of :: "TxId \<Rightarrow> HoldOverlay \<Rightarrow> u32" where
  "ov_pins_of hold s = (case ov_get s hold of None \<Rightarrow> 0 | Some e \<Rightarrow> entry_pinned e)"

definition ov_decide :: "TxId \<Rightarrow> Amount \<Rightarrow> HoldOverlay \<Rightarrow> HoldOverlay" where
  "ov_decide hold remaining s =
     ov_keep hold (Decided \<lparr>ho_pinned = ov_pins_of hold s, ho_committed_remaining = remaining,
                           ho_reserved = 0, ho_resolved = False\<rparr>) s"

definition ov_admit_lookup :: "TxId \<Rightarrow> Amount option \<Rightarrow> HoldOverlay \<Rightarrow> HoldOverlay" where
  "ov_admit_lookup hold remaining s =
     (case ov_known s hold of
        KLive _ \<Rightarrow> s
      | KGone \<Rightarrow> s
      | _ \<Rightarrow>
          (case remaining of
             Some r \<Rightarrow> ov_decide hold r s
           | None \<Rightarrow> ov_keep hold (Missing (ov_pins_of hold s)) s))"

definition ov_created :: "TxId \<Rightarrow> Amount \<Rightarrow> HoldOverlay \<Rightarrow> HoldOverlay" where
  "ov_created hold amount s = (case ov_get s hold of None \<Rightarrow> s | Some _ \<Rightarrow> ov_decide hold amount s)"

definition ov_overlay :: "HoldOverlay \<Rightarrow> TxId \<Rightarrow> OverlayState" where
  "ov_overlay s hold =
     (case ov_known s hold of
        KLive h \<Rightarrow> \<lparr>os_remaining = Some (ho_committed_remaining h), os_taken = ho_reserved h,
                    os_resolved = ho_resolved h\<rparr>
      | KGone \<Rightarrow> \<lparr>os_remaining = Some 0, os_taken = 0, os_resolved = True\<rparr>
      | _ \<Rightarrow> overlay_default)"

text \<open>\<open>decided_mut\<close>: only a decided entry is lent.\<close>

fun on_decided :: "(Hold \<Rightarrow> Hold) \<Rightarrow> Entry \<Rightarrow> Entry" where
  "on_decided f (Decided h) = Decided (f h)"
| "on_decided f e = e"

definition ov_decided_mut :: "TxId \<Rightarrow> (Hold \<Rightarrow> Hold) \<Rightarrow> HoldOverlay \<Rightarrow> HoldOverlay" where
  "ov_decided_mut hold f s = ov_modify hold (on_decided f) s"

definition ov_reserve :: "TxId \<Rightarrow> Amount \<Rightarrow> bool \<Rightarrow> HoldOverlay \<Rightarrow> HoldOverlay" where
  "ov_reserve hold amount resolves s =
     ov_decided_mut hold (\<lambda>h. h\<lparr>ho_reserved := i64_add (ho_reserved h) amount,
                               ho_resolved := ho_resolved h \<or> resolves\<rparr>) s"

definition ov_release_reservation :: "TxId \<Rightarrow> Amount \<Rightarrow> HoldOverlay \<Rightarrow> HoldOverlay" where
  "ov_release_reservation hold amount s =
     ov_decided_mut hold (\<lambda>h. h\<lparr>ho_reserved := max (i64_sub (ho_reserved h) amount) 0\<rparr>) s"

definition ov_note_remaining :: "TxId \<Rightarrow> Amount \<Rightarrow> HoldOverlay \<Rightarrow> HoldOverlay" where
  "ov_note_remaining hold remaining s =
     ov_decided_mut hold (\<lambda>h. h\<lparr>ho_committed_remaining := remaining\<rparr>) s"

definition ov_forget :: "TxId \<Rightarrow> nat \<Rightarrow> HoldOverlay \<Rightarrow> HoldOverlay" where
  "ov_forget hold safe_after s = ov_keep hold (Removed (ov_pins_of hold s) safe_after) s"

definition ov_compensate :: "TxId \<Rightarrow> Amount \<Rightarrow> bool \<Rightarrow> HoldOverlay \<Rightarrow> HoldOverlay" where
  "ov_compensate hold amount resolves s =
     ov_decided_mut hold (\<lambda>h. h\<lparr>ho_reserved := i64_sub (ho_reserved h) amount,
                               ho_resolved := (if resolves then False else ho_resolved h)\<rparr>) s"

definition entry_idle :: "nat \<Rightarrow> Entry \<Rightarrow> bool" where
  "entry_idle applied e =
     (case e of
        Decided h \<Rightarrow> ho_reserved h = 0 \<and> \<not> ho_resolved h
      | Removed _ safe_after \<Rightarrow> applied \<ge> safe_after
      | Watched _ \<Rightarrow> True
      | Missing _ \<Rightarrow> True)"

text \<open>The walk of \<open>retain\<close>, in whatever order the map is walked: the order of the list.\<close>

fun ov_retain :: "nat \<Rightarrow> nat \<Rightarrow> (TxId \<times> Entry) list \<Rightarrow> nat \<times> (TxId \<times> Entry) list" where
  "ov_retain applied budget [] = (0, [])"
| "ov_retain applied budget ((hold, e) # es) =
     (if budget > 0 \<and> entry_pinned e = 0 \<and> entry_idle applied e
      then (let (n, kept) = ov_retain applied (budget - 1) es in (n + 1, kept))
      else (let (n, kept) = ov_retain applied budget es in (n, (hold, e) # kept)))"

definition ov_maintain :: "nat \<Rightarrow> HoldOverlay \<Rightarrow> nat \<times> HoldOverlay" where
  "ov_maintain applied s =
     (if length (ov_entries s) \<le> ov_soft_limit s then (0, s)
      else let (n, kept) = ov_retain applied (ov_eviction_per_round s) (ov_entries s)
           in (n, s\<lparr>ov_entries := kept\<rparr>))"

definition ov_len :: "HoldOverlay \<Rightarrow> nat" where
  "ov_len s = length (ov_entries s)"

section \<open>The port, from the caller's side\<close>

record MemoryPending =
  mp_commands :: "PendingCommand Channel"
  mp_results :: "PendingReply Channel"
  mp_notices :: "PendingNotice Channel"
  mp_overlay :: HoldOverlay
  mp_applies_sent :: nat
  mp_applied :: nat
  mp_wants_expiry :: bool

text \<open>\<open>mp_applied\<close> and \<open>mp_wants_expiry\<close> are the two cells of \<open>Occupancy\<close> the two sides share: the
  worker writes the first, this side the second.\<close>

definition pending_send :: "PendingCommand \<Rightarrow> MemoryPending \<Rightarrow> bool \<times> MemoryPending" where
  "pending_send command p =
     (case chan_push command (mp_commands p) of
        (False, c) \<Rightarrow> (False, p\<lparr>mp_commands := c\<rparr>)
      | (True, c) \<Rightarrow>
          let p1 = p\<lparr>mp_commands := c\<rparr>;
              p2 = (case command of Apply _ _ \<Rightarrow> p1\<lparr>mp_applies_sent := mp_applies_sent p1 + 1\<rparr> | _ \<Rightarrow> p1) in
          (True,
           case command of
             Apply (Create tx_id _ _ amount _ _) _ \<Rightarrow> p2\<lparr>mp_overlay := ov_created tx_id amount (mp_overlay p2)\<rparr>
           | Apply (Reduce r _ _ _ remaining _ _) _ \<Rightarrow>
               p2\<lparr>mp_overlay := ov_note_remaining r remaining (mp_overlay p2)\<rparr>
           | Apply (Remove r _ _) _ \<Rightarrow> p2\<lparr>mp_overlay := ov_forget r (mp_applies_sent p2) (mp_overlay p2)\<rparr>
           | _ \<Rightarrow> p2))"

definition pending_poll :: "MemoryPending \<Rightarrow> PendingReply option \<times> MemoryPending" where
  "pending_poll p = (let (r, c) = chan_pop (mp_results p) in (r, p\<lparr>mp_results := c\<rparr>))"

definition pending_notices :: "MemoryPending \<Rightarrow> PendingNotice option \<times> MemoryPending" where
  "pending_notices p = (let (r, c) = chan_pop (mp_notices p) in (r, p\<lparr>mp_notices := c\<rparr>))"

definition pending_set_wants_expiry :: "bool \<Rightarrow> MemoryPending \<Rightarrow> MemoryPending" where
  "pending_set_wants_expiry wanted p = p\<lparr>mp_wants_expiry := wanted\<rparr>"

definition pending_with_overlay :: "(HoldOverlay \<Rightarrow> HoldOverlay) \<Rightarrow> MemoryPending \<Rightarrow> MemoryPending" where
  "pending_with_overlay f p = p\<lparr>mp_overlay := f (mp_overlay p)\<rparr>"

definition pending_maintain :: "MemoryPending \<Rightarrow> nat \<times> MemoryPending" where
  "pending_maintain p = (let (n, s) = ov_maintain (mp_applied p) (mp_overlay p) in (n, p\<lparr>mp_overlay := s\<rparr>))"

section \<open>The sequencer's end of the pending path\<close>

record PendingChannel =
  pc_port :: MemoryPending
  pc_writes :: "(PendingEffect \<times> ApplyIndex) list"
  pc_limit :: nat
  pc_peak :: Peak
  pc_applies_sent :: nat
  pc_declines :: "TxId list"

definition pchan_new :: "MemoryPending \<Rightarrow> nat \<Rightarrow> PendingChannel" where
  "pchan_new port limit =
     \<lparr>pc_port = port, pc_writes = [], pc_limit = limit, pc_peak = 0, pc_applies_sent = 0, pc_declines = []\<rparr>"

definition pchan_send :: "PendingCommand \<Rightarrow> PendingChannel \<Rightarrow> bool \<times> PendingChannel" where
  "pchan_send command c = (let (ok, p) = pending_send command (pc_port c) in (ok, c\<lparr>pc_port := p\<rparr>))"

definition pchan_set_wants_expiry :: "bool \<Rightarrow> PendingChannel \<Rightarrow> PendingChannel" where
  "pchan_set_wants_expiry wanted c = c\<lparr>pc_port := pending_set_wants_expiry wanted (pc_port c)\<rparr>"

definition decline_expiry :: "TxId \<Rightarrow> PendingChannel \<Rightarrow> PendingChannel" where
  "decline_expiry hold c =
     (if pc_declines c \<noteq> [] then c\<lparr>pc_declines := pc_declines c @ [hold]\<rparr>
      else case pchan_send (ExpiryDeclined hold) c of
        (True, c') \<Rightarrow> c'
      | (False, c') \<Rightarrow> c'\<lparr>pc_declines := pc_declines c' @ [hold]\<rparr>)"

text \<open>The loop of \<open>drain_declines\<close>, over the queue it walks.\<close>

fun drain_declines_loop :: "TxId list \<Rightarrow> PendingChannel \<Rightarrow> bool \<times> PendingChannel" where
  "drain_declines_loop [] c = (False, c\<lparr>pc_declines := []\<rparr>)"
| "drain_declines_loop (hold # hs) c =
     (case pchan_send (ExpiryDeclined hold) c of
        (False, c') \<Rightarrow> (False, c'\<lparr>pc_declines := hold # hs\<rparr>)
      | (True, c') \<Rightarrow> (True, snd (drain_declines_loop hs c')))"

definition drain_declines :: "PendingChannel \<Rightarrow> bool \<times> PendingChannel" where
  "drain_declines c = drain_declines_loop (pc_declines c) c"

definition pchan_lookup :: "PendingLookup \<Rightarrow> PendingChannel \<Rightarrow> bool \<times> PendingChannel" where
  "pchan_lookup l c = pchan_send (Lookup l) c"

definition pchan_fence :: "PendingFence \<Rightarrow> PendingChannel \<Rightarrow> bool \<times> PendingChannel" where
  "pchan_fence f c = pchan_send (Fence f) c"

definition pchan_write :: "PendingEffect \<Rightarrow> ApplyIndex \<Rightarrow> PendingChannel \<Rightarrow> PendingChannel" where
  "pchan_write effect at c =
     (let park = (\<lambda>c. c\<lparr>pc_writes := pc_writes c @ [(effect, at)],
                        pc_peak := peak_saw (length (pc_writes c) + 1) (pc_peak c)\<rparr>) in
      if pc_writes c \<noteq> [] then park c
      else case pchan_send (Apply effect at) c of
        (False, c') \<Rightarrow> park c'
      | (True, c') \<Rightarrow> c'\<lparr>pc_applies_sent := pc_applies_sent c' + 1\<rparr>)"

fun flush_writes :: "(PendingEffect \<times> ApplyIndex) list \<Rightarrow> PendingChannel \<Rightarrow> bool \<times> PendingChannel" where
  "flush_writes [] c = (False, c\<lparr>pc_writes := []\<rparr>)"
| "flush_writes ((effect, at) # ws) c =
     (case pchan_send (Apply effect at) c of
        (False, c') \<Rightarrow> (False, c'\<lparr>pc_writes := (effect, at) # ws\<rparr>)
      | (True, c') \<Rightarrow>
          (True, snd (flush_writes ws (c'\<lparr>pc_applies_sent := pc_applies_sent c' + 1\<rparr>))))"

definition pchan_flush :: "PendingChannel \<Rightarrow> bool \<times> PendingChannel" where
  "pchan_flush c =
     (let (progress, c1) = flush_writes (pc_writes c) c; (sent, c2) = drain_declines c1
      in (progress \<or> sent, c2))"

definition blocks_lookups :: "PendingChannel \<Rightarrow> bool" where
  "blocks_lookups c \<longleftrightarrow> pc_writes c \<noteq> []"

definition pchan_is_saturated :: "PendingChannel \<Rightarrow> bool" where
  "pchan_is_saturated c \<longleftrightarrow> length (pc_writes c) \<ge> pc_limit c"

definition pchan_depth :: "PendingChannel \<Rightarrow> nat" where
  "pchan_depth c = length (pc_writes c)"

definition pchan_poll :: "PendingChannel \<Rightarrow> PendingReply option \<times> PendingChannel" where
  "pchan_poll c = (let (r, p) = pending_poll (pc_port c) in (r, c\<lparr>pc_port := p\<rparr>))"

definition pchan_notice :: "PendingChannel \<Rightarrow> PendingNotice option \<times> PendingChannel" where
  "pchan_notice c = (let (r, p) = pending_notices (pc_port c) in (r, c\<lparr>pc_port := p\<rparr>))"

text \<open>The inline half, forwarded.\<close>

definition pchan_with_overlay :: "(HoldOverlay \<Rightarrow> HoldOverlay) \<Rightarrow> PendingChannel \<Rightarrow> PendingChannel" where
  "pchan_with_overlay f c = c\<lparr>pc_port := pending_with_overlay f (pc_port c)\<rparr>"

definition pchan_hold_is_missing :: "PendingChannel \<Rightarrow> TxId \<Rightarrow> bool" where
  "pchan_hold_is_missing c hold = ov_hold_is_missing (mp_overlay (pc_port c)) hold"

definition pchan_overlay :: "PendingChannel \<Rightarrow> TxId \<Rightarrow> OverlayState" where
  "pchan_overlay c hold = ov_overlay (mp_overlay (pc_port c)) hold"

definition pchan_maintain :: "PendingChannel \<Rightarrow> nat \<times> PendingChannel" where
  "pchan_maintain c = (let (n, p) = pending_maintain (pc_port c) in (n, c\<lparr>pc_port := p\<rparr>))"

definition pchan_overlay_len :: "PendingChannel \<Rightarrow> nat" where
  "pchan_overlay_len c = ov_len (mp_overlay (pc_port c))"

section \<open>Reading back\<close>

lemma ov_get_keep [simp]: "ov_get (ov_keep h e s) k = (if k = h then Some e else ov_get s k)"
  by (simp add: ov_get_def ov_keep_def Let_def update_conv')

lemma ov_get_modify [simp]:
  "ov_get (ov_modify h f s) k = (if k = h then map_option f (ov_get s k) else ov_get s k)"
  by (auto simp: ov_get_def ov_modify_def map_of_map_entry split: option.splits)

lemma ov_get_begin_lookup [simp]:
  "ov_get (ov_begin_lookup h s) k =
     (if k = h then Some (case ov_get s h of None \<Rightarrow> Watched 0 | Some e \<Rightarrow> e) else ov_get s k)"
  by (auto simp: ov_get_def ov_begin_lookup_def Let_def update_conv' split: option.splits)

lemmas ov_ops = ov_pin_def ov_unpin_def ov_decide_def ov_admit_lookup_def ov_created_def ov_decided_mut_def
  ov_reserve_def ov_release_reservation_def ov_note_remaining_def ov_forget_def ov_compensate_def

definition ov_wf :: "HoldOverlay \<Rightarrow> bool" where
  "ov_wf s \<longleftrightarrow> distinct (map fst (ov_entries s))"

lemma ov_wf_keep [simp]: "ov_wf s \<Longrightarrow> ov_wf (ov_keep h e s)"
  by (simp add: ov_wf_def ov_keep_def Let_def distinct_update)

lemma map_entry_keys: "map fst (AList.map_entry h f es) = map fst es"
  by (induction es) auto

lemma ov_wf_modify [simp]: "ov_wf (ov_modify h f s) \<longleftrightarrow> ov_wf s"
  by (simp add: ov_wf_def ov_modify_def map_entry_keys)

lemma ov_wf_begin [simp]: "ov_wf s \<Longrightarrow> ov_wf (ov_begin_lookup h s)"
  by (auto simp: ov_wf_def ov_begin_lookup_def Let_def distinct_update split: option.splits)

lemma ov_wf_ops [simp]:
  assumes "ov_wf s"
  shows "ov_wf (ov_pin h s)" "ov_wf (ov_unpin h s)" "ov_wf (ov_admit_lookup h m s)" "ov_wf (ov_created h a s)"
    "ov_wf (ov_reserve h a b s)" "ov_wf (ov_release_reservation h a s)" "ov_wf (ov_note_remaining h a s)"
    "ov_wf (ov_forget h n s)" "ov_wf (ov_compensate h a b s)"
  using assms by (auto simp: ov_ops split: Known.splits option.splits)

lemma ov_retain_subset: "ov_retain a b es = (n, kept) \<Longrightarrow> set kept \<subseteq> set es"
  by (induction es arbitrary: b n kept) (fastforce split: if_splits prod.splits)+

lemma ov_retain_distinct:
  "distinct (map fst es) \<Longrightarrow> ov_retain a b es = (n, kept) \<Longrightarrow> distinct (map fst kept)"
proof (induction es arbitrary: b n kept)
  case (Cons x es)
  obtain h e where x: "x = (h, e)" by force
  have notin: "h \<notin> fst ` set k" if "ov_retain a c es = (m, k)" for c m k
    using ov_retain_subset [OF that] Cons.prems(1) x by auto
  show ?case using Cons x notin by (auto split: if_splits prod.splits)
qed auto

lemma ov_retain_count:
  "ov_retain a b es = (n, kept) \<Longrightarrow> n \<le> b \<and> length kept + n = length es"
  by (induction es arbitrary: b n kept) (fastforce split: if_splits prod.splits)+

lemma ov_retain_keeps:
  "ov_retain a b es = (n, kept) \<Longrightarrow> (h, e) \<in> set es \<Longrightarrow> entry_pinned e \<noteq> 0 \<or> \<not> entry_idle a e \<Longrightarrow> (h, e) \<in> set kept"
proof (induction es arbitrary: b n kept)
  case (Cons x es)
  obtain h' e' where x: "x = (h', e')" by force
  show ?case
  proof (cases "b > 0 \<and> entry_pinned e' = 0 \<and> entry_idle a e'")
    case True
    obtain m k where r: "ov_retain a (b - 1) es = (m, k)" by force
    have "kept = k" using Cons.prems(1) True r x by simp
    then show ?thesis using Cons.IH [OF r] Cons.prems(2,3) True x by auto
  next
    case False
    obtain m k where r: "ov_retain a b es = (m, k)" by force
    have "kept = x # k" using Cons.prems(1) False r x by auto
    then show ?thesis using Cons.IH [OF r] Cons.prems(2,3) x by auto
  qed
qed simp

lemma ov_get_maintain_keeps:
  assumes "ov_wf s" "ov_maintain a s = (n, s')" "ov_get s h = Some e" "entry_pinned e \<noteq> 0 \<or> \<not> entry_idle a e"
  shows "ov_get s' h = Some e"
proof (cases "length (ov_entries s) \<le> ov_soft_limit s")
  case True
  then show ?thesis using assms by (simp add: ov_maintain_def)
next
  case False
  obtain m kept where r: "ov_retain a (ov_eviction_per_round s) (ov_entries s) = (m, kept)" by force
  have s': "ov_entries s' = kept" using assms(2) False r by (auto simp: ov_maintain_def)
  have "(h, e) \<in> set (ov_entries s)" using assms(3) by (simp add: ov_get_def map_of_SomeD)
  then have "(h, e) \<in> set kept" using ov_retain_keeps [OF r _ assms(4)] by blast
  moreover have "distinct (map fst kept)" using ov_retain_distinct [OF _ r] assms(1) by (simp add: ov_wf_def)
  ultimately show ?thesis by (simp add: ov_get_def s' map_of_is_SomeI)
qed

lemma ov_wf_maintain: "ov_wf s \<Longrightarrow> ov_maintain a s = (n, s') \<Longrightarrow> ov_wf s'"
  using ov_retain_distinct [of "ov_entries s"]
  by (fastforce simp: ov_wf_def ov_maintain_def split: if_splits prod.splits)

section \<open>The overlay's contract\<close>

text \<open>
  What a client of the overlay calls between telling the engine to remove a hold and the engine having
  applied that removal. \<open>gone\<close> is the promise: the hold is known to be removed and the engine has not
  confirmed it yet. Every call keeps it.
\<close>

datatype OverlayCall =
    BeginLookup TxId
  | AdmitLookup TxId "Amount option"
  | Pin TxId
  | Unpin TxId
  | Reserve TxId Amount bool
  | ReleaseReservation TxId Amount
  | Compensate TxId Amount bool
  | Maintain

locale pending_overlay =
  fixes begin_lookup :: "TxId \<Rightarrow> 's \<Rightarrow> 's"
    and admit_lookup :: "TxId \<Rightarrow> Amount option \<Rightarrow> 's \<Rightarrow> 's"
    and pin :: "TxId \<Rightarrow> 's \<Rightarrow> 's"
    and unpin :: "TxId \<Rightarrow> 's \<Rightarrow> 's"
    and reserve :: "TxId \<Rightarrow> Amount \<Rightarrow> bool \<Rightarrow> 's \<Rightarrow> 's"
    and release_reservation :: "TxId \<Rightarrow> Amount \<Rightarrow> 's \<Rightarrow> 's"
    and compensate :: "TxId \<Rightarrow> Amount \<Rightarrow> bool \<Rightarrow> 's \<Rightarrow> 's"
    and maintain :: "'s \<Rightarrow> nat \<times> 's"
    and hold_is_missing :: "'s \<Rightarrow> TxId \<Rightarrow> bool"
    and overlay :: "'s \<Rightarrow> TxId \<Rightarrow> OverlayState"
    and invar :: "'s \<Rightarrow> bool"
    and gone :: "TxId \<Rightarrow> 's \<Rightarrow> bool"
  assumes invar_kept: "invar s \<Longrightarrow> invar (begin_lookup k s) \<and> invar (admit_lookup k m s) \<and> invar (pin k s)
      \<and> invar (unpin k s) \<and> invar (reserve k a b s) \<and> invar (release_reservation k a s)
      \<and> invar (compensate k a b s) \<and> invar (snd (maintain s))"
    and gone_kept: "invar s \<Longrightarrow> gone h s \<Longrightarrow> gone h (begin_lookup k s) \<and> gone h (admit_lookup k m s)
      \<and> gone h (pin k s) \<and> gone h (unpin k s) \<and> gone h (reserve k a b s) \<and> gone h (release_reservation k a s)
      \<and> gone h (compensate k a b s) \<and> gone h (snd (maintain s))"
    and gone_is_missing: "gone h s \<Longrightarrow> hold_is_missing s h"
    and gone_is_resolved: "gone h s \<Longrightarrow> overlay s h = \<lparr>os_remaining = Some 0, os_taken = 0, os_resolved = True\<rparr>"
begin

fun call :: "OverlayCall \<Rightarrow> 's \<Rightarrow> 's" where
  "call (BeginLookup k) s = begin_lookup k s"
| "call (AdmitLookup k m) s = admit_lookup k m s"
| "call (Pin k) s = pin k s"
| "call (Unpin k) s = unpin k s"
| "call (Reserve k a b) s = reserve k a b s"
| "call (ReleaseReservation k a) s = release_reservation k a s"
| "call (Compensate k a b) s = compensate k a b s"
| "call Maintain s = snd (maintain s)"

lemma call_keeps: "invar s \<Longrightarrow> invar (call c s) \<and> (gone h s \<longrightarrow> gone h (call c s))"
  using invar_kept gone_kept by (cases c) auto

lemma calls_keep: "invar s \<Longrightarrow> gone h s \<Longrightarrow> invar (fold call cs s) \<and> gone h (fold call cs s)"
  by (induction cs arbitrary: s) (auto dest: call_keeps)

lemma stays_gone:
  assumes "invar s" "gone h s"
  shows "hold_is_missing (fold call cs s) h
    \<and> overlay (fold call cs s) h = \<lparr>os_remaining = Some 0, os_taken = 0, os_resolved = True\<rparr>"
  using calls_keep [OF assms] gone_is_missing gone_is_resolved by blast

end

text \<open>The overlay itself, with the number of applies the engine reports to \<open>maintain\<close>.\<close>

definition ov_gone :: "nat \<Rightarrow> TxId \<Rightarrow> HoldOverlay \<Rightarrow> bool" where
  "ov_gone applied h s \<longleftrightarrow> (\<exists>p sa. ov_get s h = Some (Removed p sa) \<and> applied < sa)"

lemma ov_gone_modify: "ov_gone a h s \<Longrightarrow> (\<And>p sa. \<exists>q. f (Removed p sa) = Removed q sa) \<Longrightarrow> ov_gone a h (ov_modify k f s)"
  by (auto simp: ov_gone_def) metis

lemma ov_gone_maintain: "ov_wf s \<Longrightarrow> ov_gone a h s \<Longrightarrow> ov_gone a h (snd (ov_maintain a s))"
  using ov_get_maintain_keeps [of s a] by (cases "ov_maintain a s") (fastforce simp: ov_gone_def entry_idle_def)

lemma ov_gone_admit: "ov_gone a h s \<Longrightarrow> ov_gone a h (ov_admit_lookup k m s)"
  by (auto simp: ov_gone_def ov_admit_lookup_def ov_known_def ov_decide_def split: option.splits Entry.splits)

interpretation holds: pending_overlay ov_begin_lookup ov_admit_lookup ov_pin ov_unpin ov_reserve
  ov_release_reservation ov_compensate "ov_maintain applied" ov_hold_is_missing ov_overlay ov_wf "ov_gone applied"
  for applied
proof unfold_locales
  fix s k m a b
  assume "ov_wf s"
  then show "ov_wf (ov_begin_lookup k s) \<and> ov_wf (ov_admit_lookup k m s) \<and> ov_wf (ov_pin k s)
      \<and> ov_wf (ov_unpin k s) \<and> ov_wf (ov_reserve k a b s) \<and> ov_wf (ov_release_reservation k a s)
      \<and> ov_wf (ov_compensate k a b s) \<and> ov_wf (snd (ov_maintain applied s))"
    using ov_wf_maintain by (cases "ov_maintain applied s") simp
next
  fix s h k m a b
  assume "ov_wf s" "ov_gone applied h s"
  moreover from this have "ov_gone applied h (ov_begin_lookup k s)" by (auto simp: ov_gone_def)
  ultimately show "ov_gone applied h (ov_begin_lookup k s) \<and> ov_gone applied h (ov_admit_lookup k m s)
      \<and> ov_gone applied h (ov_pin k s) \<and> ov_gone applied h (ov_unpin k s) \<and> ov_gone applied h (ov_reserve k a b s)
      \<and> ov_gone applied h (ov_release_reservation k a s) \<and> ov_gone applied h (ov_compensate k a b s)
      \<and> ov_gone applied h (snd (ov_maintain applied s))"
    by (simp add: ov_gone_maintain ov_gone_admit ov_pin_def ov_unpin_def ov_reserve_def ov_release_reservation_def
        ov_compensate_def ov_decided_mut_def ov_gone_modify)
qed (auto simp: ov_gone_def ov_hold_is_missing_def ov_known_def ov_overlay_def)

lemma pending_maintain_overlay [simp]:
  "mp_overlay (snd (pending_maintain p)) = snd (ov_maintain (mp_applied p) (mp_overlay p))"
  "mp_applied (snd (pending_maintain p)) = mp_applied p"
  by (simp_all add: pending_maintain_def split: prod.splits)

text \<open>The port, which forwards each call to the overlay it owns.\<close>

interpretation port: pending_overlay "\<lambda>k. pending_with_overlay (ov_begin_lookup k)"
  "\<lambda>k m. pending_with_overlay (ov_admit_lookup k m)" "\<lambda>k. pending_with_overlay (ov_pin k)"
  "\<lambda>k. pending_with_overlay (ov_unpin k)" "\<lambda>k a b. pending_with_overlay (ov_reserve k a b)"
  "\<lambda>k a. pending_with_overlay (ov_release_reservation k a)" "\<lambda>k a b. pending_with_overlay (ov_compensate k a b)"
  pending_maintain "\<lambda>p. ov_hold_is_missing (mp_overlay p)" "\<lambda>p. ov_overlay (mp_overlay p)"
  "\<lambda>p. ov_wf (mp_overlay p)" "\<lambda>h p. ov_gone (mp_applied p) h (mp_overlay p)"
proof unfold_locales
  fix p :: MemoryPending and k m a b
  assume "ov_wf (mp_overlay p)"
  from holds.invar_kept [OF this, of k m a b "mp_applied p"]
  show "ov_wf (mp_overlay (pending_with_overlay (ov_begin_lookup k) p))
      \<and> ov_wf (mp_overlay (pending_with_overlay (ov_admit_lookup k m) p))
      \<and> ov_wf (mp_overlay (pending_with_overlay (ov_pin k) p))
      \<and> ov_wf (mp_overlay (pending_with_overlay (ov_unpin k) p))
      \<and> ov_wf (mp_overlay (pending_with_overlay (ov_reserve k a b) p))
      \<and> ov_wf (mp_overlay (pending_with_overlay (ov_release_reservation k a) p))
      \<and> ov_wf (mp_overlay (pending_with_overlay (ov_compensate k a b) p))
      \<and> ov_wf (mp_overlay (snd (pending_maintain p)))"
    by (simp add: pending_with_overlay_def)
next
  fix p :: MemoryPending and h k m a b
  assume "ov_wf (mp_overlay p)" "ov_gone (mp_applied p) h (mp_overlay p)"
  from holds.gone_kept [OF this, of k m a b]
  show "ov_gone (mp_applied (pending_with_overlay (ov_begin_lookup k) p)) h
          (mp_overlay (pending_with_overlay (ov_begin_lookup k) p))
      \<and> ov_gone (mp_applied (pending_with_overlay (ov_admit_lookup k m) p)) h
          (mp_overlay (pending_with_overlay (ov_admit_lookup k m) p))
      \<and> ov_gone (mp_applied (pending_with_overlay (ov_pin k) p)) h (mp_overlay (pending_with_overlay (ov_pin k) p))
      \<and> ov_gone (mp_applied (pending_with_overlay (ov_unpin k) p)) h (mp_overlay (pending_with_overlay (ov_unpin k) p))
      \<and> ov_gone (mp_applied (pending_with_overlay (ov_reserve k a b) p)) h
          (mp_overlay (pending_with_overlay (ov_reserve k a b) p))
      \<and> ov_gone (mp_applied (pending_with_overlay (ov_release_reservation k a) p)) h
          (mp_overlay (pending_with_overlay (ov_release_reservation k a) p))
      \<and> ov_gone (mp_applied (pending_with_overlay (ov_compensate k a b) p)) h
          (mp_overlay (pending_with_overlay (ov_compensate k a b) p))
      \<and> ov_gone (mp_applied (snd (pending_maintain p))) h (mp_overlay (snd (pending_maintain p)))"
    by (simp add: pending_with_overlay_def)
qed (simp_all add: holds.gone_is_missing holds.gone_is_resolved)

lemma send_remove:
  assumes "pending_send (Apply (Remove h g a) at) p = (True, p')"
  shows "mp_overlay p' = ov_forget h (mp_applies_sent p + 1) (mp_overlay p)" "mp_applied p' = mp_applied p"
  using assms by (auto simp: pending_send_def chan_push_def Let_def split: if_splits)

text \<open>C33: a removed hold stays gone. Once the removal has been handed to the engine, and for as long as the
  engine has not reported applying it, no sequence of lookups, answers, pins, reservations and evictions
  brings the hold back: every one of them is answered that the hold is missing and resolved with nothing
  left, also an answer that left the engine before the removal and still carries the whole remainder.\<close>

theorem removed_hold_stays_gone:
  assumes "ov_wf (mp_overlay p)" and "pending_send (Apply (Remove h g a) at) p = (True, p')"
    and "mp_applied p \<le> mp_applies_sent p"
  shows "ov_hold_is_missing (mp_overlay (fold port.call calls p')) h
    \<and> ov_overlay (mp_overlay (fold port.call calls p')) h =
        \<lparr>os_remaining = Some 0, os_taken = 0, os_resolved = True\<rparr>"
proof -
  have "ov_wf (mp_overlay p')" using assms(1) by (simp add: send_remove [OF assms(2)])
  moreover have "ov_gone (mp_applied p') h (mp_overlay p')"
    using assms(3) by (simp add: send_remove [OF assms(2)] ov_gone_def ov_forget_def)
  ultimately show ?thesis by (rule port.stays_gone)
qed

definition sample_port :: MemoryPending where
  "sample_port = \<lparr>mp_commands = \<lparr>ch_items = [], ch_capacity = 4\<rparr>, mp_results = \<lparr>ch_items = [], ch_capacity = 4\<rparr>,
     mp_notices = \<lparr>ch_items = [], ch_capacity = 4\<rparr>, mp_overlay = overlay_new 0 10, mp_applies_sent = 3,
     mp_applied = 3, mp_wants_expiry = True\<rparr>"

theorem removed_hold_stays_gone_witness:
  "\<exists>p'. pending_send (Apply (Remove 9 0 40) 1) sample_port = (True, p')
     \<and> os_resolved (ov_overlay (mp_overlay (fold port.call
          [BeginLookup 9, Pin 9, AdmitLookup 9 (Some 40), Unpin 9, Maintain] p')) 9)"
proof -
  obtain p' where p': "pending_send (Apply (Remove 9 0 40) 1) sample_port = (True, p')"
    by (auto simp: pending_send_def chan_push_def sample_port_def Let_def)
  have "ov_wf (mp_overlay sample_port)" "mp_applied sample_port \<le> mp_applies_sent sample_port"
    by (simp_all add: sample_port_def overlay_new_def ov_wf_def)
  from removed_hold_stays_gone [OF this(1) p' this(2), of "[BeginLookup 9, Pin 9, AdmitLookup 9 (Some 40), Unpin 9, Maintain]"]
  show ?thesis using p' by simp
qed

text \<open>An answer never overrides a decision. Where the sequencer has decided about a hold, or knows it gone,
  an arriving lookup answer changes nothing; where it knew nothing, the hold becomes live with exactly the
  remainder the answer carries and nothing taken, or is remembered as missing.\<close>

theorem answer_never_overrides_decision:
  "(case ov_known s h of
      KLive d \<Rightarrow> ov_admit_lookup h m s = s
    | KGone \<Rightarrow> ov_admit_lookup h m s = s
    | _ \<Rightarrow>
        (case m of
           Some r \<Rightarrow> ov_overlay (ov_admit_lookup h m s) h =
                       \<lparr>os_remaining = Some r, os_taken = 0, os_resolved = False\<rparr>
         | None \<Rightarrow> ov_hold_is_missing (ov_admit_lookup h m s) h)
        \<and> ov_pins_of h (ov_admit_lookup h m s) = ov_pins_of h s
        \<and> (k = h \<or> ov_get (ov_admit_lookup h m s) k = ov_get s k))"
  by (auto simp: ov_admit_lookup_def ov_decide_def ov_overlay_def ov_known_def ov_hold_is_missing_def ov_pins_of_def
      split: Known.splits option.splits)

text \<open>eviction drops only what can be looked up again. A round does nothing at or below the soft limit,
  drops at most its budget, and an entry it dropped was pinned by no request and idle: an undecided or
  negative answer, a decision with nothing reserved, or a removal the engine has applied.\<close>

theorem eviction_drops_only_idle_entries:
  assumes "ov_wf s" and "ov_maintain applied s = (n, s')"
  shows "n \<le> ov_eviction_per_round s \<and> ov_len s' + n = ov_len s
    \<and> (ov_len s \<le> ov_soft_limit s \<longrightarrow> s' = s)
    \<and> (\<forall>h e. ov_get s h = Some e \<and> ov_get s' h \<noteq> Some e \<longrightarrow> entry_pinned e = 0 \<and> entry_idle applied e)"
proof -
  have "n \<le> ov_eviction_per_round s \<and> ov_len s' + n = ov_len s \<and> (ov_len s \<le> ov_soft_limit s \<longrightarrow> s' = s)"
    using assms(2) ov_retain_count [of applied "ov_eviction_per_round s" "ov_entries s"]
    by (auto simp: ov_maintain_def ov_len_def split: if_splits prod.splits)
  then show ?thesis using ov_get_maintain_keeps [OF assms] by blast
qed

theorem eviction_drops_only_idle_entries_witness:
  "\<exists>s'. ov_maintain 5 (ov_pin 1 (ov_begin_lookup 1 (ov_begin_lookup 2 (overlay_new 0 10)))) = (1, s')
     \<and> ov_len s' + 1 = 2"
proof -
  let ?s = "ov_pin 1 (ov_begin_lookup 1 (ov_begin_lookup 2 (overlay_new 0 10)))"
  have wf: "ov_wf ?s" by (simp add: overlay_new_def ov_wf_def ov_pin_def ov_modify_def map_entry_keys ov_begin_lookup_def Let_def ov_get_def)
  have e: "\<exists>s'. ov_maintain 5 ?s = (1, s') \<and> ov_len ?s = 2"
    by (simp add: ov_maintain_def overlay_new_def ov_pin_def ov_modify_def ov_begin_lookup_def Let_def ov_get_def
        entry_idle_def ov_len_def)
  then obtain s' where s': "ov_maintain 5 ?s = (1, s')" "ov_len ?s = 2" by blast
  show ?thesis using eviction_drops_only_idle_entries [OF wf s'(1)] s' by auto
qed

section \<open>Reservations\<close>

lemma ov_get_decided_mut [simp]:
  "ov_get (ov_decided_mut h f s) k = (if k = h then map_option (on_decided f) (ov_get s k) else ov_get s k)"
  by (simp add: ov_decided_mut_def)

text \<open>A reservation is given back exactly. Taking part of a live hold's remainder and then giving it back,
  because its batch was refused, leaves every hold as it was; and committing it instead leaves exactly what
  was reserved before, so that no part of a remainder is leaked or handed out twice.\<close>

theorem reservation_is_given_back:
  assumes "ov_get s h = Some (Decided d)" and "\<not> ho_resolved d" and "0 \<le> ho_reserved d" and "i64_ok (ho_reserved d)"
  shows "ov_get (ov_compensate h a r (ov_reserve h a r s)) k = ov_get s k
    \<and> (\<exists>d'. ov_get (ov_release_reservation h a (ov_reserve h a r s)) h = Some (Decided d')
          \<and> ho_reserved d' = ho_reserved d \<and> ho_committed_remaining d' = ho_committed_remaining d
          \<and> (ho_resolved d' \<longleftrightarrow> r))"
  using assms
  by (auto simp: ov_compensate_def ov_reserve_def ov_release_reservation_def)

definition sample_decided :: HoldOverlay where
  "sample_decided = ov_decide 9 100 (overlay_new 4 4)"

theorem reservation_is_given_back_witness:
  "ov_get (ov_compensate 9 30 False (ov_reserve 9 30 False sample_decided)) 9 = ov_get sample_decided 9"
proof -
  have "ov_get sample_decided 9 = Some (Decided \<lparr>ho_pinned = 0, ho_committed_remaining = 100, ho_reserved = 0, ho_resolved = False\<rparr>)"
    by (simp add: sample_decided_def ov_decide_def ov_pins_of_def overlay_new_def ov_get_def [of "\<lparr>ov_entries = [], ov_soft_limit = 4, ov_eviction_per_round = 4, ov_peak = 0\<rparr>"])
  from reservation_is_given_back [OF this, of 30 False 9] show ?thesis by simp
qed

section \<open>Committed decisions reach the engine in order\<close>

text \<open>The decisions the engine has still to take: those in its queue, then those waiting here.\<close>

fun applies_of :: "PendingCommand list \<Rightarrow> (PendingEffect \<times> ApplyIndex) list" where
  "applies_of [] = []"
| "applies_of (Apply e at # cs) = (e, at) # applies_of cs"
| "applies_of (_ # cs) = applies_of cs"

lemma applies_of_append [simp]: "applies_of (xs @ ys) = applies_of xs @ applies_of ys"
  by (induction xs rule: applies_of.induct) auto

definition apply_stream :: "PendingChannel \<Rightarrow> (PendingEffect \<times> ApplyIndex) list" where
  "apply_stream c = applies_of (ch_items (mp_commands (pc_port c))) @ pc_writes c"

lemma pchan_send_cases:
  assumes "pchan_send cmd c = (ok, c')"
  shows "pc_writes c' = pc_writes c" "pc_declines c' = pc_declines c" "pc_applies_sent c' = pc_applies_sent c"
    "ch_items (mp_commands (pc_port c')) = ch_items (mp_commands (pc_port c)) @ (if ok then [cmd] else [])"
    "mp_applies_sent (pc_port c') = mp_applies_sent (pc_port c)
       + (if ok then length (applies_of [cmd]) else 0)"
  using assms
  by (auto simp: pchan_send_def pending_send_def chan_push_def Let_def
      split: if_splits prod.splits PendingCommand.splits PendingEffect.splits)

lemma flush_writes_stream:
  "flush_writes ws c = (ok, c') \<Longrightarrow>
     applies_of (ch_items (mp_commands (pc_port c'))) @ pc_writes c' = applies_of (ch_items (mp_commands (pc_port c))) @ ws
     \<and> pc_declines c' = pc_declines c
     \<and> (pc_applies_sent c = mp_applies_sent (pc_port c) \<longrightarrow> pc_applies_sent c' = mp_applies_sent (pc_port c'))"
proof (induction ws arbitrary: c ok c')
  case (Cons w ws)
  obtain e at where w: "w = (e, at)" by force
  obtain sent c1 where s: "pchan_send (Apply e at) c = (sent, c1)" by force
  note p = pchan_send_cases [OF s]
  show ?case
  proof (cases sent)
    case False
    then show ?thesis using Cons.prems w s p by auto
  next
    case True
    let ?c = "c1\<lparr>pc_applies_sent := pc_applies_sent c1 + 1\<rparr>"
    obtain ok2 c2 where f: "flush_writes ws ?c = (ok2, c2)" by force
    have "c' = c2" using Cons.prems w s True f by simp
    then show ?thesis using Cons.IH [OF f] p True w by auto
  qed
qed auto

lemma drain_declines_stream:
  "drain_declines_loop hs c = (ok, c') \<Longrightarrow> apply_stream c' = apply_stream c \<and> pc_writes c' = pc_writes c
     \<and> (pc_applies_sent c = mp_applies_sent (pc_port c) \<longrightarrow> pc_applies_sent c' = mp_applies_sent (pc_port c'))"
proof (induction hs arbitrary: c ok c')
  case (Cons h hs)
  obtain sent c1 where s: "pchan_send (ExpiryDeclined h) c = (sent, c1)" by force
  note p = pchan_send_cases [OF s]
  show ?case
  proof (cases sent)
    case False
    then show ?thesis using Cons.prems s p by (auto simp: apply_stream_def)
  next
    case True
    obtain ok2 c2 where f: "drain_declines_loop hs c1 = (ok2, c2)" by force
    have "c' = c2" using Cons.prems s True f by simp
    then show ?thesis using Cons.IH [OF f] p True by (auto simp: apply_stream_def)
  qed
qed (auto simp: apply_stream_def)

lemma pchan_write_stream:
  "apply_stream (pchan_write e at c) = apply_stream c @ [(e, at)]"
  "pc_applies_sent c = mp_applies_sent (pc_port c) \<Longrightarrow>
     pc_applies_sent (pchan_write e at c) = mp_applies_sent (pc_port (pchan_write e at c))"
proof -
  obtain sent c1 where s: "pchan_send (Apply e at) c = (sent, c1)" by force
  note p = pchan_send_cases [OF s]
  show "apply_stream (pchan_write e at c) = apply_stream c @ [(e, at)]"
    using s p by (cases sent) (auto simp: pchan_write_def apply_stream_def Let_def)
  show "pc_applies_sent c = mp_applies_sent (pc_port c) \<Longrightarrow>
     pc_applies_sent (pchan_write e at c) = mp_applies_sent (pc_port (pchan_write e at c))"
    using s p by (cases sent) (auto simp: pchan_write_def Let_def)
qed

lemma pchan_flush_stream:
  "apply_stream (snd (pchan_flush c)) = apply_stream c"
  "pc_applies_sent c = mp_applies_sent (pc_port c) \<Longrightarrow>
     pc_applies_sent (snd (pchan_flush c)) = mp_applies_sent (pc_port (snd (pchan_flush c)))"
proof -
  obtain p1 c1 where f: "flush_writes (pc_writes c) c = (p1, c1)" by force
  obtain p2 c2 where d: "drain_declines_loop (pc_declines c1) c1 = (p2, c2)" by force
  have fl: "snd (pchan_flush c) = c2" using f d by (simp add: pchan_flush_def drain_declines_def)
  show "apply_stream (snd (pchan_flush c)) = apply_stream c"
    using drain_declines_stream [OF d] flush_writes_stream [OF f] fl unfolding apply_stream_def by metis
  show "pc_applies_sent c = mp_applies_sent (pc_port c) \<Longrightarrow>
     pc_applies_sent (snd (pchan_flush c)) = mp_applies_sent (pc_port (snd (pchan_flush c)))"
    using drain_declines_stream [OF d] flush_writes_stream [OF f] fl by simp
qed

text \<open>What is sent without being a decision leaves the stream of decisions alone.\<close>

lemma pchan_send_stream: "applies_of [cmd] = [] \<Longrightarrow> apply_stream (snd (pchan_send cmd c)) = apply_stream c"
  using pchan_send_cases [of cmd c "fst (pchan_send cmd c)" "snd (pchan_send cmd c)"] by (auto simp: apply_stream_def)

lemma apply_stream_kept:
  "apply_stream (pchan_with_overlay g c) = apply_stream c"
  "apply_stream (snd (pchan_poll c)) = apply_stream c" "apply_stream (snd (pchan_notice c)) = apply_stream c"
  "apply_stream (snd (pchan_lookup l c)) = apply_stream c" "apply_stream (snd (pchan_fence f c)) = apply_stream c"
  "apply_stream (decline_expiry h c) = apply_stream c" "apply_stream (pchan_set_wants_expiry b c) = apply_stream c"
  "apply_stream (snd (pchan_maintain c)) = apply_stream c"
proof -
  show "apply_stream (snd (pchan_lookup l c)) = apply_stream c" "apply_stream (snd (pchan_fence f c)) = apply_stream c"
    unfolding pchan_lookup_def pchan_fence_def by (rule pchan_send_stream; simp)+
  obtain ok c' where s: "pchan_send (ExpiryDeclined h) c = (ok, c')" by force
  then show "apply_stream (decline_expiry h c) = apply_stream c"
    using pchan_send_cases [OF s] by (cases ok) (auto simp: decline_expiry_def apply_stream_def)
qed (auto simp: apply_stream_def pchan_with_overlay_def pending_with_overlay_def pchan_poll_def pending_poll_def
      pchan_notice_def pending_notices_def pchan_set_wants_expiry_def pending_set_wants_expiry_def
      pchan_maintain_def pending_maintain_def split: prod.splits)

end
