(* ===== verification/Reactor_State.thy ===== *)
theory Reactor_State
  imports Accounts Lanes Linked Batches Slots Holds
begin

text \<open>
  The reactor's state (\<open>sequencer/src/reactor.rs\<close>), its counters (\<open>metrics.rs\<close>) and the steps every stage
  shares: the log, quarantine and fail-stop, taking and giving back the two overlays, answering a request.
  The ports are the repository's own: the in-memory accounts, the pending port, and a queue each way for
  idempotency and for consensus. The clock is the manual clock: it stands still within a step. A panic is
  \<open>None\<close>.
\<close>

section \<open>Counters (metrics.rs)\<close>

record Metrics =
  mt_ticks :: nat
  mt_idle_ticks :: nat
  mt_admitted :: nat
  mt_judged :: nat
  mt_committed :: nat
  mt_duplicates :: nat
  mt_rejected :: nat
  mt_commit_failures :: nat
  mt_proposed_batches :: nat
  mt_seq_gaps :: nat
  mt_quarantines :: nat
  mt_order_exempt :: nat
  mt_fences :: nat
  mt_linked_chains_judged :: nat
  mt_linked_chains_rejected :: nat
  mt_lane_gated :: nat
  mt_linked_chains_aborted :: nat
  mt_intake_pauses :: nat
  mt_dispatch_deferred :: nat
  mt_propose_deferred :: nat
  mt_slot_exhaustion :: nat
  mt_holds_evicted :: nat
  mt_stale_answers :: nat
  mt_invariant_breaks :: nat
  mt_holds_not_stored :: nat
  mt_store_failures :: nat
  mt_holds_expired :: nat
  mt_expiry_refused :: nat
  mt_expiry_dropped :: nat
  mt_log_drops :: nat
  mt_pending_lookups :: nat
  mt_pending_creates :: nat
  mt_pending_reduces :: nat
  mt_pending_removes :: nat
  mt_commit_wait_nanos :: nat
  mt_commit_wait_max_nanos :: nat

definition metrics_default :: Metrics where
  "metrics_default =
     \<lparr>mt_ticks = 0, mt_idle_ticks = 0, mt_admitted = 0, mt_judged = 0, mt_committed = 0, mt_duplicates = 0,
      mt_rejected = 0, mt_commit_failures = 0, mt_proposed_batches = 0, mt_seq_gaps = 0, mt_quarantines = 0,
      mt_order_exempt = 0, mt_fences = 0, mt_linked_chains_judged = 0, mt_linked_chains_rejected = 0,
      mt_lane_gated = 0, mt_linked_chains_aborted = 0, mt_intake_pauses = 0, mt_dispatch_deferred = 0,
      mt_propose_deferred = 0, mt_slot_exhaustion = 0, mt_holds_evicted = 0, mt_stale_answers = 0,
      mt_invariant_breaks = 0, mt_holds_not_stored = 0, mt_store_failures = 0, mt_holds_expired = 0,
      mt_expiry_refused = 0, mt_expiry_dropped = 0, mt_log_drops = 0, mt_pending_lookups = 0,
      mt_pending_creates = 0, mt_pending_reduces = 0, mt_pending_removes = 0, mt_commit_wait_nanos = 0,
      mt_commit_wait_max_nanos = 0\<rparr>"

section \<open>Log kinds (log\_kind.rs)\<close>

definition LK_STARTED :: u16 where "LK_STARTED = 1"
definition LK_SEQ_GAP :: u16 where "LK_SEQ_GAP = 2"
definition LK_LANE_QUARANTINED :: u16 where "LK_LANE_QUARANTINED = 3"
definition LK_LANE_RELEASED :: u16 where "LK_LANE_RELEASED = 4"
definition LK_FAIL_STOP :: u16 where "LK_FAIL_STOP = 5"
definition LK_COMMIT_FAILED :: u16 where "LK_COMMIT_FAILED = 6"
definition LK_INTAKE_PAUSED :: u16 where "LK_INTAKE_PAUSED = 7"
definition LK_INTAKE_RESUMED :: u16 where "LK_INTAKE_RESUMED = 8"
definition LK_CHAIN_ABORTED :: u16 where "LK_CHAIN_ABORTED = 9"
definition LK_HOLDS_EVICTED :: u16 where "LK_HOLDS_EVICTED = 10"
definition LK_COMMIT_OUT_OF_ORDER :: u16 where "LK_COMMIT_OUT_OF_ORDER = 11"
definition LK_APPLY_FAILED :: u16 where "LK_APPLY_FAILED = 12"
definition LK_INVARIANT_BROKEN :: u16 where "LK_INVARIANT_BROKEN = 13"
definition LK_HOLD_NOT_STORED :: u16 where "LK_HOLD_NOT_STORED = 14"
definition LK_STORE_FAILED :: u16 where "LK_STORE_FAILED = 15"

section \<open>Pressure\<close>

datatype PauseCause = PauseNone | AcksUnread | PendingEngine | Consensus | ComponentQueue

fun cause_raw :: "PauseCause \<Rightarrow> u8" where
  "cause_raw PauseNone = 0"
| "cause_raw AcksUnread = 1"
| "cause_raw PendingEngine = 2"
| "cause_raw Consensus = 3"
| "cause_raw ComponentQueue = 4"

definition cause_from_raw :: "u8 \<Rightarrow> PauseCause" where
  "cause_from_raw raw =
     (if raw = 1 then AcksUnread else if raw = 2 then PendingEngine else if raw = 3 then Consensus
      else if raw = 4 then ComponentQueue else PauseNone)"

definition cause_is_paused :: "PauseCause \<Rightarrow> bool" where
  "cause_is_paused c \<longleftrightarrow> c \<noteq> PauseNone"

definition PAUSED_NOW :: u8 where
  "PAUSED_NOW = 0x80"

definition pressure_cause :: "u8 \<Rightarrow> PauseCause" where
  "pressure_cause cell = cause_from_raw (cell AND NOT PAUSED_NOW)"

definition pressure_paused_now :: "u8 \<Rightarrow> bool" where
  "pressure_paused_now cell \<longleftrightarrow> cell AND PAUSED_NOW \<noteq> 0"

definition pressure_publish :: "PauseCause \<Rightarrow> u8 \<Rightarrow> u8" where
  "pressure_publish cause cell =
     (case cause of PauseNone \<Rightarrow> cell AND NOT PAUSED_NOW | paused \<Rightarrow> cause_raw paused OR PAUSED_NOW)"

section \<open>The reactor\<close>

record IdemPort =
  idm_requests :: "IdemRequest Channel"
  idm_replies :: "IdemReply Channel"

record RaftPort =
  rft_proposals :: "RaftProposal Channel"
  rft_commits :: "RaftCommit Channel"

record StageTimes =
  sg_backlog :: nat
  sg_intake :: nat
  sg_judge :: nat
  sg_propose :: nat
  sg_apply :: nat

record Reactor =
  rx_config :: ReactorConfig
  rx_now :: nat
  rx_accounts :: MemoryAccounts
  rx_lanes :: LaneTable
  rx_linked :: LinkedChains
  rx_budgets :: BudgetCoverage
  rx_pipeline :: Pipeline
  rx_batcher :: Batcher
  rx_outbox :: Outbox
  rx_expiry :: ExpiryQueue
  rx_cascade :: Cascade
  rx_pending :: PendingChannel
  rx_idem :: IdemPort
  rx_raft :: RaftPort
  rx_safety :: Safety
  rx_log :: LogSink
  rx_applied_through :: ApplyIndex
  rx_intake_paused :: bool
  rx_pressure :: u8
  rx_intake_closed :: bool
  rx_metrics :: Metrics
  rx_stages :: StageTimes

datatype Broken =
    AppliedMoreThanJudged
  | AccountViewDisagrees
  | MoreRequestsThanSlots
  | MoreProposalsThanAllowed
  | IdentitiesBroken
  | OverlaySurvivedQuiescence
  | QuarantineDisagrees

fun broken_code :: "Broken \<Rightarrow> nat" where
  "broken_code AppliedMoreThanJudged = 1"
| "broken_code AccountViewDisagrees = 2"
| "broken_code MoreRequestsThanSlots = 3"
| "broken_code MoreProposalsThanAllowed = 4"
| "broken_code IdentitiesBroken = 5"
| "broken_code OverlaySurvivedQuiescence = 6"
| "broken_code QuarantineDisagrees = 7"

definition bump :: "(Metrics \<Rightarrow> Metrics) \<Rightarrow> Reactor \<Rightarrow> Reactor" where
  "bump f r = r\<lparr>rx_metrics := f (rx_metrics r)\<rparr>"

definition rx_record :: "u16 \<Rightarrow> nat \<Rightarrow> nat \<Rightarrow> Reactor \<Rightarrow> Reactor" where
  "rx_record kind a b r = r\<lparr>rx_log := log_record kind (rx_now r) a b (rx_log r)\<rparr>"

definition reactor_with_clock ::
  "ReactorConfig \<Rightarrow> Request Channel \<Rightarrow> Ack Channel \<Rightarrow> MemoryAccounts \<Rightarrow> MemoryPending \<Rightarrow> IdemPort \<Rightarrow> RaftPort
   \<Rightarrow> nat \<Rightarrow> Reactor result" where
  "reactor_with_clock config requests acks accounts pending idem raft now =
     rbind (config_validate config) (\<lambda>_.
       let capacity = cfg_capacity config in
       Inr \<lparr>rx_config = config, rx_now = now, rx_accounts = accounts, rx_lanes = [],
            rx_linked = linked_new (lp_max_legs (cfg_linked config)) (bp_in_flight (cfg_batching config) + 1),
            rx_budgets = [], rx_pipeline = pipeline_new requests (cp_slots capacity),
            rx_batcher = batcher_new (cfg_batching config) (batch_headroom config),
            rx_outbox = outbox_new acks (cp_ack_backlog capacity),
            rx_expiry = expiry_new (cp_expiry_backlog capacity),
            rx_cascade = cascade_new,
            rx_pending = pchan_new pending (cp_pending_write_backlog capacity),
            rx_idem = idem, rx_raft = raft, rx_safety = safety_new (cfg_safety config),
            rx_log = log_record LK_STARTED now (cp_slots capacity) (bp_size (cfg_batching config))
                       (log_channel (cp_log_events capacity)),
            rx_applied_through = 0, rx_intake_paused = False, rx_pressure = 0, rx_intake_closed = False,
            rx_metrics = metrics_default,
            rx_stages = \<lparr>sg_backlog = 0, sg_intake = 0, sg_judge = 0, sg_propose = 0, sg_apply = 0\<rparr>\<rparr>)"

section \<open>Quarantine and fail-stop\<close>

definition trip_fail_stop :: "Reactor \<Rightarrow> Reactor" where
  "trip_fail_stop r =
     (let (first, s) = safety_fail_stop (rx_safety r); r1 = r\<lparr>rx_safety := s\<rparr> in
      if first then rx_record LK_FAIL_STOP (length (sf_quarantined (rx_safety r1))) 0 r1 else r1)"

definition quarantine_lane :: "AccountId \<Rightarrow> AcctHandle \<Rightarrow> Reactor \<Rightarrow> Reactor" where
  "quarantine_lane lane handle r =
     (let r1 = r\<lparr>rx_lanes := lanes_get_mut handle lane_quarantine (rx_lanes r)\<rparr>;
          (new, s) = safety_quarantine lane (rx_safety r1);
          r2 = r1\<lparr>rx_safety := s\<rparr>;
          r3 = (if new then rx_record LK_LANE_QUARANTINED (unat lane) 0 (bump (mt_quarantines_update Suc) r2)
                else r2) in
      if lanes_lost (rx_safety r3) then trip_fail_stop r3 else r3)"

definition on_stale_answer :: "AccountId \<Rightarrow> AcctHandle \<Rightarrow> Reactor \<Rightarrow> Reactor" where
  "on_stale_answer lane handle r =
     quarantine_lane lane handle (rx_record LK_SEQ_GAP (unat lane) 0 (bump (mt_stale_answers_update Suc) r))"

definition on_seq_gap :: "AccountId \<Rightarrow> AcctHandle \<Rightarrow> Seq \<Rightarrow> Reactor \<Rightarrow> Reactor" where
  "on_seq_gap lane handle seq r =
     quarantine_lane lane handle (rx_record LK_SEQ_GAP (unat lane) (unat seq) (bump (mt_seq_gaps_update Suc) r))"

section \<open>The overlays\<close>

definition with_overlay :: "(HoldOverlay \<Rightarrow> HoldOverlay) \<Rightarrow> Reactor \<Rightarrow> Reactor" where
  "with_overlay f r = r\<lparr>rx_pending := pchan_with_overlay f (rx_pending r)\<rparr>"

definition resolves_hold :: "Effect \<Rightarrow> bool" where
  "resolves_hold e \<longleftrightarrow> (case ef_kind e of EffectKind.Settle \<Rightarrow> True | Void \<Rightarrow> True | _ \<Rightarrow> False)"

definition reserve_hold :: "Effect \<Rightarrow> Reactor \<Rightarrow> Reactor" where
  "reserve_hold e r =
     (if resolves_hold e
      then with_overlay (ov_reserve (ef_pending_ref e) (ef_amount e) (ef_remaining_after e = 0)) r else r)"

definition compensate_hold :: "Effect \<Rightarrow> Reactor \<Rightarrow> Reactor" where
  "compensate_hold e r =
     (if resolves_hold e
      then with_overlay (ov_compensate (ef_pending_ref e) (ef_amount e) (ef_remaining_after e = 0)) r else r)"

definition take_overlays :: "Effect \<Rightarrow> Reactor \<Rightarrow> Reactor" where
  "take_overlays e r = reserve_hold e (r\<lparr>rx_lanes := lanes_reserve e (rx_lanes r)\<rparr>)"

definition give_back_overlays :: "Effect \<Rightarrow> Reactor \<Rightarrow> Reactor" where
  "give_back_overlays e r = compensate_hold e (r\<lparr>rx_lanes := lanes_release e (rx_lanes r)\<rparr>)"

definition settle_overlays :: "Effect \<Rightarrow> Reactor \<Rightarrow> Reactor" where
  "settle_overlays e r =
     (let r1 = r\<lparr>rx_lanes := lanes_release e (rx_lanes r)\<rparr> in
      if resolves_hold e
      then with_overlay (ov_release_reservation (ef_pending_ref e) (ef_amount e)) r1 else r1)"

section \<open>Answering\<close>

text \<open>\<open>finish\<close>, in its parts: the pin given back, the slot and the lane's count, the counter of the
  outcome, and the ack, which the ledger does not send for what it asked itself.\<close>

definition unpin_item :: "WorkItem \<Rightarrow> Reactor \<Rightarrow> Reactor" where
  "unpin_item item r =
     (if holds_pin item then with_overlay (ov_unpin (tr_pending_ref (wi_tx item))) r else r)"

definition count_outcome :: "AckOutcome \<Rightarrow> Reactor \<Rightarrow> Reactor" where
  "count_outcome outcome r =
     (case outcome of
        Rejected _ \<Rightarrow> bump (mt_rejected_update Suc) r
      | Duplicate \<Rightarrow> bump (mt_duplicates_update Suc) r
      | Committed \<Rightarrow> r)"

definition answer_item :: "WorkItem \<Rightarrow> AckOutcome \<Rightarrow> Reactor \<Rightarrow> Reactor" where
  "answer_item item outcome r =
     (if \<not> is_client (wi_kind item)
      then (if outcome = Committed then bump (mt_holds_expired_update Suc) r else r)
      else r\<lparr>rx_outbox := outbox_emit
              \<lparr>ak_tx_id = tr_id (wi_tx item), ak_lane = wi_lane item, ak_seq = wi_seq item,
               ak_outcome = outcome, ak_submitted_at_nanos = wi_submitted_at_nanos item\<rparr> (rx_outbox r)\<rparr>)"

definition finish_slot :: "SlotId \<Rightarrow> AckOutcome \<Rightarrow> Reactor \<Rightarrow> Reactor option" where
  "finish_slot slot outcome r =
     do {
       item \<leftarrow> pipeline_item slot (rx_pipeline r);
       let r1 = unpin_item item r;
       pl \<leftarrow> pipeline_release slot (rx_pipeline r1);
       Some (answer_item item outcome (count_outcome outcome
         (r1\<lparr>rx_pipeline := pl, rx_lanes := lanes_get_mut (wi_debit item) lane_left (rx_lanes r1)\<rparr>)))
     }"

definition reject_before_seq :: "Request \<Rightarrow> LedgerError \<Rightarrow> Reactor \<Rightarrow> Reactor" where
  "reject_before_seq request err r =
     (let r1 = bump (mt_rejected_update Suc) r in
      r1\<lparr>rx_outbox := outbox_emit
           \<lparr>ak_tx_id = tr_id (rq_tx request), ak_lane = tr_lane (rq_tx request), ak_seq = 0,
            ak_outcome = Rejected err, ak_submitted_at_nanos = rq_submitted_at_nanos request\<rparr> (rx_outbox r1)\<rparr>)"

section \<open>A small node\<close>

text \<open>Two accounts of one ledger, one of them constrained, four slots and queues of eight: the concrete
  inputs of the witnesses start here.\<close>

definition sample_config :: ReactorConfig where
  "sample_config = \<lparr>cfg_capacity = \<lparr>cp_slots = 4, cp_intake_per_tick = 4, cp_expiry_per_tick = 2,
       cp_expiry_backlog = 4, cp_ack_backlog = 4, cp_pending_write_backlog = 4, cp_log_events = 4\<rparr>,
     cfg_batching = \<lparr>bp_size = 1, bp_max = 4, bp_queued = 4, bp_linger = 10, bp_in_flight = 2\<rparr>,
     cfg_linked = \<lparr>lp_max_legs = 2\<rparr>, cfg_safety = \<lparr>sfp_quarantine_fail_stop = 3\<rparr>, cfg_profile = False\<rparr>"

definition queue_of :: "'a list \<Rightarrow> 'a Channel" where
  "queue_of xs = \<lparr>ch_items = xs, ch_capacity = 8\<rparr>"

definition sample_pending :: MemoryPending where
  "sample_pending = \<lparr>mp_commands = queue_of [], mp_results = queue_of [], mp_notices = queue_of [],
     mp_overlay = overlay_new 8 8, mp_applies_sent = 0, mp_applied = 0, mp_wants_expiry = True\<rparr>"

definition sample_build :: "Request list \<Rightarrow> Reactor result" where
  "sample_build requests = reactor_with_clock sample_config (queue_of requests) (queue_of []) sample_accounts
     sample_pending \<lparr>idm_requests = queue_of [], idm_replies = queue_of []\<rparr>
     \<lparr>rft_proposals = queue_of [], rft_commits = queue_of []\<rparr> 0"

definition sample_node :: "Request list \<Rightarrow> Reactor" where
  "sample_node requests = (case sample_build requests of Inr r \<Rightarrow> r | Inl _ \<Rightarrow> undefined)"

lemma sample_node_built: "sample_build requests = Inr (sample_node requests)"
  by (simp add: sample_node_def sample_build_def reactor_with_clock_def config_validate_def sample_config_def Let_def)

end
