(* ===== verification/Judge.thy ===== *)
theory Judge
  imports Reactor_State
begin

text \<open>
  S3, the judge (\<open>sequencer/src/reactor/judge.rs\<close>): replies release what a request waited for, a ready
  request is checked, its effect built against committed columns, the lane's overlay, the hold's record and
  overlay and the scratch of its chain, and either put in the batch or answered. The cascade is one loop; its
  termination is proved here by what can still be freed.
\<close>

section \<open>Deciding one request\<close>

definition rejection :: "LedgerError \<Rightarrow> AckOutcome" where
  "rejection err = (case err of DuplicateRequest \<Rightarrow> Duplicate | other \<Rightarrow> Rejected other)"

definition accept_item :: "WorkItem \<Rightarrow> Reactor \<Rightarrow> (unit result \<times> Reactor) option" where
  "accept_item item r =
     (if sf_fail_stop (rx_safety r) then Some (Inl FailStop, r)
      else do {
        lane \<leftarrow> lanes_get (rx_lanes r) (wi_debit item);
        if ln_quarantined lane then Some (Inl (AccountQuarantined (wi_lane item)), r)
        else
          let (seq_check, r1) =
                (if wi_seq item \<noteq> UNORDERED
                 then (case accept_seq (wi_seq item) (lanes_peek (rx_lanes r) (wi_debit item)) of
                         (Inl e, l) \<Rightarrow>
                           (Inl e, on_seq_gap (wi_lane item) (wi_debit item) (wi_seq item)
                                     (r\<lparr>rx_lanes := lanes_get_mut (wi_debit item) (\<lambda>_. l) (rx_lanes r)\<rparr>))
                       | (Inr _, l) \<Rightarrow>
                           (Inr (), r\<lparr>rx_lanes := lanes_get_mut (wi_debit item) (\<lambda>_. l) (rx_lanes r)\<rparr>))
                 else (Inr (), r)) in
          case seq_check of
            Inl e \<Rightarrow> Some (Inl e, r1)
          | Inr _ \<Rightarrow>
              (case wi_verdict item of
                 Some DuplicateSameBody \<Rightarrow> Some (Inl DuplicateRequest, r1)
               | Some IdemVerdict.DuplicateDifferentBody \<Rightarrow> Some (Inl LedgerError.DuplicateDifferentBody, r1)
               | _ \<Rightarrow> Some (Inr (), r1))
      })"

definition hold_view :: "SlotId \<Rightarrow> TxId \<Rightarrow> Reactor \<Rightarrow> HoldView option option" where
  "hold_view slot hold r =
     map_option (map_option (\<lambda>rec. hold_view_compose rec (pchan_overlay (rx_pending r) hold)))
       (pipeline_record slot (rx_pipeline r))"

definition direct_effect :: "WorkItem \<Rightarrow> EffectKind \<Rightarrow> Amount \<Rightarrow> Reactor \<Rightarrow> Effect result option" where
  "direct_effect item kind extra r =
     do {
       rec \<leftarrow> accounts_record (rx_accounts r) (wi_debit item);
       lane \<leftarrow> lanes_get (rx_lanes r) (wi_debit item);
       let avail = i64_add (i64_add (available rec) (ln_speculative lane)) extra;
       if is_constrained rec \<and> avail < tr_amount (wi_tx item)
       then Some (Inl (InsufficientBalance avail (tr_amount (wi_tx item))))
       else Some (Inr \<lparr>ef_tx_id = tr_id (wi_tx item), ef_pending_ref = 0,
              ef_debit_account = tr_debit_account (wi_tx item),
              ef_credit_account = tr_credit_account (wi_tx item),
              ef_amount = tr_amount (wi_tx item), ef_remaining_after = 0,
              ef_debit = wi_debit item, ef_credit = wi_credit item, ef_chain = wi_chain item,
              ef_budget = tr_budget (wi_tx item), ef_ledger = tr_ledger (wi_tx item), ef_kind = kind\<rparr>)
     }"

definition resolving_checks ::
  "WorkItem \<Rightarrow> EffectKind \<Rightarrow> HoldView \<Rightarrow> MemoryAccounts \<Rightarrow> Effect result" where
  "resolving_checks item kind hold accounts =
     (let tx = wi_tx item; remaining = hv_remaining hold;
          amount = (case kind of Void \<Rightarrow> remaining | _ \<Rightarrow> tr_amount tx) in
      if hv_resolved hold then Inl PendingRefAlreadyResolved
      else if hv_debit_account hold \<noteq> tr_debit_account tx \<or> hv_credit_account hold \<noteq> tr_credit_account tx
      then Inl PendingRefMismatch
      else if hv_ledger hold \<noteq> tr_ledger tx then Inl LedgerMismatch
      else if amount \<le> 0 then Inl InvalidAmount
      else if amount > remaining then Inl (SettleExceedsRemaining remaining amount)
      else
        rbind (allow_resolution hold amount (\<not> is_absent (wi_chain item))) (\<lambda>_.
        rbind (ok_or (UnknownAccount (hv_debit_account hold)) (accounts_resolve accounts (hv_debit_account hold))) (\<lambda>debit.
        rbind (ok_or (UnknownAccount (hv_credit_account hold)) (accounts_resolve accounts (hv_credit_account hold))) (\<lambda>credit.
          Inr \<lparr>ef_tx_id = tr_id tx, ef_pending_ref = tr_pending_ref tx,
               ef_debit_account = hv_debit_account hold, ef_credit_account = hv_credit_account hold,
               ef_amount = amount, ef_remaining_after = i64_sub remaining amount,
               ef_debit = debit, ef_credit = credit, ef_chain = wi_chain item,
               ef_budget = hv_budget hold, ef_ledger = hv_ledger hold, ef_kind = kind\<rparr>))))"

definition resolving_effect ::
  "SlotId \<Rightarrow> WorkItem \<Rightarrow> EffectKind \<Rightarrow> LinkedScratch option \<Rightarrow> Reactor \<Rightarrow> Effect result option" where
  "resolving_effect slot item kind chain r =
     do {
       hold \<leftarrow> (case Option.bind chain (\<lambda>s. scratch_hold s (tr_pending_ref (wi_tx item))) of
                  Some v \<Rightarrow> Some (Some v)
                | None \<Rightarrow> hold_view slot (tr_pending_ref (wi_tx item)) r);
       case hold of
         None \<Rightarrow> Some (Inl (PendingRefNotFound (tr_pending_ref (wi_tx item))))
       | Some v \<Rightarrow> Some (resolving_checks item kind v (rx_accounts r))
     }"

definition build_effect ::
  "SlotId \<Rightarrow> WorkItem \<Rightarrow> LinkedScratch option \<Rightarrow> Reactor \<Rightarrow> Effect result option" where
  "build_effect slot item chain r =
     (let extra = (case chain of None \<Rightarrow> 0 | Some s \<Rightarrow> scratch_available_for s (wi_debit item)) in
      case wi_kind item of
        SinglePhase \<Rightarrow> direct_effect item Post extra r
      | TransferKind.Hold \<Rightarrow> direct_effect item EffectKind.Hold extra r
      | TransferKind.Settle \<Rightarrow> resolving_effect slot item EffectKind.Settle chain r
      | VoidClient \<Rightarrow> resolving_effect slot item Void chain r
      | VoidExpiry \<Rightarrow> resolving_effect slot item Void chain r)"

text \<open>\<open>accept(..).and_then(build_effect)\<close>, which both judges share.\<close>

definition decide_item ::
  "SlotId \<Rightarrow> WorkItem \<Rightarrow> LinkedScratch option \<Rightarrow> Reactor \<Rightarrow> (Effect result \<times> Reactor) option" where
  "decide_item slot item chain r =
     do {
       (acc, r1) \<leftarrow> accept_item item r;
       case acc of
         Inl e \<Rightarrow> Some (Inl e, r1)
       | Inr _ \<Rightarrow> do { effect \<leftarrow> build_effect slot item chain r1; Some (effect, r1) }
     }"

definition push_judged :: "Effect \<Rightarrow> SlotId \<Rightarrow> Reactor \<Rightarrow> Reactor" where
  "push_judged effect slot r =
     bump (mt_judged_update Suc) (r\<lparr>rx_batcher := batcher_push effect slot (rx_now r) (rx_batcher r)\<rparr>)"

definition judge_slot :: "SlotId \<Rightarrow> Reactor \<Rightarrow> Reactor option" where
  "judge_slot slot r =
     do {
       item \<leftarrow> pipeline_item slot (rx_pipeline r);
       (outcome, r1) \<leftarrow> decide_item slot item None r;
       case outcome of
         Inr effect \<Rightarrow> Some (push_judged effect slot (take_overlays effect r1))
       | Inl err \<Rightarrow> finish_slot slot (rejection err) r1
     }"

section \<open>Deciding a chain\<close>

definition note_coverage :: "HoldData option \<Rightarrow> Effect \<Rightarrow> BudgetCoverage \<Rightarrow> BudgetCoverage" where
  "note_coverage rec effect budgets =
     (if \<not> is_absent (ef_budget effect) then
        (case rec of
           None \<Rightarrow> budgets
         | Some d \<Rightarrow> coverage_note (ef_budget effect) (ef_amount effect) (hd_budget_members d)
                       (hd_budget_remaining d) budgets)
      else budgets)"

fun judge_legs ::
  "SlotId list \<Rightarrow> LedgerError option \<Rightarrow> Effect list \<Rightarrow> LinkedScratch \<Rightarrow> BudgetCoverage \<Rightarrow> Reactor \<Rightarrow>
   (LedgerError option \<times> Effect list \<times> LinkedScratch \<times> BudgetCoverage \<times> Reactor) option" where
  "judge_legs [] failure effects scratch budgets r = Some (failure, effects, scratch, budgets, r)"
| "judge_legs (slot # legs) failure effects scratch budgets r =
     do {
       item \<leftarrow> pipeline_item slot (rx_pipeline r);
       (outcome, r1) \<leftarrow> decide_item slot item (Some scratch) r;
       case failure of
         Some err \<Rightarrow> judge_legs legs failure effects scratch budgets r1
       | None \<Rightarrow>
           (case outcome of
              Inl err \<Rightarrow> judge_legs legs (Some err) effects scratch budgets r1
            | Inr effect \<Rightarrow> do {
                rec \<leftarrow> pipeline_record slot (rx_pipeline r1);
                judge_legs legs None (effects @ [effect]) (scratch_note effect scratch)
                  (note_coverage rec effect budgets) (take_overlays effect r1)
              })
     }"

fun finish_all :: "SlotId list \<Rightarrow> AckOutcome \<Rightarrow> Reactor \<Rightarrow> Reactor option" where
  "finish_all [] outcome r = Some r"
| "finish_all (slot # slots) outcome r =
     do { r1 \<leftarrow> finish_slot slot outcome r; finish_all slots outcome r1 }"

definition reject_chain :: "LinkedChain \<Rightarrow> Effect list \<Rightarrow> LedgerError \<Rightarrow> Reactor \<Rightarrow> Reactor option" where
  "reject_chain chain effects err r =
     do {
       r1 \<leftarrow> finish_all (lc_legs chain) (rejection err) (fold give_back_overlays effects r);
       let r2 = bump (mt_linked_chains_rejected_update Suc) r1;
       Some (if err = LinkedChainUnterminated
             then rx_record LK_CHAIN_ABORTED (unat (lc_id chain)) (length (lc_legs chain))
                    (bump (mt_linked_chains_aborted_update Suc) r2)
             else r2)
     }"

definition propose_chain :: "LinkedChain \<Rightarrow> Effect list \<Rightarrow> Reactor \<Rightarrow> Reactor" where
  "propose_chain chain effects r =
     bump (mt_linked_chains_judged_update Suc)
       (fold (\<lambda>(effect, slot). push_judged effect slot) (zip effects (lc_legs chain)) r)"

fun free_gated :: "SlotId list \<Rightarrow> Reactor \<Rightarrow> Reactor option" where
  "free_gated [] r = Some r"
| "free_gated (slot # slots) r =
     do {
       pl \<leftarrow> pipeline_item_mut slot (clear_dep DEP_LINKED_CHAIN) (rx_pipeline r);
       item \<leftarrow> pipeline_item slot pl;
       let r1 = r\<lparr>rx_pipeline := pl\<rparr>;
       free_gated slots
         (if is_judgeable item then r1\<lparr>rx_cascade := cascade_push slot (rx_cascade r1)\<rparr> else r1)
     }"

definition open_gates :: "LinkedChain \<Rightarrow> Reactor \<Rightarrow> Reactor option" where
  "open_gates chain r =
     free_gated (rev (lc_gated chain)) (r\<lparr>rx_linked := linked_open_gates (lc_id chain) (rx_linked r)\<rparr>)"

text \<open>Both outcomes drain the effects, so the buffer goes back empty.\<close>

definition judge_chain_legs :: "LinkedChain \<Rightarrow> Reactor \<Rightarrow> Reactor option" where
  "judge_chain_legs chain r =
     (let ((effects0, scratch0), lk) = take_buffers (rx_linked r); r0 = r\<lparr>rx_linked := lk, rx_budgets := []\<rparr> in
      do {
        (failure1, effects, scratch, budgets, r1) \<leftarrow>
          judge_legs (lc_legs chain) (lc_failure chain) effects0 scratch0 [] r0;
        let failure = (if failure1 = None \<and> misses_a_member budgets
                       then Some SharedBudgetGroupIncomplete else failure1);
        r2 \<leftarrow> (case failure of
                 Some err \<Rightarrow> reject_chain chain effects err r1
               | None \<Rightarrow> Some (propose_chain chain effects r1));
        r3 \<leftarrow> open_gates chain
               (r2\<lparr>rx_linked := return_buffers [] scratch (rx_linked r2), rx_budgets := budgets\<rparr>);
        Some (r3\<lparr>rx_linked := linked_recycle chain (rx_linked r3)\<rparr>)
      })"

section \<open>The cascade\<close>

text \<open>
  One turn of the cascade's loop. Judging a chain ends with a call of \<open>run_cascade\<close>, which returns at
  once inside the loop because the loop is running (\<open>run_cascade_nested\<close> below).
\<close>

definition judge_ready :: "SlotId \<Rightarrow> Reactor \<Rightarrow> Reactor option" where
  "judge_ready slot r =
     do {
       item \<leftarrow> pipeline_item slot (rx_pipeline r);
       if is_absent (wi_chain item) then judge_slot slot r
       else case leg_ready (wi_chain item) (rx_linked r) of
         (None, lk) \<Rightarrow> Some (r\<lparr>rx_linked := lk\<rparr>)
       | (Some chain, lk) \<Rightarrow> judge_chain_legs chain (r\<lparr>rx_linked := lk\<rparr>)
     }"

text \<open>What the cascade can still be handed: the slots on it and every request gated behind a chain.\<close>

definition linked_weight :: "LinkedChains \<Rightarrow> nat" where
  "linked_weight s =
     (case lk_open s of None \<Rightarrow> 0 | Some c \<Rightarrow> length (lc_gated c))
     + sum_list (map (\<lambda>(_, c). length (lc_gated c)) (lk_closed s))"

definition cascade_weight :: "Reactor \<Rightarrow> nat" where
  "cascade_weight r = length (cc_ready (rx_cascade r)) + linked_weight (rx_linked r)"

section \<open>What every step of a judgement keeps\<close>

text \<open>
  A property of the reactor that survives the elementary updates a judgement is made of survives the
  judgement. The laws are about those updates; the lemmas follow the code. The same shape is extended to the
  later stages, so that an invariant of the whole loop is proved by discharging the laws once.
\<close>

text \<open>The counters that account for money moved and decisions made: every other counter is only a
  measurement, and a judgement may change it freely.\<close>

definition same_books :: "Metrics \<Rightarrow> Metrics \<Rightarrow> bool" where
  [simp]: "same_books m m' \<longleftrightarrow> mt_judged m' = mt_judged m \<and> mt_committed m' = mt_committed m
     \<and> mt_holds_expired m' = mt_holds_expired m \<and> mt_pending_creates m' = mt_pending_creates m
     \<and> mt_pending_reduces m' = mt_pending_reduces m \<and> mt_pending_removes m' = mt_pending_removes m
     \<and> mt_commit_failures m' = mt_commit_failures m \<and> mt_invariant_breaks m' = mt_invariant_breaks m"

text \<open>A request is accepted only by a node that has not stopped, and a chain is proposed only if its last
  leg was.\<close>

lemma rejection_not_committed [simp]: "rejection err \<noteq> Committed"
  by (cases err) (simp_all add: rejection_def)

lemma overlays_keep_safety [simp]:
  "rx_safety (take_overlays e r) = rx_safety r" "rx_safety (give_back_overlays e r) = rx_safety r"
  "rx_safety (settle_overlays e r) = rx_safety r"
  by (simp_all add: take_overlays_def reserve_hold_def give_back_overlays_def compensate_hold_def
      settle_overlays_def with_overlay_def Let_def)

lemma push_judged_keeps [simp]:
  "rx_safety (push_judged e slot r) = rx_safety r" "rx_cascade (push_judged e slot r) = rx_cascade r"
  "rx_linked (push_judged e slot r) = rx_linked r"
  by (simp_all add: push_judged_def bump_def)

lemma accept_item_running:
  "accept_item item r = Some (Inr u, r1) \<Longrightarrow> \<not> sf_fail_stop (rx_safety r1) \<and> rx_safety r1 = rx_safety r"
  by (auto simp: accept_item_def panic_simps Let_def
      split: if_splits prod.splits sum.splits option.splits IdemVerdict.splits)

lemma decide_item_running:
  assumes "decide_item slot item ch r = Some (Inr e, r1)"
  shows "\<not> sf_fail_stop (rx_safety r1)"
proof -
  obtain acc r2 where a: "accept_item item r = Some (acc, r2)" using assms by (auto simp: decide_item_def panic_simps)
  show ?thesis
    using assms a by (cases acc) (auto simp: decide_item_def panic_simps dest: accept_item_running)
qed

lemma judge_legs_failed: "judge_legs legs (Some e) es sc bs r = Some (f', rest) \<Longrightarrow> f' = Some e"
  by (induction legs arbitrary: r) (auto simp: panic_simps)

lemma judge_legs_running:
  "judge_legs legs f es sc bs r = Some (None, es', sc', bs', r') \<Longrightarrow> legs \<noteq> [] \<Longrightarrow> \<not> sf_fail_stop (rx_safety r')"
proof (induction legs arbitrary: f es sc bs r)
  case (Cons slot legs)
  obtain item out r1 where i: "pipeline_item slot (rx_pipeline r) = Some item"
    and d: "decide_item slot item (Some sc) r = Some (out, r1)"
    using Cons.prems by (auto simp: panic_simps)
  obtain e where e: "f = None" "out = Inr e"
    using Cons.prems(1) i d by (cases f; cases out) (auto dest: judge_legs_failed)
  obtain sc1 bs1 where rest: "judge_legs legs None (es @ [e]) sc1 bs1 (take_overlays e r1) = Some (None, es', sc', bs', r')"
    using Cons.prems(1) i d e by (auto simp: panic_simps)
  show ?case
  proof (cases legs)
    case Nil
    then show ?thesis using rest d e decide_item_running by fastforce
  next
    case Cons
    then show ?thesis using Cons.IH [OF rest] by simp
  qed
qed simp

locale judge_inv =
  fixes P :: "Reactor \<Rightarrow> bool"
  assumes lanes_law: "P r \<Longrightarrow> P (r\<lparr>rx_lanes := l\<rparr>)"
    and log_law: "P r \<Longrightarrow> P (rx_record k a b r)"
    and metrics_law: "P r \<Longrightarrow> (\<And>m. same_books m (f m)) \<Longrightarrow> P (bump f r)"
    and fail_stop_law: "P r \<Longrightarrow> P (r\<lparr>rx_safety := snd (safety_fail_stop (rx_safety r))\<rparr>)"
    and quarantine_law: "P r \<Longrightarrow> P (r\<lparr>rx_safety := snd (safety_quarantine lane (rx_safety r))\<rparr>)"
    and overlay_law: "P r \<Longrightarrow> (\<And>s. ov_wf s \<Longrightarrow> ov_wf (g s)) \<Longrightarrow> P (with_overlay g r)"
    and release_law: "P r \<Longrightarrow> pipeline_release slot (rx_pipeline r) = Some pl \<Longrightarrow> P (r\<lparr>rx_pipeline := pl\<rparr>)"
    and emit_law: "P r \<Longrightarrow> ak_outcome ack \<noteq> Committed \<Longrightarrow> P (r\<lparr>rx_outbox := outbox_emit ack (rx_outbox r)\<rparr>)"
    and push_law: "P r \<Longrightarrow> \<not> sf_fail_stop (rx_safety r) \<Longrightarrow> P (push_judged e slot r)"
begin

lemma trip_fail_stop_inv: "P r \<Longrightarrow> P (trip_fail_stop r)"
  using fail_stop_law [of r] by (auto simp: trip_fail_stop_def Let_def intro: log_law split: prod.splits)

lemma quarantine_lane_inv:
  assumes "P r"
  shows "P (quarantine_lane lane h r)"
proof -
  let ?r1 = "r\<lparr>rx_lanes := lanes_get_mut h lane_quarantine (rx_lanes r)\<rparr>"
  obtain new sf where q: "safety_quarantine lane (rx_safety ?r1) = (new, sf)" by force
  have "P (?r1\<lparr>rx_safety := sf\<rparr>)" using quarantine_law [OF lanes_law [OF assms]] q by (metis snd_conv)
  then have "P (if new then rx_record LK_LANE_QUARANTINED (unat lane) 0 (bump (mt_quarantines_update Suc) (?r1\<lparr>rx_safety := sf\<rparr>))
      else ?r1\<lparr>rx_safety := sf\<rparr>)"
    by (auto intro!: log_law metrics_law)
  then show ?thesis using q by (auto simp: quarantine_lane_def Let_def intro: trip_fail_stop_inv)
qed

lemma on_seq_gap_inv: "P r \<Longrightarrow> P (on_seq_gap lane h q r)"
  unfolding on_seq_gap_def by (intro quarantine_lane_inv log_law metrics_law) auto

lemma on_stale_answer_inv: "P r \<Longrightarrow> P (on_stale_answer lane h r)"
  unfolding on_stale_answer_def by (intro quarantine_lane_inv log_law metrics_law) auto

lemma take_overlays_inv: "P r \<Longrightarrow> P (take_overlays e r)"
  by (auto simp: take_overlays_def reserve_hold_def intro: lanes_law overlay_law)

lemma give_back_overlays_inv: "P r \<Longrightarrow> P (give_back_overlays e r)"
  by (auto simp: give_back_overlays_def compensate_hold_def intro: lanes_law overlay_law)

lemma settle_overlays_inv: "P r \<Longrightarrow> P (settle_overlays e r)"
  by (auto simp: settle_overlays_def Let_def intro: lanes_law overlay_law)

lemma reject_before_seq_inv: "P r \<Longrightarrow> P (reject_before_seq rq err r)"
  unfolding reject_before_seq_def Let_def by (intro emit_law metrics_law) auto

lemma unpin_item_inv: "P r \<Longrightarrow> P (unpin_item item r)"
  by (auto simp: unpin_item_def intro: overlay_law)

lemma count_outcome_inv: "P r \<Longrightarrow> P (count_outcome out r)"
  by (cases out) (auto simp: count_outcome_def intro!: metrics_law)

lemma answer_item_inv: "P r \<Longrightarrow> out \<noteq> Committed \<Longrightarrow> P (answer_item item out r)"
  by (auto simp: answer_item_def intro!: emit_law)

lemma finish_slot_inv:
  assumes "P r" "finish_slot slot out r = Some r'" "out \<noteq> Committed"
  shows "P r'"
proof -
  from assms(2) obtain item pl where pl: "pipeline_release slot (rx_pipeline (unpin_item item r)) = Some pl"
    and r': "r' = answer_item item out (count_outcome out
      ((unpin_item item r)\<lparr>rx_pipeline := pl, rx_lanes := lanes_get_mut (wi_debit item) lane_left (rx_lanes (unpin_item item r))\<rparr>))"
    by (auto simp: finish_slot_def panic_simps Let_def)
  have "P ((unpin_item item r)\<lparr>rx_pipeline := pl\<rparr>)" by (rule release_law [OF unpin_item_inv [OF assms(1)] pl])
  from lanes_law [OF this] show ?thesis unfolding r' by (intro answer_item_inv count_outcome_inv) (simp_all add: assms(3))
qed

lemma finish_all_inv: "P r \<Longrightarrow> finish_all slots out r = Some r' \<Longrightarrow> out \<noteq> Committed \<Longrightarrow> P r'"
  by (induction slots arbitrary: r) (auto simp: panic_simps intro: finish_slot_inv)

lemma accept_item_inv:
  assumes "P r" "accept_item item r = Some (x, r')"
  shows "P r'"
proof -
  have l: "P (r\<lparr>rx_lanes := m\<rparr>)" for m by (rule lanes_law [OF assms(1)])
  show ?thesis
    using assms l on_seq_gap_inv [OF l]
    by (auto simp: accept_item_def Let_def panic_simps
        split: if_splits prod.splits sum.splits option.splits IdemVerdict.splits)
qed

lemma decide_item_inv:
  assumes "P r" "decide_item slot item ch r = Some (x, r')"
  shows "P r'"
proof -
  from assms(2) obtain acc r1 where a: "accept_item item r = Some (acc, r1)"
    by (auto simp: decide_item_def panic_simps)
  then have "r' = r1" using assms(2) by (cases acc) (auto simp: decide_item_def panic_simps)
  then show ?thesis using accept_item_inv [OF assms(1) a] by simp
qed

lemma judge_slot_inv:
  assumes "P r" "judge_slot slot r = Some r'"
  shows "P r'"
proof -
  from assms(2) obtain item out r1 where i: "pipeline_item slot (rx_pipeline r) = Some item"
    and d: "decide_item slot item None r = Some (out, r1)"
    by (auto simp: judge_slot_def panic_simps)
  have "P r1" by (rule decide_item_inv [OF assms(1) d])
  then show ?thesis
    using assms(2) i d
    by (cases out) (auto simp: judge_slot_def intro!: push_law intro: finish_slot_inv take_overlays_inv dest: decide_item_running)
qed

lemma judge_legs_inv:
  "P r \<Longrightarrow> judge_legs legs f es sc bs r = Some (f', es', sc', bs', r') \<Longrightarrow> P r'"
proof (induction legs arbitrary: f es sc bs r)
  case (Cons slot legs)
  obtain item out r1 where i: "pipeline_item slot (rx_pipeline r) = Some item"
    and d: "decide_item slot item (Some sc) r = Some (out, r1)"
    using Cons.prems by (auto simp: panic_simps)
  have r1: "P r1" by (rule decide_item_inv [OF Cons.prems(1) d])
  show ?case
  proof (cases f)
    case (Some err)
    then show ?thesis using Cons.prems i d by (auto intro: Cons.IH [OF r1])
  next
    case None
    show ?thesis
    proof (cases out)
      case (Inl err)
      then show ?thesis using Cons.prems i d None by (auto intro: Cons.IH [OF r1])
    next
      case (Inr e)
      then show ?thesis
        using Cons.prems i d None by (auto simp: panic_simps intro: Cons.IH [OF take_overlays_inv [OF r1]])
    qed
  qed
qed auto

lemma fold_inv: "(\<And>x s. P s \<Longrightarrow> P (g x s)) \<Longrightarrow> P s \<Longrightarrow> P (fold g xs s)"
  by (induction xs arbitrary: s) auto

lemma reject_chain_inv:
  assumes "P r" "reject_chain c es err r = Some r'"
  shows "P r'"
proof -
  from assms(2) obtain r1 where r1: "finish_all (lc_legs c) (rejection err) (fold give_back_overlays es r) = Some r1"
    by (auto simp: reject_chain_def panic_simps)
  have "P r1" by (rule finish_all_inv [OF fold_inv [OF give_back_overlays_inv assms(1)] r1]) simp_all
  then have "P (bump (mt_linked_chains_rejected_update Suc) r1)" by (rule metrics_law) auto
  moreover from this have "P (bump (mt_linked_chains_aborted_update Suc) (bump (mt_linked_chains_rejected_update Suc) r1))"
    by (rule metrics_law) auto
  ultimately show ?thesis
    using assms(2) r1 by (auto simp: reject_chain_def Let_def intro: log_law)
qed

lemma push_all_inv:
  "P r \<Longrightarrow> \<not> sf_fail_stop (rx_safety r) \<Longrightarrow> P (fold (\<lambda>(effect, slot). push_judged effect slot) ps r)"
  by (induction ps arbitrary: r) (auto simp: push_law)

lemma propose_chain_inv:
  assumes "P r" "judge_legs (lc_legs c) f es0 sc bs r0 = Some (None, es, sc', bs', r)"
  shows "P (propose_chain c es r)"
proof -
  have "lc_legs c = [] \<or> \<not> sf_fail_stop (rx_safety r)" using judge_legs_running [OF assms(2)] by blast
  then have "P (fold (\<lambda>(effect, slot). push_judged effect slot) (zip es (lc_legs c)) r)"
    using push_all_inv [OF assms(1)] assms(1) by auto
  then show ?thesis unfolding propose_chain_def by (rule metrics_law) auto
qed

end

section \<open>Termination of the cascade\<close>

text \<open>What a judgement leaves alone: the cascade and the chains.\<close>

definition cascade_frame :: "Reactor \<Rightarrow> Reactor \<Rightarrow> bool" where
  "cascade_frame r r' \<longleftrightarrow> rx_cascade r' = rx_cascade r \<and> rx_linked r' = rx_linked r"

interpretation framed: judge_inv "cascade_frame r" for r
  by unfold_locales (simp_all add: cascade_frame_def rx_record_def bump_def with_overlay_def)

lemma cascade_frame_refl [simp]: "cascade_frame r r"
  by (simp add: cascade_frame_def)

lemma free_gated_weight:
  "free_gated slots r = Some r' \<Longrightarrow> rx_linked r' = rx_linked r
     \<and> length (cc_ready (rx_cascade r')) \<le> length (cc_ready (rx_cascade r)) + length slots
     \<and> cc_running (rx_cascade r') = cc_running (rx_cascade r)"
proof (induction slots arbitrary: r)
  case (Cons slot slots)
  then obtain pl item where "pipeline_item_mut slot (clear_dep DEP_LINKED_CHAIN) (rx_pipeline r) = Some pl"
      "pipeline_item slot pl = Some item"
      "free_gated slots (if is_judgeable item
         then r\<lparr>rx_pipeline := pl, rx_cascade := cascade_push slot (rx_cascade (r\<lparr>rx_pipeline := pl\<rparr>))\<rparr>
         else r\<lparr>rx_pipeline := pl\<rparr>) = Some r'"
    by (auto simp: panic_simps Let_def)
  from Cons.IH [OF this(3)] show ?case by (auto simp: cascade_push_def split: if_splits)
qed simp

lemma linked_weight_frame [simp]:
  "linked_weight (linked_open_gates i s) = linked_weight s"
  "linked_weight (return_buffers es sc s) = linked_weight s"
  "linked_weight (linked_recycle c s) = linked_weight s"
  "linked_weight (s\<lparr>lk_effects := es, lk_scratch := sc\<rparr>) = linked_weight s"
  by (simp_all add: linked_weight_def linked_open_gates_def return_buffers_def linked_recycle_def)

text \<open>A chain's judgement, taken apart: the legs, the verdict, then the gates.\<close>

lemma judge_chain_legs_Some:
  assumes "judge_chain_legs c r = Some r'"
  obtains f es sc bs r1 r2 r3 where
    "judge_legs (lc_legs c) (lc_failure c) (lk_effects (rx_linked r)) (scratch_clear (lk_scratch (rx_linked r))) []
       (r\<lparr>rx_linked := (rx_linked r)\<lparr>lk_effects := [], lk_scratch := scratch_new\<rparr>, rx_budgets := []\<rparr>)
       = Some (f, es, sc, bs, r1)"
    "(case (if f = None \<and> misses_a_member bs then Some SharedBudgetGroupIncomplete else f) of
        Some err \<Rightarrow> reject_chain c es err r1 | None \<Rightarrow> Some (propose_chain c es r1)) = Some r2"
    "free_gated (rev (lc_gated c)) (r2\<lparr>rx_budgets := bs,
        rx_linked := linked_open_gates (lc_id c) (return_buffers [] sc (rx_linked r2))\<rparr>) = Some r3"
    "r' = r3\<lparr>rx_linked := linked_recycle c (rx_linked r3)\<rparr>"
  using assms
  unfolding judge_chain_legs_def take_buffers_def open_gates_def Let_def prod.case
  by (auto simp: panic_simps)

lemma judge_chain_legs_weight:
  assumes "judge_chain_legs c r = Some r'"
  shows "cascade_weight r' \<le> cascade_weight r + length (lc_gated c)
    \<and> cc_running (rx_cascade r') = cc_running (rx_cascade r)"
  using assms
proof (rule judge_chain_legs_Some)
  fix f es sc bs r1 r2 r3
  let ?r0 = "r\<lparr>rx_linked := (rx_linked r)\<lparr>lk_effects := [], lk_scratch := scratch_new\<rparr>, rx_budgets := []\<rparr>"
  assume legs: "judge_legs (lc_legs c) (lc_failure c) (lk_effects (rx_linked r)) (scratch_clear (lk_scratch (rx_linked r))) []
       ?r0 = Some (f, es, sc, bs, r1)"
    and verdict: "(case (if f = None \<and> misses_a_member bs then Some SharedBudgetGroupIncomplete else f) of
        Some err \<Rightarrow> reject_chain c es err r1 | None \<Rightarrow> Some (propose_chain c es r1)) = Some r2"
    and gates: "free_gated (rev (lc_gated c)) (r2\<lparr>rx_budgets := bs,
        rx_linked := linked_open_gates (lc_id c) (return_buffers [] sc (rx_linked r2))\<rparr>) = Some r3"
    and r': "r' = r3\<lparr>rx_linked := linked_recycle c (rx_linked r3)\<rparr>"
  have "cascade_frame ?r0 r1" by (rule framed.judge_legs_inv [OF _ legs]) simp
  then have "cascade_frame ?r0 r2"
    using verdict legs by (auto intro: framed.reject_chain_inv framed.propose_chain_inv split: option.splits if_splits)
  then have "rx_cascade r2 = rx_cascade r" "linked_weight (rx_linked r2) = linked_weight (rx_linked r)"
    by (simp_all add: cascade_frame_def)
  then show ?thesis using free_gated_weight [OF gates] r' by (simp add: cascade_weight_def)
qed

lemma weight_map_entry:
  assumes "map_of xs i = Some c" "lc_gated c' = lc_gated c"
  shows "sum_list (map (\<lambda>(_, c). length (lc_gated c)) (AList.map_entry i (\<lambda>_. c') xs)) =
    sum_list (map (\<lambda>(_, c). length (lc_gated c)) xs)"
  using assms by (induction xs) (auto split: if_splits)

lemma weight_delete:
  assumes "map_of xs i = Some c"
  shows "length (lc_gated c) + sum_list (map (\<lambda>(_, c). length (lc_gated c)) (AList.delete i xs))
    \<le> sum_list (map (\<lambda>(_, c). length (lc_gated c)) xs)"
  using assms
proof (induction xs)
  case (Cons x xs)
  have "sum_list (map (\<lambda>(_, c). length (lc_gated c)) (AList.delete i xs)) \<le> sum_list (map (\<lambda>(_, c). length (lc_gated c)) xs)"
    by (induction xs) (auto simp: AList.delete_eq)
  then show ?case using Cons by (auto simp: AList.delete_eq split: if_splits prod.splits)
qed simp

lemma leg_ready_weight:
  assumes "leg_ready i s = (r, s')"
  shows "linked_weight s' + (case r of None \<Rightarrow> 0 | Some c \<Rightarrow> length (lc_gated c)) \<le> linked_weight s"
proof (cases "chain_mut i s")
  case None
  then show ?thesis using assms by (auto simp: leg_ready_def)
next
  case (Some c)
  let ?c = "c\<lparr>lc_outstanding := usize_sub (lc_outstanding c) 1\<rparr>"
  let ?s1 = "chain_modify i (\<lambda>_. ?c) s"
  have same: "linked_weight ?s1 = linked_weight s"
    using Some weight_map_entry [of "lk_closed s" i c ?c]
    by (auto simp: chain_modify_def chain_mut_def linked_weight_def split: option.splits if_splits)
  show ?thesis
  proof (cases "chain_is_complete ?c")
    case False
    then show ?thesis using assms Some same by (simp add: leg_ready_def Let_def)
  next
    case True
    then have r: "r = map_of (lk_closed ?s1) i" and s': "s' = ?s1\<lparr>lk_closed := AList.delete i (lk_closed ?s1)\<rparr>"
      using assms Some by (auto simp: leg_ready_def Let_def)
    show ?thesis
    proof (cases r)
      case None
      then have "AList.delete i (lk_closed ?s1) = lk_closed ?s1"
        using r by (metis delete_id map_of_eq_None_iff)
      then have "linked_weight s' = linked_weight ?s1" using s' by (simp add: linked_weight_def)
      then show ?thesis using None same by simp
    next
      case (Some d)
      then show ?thesis
        using weight_delete [of "lk_closed ?s1" i d] r s' same by (simp add: linked_weight_def)
    qed
  qed
qed

lemma judge_ready_weight:
  assumes "judge_ready slot r = Some r'"
  shows "cascade_weight r' \<le> cascade_weight r \<and> cc_running (rx_cascade r') = cc_running (rx_cascade r)"
proof -
  obtain item where i: "pipeline_item slot (rx_pipeline r) = Some item"
    using assms by (auto simp: judge_ready_def panic_simps)
  show ?thesis
  proof (cases "is_absent (wi_chain item)")
    case True
    then have "cascade_frame r r'"
      using assms i by (auto simp: judge_ready_def intro: framed.judge_slot_inv [OF cascade_frame_refl])
    then show ?thesis by (simp add: cascade_frame_def cascade_weight_def)
  next
    case False
    obtain ready lk where l: "leg_ready (wi_chain item) (rx_linked r) = (ready, lk)" by force
    note w = leg_ready_weight [OF l]
    show ?thesis
    proof (cases ready)
      case None
      then show ?thesis using assms i False l w by (auto simp: judge_ready_def cascade_weight_def)
    next
      case (Some c)
      then have "judge_chain_legs c (r\<lparr>rx_linked := lk\<rparr>) = Some r'"
        using assms i False l by (simp add: judge_ready_def)
      from judge_chain_legs_weight [OF this] show ?thesis using w Some by (simp add: cascade_weight_def)
    qed
  qed
qed

function cascade_loop :: "Reactor \<Rightarrow> Reactor option" where
  "cascade_loop r =
     (case cascade_next (rx_cascade r) of
        (None, c) \<Rightarrow> Some (r\<lparr>rx_cascade := c\<rparr>)
      | (Some slot, c) \<Rightarrow>
          (case judge_ready slot (r\<lparr>rx_cascade := c\<rparr>) of
             None \<Rightarrow> None
           | Some r1 \<Rightarrow> cascade_loop r1))"
  by auto
termination
proof (relation "measure cascade_weight", goal_cases)
  case (2 r)
  then show ?case
    using judge_ready_weight
    by (fastforce simp: cascade_weight_def cascade_next_def split: list.splits)
qed simp

declare cascade_loop.simps [simp del]

definition run_cascade :: "Reactor \<Rightarrow> Reactor option" where
  "run_cascade r =
     (let (mine, c) = cascade_enter (rx_cascade r); r1 = r\<lparr>rx_cascade := c\<rparr> in
      if \<not> mine then Some r1
      else do { r2 \<leftarrow> cascade_loop r1; Some (r2\<lparr>rx_cascade := cascade_leave (rx_cascade r2)\<rparr>) })"

text \<open>The call a chain's judgement ends with does nothing inside the loop.\<close>

lemma run_cascade_nested: "cc_running (rx_cascade r) \<Longrightarrow> run_cascade r = Some r"
  by (simp add: run_cascade_def cascade_enter_def)

definition judge_chain :: "LinkedChain \<Rightarrow> Reactor \<Rightarrow> Reactor option" where
  "judge_chain chain r = do { r1 \<leftarrow> judge_chain_legs chain r; run_cascade r1 }"

definition on_ready :: "SlotId \<Rightarrow> Reactor \<Rightarrow> Reactor option" where
  "on_ready slot r = run_cascade (r\<lparr>rx_cascade := cascade_push slot (rx_cascade r)\<rparr>)"

section \<open>Replies\<close>

definition release_dep :: "SlotId \<Rightarrow> DepFlags \<Rightarrow> Reactor \<Rightarrow> Reactor option" where
  "release_dep slot dep r =
     do {
       pl \<leftarrow> pipeline_item_mut slot (clear_dep dep) (rx_pipeline r);
       item \<leftarrow> pipeline_item slot pl;
       let r1 = r\<lparr>rx_pipeline := pl\<rparr>;
       if is_judgeable item then on_ready slot r1 else Some r1
     }"

definition on_idem :: "IdemReply \<Rightarrow> Reactor \<Rightarrow> Reactor option" where
  "on_idem reply r =
     (let slot = ir_correlation reply in
      do {
        pl \<leftarrow> pipeline_item_mut slot
               (\<lambda>item. clear_dep DEP_IDEM (item\<lparr>wi_verdict := Some (ir_verdict reply)\<rparr>)) (rx_pipeline r);
        item \<leftarrow> pipeline_item slot pl;
        let r1 = r\<lparr>rx_pipeline := pl\<rparr>;
        if is_judgeable item then on_ready slot r1 else Some r1
      })"

definition on_pending :: "PendingReply \<Rightarrow> Reactor \<Rightarrow> Reactor option" where
  "on_pending reply r =
     (let slot = pr_correlation reply in
      do {
        item \<leftarrow> pipeline_item slot (rx_pipeline r);
        let r1 = (if keeps_lane_place item
                  then r\<lparr>rx_lanes := lanes_get_mut (wi_debit item) pending_reply_arrived (rx_lanes r)\<rparr> else r);
        expected \<leftarrow> pipeline_expected_applies slot (rx_pipeline r1);
        let r2 = (if pr_applied reply < expected then on_stale_answer (wi_lane item) (wi_debit item) r1 else r1);
        if is_absent (pr_pending_ref reply) then release_dep slot DEP_PENDING r2
        else do {
          pl \<leftarrow> pipeline_set_record slot (pr_found reply) (rx_pipeline r2);
          let r3 = with_overlay (ov_admit_lookup (pr_pending_ref reply) (map_option hd_remaining (pr_found reply)))
                     (r2\<lparr>rx_pipeline := pl\<rparr>);
          release_dep slot DEP_PENDING r3
        }
      })"

text \<open>The two loops of \<open>drain_replies\<close>, each over what its queue holds when the stage reaches it.\<close>

fun drain_idem :: "IdemReply list \<Rightarrow> Reactor \<Rightarrow> Reactor option" where
  "drain_idem [] r = Some r"
| "drain_idem (reply # replies) r =
     do {
       r1 \<leftarrow> on_idem reply (r\<lparr>rx_idem := (rx_idem r)\<lparr>idm_replies := snd (chan_pop (idm_replies (rx_idem r)))\<rparr>\<rparr>);
       drain_idem replies r1
     }"

fun drain_pending :: "PendingReply list \<Rightarrow> Reactor \<Rightarrow> Reactor option" where
  "drain_pending [] r = Some r"
| "drain_pending (reply # replies) r =
     do {
       r1 \<leftarrow> on_pending reply (r\<lparr>rx_pending := snd (pchan_poll (rx_pending r))\<rparr>);
       drain_pending replies r1
     }"

definition drain_replies :: "Reactor \<Rightarrow> (bool \<times> Reactor) option" where
  "drain_replies r =
     do {
       let idem = ch_items (idm_replies (rx_idem r));
       r1 \<leftarrow> drain_idem idem r;
       let pending = ch_items (mp_results (pc_port (rx_pending r1)));
       r2 \<leftarrow> drain_pending pending r1;
       Some (idem \<noteq> [] \<or> pending \<noteq> [], r2)
     }"

section \<open>What the whole stage keeps\<close>

locale replies_inv = judge_inv +
  assumes linked_law: "P r \<Longrightarrow> P (r\<lparr>rx_linked := lk\<rparr>)"
    and budgets_law: "P r \<Longrightarrow> P (r\<lparr>rx_budgets := bs\<rparr>)"
    and cascade_law: "P r \<Longrightarrow> P (r\<lparr>rx_cascade := cs\<rparr>)"
    and item_law: "P r \<Longrightarrow> pipeline_item_mut slot f (rx_pipeline r) = Some pl \<Longrightarrow> P (r\<lparr>rx_pipeline := pl\<rparr>)"
    and record_law: "P r \<Longrightarrow> pipeline_set_record slot d (rx_pipeline r) = Some pl \<Longrightarrow> P (r\<lparr>rx_pipeline := pl\<rparr>)"
    and idem_law: "P r \<Longrightarrow> P (r\<lparr>rx_idem := i\<rparr>)"
    and poll_law: "P r \<Longrightarrow> P (r\<lparr>rx_pending := snd (pchan_poll (rx_pending r))\<rparr>)"
begin

lemma free_gated_inv: "P r \<Longrightarrow> free_gated slots r = Some r' \<Longrightarrow> P r'"
proof (induction slots arbitrary: r)
  case (Cons slot slots)
  then obtain pl item where pl: "pipeline_item_mut slot (clear_dep DEP_LINKED_CHAIN) (rx_pipeline r) = Some pl"
    and rest: "free_gated slots (if is_judgeable item
         then r\<lparr>rx_pipeline := pl, rx_cascade := cascade_push slot (rx_cascade (r\<lparr>rx_pipeline := pl\<rparr>))\<rparr>
         else r\<lparr>rx_pipeline := pl\<rparr>) = Some r'"
    by (auto simp: panic_simps Let_def)
  have "P (r\<lparr>rx_pipeline := pl\<rparr>)" by (rule item_law [OF Cons.prems(1) pl])
  then show ?case using rest cascade_law by (auto intro: Cons.IH split: if_splits)
qed simp

lemma judge_chain_legs_inv:
  assumes "P r" "judge_chain_legs c r = Some r'"
  shows "P r'"
  using assms(2)
proof (rule judge_chain_legs_Some)
  fix f es sc bs r1 r2 r3
  let ?r0 = "r\<lparr>rx_linked := (rx_linked r)\<lparr>lk_effects := [], lk_scratch := scratch_new\<rparr>, rx_budgets := []\<rparr>"
  assume legs: "judge_legs (lc_legs c) (lc_failure c) (lk_effects (rx_linked r)) (scratch_clear (lk_scratch (rx_linked r))) []
       ?r0 = Some (f, es, sc, bs, r1)"
    and verdict: "(case (if f = None \<and> misses_a_member bs then Some SharedBudgetGroupIncomplete else f) of
        Some err \<Rightarrow> reject_chain c es err r1 | None \<Rightarrow> Some (propose_chain c es r1)) = Some r2"
    and gates: "free_gated (rev (lc_gated c)) (r2\<lparr>rx_budgets := bs,
        rx_linked := linked_open_gates (lc_id c) (return_buffers [] sc (rx_linked r2))\<rparr>) = Some r3"
    and r': "r' = r3\<lparr>rx_linked := linked_recycle c (rx_linked r3)\<rparr>"
  have "P ?r0" by (intro budgets_law linked_law assms(1))
  then have "P r1" using legs by (rule judge_legs_inv)
  then have "P r2" using verdict legs by (auto intro: reject_chain_inv propose_chain_inv split: option.splits if_splits)
  then have "P r3" using gates by (rule free_gated_inv [OF linked_law [OF budgets_law]])
  then show ?thesis unfolding r' by (rule linked_law)
qed

lemma judge_ready_inv:
  assumes "P r" "judge_ready slot r = Some r'"
  shows "P r'"
proof -
  obtain item where i: "pipeline_item slot (rx_pipeline r) = Some item"
    using assms(2) by (auto simp: judge_ready_def panic_simps)
  obtain ready lk where l: "leg_ready (wi_chain item) (rx_linked r) = (ready, lk)" by force
  have lk: "P (r\<lparr>rx_linked := lk\<rparr>)" by (rule linked_law [OF assms(1)])
  show ?thesis
    using assms i l lk
    by (cases ready) (auto simp: judge_ready_def intro: judge_slot_inv judge_chain_legs_inv split: if_splits)
qed

lemma cascade_loop_inv: "P r \<Longrightarrow> cascade_loop r = Some r' \<Longrightarrow> P r'"
proof (induction r arbitrary: r' rule: cascade_loop.induct)
  case (1 r)
  obtain s c where n: "cascade_next (rx_cascade r) = (s, c)" by force
  have c: "P (r\<lparr>rx_cascade := c\<rparr>)" by (rule cascade_law [OF 1(2)])
  show ?case
  proof (cases s)
    case None
    then show ?thesis using 1(3) n c by (auto simp: cascade_loop.simps [of r])
  next
    case (Some slot)
    then obtain r1 where r1: "judge_ready slot (r\<lparr>rx_cascade := c\<rparr>) = Some r1" "cascade_loop r1 = Some r'"
      using 1(3) n by (auto simp: cascade_loop.simps [of r] split: option.splits)
    show ?thesis using 1(1) [OF n [symmetric] Some r1(1) judge_ready_inv [OF c r1(1)] r1(2)] .
  qed
qed

lemma run_cascade_inv:
  assumes "P r" "run_cascade r = Some r'"
  shows "P r'"
proof -
  have c: "P (r\<lparr>rx_cascade := (rx_cascade r)\<lparr>cc_running := True\<rparr>\<rparr>)" by (rule cascade_law [OF assms(1)])
  show ?thesis
    using assms(2) c
    by (auto simp: run_cascade_def cascade_enter_def panic_simps Let_def intro: cascade_law cascade_loop_inv [OF c]
        split: if_splits)
qed

lemma judge_chain_inv: "P r \<Longrightarrow> judge_chain c r = Some r' \<Longrightarrow> P r'"
  by (auto simp: judge_chain_def panic_simps intro: run_cascade_inv judge_chain_legs_inv)

lemma on_ready_inv: "P r \<Longrightarrow> on_ready slot r = Some r' \<Longrightarrow> P r'"
  unfolding on_ready_def by (rule run_cascade_inv [OF cascade_law])

lemma release_dep_inv: "P r \<Longrightarrow> release_dep slot d r = Some r' \<Longrightarrow> P r'"
  by (auto simp: release_dep_def panic_simps Let_def intro: on_ready_inv item_law split: if_splits)

lemma on_idem_inv: "P r \<Longrightarrow> on_idem reply r = Some r' \<Longrightarrow> P r'"
  by (auto simp: on_idem_def panic_simps Let_def intro: on_ready_inv item_law split: if_splits)

lemma on_pending_inv:
  assumes "P r" "on_pending reply r = Some r'"
  shows "P r'"
proof -
  let ?slot = "pr_correlation reply"
  obtain item n where i: "pipeline_item ?slot (rx_pipeline r) = Some item"
    using assms(2) by (auto simp: on_pending_def panic_simps Let_def)
  let ?r1 = "if keeps_lane_place item
    then r\<lparr>rx_lanes := lanes_get_mut (wi_debit item) pending_reply_arrived (rx_lanes r)\<rparr> else r"
  obtain n where n: "pipeline_expected_applies ?slot (rx_pipeline ?r1) = Some n"
    using assms(2) i by (auto simp: on_pending_def panic_simps Let_def)
  let ?r2 = "if pr_applied reply < n then on_stale_answer (wi_lane item) (wi_debit item) ?r1 else ?r1"
  have "P ?r1" using assms(1) lanes_law by simp
  then have r2: "P ?r2" using on_stale_answer_inv by simp
  show ?thesis
  proof (cases "is_absent (pr_pending_ref reply)")
    case True
    then have "release_dep ?slot DEP_PENDING ?r2 = Some r'"
      using assms(2) i n by (simp add: on_pending_def Let_def)
    then show ?thesis by (rule release_dep_inv [OF r2])
  next
    case False
    then obtain pl where pl: "pipeline_set_record ?slot (pr_found reply) (rx_pipeline ?r2) = Some pl"
      and rd: "release_dep ?slot DEP_PENDING (with_overlay (ov_admit_lookup (pr_pending_ref reply)
          (map_option hd_remaining (pr_found reply))) (?r2\<lparr>rx_pipeline := pl\<rparr>)) = Some r'"
      using assms(2) i n by (auto simp: on_pending_def Let_def panic_simps)
    have "P (with_overlay (ov_admit_lookup (pr_pending_ref reply)
          (map_option hd_remaining (pr_found reply))) (?r2\<lparr>rx_pipeline := pl\<rparr>))"
      by (rule overlay_law [OF record_law [OF r2 pl]]) simp
    then show ?thesis using rd by (rule release_dep_inv)
  qed
qed

lemma drain_idem_inv: "P r \<Longrightarrow> drain_idem replies r = Some r' \<Longrightarrow> P r'"
  by (induction replies arbitrary: r) (auto simp: panic_simps intro: on_idem_inv [OF idem_law])

lemma drain_pending_inv: "P r \<Longrightarrow> drain_pending replies r = Some r' \<Longrightarrow> P r'"
  by (induction replies arbitrary: r) (auto simp: panic_simps intro: on_pending_inv [OF poll_law])

lemma drain_replies_inv: "P r \<Longrightarrow> drain_replies r = Some (b, r') \<Longrightarrow> P r'"
  by (auto simp: drain_replies_def panic_simps Let_def intro: drain_idem_inv drain_pending_inv)

end

end
