(* ===== verification/Intake.thy ===== *)
theory Intake
  imports Judge
begin

text \<open>
  S1 and S2, intake (\<open>sequencer/src/reactor/intake.rs\<close>): a request is checked, given a slot and a place in
  its lane, and its questions are sent without waiting; a question a full queue refuses leaves the request
  deferred. Expiry voids come after the clients, on their own budget.
\<close>

section \<open>What the pending path owes a request\<close>

datatype PendingStep = StepLookup | StepFence | StepInline

definition pending_step_of :: "bool \<Rightarrow> bool \<Rightarrow> PendingStep" where
  "pending_step_of needs_record lane_waiting =
     (if needs_record then StepLookup else if lane_waiting then StepFence else StepInline)"

definition idem_dispatch :: "IdemRequest \<Rightarrow> IdemPort \<Rightarrow> bool \<times> IdemPort" where
  "idem_dispatch request p =
     (let (ok, c) = chan_push request (idm_requests p) in (ok, p\<lparr>idm_requests := c\<rparr>))"

definition send_idem :: "SlotId \<Rightarrow> WorkItem \<Rightarrow> Reactor \<Rightarrow> bool \<times> Reactor" where
  "send_idem slot item r =
     (let request = \<lparr>iq_correlation = slot, iq_tx_id = tr_id (wi_tx item), iq_lane = wi_lane item,
                     iq_seq = wi_seq item, iq_digest = wi_digest item,
                     iq_ask = (if is_client (wi_kind item) then Check else Serialize)\<rparr>;
          (ok, p) = idem_dispatch request (rx_idem r) in
      (ok, r\<lparr>rx_idem := p\<rparr>))"

text \<open>A send the engine's queue accepted or refused.\<close>

definition rx_pending_send :: "PendingCommand \<Rightarrow> Reactor \<Rightarrow> bool \<times> Reactor" where
  "rx_pending_send command r =
     (let (ok, c) = pchan_send command (rx_pending r) in (ok, r\<lparr>rx_pending := c\<rparr>))"

definition take_lookup_step :: "SlotId \<Rightarrow> WorkItem \<Rightarrow> Reactor \<Rightarrow> (bool \<times> Reactor) option" where
  "take_lookup_step slot item r =
     (case rx_pending_send (Lookup \<lparr>pl_correlation = slot, pl_tx_id = tr_id (wi_tx item), pl_lane = wi_lane item,
                                    pl_seq = wi_seq item, pl_pending_ref = tr_pending_ref (wi_tx item)\<rparr>) r of
        (False, r1) \<Rightarrow> Some (False, r1)
      | (True, r1) \<Rightarrow>
          let r2 = with_overlay (ov_begin_lookup (tr_pending_ref (wi_tx item))) r1 in
          do {
            pl \<leftarrow> pipeline_expect_applies slot (pc_applies_sent (rx_pending r2)) (rx_pipeline r2);
            let r3 = r2\<lparr>rx_pipeline := pl\<rparr>;
            let r4 = (if keeps_lane_place item
                      then r3\<lparr>rx_lanes := lanes_get_mut (wi_debit item) expect_pending_reply (rx_lanes r3)\<rparr>
                      else r3);
            Some (True, bump (mt_pending_lookups_update Suc) r4)
          })"

definition take_fence_step :: "SlotId \<Rightarrow> WorkItem \<Rightarrow> Reactor \<Rightarrow> bool \<times> Reactor" where
  "take_fence_step slot item r =
     (case rx_pending_send (Fence \<lparr>pf_correlation = slot, pf_lane = wi_lane item, pf_seq = wi_seq item\<rparr>) r of
        (False, r1) \<Rightarrow> (False, r1)
      | (True, r1) \<Rightarrow>
          (True, bump (mt_fences_update Suc)
             (r1\<lparr>rx_lanes := lanes_get_mut (wi_debit item) expect_pending_reply (rx_lanes r1)\<rparr>)))"

definition take_pending_step :: "SlotId \<Rightarrow> WorkItem \<Rightarrow> Reactor \<Rightarrow> (bool \<times> Reactor) option" where
  "take_pending_step slot item r =
     (let needs_record = needs_pending_lookup (wi_kind item)
                         \<and> \<not> pchan_hold_is_missing (rx_pending r) (tr_pending_ref (wi_tx item)) in
      do {
        lane \<leftarrow> lanes_get (rx_lanes r) (wi_debit item);
        case pending_step_of needs_record (awaits_pending_reply lane) of
          StepLookup \<Rightarrow> take_lookup_step slot item r
        | StepFence \<Rightarrow> Some (take_fence_step slot item r)
        | StepInline \<Rightarrow> do {
            pl \<leftarrow> pipeline_item_mut slot (clear_dep DEP_PENDING) (rx_pipeline r);
            Some (True, r\<lparr>rx_pipeline := pl\<rparr>)
          }
      })"

section \<open>Dispatch\<close>

definition set_sent :: "SlotId \<Rightarrow> DepFlags \<Rightarrow> Reactor \<Rightarrow> Reactor option" where
  "set_sent slot sent r =
     do {
       pl \<leftarrow> pipeline_item_mut slot (\<lambda>item. item\<lparr>wi_sent := sent\<rparr>) (rx_pipeline r);
       Some (r\<lparr>rx_pipeline := pl\<rparr>)
     }"

text \<open>The first half of \<open>dispatch\<close>: the idempotency question. The result carries what has been sent.\<close>

definition dispatch_idem :: "SlotId \<Rightarrow> WorkItem \<Rightarrow> Reactor \<Rightarrow> bool \<times> DepFlags \<times> Reactor" where
  "dispatch_idem slot item r =
     (if dep_contains (wi_deps item) DEP_IDEM \<and> \<not> dep_contains (wi_sent item) DEP_IDEM
      then (let (ok, r1) = send_idem slot item r in
            (ok, if ok then dep_with (wi_sent item) DEP_IDEM else wi_sent item, r1))
      else (True, wi_sent item, r))"

text \<open>The second half: the pending step, and the pin taken with it.\<close>

definition dispatch_pending ::
  "SlotId \<Rightarrow> WorkItem \<Rightarrow> DepFlags \<Rightarrow> Reactor \<Rightarrow> (bool \<times> DepFlags \<times> Reactor) option" where
  "dispatch_pending slot item sent r =
     (if dep_contains (wi_deps item) DEP_PENDING \<and> \<not> dep_contains sent DEP_PENDING
      then
        if blocks_lookups (rx_pending r) then Some (False, sent, r)
        else do {
          (ok, r1) \<leftarrow> take_pending_step slot item r;
          Some (if \<not> ok then (False, sent, r1)
                else (True, dep_with sent DEP_PENDING,
                      if needs_pending_lookup (wi_kind item)
                      then with_overlay (ov_pin (tr_pending_ref (wi_tx item))) r1 else r1))
        }
      else Some (True, sent, r))"

definition dispatch :: "SlotId \<Rightarrow> Reactor \<Rightarrow> (bool \<times> Reactor) option" where
  "dispatch slot r =
     do {
       item \<leftarrow> pipeline_item slot (rx_pipeline r);
       let (ok1, sent1, r1) = dispatch_idem slot item r;
       if \<not> ok1 then do { r2 \<leftarrow> set_sent slot sent1 r1; Some (False, r2) }
       else do {
         (ok2, sent2, r2) \<leftarrow> dispatch_pending slot item sent1 r1;
         r3 \<leftarrow> set_sent slot sent2 r2;
         if \<not> ok2 then Some (False, r3)
         else do {
           item' \<leftarrow> pipeline_item slot (rx_pipeline r3);
           r4 \<leftarrow> (if is_judgeable item' then on_ready slot r3 else Some r3);
           Some (True, r4)
         }
       }
     }"

definition dispatch_or_defer :: "SlotId \<Rightarrow> Reactor \<Rightarrow> Reactor option" where
  "dispatch_or_defer slot r =
     do {
       (ok, r1) \<leftarrow> dispatch slot r;
       Some (if ok then r1
             else bump (mt_dispatch_deferred_update Suc) (r1\<lparr>rx_pipeline := pipeline_defer slot (rx_pipeline r1)\<rparr>))
     }"

section \<open>Admission\<close>

text \<open>The checks of \<open>prepare\<close> that come before a slot is taken; the lane table may grow.\<close>

definition prepare_checks ::
  "Request \<Rightarrow> Reactor \<Rightarrow> ((TransferKind \<times> AcctHandle \<times> AcctHandle \<times> bool \<times> bool) result \<times> Reactor) option" where
  "prepare_checks request r =
     (let tx = rq_tx request in
      if sf_fail_stop (rx_safety r) then Some (Inl FailStop, r)
      else case tr_validate tx of
        Inl e \<Rightarrow> Some (Inl e, r)
      | Inr kind \<Rightarrow>
      case accounts_resolve (rx_accounts r) (tr_debit_account tx) of
        None \<Rightarrow> Some (Inl (UnknownAccount (tr_debit_account tx)), r)
      | Some debit \<Rightarrow>
      case accounts_resolve (rx_accounts r) (tr_credit_account tx) of
        None \<Rightarrow> Some (Inl (UnknownAccount (tr_credit_account tx)), r)
      | Some credit \<Rightarrow> do {
          near \<leftarrow> accounts_record (rx_accounts r) debit;
          other_ledger \<leftarrow> (if ac_ledger near \<noteq> tr_ledger tx then Some True
                          else do { far \<leftarrow> accounts_record (rx_accounts r) credit;
                                    Some (ac_ledger far \<noteq> tr_ledger tx) });
          if other_ledger then Some (Inl LedgerMismatch, r)
          else
            let r1 = r\<lparr>rx_lanes := lanes_get_mut debit (\<lambda>l. l) (rx_lanes r)\<rparr>;
                lane = lanes_peek (rx_lanes r1) debit;
                ordered = is_constrained near;
                needs_pending_reply = (needs_pending_lookup kind \<or> (ordered \<and> awaits_pending_reply lane)) in
            if ln_quarantined lane then Some (Inl (AccountQuarantined (tr_debit_account tx)), r1)
            else if ordered \<and> needs_pending_reply \<and> \<not> has_reply_capacity lane then Some (Inl Overloaded, r1)
            else Some (Inr (kind, debit, credit, ordered, needs_pending_reply), r1)
        })"

definition place_in_lane :: "AcctHandle \<Rightarrow> bool \<Rightarrow> Reactor \<Rightarrow> Seq \<times> Reactor" where
  "place_in_lane debit ordered r =
     (let r1 = r\<lparr>rx_lanes := lanes_get_mut debit lane_entered (rx_lanes r)\<rparr> in
      if ordered
      then (let (seq, lane) = issue_seq (lanes_peek (rx_lanes r1) debit) in
            (seq, r1\<lparr>rx_lanes := lanes_get_mut debit (\<lambda>_. lane) (rx_lanes r1)\<rparr>))
      else (UNORDERED, bump (mt_order_exempt_update Suc) r1))"

definition prepare :: "Request \<Rightarrow> LinkedChainId option \<Rightarrow> Reactor \<Rightarrow> (SlotId result \<times> Reactor) option" where
  "prepare request chain r =
     do {
       (checked, r1) \<leftarrow> prepare_checks request r;
       case checked of
         Inl e \<Rightarrow> Some (Inl e, r1)
       | Inr (kind, debit, credit, ordered, needs_pending_reply) \<Rightarrow>
           (case pipeline_alloc (rx_pipeline r1) of
              (None, pl) \<Rightarrow>
                Some (Inl Overloaded, bump (mt_slot_exhaustion_update Suc) (r1\<lparr>rx_pipeline := pl\<rparr>))
            | (Some slot, pl) \<Rightarrow>
                let r2 = r1\<lparr>rx_pipeline := pl\<rparr>;
                    deps0 = (if needs_pending_reply then dep_with DEP_IDEM DEP_PENDING else DEP_IDEM);
                    gate = (case gate_for (rx_linked r2) debit of
                              Some g \<Rightarrow> if Some g \<noteq> chain then Some g else None
                            | None \<Rightarrow> None);
                    deps = (if gate \<noteq> None then dep_with deps0 DEP_LINKED_CHAIN else deps0);
                    (seq, r3) = place_in_lane debit ordered r2;
                    item = \<lparr>wi_tx = rq_tx request, wi_digest = tr_digest (rq_tx request), wi_seq = seq,
                            wi_lane = tr_lane (rq_tx request), wi_kind = kind, wi_debit = debit,
                            wi_credit = credit, wi_chain = (case chain of None \<Rightarrow> 0 | Some c \<Rightarrow> c),
                            wi_deps = deps, wi_sent = DEP_NONE, wi_verdict = None,
                            wi_submitted_at_nanos = rq_submitted_at_nanos request\<rparr> in
                do {
                  pl2 \<leftarrow> pipeline_item_mut slot (\<lambda>_. item) (rx_pipeline r3);
                  let r4 = r3\<lparr>rx_pipeline := pl2\<rparr>;
                  Some (Inr slot,
                        case gate of
                          None \<Rightarrow> r4
                        | Some g \<Rightarrow> bump (mt_lane_gated_update Suc)
                                      (r4\<lparr>rx_linked := wait_behind g slot (rx_linked r4)\<rparr>))
                })
     }"

definition admit_request :: "Request \<Rightarrow> Reactor \<Rightarrow> Reactor option" where
  "admit_request request r =
     (if is_ledger_origin (tr_id (rq_tx request)) then Some (reject_before_seq request ReservedTransactionId r)
      else
        let (chain_id, lk) = linked_admit (flags_contains (tr_flags (rq_tx request)) TF_LINKED) (rx_linked r) in
        do {
          (prepared, r1) \<leftarrow> prepare request chain_id (r\<lparr>rx_linked := lk\<rparr>);
          case prepared of
            Inr slot \<Rightarrow> do {
              r2 \<leftarrow> (case chain_id of
                       None \<Rightarrow> Some r1
                     | Some i \<Rightarrow> do {
                         item \<leftarrow> pipeline_item slot (rx_pipeline r1);
                         Some (r1\<lparr>rx_linked := linked_add_leg i (wi_debit item) slot (rx_linked r1)\<rparr>)
                       });
              dispatch_or_defer slot r2
            }
          | Inl err \<Rightarrow>
              let r2 = reject_before_seq request err r1 in
              case chain_id of
                None \<Rightarrow> Some r2
              | Some i \<Rightarrow>
                  let (ready, lk2) = settle_if_complete i (linked_fail i err (rx_linked r2));
                      r3 = r2\<lparr>rx_linked := lk2\<rparr> in
                  (case ready of None \<Rightarrow> Some r3 | Some chain \<Rightarrow> judge_chain chain r3)
        })"

definition admit_expiry :: "Transfer \<Rightarrow> Reactor \<Rightarrow> Reactor option" where
  "admit_expiry void r =
     do {
       (prepared, r1) \<leftarrow> prepare (request_single void (rx_now r)) None r;
       case prepared of
         Inr slot \<Rightarrow> dispatch_or_defer slot r1
       | Inl _ \<Rightarrow>
           let r2 = bump (mt_expiry_refused_update Suc) r1 in
           Some (r2\<lparr>rx_pending := decline_expiry (tr_pending_ref void) (rx_pending r2)\<rparr>)
     }"

fun admit_parked :: "nat \<Rightarrow> Reactor \<Rightarrow> (bool \<times> Reactor) option" where
  "admit_parked 0 r = Some (False, r)"
| "admit_parked (Suc n) r =
     (if has_deferred (rx_pipeline r) then Some (False, r)
      else case expiry_take (rx_expiry r) of
        (None, q) \<Rightarrow> Some (False, r\<lparr>rx_expiry := q\<rparr>)
      | (Some void, q) \<Rightarrow> do {
          r1 \<leftarrow> admit_expiry void (r\<lparr>rx_expiry := q\<rparr>);
          (_, r2) \<leftarrow> admit_parked n r1;
          Some (True, r2)
        })"

definition admit_parked_expiry :: "Reactor \<Rightarrow> (bool \<times> Reactor) option" where
  "admit_parked_expiry r = admit_parked (cp_expiry_per_tick (cfg_capacity (rx_config r))) r"

definition track_intake_pause :: "PauseCause \<Rightarrow> Reactor \<Rightarrow> Reactor" where
  "track_intake_pause cause r =
     (let paused = cause_is_paused cause in
      if paused = rx_intake_paused r then r
      else
        let r1 = r\<lparr>rx_intake_paused := paused, rx_pressure := pressure_publish cause (rx_pressure r)\<rparr> in
        if paused
        then rx_record LK_INTAKE_PAUSED (outbox_depth (rx_outbox r1)) (pchan_depth (rx_pending r1))
               (bump (mt_intake_pauses_update Suc) r1)
        else rx_record LK_INTAKE_RESUMED 0 0 r1)"

definition pause_cause :: "Reactor \<Rightarrow> PauseCause" where
  "pause_cause r =
     (if has_deferred (rx_pipeline r) then ComponentQueue
      else if pchan_is_saturated (rx_pending r) then PendingEngine
      else if batcher_is_saturated (rx_batcher r) then Consensus
      else if outbox_is_saturated (rx_outbox r) then AcksUnread
      else PauseNone)"

fun intake_loop :: "nat \<Rightarrow> Reactor \<Rightarrow> (bool \<times> Reactor) option" where
  "intake_loop 0 r = Some (False, r)"
| "intake_loop (Suc n) r =
     (case next_request (rx_pipeline r) of
        (None, pl) \<Rightarrow> Some (False, r\<lparr>rx_pipeline := pl\<rparr>)
      | (Some request, pl) \<Rightarrow> do {
          r1 \<leftarrow> admit_request request (bump (mt_admitted_update Suc) (r\<lparr>rx_pipeline := pl\<rparr>));
          r2 \<leftarrow> (if rq_end_of_batch request
                 then (let (ready, lk) = close_batch (rx_linked r1); r1' = r1\<lparr>rx_linked := lk\<rparr> in
                       case ready of None \<Rightarrow> Some r1' | Some chain \<Rightarrow> judge_chain chain r1')
                 else Some r1);
          if has_deferred (rx_pipeline r2) then Some (True, r2)
          else do { (_, r3) \<leftarrow> intake_loop n r2; Some (True, r3) }
        })"

definition intake :: "Reactor \<Rightarrow> (bool \<times> Reactor) option" where
  "intake r =
     (if rx_intake_closed r then Some (False, r)
      else
        let cause = pause_cause r; r1 = track_intake_pause cause r in
        if cause_is_paused cause then Some (False, r1)
        else do {
          (progress, r2) \<leftarrow> intake_loop (cp_intake_per_tick (cfg_capacity (rx_config r1))) r1;
          (parked, r3) \<leftarrow> admit_parked_expiry r2;
          Some (progress \<or> parked, r3)
        })"

section \<open>What intake keeps\<close>

locale dispatch_keeps = replies_inv +
  assumes expect_law: "P r \<Longrightarrow> pipeline_expect_applies slot n (rx_pipeline r) = Some pl \<Longrightarrow> P (r\<lparr>rx_pipeline := pl\<rparr>)"
    and lookup_law: "P r \<Longrightarrow> P (r\<lparr>rx_pending := snd (pchan_lookup lkp (rx_pending r))\<rparr>)"
    and fence_law: "P r \<Longrightarrow> P (r\<lparr>rx_pending := snd (pchan_fence fnc (rx_pending r))\<rparr>)"
begin

lemma rx_pending_send_inv:
  assumes "P r" "rx_pending_send cmd r = (ok, r')" "(\<exists>l. cmd = Lookup l) \<or> (\<exists>f. cmd = Fence f)"
  shows "P r'"
proof -
  have "r' = r\<lparr>rx_pending := snd (pchan_send cmd (rx_pending r))\<rparr>"
    using assms(2) by (auto simp: rx_pending_send_def split: prod.splits)
  then show ?thesis
    using assms(3) lookup_law [OF assms(1)] fence_law [OF assms(1)] by (auto simp: pchan_lookup_def pchan_fence_def)
qed

lemma take_lookup_step_inv:
  assumes "P r" "take_lookup_step slot item r = Some (ok, r')"
  shows "P r'"
proof -
  let ?cmd = "Lookup \<lparr>pl_correlation = slot, pl_tx_id = tr_id (wi_tx item), pl_lane = wi_lane item,
                     pl_seq = wi_seq item, pl_pending_ref = tr_pending_ref (wi_tx item)\<rparr>"
  obtain sent r1 where s: "rx_pending_send ?cmd r = (sent, r1)" by force
  have r1: "P r1" by (rule rx_pending_send_inv [OF assms(1) s]) blast
  show ?thesis
  proof (cases sent)
    case False
    then show ?thesis using assms(2) s r1 by (simp add: take_lookup_step_def)
  next
    case True
    let ?r2 = "with_overlay (ov_begin_lookup (tr_pending_ref (wi_tx item))) r1"
    obtain pl where pl: "pipeline_expect_applies slot (pc_applies_sent (rx_pending ?r2)) (rx_pipeline ?r2) = Some pl"
      using assms(2) s True by (auto simp: take_lookup_step_def Let_def panic_simps)
    have "P ?r2" by (rule overlay_law [OF r1]) simp
    then have r3: "P (?r2\<lparr>rx_pipeline := pl\<rparr>)" by (rule expect_law [OF _ pl])
    show ?thesis
      using assms(2) s True pl r3 lanes_law [OF r3]
      by (auto simp: take_lookup_step_def Let_def intro!: metrics_law)
  qed
qed

lemma take_fence_step_inv: "P r \<Longrightarrow> take_fence_step slot item r = (ok, r') \<Longrightarrow> P r'"
  by (auto simp: take_fence_step_def intro!: metrics_law lanes_law
      dest!: rx_pending_send_inv [rotated 1] split: prod.splits bool.splits)

lemma take_pending_step_inv:
  assumes "P r" "take_pending_step slot item r = Some (ok, r')"
  shows "P r'"
proof -
  obtain lane where l: "lanes_get (rx_lanes r) (wi_debit item) = Some lane"
    using assms(2) by (auto simp: take_pending_step_def Let_def panic_simps)
  show ?thesis
    using assms l
    by (cases "pending_step_of (needs_pending_lookup (wi_kind item)
          \<and> \<not> pchan_hold_is_missing (rx_pending r) (tr_pending_ref (wi_tx item))) (awaits_pending_reply lane)")
       (auto simp: take_pending_step_def Let_def panic_simps
         intro: take_lookup_step_inv take_fence_step_inv item_law)
qed

lemma set_sent_inv: "P r \<Longrightarrow> set_sent slot sent r = Some r' \<Longrightarrow> P r'"
  by (auto simp: set_sent_def panic_simps intro: item_law)

lemma dispatch_idem_inv: "P r \<Longrightarrow> dispatch_idem slot item r = (ok, sent, r') \<Longrightarrow> P r'"
  by (auto simp: dispatch_idem_def send_idem_def Let_def intro: idem_law split: if_splits prod.splits)

lemma dispatch_pending_inv:
  "P r \<Longrightarrow> dispatch_pending slot item sent r = Some (ok, sent', r') \<Longrightarrow> P r'"
  by (auto simp: dispatch_pending_def panic_simps
      intro!: overlay_law intro: take_pending_step_inv split: if_splits prod.splits)

lemma dispatch_inv:
  assumes "P r" "dispatch slot r = Some (ok, r')"
  shows "P r'"
proof -
  obtain item where i: "pipeline_item slot (rx_pipeline r) = Some item"
    using assms(2) by (auto simp: dispatch_def panic_simps)
  obtain ok1 s1 r1 where d1: "dispatch_idem slot item r = (ok1, s1, r1)" by (cases "dispatch_idem slot item r") auto
  have r1: "P r1" by (rule dispatch_idem_inv [OF assms(1) d1])
  show ?thesis
  proof (cases ok1)
    case False
    then show ?thesis using assms(2) i d1 by (auto simp: dispatch_def panic_simps intro: set_sent_inv [OF r1])
  next
    case True
    then obtain ok2 s2 r2 r3 where d2: "dispatch_pending slot item s1 r1 = Some (ok2, s2, r2)"
      and r3: "set_sent slot s2 r2 = Some r3"
      using assms(2) i d1 by (auto simp: dispatch_def panic_simps)
    have "P r3" by (rule set_sent_inv [OF dispatch_pending_inv [OF r1 d2] r3])
    then show ?thesis
      using assms(2) i d1 True d2 r3
      by (auto simp: dispatch_def panic_simps intro: on_ready_inv split: if_splits)
  qed
qed

end

text \<open>Admission beside dispatch: the slot taken, the request read, the expiry refused and the pause.\<close>

locale intake_inv = dispatch_keeps +
  assumes alloc_law: "P r \<Longrightarrow> P (r\<lparr>rx_pipeline := snd (pipeline_alloc (rx_pipeline r))\<rparr>)"
    and defer_law: "P r \<Longrightarrow> P (r\<lparr>rx_pipeline := pipeline_defer slot (rx_pipeline r)\<rparr>)"
    and request_law: "P r \<Longrightarrow> P (r\<lparr>rx_pipeline := snd (next_request (rx_pipeline r))\<rparr>)"
    and decline_law: "P r \<Longrightarrow> P (r\<lparr>rx_pending := decline_expiry hold (rx_pending r)\<rparr>)"
    and expiry_law: "P r \<Longrightarrow> P (r\<lparr>rx_expiry := q\<rparr>)"
    and pause_law: "P r \<Longrightarrow> P (r\<lparr>rx_intake_paused := b, rx_pressure := cell\<rparr>)"
begin

lemma dispatch_or_defer_inv:
  assumes "P r" "dispatch_or_defer slot r = Some r'"
  shows "P r'"
proof -
  obtain ok r1 where d: "dispatch slot r = Some (ok, r1)"
    using assms(2) by (auto simp: dispatch_or_defer_def panic_simps)
  have "P r1" by (rule dispatch_inv [OF assms(1) d])
  then show ?thesis
    using assms(2) d by (auto simp: dispatch_or_defer_def intro!: metrics_law defer_law split: if_splits)
qed

lemma prepare_checks_inv:
  assumes "P r" "prepare_checks rq r = Some (x, r')"
  shows "P r'"
proof -
  have "r' = r \<or> (\<exists>l. r' = r\<lparr>rx_lanes := l\<rparr>)"
    using assms(2)
    by (auto simp: prepare_checks_def Let_def panic_simps split: if_splits sum.splits option.splits)
  then show ?thesis using assms(1) lanes_law by blast
qed

lemma place_in_lane_inv:
  assumes "P r" "place_in_lane d ordered r = (q, r')"
  shows "P r'"
proof -
  let ?r1 = "r\<lparr>rx_lanes := lanes_get_mut d lane_entered (rx_lanes r)\<rparr>"
  have r1: "P ?r1" by (rule lanes_law [OF assms(1)])
  have "P (?r1\<lparr>rx_lanes := l\<rparr>)" for l by (rule lanes_law [OF r1])
  then show ?thesis
    using assms(2) r1 by (auto simp: place_in_lane_def Let_def issue_seq_def intro!: metrics_law split: if_splits)
qed

lemma prepare_inv:
  assumes "P r" "prepare rq chain r = Some (x, r')"
  shows "P r'"
proof -
  obtain checked r1 where c: "prepare_checks rq r = Some (checked, r1)"
    using assms(2) by (auto simp: prepare_def panic_simps)
  have r1: "P r1" by (rule prepare_checks_inv [OF assms(1) c])
  show ?thesis
  proof (cases checked)
    case (Inl e)
    then show ?thesis using assms(2) c r1 by (simp add: prepare_def)
  next
    case (Inr t)
    obtain kind debit credit ordered reply where t: "t = (kind, debit, credit, ordered, reply)" by (cases t)
    obtain s pl where a: "pipeline_alloc (rx_pipeline r1) = (s, pl)" by force
    have r2: "P (r1\<lparr>rx_pipeline := pl\<rparr>)" using alloc_law [OF r1] a by simp
    show ?thesis
    proof (cases s)
      case None
      then show ?thesis using assms(2) c Inr t a r2 by (auto simp: prepare_def intro!: metrics_law)
    next
      case (Some slot)
      obtain q r3 where pl3: "place_in_lane debit ordered (r1\<lparr>rx_pipeline := pl\<rparr>) = (q, r3)" by force
      have r3: "P r3" by (rule place_in_lane_inv [OF r2 pl3])
      obtain item pl2 gate where pl2: "pipeline_item_mut slot (\<lambda>_. item) (rx_pipeline r3) = Some pl2"
        and r': "r' = (case gate of None \<Rightarrow> r3\<lparr>rx_pipeline := pl2\<rparr>
            | Some g \<Rightarrow> bump (mt_lane_gated_update Suc) (r3\<lparr>rx_pipeline := pl2, rx_linked := wait_behind g slot (rx_linked (r3\<lparr>rx_pipeline := pl2\<rparr>))\<rparr>))"
        using assms(2) c Inr t a Some pl3 by (auto simp: prepare_def Let_def panic_simps)
      have r4: "P (r3\<lparr>rx_pipeline := pl2\<rparr>)" by (rule item_law [OF r3 pl2])
      show ?thesis
        unfolding r' by (cases gate) (use r4 linked_law [OF r4] in \<open>auto intro!: metrics_law\<close>)
    qed
  qed
qed

lemma admit_request_inv:
  assumes "P r" "admit_request rq r = Some r'"
  shows "P r'"
proof (cases "is_ledger_origin (tr_id (rq_tx rq))")
  case True
  then show ?thesis using assms reject_before_seq_inv by (auto simp: admit_request_def)
next
  case False
  obtain chain lk where a: "linked_admit (flags_contains (tr_flags (rq_tx rq)) TF_LINKED) (rx_linked r) = (chain, lk)"
    by force
  obtain prepared r1 where p: "prepare rq chain (r\<lparr>rx_linked := lk\<rparr>) = Some (prepared, r1)"
    using assms(2) False a by (auto simp: admit_request_def panic_simps)
  have r1: "P r1" by (rule prepare_inv [OF linked_law [OF assms(1)] p])
  show ?thesis
  proof (cases prepared)
    case (Inr slot)
    then obtain r2 where r2: "dispatch_or_defer slot r2 = Some r'" "r2 = r1 \<or> (\<exists>l. r2 = r1\<lparr>rx_linked := l\<rparr>)"
      using assms(2) False a p
      by (cases chain) (auto simp: admit_request_def panic_simps)
    have "P r2" using r2(2) r1 linked_law by blast
    then show ?thesis by (rule dispatch_or_defer_inv [OF _ r2(1)])
  next
    case (Inl err)
    let ?r2 = "reject_before_seq rq err r1"
    have r2: "P ?r2" by (rule reject_before_seq_inv [OF r1])
    show ?thesis
    proof (cases chain)
      case None
      then show ?thesis using assms(2) False a p Inl r2 by (simp add: admit_request_def)
    next
      case (Some i)
      obtain ready lk2 where s: "settle_if_complete i (linked_fail i err (rx_linked ?r2)) = (ready, lk2)" by force
      have r3: "P (?r2\<lparr>rx_linked := lk2\<rparr>)" by (rule linked_law [OF r2])
      show ?thesis
        using assms(2) False a p Inl Some s r3
        by (cases ready) (auto simp: admit_request_def Let_def intro: judge_chain_inv [OF r3])
    qed
  qed
qed

lemma admit_expiry_inv:
  assumes "P r" "admit_expiry void r = Some r'"
  shows "P r'"
proof -
  obtain prepared r1 where p: "prepare (request_single void (rx_now r)) None r = Some (prepared, r1)"
    using assms(2) by (auto simp: admit_expiry_def panic_simps)
  have r1: "P r1" by (rule prepare_inv [OF assms(1) p])
  have "P (bump (mt_expiry_refused_update Suc) r1)" by (rule metrics_law [OF r1]) auto
  from decline_law [OF this] show ?thesis
    using assms(2) p by (cases prepared) (auto simp: admit_expiry_def Let_def intro: dispatch_or_defer_inv [OF r1])
qed

lemma admit_parked_inv: "P r \<Longrightarrow> admit_parked n r = Some (b, r') \<Longrightarrow> P r'"
proof (induction n arbitrary: r b)
  case (Suc n)
  obtain v q where e: "expiry_take (rx_expiry r) = (v, q)" by force
  have q: "P (r\<lparr>rx_expiry := q\<rparr>)" by (rule expiry_law [OF Suc.prems(1)])
  show ?case
  proof (cases v)
    case None
    then show ?thesis using Suc.prems e q by (auto split: if_splits)
  next
    case (Some void)
    show ?thesis
    proof (cases "has_deferred (rx_pipeline r)")
      case True
      then show ?thesis using Suc.prems by simp
    next
      case False
      then obtain r1 b2 where "admit_expiry void (r\<lparr>rx_expiry := q\<rparr>) = Some r1" "admit_parked n r1 = Some (b2, r')"
        using Suc.prems e Some by (auto simp: panic_simps)
      then show ?thesis using Suc.IH admit_expiry_inv [OF q] by blast
    qed
  qed
qed simp

lemma track_intake_pause_inv:
  assumes "P r"
  shows "P (track_intake_pause cause r)"
proof -
  have "P (r\<lparr>rx_intake_paused := b, rx_pressure := c\<rparr>)" for b c by (rule pause_law [OF assms])
  then show ?thesis
    using assms by (auto simp: track_intake_pause_def Let_def intro!: log_law metrics_law)
qed

lemma intake_loop_inv: "P r \<Longrightarrow> intake_loop n r = Some (b, r') \<Longrightarrow> P r'"
proof (induction n arbitrary: r b)
  case (Suc n)
  obtain rq pl where q: "next_request (rx_pipeline r) = (rq, pl)" by force
  have pl: "P (r\<lparr>rx_pipeline := pl\<rparr>)" using request_law [OF Suc.prems(1)] q by simp
  show ?case
  proof (cases rq)
    case None
    then show ?thesis using Suc.prems q pl by auto
  next
    case (Some request)
    have m: "P (bump (mt_admitted_update Suc) (r\<lparr>rx_pipeline := pl\<rparr>))" by (rule metrics_law [OF pl]) auto
    obtain r1 where r1: "admit_request request (bump (mt_admitted_update Suc) (r\<lparr>rx_pipeline := pl\<rparr>)) = Some r1"
      using Suc.prems(2) q Some by (auto simp: panic_simps)
    have p1: "P r1" by (rule admit_request_inv [OF m r1])
    obtain ready lk where cb: "close_batch (rx_linked r1) = (ready, lk)" by force
    have lk: "P (r1\<lparr>rx_linked := lk\<rparr>)" by (rule linked_law [OF p1])
    obtain r2 where r2: "(if rq_end_of_batch request
                 then (case ready of None \<Rightarrow> Some (r1\<lparr>rx_linked := lk\<rparr>) | Some chain \<Rightarrow> judge_chain chain (r1\<lparr>rx_linked := lk\<rparr>))
                 else Some r1) = Some r2"
      and rest: "if has_deferred (rx_pipeline r2) then r' = r2 else \<exists>b2. intake_loop n r2 = Some (b2, r')"
      using Suc.prems(2) q Some r1 cb by (auto simp: panic_simps Let_def split: if_splits)
    have "P r2" using r2 p1 lk by (auto intro: judge_chain_inv [OF lk] split: if_splits option.splits)
    then show ?thesis using rest Suc.IH by (auto split: if_splits)
  qed
qed simp

lemma intake_inv:
  assumes "P r" "intake r = Some (b, r')"
  shows "P r'"
proof -
  have r1: "P (track_intake_pause (pause_cause r) r)" by (rule track_intake_pause_inv [OF assms(1)])
  show ?thesis
    using assms r1
    by (auto simp: intake_def Let_def panic_simps admit_parked_expiry_def
        intro: admit_parked_inv intake_loop_inv [OF r1] split: if_splits)
qed

end

section \<open>Decisions ahead of questions\<close>

text \<open>The commands the engine has still to take.\<close>

definition commands_of :: "Reactor \<Rightarrow> PendingCommand list" where
  "commands_of r = ch_items (mp_commands (pc_port (rx_pending r)))"

definition same_commands :: "Reactor \<Rightarrow> Reactor \<Rightarrow> bool" where
  "same_commands r r' \<longleftrightarrow> commands_of r' = commands_of r \<and> pc_writes (rx_pending r') = pc_writes (rx_pending r)"

interpretation unasked: replies_inv "same_commands r" for r
  by unfold_locales
     (auto simp: same_commands_def commands_of_def rx_record_def bump_def with_overlay_def pchan_with_overlay_def
       pending_with_overlay_def push_judged_def pchan_poll_def pending_poll_def split: prod.splits)

lemma same_commands_refl [simp]: "same_commands r r" by (simp add: same_commands_def)

lemma same_commands_trans: "same_commands r s \<Longrightarrow> same_commands s t \<Longrightarrow> same_commands r t"
  by (simp add: same_commands_def)

lemma same_commands_stream: "same_commands r r' \<Longrightarrow> apply_stream (rx_pending r') = apply_stream (rx_pending r)"
  by (simp add: same_commands_def commands_of_def apply_stream_def)

text \<open>The questions a request can put to the engine.\<close>

definition asks :: "SlotId \<Rightarrow> PendingCommand \<Rightarrow> bool" where
  "asks slot q \<longleftrightarrow> (\<exists>l. q = Lookup l \<and> pl_correlation l = slot) \<or> (\<exists>f. q = Fence f \<and> pf_correlation f = slot)"

definition asked_last :: "SlotId \<Rightarrow> Reactor \<Rightarrow> Reactor \<Rightarrow> bool" where
  "asked_last slot r r' \<longleftrightarrow> pc_writes (rx_pending r') = pc_writes (rx_pending r)
     \<and> (\<exists>q. asks slot q \<and> commands_of r' = commands_of r @ [q])"

lemma rx_pending_send_asks:
  assumes "rx_pending_send q r = (ok, r')" "asks slot q"
  shows "if ok then asked_last slot r r' else same_commands r r'"
proof -
  obtain c where "pchan_send q (rx_pending r) = (ok, c)" "r' = r\<lparr>rx_pending := c\<rparr>"
    using assms(1) by (auto simp: rx_pending_send_def split: prod.splits)
  then show ?thesis
    using pchan_send_cases [of q "rx_pending r" ok c] assms(2) by (auto simp: asked_last_def same_commands_def commands_of_def)
qed

lemma asked_last_same: "asked_last slot r s \<Longrightarrow> same_commands s t \<Longrightarrow> asked_last slot r t"
  by (auto simp: asked_last_def same_commands_def)

lemma take_pending_step_asks:
  assumes "take_pending_step slot item r = Some (ok, r')"
  shows "same_commands r r' \<or> asked_last slot r r'"
proof -
  obtain lane where l: "lanes_get (rx_lanes r) (wi_debit item) = Some lane"
    using assms by (auto simp: take_pending_step_def Let_def panic_simps)
  let ?step = "pending_step_of (needs_pending_lookup (wi_kind item)
      \<and> \<not> pchan_hold_is_missing (rx_pending r) (tr_pending_ref (wi_tx item))) (awaits_pending_reply lane)"
  show ?thesis
  proof (cases ?step)
    case StepLookup
    let ?q = "Lookup \<lparr>pl_correlation = slot, pl_tx_id = tr_id (wi_tx item), pl_lane = wi_lane item,
                     pl_seq = wi_seq item, pl_pending_ref = tr_pending_ref (wi_tx item)\<rparr>"
    obtain sent r1 where s: "rx_pending_send ?q r = (sent, r1)" by force
    have "if sent then asked_last slot r r1 else same_commands r r1"
      by (rule rx_pending_send_asks [OF s]) (simp add: asks_def)
    moreover have "same_commands r1 r'"
      using assms l StepLookup s
      by (cases sent) (auto simp: take_pending_step_def take_lookup_step_def Let_def panic_simps same_commands_def commands_of_def
          bump_def with_overlay_def pchan_with_overlay_def pending_with_overlay_def)
    ultimately show ?thesis using same_commands_trans asked_last_same by (auto split: if_splits)
  next
    case StepFence
    let ?q = "Fence \<lparr>pf_correlation = slot, pf_lane = wi_lane item, pf_seq = wi_seq item\<rparr>"
    obtain sent r1 where s: "rx_pending_send ?q r = (sent, r1)" by force
    have "if sent then asked_last slot r r1 else same_commands r r1"
      by (rule rx_pending_send_asks [OF s]) (simp add: asks_def)
    moreover have "same_commands r1 r'"
      using assms l StepFence s
      by (cases sent) (auto simp: take_pending_step_def take_fence_step_def Let_def panic_simps same_commands_def commands_of_def
          bump_def)
    ultimately show ?thesis using same_commands_trans asked_last_same by (auto split: if_splits)
  next
    case StepInline
    then show ?thesis using assms l
      by (auto simp: take_pending_step_def Let_def panic_simps same_commands_def commands_of_def)
  qed
qed

lemma dispatch_pending_asks:
  assumes "dispatch_pending slot item sent r = Some (ok, sent', r')"
  shows "same_commands r r' \<or> asked_last slot r r' \<and> \<not> blocks_lookups (rx_pending r)"
proof (cases "dep_contains (wi_deps item) DEP_PENDING \<and> \<not> dep_contains sent DEP_PENDING \<and> \<not> blocks_lookups (rx_pending r)")
  case False
  then show ?thesis using assms by (auto simp: dispatch_pending_def split: if_splits)
next
  case True
  then obtain ok1 r1 where t: "take_pending_step slot item r = Some (ok1, r1)"
    using assms by (auto simp: dispatch_pending_def panic_simps split: if_splits)
  then have "same_commands r1 r'"
    using assms True by (auto simp: dispatch_pending_def intro: unasked.overlay_law split: if_splits)
  then show ?thesis
    using take_pending_step_asks [OF t] True same_commands_trans asked_last_same by blast
qed

lemma dispatch_asks:
  assumes "dispatch slot r = Some (ok, r')"
  shows "same_commands r r' \<or> asked_last slot r r' \<and> \<not> blocks_lookups (rx_pending r)"
proof -
  obtain item where i: "pipeline_item slot (rx_pipeline r) = Some item"
    using assms by (auto simp: dispatch_def panic_simps)
  obtain ok1 s1 r1 where d1: "dispatch_idem slot item r = (ok1, s1, r1)" by (cases "dispatch_idem slot item r") auto
  then have keep: "rx_pending r1 = rx_pending r"
    by (auto simp: dispatch_idem_def send_idem_def Let_def split: if_splits prod.splits)
  then have r1: "same_commands r r1" by (simp add: same_commands_def commands_of_def)
  have sent: "same_commands s s'" if "set_sent slot b s = Some s'" for s s' b
    using that by (auto simp: set_sent_def panic_simps same_commands_def commands_of_def)
  show ?thesis
  proof (cases ok1)
    case False
    then show ?thesis using assms i d1 sent same_commands_trans [OF r1] by (auto simp: dispatch_def panic_simps)
  next
    case True
    then obtain ok2 s2 r2 r3 where d2: "dispatch_pending slot item s1 r1 = Some (ok2, s2, r2)"
      and r3: "set_sent slot s2 r2 = Some r3"
      using assms i d1 by (auto simp: dispatch_def panic_simps)
    have "r' = r3 \<or> on_ready slot r3 = Some r'"
      using assms i d1 True d2 r3 by (auto simp: dispatch_def panic_simps split: if_splits)
    then have "same_commands r3 r'" by (auto intro: unasked.on_ready_inv [of r3 r3])
    then have "same_commands r2 r'" using sent [OF r3] same_commands_trans by blast
    moreover have "same_commands r1 r2 \<or> asked_last slot r1 r2 \<and> \<not> blocks_lookups (rx_pending r)"
      using dispatch_pending_asks [OF d2] keep by simp
    moreover have "asked_last slot r t" if "asked_last slot r1 t" for t
      using that keep by (simp add: asked_last_def commands_of_def)
    ultimately show ?thesis using r1 same_commands_trans asked_last_same by blast
  qed
qed

text \<open>C34: every committed decision reaches the engine once, in commit order, and ahead of every later question. A write
  goes last in the stream of decisions the engine has still to take, whether its queue has room or not, and a flush hands
  over without changing that stream. Sending a request's questions, with everything the sending makes ready and judges,
  leaves that stream alone and puts at most one command in the engine's queue, a lookup or a fence for that request, at
  its end; and it does so only when no decision is held back, so that all that was decided before is in the queue ahead
  of it. The count of decisions handed over, which the engine's answers are checked against, stays the count of applies
  the port has really sent.\<close>

theorem decisions_reach_engine_in_commit_order:
  assumes "dispatch slot r = Some (ok, r')"
  shows "apply_stream (rx_pending r') = apply_stream (rx_pending r)
   \<and> (commands_of r' = commands_of r
      \<or> (\<exists>q. asks slot q \<and> commands_of r' = commands_of r @ [q] \<and> apply_stream (rx_pending r) = applies_of (commands_of r)))
   \<and> apply_stream (pchan_write e at c) = apply_stream c @ [(e, at)]
   \<and> apply_stream (snd (pchan_flush c)) = apply_stream c
   \<and> (pc_applies_sent c = mp_applies_sent (pc_port c) \<longrightarrow>
        pc_applies_sent (pchan_write e at c) = mp_applies_sent (pc_port (pchan_write e at c))
        \<and> pc_applies_sent (snd (pchan_flush c)) = mp_applies_sent (pc_port (snd (pchan_flush c))))"
proof -
  have "apply_stream (rx_pending r') = apply_stream (rx_pending r)
   \<and> (commands_of r' = commands_of r
      \<or> (\<exists>q. asks slot q \<and> commands_of r' = commands_of r @ [q] \<and> apply_stream (rx_pending r) = applies_of (commands_of r)))"
    using dispatch_asks [OF assms]
  proof (elim disjE conjE)
    assume same: "same_commands r r'"
    then have "commands_of r' = commands_of r" by (simp add: same_commands_def)
    with same_commands_stream [OF same] show ?thesis by blast
  next
    assume a: "asked_last slot r r'" "\<not> blocks_lookups (rx_pending r)"
    then obtain q where q: "asks slot q" "commands_of r' = commands_of r @ [q]" by (auto simp: asked_last_def)
    have "applies_of [q] = []" using q(1) by (auto simp: asks_def)
    then show ?thesis using a q by (auto simp: asked_last_def apply_stream_def commands_of_def blocks_lookups_def)
  qed
  then show ?thesis using pchan_write_stream pchan_flush_stream by blast
qed

text \<open>A request to settle hold 9, behind the removal of hold 8 that was committed before it.\<close>

definition sample_resolving :: Reactor where
  "sample_resolving = (sample_node [])
     \<lparr>rx_lanes := [lane_default, lane_default], rx_pending := pchan_write (Remove 8 0 40) 1 (rx_pending (sample_node [])),
      rx_pipeline := (rx_pipeline (sample_node []))\<lparr>pp_slots := (pp_slots (rx_pipeline (sample_node [])))
        \<lparr>po_items := [work_item_default\<lparr>wi_tx := sample_transfer\<lparr>tr_pending_ref := 9\<rparr>, wi_kind := TransferKind.Settle,
           wi_debit := 1, wi_deps := DEP_PENDING\<rparr>], po_records := [answer_default], po_free := []\<rparr>\<rparr>\<rparr>"

lemma sample_question:
  "map_option (\<lambda>(ok, r). (ok, length (commands_of r), applies_of (commands_of r))) (dispatch 0 sample_resolving)
     = Some (True, 2, [(Remove 8 0 40, 1)])"
  by code_simp

theorem decisions_reach_engine_in_commit_order_witness:
  "\<exists>r' q. dispatch 0 sample_resolving = Some (True, r') \<and> asks 0 q
     \<and> commands_of r' = commands_of sample_resolving @ [q] \<and> applies_of (commands_of sample_resolving) = [(Remove 8 0 40, 1)]"
proof -
  obtain r' where r': "dispatch 0 sample_resolving = Some (True, r')" "length (commands_of r') = 2"
      "applies_of (commands_of r') = [(Remove 8 0 40, 1)]"
    using sample_question by auto
  have before: "length (commands_of sample_resolving) = 1" "applies_of (commands_of sample_resolving) = [(Remove 8 0 40, 1)]"
    by code_simp+
  then show ?thesis
    using decisions_reach_engine_in_commit_order [OF r'(1)] r'(1,2) by (metis n_not_Suc_n one_add_one plus_1_eq_Suc)
qed

end
