(* ===== verification/Commit.thy ===== *)
theory Commit
  imports Intake
begin

text \<open>
  S4 and S5 (\<open>sequencer/src/reactor/apply.rs\<close>): a due batch is handed to consensus without waiting, and
  what consensus answers is applied in commit order, or rolled back. An answer that cannot be paired with
  its batch, and a committed effect that cannot be applied, seal the apply path.
\<close>

section \<open>Propose\<close>

definition raft_propose :: "RaftProposal \<Rightarrow> RaftPort \<Rightarrow> bool \<times> RaftPort" where
  "raft_propose proposal p =
     (let (ok, c) = chan_push proposal (rft_proposals p) in (ok, p\<lparr>rft_proposals := c\<rparr>))"

definition raft_poll :: "RaftPort \<Rightarrow> RaftCommit option \<times> RaftPort" where
  "raft_poll p = (let (c, q) = chan_pop (rft_commits p) in (c, p\<lparr>rft_commits := q\<rparr>))"

definition propose :: "Reactor \<Rightarrow> bool \<times> Reactor" where
  "propose r =
     (case take_proposal (rx_now r) (rx_batcher r) of
        (None, b) \<Rightarrow> (False, r\<lparr>rx_batcher := b\<rparr>)
      | (Some (proposal, slots), b) \<Rightarrow>
          (case raft_propose proposal (rx_raft r) of
             (True, p) \<Rightarrow>
               (True, bump (mt_proposed_batches_update Suc)
                  (r\<lparr>rx_raft := p, rx_batcher := on_proposed (rp_batch_id proposal) slots (rx_now r) b\<rparr>))
           | (False, p) \<Rightarrow>
               (False, bump (mt_propose_deferred_update Suc)
                  (r\<lparr>rx_raft := p, rx_batcher := batcher_restore (rp_effects proposal) slots b\<rparr>))))"

section \<open>Sealing\<close>

text \<open>The step every seal is: the flag, and one log event the first time.\<close>

definition rx_seal :: "u16 \<Rightarrow> nat \<Rightarrow> nat \<Rightarrow> Reactor \<Rightarrow> Reactor" where
  "rx_seal kind a b r =
     (let (first, s) = safety_seal_applies (rx_safety r); r1 = r\<lparr>rx_safety := s\<rparr> in
      if first then rx_record kind a b r1 else r1)"

definition seal_applies :: "nat \<Rightarrow> nat \<Rightarrow> Reactor \<Rightarrow> Reactor" where
  "seal_applies waiting answered r = rx_seal LK_COMMIT_OUT_OF_ORDER waiting answered r"

definition note_commit_wait :: "nat \<Rightarrow> Reactor \<Rightarrow> Reactor" where
  "note_commit_wait proposed_at r =
     (let waited = rx_now r - proposed_at in
      bump (\<lambda>m. m\<lparr>mt_commit_wait_nanos := mt_commit_wait_nanos m + waited,
                 mt_commit_wait_max_nanos := max (mt_commit_wait_max_nanos m) waited\<rparr>) r)"

section \<open>Apply\<close>

definition count_write :: "PendingEffect \<Rightarrow> Metrics \<Rightarrow> Metrics" where
  "count_write write =
     (case write of
        Create _ _ _ _ _ _ \<Rightarrow> mt_pending_creates_update Suc
      | Reduce _ _ _ _ _ _ _ \<Rightarrow> mt_pending_reduces_update Suc
      | Remove _ _ _ \<Rightarrow> mt_pending_removes_update Suc)"

text \<open>The write a committed effect owes the engine, if any; the hold's original size is on the record the
  slot was answered with.\<close>

definition write_decision :: "Effect \<Rightarrow> SlotId \<Rightarrow> ApplyIndex \<Rightarrow> Reactor \<Rightarrow> Reactor option" where
  "write_decision effect slot at r =
     do {
       rec \<leftarrow> pipeline_record slot (rx_pipeline r);
       let hold_amount = (case rec of None \<Rightarrow> 0 | Some d \<Rightarrow> hd_amount d);
       Some (case ef_pending_effect effect hold_amount of
               None \<Rightarrow> r
             | Some write \<Rightarrow>
                 (let r1 = bump (count_write write) r in
                  r1\<lparr>rx_pending := pchan_write write at (rx_pending r1)\<rparr>))
     }"

text \<open>One turn of the loop of \<open>commit_batch\<close>; \<open>False\<close> is its early return.\<close>

definition commit_effect :: "Effect \<Rightarrow> SlotId \<Rightarrow> ApplyIndex \<Rightarrow> Reactor \<Rightarrow> (bool \<times> Reactor) option" where
  "commit_effect effect slot at r =
     do {
       (applied, accounts) \<leftarrow> accounts_apply effect (rx_accounts r);
       let r1 = r\<lparr>rx_accounts := accounts\<rparr>;
       case applied of
         Inl err \<Rightarrow>
           Some (False, rx_seal LK_APPLY_FAILED (mt_committed (rx_metrics r1)) (length (error_name err)) r1)
       | Inr _ \<Rightarrow> do {
           r2 \<leftarrow> write_decision effect slot at (settle_overlays effect r1);
           r3 \<leftarrow> finish_slot slot Committed (bump (mt_committed_update Suc) r2);
           Some (True, r3)
         }
     }"

fun commit_batch :: "(Effect \<times> SlotId) list \<Rightarrow> ApplyIndex \<Rightarrow> Reactor \<Rightarrow> Reactor option" where
  "commit_batch [] at r = Some r"
| "commit_batch ((effect, slot) # rest) at r =
     do {
       (ok, r1) \<leftarrow> commit_effect effect slot at r;
       if ok then commit_batch rest at r1 else Some r1
     }"

fun roll_back_batch :: "(Effect \<times> SlotId) list \<Rightarrow> Reactor \<Rightarrow> Reactor option" where
  "roll_back_batch [] r = Some r"
| "roll_back_batch ((effect, slot) # rest) r =
     do {
       r1 \<leftarrow> finish_slot slot (Rejected RaftCommitFailed)
              (bump (mt_commit_failures_update Suc) (give_back_overlays effect r));
       roll_back_batch rest r1
     }"

text \<open>One answer of consensus, already taken off its queue; \<open>False\<close> where the loop breaks.\<close>

definition apply_commit :: "RaftCommit \<Rightarrow> Reactor \<Rightarrow> (bool \<times> Reactor) option" where
  "apply_commit commit r =
     (case next_committed (rx_batcher r) of
        (None, b) \<Rightarrow> Some (False, seal_applies 0 (rc_batch_id commit) (r\<lparr>rx_batcher := b\<rparr>))
      | (Some batch, b) \<Rightarrow>
          let r1 = note_commit_wait (ib_proposed_at_nanos batch) (r\<lparr>rx_batcher := b\<rparr>) in
          if ib_batch_id batch \<noteq> rc_batch_id commit
          then Some (False, seal_applies (ib_batch_id batch) (rc_batch_id commit) r1)
          else do {
            r2 \<leftarrow> (case rc_outcome commit of
                     BatchCommitted \<Rightarrow>
                       commit_batch (zip (rc_effects commit) (ib_slots batch)) (rc_index commit)
                         (r1\<lparr>rx_applied_through := rc_index commit\<rparr>)
                   | BatchFailed \<Rightarrow>
                       roll_back_batch (zip (rc_effects commit) (ib_slots batch))
                         (rx_record LK_COMMIT_FAILED (rc_batch_id commit) (length (rc_effects commit)) r1));
            let r3 = r2\<lparr>rx_batcher := batcher_recycle (rc_effects commit) (ib_slots batch) (rx_batcher r2)\<rparr>;
            Some (\<not> sf_applies_sealed (rx_safety r3), r3)
          })"

text \<open>The loop of \<open>apply\<close>, over what consensus has answered when the stage reaches it.\<close>

fun apply_loop :: "RaftCommit list \<Rightarrow> Reactor \<Rightarrow> Reactor option" where
  "apply_loop [] r = Some r"
| "apply_loop (commit # rest) r =
     do {
       (continue, r1) \<leftarrow> apply_commit commit (r\<lparr>rx_raft := snd (raft_poll (rx_raft r))\<rparr>);
       if continue then apply_loop rest r1 else Some r1
     }"

definition apply_stage :: "Reactor \<Rightarrow> (bool \<times> Reactor) option" where
  "apply_stage r =
     (if sf_applies_sealed (rx_safety r) then Some (False, r)
      else
        let commits = ch_items (rft_commits (rx_raft r)) in
        do { r1 \<leftarrow> apply_loop commits r; Some (commits \<noteq> [], r1) })"

definition evict_idle_holds :: "Reactor \<Rightarrow> Reactor" where
  "evict_idle_holds r =
     (let (evicted, c) = pchan_maintain (rx_pending r); r1 = r\<lparr>rx_pending := c\<rparr> in
      if evicted = 0 then r1
      else
        let r2 = bump (\<lambda>m. m\<lparr>mt_holds_evicted := mt_holds_evicted m + evicted\<rparr>) r1 in
        rx_record LK_HOLDS_EVICTED evicted (pchan_overlay_len (rx_pending r2)) r2)"

section \<open>One committed effect, taken apart\<close>

text \<open>The step that moves the money, the counter and the answer together. Everything else \<open>commit_effect\<close>
  does touches other parts of the reactor, so it may as well come after.\<close>

lemma accounts_apply_error: "accounts_apply e s = Some (Inl err, s') \<Longrightarrow> s' = s"
  unfolding accounts_apply_def by (drule move_columns_cases) auto

text \<open>What the answer touches: the outbox and two counters.\<close>

definition commit_answer :: "WorkItem \<Rightarrow> Reactor \<Rightarrow> Reactor" where
  "commit_answer item r = answer_item item Committed (bump (mt_committed_update Suc) r)"

definition commit_core :: "WorkItem \<Rightarrow> MemoryAccounts \<Rightarrow> Reactor \<Rightarrow> Reactor" where
  "commit_core item accounts r =
     commit_answer item (r\<lparr>rx_accounts := accounts\<rparr>)"

lemma commit_answer_settle: "settle_overlays e (commit_answer item r) = commit_answer item (settle_overlays e r)"
  by (cases "resolves_hold e"; cases "is_client (wi_kind item)")
     (simp_all add: settle_overlays_def with_overlay_def commit_answer_def answer_item_def bump_def Let_def)

lemma commit_answer_bump:
  "bump (count_write w) (commit_answer item r) = commit_answer item (bump (count_write w) r)"
  by (cases "is_client (wi_kind item)"; cases w)
     (auto simp: count_write_def commit_answer_def answer_item_def bump_def intro!: Reactor.equality Metrics.equality)

lemma commit_answer_pending:
  "(commit_answer item r)\<lparr>rx_pending := p\<rparr> = commit_answer item (r\<lparr>rx_pending := p\<rparr>)"
  "rx_pending (commit_answer item r) = rx_pending r" "rx_pipeline (commit_answer item r) = rx_pipeline r"
  "rx_lanes (commit_answer item r) = rx_lanes r"
  by (cases "is_client (wi_kind item)"; simp add: commit_answer_def answer_item_def bump_def)+

lemma commit_answer_write:
  "write_decision e slot at (commit_answer item r) = map_option (commit_answer item) (write_decision e slot at r)"
proof (cases "pipeline_record slot (rx_pipeline r)")
  case None
  then show ?thesis by (simp add: write_decision_def commit_answer_pending)
next
  case (Some rec)
  then show ?thesis
    by (cases "ef_pending_effect e (case rec of None \<Rightarrow> 0 | Some d \<Rightarrow> hd_amount d)")
       (simp_all add: write_decision_def commit_answer_pending commit_answer_bump Let_def)
qed

lemma commit_effect_cases:
  assumes "commit_effect e slot at r = Some (ok, r')"
  obtains (failed) err where "\<not> ok" "accounts_apply e (rx_accounts r) = Some (Inl err, rx_accounts r)"
      "r' = rx_seal LK_APPLY_FAILED (mt_committed (rx_metrics r)) (length (error_name err)) r"
    | (applied) u s item r1 pl where "ok" "accounts_apply e (rx_accounts r) = Some (Inr u, s)"
      "pipeline_item slot (rx_pipeline r) = Some item"
      "write_decision e slot at (settle_overlays e (commit_core item s r)) = Some r1"
      "pipeline_release slot (rx_pipeline (unpin_item item r1)) = Some pl"
      "r' = (unpin_item item r1)\<lparr>rx_pipeline := pl,
              rx_lanes := lanes_get_mut (wi_debit item) lane_left (rx_lanes (unpin_item item r1))\<rparr>"
proof -
  obtain res s where a: "accounts_apply e (rx_accounts r) = Some (res, s)"
    using assms by (auto simp: commit_effect_def panic_simps)
  show thesis
  proof (cases res)
    case (Inl err)
    then have "s = rx_accounts r" using a accounts_apply_error by simp
    then show thesis using assms a Inl failed by (auto simp: commit_effect_def)
  next
    case (Inr u)
    let ?r1 = "settle_overlays e (r\<lparr>rx_accounts := s\<rparr>)"
    obtain r2 r3 where w: "write_decision e slot at ?r1 = Some r2"
      and f: "finish_slot slot Committed (bump (mt_committed_update Suc) r2) = Some r3" and r': "ok" "r' = r3"
      using assms a Inr by (auto simp: commit_effect_def panic_simps)
    obtain item pl where i: "pipeline_item slot (rx_pipeline r2) = Some item"
      and pl: "pipeline_release slot (rx_pipeline r2) = Some pl"
      using f by (auto simp: finish_slot_def panic_simps Let_def unpin_item_def with_overlay_def bump_def split: if_splits)
    have pipe: "rx_pipeline r2 = rx_pipeline r"
      using w by (auto simp: write_decision_def panic_simps Let_def bump_def settle_overlays_def with_overlay_def
          split: option.splits)
    have w': "write_decision e slot at (settle_overlays e (commit_core item s r)) = Some (commit_answer item r2)"
      using w by (simp add: commit_core_def commit_answer_settle commit_answer_write)
    have "r3 = (unpin_item item (commit_answer item r2))\<lparr>rx_pipeline := pl,
        rx_lanes := lanes_get_mut (wi_debit item) lane_left (rx_lanes (unpin_item item (commit_answer item r2)))\<rparr>"
      using f i pl
      by (cases "is_client (wi_kind item)"; cases "holds_pin item")
         (auto simp: finish_slot_def Let_def unpin_item_def with_overlay_def bump_def answer_item_def commit_answer_def
          count_outcome_def)
    moreover have "pipeline_release slot (rx_pipeline (unpin_item item (commit_answer item r2))) = Some pl"
      using pl by (simp add: unpin_item_def with_overlay_def commit_answer_pending)
    ultimately show thesis using applied [OF r'(1) _ _ w'] a Inr i pipe r'(2) by auto
  qed
qed

section \<open>What propose and apply keep\<close>

lemma answer_parts_safety [simp]:
  "rx_safety (unpin_item item r) = rx_safety r" "rx_safety (answer_item item out r) = rx_safety r"
  "rx_safety (count_outcome out r) = rx_safety r"
  by (auto simp: unpin_item_def with_overlay_def answer_item_def count_outcome_def bump_def split: AckOutcome.splits)

lemma finish_slot_safety: "finish_slot slot out r = Some r' \<Longrightarrow> rx_safety r' = rx_safety r"
  by (auto simp: finish_slot_def panic_simps Let_def)

lemma commit_core_safety [simp]: "rx_safety (commit_core item s r) = rx_safety r"
  by (simp add: commit_core_def commit_answer_def answer_item_def bump_def)

lemma write_decision_safety: "write_decision e slot at r = Some r' \<Longrightarrow> rx_safety r' = rx_safety r"
  by (auto simp: write_decision_def panic_simps Let_def bump_def split: option.splits)

lemma commit_effect_unsealed:
  assumes "commit_effect e slot at r = Some (True, r')"
  shows "rx_safety r' = rx_safety r"
  using assms by (cases rule: commit_effect_cases) (auto dest: write_decision_safety)

lemma apply_commit_continues:
  "apply_commit c r = Some (True, r') \<Longrightarrow> \<not> sf_applies_sealed (rx_safety r')"
  by (auto simp: apply_commit_def panic_simps Let_def split: prod.splits option.splits if_splits)

text \<open>The laws of the two stages: what a proposal and a committed or failed batch are made of. Effects are
  applied only while the apply path is not sealed.\<close>

locale commit_inv = intake_inv +
  assumes seal_law: "P r \<Longrightarrow> P (r\<lparr>rx_safety := snd (safety_seal_applies (rx_safety r))\<rparr>)"
    and commit_law: "P r \<Longrightarrow> \<not> sf_applies_sealed (rx_safety r) \<Longrightarrow>
      accounts_apply e (rx_accounts r) = Some (Inr u, s) \<Longrightarrow> P (commit_core item s r)"
    and write_law: "P r \<Longrightarrow> P ((bump (count_write w) r)\<lparr>rx_pending := pchan_write w at (rx_pending r)\<rparr>)"
    and failed_law: "P r \<Longrightarrow> P (bump (mt_commit_failures_update Suc) r)"
    and through_law: "P r \<Longrightarrow> P (r\<lparr>rx_applied_through := i\<rparr>)"
    and raft_law: "P r \<Longrightarrow> P (r\<lparr>rx_raft := p\<rparr>)"
    and next_law: "P r \<Longrightarrow> P (r\<lparr>rx_batcher := snd (next_committed (rx_batcher r))\<rparr>)"
    and recycle_law: "P r \<Longrightarrow> P (r\<lparr>rx_batcher := batcher_recycle es ss (rx_batcher r)\<rparr>)"
begin

lemma rx_seal_inv: "P r \<Longrightarrow> P (rx_seal k a b r)"
  using seal_law [of r] by (auto simp: rx_seal_def Let_def intro: log_law split: prod.splits)

lemma write_decision_inv: "P r \<Longrightarrow> write_decision e slot at r = Some r' \<Longrightarrow> P r'"
  using write_law [of r _ at] by (auto simp: write_decision_def panic_simps Let_def bump_def split: option.splits)

lemma commit_effect_inv:
  assumes "P r" "\<not> sf_applies_sealed (rx_safety r)" "commit_effect e slot at r = Some (ok, r')"
  shows "P r'"
  using assms(3)
proof (cases rule: commit_effect_cases)
  case (failed err)
  then show ?thesis using rx_seal_inv assms(1) by simp
next
  case (applied u s item r1 pl)
  have "P (settle_overlays e (commit_core item s r))"
    by (intro settle_overlays_inv commit_law [OF assms(1,2) applied(2)])
  then have "P (unpin_item item r1)" by (intro unpin_item_inv write_decision_inv [OF _ applied(4)])
  from lanes_law [OF release_law [OF this applied(5)]] show ?thesis unfolding applied(6) by simp
qed

lemma commit_batch_inv:
  "P r \<Longrightarrow> \<not> sf_applies_sealed (rx_safety r) \<Longrightarrow> commit_batch ps at r = Some r' \<Longrightarrow> P r'"
proof (induction ps arbitrary: r)
  case (Cons p ps)
  obtain e slot where p: "p = (e, slot)" by force
  obtain ok r1 where c: "commit_effect e slot at r = Some (ok, r1)"
    and rest: "if ok then commit_batch ps at r1 = Some r' else r' = r1"
    using Cons.prems(3) p by (auto simp: panic_simps split: if_splits)
  have "P r1" by (rule commit_effect_inv [OF Cons.prems(1,2) c])
  then show ?case
    using rest c Cons.IH [of r1] Cons.prems(2) commit_effect_unsealed by (cases ok) auto
qed simp

lemma roll_back_batch_inv: "P r \<Longrightarrow> roll_back_batch ps r = Some r' \<Longrightarrow> P r'"
proof (induction ps arbitrary: r)
  case (Cons p ps)
  obtain e slot where p: "p = (e, slot)" by force
  have "P (bump (mt_commit_failures_update Suc) (give_back_overlays e r))"
    by (intro failed_law give_back_overlays_inv Cons.prems)
  then show ?case using Cons p by (auto simp: panic_simps intro: Cons.IH finish_slot_inv)
qed simp

lemma note_commit_wait_inv: "P r \<Longrightarrow> P (note_commit_wait t r)"
  unfolding note_commit_wait_def Let_def by (rule metrics_law) auto

lemma apply_commit_inv:
  assumes "P r" "\<not> sf_applies_sealed (rx_safety r)" "apply_commit c r = Some (ok, r')"
  shows "P r'"
proof -
  obtain batch b where n: "next_committed (rx_batcher r) = (batch, b)" by force
  have b: "P (r\<lparr>rx_batcher := b\<rparr>)" using next_law [OF assms(1)] n by simp
  show ?thesis
  proof (cases batch)
    case None
    then show ?thesis using assms(3) n rx_seal_inv [OF b] by (auto simp: apply_commit_def seal_applies_def)
  next
    case (Some batch)
    let ?r1 = "note_commit_wait (ib_proposed_at_nanos batch) (r\<lparr>rx_batcher := b\<rparr>)"
    have r1: "P ?r1" by (rule note_commit_wait_inv [OF b])
    have unsealed: "\<not> sf_applies_sealed (rx_safety ?r1)"
      using assms(2) by (simp add: note_commit_wait_def bump_def Let_def)
    show ?thesis
    proof (cases "ib_batch_id batch = rc_batch_id c")
      case False
      then show ?thesis using assms(3) n Some rx_seal_inv [OF r1] by (auto simp: apply_commit_def seal_applies_def)
    next
      case True
      then obtain r2 where r2: "(case rc_outcome c of
          BatchCommitted \<Rightarrow> commit_batch (zip (rc_effects c) (ib_slots batch)) (rc_index c) (?r1\<lparr>rx_applied_through := rc_index c\<rparr>)
        | BatchFailed \<Rightarrow> roll_back_batch (zip (rc_effects c) (ib_slots batch))
            (rx_record LK_COMMIT_FAILED (rc_batch_id c) (length (rc_effects c)) ?r1)) = Some r2"
        and r': "r' = r2\<lparr>rx_batcher := batcher_recycle (rc_effects c) (ib_slots batch) (rx_batcher r2)\<rparr>"
        using assms(3) n Some by (auto simp: apply_commit_def panic_simps Let_def)
      have "P r2"
        using r2 unsealed commit_batch_inv [OF through_law [OF r1]] roll_back_batch_inv [OF log_law [OF r1]]
        by (cases "rc_outcome c") auto
      then show ?thesis unfolding r' by (rule recycle_law)
    qed
  qed
qed

lemma apply_loop_inv: "P r \<Longrightarrow> \<not> sf_applies_sealed (rx_safety r) \<Longrightarrow> apply_loop cs r = Some r' \<Longrightarrow> P r'"
proof (induction cs arbitrary: r)
  case (Cons c cs)
  let ?r = "r\<lparr>rx_raft := snd (raft_poll (rx_raft r))\<rparr>"
  obtain ok r1 where c: "apply_commit c ?r = Some (ok, r1)"
    and rest: "if ok then apply_loop cs r1 = Some r' else r' = r1"
    using Cons.prems(3) by (auto simp: panic_simps split: if_splits)
  have "P r1" by (rule apply_commit_inv [OF raft_law [OF Cons.prems(1)] _ c]) (use Cons.prems(2) in simp)
  then show ?case using rest c Cons.IH [of r1] apply_commit_continues by (cases ok) auto
qed simp

lemma apply_stage_inv: "P r \<Longrightarrow> apply_stage r = Some (b, r') \<Longrightarrow> P r'"
  by (auto simp: apply_stage_def panic_simps Let_def intro: apply_loop_inv split: if_splits)

end

section \<open>What a committed batch decides\<close>





















end
