(* ===== verification/Ticks.thy ===== *)
theory Ticks
  imports Commit
begin

text \<open>
  The loop (\<open>sequencer/src/reactor.rs\<close>): what the pending engine says first, the backlogs, the stages of a
  tick in their order, the constant-time check of the books after every tick and the audit between ticks, and
  the operator's actions. The locale at the end composes what the stages keep into what a tick keeps.
\<close>

section \<open>Notices\<close>

definition on_hold_not_stored :: "TxId \<Rightarrow> Reactor \<Rightarrow> Reactor" where
  "on_hold_not_stored hold r =
     (let r1 = bump (mt_holds_not_stored_update Suc) r in
      rx_seal LK_HOLD_NOT_STORED (unat (ucast hold :: u64)) (mt_committed (rx_metrics r1)) r1)"

definition on_store_failed :: "Reactor \<Rightarrow> Reactor" where
  "on_store_failed r =
     (let r1 = bump (mt_store_failures_update Suc) r in
      rx_seal LK_STORE_FAILED 0 (mt_committed (rx_metrics r1)) r1)"

definition on_notice :: "PendingNotice \<Rightarrow> Reactor \<Rightarrow> Reactor" where
  "on_notice notice r =
     (case notice of
        HoldNotStored hold \<Rightarrow> on_hold_not_stored hold r
      | StoreFailed \<Rightarrow> on_store_failed r
      | HoldExpired void \<Rightarrow>
          (let (parked, q) = expiry_park void (rx_expiry r); r1 = r\<lparr>rx_expiry := q\<rparr> in
           if parked then r1 else bump (mt_expiry_dropped_update Suc) r1))"

fun drain_notices :: "PendingNotice list \<Rightarrow> Reactor \<Rightarrow> Reactor" where
  "drain_notices [] r = r"
| "drain_notices (notice # rest) r =
     drain_notices rest (on_notice notice (r\<lparr>rx_pending := snd (pchan_notice (rx_pending r))\<rparr>))"

definition drain_pending_notices :: "Reactor \<Rightarrow> bool \<times> Reactor" where
  "drain_pending_notices r =
     (let notices = ch_items (mp_notices (pc_port (rx_pending r))) in (notices \<noteq> [], drain_notices notices r))"

section \<open>Backlogs\<close>

text \<open>The loop over the deferred dispatches. It is given as many turns as there are deferred slots, which is
  enough: a dispatch defers nothing and every turn that goes on removes one (\<open>deferred_turns_enough\<close>).\<close>

fun retry_deferred :: "nat \<Rightarrow> Reactor \<Rightarrow> (bool \<times> Reactor) option" where
  "retry_deferred 0 r = Some (False, r)"
| "retry_deferred (Suc n) r =
     (case deferred_front (rx_pipeline r) of
        None \<Rightarrow> Some (False, r)
      | Some slot \<Rightarrow> do {
          (ok, r1) \<leftarrow> dispatch slot r;
          if \<not> ok then Some (False, r1)
          else do {
            (_, r2) \<leftarrow> retry_deferred n (r1\<lparr>rx_pipeline := deferred_done (rx_pipeline r1)\<rparr>);
            Some (True, r2)
          }
        })"

definition drain_backlogs :: "Reactor \<Rightarrow> (bool \<times> Reactor) option" where
  "drain_backlogs r =
     (let (p1, r1) = drain_pending_notices r;
          (p2, ob) = outbox_flush (rx_outbox r1);
          r2 = r1\<lparr>rx_outbox := ob\<rparr>;
          (p3, pc) = pchan_flush (rx_pending r2);
          r3 = r2\<lparr>rx_pending := pc\<rparr> in
      do {
        (p4, r4) \<leftarrow> retry_deferred (length (pp_deferred (rx_pipeline r3))) r3;
        Some (p1 \<or> p2 \<or> p3 \<or> p4, r4)
      })"

definition publish_expiry_room :: "Reactor \<Rightarrow> Reactor" where
  "publish_expiry_room r =
     (let room = (expiry_has_room (rx_expiry r) \<and> \<not> sf_fail_stop (rx_safety r)) in
      r\<lparr>rx_pending := pchan_set_wants_expiry room (rx_pending r)\<rparr>)"

section \<open>The tick\<close>

definition stages :: "Reactor \<Rightarrow> (bool \<times> Reactor) option" where
  "stages r =
     do {
       (p1, r1) \<leftarrow> drain_backlogs r;
       (p2, r2) \<leftarrow> intake r1;
       (p3, r3) \<leftarrow> drain_replies r2;
       let (p4, r4) = propose r3;
       (p5, r5) \<leftarrow> apply_stage r4;
       Some (p1 \<or> p2 \<or> p3 \<or> p4 \<or> p5, evict_idle_holds r5)
     }"

definition timed_stages :: "Reactor \<Rightarrow> (bool \<times> Reactor) option" where
  "timed_stages r =
     do {
       let opened = rx_now r;
       (p1, r1) \<leftarrow> drain_backlogs r;
       let backlog_done = rx_now r1;
       (p2, r2) \<leftarrow> intake r1;
       let intake_done = rx_now r2;
       (p3, r3) \<leftarrow> drain_replies r2;
       let judge_done = rx_now r3;
       let (p4, r4) = propose r3;
       let propose_done = rx_now r4;
       (p5, r5) \<leftarrow> apply_stage r4;
       let apply_done = rx_now r5;
       let r6 = evict_idle_holds r5;
       let t = rx_stages r6;
       Some (p1 \<or> p2 \<or> p3 \<or> p4 \<or> p5,
         r6\<lparr>rx_stages := \<lparr>sg_backlog = sg_backlog t + (backlog_done - opened),
                         sg_intake = sg_intake t + (intake_done - backlog_done),
                         sg_judge = sg_judge t + (judge_done - intake_done),
                         sg_propose = sg_propose t + (propose_done - judge_done),
                         sg_apply = sg_apply t + (apply_done - propose_done)\<rparr>\<rparr>)
     }"

definition counts_add_up :: "Reactor \<Rightarrow> Broken + unit" where
  "counts_add_up r =
     (if mt_committed (rx_metrics r) > mt_judged (rx_metrics r) then Inl AppliedMoreThanJudged
      else if ma_applied (rx_accounts r) \<noteq> mt_committed (rx_metrics r) then Inl AccountViewDisagrees
      else if pipeline_in_flight (rx_pipeline r) > cp_slots (cfg_capacity (rx_config r)) then Inl MoreRequestsThanSlots
      else if batcher_in_flight_len (rx_batcher r) > bp_in_flight (cfg_batching (rx_config r))
      then Inl MoreProposalsThanAllowed
      else Inr ())"

text \<open>The release build: the debug assertion is not compiled in.\<close>

definition on_broken :: "Broken \<Rightarrow> Reactor \<Rightarrow> Reactor" where
  "on_broken broken r =
     (let r1 = bump (mt_invariant_breaks_update Suc) r in
      rx_seal LK_INVARIANT_BROKEN (broken_code broken) (mt_ticks (rx_metrics r1)) r1)"

definition tick :: "Reactor \<Rightarrow> (bool \<times> Reactor) option" where
  "tick r =
     (let r1 = publish_expiry_room (bump (mt_ticks_update Suc) r) in
      do {
        (progress, r2) \<leftarrow> (if cfg_profile (rx_config r1) then timed_stages r1 else stages r1);
        let r3 = (if \<not> progress then bump (mt_idle_ticks_update Suc) r2 else r2);
        Some (progress, case counts_add_up r3 of Inl broken \<Rightarrow> on_broken broken r3 | Inr _ \<Rightarrow> r3)
      })"

section \<open>Reading and operating it\<close>

definition is_quiescent :: "Reactor \<Rightarrow> bool" where
  "is_quiescent r \<longleftrightarrow> pipeline_in_flight (rx_pipeline r) = 0 \<and> batcher_in_flight_len (rx_batcher r) = 0
     \<and> outbox_depth (rx_outbox r) = 0 \<and> pchan_depth (rx_pending r) = 0"

text \<open>Whether every quarantined account's lane says so too; a lane that was never made is a panic.\<close>

fun quarantine_agrees :: "AccountId list \<Rightarrow> Reactor \<Rightarrow> bool option" where
  "quarantine_agrees [] r = Some True"
| "quarantine_agrees (i # ids) r =
     (case accounts_resolve (rx_accounts r) i of
        None \<Rightarrow> Some False
      | Some handle \<Rightarrow> do {
          lane \<leftarrow> lanes_get (rx_lanes r) handle;
          if ln_quarantined lane then quarantine_agrees ids r else Some False
        })"

definition audit :: "Reactor \<Rightarrow> (Broken + unit) option" where
  "audit r =
     (case counts_add_up r of
        Inl b \<Rightarrow> Some (Inl b)
      | Inr _ \<Rightarrow>
          if \<not> balanced (column_totals (rx_accounts r)) then Some (Inl IdentitiesBroken)
          else if is_quiescent r \<and> overlay_total (rx_lanes r) \<noteq> 0 then Some (Inl OverlaySurvivedQuiescence)
          else do {
            agrees \<leftarrow> quarantine_agrees (sf_quarantined (rx_safety r)) r;
            Some (if agrees then Inr () else Inl QuarantineDisagrees)
          })"

definition rx_metrics_view :: "Reactor \<Rightarrow> Metrics" where
  "rx_metrics_view r = (rx_metrics r)\<lparr>mt_log_drops := lg_dropped (rx_log r)\<rparr>"

definition rx_lane :: "AccountId \<Rightarrow> Reactor \<Rightarrow> LaneState option" where
  "rx_lane account r = Option.bind (accounts_resolve (rx_accounts r) account) (lanes_try_get (rx_lanes r))"

record Backpressure =
  bk_intake_paused :: bool
  bk_paused_by :: PauseCause
  bk_acks_queued :: nat
  bk_pending_writes :: nat
  bk_batches_in_flight :: nat
  bk_requests_in_flight :: nat

definition backpressure :: "Reactor \<Rightarrow> Backpressure" where
  "backpressure r =
     \<lparr>bk_intake_paused = rx_intake_paused r, bk_paused_by = pressure_cause (rx_pressure r),
      bk_acks_queued = outbox_depth (rx_outbox r), bk_pending_writes = pchan_depth (rx_pending r),
      bk_batches_in_flight = batcher_in_flight_len (rx_batcher r),
      bk_requests_in_flight = pipeline_in_flight (rx_pipeline r)\<rparr>"

definition close_intake :: "Reactor \<Rightarrow> Reactor" where
  "close_intake r = r\<lparr>rx_intake_closed := True\<rparr>"

definition rx_release_quarantine :: "AccountId \<Rightarrow> Reactor \<Rightarrow> unit result \<times> Reactor" where
  "rx_release_quarantine i r =
     (case accounts_resolve (rx_accounts r) i of
        None \<Rightarrow> (Inl (UnknownAccount i), r)
      | Some handle \<Rightarrow>
          (let (res, lane) = lane_release_quarantine (lanes_peek (rx_lanes r) handle);
               r1 = r\<lparr>rx_lanes := lanes_get_mut handle (\<lambda>_. lane) (rx_lanes r)\<rparr> in
           case res of
             Inl e \<Rightarrow> (Inl e, r1)
           | Inr _ \<Rightarrow>
               (Inr (), rx_record LK_LANE_RELEASED (unat i) 0
                          (r1\<lparr>rx_safety := safety_release i (rx_safety r1)\<rparr>))))"

definition rx_clear_fail_stop :: "Reactor \<Rightarrow> unit result \<times> Reactor" where
  "rx_clear_fail_stop r =
     (if batcher_in_flight_len (rx_batcher r) > 0 then (Inl QuarantineDraining, r)
      else (Inr (), r\<lparr>rx_safety := safety_clear_fail_stop (rx_safety r)\<rparr>))"

section \<open>What a tick keeps\<close>

text \<open>The loop's own laws, beside those of intake and judging: the notices, the flushes, the proposal and
  the seal. What the apply stage keeps is a law too, so that an invariant with its own account of a batch can
  use the loop.\<close>

locale loop_inv = intake_inv +
  assumes rx_seal_law: "P r \<Longrightarrow> P (r\<lparr>rx_safety := snd (safety_seal_applies (rx_safety r))\<rparr>)"
    and wants_law: "P r \<Longrightarrow> P (r\<lparr>rx_pending := pchan_set_wants_expiry b (rx_pending r)\<rparr>)"
    and notice_law: "P r \<Longrightarrow> P (r\<lparr>rx_pending := snd (pchan_notice (rx_pending r))\<rparr>)"
    and ack_flush_law: "P r \<Longrightarrow> P (r\<lparr>rx_outbox := snd (outbox_flush (rx_outbox r))\<rparr>)"
    and write_flush_law: "P r \<Longrightarrow> P (r\<lparr>rx_pending := snd (pchan_flush (rx_pending r))\<rparr>)"
    and deferred_law: "P r \<Longrightarrow> P (r\<lparr>rx_pipeline := deferred_done (rx_pipeline r)\<rparr>)"
    and propose_law: "P r \<Longrightarrow> P (snd (propose r))"
    and apply_law: "P r \<Longrightarrow> apply_stage r = Some (prog, r') \<Longrightarrow> P r'"
    and maintain_law: "P r \<Longrightarrow> P (r\<lparr>rx_pending := snd (pchan_maintain (rx_pending r))\<rparr>)"
    and stages_law: "P r \<Longrightarrow> P (r\<lparr>rx_stages := t\<rparr>)"
    and broken_law: "P r \<Longrightarrow> counts_add_up r = Inl brk \<Longrightarrow> P (bump (mt_invariant_breaks_update Suc) r)"
begin

lemma sealed_inv: "P r \<Longrightarrow> P (rx_seal k a b r)"
  using rx_seal_law [of r] by (auto simp: rx_seal_def Let_def intro: log_law split: prod.splits)

lemma on_notice_inv: "P r \<Longrightarrow> P (on_notice n r)"
  by (cases n) (auto simp: on_notice_def on_hold_not_stored_def on_store_failed_def Let_def
      intro!: sealed_inv metrics_law expiry_law split: prod.splits)

lemma drain_notices_inv: "P r \<Longrightarrow> P (drain_notices ns r)"
  by (induction ns arbitrary: r) (auto intro: on_notice_inv notice_law)

lemma retry_deferred_inv: "P r \<Longrightarrow> retry_deferred n r = Some (b, r') \<Longrightarrow> P r'"
proof (induction n arbitrary: r b)
  case (Suc n)
  show ?case
  proof (cases "deferred_front (rx_pipeline r)")
    case None
    then show ?thesis using Suc.prems by simp
  next
    case (Some slot)
    obtain ok r1 where d: "dispatch slot r = Some (ok, r1)" using Suc.prems Some by (auto simp: panic_simps)
    have "P r1" by (rule dispatch_inv [OF Suc.prems(1) d])
    then show ?thesis
      using Suc.prems Some d Suc.IH [OF deferred_law] by (auto simp: panic_simps split: if_splits)
  qed
qed simp

lemma drain_backlogs_inv:
  assumes "P r" "drain_backlogs r = Some (b, r')"
  shows "P r'"
proof -
  let ?r1 = "drain_notices (ch_items (mp_notices (pc_port (rx_pending r)))) r"
  let ?r2 = "?r1\<lparr>rx_outbox := snd (outbox_flush (rx_outbox ?r1))\<rparr>"
  let ?r3 = "?r2\<lparr>rx_pending := snd (pchan_flush (rx_pending ?r2))\<rparr>"
  have "P ?r3" by (rule write_flush_law [OF ack_flush_law [OF drain_notices_inv [OF assms(1)]]])
  moreover obtain b' where "retry_deferred (length (pp_deferred (rx_pipeline ?r3))) ?r3 = Some (b', r')"
    using assms(2)
    by (auto simp: drain_backlogs_def drain_pending_notices_def Let_def panic_simps split: prod.splits)
  ultimately show ?thesis by (rule retry_deferred_inv)
qed

lemma evict_idle_holds_inv:
  assumes "P r"
  shows "P (evict_idle_holds r)"
proof -
  obtain n c where m: "pchan_maintain (rx_pending r) = (n, c)" by force
  have "P (r\<lparr>rx_pending := c\<rparr>)" using maintain_law [OF assms] m by simp
  then show ?thesis by (auto simp: evict_idle_holds_def m Let_def intro!: log_law metrics_law)
qed

lemma stages_parts_inv:
  assumes "P r" "drain_backlogs r = Some (b1, r1)" "intake r1 = Some (b2, r2)" "drain_replies r2 = Some (b3, r3)"
    "apply_stage (snd (propose r3)) = Some (b5, r5)"
  shows "P (evict_idle_holds r5)"
proof -
  have "P r3" by (rule drain_replies_inv [OF intake_inv [OF drain_backlogs_inv [OF assms(1,2)] assms(3)] assms(4)])
  then show ?thesis by (intro evict_idle_holds_inv apply_law [OF propose_law assms(5)])
qed

lemma stages_inv: "P r \<Longrightarrow> stages r = Some (b, r') \<Longrightarrow> P r'"
  by (auto simp: stages_def panic_simps Let_def case_prod_beta intro: stages_parts_inv)

lemma timed_stages_inv: "P r \<Longrightarrow> timed_stages r = Some (b, r') \<Longrightarrow> P r'"
  by (auto simp: timed_stages_def panic_simps Let_def case_prod_beta intro: stages_law stages_parts_inv)

lemma tick_inv:
  assumes "P r" "tick r = Some (b, r')"
  shows "P r'"
proof -
  let ?r1 = "publish_expiry_room (bump (mt_ticks_update Suc) r)"
  have "P (bump (mt_ticks_update Suc) r)" by (rule metrics_law [OF assms(1)]) auto
  then have r1: "P ?r1" unfolding publish_expiry_room_def Let_def by (rule wants_law)
  obtain r2 where s: "(if cfg_profile (rx_config ?r1) then timed_stages ?r1 else stages ?r1) = Some (b, r2)"
    and r': "r' = (let r3 = (if \<not> b then bump (mt_idle_ticks_update Suc) r2 else r2) in
        case counts_add_up r3 of Inl broken \<Rightarrow> on_broken broken r3 | Inr _ \<Rightarrow> r3)"
    using assms(2) by (auto simp: tick_def panic_simps Let_def)
  have "P r2" using s timed_stages_inv [OF r1] stages_inv [OF r1] by (auto split: if_splits)
  then have "P (if \<not> b then bump (mt_idle_ticks_update Suc) r2 else r2)" by (auto intro!: metrics_law)
  then show ?thesis
    unfolding r' Let_def by (auto simp: on_broken_def Let_def intro!: sealed_inv broken_law split: sum.splits)
qed

end

end
