(* ===== verification/Invariants.thy ===== *)
theory Invariants
  imports Ticks
begin

text \<open>
  Invariants of the whole loop, each an interpretation of the laws of the stages.
\<close>

lemma deferred_kept:
  "pipeline_release slot p = Some q \<Longrightarrow> pp_deferred q = pp_deferred p"
  "pipeline_item_mut slot f p = Some q \<Longrightarrow> pp_deferred q = pp_deferred p"
  "pipeline_set_record slot d p = Some q \<Longrightarrow> pp_deferred q = pp_deferred p"
  "pipeline_expect_applies slot n p = Some q \<Longrightarrow> pp_deferred q = pp_deferred p"
  by (auto simp: pipeline_release_def pipeline_item_mut_def pipeline_set_record_def pipeline_expect_applies_def
      panic_simps)

lemmas rx_steps = rx_record_def bump_def with_overlay_def push_judged_def

interpretation waiting: dispatch_keeps "\<lambda>s. pp_deferred (rx_pipeline s) = ds" for ds
  by unfold_locales (simp_all add: rx_steps deferred_kept)

text \<open>A dispatch defers nothing, so the turns the retry loop is given are enough: it ends with the queue
  empty, or at a dispatch that was refused.\<close>

lemma deferred_turns_enough:
  assumes "retry_deferred (length (pp_deferred (rx_pipeline r))) r = Some (p, r')"
  shows "pp_deferred (rx_pipeline r') = [] \<or>
    (\<exists>slot s rest. pp_deferred (rx_pipeline r') = slot # rest \<and> dispatch slot s = Some (False, r'))"
proof -
  have "length (pp_deferred (rx_pipeline r)) = n \<Longrightarrow> retry_deferred n r = Some (p, r') \<Longrightarrow>
      pp_deferred (rx_pipeline r') = [] \<or>
      (\<exists>slot s rest. pp_deferred (rx_pipeline r') = slot # rest \<and> dispatch slot s = Some (False, r'))" for n
  proof (induction n arbitrary: r p)
    case (Suc n)
    obtain slot rest where d: "pp_deferred (rx_pipeline r) = slot # rest" using Suc.prems(1) by (cases "pp_deferred (rx_pipeline r)") auto
    then obtain ok r1 where s: "dispatch slot r = Some (ok, r1)"
      using Suc.prems(2) by (auto simp: deferred_front_def panic_simps)
    have r1: "pp_deferred (rx_pipeline r1) = slot # rest" by (rule waiting.dispatch_inv [OF d s])
    show ?case
    proof (cases ok)
      case False
      then show ?thesis using Suc.prems(2) d s r1 by (auto simp: deferred_front_def)
    next
      case True
      then obtain q where "retry_deferred n (r1\<lparr>rx_pipeline := deferred_done (rx_pipeline r1)\<rparr>) = Some (q, r')"
        using Suc.prems(2) d s by (auto simp: deferred_front_def panic_simps)
      from Suc.IH [OF _ this] show ?thesis using r1 d Suc.prems(1) by (simp add: deferred_done_def)
    qed
  qed simp
  then show ?thesis using assms by blast
qed

section \<open>Double entry\<close>

definition double_entry :: "Reactor \<Rightarrow> bool" where
  "double_entry r \<longleftrightarrow> accounts_wf (rx_accounts r) \<and> totals_balanced (rx_accounts r)"

lemma commit_core_accounts [simp]: "rx_accounts (commit_core item s r) = s"
  by (simp add: commit_core_def commit_answer_def answer_item_def bump_def)

lemma propose_accounts [simp]: "rx_accounts (snd (propose r)) = rx_accounts r"
  by (auto simp: propose_def bump_def split: prod.splits option.splits bool.splits)

interpretation entry: commit_inv double_entry
  apply unfold_locales
  apply (simp_all add: double_entry_def rx_steps)
  subgoal unfolding accounts_apply_def by (blast intro: move_columns_wf move_columns_balanced)
  done

interpretation entry_loop: loop_inv double_entry
  by unfold_locales (fact entry.apply_stage_inv | simp add: double_entry_def rx_steps)+

section \<open>The counters\<close>

definition view_agrees :: "Reactor \<Rightarrow> bool" where
  "view_agrees r \<longleftrightarrow> ma_applied (rx_accounts r) = mt_committed (rx_metrics r)"

lemma accounts_apply_counts: "accounts_apply e a = Some (Inr u, s) \<Longrightarrow> ma_applied s = ma_applied a + 1"
  using applied_count [of _ _ e a "Inr u" s] by (simp add: accounts_apply_def)

lemma commit_core_metrics [simp]:
  "mt_committed (rx_metrics (commit_core item s r)) = Suc (mt_committed (rx_metrics r))"
  "mt_judged (rx_metrics (commit_core item s r)) = mt_judged (rx_metrics r)"
  "mt_commit_failures (rx_metrics (commit_core item s r)) = mt_commit_failures (rx_metrics r)"
  "mt_pending_creates (rx_metrics (commit_core item s r)) = mt_pending_creates (rx_metrics r)"
  "mt_pending_reduces (rx_metrics (commit_core item s r)) = mt_pending_reduces (rx_metrics r)"
  "mt_pending_removes (rx_metrics (commit_core item s r)) = mt_pending_removes (rx_metrics r)"
  "mt_holds_expired (rx_metrics (commit_core item s r)) =
     mt_holds_expired (rx_metrics r) + (if is_client (wi_kind item) then 0 else 1)"
  by (simp_all add: commit_core_def commit_answer_def answer_item_def bump_def)

lemma commit_core_frame [simp]:
  "rx_batcher (commit_core item s r) = rx_batcher r" "rx_pending (commit_core item s r) = rx_pending r"
  "rx_config (commit_core item s r) = rx_config r"
  "outbox_stream (rx_outbox (commit_core item s r)) = outbox_stream (rx_outbox r) @
     (if is_client (wi_kind item) then
        [\<lparr>ak_tx_id = tr_id (wi_tx item), ak_lane = wi_lane item, ak_seq = wi_seq item,
          ak_outcome = Committed, ak_submitted_at_nanos = wi_submitted_at_nanos item\<rparr>] else [])"
  by (simp_all add: commit_core_def commit_answer_def answer_item_def bump_def)

lemma count_write_metrics [simp]:
  "mt_committed (count_write w m) = mt_committed m" "mt_judged (count_write w m) = mt_judged m"
  "mt_holds_expired (count_write w m) = mt_holds_expired m"
  "mt_commit_failures (count_write w m) = mt_commit_failures m"
  "mt_pending_creates (count_write w m) + mt_pending_reduces (count_write w m) + mt_pending_removes (count_write w m)
     = Suc (mt_pending_creates m + mt_pending_reduces m + mt_pending_removes m)"
  by (cases w; simp add: count_write_def)+

lemma propose_frame [simp]:
  "rx_safety (snd (propose r)) = rx_safety r" "rx_outbox (snd (propose r)) = rx_outbox r"
  "rx_pending (snd (propose r)) = rx_pending r" "rx_config (snd (propose r)) = rx_config r"
  "same_books (rx_metrics r) (rx_metrics (snd (propose r)))"
  by (auto simp: propose_def bump_def split: prod.splits option.splits bool.splits)

interpretation view: commit_inv view_agrees
  by unfold_locales (simp_all add: view_agrees_def rx_steps accounts_apply_counts)

interpretation view_loop: loop_inv view_agrees
  by unfold_locales (fact view.apply_stage_inv | simp add: view_agrees_def rx_steps propose_frame [simplified])+

section \<open>Proposals\<close>

text \<open>Slots of judged effects consensus has not answered for.\<close>

definition slots_waiting :: "Batcher \<Rightarrow> nat" where
  "slots_waiting b = length (bt_slots b) + sum_list (map (\<lambda>f. length (ib_slots f)) (bt_in_flight b))"

text \<open>No more is committed, rolled back or still waiting than was judged, with \<open>n\<close> more yet to be answered.\<close>

definition covered :: "nat \<Rightarrow> Reactor \<Rightarrow> bool" where
  "covered n r \<longleftrightarrow> batcher_ok (rx_batcher r) \<and> bt_policy (rx_batcher r) = cfg_batching (rx_config r)
     \<and> mt_committed (rx_metrics r) + mt_commit_failures (rx_metrics r) + slots_waiting (rx_batcher r) + n
       \<le> mt_judged (rx_metrics r)"

lemma covered_weaken: "covered n r \<Longrightarrow> m \<le> n \<Longrightarrow> covered m r"
  by (simp add: covered_def)

interpretation covered: intake_inv "covered n" for n
  by unfold_locales (simp_all add: covered_def rx_steps slots_waiting_def)

lemma covered_seal: "covered n r \<Longrightarrow> covered n (rx_seal k a b r)"
  by (auto simp: covered_def rx_seal_def rx_steps Let_def split: prod.splits)

lemma covered_write: "covered n r \<Longrightarrow> write_decision e slot at r = Some r' \<Longrightarrow> covered n r'"
  by (auto simp: covered_def write_decision_def panic_simps Let_def bump_def split: option.splits)

lemma commit_effect_covered:
  assumes "covered (Suc n) r" "commit_effect e slot at r = Some (ok, r')"
  shows "covered n r'"
  using assms(2)
proof (cases rule: commit_effect_cases)
  case (failed err)
  then show ?thesis using covered_seal covered_weaken [OF assms(1), of n] by simp
next
  case (applied u s item r1 pl)
  have "covered n (commit_core item s r)" using assms(1) by (simp add: covered_def)
  then have "covered n (unpin_item item r1)"
    by (intro covered.unpin_item_inv covered_write [OF covered.settle_overlays_inv applied(4)])
  from covered.lanes_law [OF covered.release_law [OF this applied(5)]] show ?thesis unfolding applied(6) by simp
qed

lemma commit_batch_covered: "covered (n + length ps) r \<Longrightarrow> commit_batch ps at r = Some r' \<Longrightarrow> covered n r'"
proof (induction ps arbitrary: r)
  case (Cons p ps)
  obtain e slot where p: "p = (e, slot)" by force
  obtain ok r1 where c: "commit_effect e slot at r = Some (ok, r1)"
    and rest: "if ok then commit_batch ps at r1 = Some r' else r' = r1"
    using Cons.prems p by (auto simp: panic_simps split: if_splits)
  have "covered (n + length ps) r1" by (rule commit_effect_covered [OF _ c]) (use Cons.prems in simp)
  then show ?case using rest Cons.IH [of r1] covered_weaken [of _ r1 n] by (auto split: if_splits)
qed simp

lemma roll_back_batch_covered: "covered (n + length ps) r \<Longrightarrow> roll_back_batch ps r = Some r' \<Longrightarrow> covered n r'"
proof (induction ps arbitrary: r)
  case (Cons p ps)
  obtain e slot where p: "p = (e, slot)" by force
  have "covered (Suc (n + length ps)) (give_back_overlays e r)"
    by (rule covered.give_back_overlays_inv) (use Cons.prems in simp)
  then have "covered (n + length ps) (bump (mt_commit_failures_update Suc) (give_back_overlays e r))"
    by (simp add: covered_def bump_def)
  from covered.finish_slot_inv [OF this] show ?case using Cons p by (auto simp: panic_simps)
qed simp

lemma slots_waiting_recycle:
  "slots_waiting (batcher_recycle es ss b) = slots_waiting b" "bt_policy (batcher_recycle es ss b) = bt_policy b"
  by (simp_all add: slots_waiting_def batcher_recycle_def)

lemma apply_commit_covered:
  assumes "covered 0 r" "apply_commit c r = Some (ok, r')"
  shows "covered 0 r'"
proof -
  obtain batch b where n: "next_committed (rx_batcher r) = (batch, b)" by force
  have b: "covered (case batch of None \<Rightarrow> 0 | Some f \<Rightarrow> length (ib_slots f)) (r\<lparr>rx_batcher := b\<rparr>)"
    using assms(1) n next_committed_ok [OF _ n]
    by (auto simp: covered_def next_committed_def slots_waiting_def split: list.splits)
  show ?thesis
  proof (cases batch)
    case None
    then show ?thesis using assms(2) n covered_seal b by (auto simp: apply_commit_def seal_applies_def)
  next
    case (Some f)
    let ?r1 = "note_commit_wait (ib_proposed_at_nanos f) (r\<lparr>rx_batcher := b\<rparr>)"
    have r1: "covered (length (ib_slots f)) ?r1"
      using b Some by (simp add: note_commit_wait_def covered_def bump_def Let_def)
    show ?thesis
    proof (cases "ib_batch_id f = rc_batch_id c")
      case False
      then show ?thesis
        using assms(2) n Some covered_seal [OF covered_weaken [OF r1]] by (auto simp: apply_commit_def seal_applies_def)
    next
      case True
      let ?ps = "zip (rc_effects c) (ib_slots f)"
      obtain r2 where r2: "(case rc_outcome c of
          BatchCommitted \<Rightarrow> commit_batch ?ps (rc_index c) (?r1\<lparr>rx_applied_through := rc_index c\<rparr>)
        | BatchFailed \<Rightarrow> roll_back_batch ?ps
            (rx_record LK_COMMIT_FAILED (rc_batch_id c) (length (rc_effects c)) ?r1)) = Some r2"
        and r': "r' = r2\<lparr>rx_batcher := batcher_recycle (rc_effects c) (ib_slots f) (rx_batcher r2)\<rparr>"
        using assms(2) n Some True by (auto simp: apply_commit_def panic_simps Let_def)
      have "covered (length ?ps) ?r1" by (rule covered_weaken [OF r1]) simp
      then have "covered (0 + length ?ps) (?r1\<lparr>rx_applied_through := rc_index c\<rparr>)"
          "covered (0 + length ?ps) (rx_record LK_COMMIT_FAILED (rc_batch_id c) (length (rc_effects c)) ?r1)"
        by (simp_all add: covered_def rx_record_def)
      note kept = commit_batch_covered [OF this(1)] roll_back_batch_covered [OF this(2)]
      have "covered 0 r2" using r2 by (cases "rc_outcome c") (simp_all add: kept)
      then show ?thesis
        unfolding r' by (simp add: covered_def slots_waiting_recycle)
    qed
  qed
qed

lemma apply_loop_covered: "covered 0 r \<Longrightarrow> apply_loop cs r = Some r' \<Longrightarrow> covered 0 r'"
proof (induction cs arbitrary: r)
  case (Cons c cs)
  have "covered 0 (r\<lparr>rx_raft := snd (raft_poll (rx_raft r))\<rparr>)" using Cons.prems by (simp add: covered_def)
  note step = apply_commit_covered [OF this]
  obtain ok r1 where "apply_commit c (r\<lparr>rx_raft := snd (raft_poll (rx_raft r))\<rparr>) = Some (ok, r1)"
      "if ok then apply_loop cs r1 = Some r' else r' = r1"
    using Cons.prems by (auto simp: panic_simps split: if_splits)
  then show ?case using step Cons.IH by (cases ok) auto
qed simp

lemma apply_stage_covered: "covered 0 r \<Longrightarrow> apply_stage r = Some (b, r') \<Longrightarrow> covered 0 r'"
  by (auto simp: apply_stage_def panic_simps Let_def intro: apply_loop_covered split: if_splits)

lemma slots_waiting_steps:
  "slots_waiting (on_proposed i ss t b) = slots_waiting b + length ss" "bt_policy (on_proposed i ss t b) = bt_policy b"
  "batcher_ok b \<Longrightarrow> slots_waiting (batcher_restore es ss b) = slots_waiting b + length ss"
  "bt_policy (batcher_restore es ss b) = bt_policy b"
  by (auto simp: slots_waiting_def on_proposed_def batcher_restore_def batcher_ok_def Let_def)

lemma propose_covered:
  assumes "covered 0 r"
  shows "covered 0 (snd (propose r))"
proof -
  have ok: "batcher_ok (rx_batcher r)" using assms by (simp add: covered_def)
  obtain t b where t: "take_proposal (rx_now r) (rx_batcher r) = (t, b)" by force
  show ?thesis
  proof (cases t)
    case None
    then show ?thesis using assms t take_proposal_cases [OF ok t] by (simp add: propose_def)
  next
    case (Some q)
    obtain p slots where q: "q = (p, slots)" by force
    obtain sent rp where s: "raft_propose p (rx_raft r) = (sent, rp)" by force
    obtain n where n: "p = \<lparr>rp_batch_id = bt_next_batch_id (rx_batcher r), rp_effects = take n (bt_effects (rx_batcher r))\<rparr>"
        "slots = take n (bt_slots (rx_batcher r))" "bt_slots b = drop n (bt_slots (rx_batcher r))"
        "bt_in_flight b = bt_in_flight (rx_batcher r)" "bt_policy b = bt_policy (rx_batcher r)"
      using take_proposal_cases [OF ok t] Some q by auto
    have b: "batcher_ok b" "length (bt_in_flight b) < bp_in_flight (bt_policy b)"
      using take_proposal_ok [OF ok t] Some by simp_all
    have w: "slots_waiting b + length slots = slots_waiting (rx_batcher r)" using n by (simp add: slots_waiting_def)
    show ?thesis
    proof (cases sent)
      case True
      have "batcher_ok (on_proposed (rp_batch_id p) slots (rx_now r) b)" by (rule on_proposed_ok [OF b])
      then show ?thesis
        using assms t Some q s True n(5) w by (simp add: propose_def covered_def bump_def slots_waiting_steps)
    next
      case False
      have "length (rp_effects p) = length slots" using ok n by (simp add: batcher_ok_def)
      then have "batcher_ok (batcher_restore (rp_effects p) slots b)" using b by simp
      then show ?thesis
        using assms t Some q s False n(5) w b(1) by (simp add: propose_def covered_def bump_def slots_waiting_steps)
    qed
  qed
qed

interpretation covered_loop: loop_inv "covered 0"
  by unfold_locales (fact apply_stage_covered | fact propose_covered | simp add: covered_def rx_steps)+

section \<open>No effect is lost\<close>

text \<open>What consensus has answered and the node has not taken yet is for the batches in front, and each answer brings
  back as many effects as its batch has slots. An answer without its batch, or for another batch, seals the node.\<close>

definition fits_flight :: "RaftCommit list \<Rightarrow> InFlightBatch list \<Rightarrow> bool" where
  "fits_flight cs fs \<longleftrightarrow> length cs \<le> length fs \<and> list_all2 (\<lambda>c f. length (rc_effects c) = length (ib_slots f)) cs (take (length cs) fs)"

definition answers_fit :: "Reactor \<Rightarrow> bool" where
  "answers_fit r \<longleftrightarrow> fits_flight (ch_items (rft_commits (rx_raft r))) (bt_in_flight (rx_batcher r))"

lemma fits_flight_tl: "fits_flight (c # cs) fs \<Longrightarrow> \<exists>f rest. fs = f # rest \<and> length (rc_effects c) = length (ib_slots f) \<and> fits_flight cs rest"
  by (cases fs) (auto simp: fits_flight_def)

lemma fits_flight_more: "fits_flight cs fs \<Longrightarrow> fits_flight cs (fs @ gs)"
  by (simp add: fits_flight_def)

text \<open>Until the apply path is sealed, every judged effect is committed, rolled back, waiting, or one of the \<open>n\<close> at hand.\<close>

definition tally :: "nat \<Rightarrow> Reactor \<Rightarrow> bool" where
  "tally n r \<longleftrightarrow> sf_applies_sealed (rx_safety r) \<or>
     mt_judged (rx_metrics r) \<le> mt_committed (rx_metrics r) + mt_commit_failures (rx_metrics r) + slots_waiting (rx_batcher r) + n"

definition owing :: "nat \<Rightarrow> InFlightBatch list \<Rightarrow> RaftPort \<Rightarrow> Reactor \<Rightarrow> bool" where
  "owing n fs p r \<longleftrightarrow> tally n r \<and> bt_in_flight (rx_batcher r) = fs \<and> rx_raft r = p"

interpretation owing: judge_inv "owing n fs p" for n fs p
  by unfold_locales (auto simp: owing_def tally_def rx_steps slots_waiting_def batcher_push_def safety_ops Let_def split: prod.splits)

lemma owing_write: "owing n fs p r \<Longrightarrow> write_decision e slot at r = Some r' \<Longrightarrow> owing n fs p r'"
  by (auto simp: owing_def tally_def write_decision_def panic_simps Let_def bump_def split: option.splits)

lemma owing_seal: "owing n fs p r \<Longrightarrow> owing m fs p (rx_seal k a b r)"
  by (auto simp: owing_def tally_def rx_seal_def rx_steps safety_ops Let_def split: prod.splits)

lemma commit_effect_owing:
  assumes "owing (Suc n) fs p r" "commit_effect e slot at r = Some (ok, r')"
  shows "if ok then owing n fs p r' else owing 0 fs p r' \<and> sf_applies_sealed (rx_safety r')"
  using assms(2)
proof (cases rule: commit_effect_cases)
  case (failed err)
  then show ?thesis using owing_seal [OF assms(1)] by (auto simp: rx_seal_def rx_steps safety_ops Let_def split: prod.splits)
next
  case (applied u s item r1 pl)
  have "rx_raft (commit_core item s r) = rx_raft r"
    by (simp add: commit_core_def commit_answer_def answer_item_def bump_def)
  then have "owing n fs p (commit_core item s r)" using assms(1) by (simp add: owing_def tally_def)
  then have "owing n fs p (unpin_item item r1)"
    by (intro owing.unpin_item_inv owing_write [OF owing.settle_overlays_inv applied(4)])
  from owing.lanes_law [OF owing.release_law [OF this applied(5)]] show ?thesis unfolding applied(6) using applied(1) by simp
qed

lemma commit_batch_owing: "owing (length ps) fs p r \<Longrightarrow> commit_batch ps at r = Some r' \<Longrightarrow> owing 0 fs p r'"
proof (induction ps arbitrary: r)
  case (Cons q ps)
  obtain e slot where q: "q = (e, slot)" by force
  obtain ok r1 where c: "commit_effect e slot at r = Some (ok, r1)"
    and rest: "if ok then commit_batch ps at r1 = Some r' else r' = r1"
    using Cons.prems q by (auto simp: panic_simps split: if_splits)
  show ?case using commit_effect_owing [OF _ c, of "length ps" fs p] Cons.prems(1) rest Cons.IH [of r1] by (cases ok) simp_all
qed simp

lemma roll_back_batch_owing: "owing (length ps) fs p r \<Longrightarrow> roll_back_batch ps r = Some r' \<Longrightarrow> owing 0 fs p r'"
proof (induction ps arbitrary: r)
  case (Cons q ps)
  obtain e slot where q: "q = (e, slot)" by force
  have "owing (Suc (length ps)) fs p (give_back_overlays e r)"
    by (rule owing.give_back_overlays_inv) (use Cons.prems in simp)
  then have "owing (length ps) fs p (bump (mt_commit_failures_update Suc) (give_back_overlays e r))"
    by (simp add: owing_def tally_def bump_def)
  from owing.finish_slot_inv [OF this] show ?case using Cons q by (auto simp: panic_simps)
qed simp

lemma apply_commit_owing:
  assumes "tally 0 r" "bt_in_flight (rx_batcher r) = f # fs" "length (rc_effects c) = length (ib_slots f)"
    and "apply_commit c r = Some (ok, r')"
  shows "owing 0 fs (rx_raft r) r'"
proof -
  let ?b = "(rx_batcher r)\<lparr>bt_in_flight := fs\<rparr>"
  let ?r1 = "note_commit_wait (ib_proposed_at_nanos f) (r\<lparr>rx_batcher := ?b\<rparr>)"
  have n: "next_committed (rx_batcher r) = (Some f, ?b)" using assms(2) by (simp add: next_committed_def)
  have r1: "owing (length (ib_slots f)) fs (rx_raft r) ?r1"
    using assms(1,2) by (auto simp: owing_def tally_def note_commit_wait_def bump_def Let_def slots_waiting_def)
  show ?thesis
  proof (cases "ib_batch_id f = rc_batch_id c")
    case False
    then show ?thesis using assms(4) n owing_seal [OF r1] by (auto simp: apply_commit_def seal_applies_def)
  next
    case True
    let ?ps = "zip (rc_effects c) (ib_slots f)"
    obtain r2 where r2: "(case rc_outcome c of
          BatchCommitted \<Rightarrow> commit_batch ?ps (rc_index c) (?r1\<lparr>rx_applied_through := rc_index c\<rparr>)
        | BatchFailed \<Rightarrow> roll_back_batch ?ps
            (rx_record LK_COMMIT_FAILED (rc_batch_id c) (length (rc_effects c)) ?r1)) = Some r2"
      and r': "r' = r2\<lparr>rx_batcher := batcher_recycle (rc_effects c) (ib_slots f) (rx_batcher r2)\<rparr>"
      using assms(4) n True by (auto simp: apply_commit_def panic_simps Let_def)
    have "owing (length ?ps) fs (rx_raft r) (?r1\<lparr>rx_applied_through := rc_index c\<rparr>)"
        "owing (length ?ps) fs (rx_raft r) (rx_record LK_COMMIT_FAILED (rc_batch_id c) (length (rc_effects c)) ?r1)"
      using r1 assms(3) by (simp_all add: owing_def tally_def rx_record_def)
    note kept = commit_batch_owing [OF this(1)] roll_back_batch_owing [OF this(2)]
    have "owing 0 fs (rx_raft r) r2" using r2 by (cases "rc_outcome c") (simp_all add: kept)
    then show ?thesis unfolding r' by (simp add: owing_def tally_def slots_waiting_recycle) (simp add: batcher_recycle_def)
  qed
qed

lemma apply_loop_tally:
  "tally 0 r \<Longrightarrow> answers_fit r \<Longrightarrow> ch_items (rft_commits (rx_raft r)) = cs \<Longrightarrow> apply_loop cs r = Some r' \<Longrightarrow>
     tally 0 r' \<and> answers_fit r'"
proof (induction cs arbitrary: r)
  case (Cons c cs)
  let ?r = "r\<lparr>rx_raft := snd (raft_poll (rx_raft r))\<rparr>"
  obtain f fs where f: "bt_in_flight (rx_batcher r) = f # fs" "length (rc_effects c) = length (ib_slots f)" "fits_flight cs fs"
    using fits_flight_tl [of c cs "bt_in_flight (rx_batcher r)"] Cons.prems(2,3) by (auto simp: answers_fit_def)
  obtain ok r1 where c: "apply_commit c ?r = Some (ok, r1)"
    and rest: "if ok then apply_loop cs r1 = Some r' else r' = r1"
    using Cons.prems(4) by (auto simp: panic_simps split: if_splits)
  have "owing 0 fs (rx_raft ?r) r1"
    by (rule apply_commit_owing [OF _ _ f(2) c]) (use Cons.prems(1) f(1) in \<open>simp_all add: tally_def\<close>)
  moreover have "ch_items (rft_commits (rx_raft ?r)) = cs"
    using Cons.prems(3) by (simp add: raft_poll_def chan_pop_def)
  ultimately have "tally 0 r1" "answers_fit r1" "ch_items (rft_commits (rx_raft r1)) = cs"
    using f(3) by (simp_all add: owing_def answers_fit_def)
  then show ?case using rest Cons.IH [of r1] by (cases ok) auto
qed simp

lemma apply_stage_tally: "tally 0 r \<Longrightarrow> answers_fit r \<Longrightarrow> apply_stage r = Some (b, r') \<Longrightarrow> tally 0 r' \<and> answers_fit r'"
  by (auto simp: apply_stage_def panic_simps Let_def dest: apply_loop_tally [OF _ _ refl] split: if_splits)

lemma propose_tally:
  assumes "covered 0 r" "tally 0 r" "answers_fit r"
  shows "tally 0 (snd (propose r)) \<and> answers_fit (snd (propose r))"
proof -
  have ok: "batcher_ok (rx_batcher r)" using assms(1) by (simp add: covered_def)
  obtain t b where t: "take_proposal (rx_now r) (rx_batcher r) = (t, b)" by force
  show ?thesis
  proof (cases t)
    case None
    then show ?thesis using assms t take_proposal_cases [OF ok t] by (simp add: propose_def)
  next
    case (Some q)
    obtain p slots where q: "q = (p, slots)" by force
    obtain sent rp where s: "raft_propose p (rx_raft r) = (sent, rp)" by force
    obtain n where n: "slots = take n (bt_slots (rx_batcher r))" "bt_slots b = drop n (bt_slots (rx_batcher r))"
        "bt_in_flight b = bt_in_flight (rx_batcher r)" "length (rp_effects p) = length slots"
      using take_proposal_cases [OF ok t] Some q ok by (auto simp: batcher_ok_def)
    have b: "batcher_ok b" using take_proposal_ok [OF ok t] Some by simp
    have w: "slots_waiting b + length slots = slots_waiting (rx_batcher r)" using n by (simp add: slots_waiting_def)
    have commits: "rft_commits rp = rft_commits (rx_raft r)"
      using s by (auto simp: raft_propose_def Let_def split: prod.splits)
    show ?thesis
    proof (cases sent)
      case True
      then show ?thesis using assms(2,3) t Some q s w commits n(3)
        by (simp add: propose_def tally_def answers_fit_def bump_def slots_waiting_steps)
           (simp add: on_proposed_def fits_flight_more Let_def)
    next
      case False
      then show ?thesis using assms(2,3) t Some q s w b commits n(3,4)
        by (simp add: propose_def tally_def answers_fit_def bump_def slots_waiting_steps)
           (simp add: batcher_restore_def Let_def)
    qed
  qed
qed

definition accounted :: "Reactor \<Rightarrow> bool" where
  "accounted r \<longleftrightarrow> covered 0 r \<and> tally 0 r \<and> answers_fit r"

lemma accounted_apply: "accounted r \<Longrightarrow> apply_stage r = Some (b, r') \<Longrightarrow> accounted r'"
  unfolding accounted_def using apply_stage_covered apply_stage_tally by blast

lemma accounted_propose: "accounted r \<Longrightarrow> accounted (snd (propose r))"
  unfolding accounted_def using propose_covered propose_tally by blast

interpretation accounted_loop: loop_inv accounted
  by unfold_locales
     (fact accounted_propose | fact accounted_apply
      | simp add: accounted_def covered_def tally_def answers_fit_def rx_steps slots_waiting_def safety_ops)+

section \<open>Answers\<close>

text \<open>What has been answered since \<open>r0\<close>: the stream the client reads only grows, and it has one
  \<open>Committed\<close> for every effect applied that a client asked for, the rest being expiry voids.\<close>

definition acked :: "Reactor \<Rightarrow> Reactor \<Rightarrow> bool" where
  "acked r0 r \<longleftrightarrow> (\<exists>acks. outbox_stream (rx_outbox r) = outbox_stream (rx_outbox r0) @ acks
     \<and> length (filter (\<lambda>a. ak_outcome a = Committed) acks) + mt_holds_expired (rx_metrics r)
         + ma_applied (rx_accounts r0)
       = mt_holds_expired (rx_metrics r0) + ma_applied (rx_accounts r))"

interpretation acked: commit_inv "acked r0" for r0
  by unfold_locales (auto simp: acked_def rx_steps accounts_apply_counts)

interpretation acked_loop: loop_inv "acked r0" for r0
  by unfold_locales (fact acked.apply_stage_inv | simp add: acked_def rx_steps propose_frame [simplified])+

section \<open>Stopping\<close>

text \<open>Since \<open>r0\<close> the apply path has been sealed, and nothing was applied or answered as committed.\<close>

definition sealed_since :: "Reactor \<Rightarrow> Reactor \<Rightarrow> bool" where
  "sealed_since r0 r \<longleftrightarrow> sf_applies_sealed (rx_safety r) \<and> rx_accounts r = rx_accounts r0
     \<and> apply_stream (rx_pending r) = apply_stream (rx_pending r0)
     \<and> (\<exists>acks. outbox_stream (rx_outbox r) = outbox_stream (rx_outbox r0) @ acks \<and> Committed \<notin> ak_outcome ` set acks)"

lemma safety_kept [simp]:
  "sf_applies_sealed (snd (safety_fail_stop s)) = sf_applies_sealed s"
  "sf_applies_sealed (snd (safety_quarantine l s)) = sf_applies_sealed s"
  "sf_applies_sealed (snd (safety_seal_applies s))" "sf_fail_stop (snd (safety_seal_applies s))"
  "sf_fail_stop (snd (safety_fail_stop s))" "sf_fail_stop (snd (safety_quarantine l s)) = sf_fail_stop s"
  by (simp_all add: safety_ops)

interpretation sealed: intake_inv "sealed_since r0" for r0
  by unfold_locales (auto simp: sealed_since_def rx_steps apply_stream_kept pchan_flush_stream)

lemma apply_stage_sealed: "sealed_since r0 r \<Longrightarrow> apply_stage r = Some (b, r') \<Longrightarrow> sealed_since r0 r'"
  by (simp add: apply_stage_def sealed_since_def)

interpretation sealed_loop: loop_inv "sealed_since r0" for r0
  by unfold_locales (fact apply_stage_sealed | simp add: sealed_since_def rx_steps apply_stream_kept pchan_flush_stream propose_frame [simplified])+

text \<open>Since \<open>r0\<close> the node has been stopped, and no effect was judged.\<close>

definition halted_since :: "Reactor \<Rightarrow> Reactor \<Rightarrow> bool" where
  "halted_since r0 r \<longleftrightarrow> sf_fail_stop (rx_safety r) \<and> mt_judged (rx_metrics r) = mt_judged (rx_metrics r0)"

interpretation halted: commit_inv "halted_since r0" for r0
  by unfold_locales (auto simp: halted_since_def rx_steps)

interpretation halted_loop: loop_inv "halted_since r0" for r0
  by unfold_locales (fact halted.apply_stage_inv | simp add: halted_since_def rx_steps propose_frame [simplified])+

section \<open>The node and everything around it\<close>

text \<open>
  What other threads may do between two ticks, without any assumption on them: clients push requests and read
  acks, the three components consume and produce on their queues whatever they like, the engine publishes how
  far it has applied, and time passes. The operator's actions are steps too.
\<close>

inductive env_step :: "Reactor \<Rightarrow> Reactor \<Rightarrow> bool" where
  clients_push: "env_step r (r\<lparr>rx_pipeline := (rx_pipeline r)\<lparr>pp_requests := c\<rparr>\<rparr>)"
| clients_read: "env_step r (r\<lparr>rx_outbox := (rx_outbox r)\<lparr>ob_acks := acks\<rparr>\<rparr>)"
| idem_works: "env_step r (r\<lparr>rx_idem := ip\<rparr>)"
| raft_works: "env_step r (r\<lparr>rx_raft := rp\<rparr>)"
| engine_works: "env_step r (r\<lparr>rx_pending := (rx_pending r)\<lparr>pc_port := (pc_port (rx_pending r))
     \<lparr>mp_commands := cs, mp_results := rs, mp_notices := ns, mp_applied := n\<rparr>\<rparr>\<rparr>)"
| time_passes: "rx_now r \<le> t \<Longrightarrow> env_step r (r\<lparr>rx_now := t\<rparr>)"

inductive node_step :: "Reactor \<Rightarrow> Reactor \<Rightarrow> bool" where
  ticks: "tick r = Some (progress, r') \<Longrightarrow> node_step r r'"
| around: "env_step r r' \<Longrightarrow> node_step r r'"
| closes: "node_step r (close_intake r)"
| releases: "rx_release_quarantine i r = (res, r') \<Longrightarrow> node_step r r'"
| clears: "rx_clear_fail_stop r = (res, r') \<Longrightarrow> node_step r r'"

text \<open>The states of a node built by \<open>with_clock\<close> over a ledger whose books balance.\<close>

inductive reachable :: "Reactor \<Rightarrow> bool" where
  built: "reactor_with_clock config requests acks accounts pending idem raft now = Inr r \<Longrightarrow>
    accounts_wf accounts \<Longrightarrow> totals_balanced accounts \<Longrightarrow> ma_applied accounts = 0 \<Longrightarrow> reachable r"
| stepped: "reachable r \<Longrightarrow> node_step r r' \<Longrightarrow> reachable r'"

inductive_cases env_stepE: "env_step r r'"
inductive_cases node_stepE: "node_step r r'"

definition sound :: "Reactor \<Rightarrow> bool" where
  "sound r \<longleftrightarrow> double_entry r \<and> view_agrees r \<and> covered 0 r"

lemma built_sound:
  assumes "reactor_with_clock config requests acks accounts pending idem raft now = Inr r"
    "accounts_wf accounts" "totals_balanced accounts" "ma_applied accounts = 0"
  shows "sound r"
  using assms
  by (auto simp: reactor_with_clock_def rbind_eq_Inr Let_def sound_def double_entry_def view_agrees_def covered_def
      metrics_default_def slots_waiting_def) (auto simp: batcher_new_def)

lemma env_step_sound: "env_step r r' \<Longrightarrow> sound r \<Longrightarrow> sound r'"
  by (erule env_stepE) (simp_all add: sound_def double_entry_def view_agrees_def covered_def)

lemma operator_sound:
  "sound r \<Longrightarrow> sound (close_intake r)"
  "sound r \<Longrightarrow> rx_release_quarantine i r = (res, r') \<Longrightarrow> sound r'"
  "sound r \<Longrightarrow> rx_clear_fail_stop r = (res, r') \<Longrightarrow> sound r'"
  by (auto simp: sound_def double_entry_def view_agrees_def covered_def close_intake_def rx_release_quarantine_def
      rx_clear_fail_stop_def rx_record_def Let_def split: option.splits prod.splits sum.splits if_splits)

lemma tick_sound: "sound r \<Longrightarrow> tick r = Some (b, r') \<Longrightarrow> sound r'"
  unfolding sound_def using entry_loop.tick_inv view_loop.tick_inv covered_loop.tick_inv by blast

lemma reachable_sound: "reachable r \<Longrightarrow> sound r"
proof (induction rule: reachable.induct)
  case built
  then show ?case by (rule built_sound)
next
  case (stepped r r')
  from stepped.hyps(2) show ?case
    using stepped.IH by (cases rule: node_step.cases) (auto intro: tick_sound env_step_sound operator_sound)
qed

section \<open>Runs with a faithful consensus\<close>

text \<open>A node is faithfully served while every answer put into the consensus queue fits the batch it is for.\<close>

inductive faithful :: "Reactor \<Rightarrow> bool" where
  faithful_built: "reactor_with_clock config requests acks accounts pending idem raft now = Inr r \<Longrightarrow>
    accounts_wf accounts \<Longrightarrow> totals_balanced accounts \<Longrightarrow> ma_applied accounts = 0 \<Longrightarrow>
    ch_items (rft_commits raft) = [] \<Longrightarrow> faithful r"
| faithful_tick: "faithful r \<Longrightarrow> tick r = Some (progress, r') \<Longrightarrow> faithful r'"
| faithful_around: "faithful r \<Longrightarrow> env_step r r' \<Longrightarrow> answers_fit r' \<Longrightarrow> faithful r'"
| faithful_closes: "faithful r \<Longrightarrow> faithful (close_intake r)"
| faithful_releases: "faithful r \<Longrightarrow> rx_release_quarantine i r = (res, r') \<Longrightarrow> faithful r'"
| faithful_clears: "faithful r \<Longrightarrow> rx_clear_fail_stop r = (res, r') \<Longrightarrow> faithful r'"

lemma built_accounted:
  assumes "reactor_with_clock config requests acks accounts pending idem raft now = Inr r"
    "ch_items (rft_commits raft) = []"
  shows "accounted r"
  using assms
  by (auto simp: reactor_with_clock_def rbind_eq_Inr Let_def accounted_def covered_def tally_def answers_fit_def fits_flight_def
      metrics_default_def slots_waiting_def) (auto simp: batcher_new_def)

lemma env_step_accounted: "env_step r r' \<Longrightarrow> accounted r \<Longrightarrow> answers_fit r' \<Longrightarrow> accounted r'"
  by (erule env_stepE) (simp_all add: accounted_def covered_def tally_def)

lemma operator_accounted:
  "accounted r \<Longrightarrow> accounted (close_intake r)"
  "accounted r \<Longrightarrow> rx_release_quarantine i r = (res, r') \<Longrightarrow> accounted r'"
  "accounted r \<Longrightarrow> rx_clear_fail_stop r = (res, r') \<Longrightarrow> accounted r'"
  by (auto simp: accounted_def covered_def tally_def answers_fit_def close_intake_def rx_release_quarantine_def safety_ops
      rx_clear_fail_stop_def rx_record_def Let_def split: option.splits prod.splits sum.splits if_splits)

lemma faithful_accounted: "faithful r \<Longrightarrow> accounted r"
  by (induction rule: faithful.induct)
     (auto intro: built_accounted accounted_loop.tick_inv env_step_accounted operator_accounted)

lemma faithful_reachable: "faithful r \<Longrightarrow> reachable r"
  by (induction rule: faithful.induct)
     (blast intro: reachable.intros node_step.intros)+

end
