(* ===== verification/Verdicts.thy ===== *)
theory Verdicts
  imports Judge
begin

text \<open>
  What a judgement decides: an accepted effect is covered by what the account or the hold has, a hold is
  never promised twice, a chain is proposed whole or rejected whole with nothing kept of it, and the cascade
  leaves no ready request behind.
\<close>

section \<open>One request\<close>

lemma accept_item_keeps:
  assumes "accept_item item r = Some (Inr u, r1)"
  shows "rx_accounts r1 = rx_accounts r" "rx_pending r1 = rx_pending r" "rx_pipeline r1 = rx_pipeline r"
    "ln_speculative (lane_at (rx_lanes r1) n) = ln_speculative (lane_at (rx_lanes r) n)"
  using assms
  by (auto simp: accept_item_def panic_simps Let_def lane_at_get_mut lanes_peek_eq accept_seq_def
      split: if_splits prod.splits sum.splits option.splits IdemVerdict.splits)

lemma decide_item_Inr:
  assumes "decide_item slot item ch r = Some (Inr e, r1)"
  shows "\<exists>u. accept_item item r = Some (Inr u, r1) \<and> build_effect slot item ch r1 = Some (Inr e)"
proof -
  obtain acc r2 where a: "accept_item item r = Some (acc, r2)" using assms by (auto simp: decide_item_def panic_simps)
  then show ?thesis using assms by (cases acc) (auto simp: decide_item_def panic_simps)
qed

lemma resolving_checks_Inr:
  assumes "resolving_checks item kind v a = Inr e"
  shows "\<not> hv_resolved v" "hv_debit_account v = tr_debit_account (wi_tx item)"
    "hv_credit_account v = tr_credit_account (wi_tx item)" "hv_ledger v = tr_ledger (wi_tx item)"
    "0 < ef_amount e" "ef_amount e \<le> hv_remaining v" "ef_kind e = kind"
    "ef_pending_ref e = tr_pending_ref (wi_tx item)"
    "ef_remaining_after e = i64_sub (hv_remaining v) (ef_amount e)"
    "ef_amount e = (case kind of Void \<Rightarrow> hv_remaining v | _ \<Rightarrow> tr_amount (wi_tx item))"
    "accounts_resolve a (hv_debit_account v) = Some (ef_debit e)"
    "accounts_resolve a (hv_credit_account v) = Some (ef_credit e)"
    "hv_budget v = 0 \<or> ef_amount e = hv_remaining v \<and> (hv_budget_members v \<le> 1 \<or> wi_chain item \<noteq> 0)"
  using assms
  by (auto simp: resolving_checks_def Let_def rbind_eq_Inr ok_or_eq_Inr allow_resolution_def is_absent_def
      split: if_splits)

text \<open>The hold a resolution is decided against: the one its chain has made, else the record under its overlay.\<close>

lemma build_effect_resolving:
  assumes "build_effect slot item ch r = Some (Inr e)" "needs_pending_lookup (wi_kind item)"
  shows "\<exists>v kind. (case Option.bind ch (\<lambda>s. scratch_hold s (tr_pending_ref (wi_tx item))) of
         Some w \<Rightarrow> v = w | None \<Rightarrow> hold_view slot (tr_pending_ref (wi_tx item)) r = Some (Some v))
       \<and> resolving_checks item kind v (rx_accounts r) = Inr e \<and> kind \<in> {EffectKind.Settle, Void}"
  using assms
  by (cases "wi_kind item")
     (auto simp: build_effect_def resolving_effect_def panic_simps split: option.splits)

lemma build_effect_direct:
  assumes "build_effect slot item ch r = Some (Inr e)" "\<not> needs_pending_lookup (wi_kind item)"
  shows "\<exists>rec lane. accounts_record (rx_accounts r) (wi_debit item) = Some rec
       \<and> lanes_get (rx_lanes r) (wi_debit item) = Some lane
       \<and> (is_constrained rec \<longrightarrow> tr_amount (wi_tx item) \<le> i64_add (i64_add (available rec) (ln_speculative lane))
            (case ch of None \<Rightarrow> 0 | Some s \<Rightarrow> scratch_available_for s (wi_debit item)))
       \<and> ef_amount e = tr_amount (wi_tx item) \<and> ef_debit e = wi_debit item \<and> ef_credit e = wi_credit item"
  using assms
  by (cases "wi_kind item") (auto simp: build_effect_def direct_effect_def panic_simps Let_def split: if_splits)

text \<open>C8: an accepted request is covered. The node has not stopped; a transfer or a hold on a constrained
  account moves no more than the account has, less what is already promised from its lane, plus what the
  legs before it bring; a resolution names an unresolved hold of the same accounts and ledger, takes a
  positive amount no larger than what the hold has left, and leaves exactly the difference.\<close>

theorem accepted_effect_is_covered:
  assumes "decide_item slot item ch r = Some (Inr e, r1)"
  shows "\<not> sf_fail_stop (rx_safety r) \<and>
    (if needs_pending_lookup (wi_kind item)
     then \<exists>v. (Option.bind ch (\<lambda>s. scratch_hold s (tr_pending_ref (wi_tx item))) = Some v
               \<or> hold_view slot (tr_pending_ref (wi_tx item)) r = Some (Some v))
            \<and> \<not> hv_resolved v \<and> 0 < ef_amount e \<and> ef_amount e \<le> hv_remaining v
            \<and> ef_remaining_after e = i64_sub (hv_remaining v) (ef_amount e)
            \<and> hv_debit_account v = tr_debit_account (wi_tx item) \<and> hv_credit_account v = tr_credit_account (wi_tx item)
            \<and> hv_ledger v = tr_ledger (wi_tx item)
     else \<exists>rec. accounts_record (rx_accounts r) (wi_debit item) = Some rec
            \<and> ef_amount e = tr_amount (wi_tx item)
            \<and> (is_constrained rec \<longrightarrow> ef_amount e \<le> i64_add (i64_add (available rec)
                 (ln_speculative (lane_at (rx_lanes r) (handle_index (wi_debit item)))))
                 (case ch of None \<Rightarrow> 0 | Some s \<Rightarrow> scratch_available_for s (wi_debit item))))"
proof -
  obtain u where acc: "accept_item item r = Some (Inr u, r1)" and b: "build_effect slot item ch r1 = Some (Inr e)"
    using decide_item_Inr [OF assms] by blast
  note kept = accept_item_keeps [OF acc]
  have running: "\<not> sf_fail_stop (rx_safety r)" using accept_item_running [OF acc] by metis
  show ?thesis
  proof (cases "needs_pending_lookup (wi_kind item)")
    case True
    from build_effect_resolving [OF b this] obtain v kind where
      v: "Option.bind ch (\<lambda>s. scratch_hold s (tr_pending_ref (wi_tx item))) = Some v
         \<or> hold_view slot (tr_pending_ref (wi_tx item)) r1 = Some (Some v)"
      and c: "resolving_checks item kind v (rx_accounts r1) = Inr e"
      by (cases "Option.bind ch (\<lambda>s. scratch_hold s (tr_pending_ref (wi_tx item)))") auto
    have "hold_view slot (tr_pending_ref (wi_tx item)) r1 = hold_view slot (tr_pending_ref (wi_tx item)) r"
      by (simp add: hold_view_def kept)
    then show ?thesis using running True v resolving_checks_Inr [OF c] by auto
  next
    case False
    from build_effect_direct [OF b this] show ?thesis
      using running False kept by (auto simp: lanes_get_Some)
  qed
qed

definition sample_funded :: Reactor where
  "sample_funded = (sample_node [])
     \<lparr>rx_accounts := sample_accounts\<lparr>ma_records := [(account_new 1 AF_NONE)\<lparr>ac_debits_posted := 100\<rparr>,
                       (account_new 1 AF_CONSTRAINED)\<lparr>ac_credits_posted := 100\<rparr>]\<rparr>,
      rx_lanes := [lane_default, lane_default\<lparr>ln_seq_counter := 1, ln_speculative := -30\<rparr>]\<rparr>"

definition sample_item :: "Amount \<Rightarrow> WorkItem" where
  "sample_item amount = work_item_default
     \<lparr>wi_tx := sample_transfer\<lparr>tr_debit_account := 2, tr_credit_account := 1, tr_amount := amount\<rparr>,
      wi_seq := 1, wi_lane := 2, wi_kind := SinglePhase, wi_debit := 1, wi_credit := 0, wi_verdict := Some Fresh\<rparr>"

text \<open>Of the hundred the account has, thirty are promised: seventy is accepted and seventy-one is not.\<close>

lemma sample_decisions:
  "map_option (map_sum id ef_amount \<circ> fst) (decide_item 0 (sample_item 70) None sample_funded) = Some (Inr 70)"
  "map_option (map_sum id ef_amount \<circ> fst) (decide_item 0 (sample_item 71) None sample_funded)
     = Some (Inl (InsufficientBalance 70 71))"
  by code_simp+

lemma decided_amount: "map_option (map_sum id f \<circ> fst) x = Some (Inr a) \<Longrightarrow> \<exists>e r. x = Some (Inr e, r) \<and> f e = a"
  by (auto simp: map_sum_def split: sum.splits) (metis (no_types) old.sum.exhaust)

theorem accepted_effect_is_covered_witness:
  "\<exists>e r1. decide_item 0 (sample_item 70) None sample_funded = Some (Inr e, r1) \<and> ef_amount e = 70
     \<and> \<not> sf_fail_stop (rx_safety sample_funded)"
proof -
  obtain e r1 where d: "decide_item 0 (sample_item 70) None sample_funded = Some (Inr e, r1)" and "ef_amount e = 70"
    using decided_amount [OF sample_decisions(1)] by blast
  then show ?thesis using accepted_effect_is_covered [OF d] by blast
qed

section \<open>One hold\<close>

lemma hold_entry_after_reserve:
  assumes "resolves_hold e" "ov_get (mp_overlay (pc_port (rx_pending r))) (ef_pending_ref e) = Some (Decided d)"
  shows "ov_get (mp_overlay (pc_port (rx_pending (take_overlays e r)))) (ef_pending_ref e) =
    Some (Decided (d\<lparr>ho_reserved := i64_add (ho_reserved d) (ef_amount e),
                    ho_resolved := ho_resolved d \<or> ef_remaining_after e = 0\<rparr>))"
  using assms
  by (simp add: take_overlays_def reserve_hold_def with_overlay_def pchan_with_overlay_def pending_with_overlay_def
      ov_reserve_def ov_decided_mut_def)

lemma resolve_first_entry:
  "map_of (resolve_first h left hs) h = map_option (\<lambda>v. v\<lparr>hv_remaining := left, hv_resolved := (left = 0)\<rparr>) (map_of hs h)"
  by (induction hs) auto

lemma scratch_after_resolution:
  assumes "scratch_hold s (ef_pending_ref e) = Some v" "ef_kind e \<in> {EffectKind.Settle, Void}"
  shows "scratch_hold (scratch_note e s) (ef_pending_ref e) =
    Some (v\<lparr>hv_remaining := ef_remaining_after e, hv_resolved := (ef_remaining_after e = 0)\<rparr>)"
proof -
  have "ls_holds (scratch_add g s) = ls_holds s" for g by (simp add: scratch_add_def split: option.split)
  then show ?thesis
    using assms by (auto simp: scratch_note_def scratch_hold_def scratch_resolve_def resolve_first_entry Let_def)
qed

text \<open>C7: a hold is never promised beyond what it has left, and never resolved twice, inside a chain and outside. A
  resolution that is accepted names a hold made by an earlier leg of its chain or one with a record. In the first
  case that hold is unresolved, the amount is positive and no more than it has left, and noting the leg takes
  exactly the amount from it, and resolves it exactly when nothing is left. In the second case, once the sequencer has
  decided about the hold, the hold is unresolved; taking the overlays, as is done before the next request or leg is
  judged, adds the amount to what is reserved, which stays within the committed remainder, and marks the hold
  resolved exactly when nothing is left, so that every later resolution of it is refused. Amounts are in the range of
  their type, and what is reserved and committed is not negative.\<close>

theorem resolution_stays_within_hold:
  assumes "decide_item slot item ch r = Some (Inr e, r1)" and "needs_pending_lookup (wi_kind item)"
  shows "(\<forall>s v. ch = Some s \<and> scratch_hold s (tr_pending_ref (wi_tx item)) = Some v \<and> i64_ok (hv_remaining v) \<longrightarrow>
      \<not> hv_resolved v \<and> 0 < ef_amount e \<and> ef_amount e \<le> hv_remaining v
      \<and> scratch_hold (scratch_note e s) (tr_pending_ref (wi_tx item)) =
          Some (v\<lparr>hv_remaining := hv_remaining v - ef_amount e, hv_resolved := (ef_amount e = hv_remaining v)\<rparr>))
    \<and> (\<forall>rec d. (\<forall>s. ch = Some s \<longrightarrow> scratch_hold s (tr_pending_ref (wi_tx item)) = None)
      \<and> pipeline_record slot (rx_pipeline r) = Some (Some rec) \<and> 0 \<le> hd_remaining rec
      \<and> ov_get (mp_overlay (pc_port (rx_pending r))) (tr_pending_ref (wi_tx item)) = Some (Decided d)
      \<and> 0 \<le> ho_reserved d \<and> 0 \<le> ho_committed_remaining d \<and> i64_ok (ho_reserved d) \<and> i64_ok (ho_committed_remaining d) \<longrightarrow>
      \<not> ho_resolved d \<and> 0 < ef_amount e \<and>
      (\<exists>d'. ov_get (mp_overlay (pc_port (rx_pending (take_overlays e r1)))) (tr_pending_ref (wi_tx item)) = Some (Decided d')
         \<and> ho_reserved d' = ho_reserved d + ef_amount e \<and> ho_reserved d' \<le> ho_committed_remaining d'
         \<and> ho_committed_remaining d' = ho_committed_remaining d
         \<and> (ho_resolved d' \<longleftrightarrow> ef_remaining_after e = 0)))"
proof -
  let ?h = "tr_pending_ref (wi_tx item)"
  obtain u where acc: "accept_item item r = Some (Inr u, r1)" and b: "build_effect slot item ch r1 = Some (Inr e)"
    using decide_item_Inr [OF assms(1)] by blast
  note kept = accept_item_keeps [OF acc]
  obtain v kind where v: "case Option.bind ch (\<lambda>s. scratch_hold s ?h) of Some w \<Rightarrow> v = w | None \<Rightarrow> hold_view slot ?h r1 = Some (Some v)"
    and c: "resolving_checks item kind v (rx_accounts r1) = Inr e" "kind \<in> {EffectKind.Settle, Void}"
    using build_effect_resolving [OF b assms(2)] by blast
  note rc = resolving_checks_Inr [OF c(1)]
  have e: "resolves_hold e" "ef_pending_ref e = ?h" "ef_kind e \<in> {EffectKind.Settle, Void}"
    using rc(7,8) c(2) by (auto simp: resolves_hold_def)
  show ?thesis
  proof (intro conjI allI impI; elim conjE)
    fix s w assume s: "ch = Some s" "scratch_hold s ?h = Some w" and ok: "i64_ok (hv_remaining w)"
    then have w: "v = w" using v by simp
    show "\<not> hv_resolved w" "0 < ef_amount e" "ef_amount e \<le> hv_remaining w" using rc(1,5,6) w by simp_all
    have "i64_ok (hv_remaining w - ef_amount e)" using rc(5,6) ok w by (auto simp: i64_ok_def)
    then have "ef_remaining_after e = hv_remaining w - ef_amount e" using rc(9) w by (simp add: i64_sub_id)
    moreover have "(hv_remaining w - ef_amount e = 0) = (ef_amount e = hv_remaining w)" by auto
    ultimately show "scratch_hold (scratch_note e s) ?h =
        Some (w\<lparr>hv_remaining := hv_remaining w - ef_amount e, hv_resolved := (ef_amount e = hv_remaining w)\<rparr>)"
      using scratch_after_resolution [of s e w] s(2) e(2,3) by simp
  next
    fix rec d
    assume none: "\<forall>s. ch = Some s \<longrightarrow> scratch_hold s ?h = None"
      and rec: "pipeline_record slot (rx_pipeline r) = Some (Some rec)" "0 \<le> hd_remaining rec"
      and d: "ov_get (mp_overlay (pc_port (rx_pending r))) ?h = Some (Decided d)"
      and ok: "0 \<le> ho_reserved d" "0 \<le> ho_committed_remaining d" "i64_ok (ho_reserved d)" "i64_ok (ho_committed_remaining d)"
    have view: "hold_view slot ?h r1 = Some (Some v)" using v none by (cases ch) auto
    let ?c = "min (ho_committed_remaining d) (hd_remaining rec)"
    have rem: "hv_remaining v = i64_sub ?c (ho_reserved d)" and res: "hv_resolved v = ho_resolved d"
      using view rec(1) d kept(2,3)
      by (auto simp: hold_view_def pchan_overlay_def ov_overlay_def ov_known_def hold_view_compose_def Let_def)
    have "i64_ok (?c - ho_reserved d)" using rec(2) ok by (auto simp: i64_ok_def min_def)
    then have within: "ho_reserved d + ef_amount e \<le> ho_committed_remaining d" "0 < ef_amount e"
      using rc(5,6) rem by (simp_all add: i64_sub_id)
    have "i64_add (ho_reserved d) (ef_amount e) = ho_reserved d + ef_amount e"
      by (rule i64_add_id) (use within ok in \<open>simp add: i64_ok_def\<close>)
    then have "ov_get (mp_overlay (pc_port (rx_pending (take_overlays e r1)))) ?h =
        Some (Decided (d\<lparr>ho_reserved := ho_reserved d + ef_amount e, ho_resolved := ef_remaining_after e = 0\<rparr>))"
      using hold_entry_after_reserve [of e r1 d] e(1,2) d kept(2) rc(1) res by simp
    then show "\<exists>d'. ov_get (mp_overlay (pc_port (rx_pending (take_overlays e r1)))) ?h = Some (Decided d')
         \<and> ho_reserved d' = ho_reserved d + ef_amount e \<and> ho_reserved d' \<le> ho_committed_remaining d'
         \<and> ho_committed_remaining d' = ho_committed_remaining d \<and> (ho_resolved d' \<longleftrightarrow> ef_remaining_after e = 0)"
      using within(1) by simp
    show "\<not> ho_resolved d" "0 < ef_amount e" using rc(1) res within(2) by simp_all
  qed
qed

definition sample_record :: HoldData where
  "sample_record = \<lparr>hd_debit_account = 2, hd_credit_account = 1, hd_amount = 100, hd_remaining = 100,
     hd_ledger = 1, hd_budget = 0, hd_budget_members = 0, hd_budget_remaining = 0\<rparr>"

definition sample_holding :: Reactor where
  "sample_holding = sample_funded
     \<lparr>rx_pipeline := (rx_pipeline sample_funded)\<lparr>pp_slots := (pp_slots (rx_pipeline sample_funded))
        \<lparr>po_records := [answer_default\<lparr>an_record := Some sample_record\<rparr>]\<rparr>\<rparr>,
      rx_pending := (rx_pending sample_funded)\<lparr>pc_port := sample_pending\<lparr>mp_overlay := (overlay_new 8 8)
        \<lparr>ov_entries := [(9, Decided \<lparr>ho_pinned = 1, ho_committed_remaining = 100, ho_reserved = 40, ho_resolved = False\<rparr>)]\<rparr>\<rparr>\<rparr>\<rparr>"

definition sample_settle :: "Amount \<Rightarrow> WorkItem" where
  "sample_settle amount = (sample_item amount)\<lparr>wi_kind := TransferKind.Settle,
     wi_tx := (wi_tx (sample_item amount))\<lparr>tr_pending_ref := 9\<rparr>\<rparr>"

text \<open>Of the hundred the hold has left, forty are reserved: sixty is accepted, sixty-one is not.\<close>

lemma sample_resolutions:
  "map_option (map_sum id ef_amount \<circ> fst) (decide_item 0 (sample_settle 60) None sample_holding) = Some (Inr 60)"
  "map_option (map_sum id ef_amount \<circ> fst) (decide_item 0 (sample_settle 61) None sample_holding)
     = Some (Inl (SettleExceedsRemaining 60 61))"
  by code_simp+

text \<open>A chain in which an earlier leg made a hold of a hundred: thirty of it settles.\<close>

definition sample_scratch :: LinkedScratch where
  "sample_scratch = scratch_new\<lparr>ls_holds := [(9, \<lparr>hv_debit_account = 2, hv_credit_account = 1, hv_ledger = 1, hv_budget = 0,
     hv_budget_members = 0, hv_budget_remaining = 0, hv_remaining = 100, hv_resolved = False\<rparr>)]\<rparr>"

lemma sample_chain_resolution:
  "map_option (map_sum id ef_amount \<circ> fst) (decide_item 0 (sample_settle 30) (Some sample_scratch) sample_funded) = Some (Inr 30)"
  by code_simp

theorem resolution_stays_within_hold_witness:
  "(\<exists>e r1 d'. decide_item 0 (sample_settle 60) None sample_holding = Some (Inr e, r1)
     \<and> ov_get (mp_overlay (pc_port (rx_pending (take_overlays e r1)))) 9 = Some (Decided d')
     \<and> ho_reserved d' = 100 \<and> ho_committed_remaining d' = 100)
   \<and> (\<exists>e r1. decide_item 0 (sample_settle 30) (Some sample_scratch) sample_funded = Some (Inr e, r1)
     \<and> map_option hv_remaining (scratch_hold (scratch_note e sample_scratch) 9) = Some 70)"
proof (intro conjI)
  have lookup: "needs_pending_lookup (wi_kind (sample_settle a))" "tr_pending_ref (wi_tx (sample_settle a)) = 9" for a
    by (simp_all add: sample_settle_def)
  obtain e r1 where d: "decide_item 0 (sample_settle 60) None sample_holding = Some (Inr e, r1)" and a: "ef_amount e = 60"
    using decided_amount [OF sample_resolutions(1)] by blast
  have "pipeline_record 0 (rx_pipeline sample_holding) = Some (Some sample_record)" "0 \<le> hd_remaining sample_record"
      "ov_get (mp_overlay (pc_port (rx_pending sample_holding))) 9
      = Some (Decided \<lparr>ho_pinned = 1, ho_committed_remaining = 100, ho_reserved = 40, ho_resolved = False\<rparr>)"
    by (simp_all add: sample_holding_def pipeline_record_def slots_record_def sample_record_def ov_get_def)
  then show "\<exists>e r1 d'. decide_item 0 (sample_settle 60) None sample_holding = Some (Inr e, r1)
     \<and> ov_get (mp_overlay (pc_port (rx_pending (take_overlays e r1)))) 9 = Some (Decided d')
     \<and> ho_reserved d' = 100 \<and> ho_committed_remaining d' = 100"
    using conjunct2 [OF resolution_stays_within_hold [OF d lookup(1)]] d a by (fastforce simp: i64_ok_def lookup(2))
  obtain f s1 where f: "decide_item 0 (sample_settle 30) (Some sample_scratch) sample_funded = Some (Inr f, s1)" "ef_amount f = 30"
    using decided_amount [OF sample_chain_resolution] by blast
  then show "\<exists>e r1. decide_item 0 (sample_settle 30) (Some sample_scratch) sample_funded = Some (Inr e, r1)
     \<and> map_option hv_remaining (scratch_hold (scratch_note e sample_scratch) 9) = Some 70"
    using conjunct1 [OF resolution_stays_within_hold [OF f(1) lookup(1)]]
    by (simp add: lookup(2) sample_scratch_def scratch_hold_def i64_ok_def)
qed

section \<open>Chains\<close>

definition promised :: "Reactor \<Rightarrow> nat \<Rightarrow> Amount" where
  "promised r n = ln_speculative (lane_at (rx_lanes r) n)"

text \<open>What a list of effects takes from one lane.\<close>

definition taken_from :: "nat \<Rightarrow> Effect list \<Rightarrow> int" where
  "taken_from n es = sum_list (map (\<lambda>e. if handle_index (ef_debit e) = n then ef_reservation e else 0) es)"

lemma taken_from_append [simp]: "taken_from n (xs @ ys) = taken_from n xs + taken_from n ys"
  by (simp add: taken_from_def)

text \<open>What a decision does not touch.\<close>

definition untouched :: "Reactor \<Rightarrow> Reactor \<Rightarrow> bool" where
  "untouched r r' \<longleftrightarrow> rx_batcher r' = rx_batcher r \<and> rx_outbox r' = rx_outbox r
     \<and> mt_judged (rx_metrics r') = mt_judged (rx_metrics r) \<and> rx_pipeline r' = rx_pipeline r"

lemma untouched_refl [simp]: "untouched r r" by (simp add: untouched_def)

lemma untouched_trans: "untouched r s \<Longrightarrow> untouched s t \<Longrightarrow> untouched r t" by (simp add: untouched_def)

lemma on_seq_gap_untouched [simp]:
  "untouched r (on_seq_gap l h q r)" "promised (on_seq_gap l h q r) n = promised r n"
  by (auto simp: untouched_def promised_def on_seq_gap_def quarantine_lane_def trip_fail_stop_def rx_record_def bump_def
      Let_def lane_at_get_mut lane_quarantine_def split: prod.splits)

lemma accept_item_untouched:
  assumes "accept_item item r = Some (x, r')"
  shows "untouched r r' \<and> promised r' n = promised r n"
proof -
  obtain res l where q: "accept_seq (wi_seq item) (lanes_peek (rx_lanes r) (wi_debit item)) = (res, l)" by force
  let ?r1 = "r\<lparr>rx_lanes := lanes_get_mut (wi_debit item) (\<lambda>_. l) (rx_lanes r)\<rparr>"
  have "ln_speculative l = ln_speculative (lane_at (rx_lanes r) (handle_index (wi_debit item)))"
    using q by (auto simp: accept_seq_def lanes_peek_eq Let_def split: if_splits)
  then have r1: "untouched r ?r1" "promised ?r1 n = promised r n"
    by (simp_all add: untouched_def promised_def lane_at_get_mut)
  have "r' = r \<or> r' = ?r1 \<or> r' = on_seq_gap (wi_lane item) (wi_debit item) (wi_seq item) ?r1"
    using assms q
    by (auto simp: accept_item_def Let_def panic_simps
        split: if_splits sum.splits option.splits IdemVerdict.splits)
  moreover have "untouched r (on_seq_gap (wi_lane item) (wi_debit item) (wi_seq item) ?r1)"
    by (rule untouched_trans [OF r1(1) on_seq_gap_untouched(1)])
  moreover have "promised (on_seq_gap (wi_lane item) (wi_debit item) (wi_seq item) ?r1) n = promised r n"
    using r1(2) by simp
  ultimately show ?thesis using r1 by (elim disjE) simp_all
qed

lemma decide_item_untouched:
  assumes "decide_item slot item ch r = Some (x, r')"
  shows "untouched r r' \<and> promised r' n = promised r n"
proof -
  obtain acc r1 where a: "accept_item item r = Some (acc, r1)" using assms by (auto simp: decide_item_def panic_simps)
  then have "r' = r1" using assms by (cases acc) (auto simp: decide_item_def panic_simps)
  then show ?thesis using accept_item_untouched [OF a] by simp
qed

text \<open>A reservation moves a lane's promise, modulo the width of an amount, and stays in it.\<close>

definition moved :: "Reactor \<Rightarrow> Reactor \<Rightarrow> nat \<Rightarrow> int \<Rightarrow> bool" where
  "moved r r' n d \<longleftrightarrow> wrap64 (promised r' n) = wrap64 (promised r n + d) \<and> (i64_ok (promised r n) \<longrightarrow> i64_ok (promised r' n))"

lemma moved_trans:
  assumes "moved r s n a" "moved s t n b"
  shows "moved r t n (a + b)"
proof -
  have "wrap64 (promised s n + b) = wrap64 (wrap64 (promised s n) + b)" by simp
  also have "\<dots> = wrap64 (promised r n + (a + b))" using assms(1) by (simp add: moved_def ac_simps)
  finally show ?thesis using assms by (auto simp: moved_def)
qed

lemma moved_back: "moved r r' n 0 \<Longrightarrow> i64_ok (promised r n) \<Longrightarrow> promised r' n = promised r n"
  by (auto simp: moved_def wrap64_id)

lemma moved_same: "promised r' n = promised r n \<Longrightarrow> moved r r' n 0"
  by (simp add: moved_def)

lemma take_overlays_moves: "untouched r (take_overlays e r) \<and> moved r (take_overlays e r) n (- taken_from n [e])"
  by (auto simp: untouched_def moved_def promised_def take_overlays_def reserve_hold_def with_overlay_def lane_at_reserve
      lane_reserve_def taken_from_def i64_sub_def)

lemma give_back_overlays_moves: "untouched r (give_back_overlays e r) \<and> moved r (give_back_overlays e r) n (taken_from n [e])"
  by (auto simp: untouched_def moved_def promised_def give_back_overlays_def compensate_hold_def with_overlay_def
      lane_at_release lane_release_def taken_from_def i64_add_def)

lemma give_back_all_moves:
  "untouched r (fold give_back_overlays es r) \<and> moved r (fold give_back_overlays es r) n (taken_from n es)"
proof (induction es arbitrary: r)
  case (Cons e es)
  show ?case
    using untouched_trans moved_trans [OF conjunct2 [OF give_back_overlays_moves [of r e n]] conjunct2 [OF Cons]]
      give_back_overlays_moves [of r e n] Cons [of "give_back_overlays e r"]
    by (auto simp: taken_from_def)
qed (simp add: taken_from_def moved_same)

text \<open>The effect a leg became names the leg's transfer.\<close>

definition leg_effect :: "Reactor \<Rightarrow> SlotId \<Rightarrow> Effect \<Rightarrow> bool" where
  "leg_effect r slot e \<longleftrightarrow>
     (\<exists>item. pipeline_item slot (rx_pipeline r) = Some item \<and> ef_tx_id e = tr_id (wi_tx item) \<and> ef_chain e = wi_chain item
        \<and> ef_debit_account e = tr_debit_account (wi_tx item) \<and> ef_credit_account e = tr_credit_account (wi_tx item)
        \<and> ef_ledger e = tr_ledger (wi_tx item))"

lemma decide_item_names:
  assumes "decide_item slot item ch r = Some (Inr e, r1)" "pipeline_item slot (rx_pipeline r) = Some item"
  shows "leg_effect r slot e"
proof -
  have "build_effect slot item ch r1 = Some (Inr e)" using decide_item_Inr [OF assms(1)] by blast
  then have "ef_tx_id e = tr_id (wi_tx item) \<and> ef_chain e = wi_chain item \<and> ef_debit_account e = tr_debit_account (wi_tx item)
      \<and> ef_credit_account e = tr_credit_account (wi_tx item) \<and> ef_ledger e = tr_ledger (wi_tx item)"
    by (cases "wi_kind item")
       (auto simp: build_effect_def direct_effect_def resolving_effect_def resolving_checks_def panic_simps Let_def
         rbind_eq_Inr split: if_splits option.splits)
  then show ?thesis using assms(2) by (auto simp: leg_effect_def)
qed

lemma leg_effect_untouched: "untouched r r' \<Longrightarrow> leg_effect r' slot e = leg_effect r slot e"
  by (simp add: leg_effect_def untouched_def)

lemma leg_effect_untouched_fun: "untouched r r' \<Longrightarrow> leg_effect r' = leg_effect r"
  by (simp add: leg_effect_untouched fun_eq_iff)

lemma judge_legs_moves:
  "judge_legs legs f es sc bs r = Some (f', es', sc', bs', r') \<Longrightarrow>
     \<exists>new. es' = es @ new \<and> untouched r r' \<and> moved r r' n (- taken_from n new)
       \<and> (f' = None \<longrightarrow> list_all2 (leg_effect r) legs new)"
proof (induction legs arbitrary: f es sc bs r)
  case (Cons slot legs)
  obtain item out r1 where i: "pipeline_item slot (rx_pipeline r) = Some item"
    and d: "decide_item slot item (Some sc) r = Some (out, r1)"
    using Cons.prems by (auto simp: panic_simps)
  have r1: "untouched r r1" "moved r r1 n 0" using decide_item_untouched [OF d] moved_same by blast+
  have rejected: ?case if rj: "judge_legs legs (Some err) es sc bs r1 = Some (f', es', sc', bs', r')" for err
  proof -
    obtain new where "es' = es @ new" "untouched r1 r'" "moved r1 r' n (- taken_from n new)"
      using Cons.IH [OF rj] by blast
    then show ?thesis
      using judge_legs_failed [OF rj] untouched_trans [OF r1(1)] moved_trans [OF r1(2)] by auto
  qed
  show ?case
  proof (cases "f = None \<and> (\<exists>e. out = Inr e)")
    case True
    then obtain e rec where e: "out = Inr e"
      and rest: "judge_legs legs None (es @ [e]) (scratch_note e sc) (note_coverage rec e bs) (take_overlays e r1)
          = Some (f', es', sc', bs', r')"
      using Cons.prems i d by (auto simp: panic_simps)
    obtain new where n: "es' = es @ [e] @ new" "untouched (take_overlays e r1) r'"
        "moved (take_overlays e r1) r' n (- taken_from n new)"
        "f' = None \<longrightarrow> list_all2 (leg_effect (take_overlays e r1)) legs new"
      using Cons.IH [OF rest] by auto
    have start: "untouched r (take_overlays e r1)" using untouched_trans [OF r1(1)] take_overlays_moves by blast
    have head: "leg_effect r slot e" using decide_item_names d i e by blast
    have "untouched r r'"
      using untouched_trans [OF untouched_trans [OF r1(1)] n(2)] take_overlays_moves by blast
    moreover have "moved r r' n (- taken_from n ([e] @ new))"
      using moved_trans [OF moved_trans [OF r1(2) conjunct2 [OF take_overlays_moves [of r1 e n]]] n(3)]
      by (simp only: taken_from_append) (simp add: algebra_simps)
    moreover have "f' = None \<longrightarrow> list_all2 (leg_effect r) (slot # legs) ([e] @ new)"
      using n(4) head by (simp add: leg_effect_untouched_fun [OF start])
    ultimately show ?thesis using n(1) by (intro exI [of _ "[e] @ new"]) simp
  next
    case False
    then obtain err where "judge_legs legs (Some err) es sc bs r1 = Some (f', es', sc', bs', r')"
      using Cons.prems i d by (cases f; cases out) auto
    then show ?thesis by (rule rejected)
  qed
qed (simp add: taken_from_def moved_same)

text \<open>Answering: one ack for each client's request, in order and of the outcome given, and nothing else the chain cares about.\<close>

definition leg_acks :: "Reactor \<Rightarrow> AckOutcome \<Rightarrow> SlotId list \<Rightarrow> Ack list" where
  "leg_acks r out slots =
     List.map_filter (\<lambda>slot. case pipeline_item slot (rx_pipeline r) of
        Some item \<Rightarrow>
          if is_client (wi_kind item)
          then Some \<lparr>ak_tx_id = tr_id (wi_tx item), ak_lane = wi_lane item, ak_seq = wi_seq item,
                     ak_outcome = out, ak_submitted_at_nanos = wi_submitted_at_nanos item\<rparr>
          else None
      | None \<Rightarrow> None) slots"

definition answered :: "Reactor \<Rightarrow> Reactor \<Rightarrow> Ack list \<Rightarrow> bool" where
  "answered r r' acks \<longleftrightarrow> rx_batcher r' = rx_batcher r \<and> mt_judged (rx_metrics r') = mt_judged (rx_metrics r)
     \<and> (\<forall>n. promised r' n = promised r n) \<and> outbox_stream (rx_outbox r') = outbox_stream (rx_outbox r) @ acks"

definition same_items :: "Reactor \<Rightarrow> Reactor \<Rightarrow> bool" where
  "same_items r r' \<longleftrightarrow> (\<forall>slot. pipeline_item slot (rx_pipeline r') = pipeline_item slot (rx_pipeline r))"

lemma leg_acks_Nil [simp]: "leg_acks r out [] = []" by (simp add: leg_acks_def List.map_filter_def)

lemma leg_acks_append: "leg_acks r out (xs @ ys) = leg_acks r out xs @ leg_acks r out ys"
  by (simp add: leg_acks_def List.map_filter_def)

lemma leg_acks_same: "same_items r r' \<Longrightarrow> leg_acks r' out slots = leg_acks r out slots"
  by (simp add: leg_acks_def same_items_def)

lemma answered_trans: "answered r s xs \<Longrightarrow> answered s t ys \<Longrightarrow> answered r t (xs @ ys)"
  by (simp add: answered_def)

lemma release_keeps_items: "pipeline_release slot p = Some p' \<Longrightarrow> pipeline_item s p' = pipeline_item s p"
  by (auto simp: pipeline_release_def pipeline_item_def slots_release_def slots_get_def panic_simps)

lemma finish_slot_answered:
  assumes "finish_slot slot out r = Some r'"
  shows "answered r r' (leg_acks r out [slot]) \<and> same_items r r'"
proof -
  from assms obtain item pl where i: "pipeline_item slot (rx_pipeline r) = Some item"
    and pl: "pipeline_release slot (rx_pipeline (unpin_item item r)) = Some pl"
    and r': "r' = answer_item item out (count_outcome out
      ((unpin_item item r)\<lparr>rx_pipeline := pl, rx_lanes := lanes_get_mut (wi_debit item) lane_left (rx_lanes (unpin_item item r))\<rparr>))"
    by (auto simp: finish_slot_def panic_simps Let_def)
  have pipe: "rx_pipeline (unpin_item item r) = rx_pipeline r" by (simp add: unpin_item_def with_overlay_def)
  have "rx_pipeline r' = pl" by (simp add: r' answer_item_def count_outcome_def bump_def split: AckOutcome.splits)
  then have "same_items r r'" using release_keeps_items [OF pl] pipe by (simp add: same_items_def)
  moreover have "answered r r' (leg_acks r out [slot])"
    by (auto simp: r' i answered_def leg_acks_def List.map_filter_def promised_def unpin_item_def with_overlay_def
        count_outcome_def answer_item_def bump_def lane_at_get_mut lane_left_def split: AckOutcome.splits)
  ultimately show ?thesis by blast
qed

lemma finish_all_answered:
  "finish_all slots out r = Some r' \<Longrightarrow> answered r r' (leg_acks r out slots) \<and> same_items r r'"
proof (induction slots arbitrary: r)
  case (Cons slot slots)
  then obtain r1 where one: "finish_slot slot out r = Some r1" and rest: "finish_all slots out r1 = Some r'"
    by (auto simp: panic_simps)
  note first = finish_slot_answered [OF one] and others = Cons.IH [OF rest]
  have "leg_acks r1 out slots = leg_acks r out slots" by (rule leg_acks_same) (use first in blast)
  then have "answered r r' (leg_acks r out [slot] @ leg_acks r out slots)"
    using answered_trans [of r r1 _ r'] first others by metis
  moreover have "same_items r r'" using first others by (simp add: same_items_def)
  ultimately show ?case using leg_acks_append [of r out "[slot]" slots] by simp
qed (simp add: answered_def same_items_def)

lemma reject_chain_answered:
  assumes "reject_chain c es err r = Some r'"
  shows "answered (fold give_back_overlays es r) r' (leg_acks (fold give_back_overlays es r) (rejection err) (lc_legs c))
    \<and> same_items (fold give_back_overlays es r) r'"
proof -
  obtain r1 where r1: "finish_all (lc_legs c) (rejection err) (fold give_back_overlays es r) = Some r1"
    and r': "r' = (let r2 = bump (mt_linked_chains_rejected_update Suc) r1 in
        if err = LinkedChainUnterminated then rx_record LK_CHAIN_ABORTED (unat (lc_id c)) (length (lc_legs c))
          (bump (mt_linked_chains_aborted_update Suc) r2) else r2)"
    using assms by (auto simp: reject_chain_def panic_simps Let_def)
  show ?thesis
    using finish_all_answered [OF r1]
    by (auto simp: r' answered_def same_items_def promised_def Let_def rx_record_def bump_def)
qed

lemma push_all_effects:
  "bt_effects (rx_batcher (fold (\<lambda>(e, slot). push_judged e slot) ps r)) = bt_effects (rx_batcher r) @ map fst ps
   \<and> bt_slots (rx_batcher (fold (\<lambda>(e, slot). push_judged e slot) ps r)) = bt_slots (rx_batcher r) @ map snd ps
   \<and> mt_judged (rx_metrics (fold (\<lambda>(e, slot). push_judged e slot) ps r)) = mt_judged (rx_metrics r) + length ps
   \<and> rx_outbox (fold (\<lambda>(e, slot). push_judged e slot) ps r) = rx_outbox r"
  by (induction ps arbitrary: r) (auto simp: push_judged_def bump_def)

lemma propose_chain_effects:
  assumes "length es = length (lc_legs c)"
  shows "bt_effects (rx_batcher (propose_chain c es r)) = bt_effects (rx_batcher r) @ es"
    "bt_slots (rx_batcher (propose_chain c es r)) = bt_slots (rx_batcher r) @ lc_legs c"
    "mt_judged (rx_metrics (propose_chain c es r)) = mt_judged (rx_metrics r) + length (lc_legs c)"
    "rx_outbox (propose_chain c es r) = rx_outbox r"
  using assms push_all_effects [of "zip es (lc_legs c)" r] by (simp_all add: propose_chain_def bump_def)

lemma propose_chain_pipeline: "rx_pipeline (propose_chain c es r) = rx_pipeline r"
proof -
  have "rx_pipeline (fold (\<lambda>(e, slot). push_judged e slot) ps r) = rx_pipeline r" for ps
    by (induction ps arbitrary: r) (auto simp: push_judged_def bump_def)
  then show ?thesis by (simp add: propose_chain_def bump_def)
qed

lemma free_gated_keeps:
  "free_gated slots r = Some r' \<Longrightarrow> rx_batcher r' = rx_batcher r \<and> rx_outbox r' = rx_outbox r
     \<and> rx_metrics r' = rx_metrics r \<and> rx_lanes r' = rx_lanes r"
proof (induction slots arbitrary: r)
  case (Cons slot slots)
  then obtain pl item where "free_gated slots (if is_judgeable item
         then r\<lparr>rx_pipeline := pl, rx_cascade := cascade_push slot (rx_cascade (r\<lparr>rx_pipeline := pl\<rparr>))\<rparr>
         else r\<lparr>rx_pipeline := pl\<rparr>) = Some r'"
    by (auto simp: panic_simps Let_def)
  from Cons.IH [OF this] show ?case by (auto split: if_splits)
qed simp

text \<open>What a judgement settles: requests proposed together, one effect each, or answered together with one rejection.\<close>

definition settled :: "Reactor \<Rightarrow> Reactor \<Rightarrow> SlotId list \<Rightarrow> LedgerError option \<Rightarrow> bool" where
  "settled r r' slots failure \<longleftrightarrow> (case failure of
     None \<Rightarrow> (\<exists>es. list_all2 (leg_effect r) slots es
        \<and> bt_effects (rx_batcher r') = bt_effects (rx_batcher r) @ es
        \<and> bt_slots (rx_batcher r') = bt_slots (rx_batcher r) @ slots
        \<and> mt_judged (rx_metrics r') = mt_judged (rx_metrics r) + length slots
        \<and> rx_outbox r' = rx_outbox r)
   | Some err \<Rightarrow> rx_batcher r' = rx_batcher r \<and> mt_judged (rx_metrics r') = mt_judged (rx_metrics r)
        \<and> outbox_stream (rx_outbox r') = outbox_stream (rx_outbox r) @ leg_acks r (rejection err) slots)"

text \<open>A chain's judgement up to its verdict; what is left of it opens the gates.\<close>

lemma judge_chain_verdict:
  assumes "judge_chain_legs c r = Some r'" and "lk_effects (rx_linked r) = []"
  obtains failure r2 bs lk r3 where
    "settled r r2 (lc_legs c) failure" "same_items r r2" "rx_cascade r2 = rx_cascade r"
    "failure \<noteq> None \<Longrightarrow> (\<forall>n. i64_ok (promised r n)) \<Longrightarrow> \<forall>n. promised r2 n = promised r n"
    "free_gated (rev (lc_gated c)) (r2\<lparr>rx_budgets := bs, rx_linked := lk\<rparr>) = Some r3" "lk_effects lk = []"
    "r' = r3\<lparr>rx_linked := linked_recycle c (rx_linked r3)\<rparr>"
  using assms(1)
proof (rule judge_chain_legs_Some)
  fix f es sc bs and r1 r2 r3 :: Reactor
  let ?r0 = "r\<lparr>rx_linked := (rx_linked r)\<lparr>lk_effects := [], lk_scratch := scratch_new\<rparr>, rx_budgets := []\<rparr>"
  let ?f = "if f = None \<and> misses_a_member bs then Some SharedBudgetGroupIncomplete else f"
  let ?lk = "linked_open_gates (lc_id c) (return_buffers [] sc (rx_linked r2))"
  assume legs: "judge_legs (lc_legs c) (lc_failure c) (lk_effects (rx_linked r)) (scratch_clear (lk_scratch (rx_linked r))) []
       ?r0 = Some (f, es, sc, bs, r1)"
    and verdict: "(case ?f of Some err \<Rightarrow> reject_chain c es err r1 | None \<Rightarrow> Some (propose_chain c es r1)) = Some r2"
    and gates: "free_gated (rev (lc_gated c)) (r2\<lparr>rx_budgets := bs, rx_linked := ?lk\<rparr>) = Some r3"
    and r': "r' = r3\<lparr>rx_linked := linked_recycle c (rx_linked r3)\<rparr>"
  have same: "leg_effect ?r0 = leg_effect r" by (simp add: leg_effect_def fun_eq_iff)
  have judged: "untouched r r1" "moved r r1 n (- taken_from n es)" "f = None \<longrightarrow> list_all2 (leg_effect r) (lc_legs c) es" for n
    using judge_legs_moves [OF legs, of n] assms(2) same by (auto simp: untouched_def moved_def promised_def)
  have "cascade_frame ?r0 r1" by (rule framed.judge_legs_inv [OF _ legs]) simp
  then have "cascade_frame ?r0 r2"
    using verdict legs by (auto intro: framed.reject_chain_inv framed.propose_chain_inv split: option.splits if_splits)
  then have frame: "rx_cascade r2 = rx_cascade r" by (simp add: cascade_frame_def)
  have lk: "lk_effects ?lk = []" by (simp add: linked_open_gates_def return_buffers_def)
  show ?thesis
  proof (cases ?f)
    case None
    then have "f = None" by (auto split: if_splits)
    then have own: "list_all2 (leg_effect r) (lc_legs c) es" using judged(3) by simp
    note p = propose_chain_effects [OF list_all2_lengthD [OF own, symmetric], of r1]
    have r2: "r2 = propose_chain c es r1" using verdict None by simp
    then have "settled r r2 (lc_legs c) None" using p judged(1) own by (auto simp: settled_def untouched_def)
    moreover have "same_items r r2" using judged(1) r2 by (simp add: same_items_def untouched_def propose_chain_pipeline)
    ultimately show ?thesis using frame gates lk r' by (auto intro: that)
  next
    case (Some err)
    let ?b = "fold give_back_overlays es r1"
    have a: "answered ?b r2 (leg_acks ?b (rejection err) (lc_legs c))" "same_items ?b r2"
      using reject_chain_answered [of c es err r1 r2] verdict Some by simp_all
    have "promised ?b n = promised r n" if "\<forall>n. i64_ok (promised r n)" for n
      using moved_back [OF _ spec [OF that], of ?b n]
        moved_trans [OF judged(2) conjunct2 [OF give_back_all_moves [of r1 es n]]] by simp
    moreover have b: "untouched r ?b" using untouched_trans [OF judged(1)] give_back_all_moves by blast
    moreover have "leg_acks ?b (rejection err) (lc_legs c) = leg_acks r (rejection err) (lc_legs c)"
      by (rule leg_acks_same) (use b in \<open>simp add: same_items_def untouched_def\<close>)
    ultimately have "settled r r2 (lc_legs c) (Some err)" "same_items r r2"
        "(\<forall>n. i64_ok (promised r n)) \<longrightarrow> (\<forall>n. promised r2 n = promised r n)"
      using a by (simp_all add: settled_def answered_def untouched_def same_items_def)
    then show ?thesis using frame gates lk r' by (auto intro: that)
  qed
qed

text \<open>C6: a linked chain is proposed whole or not at all. Judging it either puts one effect per leg in the
  open batch, in leg order, each naming its own leg's transfer, accounts, ledger and chain, with the legs' slots, and
  answers nobody; or it leaves the batch and the count of judged effects alone, answers every leg a client asked for,
  in leg order, with one and the same rejection, and gives back to every lane all that its accepted legs had taken from
  it. The chain starts with an empty buffer of effects, and what the lanes have promised is in the range of an amount.\<close>

theorem chain_is_all_or_nothing:
  assumes "judge_chain_legs c r = Some r'" and "lk_effects (rx_linked r) = []" and "\<forall>n. i64_ok (promised r n)"
  shows "(\<exists>es. list_all2 (leg_effect r) (lc_legs c) es
        \<and> bt_effects (rx_batcher r') = bt_effects (rx_batcher r) @ es
        \<and> bt_slots (rx_batcher r') = bt_slots (rx_batcher r) @ lc_legs c
        \<and> mt_judged (rx_metrics r') = mt_judged (rx_metrics r) + length (lc_legs c)
        \<and> rx_outbox r' = rx_outbox r)
    \<or> (\<exists>err. rx_batcher r' = rx_batcher r \<and> mt_judged (rx_metrics r') = mt_judged (rx_metrics r)
        \<and> (\<forall>n. promised r' n = promised r n)
        \<and> outbox_stream (rx_outbox r') = outbox_stream (rx_outbox r) @ leg_acks r (rejection err) (lc_legs c))"
  using assms(1,2)
proof (rule judge_chain_verdict)
  fix failure bs lk and r2 r3 :: Reactor
  assume s: "settled r r2 (lc_legs c) failure"
    and undone: "failure \<noteq> None \<Longrightarrow> (\<forall>n. i64_ok (promised r n)) \<Longrightarrow> \<forall>n. promised r2 n = promised r n"
    and gates: "free_gated (rev (lc_gated c)) (r2\<lparr>rx_budgets := bs, rx_linked := lk\<rparr>) = Some r3"
    and r': "r' = r3\<lparr>rx_linked := linked_recycle c (rx_linked r3)\<rparr>"
  have "rx_batcher r' = rx_batcher r2" "rx_outbox r' = rx_outbox r2" "rx_metrics r' = rx_metrics r2" "\<forall>n. promised r' n = promised r2 n"
    using free_gated_keeps [OF gates] by (simp_all add: r' promised_def)
  then show ?thesis using s undone assms(3) by (cases failure) (simp_all add: settled_def, blast)
qed

definition sample_leg :: "Amount \<Rightarrow> Reactor" where
  "sample_leg a = sample_funded\<lparr>rx_pipeline := (rx_pipeline sample_funded)\<lparr>pp_slots := (pp_slots (rx_pipeline sample_funded))
     \<lparr>po_items := [(sample_item a)\<lparr>wi_chain := 1\<rparr>], po_free := []\<rparr>\<rparr>\<rparr>"

definition sample_chain :: LinkedChain where
  "sample_chain = \<lparr>lc_id = 1, lc_legs = [0], lc_gated = [], lc_outstanding = 0, lc_closed = True, lc_failure = None\<rparr>"

text \<open>Seventy is free on the account.\<close>

lemma sample_chains:
  "map_option (length \<circ> bt_effects \<circ> rx_batcher) (judge_chain_legs sample_chain (sample_leg 70)) = Some 1"
  "map_option (\<lambda>r. (bt_effects (rx_batcher r), map ak_outcome (outbox_stream (rx_outbox r))))
     (judge_chain_legs sample_chain (sample_leg 71)) = Some ([], [Rejected (InsufficientBalance 70 71)])"
  by code_simp+

lemma sample_leg_ok: "lk_effects (rx_linked (sample_leg a)) = []" "\<forall>n. i64_ok (promised (sample_leg a) n)"
  by (auto simp: sample_leg_def sample_funded_def sample_node_def sample_build_def reactor_with_clock_def
      config_validate_def sample_config_def linked_new_def promised_def lane_at_def lane_default_def i64_ok_def nth_Cons' Let_def)

theorem chain_is_all_or_nothing_witness:
  "\<exists>r' q'. judge_chain_legs sample_chain (sample_leg 70) = Some r' \<and> length (bt_effects (rx_batcher r')) = 1
     \<and> rx_outbox r' = rx_outbox (sample_leg 70)
     \<and> judge_chain_legs sample_chain (sample_leg 71) = Some q'
     \<and> map ak_outcome (outbox_stream (rx_outbox q')) = [Rejected (InsufficientBalance 70 71)]
     \<and> (\<exists>err. outbox_stream (rx_outbox q') = leg_acks (sample_leg 71) (rejection err) [0])"
proof -
  obtain r' q' where j: "judge_chain_legs sample_chain (sample_leg 70) = Some r'" "length (bt_effects (rx_batcher r')) = 1"
    and k: "judge_chain_legs sample_chain (sample_leg 71) = Some q'" "bt_effects (rx_batcher q') = []"
      "map ak_outcome (outbox_stream (rx_outbox q')) = [Rejected (InsufficientBalance 70 71)]"
    using sample_chains by auto
  have empty: "bt_effects (rx_batcher (sample_leg a)) = []" "outbox_stream (rx_outbox (sample_leg a)) = []" for a
    by (simp_all add: sample_leg_def sample_funded_def) code_simp+
  have legs: "lc_legs sample_chain = [0]" by (simp add: sample_chain_def)
  have "rx_outbox r' = rx_outbox (sample_leg 70)"
    using chain_is_all_or_nothing [OF j(1) sample_leg_ok] j(2) empty(1) by auto
  moreover have "\<exists>err. outbox_stream (rx_outbox q') = leg_acks (sample_leg 71) (rejection err) [0]"
    using chain_is_all_or_nothing [OF k(1) sample_leg_ok] k(2) empty legs by auto
  ultimately show ?thesis using j k by (intro exI [of _ r'] exI [of _ q'] conjI)
qed

section \<open>The cascade\<close>

text \<open>Within a cascade a request changes in one way: a gate that opened stops being one of its dependencies.\<close>

definition same_work :: "Reactor \<Rightarrow> Reactor \<Rightarrow> bool" where
  "same_work r r' \<longleftrightarrow> (\<forall>slot. pipeline_item slot (rx_pipeline r') = pipeline_item slot (rx_pipeline r)
     \<or> pipeline_item slot (rx_pipeline r') = map_option (clear_dep DEP_LINKED_CHAIN) (pipeline_item slot (rx_pipeline r)))"

lemma clear_dep_twice [simp]: "clear_dep d (clear_dep d w) = clear_dep d w"
  by (simp add: clear_dep_def dep_without_def and.assoc)

lemma clear_dep_rest [simp]:
  "wi_tx (clear_dep d w) = wi_tx w" "wi_chain (clear_dep d w) = wi_chain w" "wi_kind (clear_dep d w) = wi_kind w"
  "wi_lane (clear_dep d w) = wi_lane w" "wi_seq (clear_dep d w) = wi_seq w"
  "wi_submitted_at_nanos (clear_dep d w) = wi_submitted_at_nanos w"
  by (simp_all add: clear_dep_def)

lemma same_work_refl [simp]: "same_work r r" by (simp add: same_work_def)

lemma same_work_items: "same_items r r' \<Longrightarrow> same_work r r'" by (simp add: same_work_def same_items_def)

lemma same_work_trans: "same_work r s \<Longrightarrow> same_work s t \<Longrightarrow> same_work r t"
proof -
  assume a: "same_work r s" "same_work s t"
  have "map_option (clear_dep d) (map_option (clear_dep d) x) = map_option (clear_dep d) x" for d x
    by (cases x) simp_all
  then show ?thesis using a unfolding same_work_def by metis
qed

lemma same_work_legs:
  assumes "same_work r r'"
  shows "leg_effect r' = leg_effect r" "leg_acks r' out slots = leg_acks r out slots"
proof -
  have cases: "pipeline_item slot (rx_pipeline r') = pipeline_item slot (rx_pipeline r)
     \<or> pipeline_item slot (rx_pipeline r') = map_option (clear_dep DEP_LINKED_CHAIN) (pipeline_item slot (rx_pipeline r))" for slot
    using assms by (simp add: same_work_def)
  show "leg_effect r' = leg_effect r"
  proof (intro ext)
    fix slot e
    show "leg_effect r' slot e = leg_effect r slot e" using cases [of slot] by (cases "pipeline_item slot (rx_pipeline r)") (auto simp: leg_effect_def)
  qed
  have "(case pipeline_item slot (rx_pipeline r') of Some item \<Rightarrow>
          if is_client (wi_kind item)
          then Some \<lparr>ak_tx_id = tr_id (wi_tx item), ak_lane = wi_lane item, ak_seq = wi_seq item,
                     ak_outcome = out, ak_submitted_at_nanos = wi_submitted_at_nanos item\<rparr> else None
      | None \<Rightarrow> None)
    = (case pipeline_item slot (rx_pipeline r) of Some item \<Rightarrow>
          if is_client (wi_kind item)
          then Some \<lparr>ak_tx_id = tr_id (wi_tx item), ak_lane = wi_lane item, ak_seq = wi_seq item,
                     ak_outcome = out, ak_submitted_at_nanos = wi_submitted_at_nanos item\<rparr> else None
      | None \<Rightarrow> None)" for slot
    using cases [of slot] by (cases "pipeline_item slot (rx_pipeline r)") auto
  then show "leg_acks r' out slots = leg_acks r out slots" by (simp add: leg_acks_def)
qed

text \<open>A request its gate alone still holds.\<close>

definition behind_its_gate :: "Reactor \<Rightarrow> SlotId \<Rightarrow> bool" where
  "behind_its_gate r slot \<longleftrightarrow>
     (\<exists>item. pipeline_item slot (rx_pipeline r) = Some item \<and> is_judgeable (clear_dep DEP_LINKED_CHAIN item))"

lemma behind_same_work:
  assumes "same_work r r'" "behind_its_gate r slot"
  shows "behind_its_gate r' slot"
proof -
  have "pipeline_item slot (rx_pipeline r') = pipeline_item slot (rx_pipeline r)
     \<or> pipeline_item slot (rx_pipeline r') = map_option (clear_dep DEP_LINKED_CHAIN) (pipeline_item slot (rx_pipeline r))"
    using assms(1) by (simp add: same_work_def)
  then show ?thesis using assms(2) by (auto simp: behind_its_gate_def)
qed

lemma pipeline_item_after_mut:
  "pipeline_item_mut slot f p = Some p' \<Longrightarrow>
     pipeline_item s p' = (if s = slot then map_option f (pipeline_item s p) else pipeline_item s p)"
  by (auto simp: pipeline_item_mut_def pipeline_item_def slots_get_mut_def slots_get_def panic_simps vec_get_def nth_list_update
      dest: word_unat_eq_iff [THEN iffD2])

lemma free_gated_frees:
  "free_gated slots r = Some r' \<Longrightarrow> same_work r r' \<and> set (cc_ready (rx_cascade r)) \<subseteq> set (cc_ready (rx_cascade r'))
     \<and> (\<forall>g \<in> set slots. behind_its_gate r g \<longrightarrow> g \<in> set (cc_ready (rx_cascade r')))"
proof (induction slots arbitrary: r)
  case (Cons slot slots)
  then obtain pl item where pl: "pipeline_item_mut slot (clear_dep DEP_LINKED_CHAIN) (rx_pipeline r) = Some pl"
    and item: "pipeline_item slot pl = Some item"
    and rest: "free_gated slots (if is_judgeable item
         then r\<lparr>rx_pipeline := pl, rx_cascade := cascade_push slot (rx_cascade (r\<lparr>rx_pipeline := pl\<rparr>))\<rparr>
         else r\<lparr>rx_pipeline := pl\<rparr>) = Some r'"
    by (auto simp: panic_simps Let_def)
  let ?s = "if is_judgeable item
         then r\<lparr>rx_pipeline := pl, rx_cascade := cascade_push slot (rx_cascade (r\<lparr>rx_pipeline := pl\<rparr>))\<rparr>
         else r\<lparr>rx_pipeline := pl\<rparr>"
  have w: "same_work r ?s" using pipeline_item_after_mut [OF pl] by (auto simp: same_work_def)
  have own: "slot \<in> set (cc_ready (rx_cascade ?s))" if "behind_its_gate r slot"
    using that item pipeline_item_after_mut [OF pl, of slot] by (auto simp: behind_its_gate_def cascade_push_def)
  have old: "set (cc_ready (rx_cascade r)) \<subseteq> set (cc_ready (rx_cascade ?s))" by (auto simp: cascade_push_def)
  note ih = Cons.IH [OF rest]
  have "\<forall>g \<in> set slots. behind_its_gate r g \<longrightarrow> g \<in> set (cc_ready (rx_cascade r'))"
    using ih behind_same_work [OF w] by blast
  then show ?case using ih w own old same_work_trans [of r ?s r'] by auto
qed simp

lemma judge_slot_settles:
  assumes "judge_slot slot r = Some r'"
  obtains failure where "settled r r' [slot] failure" "same_items r r'" "rx_cascade r' = rx_cascade r" "rx_linked r' = rx_linked r"
proof -
  from assms obtain item outcome r1 where i: "pipeline_item slot (rx_pipeline r) = Some item"
    and d: "decide_item slot item None r = Some (outcome, r1)"
    and v: "(case outcome of Inr e \<Rightarrow> Some (push_judged e slot (take_overlays e r1)) | Inl err \<Rightarrow> finish_slot slot (rejection err) r1) = Some r'"
    by (auto simp: judge_slot_def panic_simps)
  have frame: "rx_cascade r' = rx_cascade r" "rx_linked r' = rx_linked r"
    using framed.judge_slot_inv [OF cascade_frame_refl assms] by (simp_all add: cascade_frame_def)
  have u: "untouched r r1" using decide_item_untouched [OF d] by blast
  show ?thesis
  proof (cases outcome)
    case (Inr e)
    have own: "leg_effect r slot e" using decide_item_names d i Inr by blast
    have u2: "untouched r (take_overlays e r1)" using untouched_trans [OF u] take_overlays_moves by blast
    have "settled r r' [slot] None" "same_items r r'"
      using v Inr own u2 by (auto simp: settled_def same_items_def untouched_def push_judged_def bump_def)
    then show ?thesis using frame by (rule that)
  next
    case (Inl err)
    then have a: "answered r1 r' (leg_acks r1 (rejection err) [slot])" "same_items r1 r'"
      using finish_slot_answered v by auto
    have "leg_acks r1 (rejection err) [slot] = leg_acks r (rejection err) [slot]"
      by (rule leg_acks_same) (use u in \<open>simp add: same_items_def untouched_def\<close>)
    then have "settled r r' [slot] (Some err)" "same_items r r'"
      using a u by (auto simp: settled_def answered_def untouched_def same_items_def)
    then show ?thesis using frame by (rule that)
  qed
qed

text \<open>A judgement of the cascade: one request of its own, or a chain whole.\<close>

datatype Judgement = Alone SlotId | Whole LinkedChain

fun judged_slots :: "Judgement \<Rightarrow> SlotId list" where
  "judged_slots (Alone slot) = [slot]"
| "judged_slots (Whole c) = lc_legs c"

definition proposed_slots :: "(Judgement \<times> LedgerError option) list \<Rightarrow> SlotId list" where
  "proposed_slots js = concat (map (\<lambda>(j, failure). if failure = None then judged_slots j else []) js)"

definition rejection_acks :: "Reactor \<Rightarrow> (Judgement \<times> LedgerError option) list \<Rightarrow> Ack list" where
  "rejection_acks r js = concat (map (\<lambda>(j, failure). case failure of None \<Rightarrow> []
     | Some err \<Rightarrow> leg_acks r (rejection err) (judged_slots j)) js)"

text \<open>What a sequence of judgements did to the open batch and the outbox, and nothing else did.\<close>

definition judged_in_turn :: "Reactor \<Rightarrow> (Judgement \<times> LedgerError option) list \<Rightarrow> Reactor \<Rightarrow> bool" where
  "judged_in_turn r js r' \<longleftrightarrow>
     (\<exists>es. list_all2 (leg_effect r) (proposed_slots js) es \<and> bt_effects (rx_batcher r') = bt_effects (rx_batcher r) @ es)
   \<and> bt_slots (rx_batcher r') = bt_slots (rx_batcher r) @ proposed_slots js
   \<and> outbox_stream (rx_outbox r') = outbox_stream (rx_outbox r) @ rejection_acks r js"

lemma judged_in_turn_Nil: "judged_in_turn r [] r"
  by (simp add: judged_in_turn_def proposed_slots_def rejection_acks_def)

lemma judged_in_turn_Cons:
  assumes "settled r s (judged_slots j) failure" "same_work r s" "judged_in_turn s js r'"
  shows "judged_in_turn r ((j, failure) # js) r'"
proof -
  note legs = same_work_legs [OF assms(2)]
  have "rejection_acks s js = rejection_acks r js" using legs(2) by (simp add: rejection_acks_def cong: option.case_cong)
  then show ?thesis
    using assms(1,3) legs(1)
    by (cases failure) (auto simp: judged_in_turn_def settled_def proposed_slots_def rejection_acks_def intro: list_all2_appendI)
qed

text \<open>A request that is no leg of a chain.\<close>

definition stands_alone :: "Reactor \<Rightarrow> SlotId \<Rightarrow> bool" where
  "stands_alone r slot \<longleftrightarrow> (\<exists>item. pipeline_item slot (rx_pipeline r) = Some item \<and> is_absent (wi_chain item))"

lemma stands_alone_same_work:
  assumes "same_work r r'"
  shows "stands_alone r' slot = stands_alone r slot"
proof -
  have "pipeline_item slot (rx_pipeline r') = pipeline_item slot (rx_pipeline r)
     \<or> pipeline_item slot (rx_pipeline r') = map_option (clear_dep DEP_LINKED_CHAIN) (pipeline_item slot (rx_pipeline r))"
    using assms by (simp add: same_work_def)
  then show ?thesis by (cases "pipeline_item slot (rx_pipeline r)") (auto simp: stands_alone_def)
qed

text \<open>What a slot off the stack is judged as: itself, or the chain it is the last leg of, or nothing yet.\<close>

definition completed_chain :: "Reactor \<Rightarrow> SlotId \<Rightarrow> LinkedChain option" where
  "completed_chain r slot = (case pipeline_item slot (rx_pipeline r) of
     None \<Rightarrow> None
   | Some item \<Rightarrow> if is_absent (wi_chain item) then None else fst (leg_ready (wi_chain item) (rx_linked r)))"

definition opened_gates_freed :: "Reactor \<Rightarrow> LinkedChain \<Rightarrow> SlotId set \<Rightarrow> bool" where
  "opened_gates_freed r c freed \<longleftrightarrow> (\<forall>g \<in> set (lc_gated c). behind_its_gate r g \<longrightarrow> g \<in> freed)"

lemma leg_ready_buffers: "leg_ready i s = (c, s') \<Longrightarrow> lk_effects s' = lk_effects s"
  by (auto simp: leg_ready_def chain_modify_def Let_def split: option.splits if_splits)

lemma judge_ready_turn:
  assumes "judge_ready slot r = Some r'" and "lk_effects (rx_linked r) = []"
  obtains
    (alone) failure where "stands_alone r slot" "settled r r' [slot] failure" "same_work r r'"
      "lk_effects (rx_linked r') = []" "rx_cascade r' = rx_cascade r"
  | (waits) "\<not> stands_alone r slot" "completed_chain r slot = None" "judged_in_turn r [] r'" "same_work r r'"
      "lk_effects (rx_linked r') = []" "rx_cascade r' = rx_cascade r"
  | (whole) c failure where "\<not> stands_alone r slot" "completed_chain r slot = Some c" "settled r r' (lc_legs c) failure"
      "same_work r r'" "lk_effects (rx_linked r') = []" "set (cc_ready (rx_cascade r)) \<subseteq> set (cc_ready (rx_cascade r'))"
      "opened_gates_freed r c (set (cc_ready (rx_cascade r')))"
proof -
  obtain item where i: "pipeline_item slot (rx_pipeline r) = Some item"
    using assms by (auto simp: judge_ready_def panic_simps)
  show ?thesis
  proof (cases "is_absent (wi_chain item)")
    case True
    then have "judge_slot slot r = Some r'" using assms i by (simp add: judge_ready_def)
    then show ?thesis
    proof (rule judge_slot_settles)
      fix failure assume "settled r r' [slot] failure" "same_items r r'" "rx_cascade r' = rx_cascade r" "rx_linked r' = rx_linked r"
      then show ?thesis using True i assms(2) by (intro alone) (auto simp: stands_alone_def same_work_items)
    qed
  next
    case False
    then have stands: "\<not> stands_alone r slot" using i by (simp add: stands_alone_def)
    obtain ready lk where l: "leg_ready (wi_chain item) (rx_linked r) = (ready, lk)" by force
    have lk: "lk_effects lk = []" using leg_ready_buffers [OF l] assms(2) by simp
    have c: "completed_chain r slot = ready" using i False l by (simp add: completed_chain_def)
    show ?thesis
    proof (cases ready)
      case None
      then have r': "r' = r\<lparr>rx_linked := lk\<rparr>" using assms(1) i False l by (simp add: judge_ready_def)
      show ?thesis
      proof (rule waits)
        show "judged_in_turn r [] r'" by (simp add: r' judged_in_turn_def proposed_slots_def rejection_acks_def)
      qed (use stands c None lk in \<open>simp_all add: r' same_work_def\<close>)
    next
      case (Some ch)
      let ?r = "r\<lparr>rx_linked := lk\<rparr>"
      have "judge_chain_legs ch ?r = Some r'" using assms(1) i False l Some by (simp add: judge_ready_def)
      moreover have "lk_effects (rx_linked ?r) = []" using lk by simp
      ultimately show ?thesis
      proof (rule judge_chain_verdict)
        fix failure bs lk2 and r2 r3 :: Reactor
        assume v: "settled ?r r2 (lc_legs ch) failure" "same_items ?r r2" "rx_cascade r2 = rx_cascade ?r" "lk_effects lk2 = []"
          and gates: "free_gated (rev (lc_gated ch)) (r2\<lparr>rx_budgets := bs, rx_linked := lk2\<rparr>) = Some r3"
          and r': "r' = r3\<lparr>rx_linked := linked_recycle ch (rx_linked r3)\<rparr>"
        let ?s = "r2\<lparr>rx_budgets := bs, rx_linked := lk2\<rparr>"
        note free = free_gated_frees [OF gates] and keep = free_gated_keeps [OF gates]
        have ws: "same_work r ?s" using v(2) by (auto simp: same_work_def same_items_def)
        moreover have "same_work ?s r'" using free by (simp add: same_work_def r')
        ultimately have w: "same_work r r'" by (rule same_work_trans)
        have "leg_effect ?r = leg_effect r" "leg_acks ?r = leg_acks r"
          by (simp_all add: leg_effect_def leg_acks_def fun_eq_iff)
        then have sett: "settled r r' (lc_legs ch) failure"
          using v(1) keep by (simp add: settled_def r' cong: option.case_cong)
        have "lk_effects (rx_linked r') = []"
          using v(4) free_gated_weight [OF gates] by (simp add: r' linked_recycle_def)
        moreover have "opened_gates_freed r ch (set (cc_ready (rx_cascade r')))"
          using free behind_same_work [OF ws] by (simp add: opened_gates_freed_def r')
        ultimately show ?thesis
          using stands c Some sett w free v(3) by (intro whole [of ch failure]) (auto simp: r')
      qed
    qed
  qed
qed

definition behind_opened_gates_judged :: "Reactor \<Rightarrow> (Judgement \<times> LedgerError option) list \<Rightarrow> bool" where
  "behind_opened_gates_judged r js \<longleftrightarrow>
     (\<forall>c. Whole c \<in> fst ` set js \<longrightarrow>
       (\<forall>g \<in> set (lc_gated c). behind_its_gate r g \<and> stands_alone r g \<longrightarrow> Alone g \<in> fst ` set js))"

lemma cascade_loop_judges:
  "cascade_loop r = Some r' \<Longrightarrow> lk_effects (rx_linked r) = [] \<Longrightarrow>
     \<exists>js. judged_in_turn r js r' \<and> behind_opened_gates_judged r js \<and> cc_ready (rx_cascade r') = []
       \<and> (\<forall>s \<in> set (cc_ready (rx_cascade r)). stands_alone r s \<longrightarrow> Alone s \<in> fst ` set js)"
proof (induction r arbitrary: r' rule: cascade_loop.induct)
  case (1 r)
  show ?case
  proof (cases "cc_ready (rx_cascade r)")
    case Nil
    then have "r' = r" using 1(2) by (simp add: cascade_loop.simps [of r] cascade_next_def)
    then show ?thesis using Nil judged_in_turn_Nil by (intro exI [of _ "[]"]) (simp add: behind_opened_gates_judged_def)
  next
    case (Cons slot rest)
    let ?c = "(rx_cascade r)\<lparr>cc_ready := rest\<rparr>"
    let ?r = "r\<lparr>rx_cascade := ?c\<rparr>"
    have n: "cascade_next (rx_cascade r) = (Some slot, ?c)" using Cons by (simp add: cascade_next_def)
    obtain r1 where r1: "judge_ready slot ?r = Some r1" "cascade_loop r1 = Some r'"
      using 1(2) n by (auto simp: cascade_loop.simps [of r] split: option.splits)
    have unmoved: "stands_alone ?r = stands_alone r" "behind_its_gate ?r = behind_its_gate r" "leg_effect ?r = leg_effect r"
        "leg_acks ?r = leg_acks r"
      by (simp_all add: fun_eq_iff stands_alone_def behind_its_gate_def leg_effect_def leg_acks_def)
    then have same: "judged_in_turn ?r js s \<longleftrightarrow> judged_in_turn r js s" "behind_opened_gates_judged ?r js \<longleftrightarrow> behind_opened_gates_judged r js"
      for js s by (simp_all add: judged_in_turn_def rejection_acks_def behind_opened_gates_judged_def cong: option.case_cong)
    have on: "\<exists>js. judged_in_turn r1 js r' \<and> behind_opened_gates_judged r1 js \<and> cc_ready (rx_cascade r') = []
         \<and> (\<forall>s \<in> set (cc_ready (rx_cascade r1)). stands_alone r1 s \<longrightarrow> Alone s \<in> fst ` set js)"
      if "lk_effects (rx_linked r1) = []"
      using 1(1) [OF n [symmetric] refl r1 that] .
    have gates: "behind_opened_gates_judged r js" if "behind_opened_gates_judged r1 js" "same_work ?r r1" for js
      using that behind_same_work [OF that(2)] stands_alone_same_work [OF that(2)] unmoved
      by (simp add: behind_opened_gates_judged_def)
    have "lk_effects (rx_linked ?r) = []" using 1(3) by simp
    with r1(1) show ?thesis
    proof (cases rule: judge_ready_turn)
      case (alone failure)
      obtain js where js: "judged_in_turn r1 js r'" "behind_opened_gates_judged r1 js" "cc_ready (rx_cascade r') = []"
          "\<forall>s \<in> set rest. stands_alone r1 s \<longrightarrow> Alone s \<in> fst ` set js"
        using on [OF alone(4)] alone(5) by auto
      have "judged_in_turn r ((Alone slot, failure) # js) r'"
        using judged_in_turn_Cons [of ?r r1 "Alone slot" failure js r'] alone js same by simp
      moreover have "behind_opened_gates_judged r ((Alone slot, failure) # js)"
        using gates [OF js(2) alone(3)] by (auto simp: behind_opened_gates_judged_def)
      ultimately show ?thesis
        using js(3,4) Cons stands_alone_same_work [OF alone(3)] unmoved
        by (intro exI [of _ "(Alone slot, failure) # js"]) auto
    next
      case waits
      obtain js where js: "judged_in_turn r1 js r'" "behind_opened_gates_judged r1 js" "cc_ready (rx_cascade r') = []"
          "\<forall>s \<in> set rest. stands_alone r1 s \<longrightarrow> Alone s \<in> fst ` set js"
        using on [OF waits(5)] waits(6) by auto
      have "judged_in_turn r js r'"
        using js(1) waits(3) same_work_legs [OF waits(4)] same
        by (simp add: judged_in_turn_def proposed_slots_def rejection_acks_def unmoved cong: option.case_cong)
      then show ?thesis
        using js(3,4) Cons stands_alone_same_work [OF waits(4)] unmoved waits(1) gates [OF js(2) waits(4)]
        by (intro exI [of _ js]) auto
    next
      case (whole c failure)
      obtain js where js: "judged_in_turn r1 js r'" "behind_opened_gates_judged r1 js" "cc_ready (rx_cascade r') = []"
          "\<forall>s \<in> set (cc_ready (rx_cascade r1)). stands_alone r1 s \<longrightarrow> Alone s \<in> fst ` set js"
        using on [OF whole(5)] by auto
      have alone_later: "stands_alone r s \<Longrightarrow> s \<in> set (cc_ready (rx_cascade r1)) \<Longrightarrow> Alone s \<in> fst ` set js" for s
        using js(4) stands_alone_same_work [OF whole(4)] unmoved by simp
      have "judged_in_turn r ((Whole c, failure) # js) r'"
        using judged_in_turn_Cons [of ?r r1 "Whole c" failure js r'] whole js same by simp
      moreover have "behind_opened_gates_judged r ((Whole c, failure) # js)"
        using gates [OF js(2) whole(4)] whole(7) alone_later unmoved
        by (simp add: behind_opened_gates_judged_def opened_gates_freed_def)
      ultimately show ?thesis
        using js(3) Cons alone_later whole(1,6) unmoved
        by (intro exI [of _ "(Whole c, failure) # js"]) auto
    qed
  qed
qed

text \<open>C28: a request that became ready is judged before control returns, and so is what its judgement frees. Called
  outside the cascade, with the effects' buffer empty, it makes a sequence of judgements and leaves nothing on the stack.
  A request that is no leg is judged alone and nothing else is; a leg whose chain still waits for others judges nothing;
  the last leg judges its chain whole first. Whenever a chain was judged, every request of its own behind the chain's
  gates that waited for nothing but a gate was judged too. And the judgements are all that happened: the open batch
  grew by their accepted effects, in turn, each naming its own slot's transfer, and the outbox by the rejections of the
  others.\<close>

theorem cascade_judges_what_is_ready:
  assumes "on_ready slot r = Some r'" and "cc_ready (rx_cascade r) = []" and "\<not> cc_running (rx_cascade r)"
    and "lk_effects (rx_linked r) = []"
  shows "cc_ready (rx_cascade r') = [] \<and> \<not> cc_running (rx_cascade r')
    \<and> (\<exists>js. judged_in_turn r js r' \<and> behind_opened_gates_judged r js
        \<and> (if stands_alone r slot then map fst js = [Alone slot]
           else case completed_chain r slot of None \<Rightarrow> js = [] | Some c \<Rightarrow> \<exists>later. map fst js = Whole c # later))"
proof -
  let ?q = "r\<lparr>rx_cascade := (rx_cascade r)\<lparr>cc_running := True, cc_ready := []\<rparr>\<rparr>"
  have push: "r\<lparr>rx_cascade := (cascade_push slot (rx_cascade r))\<lparr>cc_running := True\<rparr>\<rparr> =
      r\<lparr>rx_cascade := (rx_cascade r)\<lparr>cc_ready := [slot], cc_running := True\<rparr>\<rparr>"
    using assms(2) by (simp add: cascade_push_def)
  obtain r1 r2 where r1: "judge_ready slot ?q = Some r1" and r2: "cascade_loop r1 = Some r2"
    and r': "r' = r2\<lparr>rx_cascade := cascade_leave (rx_cascade r2)\<rparr>"
    using assms push by (auto simp: on_ready_def run_cascade_def cascade_enter_def cascade_push_def panic_simps Let_def
        cascade_loop.simps [of "r\<lparr>rx_cascade := (rx_cascade r)\<lparr>cc_ready := [slot], cc_running := True\<rparr>\<rparr>"]
        cascade_next_def split: option.splits)
  have unmoved: "stands_alone ?q = stands_alone r" "behind_its_gate ?q = behind_its_gate r" "leg_effect ?q = leg_effect r"
      "leg_acks ?q = leg_acks r" "completed_chain ?q = completed_chain r"
    by (simp_all add: fun_eq_iff stands_alone_def behind_its_gate_def leg_effect_def leg_acks_def completed_chain_def split: option.split)
  then have same: "judged_in_turn ?q js r2 \<longleftrightarrow> judged_in_turn r js r'" "behind_opened_gates_judged ?q js \<longleftrightarrow> behind_opened_gates_judged r js"
    for js by (simp_all add: r' judged_in_turn_def rejection_acks_def behind_opened_gates_judged_def cong: option.case_cong)
  have fin: "cc_ready (rx_cascade r') = cc_ready (rx_cascade r2)" "\<not> cc_running (rx_cascade r')" by (simp_all add: r' cascade_leave_def)
  have over: "r2 = r1" if "rx_cascade r1 = rx_cascade ?q"
  proof -
    have "r2 = r1\<lparr>rx_cascade := rx_cascade r1\<rparr>"
      using r2 that by (simp add: cascade_loop.simps [of r1] cascade_next_def)
    then show ?thesis by simp
  qed
  have "lk_effects (rx_linked ?q) = []" using assms(4) by simp
  with r1 show ?thesis
  proof (cases rule: judge_ready_turn)
    case (alone failure)
    have "judged_in_turn ?q [(Alone slot, failure)] r2"
      using judged_in_turn_Cons [of ?q r1 "Alone slot" failure "[]" r1] alone over judged_in_turn_Nil by simp
    then show ?thesis using alone unmoved same fin over
      by (auto simp: behind_opened_gates_judged_def intro!: exI [of _ "[(Alone slot, failure)]"])
  next
    case waits
    then show ?thesis using unmoved same fin over
      by (auto simp: behind_opened_gates_judged_def intro!: exI [of _ "[]"])
  next
    case (whole c failure)
    obtain js where js: "judged_in_turn r1 js r2" "behind_opened_gates_judged r1 js" "cc_ready (rx_cascade r2) = []"
        "\<forall>s \<in> set (cc_ready (rx_cascade r1)). stands_alone r1 s \<longrightarrow> Alone s \<in> fst ` set js"
      using cascade_loop_judges [OF r2 whole(5)] by auto
    have "judged_in_turn ?q ((Whole c, failure) # js) r2"
      using judged_in_turn_Cons [of ?q r1 "Whole c" failure js r2] whole js by simp
    moreover have "behind_opened_gates_judged ?q ((Whole c, failure) # js)"
      using js(2,4) whole(7) behind_same_work [OF whole(4)] stands_alone_same_work [OF whole(4)]
      by (simp add: behind_opened_gates_judged_def opened_gates_freed_def)
    ultimately show ?thesis using whole(1,2) unmoved same fin js(3)
      by (intro conjI exI [of _ "(Whole c, failure) # js"]) auto
  qed
qed

text \<open>A leg for too much, and behind its chain's gate a request for what is free: the leg's chain is rejected, then the
  request is proposed.\<close>

definition sample_gated :: Reactor where
  "sample_gated = sample_funded
     \<lparr>rx_pipeline := (rx_pipeline sample_funded)\<lparr>pp_slots := (pp_slots (rx_pipeline sample_funded))
        \<lparr>po_items := [(sample_item 71)\<lparr>wi_chain := 1\<rparr>, (sample_item 70)\<lparr>wi_seq := 2, wi_deps := DEP_LINKED_CHAIN\<rparr>], po_free := []\<rparr>\<rparr>,
      rx_linked := (rx_linked sample_funded)\<lparr>lk_closed := [(1, sample_chain\<lparr>lc_gated := [1], lc_outstanding := 1\<rparr>)], lk_gates := [(1, 1)]\<rparr>\<rparr>"

lemma sample_cascade:
  "map_option (\<lambda>r. (bt_slots (rx_batcher r), map ak_outcome (outbox_stream (rx_outbox r)))) (on_ready 0 sample_gated)
     = Some ([1], [Rejected (InsufficientBalance 70 71)])"
  by code_simp

theorem cascade_judges_what_is_ready_witness:
  "\<exists>r' js c later. on_ready 0 sample_gated = Some r' \<and> bt_slots (rx_batcher r') = [1]
     \<and> judged_in_turn sample_gated js r' \<and> map fst js = Whole c # later \<and> lc_gated c = [1] \<and> Alone 1 \<in> fst ` set js"
proof -
  obtain r' where r': "on_ready 0 sample_gated = Some r'" "bt_slots (rx_batcher r') = [1]"
    using sample_cascade by auto
  have start: "cc_ready (rx_cascade sample_gated) = []" "\<not> cc_running (rx_cascade sample_gated)"
      "lk_effects (rx_linked sample_gated) = []"
    by code_simp+
  have alone: "\<not> stands_alone sample_gated 0" "stands_alone sample_gated 1" "behind_its_gate sample_gated 1"
    by (simp_all add: sample_gated_def stands_alone_def behind_its_gate_def pipeline_item_def slots_get_def vec_get_def
        sample_item_def work_item_default_def is_absent_def is_judgeable_def clear_dep_def dep_is_empty_def dep_without_def)
  obtain c where c: "completed_chain sample_gated 0 = Some c" "lc_gated c = [1]"
  proof -
    have "map_option lc_gated (completed_chain sample_gated 0) = Some [1]" by code_simp
    then show ?thesis using that by auto
  qed
  obtain js where js: "judged_in_turn sample_gated js r'" "behind_opened_gates_judged sample_gated js"
      "\<exists>later. map fst js = Whole c # later"
    using cascade_judges_what_is_ready [OF r'(1) start] alone(1) c(1) by auto
  have "Whole c \<in> fst ` set js" using js(3) by (metis list.set_intros(1) list.set_map)
  then have "Alone 1 \<in> fst ` set js"
    using js(2) alone(2,3) c(2) by (simp add: behind_opened_gates_judged_def)
  moreover obtain later where "map fst js = Whole c # later" using js(3) by auto
  ultimately show ?thesis using r' js(1) c(2) by (intro exI [of _ r'] exI [of _ js] exI [of _ c] exI [of _ later] conjI)
qed

end
