(* ===== verification/Records.thy ===== *)
theory Records
  imports Base_Types
begin

text \<open>
  The bytes of the pending store (\<open>pending/src/block.rs\<close>, up to \<open>IoOwner\<close>, and \<open>Filling\<close>): record addresses
  packed into forty-seven bits, the sixty-eight byte record, the 4 KB block with its checksum, the objects a
  store names, the tag that says whose an IO handle is, and a block being filled. The CRC is a crate outside
  the repository, so it is a parameter of the definitions that use it. The integer codecs are interpretations
  of one locale, and the record codec rests on it. The lemmas show that an address carries its three parts,
  that a record survives encode and decode, and that a block gives back every record put into it.
\<close>

section \<open>Bytes\<close>

definition to_le_bytes :: "nat \<Rightarrow> 'a::len word \<Rightarrow> u8 list" where
  "to_le_bytes n w = map (\<lambda>i. ucast (drop_bit (8 * i) w)) [0..<n]"

fun from_le_bytes :: "u8 list \<Rightarrow> 'a::len word" where
  "from_le_bytes [] = 0"
| "from_le_bytes (b # bs) = ucast b OR push_bit 8 (from_le_bytes bs)"

lemma length_to_le_bytes [simp]: "length (to_le_bytes n w) = n"
  by (simp add: to_le_bytes_def)

lemma bit_from_le_bytes:
  "bit (from_le_bytes bs :: 'a::len word) i \<longleftrightarrow> i < LENGTH('a) \<and> i div 8 < length bs \<and> bit (bs ! (i div 8)) (i mod 8)"
proof (induction bs arbitrary: i)
  case (Cons b bs)
  show ?case
  proof (cases "i < 8")
    case True
    then show ?thesis by (auto simp: bit_simps Cons.IH)
  next
    case False
    then obtain j where j: "i = j + 8" by (metis add.commute le_Suc_ex not_less)
    have "(j + 8) div 8 = Suc (j div 8)" "(j + 8) mod 8 = j mod 8" by auto
    moreover have "\<not> bit b (j + 8)" using bit_imp_le_length [of b "j + 8"] by auto
    ultimately show ?thesis unfolding j by (auto simp: bit_simps Cons.IH)
  qed
qed simp

lemma from_to_le_bytes:
  fixes w :: "'a::len word"
  assumes "8 * n = LENGTH('a)"
  shows "from_le_bytes (to_le_bytes n w) = w"
proof (rule bit_word_eqI)
  fix i assume i: "i < LENGTH('a)"
  then have "i div 8 < n" using assms by linarith
  then show "bit (from_le_bytes (to_le_bytes n w) :: 'a word) i \<longleftrightarrow> bit w i"
    using i by (simp add: bit_from_le_bytes to_le_bytes_def bit_simps)
qed

text \<open>A slice of a buffer, read and overwritten.\<close>

definition slice_at :: "nat \<Rightarrow> nat \<Rightarrow> 'a list \<Rightarrow> 'a list" where
  "slice_at at width xs = take width (drop at xs)"

definition write_at :: "nat \<Rightarrow> 'a list \<Rightarrow> 'a list \<Rightarrow> 'a list" where
  "write_at at bs xs = take at xs @ bs @ drop (at + length bs) xs"

lemma length_write_at [simp]: "at + length bs \<le> length xs \<Longrightarrow> length (write_at at bs xs) = length xs"
  by (simp add: write_at_def)

lemma length_slice_at [simp]: "at + width \<le> length xs \<Longrightarrow> length (slice_at at width xs) = width"
  by (simp add: slice_at_def)

lemma slice_write_same [simp]: "at + length bs \<le> length xs \<Longrightarrow> slice_at at (length bs) (write_at at bs xs) = bs"
  by (simp add: slice_at_def write_at_def)

lemma slice_write_other:
  assumes "at + length bs \<le> length xs" "j + width \<le> at \<or> at + length bs \<le> j" "j + width \<le> length xs"
  shows "slice_at j width (write_at at bs xs) = slice_at j width xs"
proof (rule nth_equalityI)
  fix i assume "i < length (slice_at j width (write_at at bs xs))"
  then have "i < width" by (simp add: slice_at_def)
  then show "slice_at j width (write_at at bs xs) ! i = slice_at j width xs ! i"
    using assms by (auto simp: slice_at_def write_at_def nth_append add.commute)
qed (use assms in \<open>simp add: slice_at_def\<close>)

text \<open>Reading one field of several laid end to end: skip what stands before it, stop at its width.\<close>

lemma slice_skip: "length ys \<le> at \<Longrightarrow> slice_at at width (ys @ xs) = slice_at (at - length ys) width xs"
  by (simp add: slice_at_def)

lemma slice_head: "width = length ys \<Longrightarrow> slice_at 0 width (ys @ xs) = ys"
  by (simp add: slice_at_def)

lemma slice_all: "width = length ys \<Longrightarrow> slice_at 0 width ys = ys"
  by (simp add: slice_at_def)

lemmas slice_fields = slice_skip slice_head slice_all

lemma word_eq_bits: "(a :: 'a::len word) = b \<longleftrightarrow> (\<forall>n<LENGTH('a). bit a n \<longleftrightarrow> bit b n)"
  by (auto intro: bit_word_eqI)

section \<open>A codec of one field\<close>

locale byte_codec =
  fixes put_field :: "'a \<Rightarrow> u8 list" and take_field :: "u8 list \<Rightarrow> 'a" and width :: nat and ok :: "'a \<Rightarrow> bool"
  assumes width_law: "length (put_field x) = width"
    and back_law: "ok x \<Longrightarrow> take_field (put_field x) = x"
begin

lemma field_read_back:
  "ok x \<Longrightarrow> at + width \<le> length xs \<Longrightarrow> take_field (slice_at at width (write_at at (put_field x) xs)) = x"
  using slice_write_same [of at "put_field x" xs] by (simp add: width_law back_law)

lemma injective: "ok x \<Longrightarrow> ok y \<Longrightarrow> put_field x = put_field y \<Longrightarrow> x = y"
  by (metis back_law)

end

definition amount_bytes :: "Amount \<Rightarrow> u8 list" where
  "amount_bytes a = to_le_bytes 8 (word_of_int a :: u64)"

definition amount_from :: "u8 list \<Rightarrow> Amount" where
  "amount_from bs = sint (from_le_bytes bs :: u64)"

lemma signed_take_bit_i64: "i64_ok a \<Longrightarrow> signed_take_bit 63 a = a"
  by (rule signed_take_bit_int_eq_self) (auto simp: i64_ok_def)

interpretation u128_codec: byte_codec "to_le_bytes 16 :: u128 \<Rightarrow> _" from_le_bytes 16 "\<lambda>_. True"
  by unfold_locales (simp_all add: from_to_le_bytes)

interpretation u64_codec: byte_codec "to_le_bytes 8 :: u64 \<Rightarrow> _" from_le_bytes 8 "\<lambda>_. True"
  by unfold_locales (simp_all add: from_to_le_bytes)

interpretation u32_codec: byte_codec "to_le_bytes 4 :: u32 \<Rightarrow> _" from_le_bytes 4 "\<lambda>_. True"
  by unfold_locales (simp_all add: from_to_le_bytes)

interpretation amount_codec: byte_codec amount_bytes amount_from 8 i64_ok
  by unfold_locales
     (simp_all add: amount_bytes_def amount_from_def from_to_le_bytes signed_take_bit_i64 sint_sbintrunc')

lemmas codec_widths = u128_codec.width_law u64_codec.width_law u32_codec.width_law amount_codec.width_law
lemmas codec_backs = u128_codec.back_law u64_codec.back_law u32_codec.back_law amount_codec.back_law

section \<open>Addresses\<close>

definition BLOCK_BYTES :: nat where "BLOCK_BYTES = 4096"
definition RECORD_BYTES :: nat where "RECORD_BYTES = 68"
definition RECORDS_PER_BLOCK :: nat where "RECORDS_PER_BLOCK = BLOCK_BYTES div RECORD_BYTES"
definition CHECKSUM_AT :: nat where "CHECKSUM_AT = RECORDS_PER_BLOCK * RECORD_BYTES"
definition INDEX_BITS :: nat where "INDEX_BITS = 6"
definition BLOCK_BITS :: nat where "BLOCK_BITS = 35"
definition SEGMENT_BITS :: nat where "SEGMENT_BITS = 6"
definition SEGMENT_VALUES :: nat where "SEGMENT_VALUES = 2 ^ SEGMENT_BITS"
definition INDEX_MASK :: u64 where "INDEX_MASK = push_bit INDEX_BITS 1 - 1"
definition BLOCK_MASK :: u64 where "BLOCK_MASK = push_bit BLOCK_BITS 1 - 1"

lemmas block_consts = BLOCK_BYTES_def RECORD_BYTES_def RECORDS_PER_BLOCK_def CHECKSUM_AT_def INDEX_BITS_def
  BLOCK_BITS_def SEGMENT_BITS_def SEGMENT_VALUES_def

type_synonym RecordAddr = u64

definition addr_new :: "u8 \<Rightarrow> u64 \<Rightarrow> u8 \<Rightarrow> RecordAddr" where
  "addr_new segment block index =
     push_bit (BLOCK_BITS + INDEX_BITS) (ucast segment) OR push_bit INDEX_BITS (block AND BLOCK_MASK)
     OR (ucast index AND INDEX_MASK)"

definition addr_segment :: "RecordAddr \<Rightarrow> u8" where
  "addr_segment a = ucast (drop_bit (BLOCK_BITS + INDEX_BITS) a)"

definition addr_block :: "RecordAddr \<Rightarrow> u64" where
  "addr_block a = drop_bit INDEX_BITS a AND BLOCK_MASK"

definition addr_index :: "RecordAddr \<Rightarrow> u8" where
  "addr_index a = ucast (a AND INDEX_MASK)"

definition block_offset :: "RecordAddr \<Rightarrow> u64" where
  "block_offset a = addr_block a * of_nat BLOCK_BYTES"

definition BUFFER_SEGMENT :: u8 where "BUFFER_SEGMENT = of_nat (SEGMENT_VALUES - 1)"
definition SEGMENTS :: nat where "SEGMENTS = unat BUFFER_SEGMENT"

definition addr_buffered :: "u64 \<Rightarrow> u8 \<Rightarrow> RecordAddr" where
  "addr_buffered ordinal index = addr_new BUFFER_SEGMENT ordinal index"

definition is_buffered :: "RecordAddr \<Rightarrow> bool" where
  "is_buffered a \<longleftrightarrow> addr_segment a = BUFFER_SEGMENT"

lemma bit_masks:
  "bit INDEX_MASK i \<longleftrightarrow> i < 6" "bit BLOCK_MASK i \<longleftrightarrow> i < 35"
proof -
  have m: "INDEX_MASK = mask 6" "BLOCK_MASK = mask 35"
    by (simp_all add: INDEX_MASK_def BLOCK_MASK_def block_consts mask_eq_exp_minus_1 push_bit_eq_mult)
  show "bit INDEX_MASK i \<longleftrightarrow> i < 6" "bit BLOCK_MASK i \<longleftrightarrow> i < 35"
    unfolding m bit_mask_iff by (auto simp: possible_bit_word)
qed

lemma small_word_bits: "unat (w :: 'a::len word) < 2 ^ n \<Longrightarrow> bit w i \<Longrightarrow> i < n"
proof -
  assume a: "unat w < 2 ^ n" "bit w i"
  have "bit (unat w) i" using a(2) by (simp add: bit_unsigned_iff)
  then show ?thesis using a(1) by (metis bit_take_bit_iff take_bit_nat_eq_self)
qed

lemmas addr_defs = addr_new_def addr_segment_def addr_block_def addr_index_def

lemma addr_parts:
  assumes "unat segment < SEGMENT_VALUES" "unat block < 2 ^ BLOCK_BITS" "unat index < 2 ^ INDEX_BITS"
  shows "addr_segment (addr_new segment block index) = segment"
    and "addr_block (addr_new segment block index) = block"
    and "addr_index (addr_new segment block index) = index"
proof -
  note small = small_word_bits [of segment 6] small_word_bits [of block 35] small_word_bits [of index 6]
  note fits = assms [unfolded block_consts]
  show "addr_segment (addr_new segment block index) = segment"
    by (rule bit_word_eqI) (use fits small in \<open>auto simp: addr_defs block_consts bit_simps bit_masks\<close>)
  show "addr_block (addr_new segment block index) = block"
  proof (rule bit_word_eqI)
    fix n
    show "bit (addr_block (addr_new segment block index)) n \<longleftrightarrow> bit block n"
    proof (cases "n < 35")
      case True
      then show ?thesis using fits small by (auto simp: addr_defs block_consts bit_simps bit_masks)
    next
      case False
      then show ?thesis using small(2) [of n] fits by (auto simp: addr_defs block_consts bit_simps bit_masks)
    qed
  qed
  show "addr_index (addr_new segment block index) = index"
    by (rule bit_word_eqI) (use fits small in \<open>auto simp: addr_defs block_consts bit_simps bit_masks\<close>)
qed

text \<open>Forty-seven bits is what an index slot has left beside its fingerprint and its mark.\<close>

lemma addr_fits: "unat segment < SEGMENT_VALUES \<Longrightarrow> bit (addr_new segment block index) i \<Longrightarrow> i < 47"
  using small_word_bits [of segment 6 "i - 41"]
  by (auto simp: addr_defs block_consts bit_simps bit_masks)

definition addr_ok :: "RecordAddr \<Rightarrow> bool" where
  "addr_ok a \<longleftrightarrow> unat a < 2 ^ 47"

lemma addr_ok_new [simp]: "unat segment < SEGMENT_VALUES \<Longrightarrow> addr_ok (addr_new segment block index)"
proof -
  assume "unat segment < SEGMENT_VALUES"
  then have "addr_new segment block index = take_bit 47 (addr_new segment block index)"
    using addr_fits [of segment block index] by (auto simp: word_eq_bits bit_simps)
  then show ?thesis unfolding addr_ok_def by (metis take_bit_nat_less_exp unsigned_take_bit_eq)
qed

text \<open>An address is its three parts.\<close>

lemma addr_ext:
  assumes "addr_ok a" "addr_ok b" "addr_segment a = addr_segment b" "addr_block a = addr_block b" "addr_index a = addr_index b"
  shows "a = b"
proof (rule bit_word_eqI)
  fix n assume n: "n < LENGTH(64)"
  have bits: "bit a i \<Longrightarrow> i < 47" "bit b i \<Longrightarrow> i < 47" for i
    using assms(1,2) small_word_bits [of _ 47] by (auto simp: addr_ok_def)
  consider "n < 6" | "6 \<le> n" "n < 41" | "41 \<le> n" "n < 47" | "47 \<le> n" by linarith
  then show "bit a n \<longleftrightarrow> bit b n"
  proof cases
    case 1
    have "bit (addr_index a) n = bit (addr_index b) n" using assms(5) by simp
    then show ?thesis using 1 by (auto simp: addr_index_def bit_simps bit_masks)
  next
    case 2
    have "bit (addr_block a) (n - 6) = bit (addr_block b) (n - 6)" using assms(4) by simp
    then show ?thesis using 2 n by (auto simp: addr_block_def bit_simps bit_masks block_consts)
  next
    case 3
    have "bit (addr_segment a) (n - 41) = bit (addr_segment b) (n - 41)" using assms(3) by simp
    then show ?thesis using 3 n by (auto simp: addr_segment_def bit_simps block_consts)
  next
    case 4
    then show ?thesis using bits by (meson not_less)
  qed
qed

lemma addr_ok_segment: "addr_ok a \<Longrightarrow> unat (addr_segment a) < SEGMENT_VALUES"
proof -
  assume "addr_ok a"
  then have "bit (addr_segment a) i \<Longrightarrow> i < 6" for i
    using small_word_bits [of a 47 "41 + i"] by (auto simp: addr_ok_def addr_segment_def bit_simps block_consts)
  then have "addr_segment a = take_bit 6 (addr_segment a)" by (auto simp: word_eq_bits bit_simps)
  then have "unat (addr_segment a) < 2 ^ 6" by (metis take_bit_nat_less_exp unsigned_take_bit_eq)
  then show ?thesis by (simp add: block_consts)
qed

section \<open>Records\<close>

definition encode :: "TxId \<Rightarrow> HoldData \<Rightarrow> u8 list" where
  "encode key hold =
     to_le_bytes 16 key @ to_le_bytes 8 (hd_debit_account hold) @ to_le_bytes 8 (hd_credit_account hold)
     @ amount_bytes (hd_amount hold) @ amount_bytes (hd_remaining hold) @ to_le_bytes 4 (hd_ledger hold)
     @ to_le_bytes 16 (hd_budget hold)"

definition decode :: "u8 list \<Rightarrow> TxId \<times> HoldData" where
  "decode bytes =
     (from_le_bytes (slice_at 0 16 bytes),
      \<lparr>hd_debit_account = from_le_bytes (slice_at 16 8 bytes), hd_credit_account = from_le_bytes (slice_at 24 8 bytes),
       hd_amount = amount_from (slice_at 32 8 bytes), hd_remaining = amount_from (slice_at 40 8 bytes),
       hd_ledger = from_le_bytes (slice_at 48 4 bytes), hd_budget = from_le_bytes (slice_at 52 16 bytes),
       hd_budget_members = 0, hd_budget_remaining = 0\<rparr>)"

text \<open>A record carries everything of a hold but what its group has left.\<close>

definition without_group :: "HoldData \<Rightarrow> HoldData" where
  "without_group hold = hold\<lparr>hd_budget_members := 0, hd_budget_remaining := 0\<rparr>"

definition hold_in_range :: "HoldData \<Rightarrow> bool" where
  "hold_in_range hold \<longleftrightarrow> i64_ok (hd_amount hold) \<and> i64_ok (hd_remaining hold)"

lemma length_encode [simp]: "length (encode key hold) = RECORD_BYTES"
  by (simp add: encode_def codec_widths block_consts)

lemma decode_encode: "hold_in_range hold \<Longrightarrow> decode (encode key hold) = (key, without_group hold)"
  by (cases hold)
     (simp add: decode_def encode_def slice_fields codec_widths codec_backs hold_in_range_def without_group_def)

section \<open>Blocks\<close>

type_synonym Block = "u8 list"

definition block_zeroed :: Block where
  "block_zeroed = replicate BLOCK_BYTES 0"

definition block_wf :: "Block \<Rightarrow> bool" where
  "block_wf b \<longleftrightarrow> length b = BLOCK_BYTES"

definition block_stamp :: "(u8 list \<Rightarrow> u32) \<Rightarrow> Block \<Rightarrow> Block" where
  "block_stamp crc32c b = write_at CHECKSUM_AT (to_le_bytes 4 (crc32c (take CHECKSUM_AT b))) b"

definition block_intact :: "(u8 list \<Rightarrow> u32) \<Rightarrow> Block \<Rightarrow> bool" where
  "block_intact crc32c b \<longleftrightarrow> from_le_bytes (slice_at CHECKSUM_AT 4 b) = crc32c (take CHECKSUM_AT b)"

definition record_at :: "Block \<Rightarrow> nat \<Rightarrow> TxId \<times> HoldData" where
  "record_at b index = decode (slice_at (index * RECORD_BYTES) RECORD_BYTES b)"

lemma block_zeroed_wf [simp]: "block_wf block_zeroed"
  by (simp add: block_wf_def block_zeroed_def)

lemma stamp_wf [simp]: "block_wf b \<Longrightarrow> block_wf (block_stamp crc b)"
  by (simp add: block_wf_def block_stamp_def block_consts)

lemma stamp_intact [simp]: "block_wf b \<Longrightarrow> block_intact crc (block_stamp crc b)"
  using slice_write_same [of CHECKSUM_AT "to_le_bytes 4 (crc (take CHECKSUM_AT b))" b]
  by (simp add: block_wf_def block_intact_def block_stamp_def block_consts u32_codec.back_law)
     (simp add: write_at_def)

lemma stamp_records:
  "block_wf b \<Longrightarrow> index < RECORDS_PER_BLOCK \<Longrightarrow> record_at (block_stamp crc b) index = record_at b index"
  by (simp add: record_at_def block_stamp_def slice_write_other block_wf_def block_consts)

section \<open>Objects and handles\<close>

type_synonym ObjectId = nat

definition object_segment :: "u8 \<Rightarrow> ObjectId" where "object_segment segment = unat segment"
definition SNAPSHOT_CURRENT :: ObjectId where "SNAPSHOT_CURRENT = SEGMENT_VALUES"
definition SNAPSHOT_PARTIAL :: ObjectId where "SNAPSHOT_PARTIAL = SEGMENT_VALUES + 1"
definition OBJECT_VALUES :: nat where "OBJECT_VALUES = SEGMENT_VALUES + 2"

datatype IoOwner = OwnBlocks | OwnSnapshot | OwnSweep

fun owner_tag :: "IoOwner \<Rightarrow> u64" where
  "owner_tag OwnBlocks = 0"
| "owner_tag OwnSnapshot = 1"
| "owner_tag OwnSweep = 2"

definition OWNER_SHIFT :: nat where "OWNER_SHIFT = 56"

definition io_handle :: "IoOwner \<Rightarrow> u64 \<Rightarrow> u64" where
  "io_handle owner sequence = push_bit OWNER_SHIFT (owner_tag owner) OR sequence"

definition io_owns :: "IoOwner \<Rightarrow> u64 \<Rightarrow> bool" where
  "io_owns owner handle \<longleftrightarrow> drop_bit OWNER_SHIFT handle = owner_tag owner"

datatype StoreFault = FaultMissing | FaultDevice

lemma drop_handle: "unat sequence < 2 ^ 56 \<Longrightarrow> drop_bit 56 (io_handle owner sequence) = owner_tag owner"
proof (rule bit_word_eqI)
  fix i assume "unat sequence < 2 ^ 56" "i < LENGTH(64)"
  then show "bit (drop_bit 56 (io_handle owner sequence)) i \<longleftrightarrow> bit (owner_tag owner) i"
    using small_word_bits [of sequence 56] small_word_bits [of "owner_tag owner" 8 "i"]
    by (cases owner) (auto simp: io_handle_def OWNER_SHIFT_def bit_simps)
qed

lemma owner_is_told_apart: "unat sequence < 2 ^ 56 \<Longrightarrow> io_owns o' (io_handle owner sequence) \<longleftrightarrow> o' = owner"
  by (cases owner; cases o') (simp_all add: io_owns_def OWNER_SHIFT_def drop_handle)

section \<open>A block being filled\<close>

record Filling =
  fl_bytes :: Block
  fl_filled :: nat
  fl_began_at :: ApplyIndex

definition filling_new :: Filling where
  "filling_new = \<lparr>fl_bytes = block_zeroed, fl_filled = 0, fl_began_at = 0\<rparr>"

definition filling_full :: "Filling \<Rightarrow> bool" where
  "filling_full f \<longleftrightarrow> fl_filled f = RECORDS_PER_BLOCK"

definition filling_put :: "TxId \<Rightarrow> HoldData \<Rightarrow> Filling \<Rightarrow> (nat \<times> Filling) option" where
  "filling_put key hold f =
     (let at = fl_filled f * RECORD_BYTES in
      if at + RECORD_BYTES \<le> length (fl_bytes f)
      then Some (fl_filled f, f\<lparr>fl_bytes := write_at at (encode key hold) (fl_bytes f), fl_filled := fl_filled f + 1\<rparr>)
      else None)"

definition filling_put_at :: "TxId \<Rightarrow> HoldData \<Rightarrow> ApplyIndex \<Rightarrow> Filling \<Rightarrow> (nat \<times> Filling) option" where
  "filling_put_at key hold at f =
     filling_put key hold (if fl_filled f = 0 then f\<lparr>fl_began_at := at\<rparr> else f)"

definition filling_get :: "nat \<Rightarrow> Filling \<Rightarrow> (TxId \<times> HoldData) option" where
  "filling_get index f = (if fl_filled f \<le> index then None else Some (record_at (fl_bytes f) index))"

definition filling_wf :: "Filling \<Rightarrow> bool" where
  "filling_wf f \<longleftrightarrow> block_wf (fl_bytes f) \<and> fl_filled f \<le> RECORDS_PER_BLOCK"

lemma filling_new_wf [simp]: "filling_wf filling_new"
  by (simp add: filling_wf_def filling_new_def)

text \<open>The records of a block that is being filled, in the order they went in.\<close>

definition filling_records :: "Filling \<Rightarrow> (TxId \<times> HoldData) list" where
  "filling_records f = map (record_at (fl_bytes f)) [0..<fl_filled f]"

lemma filling_get_records:
  "filling_get index f = (if index < length (filling_records f) then Some (filling_records f ! index) else None)"
  by (auto simp: filling_get_def filling_records_def)

lemma record_write_other:
  assumes "block_wf b" "i < n" "n < RECORDS_PER_BLOCK"
  shows "record_at (write_at (n * RECORD_BYTES) (encode key hold) b) i = record_at b i"
proof -
  have "i * 68 + 68 \<le> n * 68" using assms(2) by simp
  then show ?thesis
    using assms by (simp add: record_at_def slice_write_other block_wf_def block_consts)
qed

lemma filling_put_room:
  assumes "filling_wf f" "\<not> filling_full f"
  obtains f' where "filling_put key hold f = Some (fl_filled f, f')" "filling_wf f'"
    "filling_records f' = filling_records f @ [decode (encode key hold)]" "fl_began_at f' = fl_began_at f"
    "fl_filled f' = Suc (fl_filled f)"
proof -
  let ?b = "write_at (fl_filled f * RECORD_BYTES) (encode key hold) (fl_bytes f)"
  let ?f = "f\<lparr>fl_bytes := ?b, fl_filled := fl_filled f + 1\<rparr>"
  have n: "fl_filled f < 60" "length (fl_bytes f) = 4096"
    using assms by (auto simp: filling_wf_def filling_full_def block_wf_def block_consts)
  have "record_at ?b (fl_filled f) = decode (encode key hold)"
    using slice_write_same [of "fl_filled f * RECORD_BYTES" "encode key hold" "fl_bytes f"] n
    by (simp add: record_at_def block_consts)
  moreover have "record_at ?b i = record_at (fl_bytes f) i" if "i < fl_filled f" for i
    using record_write_other [of "fl_bytes f" i "fl_filled f"] that n by (simp add: block_wf_def block_consts)
  ultimately have "filling_records ?f = filling_records f @ [decode (encode key hold)]"
    by (simp add: filling_records_def)
  moreover have "filling_wf ?f" "filling_put key hold f = Some (fl_filled f, ?f)"
    using n by (simp_all add: filling_wf_def block_wf_def filling_put_def Let_def block_consts)
  ultimately show ?thesis using that by simp
qed

lemma filling_put_at_room:
  assumes "filling_wf f" "\<not> filling_full f"
  obtains f' where "filling_put_at key hold at f = Some (fl_filled f, f')" "filling_wf f'"
    "\<And>i. filling_get i f' = (if i = fl_filled f then Some (decode (encode key hold)) else filling_get i f)"
    "fl_filled f < RECORDS_PER_BLOCK" "fl_began_at f' = (if fl_filled f = 0 then at else fl_began_at f)"
    "fl_filled f' = Suc (fl_filled f)"
proof -
  let ?f = "if fl_filled f = 0 then f\<lparr>fl_began_at := at\<rparr> else f"
  have wf: "filling_wf ?f" "\<not> filling_full ?f" using assms by (simp_all add: filling_wf_def filling_full_def)
  have same: "filling_records ?f = filling_records f" "fl_filled ?f = fl_filled f" by (simp_all add: filling_records_def)
  obtain f' where f': "filling_put key hold ?f = Some (fl_filled f, f')" "filling_wf f'"
      "filling_records f' = filling_records f @ [decode (encode key hold)]" "fl_began_at f' = fl_began_at ?f"
      "fl_filled f' = Suc (fl_filled f)"
    using filling_put_room [OF wf] same by metis
  have "filling_get i f' = (if i = fl_filled f then Some (decode (encode key hold)) else filling_get i f)" for i
    using f'(3) by (auto simp: filling_get_records nth_append filling_records_def)
  moreover have "fl_filled f < RECORDS_PER_BLOCK" using assms by (auto simp: filling_wf_def filling_full_def)
  ultimately show ?thesis using that f' by (simp add: filling_put_at_def)
qed

text \<open>C29: a record put into a block comes back after the block is sealed: the block's checksum holds, the record is
  decoded with the key and the hold it was written with (a record carries no totals of its budget group), and the
  records already in the block read as before.\<close>

theorem record_survives_sealed_block:
  assumes "filling_wf f" "\<not> filling_full f" "hold_in_range hold"
  shows "\<exists>f'. filling_put_at key hold at f = Some (fl_filled f, f') \<and> block_intact crc (block_stamp crc (fl_bytes f'))
    \<and> record_at (block_stamp crc (fl_bytes f')) (fl_filled f) = (key, without_group hold)
    \<and> (\<forall>i<fl_filled f. record_at (block_stamp crc (fl_bytes f')) i = record_at (fl_bytes f) i)"
proof -
  obtain f' where f': "filling_put_at key hold at f = Some (fl_filled f, f')" "filling_wf f'"
      "\<And>i. filling_get i f' = (if i = fl_filled f then Some (decode (encode key hold)) else filling_get i f)"
      "fl_filled f < RECORDS_PER_BLOCK" "fl_filled f' = Suc (fl_filled f)"
    using filling_put_at_room [OF assms(1,2)] by metis
  have wf: "block_wf (fl_bytes f')" using f'(2) by (simp add: filling_wf_def)
  have stamped: "record_at (block_stamp crc (fl_bytes f')) i = record_at (fl_bytes f') i" if "i \<le> fl_filled f" for i
    using stamp_records [OF wf] that f'(4) by simp
  have "record_at (fl_bytes f') (fl_filled f) = (key, without_group hold)"
    using f'(3) [of "fl_filled f"] f'(5) decode_encode [OF assms(3)] by (simp add: filling_get_def)
  moreover have "record_at (fl_bytes f') i = record_at (fl_bytes f) i" if "i < fl_filled f" for i
    using f'(3) [of i] f'(5) that by (simp add: filling_get_def)
  ultimately show ?thesis using f'(1) stamped stamp_intact [OF wf] by auto
qed

definition sample_hold :: HoldData where
  "sample_hold = \<lparr>hd_debit_account = 1, hd_credit_account = 2, hd_amount = 100, hd_remaining = 40, hd_ledger = 1,
     hd_budget = 9, hd_budget_members = 3, hd_budget_remaining = 70\<rparr>"

lemma record_survives_sealed_block_witness:
  "\<exists>f'. filling_put_at 7 sample_hold 1 filling_new = Some (0, f')
    \<and> record_at (block_stamp (\<lambda>_. 0) (fl_bytes f')) 0 = (7, sample_hold\<lparr>hd_budget_members := 0, hd_budget_remaining := 0\<rparr>)"
proof -
  have "hold_in_range sample_hold" "without_group sample_hold = sample_hold\<lparr>hd_budget_members := 0, hd_budget_remaining := 0\<rparr>"
    by (simp_all add: hold_in_range_def sample_hold_def without_group_def i64_ok_def)
  moreover have "filling_wf filling_new" "\<not> filling_full filling_new" "fl_filled filling_new = 0"
    by (simp_all add: filling_full_def filling_new_def filling_wf_def block_consts)
  ultimately show ?thesis using record_survives_sealed_block [of filling_new sample_hold 7 1 "\<lambda>_. 0"] by auto
qed

text \<open>C32: an address carries its three parts: whatever segment, block number and record index within their fields it
  is made of are read back from it, it fits the forty-seven bits a slot of the index keeps, and it is an address of
  the writeback buffer exactly when its segment is the reserved one.\<close>

theorem address_carries_its_parts:
  assumes "unat segment < SEGMENT_VALUES" "unat block < 2 ^ BLOCK_BITS" "unat index < 2 ^ INDEX_BITS"
  shows "addr_segment (addr_new segment block index) = segment \<and> addr_block (addr_new segment block index) = block
    \<and> addr_index (addr_new segment block index) = index \<and> unat (addr_new segment block index) < 2 ^ 47
    \<and> (is_buffered (addr_new segment block index) \<longleftrightarrow> segment = BUFFER_SEGMENT)"
  using addr_parts [OF assms] addr_ok_new [OF assms(1), of block index] by (simp add: addr_ok_def is_buffered_def)

lemma address_carries_its_parts_witness:
  "addr_segment (addr_new 5 1000 59) = 5 \<and> addr_block (addr_new 5 1000 59) = 1000 \<and> addr_index (addr_new 5 1000 59) = 59"
  using address_carries_its_parts [of 5 1000 59] by (simp add: block_consts)

end
