(* ===== verification/Hold_Index.thy ===== *)
theory Hold_Index
  imports Records
begin

text \<open>
  The index of the pending store (\<open>pending/src/index.rs\<close>): a bucketed cuckoo table from transaction ids to
  record addresses, with the generator that picks its victims (\<open>base/src/prng.rs\<close>). The hasher is a crate
  outside the repository, so it is a parameter: one function per width the source hashes. A lookup may have
  to read a record to tell two keys apart; that reader changes the log it reads, so it is a function that
  threads a state. Indices into the bucket array are always below its length, because they are masked by it
  (\<open>locate_in_range\<close>), so the array is read with \<open>!\<close>.

  The locale \<open>slot_inv\<close> collects what one write of a slot keeps and proves that every operation keeps it;
  the shape of the table, the counts and the stable read of a snapshot are interpretations. The locale
  \<open>verifier\<close> is the reader of records the table relies on. The lemmas show that the table refines a map.
\<close>

section \<open>The generator\<close>

type_synonym Prng = u64

definition prng_new :: "u64 \<Rightarrow> Prng" where
  "prng_new seed = ((seed * 0x9E3779B97F4A7C15) XOR 0x5DEECE66D5AA1234) OR 1"

definition next_u64 :: "Prng \<Rightarrow> u64 \<times> Prng" where
  "next_u64 s =
     (let a = s XOR push_bit 13 s; b = a XOR drop_bit 7 a; c = b XOR push_bit 17 b in (c, c))"

section \<open>Slots\<close>

definition WAYS :: nat where "WAYS = 4"
definition MAX_HOPS :: nat where "MAX_HOPS = 128"
definition DEFAULT_SLOTS :: nat where "DEFAULT_SLOTS = 2 ^ 20"

type_synonym Slot = u64

definition EMPTY :: Slot where "EMPTY = 0"
definition FINGERPRINT_SHIFT :: nat where "FINGERPRINT_SHIFT = 48"
definition AMBIGUOUS :: u64 where "AMBIGUOUS = push_bit 47 1"
definition ADDRESS_MASK :: u64 where "ADDRESS_MASK = AMBIGUOUS - 1"

definition pack :: "u64 \<Rightarrow> RecordAddr \<Rightarrow> Slot" where
  "pack fingerprint addr = push_bit FINGERPRINT_SHIFT fingerprint OR (addr AND ADDRESS_MASK)"

definition fingerprint_of :: "Slot \<Rightarrow> u64" where
  "fingerprint_of slot = drop_bit FINGERPRINT_SHIFT slot"

definition address_of :: "Slot \<Rightarrow> RecordAddr" where
  "address_of slot = slot AND ADDRESS_MASK"

definition is_ambiguous :: "Slot \<Rightarrow> bool" where
  "is_ambiguous slot \<longleftrightarrow> slot AND AMBIGUOUS \<noteq> 0"

definition fingerprint_from :: "u64 \<Rightarrow> u64" where
  "fingerprint_from hash =
     (if drop_bit FINGERPRINT_SHIFT hash = 0 then 1 else drop_bit FINGERPRINT_SHIFT hash)"

section \<open>The table\<close>

record Hasher =
  hash_u128 :: "u128 \<Rightarrow> u64"
  hash_u64 :: "u64 \<Rightarrow> u64"

record HoldTable =
  ht_buckets :: "Slot list list"
  ht_mask :: u64
  ht_live :: nat
  ht_live_per_segment :: "u32 list"
  ht_shadow :: "(nat \<times> Slot list) list"
  ht_read_through :: "nat option"
  ht_victims :: Prng
  ht_max_hops :: nat
  ht_hops :: nat
  ht_worst_hops :: nat
  ht_ambiguous :: nat

definition with_capacity :: "nat \<Rightarrow> nat \<Rightarrow> HoldTable" where
  "with_capacity slots max_hops =
     (let buckets = max (next_power_of_two ((slots + WAYS - 1) div WAYS)) 2 in
      \<lparr>ht_buckets = replicate buckets (replicate WAYS EMPTY), ht_mask = word_of_nat buckets - 1, ht_live = 0,
       ht_live_per_segment = replicate SEGMENT_VALUES 0, ht_shadow = [], ht_read_through = None,
       ht_victims = prng_new 0x9E3779B9, ht_max_hops = max max_hops 1, ht_hops = 0, ht_worst_hops = 0,
       ht_ambiguous = 0\<rparr>)"

definition with_slots :: "nat \<Rightarrow> HoldTable" where
  "with_slots slots = with_capacity slots MAX_HOPS"

definition slot_word :: "HoldTable \<Rightarrow> nat \<times> nat \<Rightarrow> Slot" where
  "slot_word t at = ht_buckets t ! fst at ! snd at"

definition alternate :: "Hasher \<Rightarrow> u64 \<Rightarrow> nat \<Rightarrow> u64 \<Rightarrow> nat" where
  "alternate hs tmask bucket fingerprint =
     (let step = hash_u64 hs fingerprint AND tmask in bucket XOR (if step = 0 then 1 else unat step))"

definition locate :: "Hasher \<Rightarrow> u64 \<Rightarrow> TxId \<Rightarrow> u64 \<times> nat \<times> nat" where
  "locate hs tmask key =
     (let hash = hash_u128 hs key; fingerprint = fingerprint_from hash; home = unat (hash AND tmask) in
      (fingerprint, home, alternate hs tmask home fingerprint))"

text \<open>The slots of both candidate buckets, in the order a probe reads them.\<close>

definition probe :: "nat \<Rightarrow> nat \<Rightarrow> (nat \<times> nat) list" where
  "probe home alt = map (Pair home) [0..<WAYS] @ map (Pair alt) [0..<WAYS]"

text \<open>A candidate keeps its bucket in thirty-two bits.\<close>

type_synonym Candidates = "(RecordAddr \<times> nat \<times> nat) list"

definition candidate :: "HoldTable \<Rightarrow> nat \<times> nat \<Rightarrow> RecordAddr \<times> nat \<times> nat" where
  "candidate t at = (address_of (slot_word t at), unat (word_of_nat (fst at) :: u32), unat (word_of_nat (snd at) :: u8))"

definition candidates :: "Hasher \<Rightarrow> HoldTable \<Rightarrow> TxId \<Rightarrow> Candidates" where
  "candidates hs t key =
     (case locate hs (ht_mask t) key of (fingerprint, home, alt) \<Rightarrow>
        map (candidate t) (filter (\<lambda>at. slot_word t at \<noteq> EMPTY \<and> fingerprint_of (slot_word t at) = fingerprint)
          (probe home alt)))"

datatype Found = Absent | FoundAt "nat \<times> nat" | Ambiguous Candidates

definition ht_find :: "Hasher \<Rightarrow> HoldTable \<Rightarrow> TxId \<Rightarrow> Found" where
  "ht_find hs t key =
     (case candidates hs t key of
        [] \<Rightarrow> Absent
      | [(addr, at)] \<Rightarrow> if \<not> is_ambiguous (slot_word t at) then FoundAt at else Ambiguous [(addr, at)]
      | cs \<Rightarrow> Ambiguous cs)"

text \<open>The reader a caller hands in: it answers for one address and may change what it reads from.\<close>

type_synonym 's verify = "RecordAddr \<Rightarrow> 's \<Rightarrow> bool \<times> 's"

fun first_verified :: "'s verify \<Rightarrow> Candidates \<Rightarrow> 's \<Rightarrow> (nat \<times> nat) option \<times> 's" where
  "first_verified verify [] s = (None, s)"
| "first_verified verify ((addr, at) # cs) s =
     (let (yes, s') = verify addr s in if yes then (Some at, s') else first_verified verify cs s')"

definition ht_resolve :: "Hasher \<Rightarrow> HoldTable \<Rightarrow> TxId \<Rightarrow> 's verify \<Rightarrow> 's \<Rightarrow> (nat \<times> nat) option \<times> 's" where
  "ht_resolve hs t key verify s =
     (case ht_find hs t key of
        Absent \<Rightarrow> (None, s)
      | FoundAt at \<Rightarrow> (Some at, s)
      | Ambiguous cs \<Rightarrow> first_verified verify cs s)"

definition addr_of :: "Hasher \<Rightarrow> HoldTable \<Rightarrow> TxId \<Rightarrow> 's verify \<Rightarrow> 's \<Rightarrow> RecordAddr option \<times> 's" where
  "addr_of hs t key verify s =
     (let (at, s') = ht_resolve hs t key verify s in (map_option (\<lambda>at. address_of (slot_word t at)) at, s'))"

definition slot_at :: "Hasher \<Rightarrow> HoldTable \<Rightarrow> TxId \<Rightarrow> RecordAddr \<Rightarrow> (nat \<times> nat) option" where
  "slot_at hs t key addr =
     (case locate hs (ht_mask t) key of (_, home, alt) \<Rightarrow>
        List.find (\<lambda>at. slot_word t at \<noteq> EMPTY \<and> address_of (slot_word t at) = addr) (probe home alt))"

definition points_at :: "Hasher \<Rightarrow> HoldTable \<Rightarrow> TxId \<Rightarrow> RecordAddr \<Rightarrow> bool" where
  "points_at hs t key addr \<longleftrightarrow> slot_at hs t key addr \<noteq> None"

section \<open>The one write point\<close>

definition shadow_bucket :: "nat \<Rightarrow> HoldTable \<Rightarrow> HoldTable" where
  "shadow_bucket bucket t =
     (case ht_read_through t of
        Some read \<Rightarrow>
          if read \<le> bucket \<and> map_of (ht_shadow t) bucket = None
          then t\<lparr>ht_shadow := (bucket, ht_buckets t ! bucket) # ht_shadow t\<rparr> else t
      | None \<Rightarrow> t)"

definition count_out :: "Slot \<Rightarrow> HoldTable \<Rightarrow> HoldTable" where
  "count_out previous t =
     (if previous = EMPTY then t
      else let seg = unat (addr_segment (address_of previous)) in
        t\<lparr>ht_live_per_segment := (ht_live_per_segment t)[seg := ht_live_per_segment t ! seg - 1],
          ht_live := usize_sub (ht_live t) 1\<rparr>)"

definition count_in :: "Slot \<Rightarrow> HoldTable \<Rightarrow> HoldTable" where
  "count_in slot t =
     (if slot = EMPTY then t
      else let seg = unat (addr_segment (address_of slot)) in
        t\<lparr>ht_live_per_segment := (ht_live_per_segment t)[seg := ht_live_per_segment t ! seg + 1],
          ht_live := ht_live t + 1\<rparr>)"

definition write_word :: "nat \<times> nat \<Rightarrow> Slot \<Rightarrow> Slot list list \<Rightarrow> Slot list list" where
  "write_word at slot bs = bs[fst at := (bs ! fst at)[snd at := slot]]"

definition set_slot :: "nat \<times> nat \<Rightarrow> Slot \<Rightarrow> HoldTable \<Rightarrow> Slot \<times> HoldTable" where
  "set_slot at slot t =
     (let previous = slot_word t at;
          t1 = count_in slot (count_out previous (shadow_bucket (fst at) t)) in
      (previous, t1\<lparr>ht_buckets := write_word at slot (ht_buckets t1)\<rparr>))"

section \<open>Placing an entry\<close>

definition ht_put :: "nat \<Rightarrow> Slot \<Rightarrow> HoldTable \<Rightarrow> bool \<times> HoldTable" where
  "ht_put bucket slot t =
     (case List.find (\<lambda>way. slot_word t (bucket, way) = EMPTY) [0..<WAYS] of
        Some way \<Rightarrow> (True, snd (set_slot (bucket, way) slot t))
      | None \<Rightarrow> (False, t))"

definition victim :: "Hasher \<Rightarrow> nat \<Rightarrow> nat \<Rightarrow> HoldTable \<Rightarrow> nat \<times> HoldTable" where
  "victim hs bucket came_from t =
     (let (drawn, victims) = next_u64 (ht_victims t);
          start = unat (drawn mod of_nat WAYS);
          other = (\<lambda>step. let way = (start + step) mod WAYS in
             alternate hs (ht_mask t) bucket (fingerprint_of (slot_word t (bucket, way))) \<noteq> came_from) in
      (case List.find other [0..<WAYS] of Some step \<Rightarrow> (start + step) mod WAYS | None \<Rightarrow> start,
       t\<lparr>ht_victims := victims\<rparr>))"

fun kick :: "Hasher \<Rightarrow> nat \<Rightarrow> nat \<Rightarrow> Slot \<Rightarrow> nat \<Rightarrow> nat \<Rightarrow> HoldTable \<Rightarrow> (Slot + unit) \<times> HoldTable" where
  "kick hs 0 hop slot bucket came_from t = (Inl slot, t)"
| "kick hs (Suc left) hop slot bucket came_from t =
     (let (way, t1) = victim hs bucket came_from t;
          (displaced, t2) = set_slot (bucket, way) slot t1;
          onward = alternate hs (ht_mask t2) bucket (fingerprint_of displaced);
          (home, t3) = ht_put onward displaced t2 in
      if home then (Inr (), t3\<lparr>ht_hops := ht_hops t3 + hop, ht_worst_hops := max (ht_worst_hops t3) hop\<rparr>)
      else kick hs left (Suc hop) displaced onward bucket t3)"

definition ht_place :: "Hasher \<Rightarrow> Slot \<Rightarrow> nat \<Rightarrow> nat \<Rightarrow> HoldTable \<Rightarrow> (Slot + unit) \<times> HoldTable" where
  "ht_place hs slot home alt t =
     (let (placed, t1) = ht_put home slot t in
      if placed then (Inr (), t1)
      else let (placed, t2) = ht_put alt slot t1 in
        if placed then (Inr (), t2) else kick hs (ht_max_hops t2) 1 slot home alt t2)"

section \<open>Operations\<close>

definition ht_mark :: "nat \<times> nat \<Rightarrow> HoldTable \<Rightarrow> HoldTable" where
  "ht_mark at t = snd (set_slot at (slot_word t at OR AMBIGUOUS) t)"

text \<open>\<open>Inl\<close> is the address of the entry a full cascade left without a home.\<close>

definition insert_new :: "Hasher \<Rightarrow> TxId \<Rightarrow> RecordAddr \<Rightarrow> HoldTable \<Rightarrow> (RecordAddr + unit) \<times> HoldTable" where
  "insert_new hs key addr t =
     (case locate hs (ht_mask t) key of (fingerprint, home, alt) \<Rightarrow>
        let clashes = candidates hs t key;
            slot = pack fingerprint addr;
            t1 = (if clashes = [] then t
                  else (let u = fold (\<lambda>c. ht_mark (snd c)) clashes t in u\<lparr>ht_ambiguous := ht_ambiguous u + 1\<rparr>));
            (placed, t2) = ht_place hs (if clashes = [] then slot else slot OR AMBIGUOUS) home alt t1 in
        (case placed of Inr _ \<Rightarrow> Inr () | Inl displaced \<Rightarrow> Inl (address_of displaced), t2))"

definition redirect :: "nat \<times> nat \<Rightarrow> RecordAddr \<Rightarrow> HoldTable \<Rightarrow> HoldTable" where
  "redirect at addr t =
     (let slot = slot_word t at in
      snd (set_slot at (pack (fingerprint_of slot) addr OR (slot AND AMBIGUOUS)) t))"

definition ht_replace :: "Hasher \<Rightarrow> TxId \<Rightarrow> RecordAddr \<Rightarrow> RecordAddr \<Rightarrow> HoldTable \<Rightarrow> bool \<times> HoldTable" where
  "ht_replace hs key old new t =
     (case slot_at hs t key old of None \<Rightarrow> (False, t) | Some at \<Rightarrow> (True, redirect at new t))"

definition repoint :: "Hasher \<Rightarrow> TxId \<Rightarrow> RecordAddr \<Rightarrow> 's verify \<Rightarrow> HoldTable \<Rightarrow> 's \<Rightarrow> bool \<times> HoldTable \<times> 's" where
  "repoint hs key addr verify t s =
     (let (at, s') = ht_resolve hs t key verify s in
      case at of None \<Rightarrow> (False, t, s') | Some at \<Rightarrow> (True, redirect at addr t, s'))"

definition ht_remove :: "Hasher \<Rightarrow> TxId \<Rightarrow> 's verify \<Rightarrow> HoldTable \<Rightarrow> 's \<Rightarrow> RecordAddr option \<times> HoldTable \<times> 's" where
  "ht_remove hs key verify t s =
     (let (at, s') = ht_resolve hs t key verify s in
      case at of
        None \<Rightarrow> (None, t, s')
      | Some at \<Rightarrow> (let (cleared, t') = set_slot at EMPTY t in (Some (address_of cleared), t', s')))"

definition live_in_segment :: "HoldTable \<Rightarrow> u8 \<Rightarrow> u32 option" where
  "live_in_segment t segment = vec_get (ht_live_per_segment t) (unat segment)"

definition bucket_words :: "HoldTable \<Rightarrow> nat \<Rightarrow> Slot list option" where
  "bucket_words t at = vec_get (ht_buckets t) at"

definition table_slots :: "HoldTable \<Rightarrow> nat" where
  "table_slots t = length (ht_buckets t) * WAYS"

definition each_address :: "HoldTable \<Rightarrow> RecordAddr list" where
  "each_address t = map address_of (filter (\<lambda>w. w \<noteq> 0) (concat (ht_buckets t)))"

definition counts_agree :: "HoldTable \<Rightarrow> bool" where
  "counts_agree t \<longleftrightarrow> sum_list (map unat (ht_live_per_segment t)) = ht_live t"

section \<open>Reading the table for a snapshot\<close>

definition begin_snapshot :: "HoldTable \<Rightarrow> HoldTable" where
  "begin_snapshot t = t\<lparr>ht_shadow := [], ht_read_through := Some 0\<rparr>"

definition bucket_for_snapshot :: "nat \<Rightarrow> HoldTable \<Rightarrow> Slot list option \<times> HoldTable" where
  "bucket_for_snapshot at t =
     (case ht_read_through t of
        None \<Rightarrow> (None, t)
      | Some read \<Rightarrow>
          if read \<noteq> at \<or> length (ht_buckets t) \<le> at then (None, t)
          else (Some (case map_of (ht_shadow t) at of Some ws \<Rightarrow> ws | None \<Rightarrow> ht_buckets t ! at),
                t\<lparr>ht_read_through := Some (at + 1), ht_shadow := AList.delete at (ht_shadow t)\<rparr>))"

definition end_snapshot :: "HoldTable \<Rightarrow> HoldTable" where
  "end_snapshot t = t\<lparr>ht_shadow := [], ht_read_through := None\<rparr>"

definition shadowed :: "HoldTable \<Rightarrow> nat" where
  "shadowed t = length (ht_shadow t)"

fun restore_ways :: "nat \<Rightarrow> nat \<Rightarrow> Slot list \<Rightarrow> HoldTable \<Rightarrow> HoldTable" where
  "restore_ways at way [] t = t"
| "restore_ways at way (w # ws) t = restore_ways at (Suc way) ws (snd (set_slot (at, way) w t))"

definition restore_bucket :: "nat \<Rightarrow> Slot list \<Rightarrow> HoldTable \<Rightarrow> bool \<times> HoldTable" where
  "restore_bucket at words t =
     (if length (ht_buckets t) \<le> at then (False, t) else (True, restore_ways at 0 words t))"

section \<open>Words of a slot\<close>

lemma bit_slot_consts: "bit AMBIGUOUS i \<longleftrightarrow> i = 47" "bit ADDRESS_MASK i \<longleftrightarrow> i < 47"
proof -
  have m: "ADDRESS_MASK = mask 47"
    by (simp add: ADDRESS_MASK_def AMBIGUOUS_def mask_eq_exp_minus_1 push_bit_eq_mult)
  show "bit ADDRESS_MASK i \<longleftrightarrow> i < 47" unfolding m bit_mask_iff by (auto simp: possible_bit_word)
  have a: "AMBIGUOUS = 2 ^ 47" by (simp add: AMBIGUOUS_def)
  show "bit AMBIGUOUS i \<longleftrightarrow> i = 47" unfolding a bit_exp_iff by (auto simp: possible_bit_word)
qed

definition fp_ok :: "u64 \<Rightarrow> bool" where
  "fp_ok f \<longleftrightarrow> f \<noteq> 0 \<and> unat f < 2 ^ 16"

lemma is_ambiguous_bit: "is_ambiguous w \<longleftrightarrow> bit w 47"
proof -
  have "w AND AMBIGUOUS = 0 \<longleftrightarrow> \<not> bit w 47"
    by (auto simp: word_eq_bits bit_simps bit_slot_consts dest: spec [of _ 47])
  then show ?thesis by (simp add: is_ambiguous_def)
qed

lemma pack_parts:
  assumes "fp_ok f"
  shows "fingerprint_of (pack f a) = f" "address_of (pack f a) = a AND ADDRESS_MASK" "\<not> is_ambiguous (pack f a)"
proof -
  have f: "bit f i \<Longrightarrow> i < 16" for i using small_word_bits [of f 16] assms by (simp add: fp_ok_def)
  show "fingerprint_of (pack f a) = f"
    by (rule bit_word_eqI) (auto simp: fingerprint_of_def pack_def FINGERPRINT_SHIFT_def bit_simps bit_slot_consts dest: f)
  show "address_of (pack f a) = a AND ADDRESS_MASK"
    by (rule bit_word_eqI) (auto simp: address_of_def pack_def FINGERPRINT_SHIFT_def bit_simps bit_slot_consts)
  show "\<not> is_ambiguous (pack f a)"
    by (simp add: is_ambiguous_bit pack_def FINGERPRINT_SHIFT_def bit_simps bit_slot_consts)
qed

lemma mark_parts:
  "fingerprint_of (w OR AMBIGUOUS) = fingerprint_of w" "address_of (w OR AMBIGUOUS) = address_of w"
  "is_ambiguous (w OR AMBIGUOUS)"
  by (auto simp: word_eq_bits fingerprint_of_def address_of_def is_ambiguous_bit FINGERPRINT_SHIFT_def bit_simps bit_slot_consts)

lemma keep_mark_parts:
  "fingerprint_of (p OR (w AND AMBIGUOUS)) = fingerprint_of p" "address_of (p OR (w AND AMBIGUOUS)) = address_of p"
  "is_ambiguous (p OR (w AND AMBIGUOUS)) \<longleftrightarrow> is_ambiguous p \<or> is_ambiguous w"
  by (auto simp: word_eq_bits fingerprint_of_def address_of_def is_ambiguous_bit FINGERPRINT_SHIFT_def bit_simps bit_slot_consts)

lemma addr_ok_mask: "addr_ok a \<Longrightarrow> a AND ADDRESS_MASK = a"
  using small_word_bits [of a 47] by (auto simp: word_eq_bits bit_simps bit_slot_consts addr_ok_def)

lemma fingerprint_zero: "fingerprint_of 0 = 0"
  by (simp add: fingerprint_of_def)

lemma fp_nonempty: "fp_ok (fingerprint_of w) \<Longrightarrow> w \<noteq> EMPTY"
  by (auto simp: fp_ok_def EMPTY_def fingerprint_zero)

lemma fingerprint_from_ok: "fp_ok (fingerprint_from h)"
proof -
  have h: "unat h < 18446744073709551616" using unsigned_less [of h, where 'a = nat] by simp
  have "unat (drop_bit 48 h) < 2 ^ 16"
    by (simp add: unat_drop_bit_eq drop_bit_nat_def less_mult_imp_div_less h)
  then show ?thesis by (simp add: fp_ok_def fingerprint_from_def FINGERPRINT_SHIFT_def)
qed

lemma address_segment_small: "unat (addr_segment (address_of w)) < SEGMENT_VALUES"
proof -
  have "bit (addr_segment (address_of w)) i \<Longrightarrow> i < 6" for i
    by (auto simp: addr_segment_def address_of_def block_consts bit_simps bit_slot_consts)
  then have "addr_segment (address_of w) = take_bit 6 (addr_segment (address_of w))"
    by (auto simp: word_eq_bits bit_simps)
  then have "unat (addr_segment (address_of w)) < 2 ^ 6"
    by (metis take_bit_nat_less_exp unsigned_take_bit_eq)
  then show ?thesis by (simp add: block_consts)
qed

section \<open>Where a key may live\<close>

text \<open>The mask is one less than the number of buckets, a power of two.\<close>

definition table_shape :: "HoldTable \<Rightarrow> bool" where
  "table_shape t \<longleftrightarrow>
     (\<exists>k. 1 \<le> k \<and> k \<le> 32 \<and> ht_mask t = mask k \<and> length (ht_buckets t) = 2 ^ k)
     \<and> (\<forall>b\<in>set (ht_buckets t). length b = WAYS) \<and> length (ht_live_per_segment t) = SEGMENT_VALUES"

lemma xor_small:
  fixes a b :: nat
  assumes "a < 2 ^ k" "b < 2 ^ k"
  shows "a XOR b < 2 ^ k"
proof -
  have "a XOR b = take_bit k (a XOR b)"
    using assms by (simp add: take_bit_xor take_bit_nat_eq_self)
  then show ?thesis by (metis take_bit_nat_less_exp)
qed

lemma masked_small: "unat (h AND mask k :: u64) < 2 ^ k"
  by (metis take_bit_eq_mask take_bit_nat_less_exp unsigned_take_bit_eq)

lemma alternate_in_range: "b < 2 ^ k \<Longrightarrow> 1 \<le> k \<Longrightarrow> alternate hs (mask k) b f < 2 ^ k"
  using masked_small [of "hash_u64 hs f" k] power_increasing [of 1 k "2::nat"]
  by (auto simp: alternate_def Let_def intro!: xor_small)

lemma alternate_involutive: "alternate hs m (alternate hs m b f) f = b"
  by (simp add: alternate_def Let_def ac_simps xor.assoc)

lemma alternate_distinct: "alternate hs m b f \<noteq> b"
proof
  let ?s = "hash_u64 hs f AND m"
  assume "alternate hs m b f = b"
  then have "b XOR (b XOR (if ?s = 0 then 1 else unat ?s)) = b XOR b"
    by (simp add: alternate_def Let_def)
  then have "(if ?s = 0 then 1 else unat ?s) = 0" by (simp only: xor.assoc [symmetric] xor_self_eq xor.left_neutral)
  then show False by (auto split: if_splits simp: unat_eq_0)
qed

definition key_fp :: "Hasher \<Rightarrow> TxId \<Rightarrow> u64" where
  "key_fp hs k = fingerprint_from (hash_u128 hs k)"

definition key_home :: "Hasher \<Rightarrow> u64 \<Rightarrow> TxId \<Rightarrow> nat" where
  "key_home hs m k = unat (hash_u128 hs k AND m)"

definition key_alt :: "Hasher \<Rightarrow> u64 \<Rightarrow> TxId \<Rightarrow> nat" where
  "key_alt hs m k = alternate hs m (key_home hs m k) (key_fp hs k)"

definition homes :: "Hasher \<Rightarrow> u64 \<Rightarrow> TxId \<Rightarrow> nat set" where
  "homes hs m k = {key_home hs m k, key_alt hs m k}"

lemma locate_eq: "locate hs m k = (key_fp hs k, key_home hs m k, key_alt hs m k)"
  by (simp add: locate_def Let_def key_fp_def key_home_def key_alt_def)

lemma locate_in_range: "table_shape t \<Longrightarrow> b \<in> homes hs (ht_mask t) k \<Longrightarrow> b < length (ht_buckets t)"
  using masked_small alternate_in_range by (auto simp: table_shape_def homes_def key_alt_def key_home_def)

text \<open>Two keys with one fingerprint that share a bucket share both: the pair follows from either end.\<close>

lemma homes_pair: "b \<in> homes hs m k \<Longrightarrow> homes hs m k = {b, alternate hs m b (key_fp hs k)}"
  by (auto simp: homes_def key_alt_def alternate_involutive)

lemma homes_alternate: "b \<in> homes hs m k \<Longrightarrow> alternate hs m b (key_fp hs k) \<in> homes hs m k"
  using homes_pair by blast

definition same_class :: "Hasher \<Rightarrow> u64 \<Rightarrow> TxId \<Rightarrow> TxId \<Rightarrow> bool" where
  "same_class hs m k k' \<longleftrightarrow> key_fp hs k = key_fp hs k' \<and> homes hs m k = homes hs m k'"

lemma same_classI: "key_fp hs k = key_fp hs k' \<Longrightarrow> b \<in> homes hs m k \<Longrightarrow> b \<in> homes hs m k' \<Longrightarrow> same_class hs m k k'"
  using homes_pair by (metis same_class_def)

lemma key_fp_ok [simp]: "fp_ok (key_fp hs k)"
  by (simp add: key_fp_def fingerprint_from_ok)

section \<open>What one write changes\<close>

definition in_table :: "HoldTable \<Rightarrow> nat \<times> nat \<Rightarrow> bool" where
  "in_table t at \<longleftrightarrow> fst at < length (ht_buckets t) \<and> snd at < WAYS"

lemma shadow_bucket_fields [simp]:
  "ht_buckets (shadow_bucket b t) = ht_buckets t" "ht_mask (shadow_bucket b t) = ht_mask t"
  "ht_live (shadow_bucket b t) = ht_live t" "ht_live_per_segment (shadow_bucket b t) = ht_live_per_segment t"
  "ht_read_through (shadow_bucket b t) = ht_read_through t" "ht_max_hops (shadow_bucket b t) = ht_max_hops t"
  by (simp_all add: shadow_bucket_def split: option.splits)

lemma count_fields [simp]:
  "ht_buckets (count_out w t) = ht_buckets t" "ht_buckets (count_in w t) = ht_buckets t"
  "ht_mask (count_out w t) = ht_mask t" "ht_mask (count_in w t) = ht_mask t"
  "ht_shadow (count_out w t) = ht_shadow t" "ht_shadow (count_in w t) = ht_shadow t"
  "ht_read_through (count_out w t) = ht_read_through t" "ht_read_through (count_in w t) = ht_read_through t"
  "length (ht_live_per_segment (count_out w t)) = length (ht_live_per_segment t)"
  "length (ht_live_per_segment (count_in w t)) = length (ht_live_per_segment t)"
  by (simp_all add: count_out_def count_in_def Let_def)

lemma set_slot_fields [simp]:
  "fst (set_slot at w t) = slot_word t at"
  "ht_buckets (snd (set_slot at w t)) = write_word at w (ht_buckets t)"
  "ht_mask (snd (set_slot at w t)) = ht_mask t"
  "ht_read_through (snd (set_slot at w t)) = ht_read_through t"
  "length (ht_live_per_segment (snd (set_slot at w t))) = length (ht_live_per_segment t)"
  by (simp_all add: set_slot_def Let_def)

lemma length_write_word [simp]: "length (write_word at w bs) = length bs"
  by (simp add: write_word_def)

lemma table_shape_ways: "table_shape t \<Longrightarrow> b < length (ht_buckets t) \<Longrightarrow> length (ht_buckets t ! b) = WAYS"
  by (simp add: table_shape_def)

lemma set_slot_shape [intro]: "table_shape t \<Longrightarrow> in_table t at \<Longrightarrow> table_shape (snd (set_slot at w t))"
  using table_shape_ways [of t "fst at"]
  by (auto simp: table_shape_def in_table_def write_word_def dest!: set_update_subset_insert [THEN subsetD])

lemma set_slot_word:
  "table_shape t \<Longrightarrow> in_table t at \<Longrightarrow> slot_word (snd (set_slot at w t)) p = (if p = at then w else slot_word t p)"
  using table_shape_ways [of t "fst at"]
  by (cases at; cases p) (auto simp: slot_word_def write_word_def in_table_def nth_list_update)

lemma set_slot_in_table [simp]: "in_table (snd (set_slot at w t)) p \<longleftrightarrow> in_table t p"
  by (simp add: in_table_def)

text \<open>Counters beside the slots change nothing a slot holds.\<close>

lemma counter_updates [simp]:
  "table_shape (t\<lparr>ht_victims := v\<rparr>) = table_shape t" "slot_word (t\<lparr>ht_victims := v\<rparr>) p = slot_word t p"
  "in_table (t\<lparr>ht_victims := v\<rparr>) p = in_table t p"
  "table_shape (t\<lparr>ht_hops := h, ht_worst_hops := wh\<rparr>) = table_shape t"
  "slot_word (t\<lparr>ht_hops := h, ht_worst_hops := wh\<rparr>) p = slot_word t p"
  "in_table (t\<lparr>ht_hops := h, ht_worst_hops := wh\<rparr>) p = in_table t p"
  "table_shape (t\<lparr>ht_ambiguous := n\<rparr>) = table_shape t" "slot_word (t\<lparr>ht_ambiguous := n\<rparr>) p = slot_word t p"
  "in_table (t\<lparr>ht_ambiguous := n\<rparr>) p = in_table t p"
  by (simp_all add: table_shape_def slot_word_def in_table_def)

lemma probe_in_table:
  "table_shape t \<Longrightarrow> at \<in> set (probe (key_home hs (ht_mask t) k) (key_alt hs (ht_mask t) k)) \<Longrightarrow> in_table t at"
  using locate_in_range [of t _ hs k] by (auto simp: probe_def in_table_def homes_def)

lemma candidate_at: "table_shape t \<Longrightarrow> in_table t at \<Longrightarrow> candidate t at = (address_of (slot_word t at), at)"
proof -
  assume a: "table_shape t" "in_table t at"
  obtain n where n: "n \<le> 32" "length (ht_buckets t) = 2 ^ n" using a(1) by (auto simp: table_shape_def)
  then have "length (ht_buckets t) \<le> 2 ^ 32" using power_increasing [of n 32 "2::nat"] by simp
  then have "fst at < 2 ^ 32" "snd at < 2 ^ 8" using a(2) by (auto simp: in_table_def WAYS_def)
  then show ?thesis by (simp add: candidate_def unsigned_of_nat take_bit_nat_eq_self)
qed

lemma candidates_eq:
  assumes "table_shape t"
  shows "candidates hs t k =
    map (\<lambda>at. (address_of (slot_word t at), at))
      (filter (\<lambda>at. slot_word t at \<noteq> EMPTY \<and> fingerprint_of (slot_word t at) = key_fp hs k)
        (probe (key_home hs (ht_mask t) k) (key_alt hs (ht_mask t) k)))"
  using assms by (auto simp: candidates_def locate_eq intro!: candidate_at probe_in_table)

lemma candidates_in_table: "table_shape t \<Longrightarrow> c \<in> set (candidates hs t k) \<Longrightarrow> in_table t (snd c)"
  using probe_in_table by (auto simp: candidates_eq)

lemma ht_find_cases:
  "ht_find hs t k = Absent \<Longrightarrow> candidates hs t k = []"
  "ht_find hs t k = FoundAt at \<Longrightarrow> (\<exists>a. candidates hs t k = [(a, at)]) \<and> \<not> is_ambiguous (slot_word t at)"
  "ht_find hs t k = Ambiguous cs \<Longrightarrow> candidates hs t k = cs"
  by (auto simp: ht_find_def split: list.splits if_splits)

lemma first_verified_member: "first_verified verify cs s = (Some at, s') \<Longrightarrow> \<exists>c\<in>set cs. snd c = at"
proof (induction cs arbitrary: s)
  case (Cons c cs)
  then show ?case by (cases c) (fastforce split: prod.splits if_splits)
qed simp

locale slot_inv =
  fixes I :: "HoldTable \<Rightarrow> bool"
  assumes set_law: "I t \<Longrightarrow> table_shape t \<Longrightarrow> in_table t at \<Longrightarrow> I (snd (set_slot at w t))"
    and victims_law: "I t \<Longrightarrow> I (t\<lparr>ht_victims := v\<rparr>)"
    and hops_law: "I t \<Longrightarrow> I (t\<lparr>ht_hops := h, ht_worst_hops := wh\<rparr>)"
    and ambiguous_law: "I t \<Longrightarrow> I (t\<lparr>ht_ambiguous := n\<rparr>)"
begin

definition kept :: "HoldTable \<Rightarrow> bool" where
  "kept t \<longleftrightarrow> I t \<and> table_shape t"

lemma set_kept: "kept t \<Longrightarrow> in_table t at \<Longrightarrow> kept (snd (set_slot at w t))"
  by (simp add: kept_def set_law set_slot_shape)

lemma put_kept: "kept t \<Longrightarrow> b < length (ht_buckets t) \<Longrightarrow> kept (snd (ht_put b w t))"
  by (auto simp: ht_put_def in_table_def find_Some_iff split: option.split intro!: set_kept)

lemma put_mask: "ht_mask (snd (ht_put b w t)) = ht_mask t" "length (ht_buckets (snd (ht_put b w t))) = length (ht_buckets t)"
  by (auto simp: ht_put_def split: option.split)

lemma victim_kept: "kept t \<Longrightarrow> kept (snd (victim hs b c t)) \<and> fst (victim hs b c t) < WAYS
    \<and> ht_mask (snd (victim hs b c t)) = ht_mask t \<and> ht_buckets (snd (victim hs b c t)) = ht_buckets t"
proof -
  have "unat (w mod 4 :: u64) < 4" for w :: u64
    by (simp add: unat_mod_distrib)
  then show "kept t \<Longrightarrow> ?thesis"
    by (auto simp: victim_def Let_def WAYS_def kept_def victims_law split: option.split prod.split)
qed

lemma kick_kept: "kept t \<Longrightarrow> b < length (ht_buckets t) \<Longrightarrow> kept (snd (kick hs n h w b c t))"
proof (induction n arbitrary: h w b c t)
  case (Suc n)
  obtain way t1 where v: "victim hs b c t = (way, t1)" by fastforce
  have t1: "kept t1" "way < WAYS" "ht_mask t1 = ht_mask t" "ht_buckets t1 = ht_buckets t"
    using victim_kept [OF Suc.prems(1), of hs b c] v by auto
  define t2 where "t2 = snd (set_slot (b, way) w t1)"
  have t2: "kept t2" "ht_mask t2 = ht_mask t" "length (ht_buckets t2) = length (ht_buckets t)"
    using t1 Suc.prems(2) by (auto simp: t2_def in_table_def intro!: set_kept)
  define on where "on = alternate hs (ht_mask t2) b (fingerprint_of (slot_word t1 (b, way)))"
  have on: "on < length (ht_buckets t2)"
    using Suc.prems(2) t2 alternate_in_range unfolding on_def by (fastforce simp: kept_def table_shape_def)
  obtain ok t3 where p: "ht_put on (slot_word t1 (b, way)) t2 = (ok, t3)" by fastforce
  have t3: "kept t3" "length (ht_buckets t3) = length (ht_buckets t2)"
    using put_kept [OF t2(1) on] put_mask p by (metis snd_conv)+
  have "set_slot (b, way) w t1 = (slot_word t1 (b, way), t2)"
    by (simp add: t2_def prod_eq_iff)
  then have "kick hs (Suc n) h w b c t =
      (if ok then (Inr (), t3\<lparr>ht_hops := ht_hops t3 + h, ht_worst_hops := max (ht_worst_hops t3) h\<rparr>)
       else kick hs n (Suc h) (slot_word t1 (b, way)) on b t3)"
    using v p by (simp add: on_def Let_def)
  then show ?case
    using Suc.IH [OF t3(1)] t3 on by (simp add: kept_def hops_law)
qed simp

lemma place_kept: "kept t \<Longrightarrow> hm < length (ht_buckets t) \<Longrightarrow> al < length (ht_buckets t) \<Longrightarrow> kept (snd (ht_place hs w hm al t))"
  using put_kept put_mask kick_kept by (simp add: ht_place_def Let_def split_beta)

lemma mark_kept: "kept t \<Longrightarrow> \<forall>c\<in>set cs. in_table t (snd c) \<Longrightarrow> kept (fold (\<lambda>c. ht_mark (snd c)) cs t)
    \<and> length (ht_buckets (fold (\<lambda>c. ht_mark (snd c)) cs t)) = length (ht_buckets t)"
  by (induction cs arbitrary: t) (simp_all add: ht_mark_def set_kept in_table_def)

lemma insert_kept: "kept t \<Longrightarrow> kept (snd (insert_new hs k a t))"
proof -
  assume t: "kept t"
  have sh: "table_shape t" using t by (simp add: kept_def)
  have r: "key_home hs (ht_mask t) k < length (ht_buckets t)" "key_alt hs (ht_mask t) k < length (ht_buckets t)"
    using locate_in_range [OF sh, of _ hs k] by (simp_all add: homes_def)
  let ?m = "fold (\<lambda>c. ht_mark (snd c)) (candidates hs t k) t"
  have m: "kept (?m\<lparr>ht_ambiguous := n\<rparr>)" "length (ht_buckets ?m) = length (ht_buckets t)" for n
    using mark_kept [OF t, of "candidates hs t k"] candidates_in_table [OF sh] by (auto simp: kept_def ambiguous_law)
  show ?thesis
    using place_kept [OF t] place_kept [OF m(1)] r m(2) by (simp add: insert_new_def locate_eq Let_def split_beta)
qed

lemma redirect_kept: "kept t \<Longrightarrow> in_table t at \<Longrightarrow> kept (redirect at a t)"
  by (simp add: redirect_def Let_def set_kept)

lemma resolve_in_table: "table_shape t \<Longrightarrow> ht_resolve hs t k verify s = (Some at, s') \<Longrightarrow> in_table t at"
proof -
  assume a: "table_shape t" "ht_resolve hs t k verify s = (Some at, s')"
  then have "\<exists>c\<in>set (candidates hs t k). snd c = at"
    using first_verified_member ht_find_cases [of hs t k]
    by (cases "ht_find hs t k") (fastforce simp: ht_resolve_def)+
  then show ?thesis using candidates_in_table [OF a(1)] by blast
qed

lemma repoint_kept: "kept t \<Longrightarrow> repoint hs k a verify t s = (ok, t', s') \<Longrightarrow> kept t'"
  using resolve_in_table [of t hs k verify s] redirect_kept [of t]
  by (cases "ht_resolve hs t k verify s"; cases "fst (ht_resolve hs t k verify s)")
     (auto simp: repoint_def kept_def)

lemma remove_kept: "kept t \<Longrightarrow> ht_remove hs k verify t s = (r, t', s') \<Longrightarrow> kept t'"
proof -
  assume a: "kept t" "ht_remove hs k verify t s = (r, t', s')"
  then show ?thesis
    using resolve_in_table [of t hs k verify s] set_kept [OF a(1)]
    by (cases "ht_resolve hs t k verify s"; cases "fst (ht_resolve hs t k verify s)")
       (auto simp: ht_remove_def kept_def split_beta)
qed

lemma slot_at_in_table: "table_shape t \<Longrightarrow> slot_at hs t k a = Some at \<Longrightarrow> in_table t at"
  using probe_in_table [of t at hs k] by (auto simp: slot_at_def locate_eq find_Some_iff)

lemma replace_kept: "kept t \<Longrightarrow> kept (snd (ht_replace hs k old new t))"
  using slot_at_in_table [of t hs k old] redirect_kept [of t]
  by (cases "slot_at hs t k old") (auto simp: ht_replace_def kept_def)

lemma restore_kept: "kept t \<Longrightarrow> length ws = WAYS \<Longrightarrow> kept (snd (restore_bucket b ws t))"
proof -
  have "kept t \<Longrightarrow> b < length (ht_buckets t) \<Longrightarrow> way + length ws \<le> WAYS \<Longrightarrow> kept (restore_ways b way ws t)" for way
    by (induction b way ws t rule: restore_ways.induct) (simp_all add: set_kept in_table_def)
  then show "kept t \<Longrightarrow> length ws = WAYS \<Longrightarrow> ?thesis"
    by (simp add: restore_bucket_def)
qed

end

interpretation shape: slot_inv "\<lambda>_. True"
  by unfold_locales simp_all

section \<open>The counts\<close>

definition cells :: "(Slot \<Rightarrow> bool) \<Rightarrow> HoldTable \<Rightarrow> (nat \<times> nat) set" where
  "cells P t = {at. in_table t at \<and> P (slot_word t at)}"

lemma finite_cells [simp]: "finite (cells P t)"
  by (rule finite_subset [of _ "{..<length (ht_buckets t)} \<times> {..<WAYS}"]) (auto simp: cells_def in_table_def)

lemma cells_set_slot:
  "table_shape t \<Longrightarrow> in_table t at \<Longrightarrow>
     cells P (snd (set_slot at w t)) = (if P w then insert at (cells P t) else cells P t - {at})"
  by (auto simp: cells_def set_slot_word)

lemma card_cells_set_slot:
  assumes "table_shape t" "in_table t at"
  shows "card (cells P (snd (set_slot at w t))) + (if P (slot_word t at) then 1 else 0)
       = card (cells P t) + (if P w then 1 else 0)"
proof -
  have in_iff: "at \<in> cells P t \<longleftrightarrow> P (slot_word t at)" using assms by (simp add: cells_def)
  show ?thesis
    using card_Suc_Diff1 [of "cells P t" at] in_iff
    by (auto simp: cells_set_slot [OF assms] card_insert_if)
qed

abbreviation in_segment :: "nat \<Rightarrow> Slot \<Rightarrow> bool" where
  "in_segment s w \<equiv> w \<noteq> EMPTY \<and> unat (addr_segment (address_of w)) = s"

definition counted :: "HoldTable \<Rightarrow> bool" where
  "counted t \<longleftrightarrow> ht_live t = card (cells (\<lambda>w. w \<noteq> EMPTY) t)
     \<and> (\<forall>s<SEGMENT_VALUES. ht_live_per_segment t ! s = of_nat (card (cells (in_segment s) t)))"

lemma set_slot_live:
  "ht_live (snd (set_slot at w t)) =
     (if slot_word t at = EMPTY then ht_live t else usize_sub (ht_live t) 1) + (if w = EMPTY then 0 else 1)"
  by (simp add: set_slot_def Let_def count_in_def count_out_def)

lemma set_slot_segment:
  assumes "length (ht_live_per_segment t) = SEGMENT_VALUES" "s < SEGMENT_VALUES"
  shows "ht_live_per_segment (snd (set_slot at w t)) ! s =
    ht_live_per_segment t ! s - (if in_segment s (slot_word t at) then 1 else 0) + (if in_segment s w then 1 else 0)"
  using assms address_segment_small [of "slot_word t at"] address_segment_small [of w]
  by (auto simp: set_slot_def Let_def count_in_def count_out_def nth_list_update)

lemma counted_set:
  assumes "counted t" "table_shape t" "in_table t at"
  shows "counted (snd (set_slot at w t))"
proof -
  have pos: "slot_word t at \<noteq> EMPTY \<Longrightarrow> 0 < card (cells (\<lambda>w. w \<noteq> EMPTY) t)"
  proof -
    assume "slot_word t at \<noteq> EMPTY"
    then have "at \<in> cells (\<lambda>w. w \<noteq> EMPTY) t" using assms(3) by (simp add: cells_def)
    then show ?thesis by (metis card_gt_0_iff empty_iff finite_cells)
  qed
  have "ht_live (snd (set_slot at w t)) = card (cells (\<lambda>w. w \<noteq> EMPTY) (snd (set_slot at w t)))"
    using card_cells_set_slot [OF assms(2,3), of "\<lambda>w. w \<noteq> EMPTY" w] assms(1) pos
    by (simp add: set_slot_live counted_def split: if_splits)
  moreover have "ht_live_per_segment (snd (set_slot at w t)) ! s =
      of_nat (card (cells (in_segment s) (snd (set_slot at w t))))" if s: "s < SEGMENT_VALUES" for s
  proof -
    have l: "length (ht_live_per_segment t) = SEGMENT_VALUES" using assms(2) by (simp add: table_shape_def)
    have "ht_live_per_segment (snd (set_slot at w t)) ! s + (if in_segment s (slot_word t at) then 1 else 0)
        = of_nat (card (cells (in_segment s) t) + (if in_segment s w then 1 else 0))"
      using assms(1) s by (simp add: set_slot_segment [OF l s] counted_def)
    also have "\<dots> = of_nat (card (cells (in_segment s) (snd (set_slot at w t)))) + (if in_segment s (slot_word t at) then 1 else 0)"
      by (subst card_cells_set_slot [OF assms(2,3), symmetric]) simp
    finally show ?thesis by (simp split: if_splits)
  qed
  ultimately show ?thesis by (simp add: counted_def)
qed

interpretation counts: slot_inv counted
proof unfold_locales
  fix t :: HoldTable and at w v h wh n
  assume "counted t"
  then show "counted (t\<lparr>ht_victims := v\<rparr>)" "counted (t\<lparr>ht_hops := h, ht_worst_hops := wh\<rparr>)"
    "counted (t\<lparr>ht_ambiguous := n\<rparr>)"
    by (simp_all add: counted_def cells_def)
qed (rule counted_set)

text \<open>Every occupied slot is in one segment, so the sixty-four counts add up to the number of entries.\<close>

lemma segments_partition: "card (cells (\<lambda>w. w \<noteq> EMPTY) t) = (\<Sum>s<SEGMENT_VALUES. card (cells (in_segment s) t))"
proof -
  have "cells (\<lambda>w. w \<noteq> EMPTY) t = (\<Union>s<SEGMENT_VALUES. cells (in_segment s) t)"
    using address_segment_small by (auto simp: cells_def)
  moreover have "card (\<Union>s<SEGMENT_VALUES. cells (in_segment s) t) = (\<Sum>s<SEGMENT_VALUES. card (cells (in_segment s) t))"
    by (rule card_UN_disjoint) (simp_all, auto simp: cells_def)
  ultimately show ?thesis by simp
qed

lemma unat_sum_exact:
  assumes "finite A"
  shows "(\<Sum>s\<in>A. unat (of_nat (f s) :: u32)) = (\<Sum>s\<in>A. f s) \<longleftrightarrow> (\<forall>s\<in>A. f s < 2 ^ 32)"
proof -
  have u: "unat (of_nat (f s) :: u32) = f s mod 2 ^ 32" for s by (simp add: unsigned_of_nat take_bit_eq_mod)
  have "f s mod 2 ^ 32 = f s" if "(\<Sum>s\<in>A. f s mod 2 ^ 32) = (\<Sum>s\<in>A. f s)" "s \<in> A" for s
    by (rule sum_mono_inv [OF that(1) _ that(2) assms]) simp
  moreover have "(\<Sum>s\<in>A. f s mod 2 ^ 32) = (\<Sum>s\<in>A. f s)" if "\<forall>s\<in>A. f s < 2 ^ 32"
    using that by (intro sum.cong) simp_all
  moreover have "f s mod 2 ^ 32 = f s \<longleftrightarrow> f s < 2 ^ 32" for s by (metis mod_less mod_less_divisor zero_less_numeral zero_less_power)
  ultimately show ?thesis unfolding u by blast
qed

lemma counted_agrees:
  assumes "counted t" "table_shape t"
  shows "counts_agree t \<longleftrightarrow> (\<forall>s<SEGMENT_VALUES. card (cells (in_segment s) t) < 2 ^ 32)"
proof -
  have "map unat (ht_live_per_segment t) = map (\<lambda>s. unat (of_nat (card (cells (in_segment s) t)) :: u32)) [0..<SEGMENT_VALUES]"
    using assms by (intro nth_equalityI) (simp_all add: table_shape_def counted_def)
  then have "sum_list (map unat (ht_live_per_segment t)) = (\<Sum>s<SEGMENT_VALUES. unat (of_nat (card (cells (in_segment s) t)) :: u32))"
    by (simp add: interv_sum_list_conv_sum_set_nat atLeast0LessThan)
  then show ?thesis
    using assms(1) unat_sum_exact [of "{..<SEGMENT_VALUES}" "\<lambda>s. card (cells (in_segment s) t)"]
    by (simp add: counts_agree_def counted_def segments_partition Ball_def)
qed

lemma cells_small: "table_slots t < n \<Longrightarrow> card (cells P t) < n"
proof -
  have "card (cells P t) \<le> card ({..<length (ht_buckets t)} \<times> {..<WAYS})"
    by (rule card_mono) (auto simp: cells_def in_table_def)
  then show "table_slots t < n \<Longrightarrow> card (cells P t) < n" by (simp add: table_slots_def)
qed

interpretation sized: slot_inv "\<lambda>t. table_slots t = n" for n
  by unfold_locales (simp_all add: table_slots_def)

section \<open>The stable read\<close>

definition snapshot_bucket :: "HoldTable \<Rightarrow> nat \<Rightarrow> Slot list" where
  "snapshot_bucket t b = (case map_of (ht_shadow t) b of Some ws \<Rightarrow> ws | None \<Rightarrow> ht_buckets t ! b)"

definition stable :: "Slot list list \<Rightarrow> nat \<Rightarrow> HoldTable \<Rightarrow> bool" where
  "stable orig r t \<longleftrightarrow> ht_read_through t = Some r \<and> length (ht_buckets t) = length orig
     \<and> (\<forall>b. r \<le> b \<longrightarrow> b < length orig \<longrightarrow> snapshot_bucket t b = orig ! b)"

lemma set_slot_shadow:
  "ht_shadow (snd (set_slot at w t)) = ht_shadow (shadow_bucket (fst at) t)"
  by (simp add: set_slot_def Let_def)

lemma snapshot_bucket_set:
  assumes "ht_read_through t = Some r" "r \<le> b"
  shows "snapshot_bucket (snd (set_slot at w t)) b = snapshot_bucket t b"
proof (cases "b = fst at")
  case True
  then show ?thesis
    using assms by (auto simp: snapshot_bucket_def set_slot_shadow shadow_bucket_def split: option.splits)
next
  case False
  then have "ht_buckets (snd (set_slot at w t)) ! b = ht_buckets t ! b"
    by (simp add: write_word_def)
  then show ?thesis
    using False assms by (auto simp: snapshot_bucket_def set_slot_shadow shadow_bucket_def split: option.splits)
qed

lemma stable_set: "stable orig r t \<Longrightarrow> stable orig r (snd (set_slot at w t))"
  by (simp add: stable_def snapshot_bucket_set)

lemma snapshot_bucket_counters [simp]:
  "snapshot_bucket (t\<lparr>ht_victims := v\<rparr>) b = snapshot_bucket t b"
  "snapshot_bucket (t\<lparr>ht_hops := h, ht_worst_hops := wh\<rparr>) b = snapshot_bucket t b"
  "snapshot_bucket (t\<lparr>ht_ambiguous := n\<rparr>) b = snapshot_bucket t b"
  by (simp_all add: snapshot_bucket_def cong: option.case_cong)

interpretation stable_read: slot_inv "stable orig r"
  by unfold_locales (simp_all add: stable_set, simp_all add: stable_def)

lemma stable_begin: "stable (ht_buckets t) 0 (begin_snapshot t)"
  by (simp add: stable_def begin_snapshot_def snapshot_bucket_def)

lemma stable_next:
  assumes "stable orig r t" "r < length orig"
  shows "fst (bucket_for_snapshot r t) = Some (orig ! r) \<and> stable orig (Suc r) (snd (bucket_for_snapshot r t))
    \<and> ht_buckets (snd (bucket_for_snapshot r t)) = ht_buckets t"
proof -
  have "map_of (AList.delete r (ht_shadow t)) b = map_of (ht_shadow t) b" if "Suc r \<le> b" for b
    using that by (simp add: delete_conv')
  then show ?thesis
    using assms by (auto simp: stable_def bucket_for_snapshot_def snapshot_bucket_def split: option.splits)
qed

section \<open>Runs of the table\<close>

text \<open>One call that changes the table. The reader a removal or a repointing is handed may answer anything.\<close>

inductive table_step :: "Hasher \<Rightarrow> HoldTable \<Rightarrow> HoldTable \<Rightarrow> bool" for hs where
  step_insert: "table_step hs t (snd (insert_new hs k a t))"
| step_remove: "ht_remove hs k (verify :: nat verify) t s = (r, t', s') \<Longrightarrow> table_step hs t t'"
| step_repoint: "repoint hs k a (verify :: nat verify) t s = (ok, t', s') \<Longrightarrow> table_step hs t t'"
| step_replace: "table_step hs t (snd (ht_replace hs k old new t))"
| step_restore: "length ws = WAYS \<Longrightarrow> table_step hs t (snd (restore_bucket b ws t))"

inductive table_reached :: "Hasher \<Rightarrow> HoldTable \<Rightarrow> bool" for hs where
  reached_new: "slots \<le> 2 ^ 34 \<Longrightarrow> table_reached hs (with_slots slots)"
| reached_step: "table_reached hs t \<Longrightarrow> table_step hs t t' \<Longrightarrow> table_reached hs t'"

text \<open>A snapshot reading bucket after bucket while the table goes on changing between the reads.\<close>

inductive snapshot_run :: "Hasher \<Rightarrow> HoldTable \<Rightarrow> Slot list list \<Rightarrow> HoldTable \<Rightarrow> bool" for hs t0 where
  run_begin: "snapshot_run hs t0 [] (begin_snapshot t0)"
| run_write: "snapshot_run hs t0 read t \<Longrightarrow> table_step hs t t' \<Longrightarrow> snapshot_run hs t0 read t'"
| run_read: "snapshot_run hs t0 read t \<Longrightarrow> bucket_for_snapshot (length read) t = (Some bucket, t') \<Longrightarrow>
    snapshot_run hs t0 (read @ [bucket]) t'"

context slot_inv
begin

lemma step_kept: "table_step hs t t' \<Longrightarrow> kept t \<Longrightarrow> kept t'"
  by (induction rule: table_step.induct) (auto intro: insert_kept replace_kept restore_kept remove_kept repoint_kept)

end

lemma with_capacity_shape:
  assumes "slots \<le> 2 ^ 34"
  shows "table_shape (with_capacity slots hops)"
proof -
  have "(slots + WAYS - 1) div WAYS \<le> 2 ^ 32" using assms by (simp add: WAYS_def)
  then obtain k where k: "k \<le> 32" "next_power_of_two ((slots + WAYS - 1) div WAYS) = 2 ^ k"
    using pow2_at_least_power [of _ 32 0] by (auto simp: next_power_of_two_def)
  have two: "max (2 ^ k) (2::nat) = 2 ^ max k 1" 
    using power_increasing [of 1 k "2::nat"] by (cases "k = 0") (simp_all add: max_def)
  have "(word_of_nat (2 ^ max k 1) - 1 :: u64) = mask (max k 1)" by (simp add: mask_eq_exp_minus_1)
  moreover have "max (next_power_of_two ((slots + WAYS - 1) div WAYS)) 2 = 2 ^ max k 1" by (simp only: k(2) two)
  ultimately show ?thesis
    using k(1) by (auto simp only: table_shape_def with_capacity_def Let_def) (auto intro!: exI [of _ "max k 1"])
qed

lemma with_slots_counted: "counted (with_slots slots)"
proof -
  have "slot_word (with_slots slots) at = EMPTY" if "in_table (with_slots slots) at" for at
    using that by (simp add: in_table_def slot_word_def with_slots_def with_capacity_def Let_def)
  then have "cells P (with_slots slots) = {}" if "\<not> P EMPTY" for P using that by (auto simp: cells_def)
  then have "card (cells (\<lambda>w. w \<noteq> EMPTY) (with_slots slots)) = 0" "card (cells (in_segment i) (with_slots slots)) = 0" for i
    by simp_all
  then show ?thesis unfolding counted_def by (simp add: with_slots_def with_capacity_def Let_def)
qed

text \<open>The entries of one day.\<close>

definition day_entries :: "nat \<Rightarrow> HoldTable \<Rightarrow> (nat \<times> nat) set" where
  "day_entries day t = {at. in_table t at \<and> slot_word t at \<noteq> EMPTY \<and> unat (addr_segment (address_of (slot_word t at))) = day}"

text \<open>C17: the index never loses count. In every table that insertions, removals, repointings, compactions and a
  restore can make of an empty one, the count of live entries is the number of occupied slots; the count of each day,
  a 32-bit number, is the number of entries that point into that day, modulo its width, and so exact while the day
  has fewer than 2^32 of them; and the check the code makes of the counts at run time passes exactly when no day has
  reached that many.\<close>

theorem index_never_loses_count:
  assumes "table_reached hs t"
  shows "ht_live t = card {at. in_table t at \<and> slot_word t at \<noteq> EMPTY}
    \<and> (\<forall>day<SEGMENT_VALUES. ht_live_per_segment t ! day = of_nat (card (day_entries day t))
         \<and> (card (day_entries day t) < 2 ^ 32 \<longrightarrow> unat (ht_live_per_segment t ! day) = card (day_entries day t)))
    \<and> (counts_agree t \<longleftrightarrow> (\<forall>day<SEGMENT_VALUES. card (day_entries day t) < 2 ^ 32))"
proof -
  have "counts.kept t"
    using assms
  proof induction
    case (reached_new slots)
    then show ?case using with_slots_counted with_capacity_shape by (simp add: counts.kept_def with_slots_def)
  qed (rule counts.step_kept)
  then have t: "counted t" "table_shape t" by (simp_all add: counts.kept_def)
  have days: "day_entries s t = cells (in_segment s) t" for s by (simp add: day_entries_def cells_def)
  show ?thesis
    using t(1) counted_agrees [OF t]
    by (simp add: days counted_def unsigned_of_nat take_bit_nat_eq_self) (simp add: cells_def)
qed

definition mixing_hasher :: Hasher where
  "mixing_hasher = \<lparr>hash_u128 = (\<lambda>k. ucast k * 0x9E3779B97F4A7C15), hash_u64 = (\<lambda>w. w * 0xC2B2AE3D27D4EB4F)\<rparr>"

lemma index_never_loses_count_witness:
  "counts_agree (snd (insert_new mixing_hasher 7 (addr_new 3 1 2) (with_slots 8)))
     \<and> ht_live_per_segment (snd (insert_new mixing_hasher 7 (addr_new 3 1 2) (with_slots 8))) ! 3 = 1
     \<and> of_nat (card (day_entries 3 (snd (insert_new mixing_hasher 7 (addr_new 3 1 2) (with_slots 8))))) = (1::u32)"
proof -
  let ?t = "snd (insert_new mixing_hasher 7 (addr_new 3 1 2) (with_slots 8))"
  have "table_reached mixing_hasher ?t"
    by (rule reached_step [OF reached_new step_insert]) simp
  note counts = index_never_loses_count [OF this]
  have "counts_agree ?t" "ht_live_per_segment ?t ! 3 = 1" by code_simp+
  moreover have day: "(3::nat) < SEGMENT_VALUES" by code_simp
  have "ht_live_per_segment ?t ! 3 = of_nat (card (day_entries 3 ?t))"
    by (rule counts [THEN conjunct2, THEN conjunct1, THEN spec, THEN mp, OF day, THEN conjunct1])
  ultimately show ?thesis by (intro conjI) (simp_all only:)
qed

text \<open>C16: a snapshot of the index is of one instant. However many insertions, removals, repointings, compactions and
  restores fall between the reads, the buckets a snapshot has read are the first buckets of the table as it was when
  the snapshot began.\<close>

theorem snapshot_reads_one_instant:
  assumes "table_shape t0" "snapshot_run hs t0 read t"
  shows "read = take (length read) (ht_buckets t0)"
proof -
  have "stable_read.kept (ht_buckets t0) (length read) t \<and> length read \<le> length (ht_buckets t0)
      \<and> read = take (length read) (ht_buckets t0)"
    using assms(2)
  proof induction
    case run_begin
    have "table_shape (begin_snapshot t0)" using assms(1) by (simp add: table_shape_def begin_snapshot_def)
    then show ?case using stable_begin [of t0] by (simp add: stable_read.kept_def)
  next
    case (run_write read t t')
    then show ?case using stable_read.step_kept by blast
  next
    case (run_read read t bucket t')
    have st: "stable (ht_buckets t0) (length read) t" "table_shape t" using run_read.IH by (simp_all add: stable_read.kept_def)
    have len: "length read < length (ht_buckets t0)"
      using run_read.hyps(2) st(1) by (auto simp: bucket_for_snapshot_def stable_def split: option.splits if_splits)
    note read_on = stable_next [OF st(1) len]
    have "table_shape t'" using st(2) run_read.hyps(2)
      by (auto simp: bucket_for_snapshot_def table_shape_def split: option.splits if_splits)
    then show ?case
      using read_on run_read.hyps(2) run_read.IH len by (simp add: stable_read.kept_def take_Suc_conv_app_nth)
  qed
  then show ?thesis by simp
qed

lemma snapshot_reads_one_instant_witness:
  "\<exists>read t. snapshot_run mixing_hasher (with_slots 8) read t \<and> length read = 1 \<and> read = take 1 (ht_buckets (with_slots 8))"
proof -
  let ?t = "snd (insert_new mixing_hasher 7 (addr_new 3 1 2) (begin_snapshot (with_slots 8)))"
  have shape: "table_shape (with_slots 8)" using with_capacity_shape [of 8 MAX_HOPS] by (simp add: with_slots_def)
  have run: "snapshot_run mixing_hasher (with_slots 8) [] ?t" by (rule run_write [OF run_begin step_insert])
  have "stable_read.kept (ht_buckets (with_slots 8)) 0 (begin_snapshot (with_slots 8))"
    using stable_begin [of "with_slots 8"] shape by (simp add: stable_read.kept_def table_shape_def begin_snapshot_def)
  then have "stable (ht_buckets (with_slots 8)) 0 ?t" using stable_read.insert_kept by (simp add: stable_read.kept_def)
  moreover have "0 < length (ht_buckets (with_slots 8))" by (simp add: with_slots_def with_capacity_def Let_def)
  ultimately obtain bucket t' where "bucket_for_snapshot (length ([] :: Slot list list)) ?t = (Some bucket, t')"
    using stable_next by (metis list.size(3) prod.collapse)
  from run_read [OF run this] have "snapshot_run mixing_hasher (with_slots 8) [bucket] t'" by simp
  then show ?thesis using snapshot_reads_one_instant [OF shape] by (intro exI [of _ "[bucket]"] exI [of _ t']) fastforce
qed

end
