(* ===== verification/Index_Map.thy ===== *)
theory Index_Map
  imports Hold_Index
begin

text \<open>
  The cuckoo index refines a map from transaction ids to addresses. \<open>placed\<close> relates a table to the entries
  it holds, one slot per key in one of the two buckets the key hashes to; \<open>marked\<close> says that two keys the
  table cannot tell apart are both marked. Together they are the invariant of the index: it is established by
  an empty table and kept by every operation, and under it each operation does to the map what its name says.
  The reader the table asks when a fingerprint is shared is the locale \<open>verifier\<close>.
\<close>

section \<open>The entries of a table\<close>

abbreviation occupied :: "HoldTable \<Rightarrow> (nat \<times> nat) set" where
  "occupied t \<equiv> cells (\<lambda>w. w \<noteq> EMPTY) t"

definition placed :: "Hasher \<Rightarrow> HoldTable \<Rightarrow> (TxId \<Rightarrow> Slot option) \<Rightarrow> (TxId \<Rightarrow> nat \<times> nat) \<Rightarrow> bool" where
  "placed hs t C pos \<longleftrightarrow> table_shape t \<and> inj_on pos (dom C) \<and> pos ` dom C = occupied t
     \<and> (\<forall>k w. C k = Some w \<longrightarrow> slot_word t (pos k) = w \<and> fst (pos k) \<in> homes hs (ht_mask t) k
          \<and> fingerprint_of w = key_fp hs k)"

definition marked :: "Hasher \<Rightarrow> u64 \<Rightarrow> (TxId \<Rightarrow> Slot option) \<Rightarrow> bool" where
  "marked hs m C \<longleftrightarrow>
     (\<forall>k w k' w'. C k = Some w \<longrightarrow> C k' = Some w' \<longrightarrow> k \<noteq> k' \<longrightarrow> same_class hs m k k' \<longrightarrow> is_ambiguous w)"

definition index_rep :: "Hasher \<Rightarrow> HoldTable \<Rightarrow> (TxId \<Rightarrow> Slot option) \<Rightarrow> bool" where
  "index_rep hs t C \<longleftrightarrow> (\<exists>pos. placed hs t C pos) \<and> marked hs (ht_mask t) C"

text \<open>What the index answers: where each hold is.\<close>

definition where_is :: "(TxId \<Rightarrow> Slot option) \<Rightarrow> TxId \<Rightarrow> RecordAddr option" where
  "where_is C k = map_option address_of (C k)"

lemma placed_facts:
  assumes "placed hs t C pos" "C k = Some w"
  shows "slot_word t (pos k) = w" "fst (pos k) \<in> homes hs (ht_mask t) k" "fingerprint_of w = key_fp hs k"
    "in_table t (pos k)" "w \<noteq> EMPTY"
proof -
  show "slot_word t (pos k) = w" "fst (pos k) \<in> homes hs (ht_mask t) k" "fingerprint_of w = key_fp hs k"
    using assms by (auto simp: placed_def)
  then show "in_table t (pos k)" "w \<noteq> EMPTY"
    using assms by (auto simp: placed_def cells_def dom_def)
qed

lemma placed_owner: "placed hs t C pos \<Longrightarrow> in_table t at \<Longrightarrow> slot_word t at \<noteq> EMPTY \<Longrightarrow>
    \<exists>k. C k = Some (slot_word t at) \<and> pos k = at"
proof -
  assume a: "placed hs t C pos" "in_table t at" "slot_word t at \<noteq> EMPTY"
  then have "at \<in> pos ` dom C" by (simp add: placed_def cells_def)
  then obtain k w where "C k = Some w" "pos k = at" by auto
  then show ?thesis using placed_facts(1) [OF a(1)] by auto
qed

lemma placed_inj: "placed hs t C pos \<Longrightarrow> C k = Some w \<Longrightarrow> C k' = Some w' \<Longrightarrow> pos k = pos k' \<Longrightarrow> k = k'"
  by (auto simp: placed_def inj_on_def)

lemma placed_shape: "placed hs t C pos \<Longrightarrow> table_shape t"
  by (simp add: placed_def)

lemma placed_occupied: "placed hs t C pos \<Longrightarrow> occupied t = pos ` dom C"
  by (simp add: placed_def)

text \<open>One write: whoever was there is gone, and the key it was written for is there.\<close>

definition evicted :: "(TxId \<Rightarrow> Slot option) \<Rightarrow> (TxId \<Rightarrow> nat \<times> nat) \<Rightarrow> nat \<times> nat \<Rightarrow> TxId \<Rightarrow> Slot option" where
  "evicted C pos at k = (if pos k = at then None else C k)"

lemma placed_clear:
  assumes "placed hs t C pos" "in_table t at"
  shows "placed hs (snd (set_slot at EMPTY t)) (evicted C pos at) pos"
proof -
  note sh = placed_shape [OF assms(1)]
  have dom: "dom (evicted C pos at) = {k \<in> dom C. pos k \<noteq> at}"
    by (auto simp: evicted_def split: if_splits)
  have "pos ` dom (evicted C pos at) = occupied t - {at}"
    unfolding dom placed_occupied [OF assms(1)] by auto
  then show ?thesis
    using assms sh unfolding placed_def dom
    by (auto simp: cells_set_slot set_slot_word set_slot_shape evicted_def inj_on_def split: if_splits)
qed

lemma placed_fill:
  assumes "placed hs t C pos" "in_table t at" "fst at \<in> homes hs (ht_mask t) k" "fingerprint_of w = key_fp hs k"
    and "evicted C pos at k = None"
  shows "placed hs (snd (set_slot at w t)) ((evicted C pos at)(k \<mapsto> w)) (pos(k := at))"
proof -
  note sh = placed_shape [OF assms(1)]
  have w: "w \<noteq> EMPTY" using assms(4) by (simp add: fp_nonempty)
  have dom: "dom (evicted C pos at) = {j \<in> dom C. pos j \<noteq> at}"
    by (auto simp: evicted_def split: if_splits)
  have other: "j \<noteq> k" if "j \<in> dom (evicted C pos at)" for j using that assms(5) by auto
  have "(pos(k := at)) ` dom ((evicted C pos at)(k \<mapsto> w)) = insert at (pos ` dom (evicted C pos at))"
    using other by force
  also have "\<dots> = insert at (occupied t)"
    unfolding dom placed_occupied [OF assms(1)] by auto
  finally have "(pos(k := at)) ` dom ((evicted C pos at)(k \<mapsto> w)) = occupied (snd (set_slot at w t))"
    by (simp add: cells_set_slot sh assms(2) w)
  moreover have "inj_on (pos(k := at)) (dom ((evicted C pos at)(k \<mapsto> w)))"
    by (rule inj_onI) (auto simp: evicted_def split: if_splits dest: placed_inj [OF assms(1)])
  ultimately show ?thesis
    using assms sh unfolding placed_def
    by (auto simp: set_slot_word set_slot_shape evicted_def split: if_splits)
qed

lemma evicted_free: "placed hs t C pos \<Longrightarrow> slot_word t at = EMPTY \<Longrightarrow> evicted C pos at = C"
proof
  fix k
  assume a: "placed hs t C pos" "slot_word t at = EMPTY"
  show "evicted C pos at k = C k"
    using placed_facts(1,5) [OF a(1), of k] a(2) by (cases "C k") (auto simp: evicted_def)
qed

lemma evicted_own: "placed hs t C pos \<Longrightarrow> C k = Some w \<Longrightarrow> evicted C pos (pos k) = C(k := None)"
proof
  fix j
  assume a: "placed hs t C pos" "C k = Some w"
  show "evicted C pos (pos k) j = (C(k := None)) j"
    using placed_inj [OF a, of j] by (cases "C j") (auto simp: evicted_def)
qed

lemma placed_rewrite:
  assumes "placed hs t C pos" "C k = Some w" "fingerprint_of w' = key_fp hs k"
  shows "placed hs (snd (set_slot (pos k) w' t)) (C(k \<mapsto> w')) pos"
  using placed_fill [OF assms(1) placed_facts(4,2) [OF assms(1,2)] assms(3)]
  by (simp add: evicted_own [OF assms(1,2)])

lemma placed_cleared:
  assumes "placed hs t C pos" "C k = Some w"
  shows "placed hs (snd (set_slot (pos k) EMPTY t)) (C(k := None)) pos"
  using placed_clear [OF assms(1) placed_facts(4) [OF assms]] by (simp add: evicted_own [OF assms])

lemma placed_counters [simp]:
  "placed hs (t\<lparr>ht_victims := v\<rparr>) C pos = placed hs t C pos"
  "placed hs (t\<lparr>ht_hops := h, ht_worst_hops := wh\<rparr>) C pos = placed hs t C pos"
  "placed hs (t\<lparr>ht_ambiguous := n\<rparr>) C pos = placed hs t C pos"
  by (simp_all add: placed_def cells_def)

section \<open>An empty table\<close>

lemma with_capacity_word: "in_table (with_capacity slots hops) at \<Longrightarrow> slot_word (with_capacity slots hops) at = EMPTY"
  by (simp add: in_table_def slot_word_def with_capacity_def Let_def)

lemma with_capacity_rep:
  assumes "slots \<le> 2 ^ 34"
  shows "index_rep hs (with_capacity slots hops) (\<lambda>_. None)"
  using with_capacity_shape [OF assms, of hops] with_capacity_word
  by (auto simp: index_rep_def placed_def marked_def cells_def)

section \<open>Placing an entry\<close>

lemma put_cases:
  "(\<exists>way<WAYS. slot_word t (b, way) = EMPTY \<and> ht_put b w t = (True, snd (set_slot (b, way) w t)))
   \<or> (\<forall>way<WAYS. slot_word t (b, way) \<noteq> EMPTY) \<and> ht_put b w t = (False, t)"
proof (cases "List.find (\<lambda>way. slot_word t (b, way) = EMPTY) [0..<WAYS]")
  case None
  then have "ht_put b w t = (False, t)" "\<forall>way<WAYS. slot_word t (b, way) \<noteq> EMPTY"
    by (simp add: ht_put_def) (use None in \<open>simp add: find_None_iff\<close>)
  then show ?thesis by blast
next
  case (Some way)
  then have "ht_put b w t = (True, snd (set_slot (b, way) w t))" by (simp add: ht_put_def)
  moreover have "way < WAYS" "slot_word t (b, way) = EMPTY" using Some by (auto simp: find_Some_iff)
  ultimately show ?thesis by blast
qed

definition bucket_full :: "HoldTable \<Rightarrow> nat \<Rightarrow> bool" where
  "bucket_full t b \<longleftrightarrow> (\<forall>way<WAYS. slot_word t (b, way) \<noteq> EMPTY)"

lemma put_placed:
  assumes "placed hs t C pos" "C k = None" "fingerprint_of w = key_fp hs k" "b \<in> homes hs (ht_mask t) k"
    and "ht_put b w t = (ok, t')"
  shows "if ok then \<exists>pos'. placed hs t' (C(k \<mapsto> w)) pos' else t' = t \<and> bucket_full t b"
proof -
  have "b < length (ht_buckets t)" using locate_in_range [OF placed_shape [OF assms(1)] assms(4)] .
  then have fill: "way < WAYS \<Longrightarrow> slot_word t (b, way) = EMPTY \<Longrightarrow>
      placed hs (snd (set_slot (b, way) w t)) (C(k \<mapsto> w)) (pos(k := (b, way)))" for way
    using placed_fill [OF assms(1), of "(b, way)" k w] assms(2-4)
    by (simp add: evicted_free [OF assms(1)] in_table_def)
  then show ?thesis
    using put_cases [of t b w] assms(5) by (auto simp: bucket_full_def)
qed

text \<open>
  What a cascade did: the table holds the entries it had and the one it was given, less the one it hands back
  when it runs out of hops.
\<close>

definition settled :: "Hasher \<Rightarrow> (TxId \<Rightarrow> Slot option) \<Rightarrow> Slot + unit \<Rightarrow> HoldTable \<Rightarrow> bool" where
  "settled hs C r t \<longleftrightarrow>
     (case r of Inr _ \<Rightarrow> \<exists>pos. placed hs t C pos
      | Inl w \<Rightarrow> \<exists>k pos. C k = Some w \<and> placed hs t (C(k := None)) pos)"

lemma victim_way: "fst (victim hs b c t) < WAYS \<and> (\<exists>v. snd (victim hs b c t) = t\<lparr>ht_victims := v\<rparr>)"
proof -
  have "unat (w mod 4 :: u64) < 4" for w :: u64 by (simp add: unat_mod_distrib)
  then show ?thesis by (auto simp: victim_def Let_def WAYS_def split: option.split prod.split)
qed

lemma kick_settles:
  "placed hs t C pos \<Longrightarrow> C k = None \<Longrightarrow> fingerprint_of w = key_fp hs k \<Longrightarrow> b \<in> homes hs (ht_mask t) k \<Longrightarrow>
   bucket_full t b \<Longrightarrow> kick hs n h w b c t = (r, t') \<Longrightarrow> settled hs (C(k \<mapsto> w)) r t' \<and> ht_mask t' = ht_mask t"
proof (induction n arbitrary: h w b c t C pos k)
  case 0
  have "(C(k \<mapsto> w))(k := None) = C" using 0(2) by auto
  then have "placed hs t ((C(k \<mapsto> w))(k := None)) pos" using 0(1) by simp
  then have "settled hs (C(k \<mapsto> w)) (Inl w) t"
    unfolding settled_def sum.case by (intro exI [of _ k] exI [of _ pos]) simp
  then show ?case using 0(6) by (simp add: fun_upd_def)
next
  case (Suc n)
  obtain way v where vic: "victim hs b c t = (way, t\<lparr>ht_victims := v\<rparr>)" "way < WAYS"
    using victim_way [of hs b c t] by (metis prod.collapse)
  define t1 where "t1 = t\<lparr>ht_victims := v\<rparr>"
  have t1: "placed hs t1 C pos" "ht_mask t1 = ht_mask t" "slot_word t1 p = slot_word t p" for p
    using Suc.prems(1) by (simp_all add: t1_def)
  have range: "in_table t1 (b, way)"
    using locate_in_range [OF placed_shape [OF t1(1)], of b hs k] Suc.prems(4) vic(2) t1(2) by (simp add: in_table_def)
  define old where "old = slot_word t1 (b, way)"
  obtain k2 where k2: "C k2 = Some old" "pos k2 = (b, way)"
    using placed_owner [OF t1(1) range] Suc.prems(5) vic(2) unfolding old_def by (auto simp: bucket_full_def t1(3))
  have ne: "k2 \<noteq> k" using k2(1) Suc.prems(2) by auto
  define t2 where "t2 = snd (set_slot (b, way) w t1)"
  have t2: "placed hs t2 ((C(k2 := None))(k \<mapsto> w)) (pos(k := (b, way)))" "ht_mask t2 = ht_mask t"
    using placed_fill [OF t1(1) range, of k w] Suc.prems(2-4) evicted_own [OF t1(1) k2(1)] k2(2) t1(2)
    by (simp_all add: t2_def)
  define on where "on = alternate hs (ht_mask t2) b (fingerprint_of old)"
  have fp2: "fingerprint_of old = key_fp hs k2" using placed_facts(3) [OF t1(1) k2(1)] .
  have "b \<in> homes hs (ht_mask t) k2" using placed_facts(2) [OF t1(1) k2(1)] k2(2) t1(2) by simp
  then have on: "on \<in> homes hs (ht_mask t2) k2"
    unfolding on_def fp2 t2(2) by (rule homes_alternate)
  have joined: "((C(k2 := None))(k \<mapsto> w))(k2 \<mapsto> old) = C(k \<mapsto> w)"
    using ne k2(1) by (auto simp: fun_eq_iff)
  obtain ok t3 where put: "ht_put on old t2 = (ok, t3)" by fastforce
  have step: "kick hs (Suc n) h w b c t =
      (if ok then (Inr (), t3\<lparr>ht_hops := ht_hops t3 + h, ht_worst_hops := max (ht_worst_hops t3) h\<rparr>)
       else kick hs n (Suc h) old on b t3)"
    using vic(1) put by (simp add: Let_def t1_def [symmetric] t2_def old_def on_def split_beta)
  have free: "((C(k2 := None))(k \<mapsto> w)) k2 = None" using ne by simp
  have mask3: "ht_mask t3 = ht_mask t2" using shape.put_mask(1) [of on old t2] put by simp
  have "settled hs (((C(k2 := None))(k \<mapsto> w))(k2 \<mapsto> old)) r t' \<and> ht_mask t' = ht_mask t"
  proof (cases ok)
    case True
    then obtain pos' where "placed hs t3 (((C(k2 := None))(k \<mapsto> w))(k2 \<mapsto> old)) pos'"
      using put_placed [OF t2(1) free fp2 on put] by auto
    moreover have "r = Inr ()" "t' = t3\<lparr>ht_hops := ht_hops t3 + h, ht_worst_hops := max (ht_worst_hops t3) h\<rparr>"
      using Suc.prems(6) True unfolding step by simp_all
    ultimately show ?thesis using mask3 t2(2) by (auto simp: settled_def simp del: fun_upd_apply)
  next
    case False
    then have "t3 = t2" "bucket_full t2 on" using put_placed [OF t2(1) free fp2 on put] by auto
    moreover have "kick hs n (Suc h) old on b t3 = (r, t')" using Suc.prems(6) False unfolding step by simp
    ultimately show ?thesis
      using Suc.IH [OF t2(1) free fp2 on] t2(2) by metis
  qed
  then show ?case unfolding joined .
qed

lemma place_settles:
  assumes "placed hs t C pos" "C k = None" "fingerprint_of w = key_fp hs k"
    and "ht_place hs w (key_home hs (ht_mask t) k) (key_alt hs (ht_mask t) k) t = (r, t')"
  shows "settled hs (C(k \<mapsto> w)) r t' \<and> ht_mask t' = ht_mask t"
proof -
  let ?h = "key_home hs (ht_mask t) k" and ?a = "key_alt hs (ht_mask t) k"
  have in_homes: "?h \<in> homes hs (ht_mask t) k" "?a \<in> homes hs (ht_mask t) k" by (simp_all add: homes_def)
  obtain ok1 t1 ok2 t2 where p: "ht_put ?h w t = (ok1, t1)" "ht_put ?a w t1 = (ok2, t2)" by fastforce
  have m: "ht_mask t1 = ht_mask t" "ht_mask t2 = ht_mask t1"
    using shape.put_mask(1) p by (metis snd_conv)+
  note first = put_placed [OF assms(1-3) in_homes(1) p(1)]
  show ?thesis
  proof (cases ok1)
    case True
    then show ?thesis using first assms(4) p(1) m by (auto simp: ht_place_def settled_def)
  next
    case False
    then have t1: "t1 = t" "bucket_full t ?h" using first by auto
    note second = put_placed [OF assms(1-3) in_homes(2) p(2) [unfolded t1(1)]]
    show ?thesis
    proof (cases ok2)
      case True
      then show ?thesis using second assms(4) p False m by (auto simp: ht_place_def settled_def)
    next
      case nope: False
      then have "t2 = t" using second by auto
      then show ?thesis
        using kick_settles [OF assms(1-3) in_homes(1) t1(2)] assms(4) p False nope t1(1) by (auto simp: ht_place_def)
    qed
  qed
qed

section \<open>What a probe finds\<close>

lemma candidate_owner:
  assumes "placed hs t C pos" "c \<in> set (candidates hs t k)"
  obtains k' w where "C k' = Some w" "c = (address_of w, pos k')" "same_class hs (ht_mask t) k k'"
proof -
  note sh = placed_shape [OF assms(1)]
  have at: "in_table t (snd c)" using candidates_in_table [OF sh assms(2)] .
  have c: "fst c = address_of (slot_word t (snd c))" "slot_word t (snd c) \<noteq> EMPTY"
      "fingerprint_of (slot_word t (snd c)) = key_fp hs k" "fst (snd c) \<in> homes hs (ht_mask t) k"
    using assms(2) by (auto simp: candidates_eq [OF sh] probe_def homes_def)
  obtain k' where k': "C k' = Some (slot_word t (snd c))" "pos k' = snd c"
    using placed_owner [OF assms(1) at c(2)] by blast
  have "same_class hs (ht_mask t) k k'"
    using same_classI [of hs k k' "fst (snd c)"] placed_facts(2,3) [OF assms(1) k'(1)] c(3,4) k'(2) by auto
  then show ?thesis using that [OF k'(1)] k'(2) c(1) by (metis prod.collapse)
qed

lemma candidate_of:
  assumes "placed hs t C pos" "C k' = Some w" "same_class hs (ht_mask t) k k'"
  shows "(address_of w, pos k') \<in> set (candidates hs t k)"
proof -
  have "snd (pos k') < WAYS" using placed_facts(4) [OF assms(1,2)] by (simp add: in_table_def)
  then have "pos k' \<in> set (probe (key_home hs (ht_mask t) k) (key_alt hs (ht_mask t) k))"
  proof -
    have "fst (pos k') = key_home hs (ht_mask t) k \<or> fst (pos k') = key_alt hs (ht_mask t) k"
      using placed_facts(2) [OF assms(1,2)] assms(3) unfolding same_class_def homes_def by blast
    then show ?thesis using \<open>snd (pos k') < WAYS\<close> by (cases "pos k'") (auto simp: probe_def)
  qed
  then show ?thesis
    using placed_facts(1,3,5) [OF assms(1,2)] assms(3)
    by (auto simp: candidates_eq [OF placed_shape [OF assms(1)]] same_class_def)
qed

lemma same_class_refl [simp]: "same_class hs m k k"
  by (simp add: same_class_def)

text \<open>Somebody else's entry, alone in its class and unmarked: the one a probe for an absent key would take for
  its own.\<close>

definition stray :: "Hasher \<Rightarrow> u64 \<Rightarrow> (TxId \<Rightarrow> Slot option) \<Rightarrow> TxId \<Rightarrow> bool" where
  "stray hs m C k \<longleftrightarrow> (\<exists>k' w. C k' = Some w \<and> k' \<noteq> k \<and> same_class hs m k k' \<and> \<not> is_ambiguous w)"

section \<open>Telling keys apart\<close>

locale verifier =
  fixes verify :: "TxId \<Rightarrow> 's verify" and J :: "'s \<Rightarrow> bool" and owner :: "RecordAddr \<Rightarrow> TxId option"
  assumes keeps: "J s \<Longrightarrow> owner a = Some k' \<Longrightarrow> J (snd (verify k a s))"
    and honest: "J s \<Longrightarrow> owner a = Some k' \<Longrightarrow> fst (verify k a s) \<longleftrightarrow> k' = k"
begin

definition owned :: "(TxId \<Rightarrow> Slot option) \<Rightarrow> bool" where
  "owned C \<longleftrightarrow> (\<forall>k w. C k = Some w \<longrightarrow> owner (address_of w) = Some k)"

lemma first_verified_result:
  assumes "J s" "\<forall>c\<in>set cs. \<exists>k'. owner (fst c) = Some k'"
  shows "J (snd (first_verified (verify k) cs s))
    \<and> fst (first_verified (verify k) cs s) = map_option snd (List.find (\<lambda>c. owner (fst c) = Some k) cs)"
  using assms
proof (induction cs arbitrary: s)
  case (Cons c cs)
  obtain k' where k': "owner (fst c) = Some k'" using Cons.prems(2) by auto
  have "J (snd (verify k (fst c) s))" "fst (verify k (fst c) s) \<longleftrightarrow> k' = k"
    using keeps [OF Cons.prems(1) k'] honest [OF Cons.prems(1) k'] by blast+
  then show ?case using Cons.IH Cons.prems(2) k' by (cases c) (auto simp: split_beta)
qed simp

lemma resolve_present:
  assumes "placed hs t C pos" "marked hs (ht_mask t) C" "owned C" "C k = Some w" "J s"
  shows "J (snd (ht_resolve hs t k (verify k) s)) \<and> fst (ht_resolve hs t k (verify k) s) = Some (pos k)"
proof -
  note mine = candidate_of [OF assms(1,4) same_class_refl]
  note theirs = candidate_owner [OF assms(1)]
  show ?thesis
  proof (cases "ht_find hs t k")
    case Absent
    then show ?thesis using ht_find_cases(1) mine by fastforce
  next
    case (FoundAt at)
    then have "pos k = at" using ht_find_cases(2) [OF FoundAt] mine by auto
    then show ?thesis using FoundAt assms(5) by (simp add: ht_resolve_def)
  next
    case (Ambiguous cs)
    then have cs: "candidates hs t k = cs" by (rule ht_find_cases)
    have own: "\<forall>c\<in>set cs. \<exists>k'. owner (fst c) = Some k' \<and> (k' = k \<longrightarrow> snd c = pos k)"
    proof
      fix c assume "c \<in> set cs"
      then show "\<exists>k'. owner (fst c) = Some k' \<and> (k' = k \<longrightarrow> snd c = pos k)"
        using theirs [of c k] assms(3) unfolding cs owned_def by (metis fst_conv snd_conv)
    qed
    have "List.find (\<lambda>c. owner (fst c) = Some k) cs \<noteq> None"
      using mine assms(3,4) unfolding cs owned_def find_None_iff by (metis fst_conv)
    then obtain c where c: "List.find (\<lambda>c. owner (fst c) = Some k) cs = Some c" by auto
    then have "c \<in> set cs" "owner (fst c) = Some k" by (auto simp: find_Some_iff)
    then have "snd c = pos k" using own by auto
    then show ?thesis
      using first_verified_result [OF assms(5), of cs k] own c Ambiguous by (auto simp: ht_resolve_def)
  qed
qed

lemma resolve_absent:
  assumes "placed hs t C pos" "owned C" "C k = None" "\<not> stray hs (ht_mask t) C k" "J s"
  shows "J (snd (ht_resolve hs t k (verify k) s)) \<and> fst (ht_resolve hs t k (verify k) s) = None"
proof (cases "ht_find hs t k")
  case Absent
  then show ?thesis using assms(5) by (simp add: ht_resolve_def)
next
  case (FoundAt at)
  then obtain a where a: "(a, at) \<in> set (candidates hs t k)" "\<not> is_ambiguous (slot_word t at)"
    using ht_find_cases(2) [OF FoundAt] by auto
  obtain k' w where k': "C k' = Some w" "pos k' = at" "same_class hs (ht_mask t) k k'"
    using candidate_owner [OF assms(1) a(1)] by (metis prod.inject)
  have "\<not> is_ambiguous w" "k' \<noteq> k" using placed_facts(1) [OF assms(1) k'(1)] a(2) k' assms(3) by auto
  then show ?thesis using assms(4) k' unfolding stray_def by blast
next
  case (Ambiguous cs)
  then have cs: "candidates hs t k = cs" by (rule ht_find_cases)
  have own: "\<forall>c\<in>set cs. \<exists>k'. owner (fst c) = Some k' \<and> k' \<noteq> k"
  proof
    fix c assume "c \<in> set cs"
    then show "\<exists>k'. owner (fst c) = Some k' \<and> k' \<noteq> k"
      using candidate_owner [OF assms(1), of c k] assms(2,3) unfolding cs owned_def by (metis fst_conv option.distinct(1))
  qed
  then have "List.find (\<lambda>c. owner (fst c) = Some k) cs = None" by (auto simp: find_None_iff)
  then show ?thesis
    using first_verified_result [OF assms(5), of cs k] own Ambiguous by (auto simp: ht_resolve_def)
qed

lemma addr_of_present:
  assumes "index_rep hs t C" "owned C" "C k = Some w" "J s"
  shows "J (snd (addr_of hs t k (verify k) s)) \<and> fst (addr_of hs t k (verify k) s) = Some (address_of w)"
proof -
  obtain pos where p: "placed hs t C pos" "marked hs (ht_mask t) C" using assms(1) by (auto simp: index_rep_def)
  show ?thesis
    using resolve_present [OF p assms(2-4)] placed_facts(1) [OF p(1) assms(3)]
    by (auto simp: addr_of_def split_beta)
qed

lemma addr_of_absent:
  assumes "index_rep hs t C" "owned C" "C k = None" "\<not> stray hs (ht_mask t) C k" "J s"
  shows "J (snd (addr_of hs t k (verify k) s)) \<and> fst (addr_of hs t k (verify k) s) = None"
  using resolve_absent [OF _ assms(2-5)] assms(1) by (auto simp: index_rep_def addr_of_def split_beta)

lemma remove_present:
  assumes "index_rep hs t C" "owned C" "C k = Some w" "J s"
  obtains t' s' where "ht_remove hs k (verify k) t s = (Some (address_of w), t', s')" "index_rep hs t' (C(k := None))"
    "J s'" "ht_mask t' = ht_mask t"
proof -
  obtain pos where p: "placed hs t C pos" "marked hs (ht_mask t) C" using assms(1) by (auto simp: index_rep_def)
  note r = resolve_present [OF p assms(2-4)]
  let ?t = "snd (set_slot (pos k) EMPTY t)"
  have "index_rep hs ?t (C(k := None))"
    using placed_cleared [OF p(1) assms(3)] p(2) by (auto simp: index_rep_def marked_def)
  then show ?thesis
    using that [of ?t "snd (ht_resolve hs t k (verify k) s)"] r placed_facts(1) [OF p(1) assms(3)]
    by (auto simp: ht_remove_def split_beta)
qed

lemma remove_absent:
  assumes "index_rep hs t C" "owned C" "C k = None" "\<not> stray hs (ht_mask t) C k" "J s"
  obtains s' where "ht_remove hs k (verify k) t s = (None, t, s')" "J s'"
proof -
  obtain pos where p: "placed hs t C pos" using assms(1) by (auto simp: index_rep_def)
  show ?thesis
    using that [of "snd (ht_resolve hs t k (verify k) s)"] resolve_absent [OF p assms(2-5)]
    by (auto simp: ht_remove_def split_beta)
qed

end

section \<open>Redirecting and inserting\<close>

lemma redirect_word:
  assumes "fp_ok (fingerprint_of w)" "addr_ok a"
  shows "fingerprint_of (pack (fingerprint_of w) a OR (w AND AMBIGUOUS)) = fingerprint_of w"
    and "address_of (pack (fingerprint_of w) a OR (w AND AMBIGUOUS)) = a"
    and "is_ambiguous (pack (fingerprint_of w) a OR (w AND AMBIGUOUS)) \<longleftrightarrow> is_ambiguous w"
  using assms by (simp_all add: keep_mark_parts pack_parts addr_ok_mask)

lemma redirect_rep:
  assumes "placed hs t C pos" "marked hs (ht_mask t) C" "C k = Some w" "addr_ok a"
  obtains w' where "index_rep hs (redirect (pos k) a t) (C(k \<mapsto> w'))" "address_of w' = a"
    "is_ambiguous w' \<longleftrightarrow> is_ambiguous w" "ht_mask (redirect (pos k) a t) = ht_mask t"
proof -
  let ?w = "pack (fingerprint_of w) a OR (w AND AMBIGUOUS)"
  note f = placed_facts [OF assms(1,3)]
  have ok: "fp_ok (fingerprint_of w)" using f(3) by simp
  have m: "marked hs (ht_mask t) (C(k \<mapsto> ?w))"
    unfolding marked_def
  proof (intro allI impI)
    fix i v j v'
    assume a: "(C(k \<mapsto> ?w)) i = Some v" "(C(k \<mapsto> ?w)) j = Some v'" "i \<noteq> j" "same_class hs (ht_mask t) i j"
    obtain u where "C j = Some u" using a(2) assms(3) by (auto split: if_splits)
    then show "is_ambiguous v"
      using assms(2,3) a redirect_word(3) [OF ok assms(4)] unfolding marked_def by (auto split: if_splits)
  qed
  have "placed hs (redirect (pos k) a t) (C(k \<mapsto> ?w)) pos"
    using placed_rewrite [OF assms(1,3), of ?w] f redirect_word(1) [OF ok assms(4)] by (simp add: redirect_def)
  moreover have "ht_mask (redirect (pos k) a t) = ht_mask t" by (simp add: redirect_def Let_def)
  ultimately show ?thesis
    using that [of ?w] m redirect_word [OF ok assms(4)] by (auto simp: index_rep_def)
qed

lemma where_is_upd: "address_of w' = a \<Longrightarrow> where_is (C(k \<mapsto> w')) = (where_is C)(k \<mapsto> a)"
  by (auto simp: where_is_def fun_eq_iff)

lemma where_is_del: "where_is (C(k := None)) = (where_is C)(k := None)"
  by (auto simp: where_is_def fun_eq_iff)

lemma marked_del: "marked hs m C \<Longrightarrow> marked hs m (C(j := None))"
  unfolding marked_def by (metis fun_upd_apply option.distinct(1))

text \<open>Marking every entry a new key clashes with.\<close>

definition mark_class :: "Hasher \<Rightarrow> u64 \<Rightarrow> TxId \<Rightarrow> (TxId \<Rightarrow> Slot option) \<Rightarrow> TxId \<Rightarrow> Slot option" where
  "mark_class hs m k C k' = (if same_class hs m k k' then map_option (\<lambda>w. w OR AMBIGUOUS) (C k') else C k')"

lemma or_twice: "(w OR a) OR a = (w OR a :: u64)"
  by (simp add: or.assoc)

lemma fold_mark_placed:
  "placed hs t C pos \<Longrightarrow> \<forall>c\<in>set cs. \<exists>k w. C k = Some w \<and> pos k = snd c \<Longrightarrow>
   placed hs (fold (\<lambda>c. ht_mark (snd c)) cs t)
     (\<lambda>k. if pos k \<in> snd ` set cs then map_option (\<lambda>w. w OR AMBIGUOUS) (C k) else C k) pos
   \<and> ht_mask (fold (\<lambda>c. ht_mark (snd c)) cs t) = ht_mask t"
proof (induction cs arbitrary: t C)
  case (Cons c cs)
  obtain k w where k: "C k = Some w" "pos k = snd c" using Cons.prems(2) by auto
  let ?C = "C(k \<mapsto> w OR AMBIGUOUS)"
  note f = placed_facts [OF Cons.prems(1) k(1)]
  have p: "placed hs (ht_mark (snd c) t) ?C pos"
    using placed_rewrite [OF Cons.prems(1) k(1), of "w OR AMBIGUOUS"] f by (simp add: ht_mark_def k(2) [symmetric] mark_parts)
  have "\<forall>c\<in>set cs. \<exists>k w. ?C k = Some w \<and> pos k = snd c" using Cons.prems(2) by fastforce
  note ih = Cons.IH [OF p this]
  have "(\<lambda>j. if pos j \<in> snd ` set cs then map_option (\<lambda>w. w OR AMBIGUOUS) (?C j) else ?C j)
      = (\<lambda>j. if pos j \<in> snd ` set (c # cs) then map_option (\<lambda>w. w OR AMBIGUOUS) (C j) else C j)"
  proof
    fix j
    show "(if pos j \<in> snd ` set cs then map_option (\<lambda>w. w OR AMBIGUOUS) (?C j) else ?C j)
        = (if pos j \<in> snd ` set (c # cs) then map_option (\<lambda>w. w OR AMBIGUOUS) (C j) else C j)"
    proof (cases "C j")
      case (Some v)
      have "pos j = snd c \<longleftrightarrow> j = k" using k placed_inj [OF Cons.prems(1) Some k(1)] by metis
      then show ?thesis using Some k(1) by (auto simp: or_twice)
    qed (use k in auto)
  qed
  then show ?case using ih by (simp add: ht_mark_def)
qed simp

lemma marks_placed:
  assumes "placed hs t C pos"
  shows "placed hs (fold (\<lambda>c. ht_mark (snd c)) (candidates hs t k) t) (mark_class hs (ht_mask t) k C) pos
    \<and> ht_mask (fold (\<lambda>c. ht_mark (snd c)) (candidates hs t k) t) = ht_mask t"
proof -
  have own: "\<forall>c\<in>set (candidates hs t k). \<exists>j w. C j = Some w \<and> pos j = snd c"
  proof
    fix c assume "c \<in> set (candidates hs t k)"
    then show "\<exists>j w. C j = Some w \<and> pos j = snd c" using candidate_owner [OF assms] by (metis snd_conv)
  qed
  have "(if pos j \<in> snd ` set (candidates hs t k) then map_option (\<lambda>w. w OR AMBIGUOUS) (C j) else C j)
      = mark_class hs (ht_mask t) k C j" for j
  proof (cases "C j")
    case (Some w)
    have "pos j \<in> snd ` set (candidates hs t k) \<longleftrightarrow> same_class hs (ht_mask t) k j"
    proof
      assume "pos j \<in> snd ` set (candidates hs t k)"
      then obtain c where c: "c \<in> set (candidates hs t k)" "snd c = pos j" by auto
      then obtain i v where "C i = Some v" "pos i = pos j" "same_class hs (ht_mask t) k i"
        using candidate_owner [OF assms c(1)] by (metis snd_conv)
      then show "same_class hs (ht_mask t) k j" using placed_inj [OF assms _ Some] by blast
    next
      assume "same_class hs (ht_mask t) k j"
      from candidate_of [OF assms Some this] show "pos j \<in> snd ` set (candidates hs t k)" by force
    qed
    then show ?thesis by (simp add: mark_class_def)
  qed (simp add: mark_class_def)
  then show ?thesis using fold_mark_placed [OF assms own] by (simp add: fun_eq_iff [symmetric])
qed

text \<open>Inserting a key the table does not have: the map gains it, or gains it and loses the entry handed back.\<close>

lemma insert_new_refines:
  assumes "index_rep hs t C" "C k = None" "addr_ok a" "insert_new hs k a t = (r, t')"
  shows "\<exists>C'. index_rep hs t' C' \<and> ht_mask t' = ht_mask t \<and>
    (case r of Inr _ \<Rightarrow> where_is C' = (where_is C)(k \<mapsto> a)
     | Inl d \<Rightarrow> \<exists>j. ((where_is C)(k \<mapsto> a)) j = Some d \<and> where_is C' = ((where_is C)(k \<mapsto> a))(j := None))"
proof -
  obtain pos where p: "placed hs t C pos" "marked hs (ht_mask t) C" using assms(1) by (auto simp: index_rep_def)
  let ?cs = "candidates hs t k"
  define w where "w = (if ?cs = [] then pack (key_fp hs k) a else pack (key_fp hs k) a OR AMBIGUOUS)"
  define t1 where "t1 = (if ?cs = [] then t
    else (let u = fold (\<lambda>c. ht_mark (snd c)) ?cs t in u\<lparr>ht_ambiguous := ht_ambiguous u + 1\<rparr>))"
  define C1 where "C1 = mark_class hs (ht_mask t) k C"
  have t1: "placed hs t1 C1 pos" "ht_mask t1 = ht_mask t"
  proof -
    have "placed hs t C1 pos" if "?cs = []" using marks_placed [OF p(1), of k] that by (simp add: C1_def)
    then show "placed hs t1 C1 pos" "ht_mask t1 = ht_mask t"
      using marks_placed [OF p(1), of k] by (simp_all add: t1_def C1_def Let_def)
  qed
  have w: "fingerprint_of w = key_fp hs k" "address_of w = a"
    using assms(3) by (simp_all add: w_def mark_parts pack_parts addr_ok_mask)
  have free: "C1 k = None" using assms(2) by (simp add: C1_def mark_class_def)
  have same: "where_is C1 = where_is C"
    by (auto simp: where_is_def C1_def mark_class_def fun_eq_iff option.map_comp comp_def mark_parts)
  have clash: "is_ambiguous w" if "C j = Some v" "same_class hs (ht_mask t) k j" for j v
    using candidate_of [OF p(1) that] by (auto simp: w_def mark_parts)
  have m: "marked hs (ht_mask t) (C1(k \<mapsto> w))"
    unfolding marked_def
  proof (intro allI impI)
    fix i v j v'
    assume a: "(C1(k \<mapsto> w)) i = Some v" "(C1(k \<mapsto> w)) j = Some v'" "i \<noteq> j" "same_class hs (ht_mask t) i j"
    consider "i = k" | "j = k" "i \<noteq> k" | "i \<noteq> k" "j \<noteq> k" by blast
    then show "is_ambiguous v"
    proof cases
      case 1
      then show ?thesis using a clash by (auto simp: C1_def mark_class_def split: if_splits)
    next
      case 2
      then have "same_class hs (ht_mask t) k i" using a(4) by (auto simp: same_class_def)
      then show ?thesis using a 2 by (auto simp: C1_def mark_class_def mark_parts)
    next
      case 3
      then obtain u u' where "C i = Some u" "C j = Some u'" using a by (auto simp: C1_def mark_class_def split: if_splits)
      then have "is_ambiguous u" using p(2) a(3,4) by (auto simp: marked_def)
      then show ?thesis using a 3 \<open>C i = Some u\<close> by (auto simp: C1_def mark_class_def mark_parts split: if_splits)
    qed
  qed
  obtain q t2 where q1: "ht_place hs w (key_home hs (ht_mask t1) k) (key_alt hs (ht_mask t1) k) t1 = (q, t2)"
    by fastforce
  have "insert_new hs k a t = (case q of Inr _ \<Rightarrow> Inr () | Inl d \<Rightarrow> Inl (address_of d), t2)"
    using q1 by (simp only: insert_new_def locate_eq t1_def [unfolded Let_def, symmetric] w_def [symmetric] t1(2) Let_def prod.case)
  then have q: "ht_place hs w (key_home hs (ht_mask t1) k) (key_alt hs (ht_mask t1) k) t1 = (q, t')"
      "r = (case q of Inr _ \<Rightarrow> Inr () | Inl d \<Rightarrow> Inl (address_of d))"
    using assms(4) q1 by simp_all
  have st: "settled hs (C1(k \<mapsto> w)) q t'" "ht_mask t' = ht_mask t"
    using place_settles [OF t1(1) free w(1) q(1)] t1(2) by auto
  have gained: "where_is (C1(k \<mapsto> w)) = (where_is C)(k \<mapsto> a)" using where_is_upd [OF w(2)] same by simp
  show ?thesis
  proof (cases q)
    case (Inr u)
    then have "index_rep hs t' (C1(k \<mapsto> w))" using st m by (auto simp: settled_def index_rep_def)
    then show ?thesis using gained st(2) q(2) Inr by (intro exI [of _ "C1(k \<mapsto> w)"]) simp
  next
    case (Inl d)
    then obtain j pos' where j: "(C1(k \<mapsto> w)) j = Some d" "placed hs t' ((C1(k \<mapsto> w))(j := None)) pos'"
      using st(1) by (auto simp: settled_def simp del: fun_upd_apply)
    have "marked hs (ht_mask t) ((C1(k \<mapsto> w))(j := None))" using marked_del [OF m] .
    then have "index_rep hs t' ((C1(k \<mapsto> w))(j := None))" using j(2) st(2) unfolding index_rep_def by auto
    moreover have "((where_is C)(k \<mapsto> a)) j = Some (address_of d)"
      unfolding gained [symmetric] using j(1) by (simp add: where_is_def)
    moreover have "where_is ((C1(k \<mapsto> w))(j := None)) = ((where_is C)(k \<mapsto> a))(j := None)"
      unfolding gained [symmetric] by (rule where_is_del)
    moreover have "r = Inl (address_of d)" using q(2) Inl by simp
    ultimately show ?thesis using st(2) by (simp only: sum.case) blast
  qed
qed

context verifier
begin

lemma repoint_present:
  assumes "index_rep hs t C" "owned C" "C k = Some w" "J s" "addr_ok a"
  obtains t' s' w' where "repoint hs k a (verify k) t s = (True, t', s')" "index_rep hs t' (C(k \<mapsto> w'))"
    "address_of w' = a" "J s'" "ht_mask t' = ht_mask t"
proof -
  obtain pos where p: "placed hs t C pos" "marked hs (ht_mask t) C" using assms(1) by (auto simp: index_rep_def)
  obtain w' where "index_rep hs (redirect (pos k) a t) (C(k \<mapsto> w'))" "address_of w' = a"
      "ht_mask (redirect (pos k) a t) = ht_mask t"
    using redirect_rep [OF p assms(3,5)] .
  then show ?thesis
    using that [of "redirect (pos k) a t" "snd (ht_resolve hs t k (verify k) s)" w'] resolve_present [OF p assms(2-4)]
    by (auto simp: repoint_def split_beta)
qed

lemma repoint_absent:
  assumes "index_rep hs t C" "owned C" "C k = None" "\<not> stray hs (ht_mask t) C k" "J s"
  obtains s' where "repoint hs k a (verify k) t s = (False, t, s')" "J s'"
proof -
  obtain pos where p: "placed hs t C pos" using assms(1) by (auto simp: index_rep_def)
  show ?thesis
    using that [of "snd (ht_resolve hs t k (verify k) s)"] resolve_absent [OF p assms(2-5)]
    by (auto simp: repoint_def split_beta)
qed

text \<open>An address belongs to one record, so a comparison of addresses needs no reader.\<close>

lemma slot_at_exact:
  assumes "placed hs t C pos" "owned C" "owner a = Some k"
  shows "slot_at hs t k a = (if where_is C k = Some a then Some (pos k) else None)"
proof (cases "slot_at hs t k a")
  case None
  have "where_is C k \<noteq> Some a"
  proof
    assume "where_is C k = Some a"
    then obtain w where w: "C k = Some w" "address_of w = a" by (auto simp: where_is_def)
    then have "(a, pos k) \<in> set (candidates hs t k)" using candidate_of [OF assms(1) w(1) same_class_refl] by simp
    then have "pos k \<in> set (probe (key_home hs (ht_mask t) k) (key_alt hs (ht_mask t) k))"
      by (auto simp: candidates_eq [OF placed_shape [OF assms(1)]])
    moreover have "slot_word t (pos k) \<noteq> EMPTY \<and> address_of (slot_word t (pos k)) = a"
      using w placed_facts(1,5) [OF assms(1) w(1)] by simp
    ultimately show False using None unfolding slot_at_def locate_eq prod.case find_None_iff by blast
  qed
  then show ?thesis using None by simp
next
  case (Some at)
  have at: "in_table t at" using shape.slot_at_in_table [OF placed_shape [OF assms(1)] Some] .
  have "slot_word t at \<noteq> EMPTY" "address_of (slot_word t at) = a"
    using Some by (auto simp: slot_at_def locate_eq find_Some_iff)
  moreover obtain j where j: "C j = Some (slot_word t at)" "pos j = at"
    using placed_owner [OF assms(1) at calculation(1)] by blast
  ultimately have "j = k" using assms(2,3) unfolding owned_def by fastforce
  then show ?thesis using Some j \<open>address_of (slot_word t at) = a\<close> by (simp add: where_is_def)
qed

lemma points_at_exact:
  assumes "index_rep hs t C" "owned C" "owner a = Some k"
  shows "points_at hs t k a \<longleftrightarrow> where_is C k = Some a"
proof -
  obtain pos where "placed hs t C pos" using assms(1) by (auto simp: index_rep_def)
  then show ?thesis using slot_at_exact [OF _ assms(2,3)] by (simp add: points_at_def)
qed

lemma replace_exact:
  assumes "index_rep hs t C" "owned C" "owner old = Some k" "where_is C k = Some old" "addr_ok new"
  obtains t' w' where "ht_replace hs k old new t = (True, t')" "index_rep hs t' (C(k \<mapsto> w'))" "address_of w' = new"
    "ht_mask t' = ht_mask t"
proof -
  obtain pos where p: "placed hs t C pos" "marked hs (ht_mask t) C" using assms(1) by (auto simp: index_rep_def)
  obtain w where w: "C k = Some w" using assms(4) by (auto simp: where_is_def)
  obtain w' where "index_rep hs (redirect (pos k) new t) (C(k \<mapsto> w'))" "address_of w' = new"
      "ht_mask (redirect (pos k) new t) = ht_mask t"
    using redirect_rep [OF p w assms(5)] .
  then show ?thesis
    using that [of "redirect (pos k) new t" w'] slot_at_exact [OF p(1) assms(2,3)] assms(4)
    by (simp add: ht_replace_def)
qed

text \<open>A probe for a key the table does not have answers with a stray entry, whoever it belongs to.\<close>

lemma resolve_stray:
  assumes "placed hs t C pos" "marked hs (ht_mask t) C" "C j = Some w" "C k = None"
    and "same_class hs (ht_mask t) k j" "\<not> is_ambiguous w"
  shows "ht_resolve hs t k v s = (Some (pos j), s)"
proof -
  note sh = placed_shape [OF assms(1)]
  have only: "c = (address_of w, pos j)" if c: "c \<in> set (candidates hs t k)" for c
  proof -
    obtain i u where i: "C i = Some u" "c = (address_of u, pos i)" "same_class hs (ht_mask t) k i"
      using candidate_owner [OF assms(1) c] .
    have "i = j"
      using assms(2,3,5,6) i unfolding marked_def same_class_def by metis
    then show ?thesis using i assms(3) by simp
  qed
  have mem: "(address_of w, pos j) \<in> set (candidates hs t k)" using candidate_of [OF assms(1,3,5)] .
  have "distinct (candidates hs t k)"
    using alternate_distinct [of hs "ht_mask t" "key_home hs (ht_mask t) k" "key_fp hs k"]
    by (auto simp: candidates_eq [OF sh] distinct_map inj_on_def probe_def key_alt_def)
  then have "candidates hs t k = [(address_of w, pos j)]"
  proof (cases "candidates hs t k")
    case (Cons c cs)
    have "set cs \<subseteq> {c}" using only Cons by (metis list.set_intros(1,2) singletonI subsetI)
    then have "cs = []" using \<open>distinct (candidates hs t k)\<close> Cons by (cases cs) auto
    then show ?thesis using only Cons by (metis list.set_intros(1))
  qed (use mem in simp)
  then show ?thesis
    using assms(6) placed_facts(1) [OF assms(1,3)] by (simp add: ht_resolve_def ht_find_def)
qed

end

section \<open>What the index promises\<close>

text \<open>C18: inserting a new hold into the index either stores it, and then the index answers as before for every other
  hold and with the given address for this one, or names an address back: the address of exactly the one hold, old or
  new, the index then no longer has, every other hold keeping its answer.\<close>

theorem index_insert_stores_or_names_the_loss:
  assumes "index_rep hs t C" "C k = None" "addr_ok a" "insert_new hs k a t = (r, t')"
  shows "\<exists>C'. index_rep hs t' C' \<and>
    (case r of Inr _ \<Rightarrow> where_is C' = (where_is C)(k \<mapsto> a)
     | Inl d \<Rightarrow> \<exists>j. ((where_is C)(k \<mapsto> a)) j = Some d \<and> where_is C' = ((where_is C)(k \<mapsto> a))(j := None))"
  using insert_new_refines [OF assms] by blast

lemma index_insert_stores_or_names_the_loss_witness:
  "\<exists>r t' C'. insert_new mixing_hasher 7 (addr_new 3 1 2) (with_slots 8) = (r, t') \<and> index_rep mixing_hasher t' C'
    \<and> (case r of Inr _ \<Rightarrow> where_is C' 7 = Some (addr_new 3 1 2) | Inl d \<Rightarrow> d = addr_new 3 1 2)"
proof -
  obtain r t' where r: "insert_new mixing_hasher 7 (addr_new 3 1 2) (with_slots 8) = (r, t')" by fastforce
  have rep: "index_rep mixing_hasher (with_slots 8) (\<lambda>_. None)"
    using with_capacity_rep [of 8 mixing_hasher MAX_HOPS] by (simp add: with_slots_def)
  have "addr_ok (addr_new 3 1 2)" by (simp add: block_consts)
  from index_insert_stores_or_names_the_loss [OF rep refl this r]
  obtain C' where C': "index_rep mixing_hasher t' C'"
      "case r of Inr _ \<Rightarrow> where_is C' = (where_is (\<lambda>_. None))(7 \<mapsto> addr_new 3 1 2)
       | Inl d \<Rightarrow> \<exists>j. ((where_is (\<lambda>_. None))(7 \<mapsto> addr_new 3 1 2)) j = Some d
           \<and> where_is C' = ((where_is (\<lambda>_. None))(7 \<mapsto> addr_new 3 1 2))(j := None)" by blast
  have "case r of Inr _ \<Rightarrow> where_is C' 7 = Some (addr_new 3 1 2) | Inl d \<Rightarrow> d = addr_new 3 1 2"
    using C'(2) by (auto simp: where_is_def [of "\<lambda>_. None"] split: sum.splits if_splits)
  then show ?thesis using r C'(1) by blast
qed

text \<open>
  A removal naming a hold the index does not have takes an unmarked entry of the same fingerprint and buckets for it,
  without asking the reader: with a hasher that sends two keys to one class, removing the absent one removes the
  other's entry, although the reader says that the record there is not the absent key's.
\<close>

definition colliding_hasher :: Hasher where
  "colliding_hasher = \<lparr>hash_u128 = (\<lambda>_. 0), hash_u64 = (\<lambda>w. w)\<rparr>"

lemma absent_removal_takes_another_entry:
  "fst (ht_remove colliding_hasher 8 (\<lambda>_ s. (False, s)) (snd (insert_new colliding_hasher 7 (addr_new 3 1 2) (with_slots 8))) ())
     = Some (addr_new 3 1 2)"
  by code_simp

end
