(* ===== verification/Block_Store.thy ===== *)
theory Block_Store
  imports Records
begin

text \<open>
  The seam under the pending engine (\<open>pending/src/block.rs\<close>: \<open>VolumeStats\<close>, the trait \<open>DurableStore\<close>,
  \<open>MemoryStore\<close>). A trait object is a record of the trait's methods over the type of the store. What the
  log relies on is the locale \<open>exact_store\<close>: a store shows a view of what is on it, object by object and
  offset by offset, reads answer from that view, and writes, removals and renames change it as their names
  say. The memory store is interpreted as it.
\<close>

section \<open>What a volume counts\<close>

record VolumeStats =
  vs_reads_submitted :: nat
  vs_reads_answered :: nat
  vs_reads_inline :: nat
  vs_reads_cached :: nat
  vs_reads_joined :: nat
  vs_writes :: nat
  vs_barriers :: nat
  vs_removes :: nat
  vs_renames :: nat
  vs_bytes_written :: nat
  vs_reads_refused :: nat
  vs_writes_refused :: nat
  vs_read_depth_peak :: nat
  vs_write_depth_peak :: nat
  vs_faults :: nat

definition stats_default :: VolumeStats where
  "stats_default = \<lparr>vs_reads_submitted = 0, vs_reads_answered = 0, vs_reads_inline = 0, vs_reads_cached = 0,
     vs_reads_joined = 0, vs_writes = 0, vs_barriers = 0, vs_removes = 0, vs_renames = 0, vs_bytes_written = 0,
     vs_reads_refused = 0, vs_writes_refused = 0, vs_read_depth_peak = 0, vs_write_depth_peak = 0, vs_faults = 0\<rparr>"

definition took_read :: "nat \<Rightarrow> VolumeStats \<Rightarrow> VolumeStats" where
  "took_read depth v = v\<lparr>vs_reads_submitted := vs_reads_submitted v + 1,
     vs_read_depth_peak := max (vs_read_depth_peak v) depth\<rparr>"

definition count_fault :: "bool \<Rightarrow> VolumeStats \<Rightarrow> VolumeStats" where
  "count_fault ok v = (if ok then v else v\<lparr>vs_faults := vs_faults v + 1\<rparr>)"

definition answered_read :: "bool \<Rightarrow> VolumeStats \<Rightarrow> VolumeStats" where
  "answered_read ok v = count_fault ok (v\<lparr>vs_reads_answered := vs_reads_answered v + 1\<rparr>)"

definition took_write :: "nat \<Rightarrow> nat \<Rightarrow> VolumeStats \<Rightarrow> VolumeStats" where
  "took_write bytes depth v = v\<lparr>vs_writes := vs_writes v + 1, vs_bytes_written := vs_bytes_written v + bytes,
     vs_write_depth_peak := max (vs_write_depth_peak v) depth\<rparr>"

definition took_barrier :: "nat \<Rightarrow> VolumeStats \<Rightarrow> VolumeStats" where
  "took_barrier depth v = v\<lparr>vs_barriers := vs_barriers v + 1, vs_write_depth_peak := max (vs_write_depth_peak v) depth\<rparr>"

definition answered_write :: "bool \<Rightarrow> VolumeStats \<Rightarrow> VolumeStats" where
  "answered_write ok v = count_fault ok v"

definition stats_merge :: "VolumeStats \<Rightarrow> VolumeStats \<Rightarrow> VolumeStats" where
  "stats_merge a b =
     \<lparr>vs_reads_submitted = vs_reads_submitted a + vs_reads_submitted b,
      vs_reads_answered = vs_reads_answered a + vs_reads_answered b,
      vs_reads_inline = vs_reads_inline a + vs_reads_inline b,
      vs_reads_cached = vs_reads_cached a + vs_reads_cached b,
      vs_reads_joined = vs_reads_joined a + vs_reads_joined b,
      vs_writes = vs_writes a + vs_writes b,
      vs_barriers = vs_barriers a + vs_barriers b,
      vs_removes = vs_removes a + vs_removes b,
      vs_renames = vs_renames a + vs_renames b,
      vs_bytes_written = vs_bytes_written a + vs_bytes_written b,
      vs_reads_refused = vs_reads_refused a + vs_reads_refused b,
      vs_writes_refused = vs_writes_refused a + vs_writes_refused b,
      vs_read_depth_peak = max (vs_read_depth_peak a) (vs_read_depth_peak b),
      vs_write_depth_peak = max (vs_write_depth_peak a) (vs_write_depth_peak b),
      vs_faults = vs_faults a + vs_faults b\<rparr>"

section \<open>The trait\<close>

text \<open>A read that is answered comes with the block it was read into.\<close>

type_synonym Written = "StoreFault + unit"

record 's DurableStore =
  st_submit_write :: "u64 \<Rightarrow> ObjectId \<Rightarrow> nat \<Rightarrow> Block \<Rightarrow> bool \<Rightarrow> nat \<Rightarrow> 's \<Rightarrow> bool \<times> 's"
  st_submit_barrier :: "u64 \<Rightarrow> nat \<Rightarrow> 's \<Rightarrow> bool \<times> 's"
  st_poll_written :: "nat \<Rightarrow> 's \<Rightarrow> (u64 \<times> Written) option \<times> 's"
  st_writes_inflight :: "'s \<Rightarrow> nat"
  st_writes_are_queued :: "'s \<Rightarrow> bool"
  st_stats :: "'s \<Rightarrow> VolumeStats"
  st_read_at :: "ObjectId \<Rightarrow> nat \<Rightarrow> 's \<Rightarrow> (StoreFault + Block) \<times> 's"
  st_submit :: "u64 \<Rightarrow> ObjectId \<Rightarrow> nat \<Rightarrow> nat \<Rightarrow> 's \<Rightarrow> bool \<times> 's"
  st_poll :: "nat \<Rightarrow> 's \<Rightarrow> (StoreFault + u64 \<times> Block) option \<times> 's"
  st_inflight :: "'s \<Rightarrow> nat"
  st_take_charge :: "'s \<Rightarrow> nat \<times> 's"
  st_submit_remove :: "u64 \<Rightarrow> ObjectId \<Rightarrow> nat \<Rightarrow> 's \<Rightarrow> bool \<times> 's"
  st_submit_rename :: "u64 \<Rightarrow> ObjectId \<Rightarrow> ObjectId \<Rightarrow> nat \<Rightarrow> 's \<Rightarrow> bool \<times> 's"
  st_blocks_in :: "ObjectId \<Rightarrow> 's \<Rightarrow> nat \<times> 's"
  st_exists :: "ObjectId \<Rightarrow> 's \<Rightarrow> bool \<times> 's"

section \<open>Memory\<close>

record SegmentFile =
  sf_base :: nat
  sf_blocks :: "Block option list"

definition sf_at :: "SegmentFile \<Rightarrow> nat \<Rightarrow> Block option" where
  "sf_at f offset =
     (if offset < sf_base f then None
      else let i = (offset - sf_base f) div BLOCK_BYTES in
        if i < length (sf_blocks f) then sf_blocks f ! i else None)"

definition sf_end :: "SegmentFile \<Rightarrow> nat" where
  "sf_end f = sf_base f + length (sf_blocks f) * BLOCK_BYTES"

definition sf_put :: "nat \<Rightarrow> Block \<Rightarrow> SegmentFile \<Rightarrow> SegmentFile" where
  "sf_put offset block f =
     (let at = usize_sub offset (sf_base f) div BLOCK_BYTES in
      f\<lparr>sf_blocks := sf_blocks f @ replicate (at - length (sf_blocks f)) None @ [Some block]\<rparr>)"

record MemoryStore =
  mst_objects :: "SegmentFile option list"
  mst_submitted :: "(u64 \<times> ObjectId \<times> nat) list"
  mst_written :: "(u64 \<times> Written) list"
  mst_stats :: VolumeStats

definition memory_store :: MemoryStore where
  "memory_store = \<lparr>mst_objects = replicate OBJECT_VALUES None, mst_submitted = [], mst_written = [],
     mst_stats = stats_default\<rparr>"

definition block_at :: "MemoryStore \<Rightarrow> ObjectId \<Rightarrow> nat \<Rightarrow> StoreFault + Block" where
  "block_at s object offset = ok_or FaultMissing (Option.bind (mst_objects s ! object) (\<lambda>f. sf_at f offset))"

definition read_block :: "ObjectId \<Rightarrow> nat \<Rightarrow> MemoryStore \<Rightarrow> (StoreFault + Block) \<times> MemoryStore" where
  "read_block object offset s =
     (case block_at s object offset of
        Inr b \<Rightarrow> (Inr b, s)
      | Inl e \<Rightarrow> (Inl e, s\<lparr>mst_stats := (mst_stats s)\<lparr>vs_faults := vs_faults (mst_stats s) + 1\<rparr>\<rparr>))"

definition open_with :: "ObjectId \<Rightarrow> nat \<Rightarrow> Block \<Rightarrow> MemoryStore \<Rightarrow> Written \<times> MemoryStore" where
  "open_with object offset block s =
     (Inr (), s\<lparr>mst_objects := (mst_objects s)[object := Some \<lparr>sf_base = offset, sf_blocks = [Some block]\<rparr>]\<rparr>)"

definition store_append :: "ObjectId \<Rightarrow> nat \<Rightarrow> Block \<Rightarrow> MemoryStore \<Rightarrow> Written \<times> MemoryStore" where
  "store_append object offset block s =
     (case mst_objects s ! object of
        None \<Rightarrow> (Inl FaultMissing, s)
      | Some f \<Rightarrow> (Inr (), s\<lparr>mst_objects := (mst_objects s)[object := Some (sf_put offset block f)]\<rparr>))"

definition is_ok :: "'e + 'a \<Rightarrow> bool" where
  "is_ok r = (case r of Inl _ \<Rightarrow> False | Inr _ \<Rightarrow> True)"

definition answer_written :: "u64 \<Rightarrow> Written \<Rightarrow> MemoryStore \<Rightarrow> MemoryStore" where
  "answer_written handle outcome s = s\<lparr>mst_written := mst_written s @ [(handle, outcome)]\<rparr>"

definition mem_submit_write :: "u64 \<Rightarrow> ObjectId \<Rightarrow> nat \<Rightarrow> Block \<Rightarrow> bool \<Rightarrow> nat \<Rightarrow> MemoryStore \<Rightarrow> bool \<times> MemoryStore" where
  "mem_submit_write handle object offset block creating now s =
     (let (outcome, s1) = (if creating then open_with object offset block s else store_append object offset block s) in
      (True, answer_written handle outcome
         (s1\<lparr>mst_stats := answered_write (is_ok outcome)
           (took_write (length block) (length (mst_written s1) + 1) (mst_stats s1))\<rparr>)))"

definition mem_submit_barrier :: "u64 \<Rightarrow> nat \<Rightarrow> MemoryStore \<Rightarrow> bool \<times> MemoryStore" where
  "mem_submit_barrier handle now s =
     (True, answer_written handle (Inr ()) (s\<lparr>mst_stats := took_barrier (length (mst_written s) + 1) (mst_stats s)\<rparr>))"

definition mem_poll_written :: "nat \<Rightarrow> MemoryStore \<Rightarrow> (u64 \<times> Written) option \<times> MemoryStore" where
  "mem_poll_written now s =
     (case mst_written s of [] \<Rightarrow> (None, s) | w # ws \<Rightarrow> (Some w, s\<lparr>mst_written := ws\<rparr>))"

definition mem_read_at :: "ObjectId \<Rightarrow> nat \<Rightarrow> MemoryStore \<Rightarrow> (StoreFault + Block) \<times> MemoryStore" where
  "mem_read_at object offset s =
     read_block object offset (s\<lparr>mst_stats := (mst_stats s)\<lparr>vs_reads_inline := vs_reads_inline (mst_stats s) + 1\<rparr>\<rparr>)"

definition mem_submit :: "u64 \<Rightarrow> ObjectId \<Rightarrow> nat \<Rightarrow> nat \<Rightarrow> MemoryStore \<Rightarrow> bool \<times> MemoryStore" where
  "mem_submit handle object offset now s =
     (True, s\<lparr>mst_stats := took_read (length (mst_submitted s) + 1) (mst_stats s),
              mst_submitted := mst_submitted s @ [(handle, object, offset)]\<rparr>)"

definition mem_poll :: "nat \<Rightarrow> MemoryStore \<Rightarrow> (StoreFault + u64 \<times> Block) option \<times> MemoryStore" where
  "mem_poll now s =
     (case mst_submitted s of
        [] \<Rightarrow> (None, s)
      | (handle, object, offset) # rest \<Rightarrow>
          (let (r, s1) = read_block object offset (s\<lparr>mst_submitted := rest\<rparr>) in
           (Some (map_sum id (Pair handle) r), s1\<lparr>mst_stats := answered_read (is_ok r) (mst_stats s1)\<rparr>)))"

definition mem_submit_remove :: "u64 \<Rightarrow> ObjectId \<Rightarrow> nat \<Rightarrow> MemoryStore \<Rightarrow> bool \<times> MemoryStore" where
  "mem_submit_remove handle object now s =
     (True, answer_written handle (Inr ())
        (s\<lparr>mst_stats := (mst_stats s)\<lparr>vs_removes := vs_removes (mst_stats s) + 1\<rparr>,
           mst_objects := (mst_objects s)[object := None]\<rparr>))"

definition mem_submit_rename :: "u64 \<Rightarrow> ObjectId \<Rightarrow> ObjectId \<Rightarrow> nat \<Rightarrow> MemoryStore \<Rightarrow> bool \<times> MemoryStore" where
  "mem_submit_rename handle src dst now s =
     (let s1 = s\<lparr>mst_stats := (mst_stats s)\<lparr>vs_renames := vs_renames (mst_stats s) + 1\<rparr>\<rparr> in
      (True, case mst_objects s ! src of
         Some moved \<Rightarrow> answer_written handle (Inr ()) (s1\<lparr>mst_objects := (mst_objects s)[src := None, dst := Some moved]\<rparr>)
       | None \<Rightarrow> answer_written handle (Inl FaultMissing) s1))"

definition mem_blocks_in :: "ObjectId \<Rightarrow> MemoryStore \<Rightarrow> nat \<times> MemoryStore" where
  "mem_blocks_in object s =
     (case mst_objects s ! object of Some f \<Rightarrow> sf_end f div BLOCK_BYTES | None \<Rightarrow> 0, s)"

definition mem_exists :: "ObjectId \<Rightarrow> MemoryStore \<Rightarrow> bool \<times> MemoryStore" where
  "mem_exists object s = (mst_objects s ! object \<noteq> None, s)"

definition memory_ops :: "MemoryStore DurableStore" where
  "memory_ops =
     \<lparr>st_submit_write = mem_submit_write, st_submit_barrier = mem_submit_barrier, st_poll_written = mem_poll_written,
      st_writes_inflight = (\<lambda>s. length (mst_written s)), st_writes_are_queued = (\<lambda>_. False), st_stats = mst_stats,
      st_read_at = mem_read_at, st_submit = mem_submit, st_poll = mem_poll,
      st_inflight = (\<lambda>s. length (mst_submitted s)), st_take_charge = (\<lambda>s. (0, s)),
      st_submit_remove = mem_submit_remove, st_submit_rename = mem_submit_rename, st_blocks_in = mem_blocks_in,
      st_exists = mem_exists\<rparr>"

lemma failed_poll_counts_two_faults:
  "mst_submitted s = (handle, object, offset) # rest \<Longrightarrow> block_at s object offset = Inl fault \<Longrightarrow>
   vs_faults (mst_stats (snd (mem_poll now s))) = vs_faults (mst_stats s) + 2"
  by (simp add: mem_poll_def read_block_def block_at_def is_ok_def answered_read_def count_fault_def split: sum.splits)

section \<open>What the log relies on\<close>

text \<open>
  A store as its client sees it: the view is what a read of a block answers, \<open>reads\<close> the reads it has been
  given and \<open>writes\<close> the completions it has yet to hand over. An object is never rewritten: a block goes into
  an object nobody has, or past the last block of one that exists.
\<close>

type_synonym View = "ObjectId \<Rightarrow> nat \<Rightarrow> Block option"

definition view_write :: "ObjectId \<Rightarrow> nat \<Rightarrow> Block \<Rightarrow> bool \<Rightarrow> View \<Rightarrow> View" where
  "view_write obj n b creating v = v(obj := (if creating then Map.empty else v obj)(n \<mapsto> b))"

definition view_remove :: "ObjectId \<Rightarrow> View \<Rightarrow> View" where
  "view_remove obj v = v(obj := Map.empty)"

definition writable :: "View \<Rightarrow> ObjectId \<Rightarrow> nat \<Rightarrow> bool \<Rightarrow> bool" where
  "writable v obj n creating \<longleftrightarrow> creating \<or> v obj \<noteq> Map.empty \<and> (\<forall>m\<ge>n. v obj m = None)"

locale exact_store =
  fixes ops :: "'s DurableStore" and inv :: "'s \<Rightarrow> bool" and view :: "'s \<Rightarrow> View"
    and reads :: "'s \<Rightarrow> (u64 \<times> ObjectId \<times> nat) list" and writes :: "'s \<Rightarrow> (u64 \<times> Written) list"
  assumes read_law: "inv s \<Longrightarrow> obj < OBJECT_VALUES \<Longrightarrow> st_read_at ops obj (n * BLOCK_BYTES) s = (r, s') \<Longrightarrow>
      r = ok_or FaultMissing (view s obj n) \<and> inv s' \<and> view s' = view s \<and> reads s' = reads s \<and> writes s' = writes s"
    and write_law: "inv s \<Longrightarrow> obj < OBJECT_VALUES \<Longrightarrow> writable (view s) obj n creating \<Longrightarrow>
      st_submit_write ops h obj (n * BLOCK_BYTES) b creating now s = (ok, s') \<Longrightarrow>
      ok \<and> inv s' \<and> view s' = view_write obj n b creating (view s) \<and> reads s' = reads s \<and> writes s' = writes s @ [(h, Inr ())]"
    and barrier_law: "inv s \<Longrightarrow> st_submit_barrier ops h now s = (ok, s') \<Longrightarrow>
      ok \<and> inv s' \<and> view s' = view s \<and> reads s' = reads s \<and> writes s' = writes s @ [(h, Inr ())]"
    and remove_law: "inv s \<Longrightarrow> obj < OBJECT_VALUES \<Longrightarrow> st_submit_remove ops h obj now s = (ok, s') \<Longrightarrow>
      ok \<and> inv s' \<and> view s' = view_remove obj (view s) \<and> reads s' = reads s \<and> writes s' = writes s @ [(h, Inr ())]"
    and rename_law: "inv s \<Longrightarrow> src < OBJECT_VALUES \<Longrightarrow> dst < OBJECT_VALUES \<Longrightarrow> src \<noteq> dst \<Longrightarrow> view s src \<noteq> Map.empty \<Longrightarrow>
      st_submit_rename ops h src dst now s = (ok, s') \<Longrightarrow>
      ok \<and> inv s' \<and> view s' = (view s)(dst := view s src, src := Map.empty) \<and> reads s' = reads s
      \<and> writes s' = writes s @ [(h, Inr ())]"
    and written_law: "inv s \<Longrightarrow> st_poll_written ops now s = (w', s') \<Longrightarrow>
      inv s' \<and> view s' = view s \<and> reads s' = reads s
      \<and> (case writes s of [] \<Rightarrow> w' = None \<and> writes s' = [] | w # ws \<Rightarrow> w' = Some w \<and> writes s' = ws)"
    and submit_law: "inv s \<Longrightarrow> obj < OBJECT_VALUES \<Longrightarrow> st_submit ops h obj (n * BLOCK_BYTES) now s = (ok, s') \<Longrightarrow>
      ok \<and> inv s' \<and> view s' = view s \<and> reads s' = reads s @ [(h, obj, n)] \<and> writes s' = writes s"
    and poll_law: "inv s \<Longrightarrow> st_poll ops now s = (p', s') \<Longrightarrow>
      inv s' \<and> view s' = view s \<and> writes s' = writes s
      \<and> (case reads s of [] \<Rightarrow> p' = None \<and> reads s' = []
         | (h, obj, n) # rs \<Rightarrow> p' = Some (map_sum id (Pair h) (ok_or FaultMissing (view s obj n))) \<and> reads s' = rs)"
    and blocks_law: "inv s \<Longrightarrow> obj < OBJECT_VALUES \<Longrightarrow> st_blocks_in ops obj s = (n, s') \<Longrightarrow>
      inv s' \<and> view s' = view s \<and> reads s' = reads s \<and> writes s' = writes s \<and> (\<forall>m. view s obj m \<noteq> None \<longrightarrow> m < n)"

definition file_wf :: "SegmentFile \<Rightarrow> bool" where
  "file_wf f \<longleftrightarrow> BLOCK_BYTES dvd sf_base f \<and> sf_blocks f \<noteq> [] \<and> last (sf_blocks f) \<noteq> None"

definition store_wf :: "MemoryStore \<Rightarrow> bool" where
  "store_wf s \<longleftrightarrow> length (mst_objects s) = OBJECT_VALUES \<and> (\<forall>f. Some f \<in> set (mst_objects s) \<longrightarrow> file_wf f)
     \<and> (\<forall>(h, obj, offset)\<in>set (mst_submitted s). BLOCK_BYTES dvd offset \<and> obj < OBJECT_VALUES)"

definition file_view :: "SegmentFile \<Rightarrow> nat \<Rightarrow> Block option" where
  "file_view f n = sf_at f (n * BLOCK_BYTES)"

definition memory_view :: "MemoryStore \<Rightarrow> View" where
  "memory_view s obj n = (if obj < length (mst_objects s) then Option.bind (mst_objects s ! obj) (\<lambda>f. file_view f n) else None)"

definition memory_reads :: "MemoryStore \<Rightarrow> (u64 \<times> ObjectId \<times> nat) list" where
  "memory_reads s = map (\<lambda>(h, obj, offset). (h, obj, offset div BLOCK_BYTES)) (mst_submitted s)"

lemma file_view_eq:
  assumes "sf_base f = b * BLOCK_BYTES"
  shows "file_view f n = (if b \<le> n \<and> n - b < length (sf_blocks f) then sf_blocks f ! (n - b) else None)"
proof -
  have "n * 4096 - b * 4096 = (n - b) * 4096" by (simp add: diff_mult_distrib)
  then show ?thesis using assms by (auto simp: file_view_def sf_at_def Let_def block_consts)
qed

lemma file_put_view:
  assumes "file_wf f" "\<forall>m\<ge>n. file_view f m = None"
  shows "file_view (sf_put (n * BLOCK_BYTES) blk f) = (file_view f)(n \<mapsto> blk)" "file_wf (sf_put (n * BLOCK_BYTES) blk f)"
proof -
  obtain b where b: "sf_base f = b * BLOCK_BYTES"
    using assms(1) by (auto simp: file_wf_def dvd_def mult.commute)
  let ?l = "length (sf_blocks f)"
  have l: "0 < ?l" using assms(1) by (simp add: file_wf_def)
  have "file_view f (b + (?l - 1)) \<noteq> None"
    using assms(1) last_conv_nth [of "sf_blocks f"] by (simp add: file_view_eq [OF b] file_wf_def)
  then have "\<not> n \<le> b + (?l - 1)" using assms(2) by auto
  then have past: "b + ?l \<le> n" using l by linarith
  then have d: "usize_sub (n * BLOCK_BYTES) (sf_base f) div BLOCK_BYTES = n - b"
    by (simp add: b diff_mult_distrib [symmetric] block_consts)
  have base: "sf_base (sf_put (n * BLOCK_BYTES) blk f) = b * BLOCK_BYTES" by (simp add: sf_put_def Let_def b)
  have blocks: "sf_blocks (sf_put (n * BLOCK_BYTES) blk f) = sf_blocks f @ replicate (n - b - ?l) None @ [Some blk]"
    by (simp add: sf_put_def Let_def d)
  show "file_view (sf_put (n * BLOCK_BYTES) blk f) = (file_view f)(n \<mapsto> blk)"
    using past by (auto simp: fun_eq_iff file_view_eq [OF base] file_view_eq [OF b] blocks nth_append nth_Cons')
  show "file_wf (sf_put (n * BLOCK_BYTES) blk f)"
    using assms(1) by (simp add: file_wf_def base blocks)
qed

lemma memory_view_obj:
  "store_wf s \<Longrightarrow> obj < OBJECT_VALUES \<Longrightarrow> memory_view s obj n = Option.bind (mst_objects s ! obj) (\<lambda>f. file_view f n)"
  by (simp add: memory_view_def store_wf_def)

lemma file_nonempty: "file_wf f \<Longrightarrow> file_view f \<noteq> Map.empty"
proof -
  assume f: "file_wf f"
  obtain b where b: "sf_base f = b * BLOCK_BYTES" using f by (auto simp: file_wf_def dvd_def mult.commute)
  have "file_view f (b + (length (sf_blocks f) - 1)) \<noteq> None"
    using f last_conv_nth [of "sf_blocks f"] by (simp add: file_view_eq [OF b] file_wf_def)
  then show ?thesis by metis
qed

lemma update_objects:
  assumes "store_wf s" "obj < OBJECT_VALUES" "\<And>f. x = Some f \<Longrightarrow> file_wf f"
  shows "store_wf (s\<lparr>mst_objects := (mst_objects s)[obj := x]\<rparr>)"
    and "memory_view (s\<lparr>mst_objects := (mst_objects s)[obj := x]\<rparr>) =
      (memory_view s)(obj := (\<lambda>n. Option.bind x (\<lambda>f. file_view f n)))"
  using assms by (auto simp: store_wf_def memory_view_def fun_eq_iff nth_list_update
      dest!: set_update_subset_insert [THEN subsetD])

lemma stats_irrelevant [simp]:
  "store_wf (s\<lparr>mst_stats := x\<rparr>) = store_wf s" "memory_view (s\<lparr>mst_stats := x\<rparr>) = memory_view s"
  "store_wf (s\<lparr>mst_written := ws\<rparr>) = store_wf s" "memory_view (s\<lparr>mst_written := ws\<rparr>) = memory_view s"
  "memory_view (s\<lparr>mst_submitted := rs\<rparr>) = memory_view s"
  "store_wf (s\<lparr>mst_stats := x, mst_objects := os\<rparr>) = store_wf (s\<lparr>mst_objects := os\<rparr>)"
  "memory_view (s\<lparr>mst_stats := x, mst_objects := os\<rparr>) = memory_view (s\<lparr>mst_objects := os\<rparr>)"
  by (simp_all add: store_wf_def memory_view_def fun_eq_iff)

lemma memory_reads_irrelevant [simp]:
  "memory_reads (s\<lparr>mst_stats := x\<rparr>) = memory_reads s" "memory_reads (s\<lparr>mst_written := ws\<rparr>) = memory_reads s"
  "memory_reads (s\<lparr>mst_objects := objs\<rparr>) = memory_reads s"
  by (simp_all add: memory_reads_def)

lemma read_block_view:
  assumes "store_wf s" "obj < OBJECT_VALUES" "read_block obj (n * BLOCK_BYTES) s = (r, s')"
  shows "r = ok_or FaultMissing (memory_view s obj n) \<and> store_wf s' \<and> memory_view s' = memory_view s
    \<and> memory_reads s' = memory_reads s \<and> mst_written s' = mst_written s"
proof -
  have "block_at s obj (n * BLOCK_BYTES) = ok_or FaultMissing (memory_view s obj n)"
    by (simp add: block_at_def memory_view_obj [OF assms(1,2)] file_view_def)
  then show ?thesis
    using assms(1,3) by (cases "memory_view s obj n") (auto simp: read_block_def)
qed

lemma memory_write_law:
  assumes "store_wf s" "obj < OBJECT_VALUES" "writable (memory_view s) obj n creating"
    and "mem_submit_write h obj (n * BLOCK_BYTES) b creating now s = (ok, s')"
  shows "ok \<and> store_wf s' \<and> memory_view s' = view_write obj n b creating (memory_view s)
    \<and> memory_reads s' = memory_reads s \<and> mst_written s' = mst_written s @ [(h, Inr ())]"
proof (cases creating)
  case True
  let ?f = "\<lparr>sf_base = n * BLOCK_BYTES, sf_blocks = [Some b]\<rparr>"
  have "file_view ?f = [n \<mapsto> b]" by (auto simp: fun_eq_iff file_view_eq [of ?f n])
  moreover have "file_wf ?f" by (simp add: file_wf_def)
  ultimately show ?thesis
    using update_objects [OF assms(1,2), of "Some ?f"] assms(4) True
    by (auto simp: mem_submit_write_def open_with_def answer_written_def view_write_def fun_upd_def)
next
  case False
  then obtain f where f: "mst_objects s ! obj = Some f"
    using assms(3) memory_view_obj [OF assms(1,2)] by (cases "mst_objects s ! obj") (auto simp: writable_def fun_eq_iff)
  have v: "memory_view s obj = file_view f" using memory_view_obj [OF assms(1,2)] f by (simp add: fun_eq_iff)
  have "file_wf f" using assms(1,2) f by (metis nth_mem store_wf_def)
  then have "file_view (sf_put (n * BLOCK_BYTES) b f) = (file_view f)(n \<mapsto> b)" "file_wf (sf_put (n * BLOCK_BYTES) b f)"
    using file_put_view [of f n b] assms(3) False by (auto simp: writable_def v)
  then show ?thesis
    using update_objects [OF assms(1,2), of "Some (sf_put (n * BLOCK_BYTES) b f)"] assms(4) False f v
    by (auto simp: mem_submit_write_def store_append_def answer_written_def view_write_def is_ok_def fun_upd_def)
qed

lemma memory_rename_law:
  assumes "store_wf s" "src < OBJECT_VALUES" "dst < OBJECT_VALUES" "src \<noteq> dst" "memory_view s src \<noteq> Map.empty"
    and "mem_submit_rename h src dst now s = (ok, s')"
  shows "ok \<and> store_wf s' \<and> memory_view s' = (memory_view s)(dst := memory_view s src, src := Map.empty)
    \<and> memory_reads s' = memory_reads s \<and> mst_written s' = mst_written s @ [(h, Inr ())]"
proof -
  obtain f where f: "mst_objects s ! src = Some f"
    using assms(5) memory_view_obj [OF assms(1,2)] by (cases "mst_objects s ! src") (auto simp: fun_eq_iff)
  have v: "memory_view s src = file_view f" using memory_view_obj [OF assms(1,2)] f by (simp add: fun_eq_iff)
  have wf: "file_wf f" using assms(1,2) f by (metis nth_mem store_wf_def)
  let ?s0 = "s\<lparr>mst_stats := (mst_stats s)\<lparr>vs_renames := vs_renames (mst_stats s) + 1\<rparr>\<rparr>"
  let ?s = "?s0\<lparr>mst_objects := (mst_objects ?s0)[src := None]\<rparr>"
  have one: "store_wf ?s" "memory_view ?s = (memory_view s)(src := Map.empty)"
    using update_objects [OF assms(1,2), of None] by simp_all
  have two: "store_wf (?s\<lparr>mst_objects := (mst_objects ?s)[dst := Some f]\<rparr>)"
      "memory_view (?s\<lparr>mst_objects := (mst_objects ?s)[dst := Some f]\<rparr>) = (memory_view ?s)(dst := file_view f)"
    using update_objects [OF one(1) assms(3), of "Some f"] wf by auto
  have eq: "s' = answer_written h (Inr ()) (?s\<lparr>mst_objects := (mst_objects ?s)[dst := Some f]\<rparr>)" "ok"
    using assms(6) f by (auto simp: mem_submit_rename_def)
  have "memory_view s' = (memory_view s)(src := Map.empty, dst := file_view f)"
    using two(2) one(2) by (simp add: eq(1) answer_written_def)
  moreover have "store_wf s'" using two(1) by (simp add: eq(1) answer_written_def)
  ultimately show ?thesis
    using eq assms(4) v by (auto simp: answer_written_def fun_upd_twist)
qed

lemma memory_poll_law:
  assumes "store_wf s" "mem_poll now s = (r, s')"
  shows "store_wf s' \<and> memory_view s' = memory_view s \<and> mst_written s' = mst_written s
    \<and> (case memory_reads s of [] \<Rightarrow> r = None \<and> memory_reads s' = []
       | (h, obj, n) # rs \<Rightarrow> r = Some (map_sum id (Pair h) (ok_or FaultMissing (memory_view s obj n))) \<and> memory_reads s' = rs)"
proof (cases "mst_submitted s")
  case Nil
  then show ?thesis using assms by (auto simp: mem_poll_def memory_reads_def)
next
  case (Cons q rest)
  obtain h obj offset where q: "q = (h, obj, offset)" by (cases q)
  then obtain n where n: "offset = n * BLOCK_BYTES" "obj < OBJECT_VALUES"
    using assms(1) Cons by (auto simp: store_wf_def dvd_def mult.commute)
  let ?s = "s\<lparr>mst_submitted := rest\<rparr>"
  have wf: "store_wf ?s" using assms(1) Cons by (auto simp: store_wf_def)
  obtain r1 s1 where rb: "read_block obj (n * BLOCK_BYTES) ?s = (r1, s1)" by fastforce
  have "memory_reads s = (h, obj, n) # memory_reads ?s"
    using Cons q n by (simp add: memory_reads_def block_consts)
  then show ?thesis
    using read_block_view [OF wf n(2) rb] assms(2) Cons q n rb by (auto simp: mem_poll_def)
qed

lemma memory_blocks_law:
  assumes "store_wf s" "obj < OBJECT_VALUES" "memory_view s obj m \<noteq> None"
  shows "m < (case mst_objects s ! obj of Some f \<Rightarrow> sf_end f div BLOCK_BYTES | None \<Rightarrow> 0)"
proof -
  obtain f where f: "mst_objects s ! obj = Some f"
    using assms(3) by (cases "mst_objects s ! obj") (simp_all add: memory_view_obj [OF assms(1,2)])
  then have wf: "file_wf f" using assms(1,2) by (metis nth_mem store_wf_def)
  then obtain b where b: "sf_base f = b * BLOCK_BYTES" by (auto simp: file_wf_def dvd_def mult.commute)
  then have "sf_end f = (b + length (sf_blocks f)) * BLOCK_BYTES" by (simp add: sf_end_def add_mult_distrib)
  then have "sf_end f div BLOCK_BYTES = b + length (sf_blocks f)" by (simp add: block_consts)
  moreover have "m < b + length (sf_blocks f)"
    using assms(3) f by (auto simp: memory_view_obj [OF assms(1,2)] file_view_eq [OF b] split: if_splits)
  ultimately show ?thesis using f by simp
qed

interpretation memory: exact_store memory_ops store_wf memory_view memory_reads mst_written
proof unfold_locales
  fix s s' :: MemoryStore and obj src dst :: ObjectId and n :: nat and r and creating h b now ok w' p'
  note simps = memory_ops_def answer_written_def
  { assume wf: "store_wf s"
    { assume "obj < OBJECT_VALUES" "st_read_at memory_ops obj (n * BLOCK_BYTES) s = (r, s')"
      then show "r = ok_or FaultMissing (memory_view s obj n) \<and> store_wf s' \<and> memory_view s' = memory_view s
          \<and> memory_reads s' = memory_reads s \<and> mst_written s' = mst_written s"
        using read_block_view [of "s\<lparr>mst_stats := (mst_stats s)\<lparr>vs_reads_inline := vs_reads_inline (mst_stats s) + 1\<rparr>\<rparr>"] wf
        by (fastforce simp: simps mem_read_at_def)
    next
      assume "obj < OBJECT_VALUES" "writable (memory_view s) obj n creating"
        "st_submit_write memory_ops h obj (n * BLOCK_BYTES) b creating now s = (ok, s')"
      then show "ok \<and> store_wf s' \<and> memory_view s' = view_write obj n b creating (memory_view s)
          \<and> memory_reads s' = memory_reads s \<and> mst_written s' = mst_written s @ [(h, Inr ())]"
        by (intro memory_write_law [OF wf]) (simp_all add: simps)
    next
      assume "st_submit_barrier memory_ops h now s = (ok, s')"
      then show "ok \<and> store_wf s' \<and> memory_view s' = memory_view s \<and> memory_reads s' = memory_reads s
          \<and> mst_written s' = mst_written s @ [(h, Inr ())]"
        using wf by (auto simp: simps mem_submit_barrier_def)
    next
      assume "obj < OBJECT_VALUES" "st_submit_remove memory_ops h obj now s = (ok, s')"
      then show "ok \<and> store_wf s' \<and> memory_view s' = view_remove obj (memory_view s) \<and> memory_reads s' = memory_reads s
          \<and> mst_written s' = mst_written s @ [(h, Inr ())]"
        using update_objects [OF wf, of obj None] by (auto simp: simps mem_submit_remove_def view_remove_def)
    next
      assume "src < OBJECT_VALUES" "dst < OBJECT_VALUES" "src \<noteq> dst" "memory_view s src \<noteq> Map.empty"
        "st_submit_rename memory_ops h src dst now s = (ok, s')"
      then show "ok \<and> store_wf s' \<and> memory_view s' = (memory_view s)(dst := memory_view s src, src := Map.empty)
          \<and> memory_reads s' = memory_reads s \<and> mst_written s' = mst_written s @ [(h, Inr ())]"
        by (intro memory_rename_law [OF wf]) (simp_all add: simps)
    next
      assume "st_poll_written memory_ops now s = (w', s')"
      then show "store_wf s' \<and> memory_view s' = memory_view s \<and> memory_reads s' = memory_reads s
          \<and> (case mst_written s of [] \<Rightarrow> w' = None \<and> mst_written s' = [] | w # ws \<Rightarrow> w' = Some w \<and> mst_written s' = ws)"
        using wf by (auto simp: simps mem_poll_written_def split: list.splits)
    next
      assume "obj < OBJECT_VALUES" "st_submit memory_ops h obj (n * BLOCK_BYTES) now s = (ok, s')"
      then show "ok \<and> store_wf s' \<and> memory_view s' = memory_view s \<and> memory_reads s' = memory_reads s @ [(h, obj, n)]
          \<and> mst_written s' = mst_written s"
        using wf by (auto simp: simps mem_submit_def store_wf_def memory_reads_def block_consts)
    next
      assume "st_poll memory_ops now s = (p', s')"
      then show "store_wf s' \<and> memory_view s' = memory_view s \<and> mst_written s' = mst_written s
          \<and> (case memory_reads s of [] \<Rightarrow> p' = None \<and> memory_reads s' = []
             | (h, obj, n) # rs \<Rightarrow> p' = Some (map_sum id (Pair h) (ok_or FaultMissing (memory_view s obj n))) \<and> memory_reads s' = rs)"
        by (intro memory_poll_law [OF wf]) (simp add: simps)
    next
      assume "obj < OBJECT_VALUES" "st_blocks_in memory_ops obj s = (n, s')"
      then show "store_wf s' \<and> memory_view s' = memory_view s \<and> memory_reads s' = memory_reads s \<and> mst_written s' = mst_written s
          \<and> (\<forall>m. memory_view s obj m \<noteq> None \<longrightarrow> m < n)"
        using wf memory_blocks_law by (auto simp: simps mem_blocks_in_def)
    } }
qed

end
