(* ===== verification/Record_Log.thy ===== *)
theory Record_Log
  imports Block_Store
begin

text \<open>
  The append-only log of hold records (\<open>RecordLog\<close> of \<open>pending/src/block.rs\<close>): a writeback buffer of recent
  blocks, the block survivors are packed into, the residency window of closed blocks, the queue of writes and
  removals owed to the volume, barriers, the reads in flight and the days' block ranges. The log is over any
  store, given as the record of the trait's methods. Counters and block numbers are natural numbers; an address
  still truncates a block number to its thirty-five bits. A panic is \<open>None\<close>. A callback the source calls per
  record is the list of records it is called with.
\<close>

section \<open>State\<close>

record BlockRange =
  br_first :: nat
  br_blocks :: nat

definition range_default :: BlockRange where
  "range_default = \<lparr>br_first = 0, br_blocks = 0\<rparr>"

definition range_note :: "nat \<Rightarrow> BlockRange \<Rightarrow> BlockRange" where
  "range_note block r = \<lparr>br_first = (if br_blocks r = 0 then block else br_first r), br_blocks = br_blocks r + 1\<rparr>"

definition range_block_at :: "BlockRange \<Rightarrow> nat \<Rightarrow> nat option" where
  "range_block_at r at = (if at < br_blocks r then Some (br_first r + at) else None)"

record Unwritten =
  uw_block :: nat
  uw_segment :: u8
  uw_opening :: bool

datatype Owed = OwedBlock Unwritten | OwedFree u8

record 's RecordLog =
  rl_store :: 's
  rl_buffer :: "Filling list"
  rl_oldest :: nat
  rl_flush_blocks :: nat
  rl_store_open :: Filling
  rl_resident :: "Filling list"
  rl_oldest_resident :: nat
  rl_resident_blocks :: nat
  rl_spare :: "Filling list"
  rl_pending_writes :: "Owed list"
  rl_submitted_writes :: "(u64 \<times> Owed) list"
  rl_barrier :: "u64 option"
  rl_after_barrier :: "(nat \<times> ApplyIndex) option"
  rl_write_handles :: nat
  rl_foreign :: "(u64 \<times> Written) list"
  rl_segment :: u8
  rl_days :: "BlockRange list"
  rl_next_block :: nat
  rl_unsynced :: "(nat \<times> ApplyIndex) option"
  rl_scratch :: Block
  rl_fetching :: "(u64 \<times> RecordAddr) list"
  rl_sweeping_blocks :: "(u64 \<times> u8 \<times> nat) list"
  rl_sweep_handles :: nat
  rl_appended :: nat
  rl_died_in_buffer :: nat
  rl_carried_on :: nat
  rl_freed :: nat
  rl_faults :: nat
  rl_corruptions :: nat
  rl_fault_owed :: bool
  rl_left_memory :: nat
  rl_buffer_reads :: nat
  rl_resident_reads :: nat
  rl_store_reads :: nat
  rl_apply_store_reads :: nat

definition DEFAULT_FLUSH_BLOCKS :: nat where "DEFAULT_FLUSH_BLOCKS = 1024"
definition DEFAULT_RESIDENT_BLOCKS :: nat where "DEFAULT_RESIDENT_BLOCKS = 4096"

definition log_new :: "'s \<Rightarrow> nat \<Rightarrow> nat \<Rightarrow> 's RecordLog" where
  "log_new store flush_blocks resident_blocks =
     \<lparr>rl_store = store, rl_buffer = [filling_new], rl_oldest = 0, rl_flush_blocks = max flush_blocks 1,
      rl_store_open = filling_new, rl_resident = [], rl_oldest_resident = 0, rl_resident_blocks = resident_blocks,
      rl_spare = [], rl_pending_writes = [], rl_submitted_writes = [], rl_barrier = None, rl_after_barrier = None,
      rl_write_handles = 0, rl_foreign = [], rl_segment = 0, rl_days = replicate SEGMENT_VALUES range_default,
      rl_next_block = 0, rl_unsynced = None, rl_scratch = block_zeroed, rl_fetching = [], rl_sweeping_blocks = [],
      rl_sweep_handles = 0, rl_appended = 0, rl_died_in_buffer = 0, rl_carried_on = 0, rl_freed = 0, rl_faults = 0,
      rl_corruptions = 0, rl_fault_owed = False, rl_left_memory = 0, rl_buffer_reads = 0, rl_resident_reads = 0,
      rl_store_reads = 0, rl_apply_store_reads = 0\<rparr>"

section \<open>Writing\<close>

definition log_append :: "TxId \<Rightarrow> HoldData \<Rightarrow> ApplyIndex \<Rightarrow> 's RecordLog \<Rightarrow> (RecordAddr \<times> 's RecordLog) option" where
  "log_append key hold at l =
     (let buffer = (if rl_buffer l \<noteq> [] \<and> filling_full (last (rl_buffer l)) then rl_buffer l @ [filling_new]
                    else rl_buffer l);
          ordinal = rl_oldest l + length buffer - 1 in
      if buffer = [] then None
      else do {
        (index, filled) \<leftarrow> filling_put_at key hold at (last buffer);
        Some (addr_buffered (word_of_nat ordinal) (word_of_nat index),
              l\<lparr>rl_buffer := butlast buffer @ [filled], rl_appended := rl_appended l + 1\<rparr>)
      })"

definition buffered_blocks :: "'s RecordLog \<Rightarrow> nat" where
  "buffered_blocks l = length (rl_buffer l)"

definition over_window :: "'s RecordLog \<Rightarrow> bool" where
  "over_window l \<longleftrightarrow> rl_flush_blocks l < length (rl_buffer l)"

definition log_day :: "'s RecordLog \<Rightarrow> u8 \<Rightarrow> BlockRange" where
  "log_day l segment = rl_days l ! unat segment"

definition free_segment :: "u8 \<Rightarrow> 's RecordLog \<Rightarrow> nat \<times> 's RecordLog" where
  "free_segment segment l =
     (let freed = br_blocks (log_day l segment) in
      (freed, l\<lparr>rl_pending_writes := rl_pending_writes l @ [OwedFree segment], rl_freed := rl_freed l + freed,
                rl_days := (rl_days l)[unat segment := range_default]\<rparr>))"

definition note_fault :: "'s RecordLog \<Rightarrow> 's RecordLog" where
  "note_fault l = l\<lparr>rl_faults := rl_faults l + 1, rl_fault_owed := True\<rparr>"

definition scratch_intact :: "(u8 list \<Rightarrow> u32) \<Rightarrow> 's RecordLog \<Rightarrow> bool \<times> 's RecordLog" where
  "scratch_intact crc l =
     (if block_intact crc (rl_scratch l) then (True, l)
      else (False, l\<lparr>rl_corruptions := rl_corruptions l + 1, rl_fault_owed := True\<rparr>))"

definition take_fault :: "'s RecordLog \<Rightarrow> bool \<times> 's RecordLog" where
  "take_fault l = (rl_fault_owed l, l\<lparr>rl_fault_owed := False\<rparr>)"

definition get_or_insert :: "'a \<Rightarrow> 'a option \<Rightarrow> 'a option" where
  "get_or_insert x y = (case y of None \<Rightarrow> Some x | Some _ \<Rightarrow> y)"

definition seal_block :: "(u8 list \<Rightarrow> u32) \<Rightarrow> 's RecordLog \<Rightarrow> 's RecordLog" where
  "seal_block crc l =
     (let closed = (rl_store_open l)\<lparr>fl_bytes := block_stamp crc (fl_bytes (rl_store_open l))\<rparr>;
          opening = br_blocks (log_day l (rl_segment l)) = 0;
          first = (rl_next_block l, fl_began_at (rl_store_open l));
          fresh = (if rl_spare l = [] then filling_new else last (rl_spare l)) in
      l\<lparr>rl_after_barrier := (if rl_barrier l \<noteq> None then get_or_insert first (rl_after_barrier l) else rl_after_barrier l),
        rl_unsynced := (if rl_barrier l \<noteq> None then rl_unsynced l else get_or_insert first (rl_unsynced l)),
        rl_days := (rl_days l)[unat (rl_segment l) := range_note (rl_next_block l) (log_day l (rl_segment l))],
        rl_spare := butlast (rl_spare l),
        rl_store_open := fresh\<lparr>fl_filled := 0\<rparr>,
        rl_resident := rl_resident l @ [closed],
        rl_pending_writes := rl_pending_writes l @
          [OwedBlock \<lparr>uw_block = rl_next_block l, uw_segment = rl_segment l, uw_opening = opening\<rparr>],
        rl_next_block := rl_next_block l + 1\<rparr>)"

definition log_keep :: "(u8 list \<Rightarrow> u32) \<Rightarrow> TxId \<Rightarrow> HoldData \<Rightarrow> ApplyIndex \<Rightarrow> 's RecordLog
    \<Rightarrow> (RecordAddr \<times> 's RecordLog) option" where
  "log_keep crc key hold began l =
     (let l1 = (if filling_full (rl_store_open l) then seal_block crc l else l) in
      do {
        (index, filled) \<leftarrow> filling_put_at key hold began (rl_store_open l1);
        Some (addr_new (rl_segment l1) (word_of_nat (rl_next_block l1)) (word_of_nat index),
              l1\<lparr>rl_store_open := filled, rl_carried_on := rl_carried_on l1 + 1\<rparr>)
      })"

definition log_open_day :: "(u8 list \<Rightarrow> u32) \<Rightarrow> nat \<Rightarrow> 's RecordLog \<Rightarrow> 's RecordLog" where
  "log_open_day crc day l =
     (let segment = word_of_nat (day mod SEGMENTS) in
      if segment = rl_segment l then l
      else (if 0 < fl_filled (rl_store_open l) then seal_block crc l else l)\<lparr>rl_segment := segment\<rparr>)"

definition oldest_block :: "'s RecordLog \<Rightarrow> (TxId \<times> HoldData \<times> RecordAddr) list" where
  "oldest_block l =
     (case rl_buffer l of
        [] \<Rightarrow> []
      | f # _ \<Rightarrow> List.map_filter (\<lambda>index. map_option (\<lambda>(key, hold).
             (key, hold, addr_buffered (word_of_nat (rl_oldest l)) (word_of_nat index))) (filling_get index f))
           [0..<RECORDS_PER_BLOCK])"

definition oldest_began_at :: "'s RecordLog \<Rightarrow> ApplyIndex" where
  "oldest_began_at l = (case rl_buffer l of [] \<Rightarrow> 0 | f # _ \<Rightarrow> fl_began_at f)"

definition drop_oldest :: "nat \<Rightarrow> 's RecordLog \<Rightarrow> 's RecordLog" where
  "drop_oldest died l =
     (if 1 < length (rl_buffer l)
      then l\<lparr>rl_buffer := tl (rl_buffer l), rl_oldest := rl_oldest l + 1, rl_died_in_buffer := rl_died_in_buffer l + died\<rparr>
      else l)"

section \<open>The volume\<close>

text \<open>\<open>submit_writes\<close> offers what is owed, oldest first, and stops where the volume does.\<close>

definition resident_at :: "'s RecordLog \<Rightarrow> nat \<Rightarrow> Filling option" where
  "resident_at l block =
     (if block < rl_oldest_resident l then None
      else if block - rl_oldest_resident l < length (rl_resident l) then Some (rl_resident l ! (block - rl_oldest_resident l))
      else None)"

definition submit_owed :: "'s DurableStore \<Rightarrow> nat \<Rightarrow> Owed \<Rightarrow> 's RecordLog \<Rightarrow> bool \<times> 's RecordLog" where
  "submit_owed ops now owed l =
     (let handle = io_handle OwnBlocks (word_of_nat (rl_write_handles l + 1)) in
      case owed of
        OwedBlock u \<Rightarrow>
          (case resident_at l (uw_block u) of
             None \<Rightarrow> (False, l)
           | Some held \<Rightarrow>
               (let (taken, s) = st_submit_write ops handle (object_segment (uw_segment u))
                      (unat (block_offset (addr_new (uw_segment u) (word_of_nat (uw_block u)) 0)))
                      (fl_bytes held) (uw_opening u) now (rl_store l) in (taken, l\<lparr>rl_store := s\<rparr>)))
      | OwedFree segment \<Rightarrow>
          (let (taken, s) = st_submit_remove ops handle (object_segment segment) now (rl_store l) in
           (taken, l\<lparr>rl_store := s\<rparr>)))"

definition owed_taken :: "Owed \<Rightarrow> 's RecordLog \<Rightarrow> 's RecordLog" where
  "owed_taken owed l =
     l\<lparr>rl_write_handles := rl_write_handles l + 1, rl_pending_writes := tl (rl_pending_writes l),
       rl_submitted_writes := rl_submitted_writes l @
         [(io_handle OwnBlocks (word_of_nat (rl_write_handles l + 1)), owed)]\<rparr>"

lemma submit_owed_pending [simp]: "rl_pending_writes (snd (submit_owed ops now owed l)) = rl_pending_writes l"
  by (simp add: submit_owed_def Let_def split: Owed.split option.split prod.split)

function submit_writes :: "'s DurableStore \<Rightarrow> nat \<Rightarrow> 's RecordLog \<Rightarrow> bool \<times> 's RecordLog" where
  "submit_writes ops now l =
     (case rl_pending_writes l of
        [] \<Rightarrow> (False, l)
      | owed # _ \<Rightarrow>
          (let (taken, l1) = submit_owed ops now owed l in
           if taken then (True, snd (submit_writes ops now (owed_taken owed l1))) else (False, l1)))"
  by auto
termination
proof (relation "measure (\<lambda>(_, _, l). length (rl_pending_writes l))", goal_cases)
  case (2 ops now l owed rest sub taken l1)
  then have "rl_pending_writes l1 = rl_pending_writes l" using submit_owed_pending [of ops now owed l] by (metis snd_conv)
  then show ?case using 2 by (simp add: owed_taken_def)
qed simp

definition log_sync :: "'s DurableStore \<Rightarrow> nat \<Rightarrow> 's RecordLog \<Rightarrow> bool \<times> 's RecordLog" where
  "log_sync ops now l0 =
     (let l = snd (submit_writes ops now l0) in
      if rl_unsynced l = None \<or> rl_barrier l \<noteq> None then (False, l)
      else
        let handle = io_handle OwnBlocks (word_of_nat (rl_write_handles l + 1));
            (taken, s) = st_submit_barrier ops handle now (rl_store l) in
        if taken then (True, l\<lparr>rl_store := s, rl_write_handles := rl_write_handles l + 1, rl_barrier := Some handle\<rparr>)
        else (False, l\<lparr>rl_store := s\<rparr>))"

definition writes_outstanding :: "'s RecordLog \<Rightarrow> nat" where
  "writes_outstanding l = length (rl_pending_writes l) + length (rl_submitted_writes l)"

fun owes_block :: "nat \<Rightarrow> Owed \<Rightarrow> bool" where
  "owes_block block (OwedBlock u) \<longleftrightarrow> uw_block u = block"
| "owes_block block (OwedFree _) \<longleftrightarrow> False"

definition held_by_write :: "'s RecordLog \<Rightarrow> nat \<Rightarrow> bool" where
  "held_by_write l block \<longleftrightarrow>
     list_ex (\<lambda>w. owes_block block (snd w)) (rl_submitted_writes l) \<or> list_ex (owes_block block) (rl_pending_writes l)"

function trim_residency :: "'s RecordLog \<Rightarrow> 's RecordLog" where
  "trim_residency l =
     (if rl_resident_blocks l < length (rl_resident l) \<and> \<not> held_by_write l (rl_oldest_resident l)
      then case rl_resident l of
        [] \<Rightarrow> l
      | dropped # rest \<Rightarrow>
          trim_residency (l\<lparr>rl_resident := rest, rl_left_memory := rl_left_memory l + fl_filled dropped,
            rl_oldest_resident := rl_oldest_resident l + 1, rl_spare := rl_spare l @ [dropped\<lparr>fl_filled := 0\<rparr>]\<rparr>)
      else l)"
  by auto
termination by (relation "measure (\<lambda>l. length (rl_resident l))") auto

declare submit_writes.simps [simp del] trim_residency.simps [simp del]

text \<open>One completion.\<close>

definition barrier_answered :: "Written \<Rightarrow> 's RecordLog \<Rightarrow> 's RecordLog" where
  "barrier_answered outcome l =
     (case outcome of
        Inr _ \<Rightarrow> l\<lparr>rl_barrier := None, rl_unsynced := rl_after_barrier l, rl_after_barrier := None\<rparr>
      | Inl _ \<Rightarrow> note_fault (l\<lparr>rl_barrier := None, rl_after_barrier := None,
          rl_unsynced := (if rl_unsynced l = None then rl_after_barrier l else rl_unsynced l)\<rparr>))"

definition write_answered :: "u64 \<Rightarrow> Written \<Rightarrow> 's RecordLog \<Rightarrow> 's RecordLog" where
  "write_answered handle outcome l =
     (case List.find (\<lambda>i. fst (rl_submitted_writes l ! i) = handle) [0..<length (rl_submitted_writes l)] of
        None \<Rightarrow> l
      | Some at \<Rightarrow>
          (let l1 = l\<lparr>rl_submitted_writes := take at (rl_submitted_writes l) @ drop (Suc at) (rl_submitted_writes l)\<rparr> in
           if is_ok outcome then l1 else note_fault l1))"

definition take_completion :: "u64 \<times> Written \<Rightarrow> 's RecordLog \<Rightarrow> 's RecordLog" where
  "take_completion w l =
     (case w of (handle, outcome) \<Rightarrow>
        if \<not> io_owns OwnBlocks handle then l\<lparr>rl_foreign := rl_foreign l @ [(handle, outcome)]\<rparr>
        else if rl_barrier l = Some handle then barrier_answered outcome l
        else write_answered handle outcome l)"

partial_function (option) collect_loop :: "'s DurableStore \<Rightarrow> nat \<Rightarrow> bool \<Rightarrow> 's RecordLog \<Rightarrow> (bool \<times> 's RecordLog) option" where
  [code]: "collect_loop ops now any l =
     (case st_poll_written ops now (rl_store l) of
        (None, s) \<Rightarrow> Some (any, l\<lparr>rl_store := s\<rparr>)
      | (Some w, s) \<Rightarrow> collect_loop ops now True (take_completion w (l\<lparr>rl_store := s\<rparr>)))"

definition collect_writes :: "'s DurableStore \<Rightarrow> nat \<Rightarrow> 's RecordLog \<Rightarrow> (bool \<times> 's RecordLog) option" where
  "collect_writes ops now l = map_option (map_prod id trim_residency) (collect_loop ops now False l)"

definition take_foreign :: "'s RecordLog \<Rightarrow> (u64 \<times> Written) option \<times> 's RecordLog" where
  "take_foreign l =
     (case rl_foreign l of [] \<Rightarrow> (None, l) | w # ws \<Rightarrow> (Some w, l\<lparr>rl_foreign := ws\<rparr>))"

definition take_store_charge :: "'s DurableStore \<Rightarrow> 's RecordLog \<Rightarrow> nat \<times> 's RecordLog" where
  "take_store_charge ops l = (let (charge, s) = st_take_charge ops (rl_store l) in (charge, l\<lparr>rl_store := s\<rparr>))"

section \<open>Coverage\<close>

definition durable_through :: "'s RecordLog \<Rightarrow> ApplyIndex \<Rightarrow> ApplyIndex" where
  "durable_through l applied_through =
     (case rl_unsynced l of
        Some (_, began_at) \<Rightarrow> began_at - 1
      | None \<Rightarrow>
          (case List.find (\<lambda>f. 0 < fl_filled f)
                  [rl_store_open l, case rl_buffer l of [] \<Rightarrow> rl_store_open l | f # _ \<Rightarrow> f] of
             Some f \<Rightarrow> fl_began_at f - 1
           | None \<Rightarrow> applied_through))"

definition is_durable :: "'s RecordLog \<Rightarrow> RecordAddr \<Rightarrow> bool" where
  "is_durable l addr \<longleftrightarrow>
     \<not> is_buffered addr \<and>
     unat (addr_block addr) < (case rl_unsynced l of Some (first, _) \<Rightarrow> first | None \<Rightarrow> rl_next_block l)"

definition blocks_in_day :: "'s RecordLog \<Rightarrow> u8 \<Rightarrow> nat" where
  "blocks_in_day l segment = br_blocks (log_day l segment)"

section \<open>Reading\<close>

definition try_read :: "RecordAddr \<Rightarrow> 's RecordLog \<Rightarrow> (TxId \<times> HoldData) option \<times> 's RecordLog" where
  "try_read addr l =
     (let index = unat (addr_index addr); block = unat (addr_block addr) in
      if is_buffered addr then
        (if block < rl_oldest l \<or> length (rl_buffer l) \<le> block - rl_oldest l then None
         else filling_get index (rl_buffer l ! (block - rl_oldest l)),
         l\<lparr>rl_buffer_reads := rl_buffer_reads l + 1\<rparr>)
      else if block = rl_next_block l then
        (filling_get index (rl_store_open l), l\<lparr>rl_buffer_reads := rl_buffer_reads l + 1\<rparr>)
      else
        (case resident_at l block of
           None \<Rightarrow> (None, l)
         | Some f \<Rightarrow> (filling_get index f, l\<lparr>rl_resident_reads := rl_resident_reads l + 1\<rparr>)))"

definition read_from_store :: "(u8 list \<Rightarrow> u32) \<Rightarrow> 's DurableStore \<Rightarrow> RecordAddr \<Rightarrow> 's RecordLog
    \<Rightarrow> (TxId \<times> HoldData) option \<times> 's RecordLog" where
  "read_from_store crc ops addr l0 =
     (let l = l0\<lparr>rl_store_reads := rl_store_reads l0 + 1\<rparr>;
          (r, s) = st_read_at ops (object_segment (addr_segment addr)) (unat (block_offset addr)) (rl_store l);
          l1 = l\<lparr>rl_store := s\<rparr> in
      case r of
        Inl _ \<Rightarrow> (None, note_fault l1)
      | Inr b \<Rightarrow>
          (let (intact, l2) = scratch_intact crc (l1\<lparr>rl_scratch := b\<rparr>) in
           (if intact then Some (record_at (rl_scratch l2) (unat (addr_index addr))) else None, l2)))"

definition log_read :: "(u8 list \<Rightarrow> u32) \<Rightarrow> 's DurableStore \<Rightarrow> RecordAddr \<Rightarrow> 's RecordLog
    \<Rightarrow> (TxId \<times> HoldData) option \<times> 's RecordLog" where
  "log_read crc ops addr l =
     (case try_read addr l of
        (Some r, l1) \<Rightarrow> (Some r, l1)
      | (None, l1) \<Rightarrow> read_from_store crc ops addr (l1\<lparr>rl_apply_store_reads := rl_apply_store_reads l1 + 1\<rparr>))"

definition log_fetch :: "'s DurableStore \<Rightarrow> u64 \<Rightarrow> RecordAddr \<Rightarrow> nat \<Rightarrow> 's RecordLog \<Rightarrow> bool \<times> 's RecordLog" where
  "log_fetch ops handle addr now l =
     (let (taken, s) = st_submit ops handle (object_segment (addr_segment addr)) (unat (block_offset addr)) now (rl_store l) in
      if taken then (True, l\<lparr>rl_store := s, rl_fetching := AList.update handle addr (rl_fetching l)\<rparr>)
      else (False, l\<lparr>rl_store := s\<rparr>))"

definition visit_scratch :: "'s RecordLog \<Rightarrow> u8 \<Rightarrow> nat \<Rightarrow> (TxId \<times> HoldData \<times> RecordAddr) list" where
  "visit_scratch l segment block =
     filter (\<lambda>(key, _). \<not> is_absent key)
       (map (\<lambda>index. (fst (record_at (rl_scratch l) index), snd (record_at (rl_scratch l) index),
                       addr_new segment (word_of_nat block) (word_of_nat index))) [0..<RECORDS_PER_BLOCK])"

definition log_harvest :: "(u8 list \<Rightarrow> u32) \<Rightarrow> 's DurableStore \<Rightarrow> nat \<Rightarrow> 's RecordLog
    \<Rightarrow> (u64 \<times> RecordAddr \<times> TxId \<times> HoldData) option \<times> (TxId \<times> HoldData \<times> RecordAddr) list \<times> 's RecordLog" where
  "log_harvest crc ops now l0 =
     (let (completed, s) = st_poll ops now (rl_store l0); l = l0\<lparr>rl_store := s\<rparr> in
      case completed of
        None \<Rightarrow> (None, [], l)
      | Some (Inl _) \<Rightarrow> (None, [], (note_fault l)\<lparr>rl_sweeping_blocks := []\<rparr>)
      | Some (Inr (handle, b)) \<Rightarrow>
          (let (intact, l1) = scratch_intact crc (l\<lparr>rl_scratch := b\<rparr>) in
           if \<not> intact then (None, [], l1\<lparr>rl_sweeping_blocks := AList.delete handle (rl_sweeping_blocks l1)\<rparr>)
           else
             let l2 = l1\<lparr>rl_store_reads := rl_store_reads l1 + 1\<rparr> in
             if io_owns OwnSweep handle then
               (None, case map_of (rl_sweeping_blocks l2) handle of
                        Some (segment, block) \<Rightarrow> visit_scratch l2 segment block | None \<Rightarrow> [],
                l2\<lparr>rl_sweeping_blocks := AList.delete handle (rl_sweeping_blocks l2)\<rparr>)
             else
               (map_option (\<lambda>addr. (handle, addr, record_at (rl_scratch l2) (unat (addr_index addr))))
                  (map_of (rl_fetching l2) handle), [],
                l2\<lparr>rl_fetching := AList.delete handle (rl_fetching l2)\<rparr>)))"

definition sweeping_blocks :: "'s RecordLog \<Rightarrow> nat" where
  "sweeping_blocks l = length (rl_sweeping_blocks l)"

datatype Walked = Visited | Asked | WalkBusy | WalkEnd

definition walk_day_block :: "'s DurableStore \<Rightarrow> u8 \<Rightarrow> nat \<Rightarrow> nat \<Rightarrow> 's RecordLog
    \<Rightarrow> Walked \<times> (TxId \<times> HoldData \<times> RecordAddr) list \<times> 's RecordLog" where
  "walk_day_block ops segment at now l =
     (case range_block_at (log_day l segment) at of
        None \<Rightarrow> (WalkEnd, [], l)
      | Some block \<Rightarrow>
          (case resident_at l block of
             Some held \<Rightarrow>
               (Visited, map (\<lambda>index. (fst (record_at (fl_bytes held) index), snd (record_at (fl_bytes held) index),
                    addr_new segment (word_of_nat block) (word_of_nat index))) [0..<fl_filled held], l)
           | None \<Rightarrow>
               (let handle = io_handle OwnSweep (word_of_nat (rl_sweep_handles l + 1));
                    (taken, s) = st_submit ops handle (object_segment segment) (block * BLOCK_BYTES) now (rl_store l) in
                if taken then
                  (Asked, [], l\<lparr>rl_store := s, rl_sweep_handles := rl_sweep_handles l + 1,
                     rl_sweeping_blocks := AList.update handle (segment, block) (rl_sweeping_blocks l)\<rparr>)
                else (WalkBusy, [], l\<lparr>rl_store := s\<rparr>))))"

section \<open>Restart\<close>

definition reconcile_segment :: "'s DurableStore \<Rightarrow> (u8 \<times> nat \<times> nat) list \<Rightarrow> nat
    \<Rightarrow> u8 list \<times> 's RecordLog \<Rightarrow> u8 list \<times> 's RecordLog" where
  "reconcile_segment ops live segment acc =
     (let (orphans, l) = acc;
          (blocks, s) = st_blocks_in ops segment (rl_store l);
          l1 = l\<lparr>rl_store := s, rl_next_block := max (rl_next_block l) blocks\<rparr> in
      case List.find (\<lambda>(at, _). unat at = segment) live of
        Some (_, first, final) \<Rightarrow>
          (orphans, l1\<lparr>rl_days := (rl_days l1)[segment := \<lparr>br_first = first, br_blocks = final - first + 1\<rparr>]\<rparr>)
      | None \<Rightarrow> (if 0 < blocks then orphans @ [word_of_nat segment] else orphans, l1))"

definition log_reconcile :: "'s DurableStore \<Rightarrow> (u8 \<times> nat \<times> nat) list \<Rightarrow> 's RecordLog \<Rightarrow> u8 list \<times> 's RecordLog" where
  "log_reconcile ops live l0 =
     (let (orphans, l) = fold (reconcile_segment ops live) [0..<SEGMENT_VALUES] ([], l0) in
      (orphans, l\<lparr>rl_oldest_resident := rl_next_block l\<rparr>))"

definition log_blocks :: "'s RecordLog \<Rightarrow> nat \<times> nat \<times> nat" where
  "log_blocks l =
     (length (rl_buffer l), length (rl_resident l) + (if 0 < fl_filled (rl_store_open l) then 1 else 0),
      sum_list (map br_blocks (rl_days l)))"

section \<open>Blocks that came back changed\<close>

text \<open>The reads the log makes of its volume: one that waits, one begun for a lookup, one begun for a sweep of a day, and
  the harvest of a read that has come back.\<close>

datatype LogRead =
    ReadNow RecordAddr
  | BeginFetch u64 RecordAddr nat
  | BeginSweep u8 nat nat
  | HarvestRead nat

text \<open>The addresses a read that comes back was begun for: the lookup's, or every address of the block being swept.\<close>

definition asked_under :: "u64 \<Rightarrow> 's RecordLog \<Rightarrow> RecordAddr list" where
  "asked_under handle l =
     (if io_owns OwnSweep handle
      then (case map_of (rl_sweeping_blocks l) handle of
              None \<Rightarrow> []
            | Some (segment, block) \<Rightarrow> map (\<lambda>i. addr_new segment (word_of_nat block) (word_of_nat i)) [0..<RECORDS_PER_BLOCK])
      else (case map_of (rl_fetching l) handle of None \<Rightarrow> [] | Some a \<Rightarrow> [a]))"

text \<open>What the volume answers to a read: a refusal, or a block, here with the addresses it was asked for and whether a
  sweep asked.\<close>

type_synonym VolumeAnswer = "StoreFault + RecordAddr list \<times> bool \<times> Block"

definition volume_answer :: "'s DurableStore \<Rightarrow> LogRead \<Rightarrow> 's RecordLog \<Rightarrow> VolumeAnswer list" where
  "volume_answer ops step l =
     (case step of
        ReadNow a \<Rightarrow>
          (case fst (st_read_at ops (object_segment (addr_segment a)) (unat (block_offset a)) (rl_store l)) of
             Inl fault \<Rightarrow> [Inl fault] | Inr b \<Rightarrow> [Inr ([a], False, b)])
      | HarvestRead now \<Rightarrow>
          (case fst (st_poll ops now (rl_store l)) of
             None \<Rightarrow> []
           | Some (Inl fault) \<Rightarrow> [Inl fault]
           | Some (Inr (handle, b)) \<Rightarrow> [Inr (asked_under handle l, io_owns OwnSweep handle, b)])
      | _ \<Rightarrow> [])"

text \<open>What a read hands to the engine: records, each with its address.\<close>

definition read_step :: "(u8 list \<Rightarrow> u32) \<Rightarrow> 's DurableStore \<Rightarrow> LogRead \<Rightarrow> 's RecordLog
    \<Rightarrow> (RecordAddr \<times> TxId \<times> HoldData) list \<times> 's RecordLog" where
  "read_step crc ops step l =
     (case step of
        ReadNow a \<Rightarrow>
          (let (r, l') = read_from_store crc ops a l in (case r of None \<Rightarrow> [] | Some x \<Rightarrow> [(a, x)], l'))
      | BeginFetch handle a now \<Rightarrow> ([], snd (log_fetch ops handle a now l))
      | BeginSweep segment at now \<Rightarrow> ([], snd (snd (walk_day_block ops segment at now l)))
      | HarvestRead now \<Rightarrow>
          (let (found, visited, l') = log_harvest crc ops now l in
           ((case found of None \<Rightarrow> [] | Some (_, a, x) \<Rightarrow> [(a, x)]) @ map (\<lambda>(key, hold, a). (a, key, hold)) visited, l')))"

fun read_run :: "(u8 list \<Rightarrow> u32) \<Rightarrow> 's DurableStore \<Rightarrow> LogRead list \<Rightarrow> 's RecordLog
    \<Rightarrow> (RecordAddr \<times> TxId \<times> HoldData) list \<times> VolumeAnswer list \<times> 's RecordLog" where
  "read_run crc ops [] l = ([], [], l)"
| "read_run crc ops (step # steps) l =
     (let (handed, l1) = read_step crc ops step l; (later, answers, l') = read_run crc ops steps l1 in
      (handed @ later, volume_answer ops step l @ answers, l'))"

text \<open>What may be made of an answer: the records an intact block holds at the addresses it was asked for, a sweep
  passing over the empty ones, and of anything else nothing.\<close>

definition decodable :: "(u8 list \<Rightarrow> u32) \<Rightarrow> VolumeAnswer \<Rightarrow> (RecordAddr \<times> TxId \<times> HoldData) list" where
  "decodable crc answer =
     (case answer of
        Inl _ \<Rightarrow> []
      | Inr (addresses, swept, b) \<Rightarrow>
          if block_intact crc b
          then filter (\<lambda>(_, key, _). swept \<longrightarrow> \<not> is_absent key)
                 (map (\<lambda>a. (a, record_at b (unat (addr_index a)))) addresses)
          else [])"

fun refusal :: "VolumeAnswer \<Rightarrow> bool" where
  "refusal (Inl _) = True" | "refusal (Inr _) = False"

fun damaged :: "(u8 list \<Rightarrow> u32) \<Rightarrow> VolumeAnswer \<Rightarrow> bool" where
  "damaged crc (Inl _) = False" | "damaged crc (Inr (_, _, b)) = (\<not> block_intact crc b)"

lemma addr_index_new: "unat index < 2 ^ INDEX_BITS \<Longrightarrow> addr_index (addr_new segment block index) = index"
  using small_word_bits [of index 6]
  by (intro bit_word_eqI) (auto simp: addr_defs block_consts bit_simps bit_masks)

lemma swept_records:
  "map (\<lambda>(key, hold, a). (a, key, hold)) (visit_scratch l segment block) =
     filter (\<lambda>(_, key, _). \<not> is_absent key)
       (map (\<lambda>a. (a, record_at (rl_scratch l) (unat (addr_index a))))
         (map (\<lambda>i. addr_new segment (word_of_nat block) (word_of_nat i)) [0..<RECORDS_PER_BLOCK]))"
proof -
  have i: "unat (addr_index (addr_new segment (word_of_nat block) (word_of_nat i))) = i" if "i < RECORDS_PER_BLOCK" for i
    using that by (subst addr_index_new) (simp_all add: block_consts unsigned_of_nat take_bit_nat_eq_self)
  have same: "map (\<lambda>(key, hold, a). (a, key, hold)) (filter (\<lambda>(key, _). \<not> is_absent key) (map g is)) =
      filter (\<lambda>(_, key, _). \<not> is_absent key) (map f is)"
    if "\<And>i. i \<in> set is \<Longrightarrow> f i = (\<lambda>(key, hold, a). (a, key, hold)) (g i)"
    for f :: "nat \<Rightarrow> RecordAddr \<times> TxId \<times> HoldData" and g "is"
    using that by (induction "is") (auto split: prod.splits)
  show ?thesis unfolding visit_scratch_def map_map o_def by (rule same) (simp add: i)
qed

lemma read_step_decodes:
  assumes "read_step crc ops step l = (handed, l')"
  shows "handed = concat (map (decodable crc) (volume_answer ops step l))
    \<and> rl_corruptions l' = rl_corruptions l + length (filter (damaged crc) (volume_answer ops step l))
    \<and> rl_faults l' = rl_faults l + length (filter refusal (volume_answer ops step l))
    \<and> (rl_fault_owed l' \<longleftrightarrow> rl_fault_owed l \<or> (\<exists>x \<in> set (volume_answer ops step l). refusal x \<or> damaged crc x))"
proof (cases step)
  case (ReadNow a)
  then show ?thesis using assms
    by (auto simp: read_step_def volume_answer_def decodable_def read_from_store_def scratch_intact_def note_fault_def Let_def
        split: sum.split prod.splits)
next
  case (HarvestRead now)
  obtain polled s where polled: "st_poll ops now (rl_store l) = (polled, s)" by force
  note now = HarvestRead polled
  show ?thesis
  proof (cases polled)
    case None
    then show ?thesis using assms now by (auto simp: read_step_def volume_answer_def log_harvest_def)
  next
    case (Some answer)
    show ?thesis
    proof (cases answer)
      case (Inl fault)
      then show ?thesis using assms now Some
        by (simp add: read_step_def volume_answer_def log_harvest_def note_fault_def decodable_def) force
    next
      case (Inr found)
      obtain handle b where found: "found = (handle, b)" by force
      show ?thesis
      proof (cases "block_intact crc b")
        case False
        then show ?thesis using assms now Some Inr found
          by (simp add: read_step_def volume_answer_def log_harvest_def scratch_intact_def decodable_def) force
      next
        case True
        note all = assms now Some Inr found True
        show ?thesis
        proof (cases "io_owns OwnSweep handle")
          case True
          show ?thesis
          proof (cases "map_of (rl_sweeping_blocks l) handle")
            case None
            then show ?thesis using all True
              by (simp add: read_step_def volume_answer_def log_harvest_def scratch_intact_def decodable_def asked_under_def) force
          next
            case (Some place)
            obtain segment block where place: "place = (segment, block)" by force
            show ?thesis using all True Some
              by (simp add: place read_step_def volume_answer_def log_harvest_def scratch_intact_def decodable_def
                  asked_under_def swept_records Let_def) (force simp: o_def)
          qed
        next
          case False
          show ?thesis
          proof (cases "map_of (rl_fetching l) handle")
            case None
            then show ?thesis using all False
              by (simp add: read_step_def volume_answer_def log_harvest_def scratch_intact_def decodable_def asked_under_def) force
          next
            case (Some a)
            then show ?thesis using all False
              by (simp add: read_step_def volume_answer_def log_harvest_def scratch_intact_def decodable_def asked_under_def) force
          qed
        qed
      qed
    qed
  qed
qed (use assms in \<open>auto simp: read_step_def volume_answer_def log_fetch_def walk_day_block_def Let_def
      split: prod.splits option.splits if_splits\<close>)

text \<open>C30: a block the volume returned is never decoded unless its checksum holds. Over any volume, and any sequence of
  reads made at once, reads begun for lookups, reads begun for sweeps and harvests, the records the log hands over are
  those, in order, that the intact blocks among the volume's answers hold at the addresses they were asked for, a sweep
  passing over empty places; a refusal or a damaged block gives none. Every refusal is counted as a fault, every damaged
  block as a corruption, and the fault owed to whoever seals the node is latched exactly when there was one of either.\<close>

theorem damaged_block_is_never_decoded:
  "case read_run crc ops steps l of (handed, answers, l') \<Rightarrow>
     handed = concat (map (decodable crc) answers)
   \<and> rl_corruptions l' = rl_corruptions l + length (filter (damaged crc) answers)
   \<and> rl_faults l' = rl_faults l + length (filter refusal answers)
   \<and> (rl_fault_owed l' \<longleftrightarrow> rl_fault_owed l \<or> (\<exists>x. x \<in> set answers \<and> (refusal x \<or> damaged crc x)))"
proof (induction steps arbitrary: l)
  case (Cons step steps)
  obtain handed l1 where s: "read_step crc ops step l = (handed, l1)" by force
  obtain later answers l' where r: "read_run crc ops steps l1 = (later, answers, l')" by (metis prod_cases3)
  show ?case using read_step_decodes [OF s] Cons [of l1] by (auto simp: s r)
qed simp

end
