(* ===== verification/Log_Records.thy ===== *)
theory Log_Records
  imports Record_Log
begin

text \<open>
  What the log promises: a record that was written is read back at the address it was given, wherever it has
  moved to, until its block is compacted away or its day is handed back. The argument rests on the queue of
  owed work: \<open>after_owed\<close> is the volume as it will be once the log has issued everything it owes, and neither
  issuing it nor collecting completions changes that. A closed block that is not resident has been issued, so a
  read that misses memory finds it on the volume.
\<close>

section \<open>Addresses of blocks\<close>

lemma block_offset_nat: "unat (block_offset a) = unat (addr_block a) * BLOCK_BYTES"
proof -
  have "addr_block a = take_bit 35 (addr_block a)"
    by (auto simp: word_eq_bits addr_block_def bit_simps bit_masks)
  then have "unat (addr_block a) < 2 ^ 35" by (metis take_bit_nat_less_exp unsigned_take_bit_eq)
  then have "unat (addr_block a) * unat (4096 :: u64) < 2 ^ LENGTH(64)" by simp
  then have "unat (addr_block a * 4096) = unat (addr_block a) * unat (4096 :: u64)"
    by (simp only: unat_mult_lem)
  then show ?thesis by (simp add: block_offset_def BLOCK_BYTES_def)
qed

lemma block_offset_addr:
  assumes "unat segment < SEGMENT_VALUES" "n < 2 ^ BLOCK_BITS" "unat index < 2 ^ INDEX_BITS"
  shows "unat (block_offset (addr_new segment (word_of_nat n) index)) = n * BLOCK_BYTES"
proof -
  have n: "unat (word_of_nat n :: u64) = n"
    using assms(2) by (simp add: unsigned_of_nat take_bit_nat_eq_self block_consts)
  then show ?thesis
    using addr_parts(2) [of segment "word_of_nat n" index] assms by (simp add: block_offset_nat)
qed

section \<open>The volume once everything owed is issued\<close>

type_synonym History = "nat \<Rightarrow> (u8 \<times> Filling) option"

fun owed_apply :: "History \<Rightarrow> Owed \<Rightarrow> View \<Rightarrow> View" where
  "owed_apply hist (OwedBlock u) v =
     view_write (unat (uw_segment u)) (uw_block u) (fl_bytes (snd (the (hist (uw_block u))))) (uw_opening u) v"
| "owed_apply hist (OwedFree s) v = view_remove (unat s) v"

fun owed_ok :: "History \<Rightarrow> View \<Rightarrow> Owed list \<Rightarrow> bool" where
  "owed_ok hist v [] \<longleftrightarrow> True"
| "owed_ok hist v (OwedBlock u # ps) \<longleftrightarrow>
     writable v (unat (uw_segment u)) (uw_block u) (uw_opening u) \<and> owed_ok hist (owed_apply hist (OwedBlock u) v) ps"
| "owed_ok hist v (OwedFree s # ps) \<longleftrightarrow> unat s < SEGMENT_VALUES \<and> owed_ok hist (view_remove (unat s) v) ps"

definition owed_view :: "History \<Rightarrow> Owed list \<Rightarrow> View \<Rightarrow> View" where
  "owed_view hist ps v = fold (owed_apply hist) ps v"

lemma owed_view_simps [simp]:
  "owed_view hist [] v = v" "owed_view hist (p # ps) v = owed_view hist ps (owed_apply hist p v)"
  "owed_view hist (ps @ qs) v = owed_view hist qs (owed_view hist ps v)"
  by (simp_all add: owed_view_def)

lemma owed_ok_append: "owed_ok hist v (ps @ qs) \<longleftrightarrow> owed_ok hist v ps \<and> owed_ok hist (owed_view hist ps v) qs"
  by (induction hist v ps rule: owed_ok.induct) auto

text \<open>Only a note for a block puts that block on the volume.\<close>

lemma owed_view_source:
  "owed_view hist ps v s n = Some b \<Longrightarrow> \<not> list_ex (owes_block n) ps \<Longrightarrow> v s n = Some b"
proof (induction ps arbitrary: v)
  case (Cons p ps)
  then have "owed_apply hist p v s n = Some b" by simp
  then show ?case using Cons.prems(2) by (cases p) (auto simp: view_write_def view_remove_def split: if_splits)
qed simp

lemma owed_cong:
  assumes "\<And>n. list_ex (owes_block n) ps \<Longrightarrow> hist n = hist' n"
  shows "owed_view hist ps v = owed_view hist' ps v" "owed_ok hist v ps = owed_ok hist' v ps"
proof -
  have "owed_view hist ps v = owed_view hist' ps v \<and> owed_ok hist v ps = owed_ok hist' v ps"
    using assms
  proof (induction ps arbitrary: v)
    case (Cons p ps)
    have "owed_apply hist p w = owed_apply hist' p w" for w using Cons.prems [of _] by (cases p) auto
    moreover have "list_ex (owes_block n) ps \<Longrightarrow> hist n = hist' n" for n using Cons.prems [of n] by simp
    ultimately show ?case using Cons.IH by (cases p) auto
  qed simp
  then show "owed_view hist ps v = owed_view hist' ps v" "owed_ok hist v ps = owed_ok hist' v ps" by blast+
qed

section \<open>The invariant\<close>

definition shelf_ok :: "(u8 list \<Rightarrow> u32) \<Rightarrow> History \<Rightarrow> 's RecordLog \<Rightarrow> bool" where
  "shelf_ok crc hist l \<longleftrightarrow>
     rl_buffer l \<noteq> [] \<and> (\<forall>f\<in>set (rl_buffer l). filling_wf f) \<and> filling_wf (rl_store_open l)
     \<and> (\<forall>f\<in>set (rl_spare l). block_wf (fl_bytes f))
     \<and> (\<forall>n. hist n \<noteq> None \<longleftrightarrow> n < rl_next_block l)
     \<and> (\<forall>n seg f. hist n = Some (seg, f) \<longrightarrow> filling_wf f \<and> block_intact crc (fl_bytes f) \<and> unat seg < SEGMENT_VALUES - 1)
     \<and> rl_oldest_resident l + length (rl_resident l) = rl_next_block l
     \<and> (\<forall>i<length (rl_resident l). \<exists>seg. hist (rl_oldest_resident l + i) = Some (seg, rl_resident l ! i))
     \<and> rl_next_block l \<le> 2 ^ BLOCK_BITS \<and> length (rl_days l) = SEGMENT_VALUES \<and> unat (rl_segment l) < SEGMENT_VALUES - 1"

definition notes_ok :: "History \<Rightarrow> 's RecordLog \<Rightarrow> bool" where
  "notes_ok hist l \<longleftrightarrow>
     (\<forall>u. OwedBlock u \<in> set (rl_pending_writes l) \<union> snd ` set (rl_submitted_writes l) \<longrightarrow>
        rl_oldest_resident l \<le> uw_block u \<and> uw_block u < rl_next_block l
        \<and> (\<exists>f. hist (uw_block u) = Some (uw_segment u, f)))"

definition volume_ok :: "History \<Rightarrow> 's RecordLog \<Rightarrow> View \<Rightarrow> bool" where
  "volume_ok hist l v \<longleftrightarrow>
     owed_ok hist v (rl_pending_writes l)
     \<and> (\<forall>s<SEGMENT_VALUES. br_blocks (rl_days l ! s) = 0 \<longleftrightarrow> owed_view hist (rl_pending_writes l) v s = Map.empty)
     \<and> (\<forall>s<SEGMENT_VALUES. \<forall>m. owed_view hist (rl_pending_writes l) v s m \<noteq> None \<longrightarrow> m < rl_next_block l)"

definition buffer_rec :: "nat \<Rightarrow> Filling list \<Rightarrow> RecordAddr \<Rightarrow> (TxId \<times> HoldData) option" where
  "buffer_rec oldest fs a =
     (let j = unat (addr_block a) - oldest in
      if unat (addr_block a) < oldest \<or> length fs \<le> j then None else filling_get (unat (addr_index a)) (fs ! j))"

definition log_rec :: "History \<Rightarrow> View \<Rightarrow> 's RecordLog \<Rightarrow> RecordAddr \<Rightarrow> (TxId \<times> HoldData) option" where
  "log_rec hist v l a =
     (let index = unat (addr_index a); block = unat (addr_block a) in
      if is_buffered a then buffer_rec (rl_oldest l) (rl_buffer l) a
      else if block = rl_next_block l then (if addr_segment a = rl_segment l then filling_get index (rl_store_open l) else None)
      else
        (case hist block of
           None \<Rightarrow> None
         | Some (seg, f) \<Rightarrow>
             if seg = addr_segment a \<and> owed_view hist (rl_pending_writes l) v (unat seg) block = Some (fl_bytes f)
             then filling_get index f else None))"

context exact_store
begin

definition log_ok :: "(u8 list \<Rightarrow> u32) \<Rightarrow> History \<Rightarrow> 's RecordLog \<Rightarrow> bool" where
  "log_ok crc hist l \<longleftrightarrow> inv (rl_store l) \<and> shelf_ok crc hist l \<and> notes_ok hist l \<and> volume_ok hist l (view (rl_store l))"

abbreviation recorded :: "History \<Rightarrow> 's RecordLog \<Rightarrow> RecordAddr \<Rightarrow> (TxId \<times> HoldData) option" where
  "recorded hist l a \<equiv> log_rec hist (view (rl_store l)) l a"

text \<open>What the invariant and the records depend on.\<close>

definition same_log :: "'s RecordLog \<Rightarrow> 's RecordLog \<Rightarrow> bool" where
  "same_log l l' \<longleftrightarrow> (inv (rl_store l) \<longrightarrow> inv (rl_store l')) \<and> view (rl_store l') = view (rl_store l)
     \<and> rl_buffer l' = rl_buffer l \<and> rl_oldest l' = rl_oldest l \<and> rl_store_open l' = rl_store_open l
     \<and> rl_resident l' = rl_resident l \<and> rl_oldest_resident l' = rl_oldest_resident l \<and> rl_spare l' = rl_spare l
     \<and> rl_pending_writes l' = rl_pending_writes l \<and> set (rl_submitted_writes l') \<subseteq> set (rl_submitted_writes l)
     \<and> rl_segment l' = rl_segment l \<and> rl_days l' = rl_days l \<and> rl_next_block l' = rl_next_block l"

lemma same_log_ok: "same_log l l' \<Longrightarrow> log_ok crc hist l \<Longrightarrow> log_ok crc hist l' \<and> recorded hist l' = recorded hist l"
proof -
  assume a: "same_log l l'" "log_ok crc hist l"
  have "notes_ok hist l'" using a by (auto simp: same_log_def log_ok_def notes_ok_def)
  moreover have "recorded hist l' = recorded hist l" using a(1) by (intro ext) (simp add: same_log_def log_rec_def Let_def split: option.split)
  ultimately show ?thesis using a by (simp add: same_log_def log_ok_def shelf_ok_def volume_ok_def)
qed

lemma same_log_trans: "same_log l l' \<Longrightarrow> same_log l' l'' \<Longrightarrow> same_log l l''"
  by (auto simp: same_log_def)

lemma same_log_refl [simp]: "same_log l l"
  by (simp add: same_log_def)

section \<open>Reading\<close>

lemma resident_history:
  assumes "log_ok crc hist l" "resident_at l n = Some f"
  shows "\<exists>seg. hist n = Some (seg, f)"
  using assms by (auto simp: log_ok_def shelf_ok_def resident_at_def split: if_splits)

lemma try_read_same: "same_log l (snd (try_read a l))"
  by (simp add: try_read_def Let_def same_log_def split: option.split)

lemma evicted_on_volume:
  assumes "log_ok crc hist l" "resident_at l n = None" "n < rl_next_block l"
    and "owed_view hist (rl_pending_writes l) (view (rl_store l)) s n = Some b"
  shows "view (rl_store l) s n = Some b"
proof -
  have "n < rl_oldest_resident l"
    using assms(1-3) by (auto simp: resident_at_def log_ok_def shelf_ok_def split: if_splits)
  then have "\<not> owes_block n p" if "p \<in> set (rl_pending_writes l)" for p
    using assms(1) that by (cases p) (auto simp: log_ok_def notes_ok_def)
  then show ?thesis using owed_view_source [OF assms(4)] by (auto simp: list_ex_iff)
qed

lemma read_from_store_recorded:
  assumes "log_ok crc hist l" "resident_at l (unat (addr_block a)) = None" "\<not> is_buffered a"
    and "unat (addr_block a) \<noteq> rl_next_block l" "recorded hist l a = Some r"
  obtains l' where "read_from_store crc ops a l = (Some r, l')" "same_log l l'"
proof -
  let ?n = "unat (addr_block a)" and ?l = "l\<lparr>rl_store_reads := rl_store_reads l + 1\<rparr>"
  obtain seg f where h: "hist ?n = Some (seg, f)" "seg = addr_segment a"
      "owed_view hist (rl_pending_writes l) (view (rl_store l)) (unat seg) ?n = Some (fl_bytes f)"
      "filling_get (unat (addr_index a)) f = Some r"
    using assms(3-5) by (auto simp: log_rec_def Let_def split: option.splits if_splits)
  have "?n < rl_next_block l" using assms(1) h(1) by (auto simp: log_ok_def shelf_ok_def)
  then have v: "view (rl_store l) (unat seg) ?n = Some (fl_bytes f)" using evicted_on_volume [OF assms(1,2)] h(3) by blast
  have "unat seg < SEGMENT_VALUES - 1" "block_intact crc (fl_bytes f)"
    using assms(1) h(1) unfolding log_ok_def shelf_ok_def by blast+
  then have obj: "object_segment (addr_segment a) < OBJECT_VALUES" "block_intact crc (fl_bytes f)"
    using h(2) by (simp_all add: object_segment_def OBJECT_VALUES_def)
  obtain q s where q: "st_read_at ops (object_segment (addr_segment a)) (?n * BLOCK_BYTES) (rl_store l) = (q, s)" by fastforce
  have "q = Inr (fl_bytes f)" "inv s" "view s = view (rl_store l)"
    using read_law [OF _ obj(1) q] v h(2) assms(1) by (auto simp: log_ok_def object_segment_def)
  moreover have "record_at (fl_bytes f) (unat (addr_index a)) = r"
    using h(4) by (simp add: filling_get_def split: if_splits)
  ultimately show ?thesis
    using that q obj(2)
    by (simp add: read_from_store_def Let_def block_offset_nat scratch_intact_def same_log_def)
qed

lemma log_read_recorded:
  assumes "log_ok crc hist l" "recorded hist l a = Some r"
  obtains l' where "log_read crc ops a l = (Some r, l')" "same_log l l'"
proof -
  let ?n = "unat (addr_block a)"
  obtain q l1 where q: "try_read a l = (q, l1)" by fastforce
  have s1: "same_log l l1" using try_read_same [of l a] q by simp
  show ?thesis
  proof (cases q)
    case (Some r')
    have "r' = r"
      using q Some assms resident_history [OF assms(1), of ?n]
      by (auto simp: try_read_def Let_def log_rec_def buffer_rec_def split: if_splits option.splits)
    then show ?thesis using that q Some s1 by (simp add: log_read_def)
  next
    case None
    let ?l = "l1\<lparr>rl_apply_store_reads := rl_apply_store_reads l1 + 1\<rparr>"
    have sl: "same_log l ?l" using s1 by (simp add: same_log_def)
    have "\<not> is_buffered a" "?n \<noteq> rl_next_block l" "resident_at l ?n = None"
      using q None assms resident_history [OF assms(1), of ?n]
      by (auto simp: try_read_def Let_def log_rec_def buffer_rec_def split: if_splits option.splits)
    moreover have "resident_at ?l ?n = resident_at l ?n" "rl_next_block ?l = rl_next_block l"
      using sl by (simp_all add: resident_at_def same_log_def)
    ultimately obtain l' where "read_from_store crc ops a ?l = (Some r, l')" "same_log ?l l'"
      using read_from_store_recorded [of crc hist ?l a r] same_log_ok [OF sl assms(1)] assms(2) by auto
    then show ?thesis using that q None same_log_trans [OF sl] by (simp add: log_read_def)
  qed
qed

lemma log_read_same:
  assumes "inv (rl_store l)" "unat (addr_segment a) < OBJECT_VALUES"
  shows "same_log l (snd (log_read crc ops a l))"
proof -
  obtain q l1 where q: "try_read a l = (q, l1)" by fastforce
  have s1: "same_log l l1" using try_read_same [of l a] q by simp
  obtain r s where r: "st_read_at ops (object_segment (addr_segment a)) (unat (addr_block a) * BLOCK_BYTES) (rl_store l1) = (r, s)"
    by fastforce
  have "inv (rl_store l1)" using s1 assms(1) by (simp add: same_log_def)
  then have "inv s" "view s = view (rl_store l1)"
    using read_law [OF _ _ r] assms(2) by (simp_all add: object_segment_def)
  then show ?thesis
    using s1 q r
    by (cases q; cases r)
       (auto simp: log_read_def read_from_store_def Let_def block_offset_nat scratch_intact_def note_fault_def same_log_def)
qed

end

section \<open>Appending\<close>

lemma buffer_segment [simp]: "unat BUFFER_SEGMENT = 63"
  by (simp add: BUFFER_SEGMENT_def block_consts)

lemma word_nat_small: "n < 2 ^ 35 \<Longrightarrow> unat (word_of_nat n :: u64) = n" "i < 64 \<Longrightarrow> unat (word_of_nat i :: u8) = i"
  by (simp_all add: unsigned_of_nat take_bit_nat_eq_self)

lemma addr_new_parts:
  assumes "unat segment < SEGMENT_VALUES" "n < 2 ^ BLOCK_BITS" "i < RECORDS_PER_BLOCK"
  shows "addr_segment (addr_new segment (word_of_nat n) (word_of_nat i)) = segment"
    and "unat (addr_block (addr_new segment (word_of_nat n) (word_of_nat i))) = n"
    and "unat (addr_index (addr_new segment (word_of_nat n) (word_of_nat i))) = i"
  using assms addr_parts [of segment "word_of_nat n" "word_of_nat i"]
  by (simp_all add: block_consts word_nat_small)

lemma addr_new_unique:
  assumes "unat segment < SEGMENT_VALUES" "n < 2 ^ BLOCK_BITS" "i < RECORDS_PER_BLOCK"
    and "addr_ok b"
  shows "b = addr_new segment (word_of_nat n) (word_of_nat i) \<longleftrightarrow>
    addr_segment b = segment \<and> unat (addr_block b) = n \<and> unat (addr_index b) = i"
proof
  let ?a = "addr_new segment (word_of_nat n) (word_of_nat i)"
  note p = addr_new_parts [OF assms(1-3)]
  show "b = ?a \<Longrightarrow> addr_segment b = segment \<and> unat (addr_block b) = n \<and> unat (addr_index b) = i" using p by simp
  assume b: "addr_segment b = segment \<and> unat (addr_block b) = n \<and> unat (addr_index b) = i"
  show "b = ?a"
  proof (rule addr_ext [OF assms(4)])
    show "addr_ok ?a" using assms(1) by simp
    show "addr_segment b = addr_segment ?a" using p(1) b by simp
    show "addr_block b = addr_block ?a" using p(2) b by (simp only: word_unat_eq_iff)
    show "addr_index b = addr_index ?a" using p(3) b by (simp only: word_unat_eq_iff)
  qed
qed

text \<open>A block just begun holds no record.\<close>

lemma buffer_rec_new [simp]: "buffer_rec oldest (fs @ [filling_new]) = buffer_rec oldest fs"
  by (auto simp: fun_eq_iff buffer_rec_def Let_def nth_append filling_get_def filling_new_def)

lemma filling_new_room: "\<not> filling_full filling_new"
  by (simp add: filling_full_def filling_new_def block_consts)

text \<open>A record put into the last block of the buffer is at the address it was given, and nothing else moved.\<close>

lemma buffer_rec_put:
  assumes "fs \<noteq> []" "n = oldest + length fs - 1" "n < 2 ^ BLOCK_BITS" "i < RECORDS_PER_BLOCK" "i = fl_filled (last fs)"
    and "\<And>j. filling_get j f' = (if j = i then Some r else filling_get j (last fs))"
    and "addr_ok b" "is_buffered b"
  shows "buffer_rec oldest (butlast fs @ [f']) b =
      (if b = addr_buffered (word_of_nat n) (word_of_nat i) then Some r else buffer_rec oldest fs b)"
    and "buffer_rec oldest fs (addr_buffered (word_of_nat n) (word_of_nat i)) = None"
proof -
  let ?a = "addr_buffered (word_of_nat n) (word_of_nat i)"
  have seg: "unat BUFFER_SEGMENT < SEGMENT_VALUES" by (simp add: block_consts)
  note parts = addr_new_parts [OF seg assms(3,4), folded addr_buffered_def]
  have len: "0 < length fs" using assms(1) by simp
  then have n: "oldest \<le> n" "n - oldest = length fs - 1" using assms(2) by linarith+
  have last: "last fs = fs ! (length fs - 1)" using assms(1) by (rule last_conv_nth)
  have upd: "(butlast fs @ [f']) ! j = (if j = length fs - 1 then f' else fs ! j)" if "j < length fs" for j
    using that by (auto simp: nth_append nth_butlast)
  have same: "b = ?a \<longleftrightarrow> unat (addr_block b) = n \<and> unat (addr_index b) = i"
    using addr_new_unique [OF seg assms(3,4,7), folded addr_buffered_def] assms(8) by (simp add: is_buffered_def)
  show "buffer_rec oldest (butlast fs @ [f']) b = (if b = ?a then Some r else buffer_rec oldest fs b)"
  proof (cases "oldest \<le> unat (addr_block b) \<and> unat (addr_block b) - oldest = length fs - 1")
    case True
    then have at: "unat (addr_block b) = n" "\<not> n < oldest" "\<not> length fs \<le> n - oldest" using n len by linarith+
    have "buffer_rec oldest (butlast fs @ [f']) b = filling_get (unat (addr_index b)) f'"
        "buffer_rec oldest fs b = filling_get (unat (addr_index b)) (last fs)"
      using at n(2) upd [of "length fs - 1"] len last by (simp_all add: buffer_rec_def Let_def)
    then show ?thesis using assms(6) same at(1) by simp
  next
    case False
    then have "unat (addr_block b) \<noteq> n" using n by auto
    then show ?thesis using False same upd len by (auto simp: buffer_rec_def Let_def)
  qed
  show "buffer_rec oldest fs ?a = None"
    using parts n assms(5) last by (auto simp: buffer_rec_def Let_def filling_get_def)
qed

context exact_store
begin

text \<open>Where a record went, and that nothing else moved.\<close>

definition gained :: "History \<Rightarrow> 's RecordLog \<Rightarrow> History \<Rightarrow> 's RecordLog \<Rightarrow> RecordAddr \<Rightarrow> TxId \<times> HoldData \<Rightarrow> bool" where
  "gained hist l hist' l' a r \<longleftrightarrow> addr_ok a \<and> recorded hist l a = None
     \<and> (\<forall>b. addr_ok b \<longrightarrow> recorded hist' l' b = (if b = a then Some r else recorded hist l b))"

lemma log_append_gains:
  assumes "log_ok crc hist l" "hold_in_range hold" "rl_oldest l + length (rl_buffer l) < 2 ^ BLOCK_BITS"
  obtains a l' where "log_append key hold at l = Some (a, l')" "log_ok crc hist l'" "is_buffered a"
    "gained hist l hist l' a (key, without_group hold)" "rl_oldest l' = rl_oldest l"
    "length (rl_buffer l') \<le> Suc (length (rl_buffer l))" "rl_next_block l' = rl_next_block l"
proof -
  define B where "B = (if rl_buffer l \<noteq> [] \<and> filling_full (last (rl_buffer l)) then rl_buffer l @ [filling_new] else rl_buffer l)"
  have ne: "rl_buffer l \<noteq> []" and wfs: "\<forall>f\<in>set (rl_buffer l). filling_wf f"
    using assms(1) by (auto simp: log_ok_def shelf_ok_def)
  have B: "B \<noteq> []" "\<forall>f\<in>set B. filling_wf f" "\<not> filling_full (last B)" "length B \<le> Suc (length (rl_buffer l))"
      "buffer_rec (rl_oldest l) B = buffer_rec (rl_oldest l) (rl_buffer l)"
    using ne wfs filling_new_wf filling_new_room by (auto simp: B_def)
  obtain f' where f': "filling_put_at key hold at (last B) = Some (fl_filled (last B), f')" "filling_wf f'"
      "\<And>i. filling_get i f' = (if i = fl_filled (last B) then Some (key, without_group hold) else filling_get i (last B))"
      "fl_filled (last B) < RECORDS_PER_BLOCK"
    using filling_put_at_room [of "last B" key hold at] B(1-3) decode_encode [OF assms(2)] by (metis last_in_set)
  define n where "n = rl_oldest l + length B - 1"
  define a where "a = addr_buffered (word_of_nat n) (word_of_nat (fl_filled (last B)))"
  define l' where "l' = l\<lparr>rl_buffer := butlast B @ [f'], rl_appended := rl_appended l + 1\<rparr>"
  have run: "log_append key hold at l = Some (a, l')"
    using B(1) f'(1) by (simp add: log_append_def Let_def B_def [symmetric] n_def a_def l'_def)
  have n35: "n < 2 ^ BLOCK_BITS" using assms(3) B(1,4) by (simp add: n_def)
  have buf: "is_buffered a" "addr_ok a"
    using addr_new_parts(1) [of BUFFER_SEGMENT n "fl_filled (last B)"] n35 f'(4)
    by (simp_all add: a_def addr_buffered_def is_buffered_def block_consts)
  note put = buffer_rec_put [OF B(1) n_def n35 f'(4) refl f'(3)]
  have "recorded hist l' b = (if b = a then Some (key, without_group hold) else recorded hist l b)" if "addr_ok b" for b
  proof (cases "is_buffered b")
    case True
    then show ?thesis using put(1) [OF that True] B(5) by (simp add: log_rec_def l'_def a_def)
  next
    case False
    then show ?thesis using buf by (auto simp: log_rec_def l'_def Let_def split: option.split)
  qed
  moreover have "recorded hist l a = None"
    using put(2) [OF buf(2,1)] B(5) buf by (simp add: log_rec_def a_def)
  moreover have "log_ok crc hist l'"
    using assms(1) f'(2) B by (auto simp: log_ok_def shelf_ok_def notes_ok_def volume_ok_def l'_def dest: in_set_butlastD)
  ultimately show ?thesis
    using that [OF run] buf B(1,4) by (simp add: gained_def l'_def)
qed

section \<open>Closing a block\<close>

definition closed_block :: "(u8 list \<Rightarrow> u32) \<Rightarrow> 's RecordLog \<Rightarrow> Filling" where
  "closed_block crc l = (rl_store_open l)\<lparr>fl_bytes := block_stamp crc (fl_bytes (rl_store_open l))\<rparr>"

definition sealed_history :: "(u8 list \<Rightarrow> u32) \<Rightarrow> History \<Rightarrow> 's RecordLog \<Rightarrow> History" where
  "sealed_history crc hist l = hist(rl_next_block l \<mapsto> (rl_segment l, closed_block crc l))"

lemma sealed_history_apply [simp]:
  "sealed_history crc hist l n = (if n = rl_next_block l then Some (rl_segment l, closed_block crc l) else hist n)"
  by (simp add: sealed_history_def)

lemma closed_get: "filling_wf f \<Longrightarrow> filling_get i (f\<lparr>fl_bytes := block_stamp crc (fl_bytes f)\<rparr>) = filling_get i f"
  by (auto simp: filling_get_def filling_wf_def stamp_records)

lemma notes_below:
  assumes "log_ok crc hist l" "list_ex (owes_block n) (rl_pending_writes l)"
  shows "n < rl_next_block l"
proof -
  obtain p where p: "p \<in> set (rl_pending_writes l)" "owes_block n p" using assms(2) by (auto simp: list_ex_iff)
  obtain u where "p = OwedBlock u" "uw_block u = n" using p(2) by (cases p) auto
  then show ?thesis using assms(1) p(1) unfolding log_ok_def notes_ok_def by blast
qed

lemma seal_pending:
  fixes l :: "'s RecordLog"
  assumes "log_ok crc hist l"
  shows "owed_view (sealed_history crc hist l) (rl_pending_writes l) v = owed_view hist (rl_pending_writes l) v"
    and "owed_ok (sealed_history crc hist l) v (rl_pending_writes l) = owed_ok hist v (rl_pending_writes l)"
  using owed_cong [of "rl_pending_writes l" "sealed_history crc hist l" hist v] notes_below [OF assms]
  by (metis less_irrefl sealed_history_apply)+

text \<open>The volume once the new block is issued too: it has the block, and everything it had.\<close>

lemma seal_volume:
  fixes l :: "'s RecordLog"
  assumes "log_ok crc hist l"
  defines "v \<equiv> owed_view hist (rl_pending_writes l) (view (rl_store l))"
  shows "owed_view (sealed_history crc hist l) (rl_pending_writes (seal_block crc l)) (view (rl_store l)) =
      v(unat (rl_segment l) := (v (unat (rl_segment l)))(rl_next_block l \<mapsto> fl_bytes (closed_block crc l)))"
    and "owed_ok (sealed_history crc hist l) (view (rl_store l)) (rl_pending_writes (seal_block crc l))"
proof -
  let ?s = "unat (rl_segment l)"
  have vol: "volume_ok hist l (view (rl_store l))" and s: "?s < SEGMENT_VALUES"
    using assms(1) by (auto simp: log_ok_def shelf_ok_def)
  have op: "br_blocks (log_day l (rl_segment l)) = 0 \<longleftrightarrow> v ?s = Map.empty"
    using vol s by (simp add: volume_ok_def log_day_def v_def)
  have below: "\<forall>m\<ge>rl_next_block l. v ?s m = None"
    using vol s unfolding volume_ok_def v_def by (meson not_le)
  have pend: "rl_pending_writes (seal_block crc l) = rl_pending_writes l @ [OwedBlock \<lparr>uw_block = rl_next_block l,
      uw_segment = rl_segment l, uw_opening = (br_blocks (log_day l (rl_segment l)) = 0)\<rparr>]"
    by (simp add: seal_block_def Let_def)
  show "owed_view (sealed_history crc hist l) (rl_pending_writes (seal_block crc l)) (view (rl_store l)) =
      v(?s := (v ?s)(rl_next_block l \<mapsto> fl_bytes (closed_block crc l)))"
    using op by (simp add: pend seal_pending [OF assms(1)] v_def [symmetric] view_write_def)
  show "owed_ok (sealed_history crc hist l) (view (rl_store l)) (rl_pending_writes (seal_block crc l))"
    using vol op below
    by (simp add: pend owed_ok_append seal_pending [OF assms(1)] v_def [symmetric] volume_ok_def writable_def)
qed

lemma seal_fields [simp]:
  "rl_store (seal_block crc l) = rl_store l" "rl_buffer (seal_block crc l) = rl_buffer l" "rl_oldest (seal_block crc l) = rl_oldest l"
  "rl_resident (seal_block crc l) = rl_resident l @ [closed_block crc l]"
  "rl_oldest_resident (seal_block crc l) = rl_oldest_resident l" "rl_next_block (seal_block crc l) = Suc (rl_next_block l)"
  "rl_segment (seal_block crc l) = rl_segment l" "rl_submitted_writes (seal_block crc l) = rl_submitted_writes l"
  "fl_filled (rl_store_open (seal_block crc l)) = 0"
  "rl_days (seal_block crc l) = (rl_days l)[unat (rl_segment l) := range_note (rl_next_block l) (log_day l (rl_segment l))]"
  "rl_flush_blocks (seal_block crc l) = rl_flush_blocks l"
  by (simp_all add: seal_block_def Let_def closed_block_def)

lemma seal_recorded:
  assumes "log_ok crc hist l"
  shows "recorded (sealed_history crc hist l) (seal_block crc l) = recorded hist l"
proof
  fix b
  let ?n = "unat (addr_block b)"
  have sh: "shelf_ok crc hist l" using assms by (simp add: log_ok_def)
  have none: "hist (rl_next_block l) = None" "hist (Suc (rl_next_block l)) = None"
    using sh unfolding shelf_ok_def by (metis less_irrefl, metis Suc_n_not_le_n less_imp_le)
  have "filling_get i (closed_block crc l) = filling_get i (rl_store_open l)" for i
    using sh closed_get by (simp add: shelf_ok_def closed_block_def)
  moreover have "filling_get i (rl_store_open (seal_block crc l)) = None" for i
    by (simp add: filling_get_def)
  ultimately show "recorded (sealed_history crc hist l) (seal_block crc l) b = recorded hist l b"
    using none by (auto simp: log_rec_def Let_def seal_volume(1) [OF assms] split: option.split)
qed

lemma seal_ok:
  assumes "log_ok crc hist l" "rl_next_block l < 2 ^ BLOCK_BITS"
  shows "log_ok crc (sealed_history crc hist l) (seal_block crc l)"
proof -
  let ?h = "sealed_history crc hist l" and ?l = "seal_block crc l"
  have sh: "shelf_ok crc hist l" and nt: "notes_ok hist l" and vol: "volume_ok hist l (view (rl_store l))"
    using assms(1) by (auto simp: log_ok_def)
  have wf: "block_wf (fl_bytes (rl_store_open l))" "filling_wf (rl_store_open l)"
    using sh by (auto simp: shelf_ok_def filling_wf_def)
  have open_wf: "filling_wf (rl_store_open ?l)"
    using sh by (auto simp: shelf_ok_def seal_block_def Let_def filling_wf_def filling_new_def)
  have closed: "filling_wf (closed_block crc l)" "block_intact crc (fl_bytes (closed_block crc l))"
    using wf by (simp_all add: closed_block_def filling_wf_def)
  have spare: "\<forall>f\<in>set (rl_spare ?l). block_wf (fl_bytes f)"
    using sh by (auto simp: shelf_ok_def seal_block_def Let_def dest: in_set_butlastD)
  have res: "\<exists>seg. ?h (rl_oldest_resident l + i) = Some (seg, (rl_resident l @ [closed_block crc l]) ! i)"
    if "i < Suc (length (rl_resident l))" for i
    using sh that by (auto simp: shelf_ok_def nth_append less_Suc_eq)
  have dom: "?h n \<noteq> None \<longleftrightarrow> n < Suc (rl_next_block l)" for n
    using sh by (auto simp: shelf_ok_def less_Suc_eq)
  have all: "\<forall>n seg f. ?h n = Some (seg, f) \<longrightarrow> filling_wf f \<and> block_intact crc (fl_bytes f) \<and> unat seg < SEGMENT_VALUES - 1"
    using sh closed unfolding shelf_ok_def sealed_history_apply by (metis option.inject prod.inject)
  have "shelf_ok crc ?h ?l"
    unfolding shelf_ok_def seal_fields
    by (intro conjI allI impI; (rule spare | rule dom | rule open_wf | (use all in blast; fail) | (rule res, simp; fail)
        | (use sh assms(2) in \<open>simp add: shelf_ok_def\<close>; fail)))
  moreover have "notes_ok ?h ?l"
    unfolding notes_ok_def
  proof (intro allI impI)
    fix u
    assume u: "OwedBlock u \<in> set (rl_pending_writes ?l) \<union> snd ` set (rl_submitted_writes ?l)"
    have le: "rl_oldest_resident l \<le> rl_next_block l" using sh by (auto simp: shelf_ok_def)
    show "rl_oldest_resident ?l \<le> uw_block u \<and> uw_block u < rl_next_block ?l \<and> (\<exists>f. ?h (uw_block u) = Some (uw_segment u, f))"
    proof (cases "OwedBlock u \<in> set (rl_pending_writes l) \<union> snd ` set (rl_submitted_writes l)")
      case True
      then show ?thesis using nt unfolding notes_ok_def by force
    next
      case False
      then have "uw_block u = rl_next_block l" "uw_segment u = rl_segment l"
        using u by (auto simp: seal_block_def Let_def)
      then show ?thesis using le by simp
    qed
  qed
  moreover have "volume_ok ?h ?l (view (rl_store l))"
    using vol sh seal_volume [OF assms(1)]
    by (auto simp: volume_ok_def shelf_ok_def nth_list_update range_note_def less_Suc_eq)
  ultimately show ?thesis using assms(1) by (simp add: log_ok_def)
qed

section \<open>Carrying a survivor on\<close>

lemma open_block_put:
  assumes "log_ok crc hist l" "\<not> filling_full (rl_store_open l)" "hold_in_range hold" "rl_next_block l < 2 ^ BLOCK_BITS"
  obtains i f' where "filling_put_at key hold at (rl_store_open l) = Some (i, f')"
    "log_ok crc hist (l\<lparr>rl_store_open := f', rl_carried_on := c\<rparr>)"
    "gained hist l hist (l\<lparr>rl_store_open := f', rl_carried_on := c\<rparr>)
       (addr_new (rl_segment l) (word_of_nat (rl_next_block l)) (word_of_nat i)) (key, without_group hold)"
    "\<not> is_buffered (addr_new (rl_segment l) (word_of_nat (rl_next_block l)) (word_of_nat i))"
proof -
  have sh: "shelf_ok crc hist l" using assms(1) by (simp add: log_ok_def)
  then have wf: "filling_wf (rl_store_open l)" and seg: "unat (rl_segment l) < SEGMENT_VALUES - 1" by (simp_all add: shelf_ok_def)
  then have seg': "unat (rl_segment l) < SEGMENT_VALUES" by linarith
  let ?i = "fl_filled (rl_store_open l)"
  obtain f' where f': "filling_put_at key hold at (rl_store_open l) = Some (?i, f')" "filling_wf f'"
      "\<And>i. filling_get i f' = (if i = ?i then Some (key, without_group hold) else filling_get i (rl_store_open l))"
      "?i < RECORDS_PER_BLOCK"
    using filling_put_at_room [OF wf assms(2)] decode_encode [OF assms(3)] by metis
  let ?a = "addr_new (rl_segment l) (word_of_nat (rl_next_block l)) (word_of_nat ?i)"
  let ?l = "l\<lparr>rl_store_open := f', rl_carried_on := c\<rparr>"
  note p = addr_new_parts [OF seg' assms(4) f'(4)]
  have nb: "\<not> is_buffered ?a" using p(1) seg by (auto simp: is_buffered_def block_consts word_unat_eq_iff)
  have "recorded hist ?l b = (if b = ?a then Some (key, without_group hold) else recorded hist l b)" if b: "addr_ok b" for b
  proof -
    have "b = ?a \<longleftrightarrow> addr_segment b = rl_segment l \<and> unat (addr_block b) = rl_next_block l \<and> unat (addr_index b) = ?i"
      using addr_new_unique [OF seg' assms(4) f'(4) b] .
    then show ?thesis using nb f'(3) by (auto simp: log_rec_def Let_def split: option.split)
  qed
  moreover have "recorded hist l ?a = None"
    using p nb by (simp add: log_rec_def Let_def filling_get_def)
  moreover have "log_ok crc hist ?l"
    using assms(1) f'(2) by (auto simp: log_ok_def shelf_ok_def notes_ok_def volume_ok_def)
  ultimately show ?thesis using that [OF f'(1)] nb seg' by (simp add: gained_def)
qed

lemma log_keep_gains:
  assumes "log_ok crc hist l" "hold_in_range hold" "Suc (rl_next_block l) < 2 ^ BLOCK_BITS"
  obtains a l' hist' where "log_keep crc key hold began l = Some (a, l')" "log_ok crc hist' l'" "\<not> is_buffered a"
    "gained hist l hist' l' a (key, without_group hold)" "rl_oldest l' = rl_oldest l" "rl_buffer l' = rl_buffer l"
    "rl_next_block l' \<le> Suc (rl_next_block l)" "rl_flush_blocks l' = rl_flush_blocks l"
proof (cases "filling_full (rl_store_open l)")
  case True
  let ?l = "seal_block crc l" and ?h = "sealed_history crc hist l"
  have ok: "log_ok crc ?h ?l" using seal_ok [OF assms(1)] assms(3) by simp
  have room: "\<not> filling_full (rl_store_open ?l)" by (simp add: filling_full_def block_consts)
  obtain i f' where f': "filling_put_at key hold began (rl_store_open ?l) = Some (i, f')"
      "log_ok crc ?h (?l\<lparr>rl_store_open := f', rl_carried_on := rl_carried_on ?l + 1\<rparr>)"
      "gained ?h ?l ?h (?l\<lparr>rl_store_open := f', rl_carried_on := rl_carried_on ?l + 1\<rparr>)
         (addr_new (rl_segment ?l) (word_of_nat (rl_next_block ?l)) (word_of_nat i)) (key, without_group hold)"
      "\<not> is_buffered (addr_new (rl_segment ?l) (word_of_nat (rl_next_block ?l)) (word_of_nat i))"
    using open_block_put [OF ok room assms(2), where c = "rl_carried_on ?l + 1"] assms(3) by (metis seal_fields(6))
  have "log_keep crc key hold began l = Some (addr_new (rl_segment ?l) (word_of_nat (rl_next_block ?l)) (word_of_nat i),
      ?l\<lparr>rl_store_open := f', rl_carried_on := rl_carried_on ?l + 1\<rparr>)"
    using True f'(1) by (simp add: log_keep_def Let_def)
  then show ?thesis
    using that f'(2-4) seal_recorded [OF assms(1)] by (simp add: gained_def)
next
  case False
  obtain i f' where f': "filling_put_at key hold began (rl_store_open l) = Some (i, f')"
      "log_ok crc hist (l\<lparr>rl_store_open := f', rl_carried_on := rl_carried_on l + 1\<rparr>)"
      "gained hist l hist (l\<lparr>rl_store_open := f', rl_carried_on := rl_carried_on l + 1\<rparr>)
         (addr_new (rl_segment l) (word_of_nat (rl_next_block l)) (word_of_nat i)) (key, without_group hold)"
      "\<not> is_buffered (addr_new (rl_segment l) (word_of_nat (rl_next_block l)) (word_of_nat i))"
    using open_block_put [OF assms(1) False assms(2)] assms(3) by (metis Suc_lessD)
  have "log_keep crc key hold began l = Some (addr_new (rl_segment l) (word_of_nat (rl_next_block l)) (word_of_nat i),
      l\<lparr>rl_store_open := f', rl_carried_on := rl_carried_on l + 1\<rparr>)"
    using False f'(1) by (simp add: log_keep_def Let_def)
  then show ?thesis using that f'(2-4) by simp
qed

section \<open>Days\<close>

lemma SEGMENTS_eq: "SEGMENTS = 63"
  by (simp add: SEGMENTS_def)

lemma segment_of_day: "unat (word_of_nat (day mod SEGMENTS) :: u8) = day mod SEGMENTS"
  by (simp add: SEGMENTS_eq unsigned_of_nat take_bit_nat_eq_self)

lemma segment_of_day_small: "unat (word_of_nat (day mod SEGMENTS) :: u8) < SEGMENT_VALUES - 1"
  by (simp add: segment_of_day) (simp add: SEGMENTS_eq block_consts)

lemma log_open_day_ok:
  assumes "log_ok crc hist l" "rl_next_block l < 2 ^ BLOCK_BITS"
  obtains hist' where "log_ok crc hist' (log_open_day crc day l)"
    "recorded hist' (log_open_day crc day l) = recorded hist l"
proof -
  define l1 where "l1 = (if 0 < fl_filled (rl_store_open l) then seal_block crc l else l)"
  obtain h where h: "log_ok crc h l1" "recorded h l1 = recorded hist l"
    using that assms seal_ok [OF assms] seal_recorded [OF assms(1)] by (cases "0 < fl_filled (rl_store_open l)") (auto simp: l1_def)
  have empty: "fl_filled (rl_store_open l1) = 0" by (simp add: l1_def)
  let ?l = "l1\<lparr>rl_segment := word_of_nat (day mod SEGMENTS)\<rparr>"
  have ok: "log_ok crc h ?l"
    using h(1) segment_of_day_small [of day] by (simp add: log_ok_def shelf_ok_def notes_ok_def volume_ok_def)
  have "recorded h ?l = recorded h l1"
    using empty by (intro ext) (simp add: log_rec_def Let_def filling_get_def split: option.split)
  then show ?thesis
    using that [of h] that [of hist] ok h assms(1)
    by (cases "word_of_nat (day mod SEGMENTS) = rl_segment l") (auto simp: log_open_day_def Let_def l1_def)
qed

lemma free_segment_ok:
  assumes "log_ok crc hist l" "unat seg < SEGMENT_VALUES"
  shows "log_ok crc hist (snd (free_segment seg l))"
    and "recorded hist (snd (free_segment seg l)) b =
      (if \<not> is_buffered b \<and> addr_segment b = seg \<and> unat (addr_block b) \<noteq> rl_next_block l then None else recorded hist l b)"
proof -
  show "log_ok crc hist (snd (free_segment seg l))"
    using assms
    by (auto simp: log_ok_def shelf_ok_def notes_ok_def volume_ok_def free_segment_def Let_def owed_ok_append
        view_remove_def nth_list_update range_default_def)
  show "recorded hist (snd (free_segment seg l)) b =
      (if \<not> is_buffered b \<and> addr_segment b = seg \<and> unat (addr_block b) \<noteq> rl_next_block l then None else recorded hist l b)"
    by (auto simp: log_rec_def free_segment_def Let_def view_remove_def word_unat_eq_iff split: option.split)
qed

lemma drop_oldest_ok:
  assumes "log_ok crc hist l" "1 < length (rl_buffer l)"
  shows "log_ok crc hist (drop_oldest died l)"
    and "recorded hist (drop_oldest died l) b =
      (if is_buffered b \<and> unat (addr_block b) = rl_oldest l then None else recorded hist l b)"
proof -
  have ne: "tl (rl_buffer l) \<noteq> []" "\<forall>f\<in>set (tl (rl_buffer l)). f \<in> set (rl_buffer l)"
    using assms(2) by (cases "rl_buffer l"; auto)+
  then show "log_ok crc hist (drop_oldest died l)"
    using assms by (auto simp: log_ok_def shelf_ok_def notes_ok_def volume_ok_def drop_oldest_def)
  have nth: "j < length (rl_buffer l) - 1 \<Longrightarrow> tl (rl_buffer l) ! j = rl_buffer l ! Suc j" for j by (simp add: nth_tl)
  have eq: "\<not> unat (addr_block b) < Suc (rl_oldest l) \<Longrightarrow> Suc (unat (addr_block b) - Suc (rl_oldest l)) = unat (addr_block b) - rl_oldest l"
    by linarith
  have "buffer_rec (Suc (rl_oldest l)) (tl (rl_buffer l)) b =
      (if unat (addr_block b) = rl_oldest l then None else buffer_rec (rl_oldest l) (rl_buffer l) b)"
    using nth [of "unat (addr_block b) - Suc (rl_oldest l)"] eq by (auto simp: buffer_rec_def Let_def)
  then show "recorded hist (drop_oldest died l) b =
      (if is_buffered b \<and> unat (addr_block b) = rl_oldest l then None else recorded hist l b)"
    using assms(2) by (auto simp: log_rec_def drop_oldest_def Let_def split: option.split)
qed

section \<open>Issuing what is owed\<close>

lemma submit_owed_ok:
  assumes "log_ok crc hist l" "rl_pending_writes l = owed # rest"
  obtains l1 where "submit_owed ops now owed l = (True, l1)" "log_ok crc hist (owed_taken owed l1)"
    "recorded hist (owed_taken owed l1) = recorded hist l" "rl_pending_writes (owed_taken owed l1) = rest"
    "rl_next_block (owed_taken owed l1) = rl_next_block l" "rl_buffer (owed_taken owed l1) = rl_buffer l"
    "rl_oldest (owed_taken owed l1) = rl_oldest l"
proof -
  let ?v = "view (rl_store l)" and ?h = "io_handle OwnBlocks (word_of_nat (rl_write_handles l + 1))"
  have inv: "inv (rl_store l)" and sh: "shelf_ok crc hist l" and nt: "notes_ok hist l" and vol: "volume_ok hist l ?v"
    using assms(1) by (auto simp: log_ok_def)
  have "\<exists>s'. submit_owed ops now owed l = (True, l\<lparr>rl_store := s'\<rparr>) \<and> inv s' \<and> view s' = owed_apply hist owed ?v"
  proof (cases owed)
    case (OwedBlock u)
    obtain f where u: "rl_oldest_resident l \<le> uw_block u" "uw_block u < rl_next_block l" "hist (uw_block u) = Some (uw_segment u, f)"
      using nt assms(2) OwedBlock unfolding notes_ok_def by fastforce
    have seg: "unat (uw_segment u) < SEGMENT_VALUES - 1" and n: "uw_block u < 2 ^ BLOCK_BITS"
      using sh u unfolding shelf_ok_def by (blast, linarith)
    have "uw_block u - rl_oldest_resident l < length (rl_resident l)" using sh u(1,2) by (auto simp: shelf_ok_def)
    then obtain held where held: "resident_at l (uw_block u) = Some held" using u(1) by (simp add: resident_at_def)
    then have "held = f" using resident_history [OF assms(1) held] u(3) by simp
    have w: "writable ?v (unat (uw_segment u)) (uw_block u) (uw_opening u)"
      using vol assms(2) OwedBlock by (simp add: volume_ok_def)
    have off: "unat (block_offset (addr_new (uw_segment u) (word_of_nat (uw_block u)) 0)) = uw_block u * BLOCK_BYTES"
      using block_offset_addr [of "uw_segment u" "uw_block u" 0] seg n by (simp add: block_consts)
    obtain ok s' where run: "st_submit_write ops ?h (unat (uw_segment u)) (uw_block u * BLOCK_BYTES) (fl_bytes f) (uw_opening u) now
        (rl_store l) = (ok, s')" by fastforce
    have "ok" "inv s'" "view s' = owed_apply hist owed ?v"
      using write_law [OF inv _ w run] seg u(3) OwedBlock by (auto simp: OBJECT_VALUES_def)
    moreover have "submit_owed ops now owed l = (ok, l\<lparr>rl_store := s'\<rparr>)"
      using run held \<open>held = f\<close> off OwedBlock by (simp add: submit_owed_def Let_def object_segment_def)
    ultimately show ?thesis by auto
  next
    case (OwedFree seg)
    have "unat seg < OBJECT_VALUES" using vol assms(2) OwedFree by (simp add: volume_ok_def OBJECT_VALUES_def)
    moreover obtain ok s' where run: "st_submit_remove ops ?h (unat seg) now (rl_store l) = (ok, s')" by fastforce
    ultimately show ?thesis
      using remove_law [OF inv _ run] OwedFree by (auto simp: submit_owed_def Let_def object_segment_def)
  qed
  then obtain s' where s': "submit_owed ops now owed l = (True, l\<lparr>rl_store := s'\<rparr>)" "inv s'" "view s' = owed_apply hist owed ?v"
    by blast
  let ?l = "owed_taken owed (l\<lparr>rl_store := s'\<rparr>)"
  have same: "owed_view hist rest (view s') = owed_view hist (rl_pending_writes l) ?v" by (simp add: assms(2) s'(3))
  have "owed_ok hist (view s') rest"
    using vol assms(2) s'(3) by (cases owed) (simp_all add: volume_ok_def)
  then have "volume_ok hist ?l (view s')"
    using vol same assms(2) by (simp add: volume_ok_def owed_taken_def)
  moreover have "notes_ok hist ?l" using nt assms(2) by (auto simp: notes_ok_def owed_taken_def)
  moreover have "shelf_ok crc hist ?l" using sh by (simp add: shelf_ok_def owed_taken_def)
  ultimately have ok: "log_ok crc hist ?l" using s'(2) by (simp add: log_ok_def owed_taken_def)
  have "recorded hist ?l = recorded hist l"
    using same assms(2) by (intro ext) (simp add: log_rec_def owed_taken_def Let_def split: option.split)
  then show ?thesis using that [OF s'(1) ok] assms(2) by (simp add: owed_taken_def)
qed

lemma submit_writes_ok:
  "log_ok crc hist l \<Longrightarrow> log_ok crc hist (snd (submit_writes ops now l))
    \<and> recorded hist (snd (submit_writes ops now l)) = recorded hist l \<and> rl_pending_writes (snd (submit_writes ops now l)) = []
    \<and> rl_next_block (snd (submit_writes ops now l)) = rl_next_block l \<and> rl_buffer (snd (submit_writes ops now l)) = rl_buffer l
    \<and> rl_oldest (snd (submit_writes ops now l)) = rl_oldest l"
proof (induction "rl_pending_writes l" arbitrary: l)
  case Nil
  then have "submit_writes ops now l = (False, l)" by (subst submit_writes.simps) (metis list.simps(4))
  then show ?case using Nil by simp
next
  case (Cons owed rest)
  obtain l1 where l1: "submit_owed ops now owed l = (True, l1)" "log_ok crc hist (owed_taken owed l1)"
      "recorded hist (owed_taken owed l1) = recorded hist l" "rl_pending_writes (owed_taken owed l1) = rest"
      "rl_next_block (owed_taken owed l1) = rl_next_block l" "rl_buffer (owed_taken owed l1) = rl_buffer l"
      "rl_oldest (owed_taken owed l1) = rl_oldest l"
    using submit_owed_ok [OF Cons.prems Cons.hyps(2) [symmetric]] .
  have "snd (submit_writes ops now l) = snd (submit_writes ops now (owed_taken owed l1))"
    using Cons.hyps(2) [symmetric] l1(1) by (subst submit_writes.simps) simp
  then show ?case using Cons.hyps(1) [OF l1(4) [symmetric] l1(2)] l1 by simp
qed

lemma log_sync_ok:
  assumes "log_ok crc hist l"
  shows "log_ok crc hist (snd (log_sync ops now l))" "recorded hist (snd (log_sync ops now l)) = recorded hist l"
proof -
  let ?l = "snd (submit_writes ops now l)" and ?h = "\<lambda>l. io_handle OwnBlocks (word_of_nat (rl_write_handles l + 1))"
  note sub = submit_writes_ok [OF assms, of now]
  obtain taken s where run: "st_submit_barrier ops (?h ?l) now (rl_store ?l) = (taken, s)" by fastforce
  have "inv (rl_store ?l)" using sub by (simp add: log_ok_def)
  then have "inv s" "view s = view (rl_store ?l)" using barrier_law [OF _ run] by simp_all
  then have "same_log ?l (snd (log_sync ops now l))"
    using run by (auto simp: log_sync_def Let_def same_log_def split_beta)
  then show "log_ok crc hist (snd (log_sync ops now l))" "recorded hist (snd (log_sync ops now l)) = recorded hist l"
    using same_log_ok sub by metis+
qed

section \<open>Collecting completions\<close>

lemma take_completion_same: "same_log l (take_completion w l)"
proof -
  have "set (take i xs @ drop (Suc i) xs) \<subseteq> set xs" for i and xs :: "'a list"
    by (auto dest: in_set_takeD in_set_dropD)
  then show ?thesis
    by (auto simp: take_completion_def barrier_answered_def write_answered_def note_fault_def same_log_def Let_def
        split: prod.split sum.split option.split dest: in_set_takeD in_set_dropD)
qed

lemma collect_loop_returns:
  "inv (rl_store l) \<Longrightarrow> \<exists>any' l'. collect_loop ops now any l = Some (any', l') \<and> same_log l l'"
proof (induction "writes (rl_store l)" arbitrary: l any)
  case Nil
  obtain w' s' where p: "st_poll_written ops now (rl_store l) = (w', s')" by fastforce
  have "w' = None" "inv s'" "view s' = view (rl_store l)" using written_law [OF Nil(2) p] Nil(1) by (auto split: list.splits)
  then show ?case using p by (subst collect_loop.simps) (simp add: same_log_def)
next
  case (Cons w ws)
  obtain w' s' where p: "st_poll_written ops now (rl_store l) = (w', s')" by fastforce
  have s': "w' = Some w" "writes s' = ws" "inv s'" "view s' = view (rl_store l)"
    using written_law [OF Cons(3) p] Cons(2) by (auto split: list.splits)
  let ?l = "take_completion w (l\<lparr>rl_store := s'\<rparr>)"
  have st: "rl_store ?l = s'"
    by (auto simp: take_completion_def barrier_answered_def write_answered_def note_fault_def Let_def split: prod.split sum.split option.split)
  have "same_log l (l\<lparr>rl_store := s'\<rparr>)" using s' Cons(3) by (simp add: same_log_def)
  then have "same_log l ?l" using take_completion_same same_log_trans by blast
  moreover obtain any' l' where "collect_loop ops now True ?l = Some (any', l')" "same_log ?l l'"
    using Cons(1) [of ?l True] st s' by auto
  ultimately show ?case using p s'(1) same_log_trans by (subst collect_loop.simps) auto
qed

lemma trim_ok: "log_ok crc hist l \<Longrightarrow> log_ok crc hist (trim_residency l) \<and> recorded hist (trim_residency l) = recorded hist l"
proof (induction l rule: trim_residency.induct)
  case (1 l)
  show ?case
  proof (cases "rl_resident_blocks l < length (rl_resident l) \<and> \<not> held_by_write l (rl_oldest_resident l)")
    case True
    then obtain d rest where r: "rl_resident l = d # rest" by (cases "rl_resident l") auto
    let ?l = "l\<lparr>rl_resident := rest, rl_left_memory := rl_left_memory l + fl_filled d,
      rl_oldest_resident := rl_oldest_resident l + 1, rl_spare := rl_spare l @ [d\<lparr>fl_filled := 0\<rparr>]\<rparr>"
    have sh: "shelf_ok crc hist l" and nt: "notes_ok hist l" using "1.prems" by (auto simp: log_ok_def)
    obtain seg where "hist (rl_oldest_resident l) = Some (seg, d)"
      using sh r unfolding shelf_ok_def by (metis add.right_neutral length_Cons nth_Cons_0 zero_less_Suc)
    then have "filling_wf d" using sh unfolding shelf_ok_def by blast
    moreover have "\<exists>seg. hist (Suc (rl_oldest_resident l) + i) = Some (seg, rest ! i)" if "i < length rest" for i
      using sh r that unfolding shelf_ok_def by (metis Suc_less_eq add_Suc_right add_Suc_shift length_Cons nth_Cons_Suc)
    ultimately have "shelf_ok crc hist ?l" using sh r by (auto simp: shelf_ok_def filling_wf_def)
    moreover have "notes_ok hist ?l"
      unfolding notes_ok_def
    proof (intro allI impI)
      fix u assume "OwedBlock u \<in> set (rl_pending_writes ?l) \<union> snd ` set (rl_submitted_writes ?l)"
      then have u: "OwedBlock u \<in> set (rl_pending_writes l) \<union> snd ` set (rl_submitted_writes l)" by simp
      then have "uw_block u \<noteq> rl_oldest_resident l" using True by (fastforce simp: held_by_write_def list_ex_iff)
      moreover have "rl_oldest_resident l \<le> uw_block u \<and> uw_block u < rl_next_block l \<and> (\<exists>f. hist (uw_block u) = Some (uw_segment u, f))"
        using nt u unfolding notes_ok_def by blast
      ultimately show "rl_oldest_resident ?l \<le> uw_block u \<and> uw_block u < rl_next_block ?l \<and> (\<exists>f. hist (uw_block u) = Some (uw_segment u, f))"
        by simp
    qed
    ultimately have "log_ok crc hist ?l" using "1.prems" by (simp add: log_ok_def volume_ok_def)
    moreover have "recorded hist ?l = recorded hist l" by (intro ext) (simp add: log_rec_def Let_def split: option.split)
    moreover have "trim_residency l = trim_residency ?l" using True r by (subst trim_residency.simps) simp
    ultimately show ?thesis using "1.IH" [OF True r] by simp
  next
    case False
    then have "trim_residency l = l" by (subst trim_residency.simps) auto
    then show ?thesis using "1.prems" by simp
  qed
qed

lemma collect_writes_ok:
  assumes "log_ok crc hist l"
  obtains any l' where "collect_writes ops now l = Some (any, l')" "log_ok crc hist l'" "recorded hist l' = recorded hist l"
proof -
  obtain any l1 where l1: "collect_loop ops now False l = Some (any, l1)" "same_log l l1"
    using collect_loop_returns [of l now False] assms by (auto simp: log_ok_def)
  then have "log_ok crc hist l1" "recorded hist l1 = recorded hist l" using same_log_ok assms by blast+
  then show ?thesis using that [of any "trim_residency l1"] trim_ok [of crc hist l1] l1 by (simp add: collect_writes_def)
qed

end

text \<open>C31: collecting completions ends and leaves none behind. Over a memory store, however many writes and barriers
  are answered and whoever they belong to, \<open>collect_writes\<close> returns, every completion has been taken, and every one
  that is not the log's own is kept, in order, for its owner.\<close>

theorem collecting_ends_and_takes_everything:
  "\<exists>any l'. collect_writes memory_ops now l = Some (any, l') \<and> mst_written (rl_store l') = []
    \<and> rl_foreign l' = rl_foreign l @ filter (\<lambda>w. \<not> io_owns OwnBlocks (fst w)) (mst_written (rl_store l))"
proof -
  have "\<exists>any' l'. collect_loop memory_ops now any l = Some (any', l') \<and> mst_written (rl_store l') = []
      \<and> rl_foreign l' = rl_foreign l @ filter (\<lambda>w. \<not> io_owns OwnBlocks (fst w)) (mst_written (rl_store l))" for any
  proof (induction "mst_written (rl_store l)" arbitrary: l any)
    case Nil
    then show ?case by (subst collect_loop.simps) (simp add: memory_ops_def mem_poll_written_def flip: Nil)
  next
    case (Cons w ws)
    let ?l = "take_completion w (l\<lparr>rl_store := (rl_store l)\<lparr>mst_written := ws\<rparr>\<rparr>)"
    have l: "rl_store ?l = (rl_store l)\<lparr>mst_written := ws\<rparr>"
        "rl_foreign ?l = (if io_owns OwnBlocks (fst w) then rl_foreign l else rl_foreign l @ [w])"
      by (auto simp: take_completion_def barrier_answered_def write_answered_def note_fault_def Let_def
          split: prod.split sum.split option.split)
    have "collect_loop memory_ops now any l = collect_loop memory_ops now True ?l"
      using Cons(2) [symmetric] by (subst collect_loop.simps) (simp add: memory_ops_def mem_poll_written_def)
    then show ?case using Cons(1) [of ?l True] l Cons(2) [symmetric] by (auto split: if_splits)
  qed
  moreover have "rl_store (trim_residency l) = rl_store l \<and> rl_foreign (trim_residency l) = rl_foreign l" for l :: "MemoryStore RecordLog"
    by (induction l rule: trim_residency.induct) (subst (1 2) trim_residency.simps, auto split: list.split)
  ultimately show ?thesis by (fastforce simp: collect_writes_def)
qed

end
