(* ===== verification/Engine.thy ===== *)
theory Engine
  imports Index_Map Log_Records
begin

text \<open>
  The pending engine (\<open>pending/src/engine.rs\<close>): the index and the log together, the budget groups, lookups that
  may wait for the volume, the drain that compacts the writeback buffer, and the expiry sweep. The hasher, the CRC
  and the store's methods are parameters. A record map is an association list; \<open>fetches\<close> and \<open>budgets\<close> are hash
  maps in the source. Days are natural numbers.
\<close>

section \<open>State\<close>

record Env =
  env_hash :: Hasher
  env_crc :: "u8 list \<Rightarrow> u32"

record Fetch =
  fe_key :: TxId
  fe_candidates :: Candidates
  fe_next :: nat

datatype Started = Answered "HoldData option" | Fetching | Busy

record Sweep =
  sw_day :: "nat option"
  sw_at_block :: nat

datatype Arrival = FirstArrival | AgainArrival ApplyIndex

record BudgetState =
  bs_members :: u32
  bs_remaining :: Amount

record 's PendingEngine =
  en_index :: HoldTable
  en_records :: "'s RecordLog"
  en_budgets :: "(BudgetGroup \<times> BudgetState) list"
  en_fetches :: "(u64 \<times> Fetch) list"
  en_today :: nat
  en_lifetime_days :: nat
  en_sweep :: Sweep
  en_swept_blocks :: nat
  en_outstanding :: "(RecordAddr \<times> Transfer) list"
  en_arrived :: "Transfer list"
  en_declined :: "TxId list"
  en_overflowed :: nat
  en_applied_through :: ApplyIndex
  en_applied :: nat
  en_drained_blocks :: nat

definition budget_default :: BudgetState where
  "budget_default = \<lparr>bs_members = 0, bs_remaining = 0\<rparr>"

definition engine_sized :: "nat \<Rightarrow> nat \<Rightarrow> nat \<Rightarrow> 's \<Rightarrow> 's PendingEngine" where
  "engine_sized slots flush_blocks resident_blocks store =
     \<lparr>en_index = with_slots slots, en_records = log_new store flush_blocks resident_blocks, en_budgets = [],
      en_fetches = [], en_today = 0, en_lifetime_days = 0, en_sweep = \<lparr>sw_day = None, sw_at_block = 0\<rparr>,
      en_swept_blocks = 0, en_outstanding = [], en_arrived = [], en_declined = [], en_overflowed = 0,
      en_applied_through = 0, en_applied = 0, en_drained_blocks = 0\<rparr>"

definition expiry_void_for :: "TxId \<Rightarrow> HoldData \<Rightarrow> Transfer" where
  "expiry_void_for key hold =
     \<lparr>tr_id = expiry_void_of key, tr_pending_ref = key, tr_debit_account = hd_debit_account hold,
      tr_credit_account = hd_credit_account hold, tr_amount = 0, tr_ledger = hd_ledger hold, tr_flags = TF_VOID_PENDING\<rparr>"

section \<open>Reading a hold\<close>

definition with_group :: "'s PendingEngine \<Rightarrow> HoldData \<Rightarrow> HoldData" where
  "with_group e hold =
     (case map_of (en_budgets e) (hd_budget hold) of
        Some state \<Rightarrow> hold\<lparr>hd_budget_members := bs_members state, hd_budget_remaining := bs_remaining state\<rparr>
      | None \<Rightarrow> hold)"

text \<open>The reader the index is handed: whether the record at an address carries the key.\<close>

definition log_verifier :: "Env \<Rightarrow> 's DurableStore \<Rightarrow> TxId \<Rightarrow> 's RecordLog verify" where
  "log_verifier env ops key addr l =
     (let (found, l') = log_read (env_crc env) ops addr l in
      (case found of Some (k, _) \<Rightarrow> k = key | None \<Rightarrow> False, l'))"

definition engine_holds :: "Env \<Rightarrow> 's DurableStore \<Rightarrow> TxId \<Rightarrow> 's PendingEngine \<Rightarrow> bool \<times> 's PendingEngine" where
  "engine_holds env ops key e =
     (let (addr, l) = addr_of (env_hash env) (en_index e) key (log_verifier env ops key) (en_records e) in
      (addr \<noteq> None, e\<lparr>en_records := l\<rparr>))"

definition engine_read :: "Env \<Rightarrow> 's DurableStore \<Rightarrow> TxId \<Rightarrow> 's PendingEngine \<Rightarrow> HoldData option \<times> 's PendingEngine" where
  "engine_read env ops key e =
     (let (addr, l) = addr_of (env_hash env) (en_index e) key (log_verifier env ops key) (en_records e) in
      case addr of
        None \<Rightarrow> (None, e\<lparr>en_records := l\<rparr>)
      | Some a \<Rightarrow>
          (let (found, l') = log_read (env_crc env) ops a l in
           (map_option snd found, e\<lparr>en_records := l'\<rparr>)))"

definition engine_lookup :: "Env \<Rightarrow> 's DurableStore \<Rightarrow> TxId \<Rightarrow> 's PendingEngine \<Rightarrow> HoldData option \<times> 's PendingEngine" where
  "engine_lookup env ops pending_ref e =
     (let (hold, e') = engine_read env ops pending_ref e in (map_option (with_group e') hold, e'))"

text \<open>
  \<open>walk\<close>: the candidates not ruled out yet, in order. A candidate in memory settles itself; one that is not is
  asked of the store, and the rest of the walk goes with it.
\<close>

fun walk_from :: "'s DurableStore \<Rightarrow> TxId \<Rightarrow> Candidates \<Rightarrow> u64 \<Rightarrow> nat \<Rightarrow> nat \<Rightarrow> Candidates \<Rightarrow> 's PendingEngine
    \<Rightarrow> Started \<times> 's PendingEngine" where
  "walk_from ops key all handle now at [] e = (Answered None, e)"
| "walk_from ops key all handle now at (c # cs) e =
     (let (found, l) = try_read (fst c) (en_records e); e1 = e\<lparr>en_records := l\<rparr> in
      case found of
        Some (k, hold) \<Rightarrow>
          if k = key then (Answered (Some (with_group e1 hold)), e1)
          else walk_from ops key all handle now (Suc at) cs e1
      | None \<Rightarrow>
          (let (taken, l2) = log_fetch ops handle (fst c) now l; e2 = e1\<lparr>en_records := l2\<rparr> in
           if taken
           then (Fetching, e2\<lparr>en_fetches := AList.update handle
                   \<lparr>fe_key = key, fe_candidates = all, fe_next = Suc at\<rparr> (en_fetches e2)\<rparr>)
           else (Busy, e2)))"

definition engine_walk :: "'s DurableStore \<Rightarrow> Fetch \<Rightarrow> u64 \<Rightarrow> nat \<Rightarrow> 's PendingEngine \<Rightarrow> Started \<times> 's PendingEngine" where
  "engine_walk ops fetch handle now e =
     walk_from ops (fe_key fetch) (fe_candidates fetch) handle now (fe_next fetch)
       (drop (fe_next fetch) (fe_candidates fetch)) e"

definition begin_lookup :: "Env \<Rightarrow> 's DurableStore \<Rightarrow> u64 \<Rightarrow> TxId \<Rightarrow> nat \<Rightarrow> 's PendingEngine \<Rightarrow> Started \<times> 's PendingEngine" where
  "begin_lookup env ops handle key now e =
     engine_walk ops \<lparr>fe_key = key, fe_candidates = candidates (env_hash env) (en_index e) key, fe_next = 0\<rparr> handle now e"

text \<open>The voids a block of an expiring day produces: one per record the index still points at.\<close>

definition swept_voids :: "Env \<Rightarrow> HoldTable \<Rightarrow> (TxId \<times> HoldData \<times> RecordAddr) list \<Rightarrow> (RecordAddr \<times> Transfer) list" where
  "swept_voids env index visited =
     map (\<lambda>(key, hold, addr). (addr, expiry_void_for key hold))
       (filter (\<lambda>(key, hold, addr). points_at (env_hash env) index key addr) visited)"

partial_function (option) engine_harvest :: "Env \<Rightarrow> 's DurableStore \<Rightarrow> nat \<Rightarrow> 's PendingEngine
    \<Rightarrow> ((u64 \<times> HoldData option) option \<times> 's PendingEngine) option" where
  [code]: "engine_harvest env ops now e =
     (case log_harvest (env_crc env) ops now (en_records e) of
        (harvested, visited, l) \<Rightarrow>
          (let voids = swept_voids env (en_index e) visited;
               e1 = e\<lparr>en_records := l, en_outstanding := en_outstanding e @ voids, en_arrived := en_arrived e @ map snd voids\<rparr> in
           case harvested of
             None \<Rightarrow> Some (None, e1)
           | Some (handle, _, found, hold) \<Rightarrow>
               (case map_of (en_fetches e1) handle of
                  None \<Rightarrow> engine_harvest env ops now e1
                | Some fetch \<Rightarrow>
                    (let e2 = e1\<lparr>en_fetches := AList.delete handle (en_fetches e1)\<rparr> in
                     if found = fe_key fetch then Some (Some (handle, Some (with_group e2 hold)), e2)
                     else (case engine_walk ops fetch handle now e2 of
                             (Answered answer, e3) \<Rightarrow> Some (Some (handle, answer), e3)
                           | (_, e3) \<Rightarrow> engine_harvest env ops now e3)))))"

section \<open>Applying decisions\<close>

definition engine_put :: "Env \<Rightarrow> 's DurableStore \<Rightarrow> TxId \<Rightarrow> HoldData \<Rightarrow> bool \<Rightarrow> 's PendingEngine
    \<Rightarrow> (bool \<times> 's PendingEngine) option" where
  "engine_put env ops key hold fresh e = do {
     (addr, l) \<leftarrow> log_append key hold (en_applied_through e) (en_records e);
     Some (if fresh then
             (case insert_new (env_hash env) key addr (en_index e) of
                (Inl _, t) \<Rightarrow> (False, e\<lparr>en_records := l, en_index := t, en_overflowed := en_overflowed e + 1\<rparr>)
              | (Inr _, t) \<Rightarrow> (True, e\<lparr>en_records := l, en_index := t\<rparr>))
           else
             (case repoint (env_hash env) key addr (log_verifier env ops key) (en_index e) l of
                (_, t, l') \<Rightarrow> (True, e\<lparr>en_records := l', en_index := t\<rparr>)))
   }"

definition u32_saturating_dec :: "u32 \<Rightarrow> u32" where
  "u32_saturating_dec n = (if n = 0 then 0 else n - 1)"

definition count_member :: "BudgetGroup \<Rightarrow> Amount \<Rightarrow> 's PendingEngine \<Rightarrow> 's PendingEngine" where
  "count_member budget amount e =
     (let state = (case map_of (en_budgets e) budget of Some s \<Rightarrow> s | None \<Rightarrow> budget_default) in
      e\<lparr>en_budgets := AList.update budget
          \<lparr>bs_members = bs_members state + 1, bs_remaining = i64_add (bs_remaining state) amount\<rparr> (en_budgets e)\<rparr>)"

definition release_member :: "BudgetGroup \<Rightarrow> Amount \<Rightarrow> 's PendingEngine \<Rightarrow> 's PendingEngine" where
  "release_member budget released e =
     (if is_absent budget then e
      else case map_of (en_budgets e) budget of
        None \<Rightarrow> e
      | Some state \<Rightarrow>
          (let state' = \<lparr>bs_members = u32_saturating_dec (bs_members state), bs_remaining = i64_sub (bs_remaining state) released\<rparr> in
           e\<lparr>en_budgets := (if bs_members state' = 0 then AList.delete budget (en_budgets e)
                             else AList.update budget state' (en_budgets e))\<rparr>))"

definition new_hold :: "AccountId \<Rightarrow> AccountId \<Rightarrow> Amount \<Rightarrow> Amount \<Rightarrow> u32 \<Rightarrow> BudgetGroup \<Rightarrow> HoldData" where
  "new_hold debit credit amount remaining ledger budget =
     \<lparr>hd_debit_account = debit, hd_credit_account = credit, hd_amount = amount, hd_remaining = remaining,
      hd_ledger = ledger, hd_budget = budget, hd_budget_members = 0, hd_budget_remaining = 0\<rparr>"

text \<open>\<open>Inl\<close> is a hold the index could not take.\<close>

definition apply_create :: "Env \<Rightarrow> 's DurableStore \<Rightarrow> TxId \<Rightarrow> HoldData \<Rightarrow> ApplyIndex \<Rightarrow> Arrival \<Rightarrow> 's PendingEngine
    \<Rightarrow> ((TxId + unit) \<times> 's PendingEngine) option" where
  "apply_create env ops tx_id hold at arrival e =
     (let (already, e1) = (case arrival of AgainArrival _ \<Rightarrow> engine_holds env ops tx_id e | FirstArrival \<Rightarrow> (False, e)) in
      do {
        (stored, e2) \<leftarrow> engine_put env ops tx_id hold (\<not> already) e1;
        let counted = (case arrival of FirstArrival \<Rightarrow> 0 | AgainArrival reflect \<Rightarrow> reflect);
            e3 = (if \<not> is_absent (hd_budget hold) \<and> counted < at then count_member (hd_budget hold) (hd_amount hold) e2 else e2) in
        Some (if stored then Inr () else Inl tx_id, e3)
      })"

definition apply_reduce :: "Env \<Rightarrow> 's DurableStore \<Rightarrow> TxId \<Rightarrow> (Amount \<Rightarrow> HoldData) \<Rightarrow> Amount \<Rightarrow> 's PendingEngine
    \<Rightarrow> 's PendingEngine option" where
  "apply_reduce env ops pending_ref hold amount e =
     (let (size, e1) = (if 0 < amount then (Some amount, e)
                        else let (old, e') = engine_read env ops pending_ref e in (map_option hd_amount old, e')) in
      case size of
        None \<Rightarrow> Some e1
      | Some a \<Rightarrow> map_option snd (engine_put env ops pending_ref (hold a) False e1))"

definition apply_remove :: "Env \<Rightarrow> 's DurableStore \<Rightarrow> TxId \<Rightarrow> BudgetGroup \<Rightarrow> Amount \<Rightarrow> 's PendingEngine \<Rightarrow> 's PendingEngine" where
  "apply_remove env ops pending_ref budget released e =
     (case ht_remove (env_hash env) pending_ref (log_verifier env ops pending_ref) (en_index e) (en_records e) of
        (None, t, l) \<Rightarrow> e\<lparr>en_index := t, en_records := l\<rparr>
      | (Some _, t, l) \<Rightarrow> release_member budget released (e\<lparr>en_index := t, en_records := l\<rparr>))"

definition apply_effect :: "Env \<Rightarrow> 's DurableStore \<Rightarrow> PendingEffect \<Rightarrow> ApplyIndex \<Rightarrow> Arrival \<Rightarrow> 's PendingEngine
    \<Rightarrow> ((TxId + unit) \<times> 's PendingEngine) option" where
  "apply_effect env ops effect at arrival e0 =
     (let e = e0\<lparr>en_applied := en_applied e0 + 1, en_applied_through := at\<rparr> in
      case effect of
        Create tx_id debit credit amount ledger budget \<Rightarrow>
          apply_create env ops tx_id (new_hold debit credit amount amount ledger budget) at arrival e
      | Reduce pending_ref debit credit amount remaining ledger budget \<Rightarrow>
          map_option (Pair (Inr ()))
            (apply_reduce env ops pending_ref (\<lambda>a. new_hold debit credit a remaining ledger budget) amount e)
      | Remove pending_ref budget released \<Rightarrow>
          Some (Inr (), apply_remove env ops pending_ref budget released e))"

definition engine_write :: "Env \<Rightarrow> 's DurableStore \<Rightarrow> PendingEffect \<Rightarrow> ApplyIndex \<Rightarrow> 's PendingEngine
    \<Rightarrow> ((TxId + unit) \<times> 's PendingEngine) option" where
  "engine_write env ops effect at e = apply_effect env ops effect at FirstArrival e"

definition engine_replay :: "Env \<Rightarrow> 's DurableStore \<Rightarrow> PendingEffect \<Rightarrow> ApplyIndex \<Rightarrow> ApplyIndex \<Rightarrow> 's PendingEngine
    \<Rightarrow> ((TxId + unit) \<times> 's PendingEngine) option" where
  "engine_replay env ops effect at groups_reflect e = apply_effect env ops effect at (AgainArrival groups_reflect) e"

section \<open>The drain\<close>

fun keep_survivors :: "Env \<Rightarrow> ApplyIndex \<Rightarrow> (TxId \<times> HoldData \<times> RecordAddr) list \<Rightarrow> 's PendingEngine
    \<Rightarrow> 's PendingEngine option" where
  "keep_survivors env began [] e = Some e"
| "keep_survivors env began ((key, hold, old) # rest) e =
     (case log_keep (env_crc env) key hold began (en_records e) of
        None \<Rightarrow> None
      | Some (new, l) \<Rightarrow>
          keep_survivors env began rest
            (e\<lparr>en_records := l, en_index := snd (ht_replace (env_hash env) key old new (en_index e))\<rparr>))"

definition drain_block :: "Env \<Rightarrow> 's PendingEngine \<Rightarrow> 's PendingEngine option" where
  "drain_block env e =
     (let block = oldest_block (en_records e);
          alive = (\<lambda>(key, hold, addr). points_at (env_hash env) (en_index e) key addr);
          survivors = filter alive block in
      do {
        e1 \<leftarrow> keep_survivors env (oldest_began_at (en_records e)) survivors e;
        Some (e1\<lparr>en_records := drop_oldest (length block - length survivors) (en_records e1)\<rparr>)
      })"

fun drain_blocks :: "Env \<Rightarrow> nat \<Rightarrow> nat \<Rightarrow> 's PendingEngine \<Rightarrow> (nat \<times> 's PendingEngine) option" where
  "drain_blocks env 0 drained e = Some (drained, e)"
| "drain_blocks env (Suc n) drained e =
     (if over_window (en_records e)
      then case drain_block env e of None \<Rightarrow> None | Some e1 \<Rightarrow> drain_blocks env n (Suc drained) e1
      else Some (drained, e))"

definition engine_drain :: "Env \<Rightarrow> 's DurableStore \<Rightarrow> nat \<Rightarrow> nat \<Rightarrow> 's PendingEngine \<Rightarrow> (bool \<times> 's PendingEngine) option" where
  "engine_drain env ops blocks now e = do {
     (drained, e1) \<leftarrow> drain_blocks env blocks 0 e;
     let (submitted, l) = submit_writes ops now (en_records e1) in
     Some (0 < drained \<or> submitted, e1\<lparr>en_drained_blocks := en_drained_blocks e1 + drained, en_records := l\<rparr>)
   }"

definition engine_collect_writes :: "'s DurableStore \<Rightarrow> nat \<Rightarrow> 's PendingEngine \<Rightarrow> (bool \<times> 's PendingEngine) option" where
  "engine_collect_writes ops now e = do {
     (any, l) \<leftarrow> collect_writes ops now (en_records e);
     Some (any, e\<lparr>en_records := l\<rparr>)
   }"

definition engine_sync :: "'s DurableStore \<Rightarrow> nat \<Rightarrow> 's PendingEngine \<Rightarrow> bool \<times> 's PendingEngine" where
  "engine_sync ops now e = (let (any, l) = log_sync ops now (en_records e) in (any, e\<lparr>en_records := l\<rparr>))"

definition take_store_fault :: "'s PendingEngine \<Rightarrow> bool \<times> 's PendingEngine" where
  "take_store_fault e = (let (owed, l) = take_fault (en_records e) in (owed, e\<lparr>en_records := l\<rparr>))"

definition coverage :: "'s PendingEngine \<Rightarrow> ApplyIndex" where
  "coverage e = durable_through (en_records e) (en_applied_through e)"

section \<open>Days and expiry\<close>

definition live_in :: "'s PendingEngine \<Rightarrow> nat \<Rightarrow> u32" where
  "live_in e segment = ht_live_per_segment (en_index e) ! segment"

definition oldest_unfinished_day :: "nat \<Rightarrow> 's PendingEngine \<Rightarrow> nat" where
  "oldest_unfinished_day today e =
     (if today < en_lifetime_days e then 0
      else
        let expired_through = today - en_lifetime_days e;
            days = map (\<lambda>segment. usize_sub expired_through ((expired_through + SEGMENTS - segment) mod SEGMENTS))
                     (filter (\<lambda>segment. 0 < live_in e segment) [0..<SEGMENTS]) in
        if days = [] then expired_through else Min (set days))"

definition day_has_a_segment :: "nat \<Rightarrow> 's PendingEngine \<Rightarrow> bool" where
  "day_has_a_segment day e \<longleftrightarrow> (case sw_day (en_sweep e) of None \<Rightarrow> True | Some oldest \<Rightarrow> day - oldest < SEGMENTS)"

definition engine_open_day :: "Env \<Rightarrow> nat \<Rightarrow> nat \<Rightarrow> 's PendingEngine \<Rightarrow> bool \<times> 's PendingEngine" where
  "engine_open_day env day lifetime_days e0 =
     (let e = e0\<lparr>en_lifetime_days := lifetime_days\<rparr>;
          e1 = (case sw_day (en_sweep e) of
                  None \<Rightarrow> e\<lparr>en_sweep := (en_sweep e)\<lparr>sw_day := Some (oldest_unfinished_day day e)\<rparr>\<rparr>
                | Some _ \<Rightarrow> e) in
      if day = en_today e1 \<or> \<not> day_has_a_segment day e1 then (False, e1)
      else (True, e1\<lparr>en_today := day, en_records := log_open_day (env_crc env) day (en_records e1)\<rparr>))"

definition days_of_slack :: "'s PendingEngine \<Rightarrow> nat" where
  "days_of_slack e =
     (case sw_day (en_sweep e) of None \<Rightarrow> SEGMENTS | Some oldest \<Rightarrow> SEGMENTS - ((en_today e - oldest) + 1))"

definition behind :: "'s PendingEngine \<Rightarrow> (nat \<times> nat) option" where
  "behind e =
     (case sw_day (en_sweep e) of
        None \<Rightarrow> None
      | Some day \<Rightarrow>
          if en_today e < en_lifetime_days e \<or> en_today e - en_lifetime_days e < day then None
          else Some (day, en_today e - en_lifetime_days e - day + 1))"

definition expiring_segment :: "'s PendingEngine \<Rightarrow> u8 option" where
  "expiring_segment e = map_option (\<lambda>(day, _). word_of_nat (day mod SEGMENTS)) (behind e)"

definition days_behind :: "'s PendingEngine \<Rightarrow> nat" where
  "days_behind e = (case behind e of None \<Rightarrow> 0 | Some (_, days) \<Rightarrow> days)"

text \<open>Blocks of the expiring day, one after another, until the round's share is read or the day ends.\<close>

fun sweep_blocks :: "Env \<Rightarrow> 's DurableStore \<Rightarrow> u8 \<Rightarrow> nat \<Rightarrow> nat \<Rightarrow> 's PendingEngine \<Rightarrow> Transfer list
    \<Rightarrow> Transfer list \<times> 's PendingEngine" where
  "sweep_blocks env ops segment now 0 e into = (into, e)"
| "sweep_blocks env ops segment now (Suc n) e into =
     (case walk_day_block ops segment (sw_at_block (en_sweep e)) now (en_records e) of
        (walked, visited, l) \<Rightarrow>
          (let voids = swept_voids env (en_index e) visited;
               e1 = e\<lparr>en_records := l, en_outstanding := en_outstanding e @ voids\<rparr>;
               into1 = into @ map snd voids in
           case walked of
             WalkEnd \<Rightarrow> (into1, e1\<lparr>en_sweep := (en_sweep e1)\<lparr>sw_at_block := 0\<rparr>\<rparr>)
           | WalkBusy \<Rightarrow> (into1, e1)
           | _ \<Rightarrow> sweep_blocks env ops segment now n
                    (e1\<lparr>en_sweep := (en_sweep e1)\<lparr>sw_at_block := sw_at_block (en_sweep e1) + 1\<rparr>,
                        en_swept_blocks := en_swept_blocks e1 + 1\<rparr>) into1))"

definition propose_expiry :: "Env \<Rightarrow> 's DurableStore \<Rightarrow> nat \<Rightarrow> nat \<Rightarrow> 's PendingEngine \<Rightarrow> Transfer list \<times> 's PendingEngine" where
  "propose_expiry env ops blocks now e =
     (case expiring_segment e of
        None \<Rightarrow> ([], e)
      | Some segment \<Rightarrow>
          if live_in e (unat segment) = 0 then
            ([], e\<lparr>en_sweep := \<lparr>sw_day = map_option Suc (sw_day (en_sweep e)), sw_at_block = 0\<rparr>\<rparr>)
          else
            let e1 = e\<lparr>en_outstanding := filter (\<lambda>(addr, void). points_at (env_hash env) (en_index e) (tr_pending_ref void) addr)
                         (en_outstanding e)\<rparr> in
            if en_arrived e1 \<noteq> [] then (en_arrived e1, e1\<lparr>en_arrived := []\<rparr>)
            else if en_declined e1 \<noteq> [] then
              (map snd (filter (\<lambda>(_, void). tr_pending_ref void \<in> set (en_declined e1)) (en_outstanding e1)), e1\<lparr>en_declined := []\<rparr>)
            else if en_outstanding e1 \<noteq> [] then ([], e1)
            else if 0 < sweeping_blocks (en_records e1) then ([], e1)
            else sweep_blocks env ops segment now (max blocks 1) e1 [])"

definition expiry_declined :: "TxId \<Rightarrow> 's PendingEngine \<Rightarrow> 's PendingEngine" where
  "expiry_declined hold e = e\<lparr>en_declined := en_declined e @ [hold]\<rparr>"

definition reclaim_segment :: "nat \<Rightarrow> nat \<times> 's PendingEngine \<Rightarrow> nat \<times> 's PendingEngine" where
  "reclaim_segment segment acc =
     (let (freed, e) = acc; seg = word_of_nat segment in
      if seg = rl_segment (en_records e) \<or> 0 < live_in e segment then (freed, e)
      else if 0 < blocks_in_day (en_records e) seg then
        (let (n, l) = free_segment seg (en_records e) in (freed + n, e\<lparr>en_records := l\<rparr>))
      else (freed, e))"

definition reclaim :: "'s PendingEngine \<Rightarrow> nat \<times> 's PendingEngine" where
  "reclaim e = fold reclaim_segment [0..<SEGMENTS] (0, e)"

section \<open>Restart\<close>

fun note_span :: "(u8 \<times> nat \<times> nat) list \<Rightarrow> u8 \<Rightarrow> nat \<Rightarrow> (u8 \<times> nat \<times> nat) list" where
  "note_span [] segment block = [(segment, block, block)]"
| "note_span ((at, first, final) # spans) segment block =
     (if at = segment then (at, min first block, max final block) # spans
      else (at, first, final) # note_span spans segment block)"

definition live_spans :: "HoldTable \<Rightarrow> (u8 \<times> nat \<times> nat) list" where
  "live_spans t = foldl (\<lambda>spans a. note_span spans (addr_segment a) (unat (addr_block a))) [] (each_address t)"

definition engine_reconcile :: "'s DurableStore \<Rightarrow> 's PendingEngine \<Rightarrow> 's PendingEngine" where
  "engine_reconcile ops e =
     (let (orphans, l) = log_reconcile ops (live_spans (en_index e)) (en_records e) in
      e\<lparr>en_records := fold (\<lambda>segment l. snd (free_segment segment l)) orphans l\<rparr>)"

definition engine_restore :: "'s DurableStore \<Rightarrow> (BudgetGroup \<times> BudgetState) list \<Rightarrow> ApplyIndex \<Rightarrow> 's PendingEngine \<Rightarrow> 's PendingEngine" where
  "engine_restore ops groups covered e = engine_reconcile ops (e\<lparr>en_budgets := groups, en_applied_through := covered\<rparr>)"

definition engine_counts_agree :: "'s PendingEngine \<Rightarrow> bool" where
  "engine_counts_agree e = counts_agree (en_index e)"

end
