(* ===== verification/Engine_Map.thy ===== *)
theory Engine_Map
  imports Engine
begin

text \<open>
  The pending engine refines a map from transaction ids to holds. \<open>engine_ok\<close> relates an engine to the entries
  of its index and the records of its log; \<open>held\<close> is the map. Creating, reducing and removing do to the map what
  they say, a lookup answers from it, and everything else the engine does on its own account (draining the buffer,
  issuing and collecting writes, syncing, opening a day, handing a dead day's blocks back) leaves it as it was.
  The lemmas hold over any store that keeps the contract, and are interpreted for the memory store.
\<close>

section \<open>Decoded holds\<close>

lemma sint_i64: "i64_ok (sint (w :: u64))"
  using sint_greater_eq [of w] sint_less [of w] by (simp add: i64_ok_def)

lemma decoded_in_range: "hold_in_range (snd (decode bs))" "without_group (snd (decode bs)) = snd (decode bs)"
  by (simp_all add: hold_in_range_def decode_def amount_from_def sint_i64 without_group_def)

lemma filling_get_decoded: "filling_get i f = Some (k, h) \<Longrightarrow> hold_in_range h \<and> without_group h = h"
  by (auto simp: filling_get_def record_at_def split: if_splits) (metis decoded_in_range snd_conv)+

lemma log_rec_decoded: "log_rec hist v l a = Some (k, h) \<Longrightarrow> hold_in_range h \<and> without_group h = h"
  by (auto simp: log_rec_def buffer_rec_def Let_def split: if_splits option.splits dest: filling_get_decoded)

section \<open>What the engine promises\<close>

type_synonym Holds = "TxId \<rightharpoonup> HoldData"
type_synonym Groups = "BudgetGroup \<rightharpoonup> BudgetState"

text \<open>What a decision does to the holds and to the budget groups.\<close>

fun holds_after :: "PendingEffect \<Rightarrow> Holds \<Rightarrow> Holds" where
  "holds_after (Create k debit credit amount ledger budget) M = M(k \<mapsto> new_hold debit credit amount amount ledger budget)"
| "holds_after (Reduce k debit credit amount remaining ledger budget) M =
     (case M k of
        None \<Rightarrow> M
      | Some old \<Rightarrow> M(k \<mapsto> new_hold debit credit (if 0 < amount then amount else hd_amount old) remaining ledger budget))"
| "holds_after (Remove k budget released) M = M(k := None)"

definition member_in :: "Amount \<Rightarrow> BudgetState option \<Rightarrow> BudgetState option" where
  "member_in amount s =
     (let old = case s of None \<Rightarrow> budget_default | Some old \<Rightarrow> old in
      Some \<lparr>bs_members = bs_members old + 1, bs_remaining = i64_add (bs_remaining old) amount\<rparr>)"

definition member_out :: "Amount \<Rightarrow> BudgetState option \<Rightarrow> BudgetState option" where
  "member_out released s =
     (case s of
        None \<Rightarrow> None
      | Some old \<Rightarrow>
          (let left = u32_saturating_dec (bs_members old) in
           if left = 0 then None else Some \<lparr>bs_members = left, bs_remaining = i64_sub (bs_remaining old) released\<rparr>))"

fun groups_after :: "PendingEffect \<Rightarrow> Holds \<Rightarrow> Groups \<Rightarrow> Groups" where
  "groups_after (Create k debit credit amount ledger budget) M G =
     (if is_absent budget then G else G(budget := member_in amount (G budget)))"
| "groups_after (Reduce k debit credit amount remaining ledger budget) M G = G"
| "groups_after (Remove k budget released) M G =
     (if M k = None \<or> is_absent budget then G else G(budget := member_out released (G budget)))"

text \<open>
  A probe for a key the index does not have takes an unmarked entry of the same fingerprint and buckets for it. The
  entries it would take are visible in the index.
\<close>

definition mistaken :: "Env \<Rightarrow> 's PendingEngine \<Rightarrow> TxId \<Rightarrow> bool" where
  "mistaken env e k \<longleftrightarrow>
     list_ex (\<lambda>c. \<not> is_ambiguous (slot_word (en_index e) (snd c))) (candidates (env_hash env) (en_index e) k)"

text \<open>Room for one more record and some more blocks before a number outgrows its field of an address.\<close>

definition room :: "nat \<Rightarrow> 's PendingEngine \<Rightarrow> bool" where
  "room n e \<longleftrightarrow> rl_oldest (en_records e) + length (rl_buffer (en_records e)) < 2 ^ BLOCK_BITS
     \<and> rl_next_block (en_records e) + n < 2 ^ BLOCK_BITS"

lemma new_hold_plain [simp]: "without_group (new_hold d c a r l b) = new_hold d c a r l b"
  by (simp add: without_group_def new_hold_def)

section \<open>The engine over a store\<close>

locale engine_over = exact_store ops inv view reads writes
  for ops :: "'s DurableStore" and inv view reads writes +
  fixes env :: Env
begin

abbreviation "hs \<equiv> env_hash env"
abbreviation "crc \<equiv> env_crc env"

definition engine_ok :: "History \<Rightarrow> (TxId \<Rightarrow> Slot option) \<Rightarrow> 's PendingEngine \<Rightarrow> bool" where
  "engine_ok hist C e \<longleftrightarrow> log_ok crc hist (en_records e) \<and> index_rep hs (en_index e) C \<and> counted (en_index e)
     \<and> (\<forall>k a. where_is C k = Some a \<longrightarrow> (\<exists>h. recorded hist (en_records e) a = Some (k, h)))"

text \<open>The holds an engine keeps.\<close>

definition held :: "History \<Rightarrow> (TxId \<Rightarrow> Slot option) \<Rightarrow> 's PendingEngine \<Rightarrow> TxId \<Rightarrow> HoldData option" where
  "held hist C e k = Option.bind (where_is C k) (\<lambda>a. map_option snd (recorded hist (en_records e) a))"

lemma where_is_addr_ok: "where_is C k = Some a \<Longrightarrow> addr_ok a"
proof -
  assume "where_is C k = Some a"
  then obtain w where "a = address_of w" by (auto simp: where_is_def)
  moreover have "address_of w = take_bit 47 (address_of w)"
    by (auto simp: word_eq_bits address_of_def bit_simps bit_slot_consts)
  ultimately show ?thesis unfolding addr_ok_def by (metis take_bit_nat_less_exp unsigned_take_bit_eq)
qed

lemma held_Some: "engine_ok hist C e \<Longrightarrow> where_is C k = Some a \<Longrightarrow>
    \<exists>h. held hist C e k = Some h \<and> recorded hist (en_records e) a = Some (k, h)"
  by (fastforce simp: engine_ok_def held_def)

lemma held_None: "where_is C k = None \<Longrightarrow> held hist C e k = None"
  by (simp add: held_def)

text \<open>The log reads back what it recorded, so it tells keys apart.\<close>

lemma log_reader:
  assumes "log_ok crc hist l"
  shows "verifier (log_verifier env ops) (same_log l) (\<lambda>a. map_option fst (recorded hist l a))"
proof
  fix s a k' and k :: TxId
  assume s: "same_log l s" and a: "map_option fst (recorded hist l a) = Some k'"
  have ok: "log_ok crc hist s" "recorded hist s = recorded hist l" using same_log_ok [OF s assms] by simp_all
  then obtain h where h: "recorded hist s a = Some (k', h)" using a by auto
  obtain l' where l': "log_read crc ops a s = (Some (k', h), l')" "same_log s l'"
    using log_read_recorded [OF ok(1) h] .
  show "same_log l (snd (log_verifier env ops k a s))"
    using same_log_trans [OF s l'(2)] l'(1) by (simp add: log_verifier_def)
  show "fst (log_verifier env ops k a s) = (k' = k)" using l'(1) by (simp add: log_verifier_def)
qed

lemma reader_owned:
  assumes "engine_ok hist C e"
  shows "verifier.owned (\<lambda>a. map_option fst (recorded hist (en_records e) a)) C"
proof -
  have "\<forall>k w. C k = Some w \<longrightarrow> map_option fst (recorded hist (en_records e) (address_of w)) = Some k"
    using assms by (fastforce simp: engine_ok_def where_is_def)
  moreover have "log_ok crc hist (en_records e)" using assms by (simp add: engine_ok_def)
  ultimately show ?thesis using verifier.owned_def [OF log_reader] by blast
qed

text \<open>A step that keeps the records and the index keeps the holds.\<close>

lemma engine_frame:
  assumes "engine_ok hist C e" "log_ok crc hist' (en_records e')" "en_index e' = en_index e"
    and "\<And>k a. where_is C k = Some a \<Longrightarrow> recorded hist' (en_records e') a = recorded hist (en_records e) a"
  shows "engine_ok hist' C e'" "held hist' C e' = held hist C e"
  using assms by (auto simp: engine_ok_def held_def fun_eq_iff split: bind_split option.split)

section \<open>Looking up\<close>

lemma engine_read_held:
  assumes "engine_ok hist C e" "where_is C k = Some a"
  obtains e' where "engine_read env ops k e = (held hist C e k, e')" "engine_ok hist C e'" "held hist C e' = held hist C e"
    "e' = e\<lparr>en_records := en_records e'\<rparr>" "same_log (en_records e) (en_records e')"
proof -
  let ?R = "recorded hist (en_records e)"
  obtain w where w: "C k = Some w" "address_of w = a" using assms(2) by (auto simp: where_is_def)
  have rep: "index_rep hs (en_index e) C" and log: "log_ok crc hist (en_records e)" using assms(1) by (simp_all add: engine_ok_def)
  obtain l where l: "addr_of hs (en_index e) k (log_verifier env ops k) (en_records e) = (Some a, l)"
      "same_log (en_records e) l"
    using verifier.addr_of_present [OF log_reader [OF log] rep reader_owned [OF assms(1)] w(1), of "en_records e"] w(2)
    by (metis prod.collapse same_log_refl)
  have l1: "log_ok crc hist l" "recorded hist l = ?R" using same_log_ok [OF l(2) log] by simp_all
  obtain h where h: "held hist C e k = Some h" "?R a = Some (k, h)" using held_Some [OF assms] by blast
  obtain l' where l': "log_read crc ops a l = (Some (k, h), l')" "same_log l l'"
    using log_read_recorded [OF l1(1)] h(2) l1(2) by metis
  have same: "same_log (en_records e) l'" using same_log_trans [OF l(2) l'(2)] .
  have ok: "log_ok crc hist l'" "recorded hist l' = ?R" using same_log_ok [OF same log] by simp_all
  let ?e = "e\<lparr>en_records := l'\<rparr>"
  have "engine_ok hist C ?e" "held hist C ?e = held hist C e"
    using engine_frame [OF assms(1), of hist ?e] ok by simp_all
  moreover have "engine_read env ops k e = (held hist C e k, ?e)"
    using l(1) l'(1) h(1) by (simp add: engine_read_def)
  ultimately show ?thesis using that same by simp
qed

lemma engine_read_absent:
  assumes "engine_ok hist C e" "where_is C k = None" "\<not> stray hs (ht_mask (en_index e)) C k"
  obtains e' where "engine_read env ops k e = (None, e')" "engine_ok hist C e'" "held hist C e' = held hist C e"
    "e' = e\<lparr>en_records := en_records e'\<rparr>" "same_log (en_records e) (en_records e')"
proof -
  have none: "C k = None" using assms(2) by (simp add: where_is_def)
  have rep: "index_rep hs (en_index e) C" and log: "log_ok crc hist (en_records e)" using assms(1) by (simp_all add: engine_ok_def)
  obtain l where l: "addr_of hs (en_index e) k (log_verifier env ops k) (en_records e) = (None, l)"
      "same_log (en_records e) l"
    using verifier.addr_of_absent [OF log_reader [OF log] rep reader_owned [OF assms(1)] none assms(3), of "en_records e"]
    by (metis prod.collapse same_log_refl)
  let ?e = "e\<lparr>en_records := l\<rparr>"
  have "engine_ok hist C ?e" "held hist C ?e = held hist C e"
    using engine_frame [OF assms(1), of hist ?e] same_log_ok [OF l(2) log] by simp_all
  then show ?thesis using that l by (simp add: engine_read_def)
qed

section \<open>Applying decisions\<close>

lemma counted_kept: "counted (en_index e) \<Longrightarrow> index_rep hs (en_index e) C \<Longrightarrow> counts.kept (en_index e)"
  by (auto simp: counts.kept_def index_rep_def placed_def)

text \<open>A record gained at an address nobody points at leaves every entry its record.\<close>

lemma gained_keeps:
  assumes "engine_ok hist C e" "gained hist (en_records e) hist' l a r" "where_is C k = Some b"
  shows "recorded hist' l b = recorded hist (en_records e) b" "b \<noteq> a"
proof -
  obtain h where "recorded hist (en_records e) b = Some (k, h)" using assms(1,3) by (auto simp: engine_ok_def)
  then show "b \<noteq> a" using assms(2) by (auto simp: gained_def)
  then show "recorded hist' l b = recorded hist (en_records e) b"
    using assms(2) where_is_addr_ok [OF assms(3)] by (simp add: gained_def)
qed

text \<open>Pointing one key at a record that carries it, and dropping others, is all an insertion or a repointing does.\<close>

lemma repointed_ok:
  assumes "engine_ok hist C e" "gained hist (en_records e) hist' l a (k, h)" "log_ok crc hist' l" "log_ok crc hist' l'"
    and "recorded hist' l' = recorded hist' l" "index_rep hs t C'" "counted t"
    and "where_is C' = ((where_is C)(k \<mapsto> a))" "en_index e' = t" "en_records e' = l'"
  shows "engine_ok hist' C' e'" "held hist' C' e' = (held hist C e)(k \<mapsto> h)"
proof -
  have new: "recorded hist' l a = Some (k, h)" using assms(2) by (simp add: gained_def)
  show "engine_ok hist' C' e'"
    using assms(1,4-10) new gained_keeps(1) [OF assms(1,2)] by (auto simp: engine_ok_def split: if_splits)
  show "held hist' C' e' = (held hist C e)(k \<mapsto> h)"
    using assms(5,8,10) new gained_keeps(1) [OF assms(1,2)]
    by (auto simp: held_def fun_eq_iff bind_eq_None_conv split: bind_split)
qed

lemma engine_put_fresh:
  assumes "engine_ok hist C e" "where_is C k = None" "hold_in_range h" "room 0 e"
  obtains stored e' C' where "engine_put env ops k h True e = Some (stored, e')" "engine_ok hist C' e'"
    "if stored then held hist C' e' = (held hist C e)(k \<mapsto> without_group h)
     else \<exists>j. held hist C' e' = ((held hist C e)(k \<mapsto> without_group h))(j := None)"
    "en_budgets e' = en_budgets e"
proof -
  have log: "log_ok crc hist (en_records e)" and rep: "index_rep hs (en_index e) C" and cnt: "counted (en_index e)"
    using assms(1) by (simp_all add: engine_ok_def)
  obtain a l where l: "log_append k h (en_applied_through e) (en_records e) = Some (a, l)" "log_ok crc hist l"
      "gained hist (en_records e) hist l a (k, without_group h)"
    using log_append_gains [OF log assms(3), of k "en_applied_through e"] assms(4) by (metis room_def)
  obtain r t where r: "insert_new hs k a (en_index e) = (r, t)" by fastforce
  have "counts.kept t" using counts.insert_kept [OF counted_kept [OF cnt rep], of hs k a] r by simp
  then have cnt': "counted t" by (simp add: counts.kept_def)
  have "C k = None" "addr_ok a" using assms(2) l(3) by (simp_all add: where_is_def gained_def)
  then obtain C' where C': "index_rep hs t C'"
      "case r of Inr _ \<Rightarrow> where_is C' = (where_is C)(k \<mapsto> a)
       | Inl d \<Rightarrow> \<exists>j. ((where_is C)(k \<mapsto> a)) j = Some d \<and> where_is C' = ((where_is C)(k \<mapsto> a))(j := None)"
    using insert_new_refines [OF rep _ _ r] by blast
  show ?thesis
  proof (cases r)
    case (Inr u)
    let ?e = "e\<lparr>en_records := l, en_index := t\<rparr>"
    have "engine_ok hist C' ?e" "held hist C' ?e = (held hist C e)(k \<mapsto> without_group h)"
      using repointed_ok [OF assms(1) l(3,2,2) refl C'(1) cnt'] C'(2) Inr by simp_all
    then show ?thesis using that [of True ?e C'] l(1) r Inr by (simp add: engine_put_def)
  next
    case (Inl d)
    then obtain j where j: "where_is C' = ((where_is C)(k \<mapsto> a))(j := None)" using C'(2) by auto
    let ?e = "e\<lparr>en_records := l, en_index := t, en_overflowed := en_overflowed e + 1\<rparr>"
    have new: "recorded hist l a = Some (k, without_group h)" using l(3) by (simp add: gained_def)
    have "engine_ok hist C' ?e"
      using assms(1) l(2) C'(1) cnt' j new gained_keeps(1) [OF assms(1) l(3)] by (auto simp: engine_ok_def split: if_splits)
    moreover have "held hist C' ?e = ((held hist C e)(k \<mapsto> without_group h))(j := None)"
      using j new gained_keeps(1) [OF assms(1) l(3)] by (auto simp: held_def fun_eq_iff split: bind_split)
    ultimately show ?thesis using that [of False ?e C'] l(1) r Inl by (auto simp: engine_put_def)
  qed
qed

lemma engine_put_again:
  assumes "engine_ok hist C e" "where_is C k = Some b" "hold_in_range h" "room 0 e"
  obtains e' C' where "engine_put env ops k h False e = Some (True, e')" "engine_ok hist C' e'"
    "held hist C' e' = (held hist C e)(k \<mapsto> without_group h)" "en_budgets e' = en_budgets e"
proof -
  have log: "log_ok crc hist (en_records e)" and rep: "index_rep hs (en_index e) C" and cnt: "counted (en_index e)"
    using assms(1) by (simp_all add: engine_ok_def)
  obtain a l where l: "log_append k h (en_applied_through e) (en_records e) = Some (a, l)" "log_ok crc hist l"
      "gained hist (en_records e) hist l a (k, without_group h)"
    using log_append_gains [OF log assms(3), of k "en_applied_through e"] assms(4) by (metis room_def)
  let ?e = "e\<lparr>en_records := l\<rparr>"
  have ok: "engine_ok hist C ?e"
    using engine_frame(1) [OF assms(1), of hist ?e] l(2) gained_keeps(1) [OF assms(1) l(3)] by simp
  obtain w where w: "C k = Some w" using assms(2) by (auto simp: where_is_def)
  have ad: "addr_ok a" using l(3) by (simp add: gained_def)
  have own: "verifier.owned (\<lambda>a. map_option fst (recorded hist l a)) C" using reader_owned [OF ok] by simp
  obtain t l' w' where t: "repoint hs k a (log_verifier env ops k) (en_index e) l = (True, t, l')"
      "index_rep hs t (C(k \<mapsto> w'))" "address_of w' = a" "same_log l l'"
    using verifier.repoint_present [OF log_reader [OF l(2)] rep own w, of l a] ad by (metis same_log_refl)
  note same = same_log_ok [OF t(4) l(2)]
  have cnt': "counted t"
    using counts.repoint_kept [OF counted_kept [OF cnt rep] t(1)] by (simp add: counts.kept_def)
  have "engine_ok hist (C(k \<mapsto> w')) (e\<lparr>en_records := l', en_index := t\<rparr>)"
      "held hist (C(k \<mapsto> w')) (e\<lparr>en_records := l', en_index := t\<rparr>) = (held hist C e)(k \<mapsto> without_group h)"
    using repointed_ok [OF assms(1) l(3,2) conjunct1 [OF same] conjunct2 [OF same] t(2) cnt' where_is_upd [OF t(3)]] by simp_all
  then show ?thesis using that l(1) t(1) by (simp add: engine_put_def)
qed

lemma remove_found:
  assumes "engine_ok hist C e" "where_is C k = Some a"
  obtains t l where "ht_remove hs k (log_verifier env ops k) (en_index e) (en_records e) = (Some a, t, l)"
    "index_rep hs t (C(k := None))" "same_log (en_records e) l"
proof -
  have log: "log_ok crc hist (en_records e)" and rep: "index_rep hs (en_index e) C" using assms(1) by (simp_all add: engine_ok_def)
  obtain w where w: "C k = Some w" "address_of w = a" using assms(2) by (auto simp: where_is_def)
  then show ?thesis
    using that verifier.remove_present [OF log_reader [OF log] rep reader_owned [OF assms(1)] w(1), of "en_records e"]
    by (metis same_log_refl)
qed

lemma apply_remove_held:
  assumes "engine_ok hist C e" "where_is C k = Some b"
  obtains C' where "engine_ok hist C' (apply_remove env ops k budget released e)"
    "held hist C' (apply_remove env ops k budget released e) = (held hist C e)(k := None)"
proof -
  have log: "log_ok crc hist (en_records e)" and rep: "index_rep hs (en_index e) C" and cnt: "counted (en_index e)"
    using assms(1) by (simp_all add: engine_ok_def)
  obtain t l where t: "ht_remove hs k (log_verifier env ops k) (en_index e) (en_records e) = (Some b, t, l)"
      "index_rep hs t (C(k := None))" "same_log (en_records e) l"
    using remove_found [OF assms] .
  note same = same_log_ok [OF t(3) log]
  let ?e = "apply_remove env ops k budget released e"
  have f: "en_index ?e = t" "en_records ?e = l"
    using t(1) by (simp_all add: apply_remove_def release_member_def Let_def split: option.split)
  have "counted t" using counts.remove_kept [OF counted_kept [OF cnt rep] t(1)] by (simp add: counts.kept_def)
  then have "engine_ok hist (C(k := None)) ?e"
    using assms(1) t(2) same where_is_del [of C k] by (auto simp: engine_ok_def f split: if_splits)
  moreover have "held hist (C(k := None)) ?e = (held hist C e)(k := None)"
    using same where_is_del [of C k] by (auto simp: held_def f fun_eq_iff)
  ultimately show ?thesis using that by blast
qed

lemma apply_remove_absent:
  assumes "engine_ok hist C e" "where_is C k = None" "\<not> stray hs (ht_mask (en_index e)) C k"
  shows "engine_ok hist C (apply_remove env ops k budget released e)"
    "held hist C (apply_remove env ops k budget released e) = held hist C e"
    "en_budgets (apply_remove env ops k budget released e) = en_budgets e"
proof -
  have log: "log_ok crc hist (en_records e)" and rep: "index_rep hs (en_index e) C" using assms(1) by (simp_all add: engine_ok_def)
  have "C k = None" using assms(2) by (simp add: where_is_def)
  then obtain l where l: "ht_remove hs k (log_verifier env ops k) (en_index e) (en_records e) = (None, en_index e, l)"
      "same_log (en_records e) l"
    using verifier.remove_absent [OF log_reader [OF log] rep reader_owned [OF assms(1)] _ assms(3), of "en_records e"]
    by (metis same_log_refl)
  let ?e = "apply_remove env ops k budget released e"
  have f: "?e = e\<lparr>en_index := en_index e, en_records := l\<rparr>" using l(1) by (simp add: apply_remove_def)
  show "engine_ok hist C ?e" "held hist C ?e = held hist C e" "en_budgets ?e = en_budgets e"
    using engine_frame [OF assms(1), of hist ?e] same_log_ok [OF l(2) log] by (simp_all add: f)
qed

lemma engine_put_nowhere:
  assumes "engine_ok hist C e" "where_is C k = None" "\<not> stray hs (ht_mask (en_index e)) C k" "hold_in_range h" "room 0 e"
  obtains e' where "engine_put env ops k h False e = Some (True, e')" "engine_ok hist C e'"
    "held hist C e' = held hist C e" "en_budgets e' = en_budgets e"
proof -
  have log: "log_ok crc hist (en_records e)" and rep: "index_rep hs (en_index e) C" using assms(1) by (simp_all add: engine_ok_def)
  obtain a l where l: "log_append k h (en_applied_through e) (en_records e) = Some (a, l)" "log_ok crc hist l"
      "gained hist (en_records e) hist l a (k, without_group h)"
    using log_append_gains [OF log assms(4), of k "en_applied_through e"] assms(5) by (metis room_def)
  let ?e = "e\<lparr>en_records := l\<rparr>"
  have ok: "engine_ok hist C ?e" "held hist C ?e = held hist C e"
    using engine_frame [OF assms(1), of hist ?e] l(2) gained_keeps(1) [OF assms(1) l(3)] by simp_all
  have own: "verifier.owned (\<lambda>a. map_option fst (recorded hist l a)) C" using reader_owned [OF ok(1)] by simp
  have none: "C k = None" using assms(2) by (simp add: where_is_def)
  obtain l' where t: "repoint hs k a (log_verifier env ops k) (en_index e) l = (False, en_index e, l')"
      "same_log l l'"
    using verifier.repoint_absent [OF log_reader [OF l(2)] rep own none assms(3), of l a] by (metis same_log_refl)
  let ?e' = "e\<lparr>en_records := l', en_index := en_index e\<rparr>"
  have "engine_ok hist C ?e'" "held hist C ?e' = held hist C ?e"
    using engine_frame [OF ok(1), of hist ?e'] same_log_ok [OF t(2) l(2)] by simp_all
  then show ?thesis using that l(1) t(1) ok(2) by (simp add: engine_put_def)
qed

section \<open>The books an engine keeps\<close>

definition keeps :: "Holds \<Rightarrow> 's PendingEngine \<Rightarrow> bool" where
  "keeps M e \<longleftrightarrow> (\<exists>hist C. engine_ok hist C e \<and> held hist C e = M)"

lemma keepsI: "engine_ok hist C e \<Longrightarrow> held hist C e = M \<Longrightarrow> keeps M e"
  by (auto simp: keeps_def)

lemma keeps_cong: "en_index e' = en_index e \<Longrightarrow> en_records e' = en_records e \<Longrightarrow> keeps M e' = keeps M e"
  by (simp add: keeps_def engine_ok_def held_def fun_eq_iff)

lemma keepsE:
  assumes "keeps M e"
  obtains hist C where "engine_ok hist C e" "held hist C e = M"
    "\<And>k. M k = None \<Longrightarrow> where_is C k = None" "\<And>k h. M k = Some h \<Longrightarrow> \<exists>a. where_is C k = Some a"
    "\<And>k. M k = None \<Longrightarrow> \<not> mistaken env e k \<Longrightarrow> \<not> stray hs (ht_mask (en_index e)) C k"
proof -
  obtain hist C where h: "engine_ok hist C e" "held hist C e = M" using assms by (auto simp: keeps_def)
  obtain pos where pos: "placed hs (en_index e) C pos" using h(1) by (auto simp: engine_ok_def index_rep_def)
  have "where_is C k = None" if "M k = None" for k
    using that held_Some [OF h(1), of k] h(2) by fastforce
  moreover have "\<exists>a. where_is C k = Some a" if "M k = Some x" for k x
    using that h(2) held_None [of C k hist e] by fastforce
  moreover have "\<not> stray hs (ht_mask (en_index e)) C k" if "\<not> mistaken env e k" for k
  proof
    assume "stray hs (ht_mask (en_index e)) C k"
    then obtain j w where j: "C j = Some w" "same_class hs (ht_mask (en_index e)) k j" "\<not> is_ambiguous w"
      by (auto simp: stray_def)
    then show False
      using that candidate_of [OF pos j(1,2)] placed_facts(1) [OF pos j(1)] by (fastforce simp: mistaken_def list_ex_iff)
  qed
  ultimately show ?thesis using that h by blast
qed

lemma read_keeps:
  assumes "keeps M e" "M k = None \<longrightarrow> \<not> mistaken env e k"
  obtains e' where "engine_read env ops k e = (M k, e')" "keeps M e'" "e' = e\<lparr>en_records := en_records e'\<rparr>"
    "same_log (en_records e) (en_records e')"
proof (rule keepsE [OF assms(1)])
  fix hist C
  assume ok: "engine_ok hist C e" "held hist C e = M"
    and none: "\<And>k. M k = None \<Longrightarrow> where_is C k = None" and some: "\<And>k h. M k = Some h \<Longrightarrow> \<exists>a. where_is C k = Some a"
    and st: "\<And>k. M k = None \<Longrightarrow> \<not> mistaken env e k \<Longrightarrow> \<not> stray hs (ht_mask (en_index e)) C k"
  show ?thesis
  proof (cases "M k")
    case None
    show ?thesis
      using engine_read_absent [OF ok(1) none [OF None] st [OF None]] assms(2) None that ok(2) keepsI by metis
  next
    case (Some h)
    then obtain a where "where_is C k = Some a" using some by blast
    then show ?thesis using engine_read_held [OF ok(1)] that ok(2) keepsI by metis
  qed
qed

lemma lookup_keeps:
  assumes "keeps M e" "M k = None \<longrightarrow> \<not> mistaken env e k"
  obtains e' where "engine_lookup env ops k e = (map_option (with_group e) (M k), e')" "keeps M e'"
    "e' = e\<lparr>en_records := en_records e'\<rparr>" "same_log (en_records e) (en_records e')"
proof -
  obtain e' where e': "engine_read env ops k e = (M k, e')" "keeps M e'" "e' = e\<lparr>en_records := en_records e'\<rparr>"
      "same_log (en_records e) (en_records e')"
    using read_keeps [OF assms] .
  have "en_budgets e' = en_budgets e" by (subst e'(3)) simp
  then have "with_group e' = with_group e" by (simp add: with_group_def fun_eq_iff)
  then show ?thesis using that e' by (simp add: engine_lookup_def)
qed

lemma put_fresh_keeps:
  assumes "keeps M e" "M k = None" "hold_in_range h" "room 0 e"
  obtains stored e' where "engine_put env ops k h True e = Some (stored, e')" "en_budgets e' = en_budgets e"
    "\<exists>M'. keeps M' e' \<and> (if stored then M' = M(k \<mapsto> without_group h) else \<exists>j. M' = (M(k \<mapsto> without_group h))(j := None))"
proof (rule keepsE [OF assms(1)])
  fix hist C
  assume ok: "engine_ok hist C e" "held hist C e = M" and none: "\<And>k. M k = None \<Longrightarrow> where_is C k = None"
  show ?thesis
  proof (rule engine_put_fresh [OF ok(1) none [OF assms(2)] assms(3,4)])
    fix stored e' C'
    assume r: "engine_put env ops k h True e = Some (stored, e')" "engine_ok hist C' e'"
      "if stored then held hist C' e' = (held hist C e)(k \<mapsto> without_group h)
       else \<exists>j. held hist C' e' = ((held hist C e)(k \<mapsto> without_group h))(j := None)" "en_budgets e' = en_budgets e"
    have "if stored then held hist C' e' = M(k \<mapsto> without_group h) else \<exists>j. held hist C' e' = (M(k \<mapsto> without_group h))(j := None)"
      using r(3) unfolding ok(2) .
    then show ?thesis using that [OF r(1,4)] keepsI [OF r(2) refl] by blast
  qed
qed

lemma put_again_keeps:
  assumes "keeps M e" "M k = None \<longrightarrow> \<not> mistaken env e k" "hold_in_range h" "room 0 e"
  obtains e' where "engine_put env ops k h False e = Some (True, e')" "en_budgets e' = en_budgets e"
    "keeps (if M k = None then M else M(k \<mapsto> without_group h)) e'"
proof (rule keepsE [OF assms(1)])
  fix hist C
  assume ok: "engine_ok hist C e" "held hist C e = M"
    and none: "\<And>k. M k = None \<Longrightarrow> where_is C k = None" and some: "\<And>k h. M k = Some h \<Longrightarrow> \<exists>a. where_is C k = Some a"
    and st: "\<And>k. M k = None \<Longrightarrow> \<not> mistaken env e k \<Longrightarrow> \<not> stray hs (ht_mask (en_index e)) C k"
  show ?thesis
  proof (cases "M k")
    case None
    have "\<not> stray hs (ht_mask (en_index e)) C k" using st [OF None] assms(2) None by simp
    then obtain e' where "engine_put env ops k h False e = Some (True, e')" "engine_ok hist C e'"
        "held hist C e' = held hist C e" "en_budgets e' = en_budgets e"
      using engine_put_nowhere [OF ok(1) none [OF None] _ assms(3,4)] by metis
    then show ?thesis using that [of e'] keepsI [of hist C e' M] None ok(2) by simp
  next
    case (Some x)
    then obtain b where b: "where_is C k = Some b" using some by blast
    obtain e' C' where "engine_put env ops k h False e = Some (True, e')" "engine_ok hist C' e'"
        "held hist C' e' = (held hist C e)(k \<mapsto> without_group h)" "en_budgets e' = en_budgets e"
      using engine_put_again [OF ok(1) b assms(3,4)] .
    then show ?thesis using that [of e'] keepsI [of hist C' e' "M(k \<mapsto> without_group h)"] Some ok(2) by simp
  qed
qed

lemma remove_keeps:
  assumes "keeps M e" "M k = None \<longrightarrow> \<not> mistaken env e k"
  shows "keeps (M(k := None)) (apply_remove env ops k budget released e)"
proof (rule keepsE [OF assms(1)])
  fix hist C
  assume ok: "engine_ok hist C e" "held hist C e = M"
    and none: "\<And>k. M k = None \<Longrightarrow> where_is C k = None" and some: "\<And>k h. M k = Some h \<Longrightarrow> \<exists>a. where_is C k = Some a"
    and st: "\<And>k. M k = None \<Longrightarrow> \<not> mistaken env e k \<Longrightarrow> \<not> stray hs (ht_mask (en_index e)) C k"
  show ?thesis
  proof (cases "M k")
    case None
    have "\<not> stray hs (ht_mask (en_index e)) C k" using st [OF None] assms(2) None by simp
    note r = apply_remove_absent [OF ok(1) none [OF None] this]
    have "M(k := None) = M" using None by auto
    then show ?thesis using keepsI [OF r(1,2)] ok(2) by simp
  next
    case (Some x)
    then obtain b where "where_is C k = Some b" using some by blast
    then show ?thesis using apply_remove_held [OF ok(1)] keepsI ok(2) by metis
  qed
qed

end

end
