(* ===== verification/Engine_Steps.thy ===== *)
theory Engine_Steps
  imports Engine_Map
begin

text \<open>
  Every operation of the pending engine against the books it keeps: decisions change them as they say, everything
  the engine does on its own account leaves them as they were, and a run of any of them answers lookups from the
  books. Interpreted for an engine over the memory store.
\<close>

section \<open>Which decisions fit\<close>

definition effect_fits :: "Env \<Rightarrow> Holds \<Rightarrow> 's PendingEngine \<Rightarrow> PendingEffect \<Rightarrow> bool" where
  "effect_fits env M e effect =
     (case effect of
        Create k _ _ amount _ _ \<Rightarrow> M k = None \<and> i64_ok amount
      | Reduce k _ _ amount remaining _ _ \<Rightarrow> i64_ok amount \<and> i64_ok remaining \<and> (M k = None \<longrightarrow> \<not> mistaken env e k)
      | Remove k _ _ \<Rightarrow> M k = None \<longrightarrow> \<not> mistaken env e k)"

lemma new_hold_in_range: "hold_in_range (new_hold d c a r l b) \<longleftrightarrow> i64_ok a \<and> i64_ok r"
  by (simp add: hold_in_range_def new_hold_def)

lemma mistaken_cong: "en_index e' = en_index e \<Longrightarrow> mistaken env e' = mistaken env e"
  by (simp add: mistaken_def fun_eq_iff)

lemma count_member_groups:
  "map_of (en_budgets (count_member budget amount e)) = (map_of (en_budgets e))(budget := member_in amount (map_of (en_budgets e) budget))"
  by (simp add: count_member_def member_in_def Let_def update_conv' del: fun_upd_apply)

lemma release_member_groups:
  "map_of (en_budgets (release_member budget released e)) =
     (if is_absent budget then map_of (en_budgets e)
      else (map_of (en_budgets e))(budget := member_out released (map_of (en_budgets e) budget)))"
  by (auto simp: release_member_def member_out_def Let_def update_conv' AList.delete_conv' split: option.split)

lemma member_fields [simp]:
  "en_index (count_member b a e) = en_index e" "en_records (count_member b a e) = en_records e"
  "en_index (release_member b r e) = en_index e" "en_records (release_member b r e) = en_records e"
  by (simp_all add: count_member_def release_member_def Let_def split: option.split)

context engine_over
begin

section \<open>Decisions\<close>

lemma room_same: "same_log (en_records e) (en_records e') \<Longrightarrow> room n e' = room n e"
  by (simp add: room_def same_log_def)

lemma create_keeps:
  assumes "keeps M e" "M k = None" "i64_ok amount" "room 0 e" "0 < at"
  obtains r e' where
    "apply_create env ops k (new_hold d c amount amount l b) at FirstArrival e = Some (r, e')"
    "map_of (en_budgets e') = groups_after (Create k d c amount l b) M (map_of (en_budgets e))"
    "r = Inr () \<and> keeps (holds_after (Create k d c amount l b) M) e'
     \<or> r = Inl k \<and> (\<exists>j. keeps ((holds_after (Create k d c amount l b) M)(j := None)) e')"
proof -
  let ?h = "new_hold d c amount amount l b"
  obtain stored e' where e': "engine_put env ops k ?h True e = Some (stored, e')" "en_budgets e' = en_budgets e"
      "\<exists>M'. keeps M' e' \<and> (if stored then M' = M(k \<mapsto> without_group ?h) else \<exists>j. M' = (M(k \<mapsto> without_group ?h))(j := None))"
    using put_fresh_keeps [OF assms(1,2) _ assms(4)] assms(3) by (metis new_hold_in_range)
  define e3 where "e3 = (if \<not> is_absent b \<and> 0 < at then count_member b amount e' else e')"
  have run: "apply_create env ops k ?h at FirstArrival e = Some (if stored then Inr () else Inl k, e3)"
    using e'(1) by (simp add: apply_create_def e3_def new_hold_def)
  have groups: "map_of (en_budgets e3) = groups_after (Create k d c amount l b) M (map_of (en_budgets e))"
    using assms(5) e'(2) by (simp add: e3_def count_member_groups)
  have same: "keeps M' e3 = keeps M' e'" for M' by (rule keeps_cong) (simp_all add: e3_def)
  show ?thesis
  proof (cases stored)
    case True
    then show ?thesis using that [OF run groups] e'(3) same by simp
  next
    case False
    then obtain j where "keeps ((M(k \<mapsto> ?h))(j := None)) e3" using e'(3) same by auto
    then show ?thesis using that [OF run groups] False by auto
  qed
qed

lemma reduce_keeps:
  assumes "keeps M e" "M k = None \<longrightarrow> \<not> mistaken env e k" "i64_ok amount" "i64_ok remaining" "room 0 e"
  obtains e' where "apply_reduce env ops k (\<lambda>a. new_hold d c a remaining l b) amount e = Some e'"
    "keeps (holds_after (Reduce k d c amount remaining l b) M) e'" "en_budgets e' = en_budgets e"
proof (cases "0 < amount")
  case True
  have "hold_in_range (new_hold d c amount remaining l b)" using assms(3,4) by (simp add: new_hold_in_range)
  from put_again_keeps [OF assms(1,2) this assms(5)] obtain e' where
    e': "engine_put env ops k (new_hold d c amount remaining l b) False e = Some (True, e')" "en_budgets e' = en_budgets e"
      "keeps (if M k = None then M else M(k \<mapsto> new_hold d c amount remaining l b)) e'" by (metis new_hold_plain)
  then show ?thesis using that [of e'] True by (cases "M k") (simp_all add: apply_reduce_def)
next
  case False
  obtain e1 where e1: "engine_read env ops k e = (M k, e1)" "keeps M e1" "e1 = e\<lparr>en_records := en_records e1\<rparr>"
      "same_log (en_records e) (en_records e1)"
    using read_keeps [OF assms(1,2)] .
  have b1: "en_budgets e1 = en_budgets e" and i1: "en_index e1 = en_index e" by (subst e1(3), simp)+
  show ?thesis
  proof (cases "M k")
    case None
    then show ?thesis using that [of e1] False e1 b1 by (simp add: apply_reduce_def)
  next
    case (Some old)
    have "i64_ok (hd_amount old)"
      using e1(2) Some by (auto simp: keeps_def held_def bind_eq_Some_conv hold_in_range_def dest!: log_rec_decoded)
    then have fits: "hold_in_range (new_hold d c (hd_amount old) remaining l b)" using assms(4) by (simp add: new_hold_in_range)
    have open1: "M k = None \<longrightarrow> \<not> mistaken env e1 k" "room 0 e1" using Some room_same [OF e1(4)] assms(5) by simp_all
    obtain e' where e': "engine_put env ops k (new_hold d c (hd_amount old) remaining l b) False e1 = Some (True, e')"
        "en_budgets e' = en_budgets e1"
        "keeps (if M k = None then M else M(k \<mapsto> without_group (new_hold d c (hd_amount old) remaining l b))) e'"
      using put_again_keeps [OF e1(2) open1(1) fits open1(2)] .
    then show ?thesis using that [of e'] False e1(1) Some b1 by (simp add: apply_reduce_def)
  qed
qed

lemma remove_groups:
  assumes "keeps M e" "M k = None \<longrightarrow> \<not> mistaken env e k"
  shows "map_of (en_budgets (apply_remove env ops k b released e)) = groups_after (Remove k b released) M (map_of (en_budgets e))"
proof (rule keepsE [OF assms(1)])
  fix hist C
  assume ok: "engine_ok hist C e" "held hist C e = M"
    and none: "\<And>k. M k = None \<Longrightarrow> where_is C k = None" and some: "\<And>k h. M k = Some h \<Longrightarrow> \<exists>a. where_is C k = Some a"
    and st: "\<And>k. M k = None \<Longrightarrow> \<not> mistaken env e k \<Longrightarrow> \<not> stray hs (ht_mask (en_index e)) C k"
  show ?thesis
  proof (cases "M k")
    case None
    then show ?thesis using apply_remove_absent(3) [OF ok(1) none [OF None] st [OF None]] assms(2) by simp
  next
    case (Some h)
    then obtain a where a: "where_is C k = Some a" using some by blast
    obtain t l where "ht_remove hs k (log_verifier env ops k) (en_index e) (en_records e) = (Some a, t, l)"
      using remove_found [OF ok(1) a] .
    then show ?thesis using Some by (simp add: apply_remove_def release_member_groups)
  qed
qed

lemma write_keeps:
  assumes "keeps M e" "effect_fits env M e effect" "room 0 e" "0 < at"
  obtains r e' where "engine_write env ops effect at e = Some (r, e')"
    "map_of (en_budgets e') = groups_after effect M (map_of (en_budgets e))"
    "r = Inr () \<and> keeps (holds_after effect M) e'
     \<or> (\<exists>k j d c a l b. effect = Create k d c a l b \<and> r = Inl k \<and> keeps ((holds_after effect M)(j := None)) e')"
proof -
  let ?e = "e\<lparr>en_applied := en_applied e + 1, en_applied_through := at\<rparr>"
  have e: "keeps M ?e" "room 0 ?e" "\<And>k. mistaken env ?e k = mistaken env e k" "en_budgets ?e = en_budgets e"
    using assms(1,3) keeps_cong [of ?e e M] mistaken_cong [of ?e e env] by (simp_all add: room_def)
  show ?thesis
  proof (cases effect)
    case (Create k d c a l b)
    then show ?thesis
      using create_keeps [OF e(1) _ _ e(2) assms(4), of k a d c l b] assms(2) that e(4)
      by (fastforce simp: effect_fits_def engine_write_def apply_effect_def Let_def)
  next
    case (Reduce k d c a r l b)
    then have "M k = None \<longrightarrow> \<not> mistaken env ?e k" "i64_ok a" "i64_ok r"
      using assms(2) e(3) by (simp_all add: effect_fits_def)
    from reduce_keeps [OF e(1) this e(2), of d c l b] obtain e' where
      "apply_reduce env ops k (\<lambda>a. new_hold d c a r l b) a ?e = Some e'" "keeps (holds_after effect M) e'"
        "en_budgets e' = en_budgets e" unfolding Reduce e(4) .
    then show ?thesis using that [of "Inr ()" e'] Reduce by (simp add: engine_write_def apply_effect_def Let_def)
  next
    case (Remove k b rel)
    then have m: "M k = None \<longrightarrow> \<not> mistaken env ?e k" using assms(2) e(3) by (simp add: effect_fits_def)
    show ?thesis
      using that [of "Inr ()" "apply_remove env ops k b rel ?e"] remove_keeps [OF e(1) m] remove_groups [OF e(1) m] Remove
      by (simp add: engine_write_def apply_effect_def Let_def)
  qed
qed

section \<open>The drain\<close>

lemma keep_one:
  assumes "engine_ok hist C e" "where_is C k = Some old" "recorded hist (en_records e) old = Some (k, h)"
    and "Suc (rl_next_block (en_records e)) < 2 ^ BLOCK_BITS"
  obtains a l hist' t C' where "log_keep crc k h began (en_records e) = Some (a, l)"
    "ht_replace hs k old a (en_index e) = (True, t)" "engine_ok hist' C' (e\<lparr>en_records := l, en_index := t\<rparr>)"
    "held hist' C' (e\<lparr>en_records := l, en_index := t\<rparr>) = held hist C e" "where_is C' = (where_is C)(k \<mapsto> a)" "\<not> is_buffered a"
    "\<And>j b. where_is C j = Some b \<Longrightarrow> recorded hist' l b = recorded hist (en_records e) b"
    "rl_oldest l = rl_oldest (en_records e)" "rl_buffer l = rl_buffer (en_records e)"
    "rl_next_block l \<le> Suc (rl_next_block (en_records e))"
proof -
  have log: "log_ok crc hist (en_records e)" and rep: "index_rep hs (en_index e) C" and cnt: "counted (en_index e)"
    using assms(1) by (simp_all add: engine_ok_def)
  have plain: "hold_in_range h" "without_group h = h" using log_rec_decoded [OF assms(3)] by simp_all
  obtain a l hist' where l: "log_keep crc k h began (en_records e) = Some (a, l)" "log_ok crc hist' l" "\<not> is_buffered a"
      "gained hist (en_records e) hist' l a (k, h)" "rl_oldest l = rl_oldest (en_records e)"
      "rl_buffer l = rl_buffer (en_records e)" "rl_next_block l \<le> Suc (rl_next_block (en_records e))"
    using log_keep_gains [OF log plain(1) assms(4)] plain(2) by metis
  note same = gained_keeps(1) [OF assms(1) l(4)]
  let ?e = "e\<lparr>en_records := l\<rparr>"
  have ok: "engine_ok hist' C ?e" using engine_frame(1) [OF assms(1), of hist' ?e] l(2) same by simp
  have own: "verifier.owned (\<lambda>a. map_option fst (recorded hist' l a)) C" using reader_owned [OF ok] by simp
  have old: "map_option fst (recorded hist' l old) = Some k" using same [OF assms(2)] assms(3) by simp
  have ad: "addr_ok a" using l(4) by (simp add: gained_def)
  obtain t w where t: "ht_replace hs k old a (en_index e) = (True, t)" "index_rep hs t (C(k \<mapsto> w))" "address_of w = a"
    using verifier.replace_exact [OF log_reader [OF l(2)] rep own old assms(2) ad] by metis
  have cnt': "counted t"
    using counts.replace_kept [OF counted_kept [OF cnt rep], of hs k old a] t(1) by (simp add: counts.kept_def)
  note moved = repointed_ok [OF assms(1) l(4,2,2) refl t(2) cnt' where_is_upd [OF t(3)], of "e\<lparr>en_records := l, en_index := t\<rparr>"]
  have "held hist C e k = Some h" using held_Some [OF assms(1,2)] assms(3) by auto
  then have "(held hist C e)(k \<mapsto> h) = held hist C e" by auto
  then show ?thesis using that [OF l(1) t(1)] moved where_is_upd [OF t(3)] l(3,5-7) same by simp
qed

definition movable :: "History \<Rightarrow> (TxId \<Rightarrow> Slot option) \<Rightarrow> 's PendingEngine \<Rightarrow> (TxId \<times> HoldData \<times> RecordAddr) list \<Rightarrow> bool" where
  "movable hist C e ss \<longleftrightarrow> distinct (map fst ss)
     \<and> (\<forall>(k, h, a)\<in>set ss. where_is C k = Some a \<and> recorded hist (en_records e) a = Some (k, h))"

lemma keep_survivors_ok:
  assumes "engine_ok hist C e" "movable hist C e ss" "rl_next_block (en_records e) + length ss < 2 ^ BLOCK_BITS"
  obtains e' hist' C' where "keep_survivors env began ss e = Some e'" "engine_ok hist' C' e'"
    "held hist' C' e' = held hist C e" "\<And>k. k \<notin> fst ` set ss \<Longrightarrow> where_is C' k = where_is C k"
    "\<And>k. k \<in> fst ` set ss \<Longrightarrow> \<exists>a. where_is C' k = Some a \<and> \<not> is_buffered a"
    "e' = e\<lparr>en_records := en_records e', en_index := en_index e'\<rparr>"
    "rl_oldest (en_records e') = rl_oldest (en_records e)" "rl_buffer (en_records e') = rl_buffer (en_records e)"
    "rl_next_block (en_records e') \<le> rl_next_block (en_records e) + length ss"
  using assms
proof (induction ss arbitrary: hist C e thesis)
  case Nil
  then show ?case by simp
next
  case (Cons s ss)
  obtain k h old where s: "s = (k, h, old)" by (cases s)
  have mv: "where_is C k = Some old" "recorded hist (en_records e) old = Some (k, h)" "k \<notin> fst ` set ss" "movable hist C e ss"
    using Cons.prems(3) s by (auto simp: movable_def)
  have room: "Suc (rl_next_block (en_records e)) < 2 ^ BLOCK_BITS" using Cons.prems(4) by simp
  obtain a l hist1 t C1 where k: "log_keep crc k h began (en_records e) = Some (a, l)"
      "ht_replace hs k old a (en_index e) = (True, t)" "engine_ok hist1 C1 (e\<lparr>en_records := l, en_index := t\<rparr>)"
      "held hist1 C1 (e\<lparr>en_records := l, en_index := t\<rparr>) = held hist C e" "where_is C1 = (where_is C)(k \<mapsto> a)" "\<not> is_buffered a"
      "\<And>j b. where_is C j = Some b \<Longrightarrow> recorded hist1 l b = recorded hist (en_records e) b"
      "rl_oldest l = rl_oldest (en_records e)" "rl_buffer l = rl_buffer (en_records e)"
      "rl_next_block l \<le> Suc (rl_next_block (en_records e))"
    using keep_one [OF Cons.prems(2) mv(1,2) room, of began] by metis
  let ?e = "e\<lparr>en_records := l, en_index := t\<rparr>"
  have "where_is C1 j = Some b \<and> recorded hist1 l b = Some (j, x)" if j: "(j, x, b) \<in> set ss" for j x b
  proof -
    have "where_is C j = Some b" "recorded hist (en_records e) b = Some (j, x)" using mv(4) j by (auto simp: movable_def)
    moreover have "j \<noteq> k" using mv(3) j by force
    ultimately show ?thesis using k(5,7) by simp
  qed
  then have mv1: "movable hist1 C1 ?e ss" using mv(4) by (auto simp: movable_def)
  have room1: "rl_next_block (en_records ?e) + length ss < 2 ^ BLOCK_BITS" using Cons.prems(4) k(10) by simp
  show ?case
  proof (rule Cons.IH [OF _ k(3) mv1 room1], goal_cases)
    case e': (1 e' hist' C')
    show ?case
    proof (rule Cons.prems(1) [OF _ e'(2)])
      show "keep_survivors env began (s # ss) e = Some e'" using e'(1) k(1,2) s by simp
      show "held hist' C' e' = held hist C e" using e'(3) k(4) by simp
      show "where_is C' j = where_is C j" if "j \<notin> fst ` set (s # ss)" for j using that e'(4) [of j] k(5) s by simp
      show "\<exists>a. where_is C' j = Some a \<and> \<not> is_buffered a" if "j \<in> fst ` set (s # ss)" for j
        using that e'(5) [of j] e'(4) [OF mv(3)] k(5,6) s by auto
      show "e' = e\<lparr>en_records := en_records e', en_index := en_index e'\<rparr>" by (subst e'(6)) simp
    qed (use e'(7-9) k(8-10) in simp_all)
  qed
qed

lemma oldest_block_entries:
  assumes "log_ok crc hist l" "rl_oldest l < 2 ^ BLOCK_BITS"
  shows "(k, h, a) \<in> set (oldest_block l) \<longleftrightarrow>
      addr_ok a \<and> is_buffered a \<and> unat (addr_block a) = rl_oldest l \<and> recorded hist l a = Some (k, h)"
    and "distinct (map (snd \<circ> snd) (oldest_block l))" "length (oldest_block l) \<le> RECORDS_PER_BLOCK"
proof -
  obtain f fs where f: "rl_buffer l = f # fs" "fl_filled f \<le> RECORDS_PER_BLOCK"
    using assms(1) by (cases "rl_buffer l") (auto simp: log_ok_def shelf_ok_def filling_wf_def)
  let ?a = "\<lambda>i. addr_buffered (word_of_nat (rl_oldest l)) (word_of_nat i)"
  have seg: "unat BUFFER_SEGMENT < SEGMENT_VALUES" by (simp add: block_consts)
  note parts = addr_new_parts [OF seg assms(2), folded addr_buffered_def]
  have entries: "oldest_block l = map (\<lambda>i. (fst (record_at (fl_bytes f) i), snd (record_at (fl_bytes f) i), ?a i)) [0..<fl_filled f]"
  proof -
    have "List.map_filter (\<lambda>i. map_option (\<lambda>(k, h). (k, h, ?a i)) (filling_get i f)) [0..<n] =
        map (\<lambda>i. (fst (record_at (fl_bytes f) i), snd (record_at (fl_bytes f) i), ?a i)) [0..<min n (fl_filled f)]" for n
      by (induction n) (auto simp: List.map_filter_def filling_get_def min_def split_beta not_le le_Suc_eq less_Suc_eq_le
          dest: le_antisym)
    then show ?thesis using f by (simp add: oldest_block_def min_def)
  qed
  have rec: "recorded hist l a = filling_get (unat (addr_index a)) f" if "is_buffered a" "unat (addr_block a) = rl_oldest l" for a
    using that f(1) by (simp add: log_rec_def buffer_rec_def Let_def)
  have inj: "i = j" if "i < fl_filled f" "j < fl_filled f" "?a i = ?a j" for i j
    using that parts(3) f(2) by (metis less_le_trans)
  show "(k, h, a) \<in> set (oldest_block l) \<longleftrightarrow>
      addr_ok a \<and> is_buffered a \<and> unat (addr_block a) = rl_oldest l \<and> recorded hist l a = Some (k, h)"
  proof
    assume "(k, h, a) \<in> set (oldest_block l)"
    then obtain i where i: "i < fl_filled f" "a = ?a i" "(k, h) = record_at (fl_bytes f) i" by (auto simp: entries)
    have "i < RECORDS_PER_BLOCK" using i(1) f(2) by simp
    note p = parts [OF this]
    have "is_buffered a" "unat (addr_block a) = rl_oldest l" "addr_ok a"
      using p i(2) seg by (simp_all add: is_buffered_def addr_buffered_def)
    then show "addr_ok a \<and> is_buffered a \<and> unat (addr_block a) = rl_oldest l \<and> recorded hist l a = Some (k, h)"
      using rec p(3) i by (simp add: filling_get_def)
  next
    assume a: "addr_ok a \<and> is_buffered a \<and> unat (addr_block a) = rl_oldest l \<and> recorded hist l a = Some (k, h)"
    then have i: "unat (addr_index a) < fl_filled f" "record_at (fl_bytes f) (unat (addr_index a)) = (k, h)"
      using rec [of a] by (auto simp: filling_get_def split: if_splits)
    have "unat (addr_index a) < RECORDS_PER_BLOCK" using i(1) f(2) by simp
    then have "a = ?a (unat (addr_index a))"
      using addr_new_unique [OF seg assms(2) _ conjunct1 [OF a]] a unfolding addr_buffered_def is_buffered_def by blast
    then show "(k, h, a) \<in> set (oldest_block l)" using i by (force simp: entries)
  qed
  show "distinct (map (snd \<circ> snd) (oldest_block l))"
    using inj by (simp add: entries distinct_map inj_on_def)
  show "length (oldest_block l) \<le> RECORDS_PER_BLOCK" using f(2) by (simp add: entries)
qed

lemma survivors_movable:
  assumes "engine_ok hist C e" "rl_oldest (en_records e) < 2 ^ BLOCK_BITS"
  defines "ss \<equiv> filter (\<lambda>(k, h, a). points_at hs (en_index e) k a) (oldest_block (en_records e))"
  shows "movable hist C e ss" "length ss \<le> RECORDS_PER_BLOCK"
    and "\<And>k a. where_is C k = Some a \<Longrightarrow> is_buffered a \<Longrightarrow> unat (addr_block a) = rl_oldest (en_records e) \<Longrightarrow> k \<in> fst ` set ss"
proof -
  have log: "log_ok crc hist (en_records e)" and rep: "index_rep hs (en_index e) C" using assms(1) by (simp_all add: engine_ok_def)
  note entries = oldest_block_entries [OF log assms(2)]
  have points: "points_at hs (en_index e) k a \<longleftrightarrow> where_is C k = Some a" if "recorded hist (en_records e) a = Some (k, h)" for k h a
    using verifier.points_at_exact [OF log_reader [OF log] rep reader_owned [OF assms(1)], of a k] that by simp
  have members: "(k, h, a) \<in> set ss \<longleftrightarrow> (k, h, a) \<in> set (oldest_block (en_records e)) \<and> where_is C k = Some a" for k h a
    using points entries(1) by (auto simp: ss_def)
  have "distinct (map (snd \<circ> snd) ss)" using entries(2) by (auto simp: ss_def distinct_map inj_on_def intro: distinct_filter)
  then have "distinct ss" "inj_on (snd \<circ> snd) (set ss)" by (simp_all add: distinct_map)
  moreover have "inj_on fst (set ss)"
  proof (rule inj_onI)
    fix x y assume x: "x \<in> set ss" "y \<in> set ss" "fst x = fst y"
    then have "snd (snd x) = snd (snd y)" using members by (metis option.inject prod.collapse)
    then show "x = y" using inj_onD [OF calculation(2)] x by simp
  qed
  ultimately have "distinct (map fst ss)" by (simp add: distinct_map)
  then show "movable hist C e ss" using members entries(1) by (auto simp: movable_def)
  show "length ss \<le> RECORDS_PER_BLOCK" using entries(3) unfolding ss_def by (rule le_trans [OF length_filter_le])
  fix k a assume a: "where_is C k = Some a" "is_buffered a" "unat (addr_block a) = rl_oldest (en_records e)"
  obtain h where "recorded hist (en_records e) a = Some (k, h)" using assms(1) a(1) by (auto simp: engine_ok_def)
  then have "(k, h, a) \<in> set ss" using members entries(1) a where_is_addr_ok by blast
  then show "k \<in> fst ` set ss" by force
qed

lemma drain_block_keeps:
  assumes "keeps M e" "rl_oldest (en_records e) < 2 ^ BLOCK_BITS"
    and "rl_next_block (en_records e) + RECORDS_PER_BLOCK < 2 ^ BLOCK_BITS"
  obtains e' where "drain_block env e = Some e'" "keeps M e'" "en_budgets e' = en_budgets e"
    "rl_oldest (en_records e') + length (rl_buffer (en_records e')) = rl_oldest (en_records e) + length (rl_buffer (en_records e))"
    "rl_next_block (en_records e') \<le> rl_next_block (en_records e) + RECORDS_PER_BLOCK"
proof -
  obtain hist C where ok: "engine_ok hist C e" "held hist C e = M" using assms(1) by (auto simp: keeps_def)
  define ss where "ss = filter (\<lambda>(k, h, a). points_at hs (en_index e) k a) (oldest_block (en_records e))"
  note mv = survivors_movable [OF ok(1) assms(2), folded ss_def]
  have room: "rl_next_block (en_records e) + length ss < 2 ^ BLOCK_BITS" using mv(2) assms(3) by simp
  obtain e1 hist1 C1 where e1: "keep_survivors env (oldest_began_at (en_records e)) ss e = Some e1" "engine_ok hist1 C1 e1"
      "held hist1 C1 e1 = held hist C e" "\<And>k. k \<notin> fst ` set ss \<Longrightarrow> where_is C1 k = where_is C k"
      "\<And>k. k \<in> fst ` set ss \<Longrightarrow> \<exists>a. where_is C1 k = Some a \<and> \<not> is_buffered a"
      "e1 = e\<lparr>en_records := en_records e1, en_index := en_index e1\<rparr>"
      "rl_oldest (en_records e1) = rl_oldest (en_records e)" "rl_buffer (en_records e1) = rl_buffer (en_records e)"
      "rl_next_block (en_records e1) \<le> rl_next_block (en_records e) + length ss"
    by (rule keep_survivors_ok [OF ok(1) mv(1) room]) blast
  have bud: "en_budgets e1 = en_budgets e" by (subst e1(6)) simp
  let ?d = "length (oldest_block (en_records e)) - length ss"
  let ?e = "e1\<lparr>en_records := drop_oldest ?d (en_records e1)\<rparr>"
  have gone: "\<not> (is_buffered a \<and> unat (addr_block a) = rl_oldest (en_records e1))" if "where_is C1 k = Some a" for k a
    using that mv(3) [of k a] e1(4) [of k] e1(5) [of k] e1(7) by (cases "k \<in> fst ` set ss") auto
  have log: "log_ok crc hist1 (en_records e1)" using e1(2) by (simp add: engine_ok_def)
  have "keeps M ?e"
  proof (cases "1 < length (rl_buffer (en_records e1))")
    case True
    have "engine_ok hist1 C1 ?e" "held hist1 C1 ?e = held hist1 C1 e1"
      using engine_frame [OF e1(2), of hist1 ?e] drop_oldest_ok [OF log True, of ?d] gone by auto
    then show ?thesis using keepsI e1(3) ok(2) by simp
  next
    case False
    then have "?e = e1" by (simp add: drop_oldest_def)
    then show ?thesis using keepsI [OF e1(2)] e1(3) ok(2) by simp
  qed
  moreover have "drain_block env e = Some ?e" using e1(1) by (simp add: drain_block_def ss_def Let_def)
  moreover have "rl_oldest (en_records ?e) + length (rl_buffer (en_records ?e)) =
      rl_oldest (en_records e) + length (rl_buffer (en_records e))"
    using e1(7,8) by (cases "rl_buffer (en_records e)") (simp_all add: drop_oldest_def)
  moreover have "rl_next_block (en_records ?e) \<le> rl_next_block (en_records e) + RECORDS_PER_BLOCK"
    using e1(9) mv(2) by (simp add: drop_oldest_def)
  ultimately show ?thesis using that [of ?e] bud by simp
qed

lemma drain_blocks_keeps:
  assumes "keeps M e" "room (n * RECORDS_PER_BLOCK) e"
  obtains d e' where "drain_blocks env n m e = Some (d, e')" "keeps M e'" "en_budgets e' = en_budgets e"
  using assms
proof (induction n arbitrary: m e thesis)
  case 0
  then show ?case by simp
next
  case (Suc n)
  show ?case
  proof (cases "over_window (en_records e)")
    case True
    have r: "rl_oldest (en_records e) < 2 ^ BLOCK_BITS" "rl_next_block (en_records e) + RECORDS_PER_BLOCK < 2 ^ BLOCK_BITS"
      using Suc.prems(3) by (auto simp: room_def)
    obtain e1 where e1: "drain_block env e = Some e1" "keeps M e1" "en_budgets e1 = en_budgets e"
        "rl_oldest (en_records e1) + length (rl_buffer (en_records e1)) = rl_oldest (en_records e) + length (rl_buffer (en_records e))"
        "rl_next_block (en_records e1) \<le> rl_next_block (en_records e) + RECORDS_PER_BLOCK"
      using drain_block_keeps [OF Suc.prems(2) r] .
    have "room (n * RECORDS_PER_BLOCK) e1" using Suc.prems(3) e1(4,5) by (simp add: room_def)
    then obtain d e' where "drain_blocks env n (Suc m) e1 = Some (d, e')" "keeps M e'" "en_budgets e' = en_budgets e1"
      using Suc.IH [OF _ e1(2)] by blast
    then show ?thesis using Suc.prems(1) [of d e'] True e1(1,3) by simp
  next
    case False
    then show ?thesis using Suc.prems(1) [of m e] Suc.prems(2) by simp
  qed
qed

lemma drain_keeps:
  assumes "keeps M e" "room (blocks * RECORDS_PER_BLOCK) e"
  obtains any e' where "engine_drain env ops blocks now e = Some (any, e')" "keeps M e'" "en_budgets e' = en_budgets e"
    "rl_pending_writes (en_records e') = []"
proof -
  obtain d e1 where e1: "drain_blocks env blocks 0 e = Some (d, e1)" "keeps M e1" "en_budgets e1 = en_budgets e"
    using drain_blocks_keeps [OF assms] .
  obtain hist C where ok: "engine_ok hist C e1" "held hist C e1 = M" using e1(2) by (auto simp: keeps_def)
  obtain any l where l: "submit_writes ops now (en_records e1) = (any, l)" by fastforce
  have sub: "log_ok crc hist l" "recorded hist l = recorded hist (en_records e1)" "rl_pending_writes l = []"
    using submit_writes_ok [of crc hist "en_records e1" now] ok(1) l by (simp_all add: engine_ok_def)
  let ?e = "e1\<lparr>en_drained_blocks := en_drained_blocks e1 + d, en_records := l\<rparr>"
  have "keeps M ?e" using engine_frame [OF ok(1), of hist ?e] sub ok(2) keepsI by simp
  then show ?thesis using that [of "0 < d \<or> any" ?e] e1(1,3) l sub(3) by (simp add: engine_drain_def)
qed

section \<open>Writing back\<close>

lemma records_keeps:
  assumes "keeps M e" "\<And>hist. log_ok crc hist (en_records e) \<Longrightarrow>
    \<exists>hist'. log_ok crc hist' (en_records e') \<and> recorded hist' (en_records e') = recorded hist (en_records e)"
    "en_index e' = en_index e"
  shows "keeps M e'"
proof -
  obtain hist C where ok: "engine_ok hist C e" "held hist C e = M" using assms(1) by (auto simp: keeps_def)
  then obtain hist' where "log_ok crc hist' (en_records e')" "recorded hist' (en_records e') = recorded hist (en_records e)"
    using assms(2) [of hist] by (auto simp: engine_ok_def)
  then show ?thesis using engine_frame [OF ok(1), of hist' e'] assms(3) ok(2) keepsI by simp
qed

lemma same_log_keeps: "keeps M e \<Longrightarrow> same_log (en_records e) (en_records e') \<Longrightarrow> en_index e' = en_index e \<Longrightarrow> keeps M e'"
  using same_log_ok by (blast intro: records_keeps)

lemma collect_keeps:
  assumes "keeps M e"
  obtains any e' where "engine_collect_writes ops now e = Some (any, e')" "keeps M e'" "en_budgets e' = en_budgets e"
proof -
  obtain hist C where ok: "engine_ok hist C e" "held hist C e = M" using assms by (auto simp: keeps_def)
  then have "log_ok crc hist (en_records e)" by (simp add: engine_ok_def)
  then obtain any l where l: "collect_writes ops now (en_records e) = Some (any, l)" "log_ok crc hist l"
      "recorded hist l = recorded hist (en_records e)"
    using collect_writes_ok by metis
  have "keeps M (e\<lparr>en_records := l\<rparr>)"
    using engine_frame [OF ok(1), of hist "e\<lparr>en_records := l\<rparr>"] l(2,3) ok(2) keepsI by simp
  then show ?thesis using that l(1) by (simp add: engine_collect_writes_def)
qed

lemma sync_keeps:
  assumes "keeps M e"
  shows "keeps M (snd (engine_sync ops now e))"
proof (rule records_keeps [OF assms])
  fix hist assume "log_ok crc hist (en_records e)"
  from log_sync_ok [OF this, of now]
  show "\<exists>hist'. log_ok crc hist' (en_records (snd (engine_sync ops now e)))
      \<and> recorded hist' (en_records (snd (engine_sync ops now e))) = recorded hist (en_records e)"
    by (auto simp: engine_sync_def split_beta)
qed (simp add: engine_sync_def split_beta)

section \<open>Days\<close>

lemma open_day_keeps:
  assumes "keeps M e" "rl_next_block (en_records e) < 2 ^ BLOCK_BITS"
  shows "keeps M (snd (engine_open_day env day lifetime e))"
proof (rule records_keeps [OF assms(1)])
  fix hist assume ok: "log_ok crc hist (en_records e)"
  show "\<exists>hist'. log_ok crc hist' (en_records (snd (engine_open_day env day lifetime e)))
      \<and> recorded hist' (en_records (snd (engine_open_day env day lifetime e))) = recorded hist (en_records e)"
    using log_open_day_ok [OF ok assms(2), of day] ok by (auto simp: engine_open_day_def Let_def split: option.split)
qed (simp add: engine_open_day_def Let_def split: option.split)

text \<open>A day none of whose records the index counts has none the index points at.\<close>

lemma uncounted_segment:
  assumes "engine_ok hist C e" "table_slots (en_index e) < 2 ^ 32" "s < SEGMENT_VALUES" "live_in e s = 0"
    and "where_is C k = Some a"
  shows "unat (addr_segment a) \<noteq> s"
proof
  assume s: "unat (addr_segment a) = s"
  obtain w where w: "C k = Some w" "address_of w = a" using assms(5) by (auto simp: where_is_def)
  obtain pos where pos: "placed hs (en_index e) C pos" using assms(1) by (auto simp: engine_ok_def index_rep_def)
  note f = placed_facts [OF pos w(1)]
  have at: "pos k \<in> cells (in_segment s) (en_index e)" using f(1,4,5) w(2) s by (simp add: cells_def)
  have "card (cells (in_segment s) (en_index e)) < 2 ^ 32" using cells_small [OF assms(2)] .
  moreover have "(of_nat (card (cells (in_segment s) (en_index e))) :: u32) = 0"
    using assms(1,3,4) by (simp add: engine_ok_def counted_def live_in_def)
  ultimately have "card (cells (in_segment s) (en_index e)) = 0"
    by (auto simp: word_of_nat_eq_0_iff dest: nat_dvd_not_less)
  then show False using at by (simp add: card_eq_0_iff)
qed

lemma reclaim_segment_keeps:
  assumes "keeps M e" "table_slots (en_index e) < 2 ^ 32" "s < SEGMENTS"
  shows "keeps M (snd (reclaim_segment s (n, e)))" "en_index (snd (reclaim_segment s (n, e))) = en_index e"
    "en_budgets (snd (reclaim_segment s (n, e))) = en_budgets e"
proof -
  let ?seg = "word_of_nat s :: u8" and ?e = "e\<lparr>en_records := snd (free_segment (word_of_nat s) (en_records e))\<rparr>"
  have s: "unat ?seg = s" "s < SEGMENT_VALUES" using assms(3) word_nat_small(2) by (simp_all add: SEGMENTS_eq block_consts)
  obtain hist C where ok: "engine_ok hist C e" "held hist C e = M" using assms(1) by (auto simp: keeps_def)
  have log: "log_ok crc hist (en_records e)" using ok(1) by (simp add: engine_ok_def)
  have sv: "unat ?seg < SEGMENT_VALUES" using s by simp
  have "keeps M ?e" if "live_in e s = 0"
  proof -
    have "recorded hist (en_records ?e) a = recorded hist (en_records e) a" if a: "where_is C k = Some a" for k a
      using uncounted_segment [OF ok(1) assms(2) s(2) \<open>live_in e s = 0\<close> a] free_segment_ok(2) [OF log sv] s(1) by auto
    then have "engine_ok hist C ?e" "held hist C ?e = held hist C e"
      using engine_frame [OF ok(1), of hist ?e] free_segment_ok(1) [OF log sv] by simp_all
    then show ?thesis using keepsI ok(2) by simp
  qed
  then show "keeps M (snd (reclaim_segment s (n, e)))" "en_index (snd (reclaim_segment s (n, e))) = en_index e"
    "en_budgets (snd (reclaim_segment s (n, e))) = en_budgets e"
    using assms(1) by (auto simp: reclaim_segment_def Let_def split_beta word_gt_0)
qed

lemma reclaim_keeps:
  assumes "keeps M e" "table_slots (en_index e) < 2 ^ 32"
  shows "keeps M (snd (reclaim e))" "en_budgets (snd (reclaim e)) = en_budgets e"
proof -
  have "keeps M (snd (fold reclaim_segment ss (n, e))) \<and> en_budgets (snd (fold reclaim_segment ss (n, e))) = en_budgets e"
    if "set ss \<subseteq> {..<SEGMENTS}" "keeps M e" "table_slots (en_index e) < 2 ^ 32" for ss n and e :: "'s PendingEngine"
    using that
  proof (induction ss arbitrary: n e)
    case (Cons s ss)
    obtain n' e' where e': "reclaim_segment s (n, e) = (n', e')" by fastforce
    have "keeps M e'" "en_index e' = en_index e" "en_budgets e' = en_budgets e"
      using reclaim_segment_keeps [OF Cons.prems(2,3), of s n] Cons.prems(1) e' by simp_all
    then show ?case using Cons.IH [of e' n'] Cons.prems e' by simp
  qed simp
  then show "keeps M (snd (reclaim e))" "en_budgets (snd (reclaim e)) = en_budgets e"
    using assms unfolding reclaim_def by (auto simp: lessThan_atLeast0)
qed

section \<open>A new engine\<close>

lemma log_new_ok:
  assumes "inv store" "\<And>obj. view store obj = Map.empty"
  shows "log_ok crc (\<lambda>_. None) (log_new store flush resident)"
  using assms by (simp add: log_ok_def shelf_ok_def notes_ok_def volume_ok_def log_new_def range_default_def block_consts)

lemma engine_sized_keeps:
  assumes "slots \<le> 2 ^ 34" "inv store" "\<And>obj. view store obj = Map.empty"
  shows "keeps Map.empty (engine_sized slots flush resident store)"
proof (rule keepsI)
  show "engine_ok (\<lambda>_. None) (\<lambda>_. None) (engine_sized slots flush resident store)"
    using with_slots_counted [of slots] log_new_ok [OF assms(2,3)] with_capacity_rep [OF assms(1)]
    by (simp add: engine_ok_def engine_sized_def with_slots_def where_is_def)
qed (simp add: held_def where_is_def fun_eq_iff)

section \<open>The sweep\<close>

lemma submit_same: "unat (addr_segment a) < OBJECT_VALUES \<Longrightarrow> inv (rl_store l) \<Longrightarrow> same_log l (snd (log_fetch ops h a now l))"
  using submit_law [of "rl_store l" "unat (addr_segment a)" h "unat (addr_block a)" now]
  by (cases "st_submit ops h (unat (addr_segment a)) (unat (addr_block a) * BLOCK_BYTES) now (rl_store l)")
     (auto simp: log_fetch_def same_log_def object_segment_def block_offset_nat)

lemma walk_day_same:
  assumes "inv (rl_store l)" "unat segment < OBJECT_VALUES"
  shows "same_log l (snd (snd (walk_day_block ops segment at now l)))"
  using assms submit_law [of "rl_store l" "unat segment" "io_handle OwnSweep (word_of_nat (rl_sweep_handles l + 1))" _ now]
  by (auto simp: walk_day_block_def Let_def object_segment_def same_log_def split: option.split prod.split)

lemma sweep_blocks_keeps:
  assumes "keeps M e" "unat segment < OBJECT_VALUES"
  shows "keeps M (snd (sweep_blocks env ops segment now n e into))"
    "en_budgets (snd (sweep_blocks env ops segment now n e into)) = en_budgets e"
proof -
  have "keeps M (snd (sweep_blocks env ops segment now n e into))
      \<and> en_budgets (snd (sweep_blocks env ops segment now n e into)) = en_budgets e"
    using assms(1)
  proof (induction n arbitrary: e into)
    case (Suc n)
    obtain walked visited l where w: "walk_day_block ops segment (sw_at_block (en_sweep e)) now (en_records e) = (walked, visited, l)"
      by (metis prod_cases3)
    have "inv (rl_store (en_records e))" using Suc.prems by (auto simp: keeps_def engine_ok_def log_ok_def)
    then have "same_log (en_records e) l" using walk_day_same [OF _ assms(2)] w by (metis snd_conv)
    then have "keeps M e'" if "en_records e' = l" "en_index e' = en_index e" for e'
      using that same_log_keeps [OF Suc.prems, of e'] by simp
    then show ?case using Suc.IH w by (simp add: Let_def split: Walked.split)
  qed simp
  then show "keeps M (snd (sweep_blocks env ops segment now n e into))"
    "en_budgets (snd (sweep_blocks env ops segment now n e into)) = en_budgets e" by simp_all
qed

lemma propose_keeps:
  assumes "keeps M e"
  shows "keeps M (snd (propose_expiry env ops blocks now e))"
    "en_budgets (snd (propose_expiry env ops blocks now e)) = en_budgets e"
proof -
  have frame: "keeps M e'" if "en_records e' = en_records e" "en_index e' = en_index e" for e'
    using that assms keeps_cong by blast
  have segment: "unat segment < OBJECT_VALUES" if exp: "expiring_segment e = Some segment" for segment
  proof -
    obtain day where "segment = word_of_nat (day mod SEGMENTS)" using exp by (auto simp: expiring_segment_def)
    then show ?thesis using segment_of_day_small [of day] by (simp add: OBJECT_VALUES_def block_consts)
  qed
  note sweep = sweep_blocks_keeps [OF frame segment]
  show "keeps M (snd (propose_expiry env ops blocks now e))"
    "en_budgets (snd (propose_expiry env ops blocks now e)) = en_budgets e"
    using assms frame sweep by (auto simp: propose_expiry_def Let_def split: option.split)
qed

section \<open>Lookups that may wait\<close>

lemma try_read_recorded:
  assumes "log_ok crc hist l" "recorded hist l a = Some r" "try_read a l = (Some r', l')"
  shows "r' = r"
proof -
  obtain l1 where "log_read crc ops a l = (Some r, l1)" using log_read_recorded [OF assms(1,2)] by blast
  then show ?thesis using assms(3) by (simp add: log_read_def)
qed

text \<open>A walk that answers at once answers from the books; one that does not has asked the store.\<close>

lemma walk_from_answers:
  assumes "engine_ok hist C e" "\<forall>c\<in>set cs. \<exists>j. where_is C j = Some (fst c)"
    and "walk_from ops key all handle now at cs e = (Answered answer, e')"
  shows "keeps (held hist C e) e'" "en_budgets e' = en_budgets e"
    and "case answer of
        Some x \<Rightarrow> \<exists>h. held hist C e key = Some h \<and> x = with_group e h
      | None \<Rightarrow> \<forall>c\<in>set cs. where_is C key \<noteq> Some (fst c)"
proof -
  have "keeps (held hist C e) e' \<and> en_budgets e' = en_budgets e \<and> (case answer of
        Some x \<Rightarrow> \<exists>h. held hist C e key = Some h \<and> x = with_group e h
      | None \<Rightarrow> \<forall>c\<in>set cs. where_is C key \<noteq> Some (fst c))"
    using assms
  proof (induction cs arbitrary: at e)
    case Nil
    then show ?case using keepsI by auto
  next
    case (Cons c cs)
    obtain j where j: "where_is C j = Some (fst c)" using Cons.prems(2) by auto
    obtain h where h: "held hist C e j = Some h" "recorded hist (en_records e) (fst c) = Some (j, h)"
      using held_Some [OF Cons.prems(1) j] by blast
    have log: "log_ok crc hist (en_records e)" using Cons.prems(1) by (simp add: engine_ok_def)
    obtain found l where r: "try_read (fst c) (en_records e) = (found, l)" by fastforce
    let ?e = "e\<lparr>en_records := l\<rparr>"
    have "same_log (en_records e) l" using try_read_same [of "en_records e" "fst c"] r by simp
    from same_log_ok [OF this log] have ok: "engine_ok hist C ?e" "held hist C ?e = held hist C e"
      using engine_frame [OF Cons.prems(1), of hist ?e] by simp_all
    have grp: "with_group ?e = with_group e" by (simp add: with_group_def fun_eq_iff)
    obtain taken l2 where fetch: "log_fetch ops handle (fst c) now l = (taken, l2)" by fastforce
    show ?case
    proof (cases found)
      case None
      then show ?thesis using Cons.prems(3) r fetch by (simp add: Let_def split: if_splits)
    next
      case (Some q)
      then have q: "q = (j, h)" using try_read_recorded [OF log h(2)] r by simp
      show ?thesis
      proof (cases "j = key")
        case True
        then show ?thesis using Cons.prems(3) r Some q grp keepsI [OF ok] h(1) by auto
      next
        case False
        then have "walk_from ops key all handle now (Suc at) cs ?e = (Answered answer, e')"
          using Cons.prems(3) r Some q by simp
        from Cons.IH [OF ok(1) _ this] Cons.prems(2)
        have "keeps (held hist C e) e' \<and> en_budgets e' = en_budgets e \<and> (case answer of
            Some x \<Rightarrow> \<exists>h. held hist C e key = Some h \<and> x = with_group e h
          | None \<Rightarrow> \<forall>c\<in>set cs. where_is C key \<noteq> Some (fst c))"
          unfolding ok(2) grp by simp
        moreover have "where_is C key \<noteq> Some (fst c)"
          using False h(2) held_Some [OF Cons.prems(1), of key "fst c"] by auto
        ultimately show ?thesis by (auto split: option.splits)
      qed
    qed
  qed
  then show "keeps (held hist C e) e'" "en_budgets e' = en_budgets e" "case answer of
        Some x \<Rightarrow> \<exists>h. held hist C e key = Some h \<and> x = with_group e h
      | None \<Rightarrow> \<forall>c\<in>set cs. where_is C key \<noteq> Some (fst c)" by simp_all
qed

lemma begin_lookup_answers:
  assumes "keeps M e" "begin_lookup env ops handle key now e = (Answered answer, e')"
  shows "answer = map_option (with_group e) (M key)" "keeps M e'" "en_budgets e' = en_budgets e"
proof -
  obtain hist C where ok: "engine_ok hist C e" "held hist C e = M" using assms(1) by (auto simp: keeps_def)
  obtain pos where pos: "placed hs (en_index e) C pos" using ok(1) by (auto simp: engine_ok_def index_rep_def)
  let ?cs = "candidates hs (en_index e) key"
  have own: "\<forall>c\<in>set ?cs. \<exists>j. where_is C j = Some (fst c)"
  proof
    fix c assume "c \<in> set ?cs"
    then obtain j w where "C j = Some w" "c = (address_of w, pos j)" using candidate_owner [OF pos] by blast
    then show "\<exists>j. where_is C j = Some (fst c)" by (auto simp: where_is_def)
  qed
  have mine: "\<exists>c\<in>set ?cs. where_is C key = Some (fst c)" if "where_is C key \<noteq> None"
    using that candidate_of [OF pos _ same_class_refl, of key] by (force simp: where_is_def)
  have run: "walk_from ops key ?cs handle now 0 ?cs e = (Answered answer, e')"
    using assms(2) by (simp add: begin_lookup_def engine_walk_def)
  note a = walk_from_answers [OF ok(1) own run]
  show "keeps M e'" "en_budgets e' = en_budgets e" using a(1,2) ok(2) by simp_all
  show "answer = map_option (with_group e) (M key)"
  proof (cases answer)
    case None
    then have "where_is C key = None" using a(3) mine by (cases "where_is C key") auto
    then show ?thesis using held_None [of C key hist e] ok(2) None by simp
  next
    case (Some x)
    then show ?thesis using a(3) ok(2) by auto
  qed
qed

end

interpretation mem: engine_over memory_ops store_wf memory_view memory_reads mst_written env for env
  by unfold_locales

section \<open>Runs\<close>

datatype Operation =
    OpWrite PendingEffect ApplyIndex
  | OpLookup TxId
  | OpDrain nat nat
  | OpCollect nat
  | OpSync nat
  | OpOpenDay nat nat
  | OpExpiry nat nat
  | OpReclaim

datatype Reply = Stored | Overflowed TxId | Held "HoldData option" | Quiet

text \<open>The engine's side, and the side of the books.\<close>

definition engine_do :: "Env \<Rightarrow> 's DurableStore \<Rightarrow> Operation \<Rightarrow> 's PendingEngine \<Rightarrow> (Reply \<times> 's PendingEngine) option" where
  "engine_do env ops op e =
     (case op of
        OpWrite effect at \<Rightarrow> map_option (map_prod (case_sum Overflowed (\<lambda>_. Stored)) id) (engine_write env ops effect at e)
      | OpLookup k \<Rightarrow> Some (map_prod Held id (engine_lookup env ops k e))
      | OpDrain blocks now \<Rightarrow> map_option (map_prod (\<lambda>_. Quiet) id) (engine_drain env ops blocks now e)
      | OpCollect now \<Rightarrow> map_option (map_prod (\<lambda>_. Quiet) id) (engine_collect_writes ops now e)
      | OpSync now \<Rightarrow> Some (Quiet, snd (engine_sync ops now e))
      | OpOpenDay day lifetime \<Rightarrow> Some (Quiet, snd (engine_open_day env day lifetime e))
      | OpExpiry blocks now \<Rightarrow> Some (Quiet, snd (propose_expiry env ops blocks now e))
      | OpReclaim \<Rightarrow> Some (Quiet, snd (reclaim e)))"

fun engine_run :: "Env \<Rightarrow> 's DurableStore \<Rightarrow> Operation list \<Rightarrow> 's PendingEngine \<Rightarrow> (Reply list \<times> 's PendingEngine) option" where
  "engine_run env ops [] e = Some ([], e)"
| "engine_run env ops (op # rest) e =
     (case engine_do env ops op e of
        None \<Rightarrow> None
      | Some (r, e1) \<Rightarrow> map_option (map_prod (Cons r) id) (engine_run env ops rest e1))"

definition in_group :: "Groups \<Rightarrow> HoldData \<Rightarrow> HoldData" where
  "in_group G h =
     (case G (hd_budget h) of
        Some s \<Rightarrow> h\<lparr>hd_budget_members := bs_members s, hd_budget_remaining := bs_remaining s\<rparr>
      | None \<Rightarrow> h)"

fun books_do :: "Operation \<Rightarrow> Holds \<times> Groups \<Rightarrow> Reply \<times> Holds \<times> Groups" where
  "books_do (OpWrite effect at) (M, G) = (Stored, holds_after effect M, groups_after effect M G)"
| "books_do (OpLookup k) (M, G) = (Held (map_option (in_group G) (M k)), M, G)"
| "books_do op (M, G) = (Quiet, M, G)"

fun books_run :: "Operation list \<Rightarrow> Holds \<times> Groups \<Rightarrow> Reply list \<times> Holds \<times> Groups" where
  "books_run [] B = ([], B)"
| "books_run (op # rest) B = (let (r, B1) = books_do op B; (rs, B2) = books_run rest B1 in (r # rs, B2))"

text \<open>
  When an operation fits. A create names a hold that is not there; a lookup, reduction or removal of a hold that is
  not there meets no unmarked entry of its class; numbers have room in their fields.
\<close>

definition op_fits :: "Env \<Rightarrow> Holds \<Rightarrow> 's PendingEngine \<Rightarrow> Operation \<Rightarrow> bool" where
  "op_fits env M e op =
     (case op of
        OpWrite effect at \<Rightarrow> effect_fits env M e effect \<and> room 0 e \<and> 0 < at
      | OpLookup k \<Rightarrow> M k = None \<longrightarrow> \<not> mistaken env e k
      | OpDrain blocks _ \<Rightarrow> room (blocks * RECORDS_PER_BLOCK) e
      | OpOpenDay _ _ \<Rightarrow> room 0 e
      | OpReclaim \<Rightarrow> table_slots (en_index e) < 2 ^ 32
      | _ \<Rightarrow> True)"

text \<open>Every operation of a run fits where it comes, and the index takes every hold.\<close>

fun run_fits :: "Env \<Rightarrow> 's DurableStore \<Rightarrow> Operation list \<Rightarrow> Holds \<times> Groups \<Rightarrow> 's PendingEngine \<Rightarrow> bool" where
  "run_fits env ops [] B e \<longleftrightarrow> True"
| "run_fits env ops (op # rest) B e \<longleftrightarrow> op_fits env (fst B) e op
     \<and> (case engine_do env ops op e of
          None \<Rightarrow> True
        | Some (Overflowed _, _) \<Rightarrow> False
        | Some (_, e1) \<Rightarrow> run_fits env ops rest (snd (books_do op B)) e1)"

lemma with_group_books: "with_group e = in_group (map_of (en_budgets e))"
  by (simp add: fun_eq_iff with_group_def in_group_def)

context engine_over
begin

definition agrees :: "Holds \<times> Groups \<Rightarrow> 's PendingEngine \<Rightarrow> bool" where
  "agrees B e \<longleftrightarrow> keeps (fst B) e \<and> map_of (en_budgets e) = snd B"

text \<open>One operation.\<close>

lemma engine_step_agrees:
  assumes "agrees B e" "op_fits env (fst B) e op"
  obtains r e' where "engine_do env ops op e = Some (r, e')"
    "(\<exists>k. r = Overflowed k) \<or> r = fst (books_do op B) \<and> agrees (snd (books_do op B)) e'"
proof -
  obtain M G where B: "B = (M, G)" by (cases B)
  have k: "keeps M e" and g: "map_of (en_budgets e) = G" using assms(1) B by (simp_all add: agrees_def)
  note fits = assms(2) [unfolded B fst_conv op_fits_def]
  show ?thesis
  proof (cases op)
    case (OpWrite effect at)
    then have "effect_fits env M e effect" "room 0 e" "0 < at" using fits by simp_all
    then obtain r e' where "engine_write env ops effect at e = Some (r, e')"
        "map_of (en_budgets e') = groups_after effect M G"
        "r = Inr () \<and> keeps (holds_after effect M) e'
         \<or> (\<exists>k j d c a l b. effect = Create k d c a l b \<and> r = Inl k \<and> keeps ((holds_after effect M)(j := None)) e')"
      using write_keeps [OF k] g by metis
    then show ?thesis using that OpWrite B by (auto simp: engine_do_def agrees_def)
  next
    case (OpLookup key)
    then obtain e' where e': "engine_lookup env ops key e = (map_option (with_group e) (M key), e')" "keeps M e'"
        "e' = e\<lparr>en_records := en_records e'\<rparr>"
      using lookup_keeps [OF k, of key] fits by auto
    have "en_budgets e' = en_budgets e" by (subst e'(3)) simp
    then show ?thesis
      using that [of "Held (map_option (in_group G) (M key))" e'] e'(1,2) OpLookup B g
      by (simp add: engine_do_def agrees_def with_group_books)
  next
    case (OpDrain blocks now)
    then have "room (blocks * RECORDS_PER_BLOCK) e" using fits by simp
    then obtain any e' where "engine_drain env ops blocks now e = Some (any, e')" "keeps M e'" "en_budgets e' = en_budgets e"
      using drain_keeps [OF k] by metis
    then show ?thesis using that [of Quiet e'] OpDrain B g by (simp add: engine_do_def agrees_def)
  next
    case (OpCollect now)
    obtain any e' where "engine_collect_writes ops now e = Some (any, e')" "keeps M e'" "en_budgets e' = en_budgets e"
      using collect_keeps [OF k] .
    then show ?thesis using that [of Quiet e'] OpCollect B g by (simp add: engine_do_def agrees_def)
  next
    case (OpSync now)
    have "en_budgets (snd (engine_sync ops now e)) = en_budgets e" by (simp add: engine_sync_def split_beta)
    then show ?thesis
      using that [of Quiet "snd (engine_sync ops now e)"] sync_keeps [OF k, of now] OpSync B g
      by (simp add: engine_do_def agrees_def)
  next
    case (OpOpenDay day lifetime)
    have "rl_next_block (en_records e) < 2 ^ BLOCK_BITS" using fits OpOpenDay by (simp add: room_def)
    moreover have "en_budgets (snd (engine_open_day env day lifetime e)) = en_budgets e"
      by (simp add: engine_open_day_def Let_def split: option.split)
    ultimately show ?thesis
      using that [of Quiet "snd (engine_open_day env day lifetime e)"] open_day_keeps [OF k, of day lifetime] OpOpenDay B g
      by (simp add: engine_do_def agrees_def)
  next
    case (OpExpiry blocks now)
    then show ?thesis
      using that [of Quiet "snd (propose_expiry env ops blocks now e)"] propose_keeps [OF k, of blocks now] B g
      by (simp add: engine_do_def agrees_def)
  next
    case OpReclaim
    then show ?thesis
      using that [of Quiet "snd (reclaim e)"] reclaim_keeps [OF k] fits B g by (simp add: engine_do_def agrees_def)
  qed
qed

lemma engine_run_agrees:
  assumes "agrees B e" "run_fits env ops os B e"
  shows "\<exists>e'. engine_run env ops os e = Some (fst (books_run os B), e') \<and> agrees (snd (books_run os B)) e'"
  using assms
proof (induction os arbitrary: B e)
  case (Cons op os)
  have "op_fits env (fst B) e op" using Cons.prems(2) by simp
  from engine_step_agrees [OF Cons.prems(1) this] obtain r e1 where e1: "engine_do env ops op e = Some (r, e1)"
      "(\<exists>k. r = Overflowed k) \<or> r = fst (books_do op B) \<and> agrees (snd (books_do op B)) e1" .
  then have "r = fst (books_do op B)" "agrees (snd (books_do op B)) e1" "run_fits env ops os (snd (books_do op B)) e1"
    using Cons.prems(2) by (auto split: Reply.splits)
  then show ?case using Cons.IH e1(1) by (fastforce simp: Let_def split_beta)
qed simp

end

lemma new_engine_agrees:
  assumes "slots \<le> 2 ^ 34"
  shows "mem.agrees env (Map.empty, Map.empty) (engine_sized slots flush resident memory_store)"
proof -
  have "store_wf memory_store" "memory_view memory_store obj = Map.empty" for obj
    by (auto simp: store_wf_def memory_store_def memory_view_def fun_eq_iff)
  then have "mem.keeps env Map.empty (engine_sized slots flush resident memory_store)"
    using mem.engine_sized_keeps [OF assms] by blast
  then show ?thesis by (simp add: mem.agrees_def engine_sized_def)
qed

text \<open>C5: the pending engine is a map of holds. When a run of decisions, lookups, drains of the writeback buffer, collected
  writes, syncs, new days, expiry rounds and reclaimed days fits a new engine over the memory store, its index of at
  most 2^34 slots, the engine does not panic and answers every lookup as plain maps of holds and of budget groups would.
  A run fits when every create names a hold that is not there; amounts are in range and no write is at index zero; the
  index stores every hold (an overflow, which the engine reports, ends the run); a lookup, reduction or removal of a hold
  that is not there meets no unmarked entry of its fingerprint class (such an entry is taken for it: see the findings);
  numbers have room in their address fields; and a day is reclaimed only while the index has fewer than 2^32 slots.\<close>

theorem engine_refines_map_of_holds:
  assumes "slots \<le> 2 ^ 34"
    and "run_fits env memory_ops os (Map.empty, Map.empty) (engine_sized slots flush resident memory_store)"
  shows "\<exists>e. engine_run env memory_ops os (engine_sized slots flush resident memory_store)
      = Some (fst (books_run os (Map.empty, Map.empty)), e)"
  using mem.engine_run_agrees [OF new_engine_agrees [OF assms(1)] assms(2)] by blast

text \<open>C19: a lookup that is answered without waiting for the volume is answered from the same map. After a run that fits
  the engine (creates name holds that are not there, the index overflows never, and the run's lookups, reductions and
  removals of absent holds meet no unmarked entry of their fingerprint class, with amounts, addresses and reclaims in
  range), the lookup of any hold, present or not, clash or no clash, that is answered at once is answered with the hold
  the map has and its group's totals, and with none only when the map has none.\<close>

theorem immediate_answer_is_the_maps:
  assumes "slots \<le> 2 ^ 34"
    and "run_fits env memory_ops os (Map.empty, Map.empty) (engine_sized slots flush resident memory_store)"
    and "engine_run env memory_ops os (engine_sized slots flush resident memory_store) = Some (replies, e)"
    and "begin_lookup env memory_ops handle key now e = (Answered answer, e')"
  shows "answer = (case snd (books_run os (Map.empty, Map.empty)) of (M, G) \<Rightarrow> map_option (in_group G) (M key))"
proof -
  obtain M G where B: "snd (books_run os (Map.empty, Map.empty)) = (M, G)" by fastforce
  have "mem.agrees env (M, G) e"
    using mem.engine_run_agrees [OF new_engine_agrees [OF assms(1)] assms(2)] assms(3) B by auto
  then have "mem.keeps env M e" "map_of (en_budgets e) = G" by (simp_all add: mem.agrees_def)
  then show ?thesis using mem.begin_lookup_answers(1) [OF _ assms(4)] B by (simp add: with_group_books)
qed

lemma run_fits_quiet:
  assumes "\<And>effect at. op \<noteq> OpWrite effect at" "op_fits env (fst B) e op"
    and "\<And>e1. run_fits env ops rest (snd (books_do op B)) e1"
  shows "run_fits env ops (op # rest) B e"
  using assms by (cases op) (auto simp: engine_do_def map_prod_def split: option.split prod.split)

definition plain_env :: Env where
  "plain_env = \<lparr>env_hash = \<lparr>hash_u128 = ucast, hash_u64 = id\<rparr>, env_crc = (\<lambda>_. 0)\<rparr>"

definition small_engine :: "MemoryStore PendingEngine" where
  "small_engine = engine_sized 8 1 4 memory_store"

definition small_index :: HoldTable where
  "small_index = snd (insert_new (env_hash plain_env) 7 (addr_buffered 0 0) (with_slots 8))"

lemma small_engine_stores:
  obtains e1 f where "engine_write plain_env memory_ops (Create 7 1 2 100 1 0) 1 small_engine = Some (Inr (), e1)"
    "en_index e1 = small_index" "rl_buffer (en_records e1) = [f]" "fl_filled f = 1" "rl_oldest (en_records e1) = 0"
proof -
  have "fst (insert_new (env_hash plain_env) 7 (addr_buffered 0 0) (with_slots 8)) = Inr ()" by code_simp
  then obtain t where "insert_new (env_hash plain_env) 7 (addr_buffered 0 0) (with_slots 8) = (Inr (), t)"
    by (metis prod.collapse)
  moreover have "hd_budget (new_hold 1 2 100 100 1 0) = 0" by (simp add: new_hold_def)
  ultimately show ?thesis
    using that
    by (simp add: engine_write_def apply_effect_def apply_create_def engine_put_def small_engine_def engine_sized_def small_index_def
        log_append_def log_new_def filling_full_def filling_new_def block_consts filling_put_at_def filling_put_def block_zeroed_def
        count_member_def is_absent_def Let_def)
qed

lemma small_engine_takes_hold:
  "\<exists>e1. engine_write plain_env memory_ops (Create 7 1 2 100 1 0) 1 small_engine = Some (Inr (), e1)"
  using small_engine_stores by metis

definition sample_operations :: "Operation list" where
  "sample_operations =
     [OpWrite (Create 7 1 2 100 1 0) 1, OpLookup 7, OpExpiry 1 0, OpSync 0, OpCollect 0, OpLookup 7]"

lemma sample_operations_fit: "run_fits plain_env memory_ops sample_operations (Map.empty, Map.empty) small_engine"
proof -
  obtain e1 where "engine_write plain_env memory_ops (Create 7 1 2 100 1 0) 1 small_engine = Some (Inr (), e1)"
    using small_engine_takes_hold by blast
  moreover have "effect_fits plain_env Map.empty small_engine (Create 7 1 2 100 1 0)" "room 0 small_engine"
    by (simp_all add: effect_fits_def i64_ok_def room_def small_engine_def engine_sized_def log_new_def block_consts)
  moreover have "run_fits plain_env memory_ops (tl sample_operations)
      (snd (books_do (OpWrite (Create 7 1 2 100 1 0) 1) (Map.empty, Map.empty))) e1"
    by (simp only: sample_operations_def list.sel, intro run_fits_quiet; simp add: op_fits_def)
  ultimately show ?thesis by (simp add: sample_operations_def op_fits_def engine_do_def)
qed

lemma engine_refines_map_of_holds_witness:
  "\<exists>e. engine_run plain_env memory_ops sample_operations (engine_sized 8 1 4 memory_store) =
     Some ([Stored, Held (Some (new_hold 1 2 100 100 1 0)), Quiet, Quiet, Quiet, Held (Some (new_hold 1 2 100 100 1 0))], e)"
proof -
  have "fst (books_run sample_operations (Map.empty, Map.empty)) =
      [Stored, Held (Some (new_hold 1 2 100 100 1 0)), Quiet, Quiet, Quiet, Held (Some (new_hold 1 2 100 100 1 0))]"
    by (simp add: sample_operations_def in_group_def is_absent_def)
  then show ?thesis
    using engine_refines_map_of_holds [of 8 plain_env sample_operations 1 4] sample_operations_fit
    by (simp add: small_engine_def)
qed

text \<open>The hold just written is still in the buffer, so its lookup is answered at once.\<close>

lemma immediate_answer_is_the_maps_witness:
  "\<exists>e e'. engine_run plain_env memory_ops [OpWrite (Create 7 1 2 100 1 0) 1] small_engine = Some ([Stored], e)
     \<and> begin_lookup plain_env memory_ops 1 7 0 e = (Answered (Some (new_hold 1 2 100 100 1 0)), e')"
proof -
  let ?op = "OpWrite (Create 7 1 2 100 1 0) 1"
  obtain e1 f where e1: "engine_write plain_env memory_ops (Create 7 1 2 100 1 0) 1 small_engine = Some (Inr (), e1)"
    "en_index e1 = small_index" "rl_buffer (en_records e1) = [f]" "fl_filled f = 1" "rl_oldest (en_records e1) = 0"
    by (rule small_engine_stores)
  have run: "engine_run plain_env memory_ops [?op] small_engine = Some ([Stored], e1)"
    using e1(1) by (simp add: engine_do_def)
  have "effect_fits plain_env Map.empty small_engine (Create 7 1 2 100 1 0)" "room 0 small_engine"
    by (simp_all add: effect_fits_def i64_ok_def room_def small_engine_def engine_sized_def log_new_def block_consts)
  then have fits: "run_fits plain_env memory_ops [?op] (Map.empty, Map.empty) small_engine"
    using e1(1) by (simp add: op_fits_def engine_do_def)
  have "map fst (candidates (env_hash plain_env) small_index 7) = [addr_buffered 0 0]" by code_simp
  then obtain at where one: "candidates (env_hash plain_env) small_index 7 = [(addr_buffered 0 0, at)]" by auto
  have "is_buffered (addr_buffered 0 0)" "addr_block (addr_buffered 0 0) = 0" "addr_index (addr_buffered 0 0) = 0" by code_simp+
  then obtain k hold l where "try_read (addr_buffered 0 0) (en_records e1) = (Some (k, hold), l)"
    using e1(3-5) by (cases "record_at (fl_bytes f) 0") (auto simp: try_read_def filling_get_def)
  then have "\<exists>answer e'. begin_lookup plain_env memory_ops 1 7 0 e1 = (Answered answer, e')"
    by (cases "k = 7") (simp_all add: begin_lookup_def engine_walk_def e1(2) one Let_def)
  then obtain answer e' where a: "begin_lookup plain_env memory_ops 1 7 0 e1 = (Answered answer, e')" by blast
  have "snd (books_run [?op] (Map.empty, Map.empty)) = (Map.empty(7 \<mapsto> new_hold 1 2 100 100 1 0), Map.empty)"
    by (simp add: is_absent_def)
  then have "answer = Some (new_hold 1 2 100 100 1 0)"
    using immediate_answer_is_the_maps [of 8 plain_env "[?op]" 1 4 "[Stored]" e1 1 7 0 answer e'] fits run a
    by (simp add: small_engine_def in_group_def)
  then show ?thesis using run a by blast
qed

end
