(* ===== verification/Lane_Order.thy ===== *)
theory Lane_Order
  imports Channels Hold_Index
begin

text \<open>
  What the stand-in components share (\<open>stubkit/src/\<close>): the sampled latency, the gate a test holds answers with, the
  producer with one staged value over a queue, and the lane orderer, which hands results out in the order their lane
  asked whatever their work took. The locale \<open>lane_release\<close> states what an orderer promises; the lane orderer is one,
  and so is the pending engine's, in its own theory.
\<close>

section \<open>Latency (latency.rs)\<close>

text \<open>Durations and instants are nanoseconds. The remainder by \<open>span + 1\<close> panics when the sum wraps to zero.\<close>

record LatencyRange =
  lr_min :: nat
  lr_max :: nat

definition latency_fixed :: "nat \<Rightarrow> LatencyRange" where
  "latency_fixed value = \<lparr>lr_min = value, lr_max = value\<rparr>"

definition latency_sample :: "LatencyRange \<Rightarrow> Prng \<Rightarrow> (nat \<times> Prng) option" where
  "latency_sample r prng =
     (let span = (word_of_nat (lr_max r - lr_min r) :: u64) in
      if span = 0 then Some (lr_min r, prng)
      else if span + 1 = 0 then None
      else let (drawn, p) = next_u64 prng in Some (lr_min r + unat (drawn mod (span + 1)), p))"

definition due_from :: "LatencyRange \<Rightarrow> nat \<Rightarrow> Prng \<Rightarrow> (nat \<times> Prng) option" where
  "due_from r now prng = map_option (\<lambda>(wait, p). (now + wait, p)) (latency_sample r prng)"

text \<open>A range is drawn from without a panic when its span is below the whole of \<open>u64\<close>.\<close>

definition latency_ok :: "LatencyRange \<Rightarrow> bool" where
  "latency_ok r \<longleftrightarrow> lr_max r - lr_min r < 2 ^ 64 - 1"

lemma span_not_full:
  assumes "n < 2 ^ 64 - 1"
  shows "(word_of_nat n :: u64) + 1 \<noteq> 0" "unat ((word_of_nat n :: u64) + 1) = n + 1"
proof -
  have n: "unat (word_of_nat n :: u64) = n" using assms by (simp add: unat_of_nat)
  have "(word_of_nat n :: u64) \<noteq> -1"
  proof
    assume "(word_of_nat n :: u64) = -1"
    then have "unat (word_of_nat n :: u64) = unat (-1 :: u64)" by simp
    then show False using n assms by (simp add: unsigned_minus_1_eq_mask mask_eq_exp_minus_1)
  qed
  then show "(word_of_nat n :: u64) + 1 \<noteq> 0" by (metis add.commute add_eq_0_iff2)
  then show "unat ((word_of_nat n :: u64) + 1) = n + 1"
    using n assms by (simp add: unat_word_ariths)
qed

lemma latency_sample_total: "latency_ok r \<Longrightarrow> \<exists>wait p. latency_sample r prng = Some (wait, p)"
  using span_not_full(1) [of "lr_max r - lr_min r"]
  by (auto simp: latency_sample_def latency_ok_def Let_def split: prod.splits)

lemma due_from_total: "latency_ok r \<Longrightarrow> \<exists>due p. due_from r now prng = Some (due, p)"
  using latency_sample_total [of r prng] by (auto simp: due_from_def)

text \<open>A draw stays within its range.\<close>

lemma latency_sample_within:
  assumes "latency_ok r" "lr_min r \<le> lr_max r" "latency_sample r prng = Some (wait, p)"
  shows "lr_min r \<le> wait \<and> wait \<le> lr_max r"
proof (cases "(word_of_nat (lr_max r - lr_min r) :: u64) = 0")
  case True
  then show ?thesis using assms by (simp add: latency_sample_def Let_def)
next
  case False
  let ?s = "(word_of_nat (lr_max r - lr_min r) :: u64) + 1"
  have nz: "?s \<noteq> 0" and us: "unat ?s = lr_max r - lr_min r + 1"
    using span_not_full assms(1) by (simp_all add: latency_ok_def)
  have "wait = lr_min r + unat (fst (next_u64 prng) mod ?s)"
    using assms(3) False nz by (auto simp: latency_sample_def Let_def split: prod.splits)
  moreover have "unat (fst (next_u64 prng) mod ?s) < unat ?s"
    using us by (simp add: unat_mod_distrib)
  ultimately show ?thesis using us assms(2) by linarith
qed

section \<open>The gate (gate.rs)\<close>

text \<open>\<open>usize::MAX\<close> permits, all ones, is an open gate.\<close>

record AnswerGate =
  ag_permits :: u64
  ag_waiting :: nat

definition gate_default :: AnswerGate where
  "gate_default = \<lparr>ag_permits = -1, ag_waiting = 0\<rparr>"

definition gate_hold :: "AnswerGate \<Rightarrow> AnswerGate" where
  "gate_hold g = g\<lparr>ag_permits := 0\<rparr>"

definition gate_let_through :: "u64 \<Rightarrow> AnswerGate \<Rightarrow> AnswerGate" where
  "gate_let_through answers g = g\<lparr>ag_permits := answers\<rparr>"

definition gate_release :: "AnswerGate \<Rightarrow> AnswerGate" where
  "gate_release g = g\<lparr>ag_permits := -1\<rparr>"

definition gate_is_open :: "AnswerGate \<Rightarrow> bool" where
  "gate_is_open g \<longleftrightarrow> ag_permits g = -1"

definition gate_may_send :: "AnswerGate \<Rightarrow> bool" where
  "gate_may_send g \<longleftrightarrow> ag_permits g > 0"

definition gate_spend :: "AnswerGate \<Rightarrow> AnswerGate" where
  "gate_spend g =
     (let left = ag_permits g in
      if left \<noteq> -1 then g\<lparr>ag_permits := (if left = 0 then 0 else left - 1)\<rparr> else g)"

definition gate_note_waiting :: "nat \<Rightarrow> AnswerGate \<Rightarrow> AnswerGate" where
  "gate_note_waiting answers g = g\<lparr>ag_waiting := answers\<rparr>"

section \<open>A staged producer over a queue (spsc.rs)\<close>

text \<open>The same operations as the staged producer of the ring, over the queue's contents.\<close>

record 'a Outlet =
  ot_queue :: "'a Channel"
  ot_staged :: "'a option"

definition outlet_new :: "'a Channel \<Rightarrow> 'a Outlet" where
  "outlet_new queue = \<lparr>ot_queue = queue, ot_staged = None\<rparr>"

definition outlet_is_stuck :: "'a Outlet \<Rightarrow> bool" where
  "outlet_is_stuck p \<longleftrightarrow> ot_staged p \<noteq> None"

definition outlet_send :: "'a \<Rightarrow> 'a Outlet \<Rightarrow> 'a Outlet" where
  "outlet_send value p =
     (case chan_push value (ot_queue p) of
        (True, c) \<Rightarrow> p\<lparr>ot_queue := c\<rparr>
      | (False, c) \<Rightarrow> p\<lparr>ot_queue := c, ot_staged := Some value\<rparr>)"

definition outlet_flush :: "'a Outlet \<Rightarrow> bool \<times> 'a Outlet" where
  "outlet_flush p =
     (case ot_staged p of
        None \<Rightarrow> (True, p)
      | Some value \<Rightarrow>
          (case chan_push value (ot_queue p) of
             (True, c) \<Rightarrow> (True, p\<lparr>ot_queue := c, ot_staged := None\<rparr>)
           | (False, c) \<Rightarrow> (False, p\<lparr>ot_queue := c, ot_staged := Some value\<rparr>)))"

definition outlet_poll :: "'a Outlet \<Rightarrow> 'a option \<times> 'a Outlet" where
  "outlet_poll p = (let (x, c) = chan_pop (ot_queue p) in (x, p\<lparr>ot_queue := c\<rparr>))"

definition outlet_contents :: "'a Outlet \<Rightarrow> 'a list" where
  "outlet_contents p = ch_items (ot_queue p) @ (case ot_staged p of None \<Rightarrow> [] | Some v \<Rightarrow> [v])"

text \<open>Whatever the queue has room for, nothing sent is lost or overtaken.\<close>

lemma outlet_new_contents [simp]: "outlet_contents (outlet_new c) = ch_items c"
  by (simp add: outlet_new_def outlet_contents_def)

lemma outlet_send_contents:
  "\<not> outlet_is_stuck p \<Longrightarrow> outlet_contents (outlet_send v p) = outlet_contents p @ [v]"
  by (auto simp: outlet_is_stuck_def outlet_send_def outlet_contents_def chan_push_def)

lemma outlet_flush_contents [simp]:
  "outlet_flush p = (ok, p') \<Longrightarrow> outlet_contents p' = outlet_contents p"
  by (auto simp: outlet_flush_def outlet_contents_def chan_push_def split: option.splits if_splits)

lemma outlet_flush_stuck: "outlet_flush p = (ok, p') \<Longrightarrow> outlet_is_stuck p' \<longleftrightarrow> \<not> ok"
  by (auto simp: outlet_flush_def outlet_is_stuck_def chan_push_def split: option.splits if_splits)

lemma outlet_poll_contents:
  "outlet_poll p = (Some x, p') \<Longrightarrow> outlet_contents p = x # outlet_contents p'"
  "outlet_poll p = (None, p') \<Longrightarrow> outlet_contents p' = outlet_contents p"
  by (auto simp: outlet_poll_def outlet_contents_def chan_pop_def split: list.splits)

section \<open>What an orderer promises\<close>

text \<open>
  \<open>pop now\<close> is an orderer's release at an instant; \<open>waiting s l\<close> is what lane \<open>l\<close> is still owed, in order, and
  \<open>on_lane l v\<close> is what a released value takes from it (nothing, when the value belongs to another lane or to none).
  Each release takes the front of its lane and leaves every other lane as it was.
\<close>

locale lane_release =
  fixes pop :: "nat \<Rightarrow> 's \<Rightarrow> 'v option \<times> 's"
    and on_lane :: "AccountId \<Rightarrow> 'v \<Rightarrow> 'k option"
    and waiting :: "'s \<Rightarrow> AccountId \<Rightarrow> 'k list"
    and ok :: "'s \<Rightarrow> bool"
  assumes pop_ok: "ok s \<Longrightarrow> pop now s = (r, s') \<Longrightarrow> ok s'"
    and pop_takes_front: "ok s \<Longrightarrow> pop now s = (Some v, s') \<Longrightarrow>
      waiting s l = (case on_lane l v of None \<Rightarrow> waiting s' l | Some k \<Rightarrow> k # waiting s' l)"
    and pop_nothing: "ok s \<Longrightarrow> pop now s = (None, s') \<Longrightarrow> waiting s' = waiting s"
begin

text \<open>Releases at a series of instants, and what they hand out.\<close>

fun pops :: "nat list \<Rightarrow> 's \<Rightarrow> 'v list \<times> 's" where
  "pops [] s = ([], s)"
| "pops (t # ts) s =
     (case pop t s of
        (None, s1) \<Rightarrow> pops ts s1
      | (Some v, s1) \<Rightarrow> (let (vs, s2) = pops ts s1 in (v # vs, s2)))"

lemma pops_ok: "ok s \<Longrightarrow> pops ts s = (vs, s') \<Longrightarrow> ok s'"
  by (induction ts arbitrary: s vs) (auto dest: pop_ok split: prod.splits option.splits)

lemma pops_in_order:
  "ok s \<Longrightarrow> pops ts s = (vs, s') \<Longrightarrow> waiting s l = List.map_filter (on_lane l) vs @ waiting s' l"
proof (induction ts arbitrary: s vs s')
  case (Cons t ts)
  obtain r s1 where p: "pop t s = (r, s1)" by force
  obtain us s2 where q: "pops ts s1 = (us, s2)" by force
  have ih: "waiting s1 l = List.map_filter (on_lane l) us @ waiting s2 l"
    by (rule Cons.IH [OF pop_ok [OF Cons.prems(1) p] q])
  show ?case
  proof (cases r)
    case None
    then show ?thesis using Cons.prems p q ih pop_nothing [OF Cons.prems(1), of t s1] by simp
  next
    case (Some v)
    then show ?thesis
      using Cons.prems p q ih pop_takes_front [OF Cons.prems(1), of t v s1 l]
      by (auto simp: List.map_filter_simps split: option.splits)
  qed
qed simp

end

section \<open>The lane orderer (lane_order.rs)\<close>

record 'a Delayed =
  dl_due :: nat
  dl_value :: 'a

record 'a LaneOrderer =
  lo_lanes :: "(AccountId \<times> 'a Delayed list) list"
  lo_rotation :: "AccountId list"
  lo_exempt :: "'a Delayed list"
  lo_violate_every :: u32
  lo_pushes :: u32
  lo_items :: nat

definition lo_new :: "u32 \<Rightarrow> 'a LaneOrderer" where
  "lo_new violate_every =
     \<lparr>lo_lanes = [], lo_rotation = [], lo_exempt = [], lo_violate_every = violate_every, lo_pushes = 0, lo_items = 0\<rparr>"

definition lo_queue :: "'a LaneOrderer \<Rightarrow> AccountId \<Rightarrow> 'a Delayed list" where
  "lo_queue s lane = (case map_of (lo_lanes s) lane of None \<Rightarrow> [] | Some q \<Rightarrow> q)"

definition swap_last :: "'a list \<Rightarrow> 'a list" where
  "swap_last q = (let last = length q - 1 in q[last - 1 := q ! last, last := q ! (last - 1)])"

definition lo_push :: "AccountId \<Rightarrow> nat \<Rightarrow> 'a \<Rightarrow> 'a LaneOrderer \<Rightarrow> 'a LaneOrderer" where
  "lo_push lane due value s =
     (let queue = lo_queue s lane;
          rotation = (if queue = [] then lo_rotation s @ [lane] else lo_rotation s);
          queue1 = queue @ [\<lparr>dl_due = due, dl_value = value\<rparr>];
          pushes = lo_pushes s + 1;
          queue2 = (if lo_violate_every s > 0 \<and> pushes mod lo_violate_every s = 0 \<and> length queue1 \<ge> 2
                    then swap_last queue1 else queue1) in
      s\<lparr>lo_lanes := AList.update lane queue2 (lo_lanes s), lo_rotation := rotation,
        lo_items := lo_items s + 1, lo_pushes := pushes\<rparr>)"

definition lo_push_unordered :: "nat \<Rightarrow> 'a \<Rightarrow> 'a LaneOrderer \<Rightarrow> 'a LaneOrderer" where
  "lo_push_unordered due value s =
     s\<lparr>lo_exempt := lo_exempt s @ [\<lparr>dl_due = due, dl_value = value\<rparr>], lo_items := lo_items s + 1\<rparr>"

definition lo_heads :: "'a LaneOrderer \<Rightarrow> 'a Delayed list" where
  "lo_heads s =
     List.map_filter (\<lambda>lane. case lo_queue s lane of [] \<Rightarrow> None | head # _ \<Rightarrow> Some head) (lo_rotation s)
     @ take 1 (lo_exempt s)"

definition lo_next_due :: "'a LaneOrderer \<Rightarrow> nat option" where
  "lo_next_due s = (case map dl_due (lo_heads s) of [] \<Rightarrow> None | d # ds \<Rightarrow> Some (fold min ds d))"

definition lo_behind_heads :: "'a LaneOrderer \<Rightarrow> nat" where
  "lo_behind_heads s =
     usize_sub (usize_sub (lo_items s) (length (lo_rotation s))) (if lo_exempt s = [] then 0 else 1)"

fun lo_pop_lanes :: "nat \<Rightarrow> nat \<Rightarrow> 'a LaneOrderer \<Rightarrow> 'a option \<times> 'a LaneOrderer" where
  "lo_pop_lanes 0 now s = (None, s)"
| "lo_pop_lanes (Suc n) now s =
     (case lo_rotation s of
        [] \<Rightarrow> (None, s)
      | lane # rotation \<Rightarrow>
          (case map_of (lo_lanes s) lane of
             None \<Rightarrow> lo_pop_lanes n now (s\<lparr>lo_rotation := rotation\<rparr>)
           | Some [] \<Rightarrow> lo_pop_lanes n now (s\<lparr>lo_rotation := rotation @ [lane]\<rparr>)
           | Some (head # queue) \<Rightarrow>
               if dl_due head \<le> now then
                 (Some (dl_value head),
                  s\<lparr>lo_lanes := AList.update lane queue (lo_lanes s), lo_items := usize_sub (lo_items s) 1,
                    lo_rotation := (if queue = [] then rotation else rotation @ [lane])\<rparr>)
               else lo_pop_lanes n now (s\<lparr>lo_rotation := rotation @ [lane]\<rparr>)))"

definition lo_pop_ready :: "nat \<Rightarrow> 'a LaneOrderer \<Rightarrow> 'a option \<times> 'a LaneOrderer" where
  "lo_pop_ready now s =
     (case lo_exempt s of
        head # rest \<Rightarrow>
          if dl_due head \<le> now
          then (Some (dl_value head), s\<lparr>lo_exempt := rest, lo_items := usize_sub (lo_items s) 1\<rparr>)
          else lo_pop_lanes (length (lo_rotation s)) now s
      | [] \<Rightarrow> lo_pop_lanes (length (lo_rotation s)) now s)"


section \<open>Lanes come out in order\<close>

text \<open>The rotation holds each lane with something waiting, once, and the count is the number of results held.\<close>

definition lo_ok :: "'a LaneOrderer \<Rightarrow> bool" where
  "lo_ok s \<longleftrightarrow> distinct (lo_rotation s) \<and> (\<forall>l. l \<in> set (lo_rotation s) \<longleftrightarrow> lo_queue s l \<noteq> [])
     \<and> lo_items s = length (lo_exempt s) + (\<Sum>l\<leftarrow>lo_rotation s. length (lo_queue s l))"

lemma lo_new_ok [simp]: "lo_ok (lo_new v)"
  by (simp add: lo_ok_def lo_new_def lo_queue_def)

lemma lo_queue_update:
  "lo_queue (s\<lparr>lo_lanes := AList.update lane q (lo_lanes s)\<rparr>) = (lo_queue s)(lane := q)"
  by (auto simp: lo_queue_def update_conv fun_eq_iff)

lemma lo_queue_other [simp]:
  "lo_queue (s\<lparr>lo_rotation := r\<rparr>) = lo_queue s" "lo_queue (s\<lparr>lo_exempt := x\<rparr>) = lo_queue s"
  "lo_queue (s\<lparr>lo_items := n\<rparr>) = lo_queue s" "lo_queue (s\<lparr>lo_pushes := k\<rparr>) = lo_queue s"
  by (simp_all add: lo_queue_def fun_eq_iff)

lemma length_swap_last [simp]: "length (swap_last q) = length q"
  by (simp add: swap_last_def Let_def)

lemma sum_list_one:
  "distinct xs \<Longrightarrow> l \<in> set xs \<Longrightarrow> (\<Sum>x\<leftarrow>xs. (f(l := v)) x) + f l = (\<Sum>x\<leftarrow>xs. f x) + (v :: nat)"
proof (induction xs)
  case (Cons x xs)
  have same: "l \<notin> set xs \<Longrightarrow> (\<Sum>x\<leftarrow>xs. (f(l := v)) x) = (\<Sum>x\<leftarrow>xs. f x)"
    by (intro arg_cong [where f = sum_list] map_cong) auto
  show ?case using Cons same by (cases "x = l") auto
qed simp

lemma lo_push_state:
  "lo_queue (lo_push l d v s) = (lo_queue s)(l := lo_queue (lo_push l d v s) l)"
  "length (lo_queue (lo_push l d v s) l) = Suc (length (lo_queue s l))"
  "lo_rotation (lo_push l d v s) = (if lo_queue s l = [] then lo_rotation s @ [l] else lo_rotation s)"
  "lo_exempt (lo_push l d v s) = lo_exempt s" "lo_items (lo_push l d v s) = Suc (lo_items s)"
  "lo_violate_every (lo_push l d v s) = lo_violate_every s"
  by (simp_all add: lo_push_def Let_def lo_queue_def update_conv fun_eq_iff)

lemma lo_push_ok:
  assumes "lo_ok s"
  shows "lo_ok (lo_push l d v s)"
proof -
  let ?t = "lo_push l d v s" and ?q = "lo_queue (lo_push l d v s) l"
  have q: "lo_queue ?t = (lo_queue s)(l := ?q)" and len: "length ?q = Suc (length (lo_queue s l))"
    by (rule lo_push_state)+
  have ne: "?q \<noteq> []" using len by auto
  have nil: "lo_queue ?t x \<noteq> [] \<longleftrightarrow> x = l \<or> lo_queue s x \<noteq> []" for x
    using ne by (subst q) simp
  have lens: "(\<lambda>x. length (lo_queue ?t x)) = (\<lambda>x. length (lo_queue s x))(l := Suc (length (lo_queue s l)))"
    using len by (subst q) (auto simp: fun_eq_iff)
  show ?thesis
  proof (cases "lo_queue s l = []")
    case True
    then have "l \<notin> set (lo_rotation s)" using assms by (simp add: lo_ok_def)
    then have "(\<Sum>x\<leftarrow>lo_rotation s. length (lo_queue ?t x)) = (\<Sum>x\<leftarrow>lo_rotation s. length (lo_queue s x))"
      by (intro arg_cong [where f = sum_list] map_cong refl) (subst q, auto)
    then show ?thesis
      using True assms len \<open>l \<notin> set (lo_rotation s)\<close> nil by (simp add: lo_ok_def lo_push_state(3-5))
  next
    case False
    then have "l \<in> set (lo_rotation s)" using assms by (simp add: lo_ok_def)
    then have "(\<Sum>x\<leftarrow>lo_rotation s. length (lo_queue ?t x)) + length (lo_queue s l)
        = (\<Sum>x\<leftarrow>lo_rotation s. length (lo_queue s x)) + Suc (length (lo_queue s l))"
      using assms sum_list_one [of "lo_rotation s" l "\<lambda>x. length (lo_queue s x)" "Suc (length (lo_queue s l))"]
      unfolding lens by (simp add: lo_ok_def del: fun_upd_apply)
    then show ?thesis
      using False assms nil by (simp add: lo_ok_def lo_push_state(3-5)) blast
  qed
qed

lemma lo_push_unordered_ok: "lo_ok s \<Longrightarrow> lo_ok (lo_push_unordered d v s)"
  by (simp add: lo_ok_def lo_push_unordered_def)

text \<open>With the fault off, a push goes to the end of its lane.\<close>

lemma lo_push_queue:
  "lo_violate_every s = 0 \<Longrightarrow>
   lo_queue (lo_push l d v s) = (lo_queue s)(l := lo_queue s l @ [\<lparr>dl_due = d, dl_value = v\<rparr>])"
  by (auto simp: lo_push_def Let_def lo_queue_def update_conv fun_eq_iff)

text \<open>What one release does: an exempt result that is due, or the head of a lane that is due, and nothing else.\<close>

inductive lo_releases :: "nat \<Rightarrow> 'a LaneOrderer \<Rightarrow> 'a \<Rightarrow> 'a LaneOrderer \<Rightarrow> bool" for now s where
  exempt: "lo_exempt s = h # rest \<Longrightarrow> dl_due h \<le> now \<Longrightarrow> lo_exempt s' = rest \<Longrightarrow> lo_queue s' = lo_queue s
    \<Longrightarrow> lo_releases now s (dl_value h) s'"
| head: "lo_queue s l = h # queue \<Longrightarrow> dl_due h \<le> now \<Longrightarrow> lo_exempt s' = lo_exempt s
    \<Longrightarrow> lo_queue s' = (lo_queue s)(l := queue) \<Longrightarrow> lo_releases now s (dl_value h) s'"

definition lo_due :: "nat \<Rightarrow> 'a LaneOrderer \<Rightarrow> AccountId \<Rightarrow> bool" where
  "lo_due now s l \<longleftrightarrow> (case lo_queue s l of [] \<Rightarrow> False | h # _ \<Rightarrow> dl_due h \<le> now)"

lemma lo_pop_lanes_some:
  assumes "lo_ok s" "lo_pop_lanes n now s = (Some v, s')"
  shows "lo_ok s' \<and> lo_violate_every s' = lo_violate_every s \<and> (\<exists>l h queue. lo_queue s l = h # queue \<and> dl_due h \<le> now
    \<and> v = dl_value h \<and> lo_exempt s' = lo_exempt s \<and> lo_queue s' = (lo_queue s)(l := queue))"
  using assms
proof (induction n now s rule: lo_pop_lanes.induct)
  case (2 n now s)
  obtain lane rotation where rot: "lo_rotation s = lane # rotation"
    using 2(5) by (cases "lo_rotation s") auto
  have ne: "lo_queue s lane \<noteq> []" using 2(4) rot by (auto simp: lo_ok_def)
  then obtain h queue where m: "map_of (lo_lanes s) lane = Some (h # queue)"
    by (cases "map_of (lo_lanes s) lane") (auto simp: lo_queue_def neq_Nil_conv)
  have q: "lo_queue s lane = h # queue" using m by (simp add: lo_queue_def)
  show ?case
  proof (cases "dl_due h \<le> now")
    case False
    let ?s = "s\<lparr>lo_rotation := rotation @ [lane]\<rparr>"
    have "lo_ok ?s" using 2(4) rot by (auto simp: lo_ok_def)
    then show ?thesis using 2(3) [OF rot m refl False] 2(5) rot m False by simp
  next
    case True
    have fresh: "lane \<notin> set rotation" and d: "distinct rotation" using 2(4) rot by (auto simp: lo_ok_def)
    have s': "v = dl_value h" "s' = s\<lparr>lo_lanes := AList.update lane queue (lo_lanes s),
        lo_items := usize_sub (lo_items s) 1, lo_rotation := (if queue = [] then rotation else rotation @ [lane])\<rparr>"
      using 2(5) rot m True by simp_all
    have q': "lo_queue s' = (lo_queue s)(lane := queue)"
      using s'(2) by (simp add: lo_queue_def update_conv fun_eq_iff)
    have sums: "(\<Sum>x\<leftarrow>rotation. length (lo_queue s' x)) = (\<Sum>x\<leftarrow>rotation. length (lo_queue s x))"
      using fresh by (intro arg_cong [where f = sum_list] map_cong refl) (auto simp: q')
    have "lo_ok s'"
      using 2(4) rot fresh d sums q
      by (auto simp: lo_ok_def q' s'(2) lo_queue_update)
    then show ?thesis using q True q' s' by auto
  qed
qed simp

lemma lo_pop_lanes_none:
  assumes "lo_ok s" "n \<le> length (lo_rotation s)" "lo_pop_lanes n now s = (None, s')"
  shows "lo_ok s' \<and> lo_queue s' = lo_queue s \<and> lo_exempt s' = lo_exempt s \<and> lo_violate_every s' = lo_violate_every s
    \<and> (\<forall>l \<in> set (take n (lo_rotation s)). \<not> lo_due now s l)"
  using assms
proof (induction n now s rule: lo_pop_lanes.induct)
  case (2 n now s)
  obtain lane rotation where rot: "lo_rotation s = lane # rotation"
    using 2(5) by (cases "lo_rotation s") auto
  have ne: "lo_queue s lane \<noteq> []" using 2(4) rot by (auto simp: lo_ok_def)
  then obtain h queue where m: "map_of (lo_lanes s) lane = Some (h # queue)"
    by (cases "map_of (lo_lanes s) lane") (auto simp: lo_queue_def neq_Nil_conv)
  have q: "lo_queue s lane = h # queue" using m by (simp add: lo_queue_def)
  have late: "\<not> dl_due h \<le> now" using 2(6) rot m by (auto split: if_splits)
  let ?s = "s\<lparr>lo_rotation := rotation @ [lane]\<rparr>"
  have "lo_ok ?s" using 2(4) rot by (auto simp: lo_ok_def)
  then show ?case
    using 2(3) [OF rot m refl late] 2(5,6) rot m late q by (auto simp: lo_due_def)
qed simp

lemma lo_pop_some:
  assumes "lo_ok s" "lo_pop_ready now s = (Some v, s')"
  shows "lo_ok s' \<and> lo_violate_every s' = lo_violate_every s \<and> lo_releases now s v s'"
proof (cases "\<exists>h rest. lo_exempt s = h # rest \<and> dl_due h \<le> now")
  case True
  then obtain h rest where x: "lo_exempt s = h # rest" "dl_due h \<le> now" by blast
  have v: "v = dl_value h" "s' = s\<lparr>lo_exempt := rest, lo_items := usize_sub (lo_items s) 1\<rparr>"
    using assms(2) x by (simp_all add: lo_pop_ready_def)
  have "lo_ok s'" using assms(1) x v by (simp add: lo_ok_def)
  then show ?thesis using x v by (auto intro: lo_releases.exempt)
next
  case False
  then have "lo_pop_lanes (length (lo_rotation s)) now s = (Some v, s')"
    using assms(2) by (auto simp: lo_pop_ready_def split: list.splits if_splits)
  from lo_pop_lanes_some [OF assms(1) this] show ?thesis by (auto intro: lo_releases.head)
qed

text \<open>A release that finds nothing passed nothing over: no exempt result and no lane head is due.\<close>

lemma lo_pop_none:
  assumes "lo_ok s" "lo_pop_ready now s = (None, s')"
  shows "lo_ok s' \<and> lo_violate_every s' = lo_violate_every s \<and> lo_queue s' = lo_queue s \<and> lo_exempt s' = lo_exempt s
    \<and> (\<forall>l. \<not> lo_due now s l) \<and> (\<forall>h rest. lo_exempt s = h # rest \<longrightarrow> now < dl_due h)"
proof -
  have "lo_pop_lanes (length (lo_rotation s)) now s = (None, s')"
    and x: "\<forall>h rest. lo_exempt s = h # rest \<longrightarrow> now < dl_due h"
    using assms(2) by (auto simp: lo_pop_ready_def split: list.splits if_splits)
  from lo_pop_lanes_none [OF assms(1) order_refl this(1)]
  have none: "lo_ok s'" "lo_queue s' = lo_queue s" "lo_exempt s' = lo_exempt s" "lo_violate_every s' = lo_violate_every s"
    and late: "\<forall>l \<in> set (lo_rotation s). \<not> lo_due now s l" by simp_all
  have "\<not> lo_due now s l" for l
    using late assms(1) by (cases "lo_queue s l = []") (auto simp: lo_due_def lo_ok_def)
  then show ?thesis using none x by simp
qed

text \<open>
  The contract of an orderer. Results carry their lane: \<open>place_of\<close> says which lane a value keeps a place in, if any.
  An orderer is well used when each lane holds its own values and the exempt ones keep no place.
\<close>

definition lo_sorted :: "('a \<Rightarrow> AccountId option) \<Rightarrow> 'a LaneOrderer \<Rightarrow> bool" where
  "lo_sorted place_of s \<longleftrightarrow> lo_ok s \<and> (\<forall>l. \<forall>h \<in> set (lo_queue s l). place_of (dl_value h) = Some l)
     \<and> (\<forall>h \<in> set (lo_exempt s). place_of (dl_value h) = None)"

definition lo_waiting :: "'a LaneOrderer \<Rightarrow> AccountId \<Rightarrow> 'a list" where
  "lo_waiting s l = map dl_value (lo_queue s l)"

lemma lo_releases_sorted:
  assumes "lo_sorted place_of s" "lo_releases now s v s'" "lo_ok s'"
  shows "lo_sorted place_of s' \<and> lo_waiting s l = (if place_of v = Some l then v # lo_waiting s' l else lo_waiting s' l)"
  using assms(2)
proof cases
  case (exempt h rest)
  then show ?thesis using assms(1,3) by (auto simp: lo_sorted_def lo_waiting_def)
next
  case (head k h queue)
  have h: "place_of v = Some k" using assms(1) head(1,2) by (simp add: lo_sorted_def)
  have "lo_sorted place_of s'" using assms(1,3) head by (auto simp: lo_sorted_def)
  then show ?thesis using h head by (auto simp: lo_waiting_def)
qed

interpretation lanes: lane_release lo_pop_ready "\<lambda>l v. if place_of v = Some l then Some v else None" lo_waiting
  "lo_sorted place_of" for place_of
proof unfold_locales
  fix s :: "'a LaneOrderer" and now r s'
  assume s: "lo_sorted place_of s" and p: "lo_pop_ready now s = (r, s')"
  have k: "lo_ok s" using s by (simp add: lo_sorted_def)
  show "lo_sorted place_of s'"
  proof (cases r)
    case None
    then show ?thesis using lo_pop_none [OF k] p s by (simp add: lo_sorted_def)
  next
    case (Some v)
    then show ?thesis using lo_pop_some [OF k] lo_releases_sorted [OF s] p by blast
  qed
next
  fix s :: "'a LaneOrderer" and now v s' l
  assume s: "lo_sorted place_of s" and p: "lo_pop_ready now s = (Some v, s')"
  then have "lo_ok s'" "lo_releases now s v s'" using lo_pop_some [of s now v s'] by (simp_all add: lo_sorted_def)
  from lo_releases_sorted [OF s this(2) this(1), of l]
  show "lo_waiting s l = (case if place_of v = Some l then Some v else None of None \<Rightarrow> lo_waiting s' l
    | Some k \<Rightarrow> k # lo_waiting s' l)" by simp
next
  fix s :: "'a LaneOrderer" and now s'
  assume "lo_sorted place_of s" and "lo_pop_ready now s = (None, s')"
  then show "lo_waiting s' = lo_waiting s"
    using lo_pop_none [of s now s'] by (simp add: lo_sorted_def lo_waiting_def fun_eq_iff)
qed

lemma lo_push_sorted:
  assumes "lo_sorted place_of s" "lo_violate_every s = 0" "place_of v = Some l"
  shows "lo_sorted place_of (lo_push l d v s)"
    and "lo_waiting (lo_push l d v s) = (lo_waiting s)(l := lo_waiting s l @ [v])"
  using assms by (auto simp: lo_sorted_def lo_waiting_def lo_push_ok lo_push_queue lo_push_state(4) fun_eq_iff)

lemma lo_push_unordered_sorted:
  assumes "lo_sorted place_of s" "place_of v = None"
  shows "lo_sorted place_of (lo_push_unordered d v s)"
    and "lo_waiting (lo_push_unordered d v s) = lo_waiting s"
  using assms lo_push_unordered_ok [of s d v]
  by (auto simp: lo_sorted_def lo_waiting_def lo_push_unordered_def fun_eq_iff)

text \<open>A release strictly shrinks what is held, so a loop of them ends.\<close>

definition lo_size :: "'a LaneOrderer \<Rightarrow> nat" where
  "lo_size s = length (lo_exempt s) + (\<Sum>(l, q)\<leftarrow>lo_lanes s. length q)"

lemma update_shrinks:
  "map_of xs l = Some (h # queue) \<Longrightarrow>
   (\<Sum>(l, q)\<leftarrow>AList.update l queue xs. length q) < (\<Sum>(l, q)\<leftarrow>xs. length q)"
  by (induction xs) (auto split: if_splits)

lemma lo_pop_lanes_shrinks: "lo_pop_lanes n now s = (Some v, s') \<Longrightarrow> lo_size s' < lo_size s"
proof (induction n now s rule: lo_pop_lanes.induct)
  case (2 n now s)
  then show ?case
    by (auto simp: lo_size_def update_shrinks split: list.splits option.splits if_splits)
qed simp

lemma lo_pop_shrinks: "lo_pop_ready now s = (Some v, s') \<Longrightarrow> lo_size s' < lo_size s"
  by (auto simp: lo_pop_ready_def lo_size_def dest: lo_pop_lanes_shrinks [unfolded lo_size_def]
      split: list.splits if_splits)

end
