(* ===== verification/Stand_Ins.thy ===== *)
theory Stand_Ins
  imports Lane_Order
begin

text \<open>
  The two components that stand in for services not built yet: the idempotency store
  (\<open>idempotency/src/memory.rs\<close>) and consensus (\<open>raft/src/echo.rs\<close>). Each is a worker between two queues; a step of it
  takes what is queued or delivers what is due, and the other side of the queues pushes and polls in between. Each
  runs as a sequence of such steps, and the theorems compare what comes out with a specification of the answers
  written over the whole sequence of questions.
\<close>

section \<open>The idempotency worker\<close>

text \<open>The gauge the worker publishes its size through is a report and is left out.\<close>

record IdemWorker =
  iw_requests :: "IdemRequest Channel"
  iw_results :: "IdemReply Outlet"
  iw_seen :: "TxId \<rightharpoonup> u64"
  iw_orderer :: "IdemReply LaneOrderer"
  iw_jitter :: Prng
  iw_latency :: LatencyRange

record MemoryIdemConfig =
  mic_queue_capacity :: nat
  mic_latency :: LatencyRange
  mic_violate_order_every :: u32
  mic_seed :: u64

definition idem_start :: "MemoryIdemConfig \<Rightarrow> IdemWorker" where
  "idem_start config =
     (let capacity = next_power_of_two (mic_queue_capacity config) in
      \<lparr>iw_requests = \<lparr>ch_items = [], ch_capacity = capacity\<rparr>,
       iw_results = outlet_new \<lparr>ch_items = [], ch_capacity = capacity\<rparr>,
       iw_seen = Map.empty, iw_orderer = lo_new (mic_violate_order_every config),
       iw_jitter = prng_new (mic_seed config), iw_latency = mic_latency config\<rparr>)"

definition idem_verdict :: "IdemRequest \<Rightarrow> (TxId \<rightharpoonup> u64) \<Rightarrow> IdemVerdict \<times> (TxId \<rightharpoonup> u64)" where
  "idem_verdict request seen =
     (case iq_ask request of
        Serialize \<Rightarrow> (NotChecked, seen)
      | Check \<Rightarrow>
          ((case seen (iq_tx_id request) of
              None \<Rightarrow> Fresh
            | Some digest \<Rightarrow> if digest = iq_digest request then DuplicateSameBody else DuplicateDifferentBody),
           seen(iq_tx_id request \<mapsto> iq_digest request)))"

definition idem_reply :: "IdemRequest \<Rightarrow> IdemVerdict \<Rightarrow> IdemReply" where
  "idem_reply request verdict =
     \<lparr>ir_correlation = iq_correlation request, ir_lane = iq_lane request, ir_seq = iq_seq request,
      ir_verdict = verdict\<rparr>"

definition idem_take :: "nat \<Rightarrow> IdemRequest \<Rightarrow> IdemWorker \<Rightarrow> IdemWorker option" where
  "idem_take now request w =
     (let (verdict, seen) = idem_verdict request (iw_seen w);
          reply = idem_reply request verdict in
      do {
        (due, jitter) \<leftarrow> due_from (iw_latency w) now (iw_jitter w);
        Some (w\<lparr>iw_seen := seen, iw_jitter := jitter,
                iw_orderer := (if iq_seq request = UNORDERED then lo_push_unordered due reply (iw_orderer w)
                               else lo_push (iq_lane request) due reply (iw_orderer w))\<rparr>)
      })"

text \<open>The clock is read for each request; \<open>clock i\<close> is the reading for the \<open>i\<close>-th one.\<close>

fun idem_take_all :: "(nat \<Rightarrow> nat) \<Rightarrow> nat \<Rightarrow> IdemRequest list \<Rightarrow> IdemWorker \<Rightarrow> IdemWorker option" where
  "idem_take_all clock i [] w = Some w"
| "idem_take_all clock i (request # requests) w = do {
     w1 \<leftarrow> idem_take (clock i) request (w\<lparr>iw_requests := (iw_requests w)\<lparr>ch_items := requests\<rparr>\<rparr>);
     idem_take_all clock (Suc i) requests w1
   }"

definition idem_drain_requests :: "(nat \<Rightarrow> nat) \<Rightarrow> IdemWorker \<Rightarrow> (bool \<times> IdemWorker) option" where
  "idem_drain_requests clock w =
     (let requests = ch_items (iw_requests w) in
      map_option (\<lambda>w1. (requests \<noteq> [], w1)) (idem_take_all clock 0 requests w))"

function idem_deliver_loop :: "nat \<Rightarrow> bool \<Rightarrow> IdemWorker \<Rightarrow> bool \<times> IdemWorker" where
  "idem_deliver_loop now progress w =
     (if outlet_is_stuck (iw_results w) then (progress, w)
      else case lo_pop_ready now (iw_orderer w) of
             (None, orderer) \<Rightarrow> (progress, w\<lparr>iw_orderer := orderer\<rparr>)
           | (Some result, orderer) \<Rightarrow>
               idem_deliver_loop now True
                 (w\<lparr>iw_orderer := orderer, iw_results := outlet_send result (iw_results w)\<rparr>))"
  by pat_completeness auto
termination
  by (relation "measure (\<lambda>(now, progress, w). lo_size (iw_orderer w))") (auto dest: lo_pop_shrinks [OF sym])

declare idem_deliver_loop.simps [simp del]

definition idem_deliver :: "nat \<Rightarrow> IdemWorker \<Rightarrow> bool \<times> IdemWorker" where
  "idem_deliver now w =
     (case outlet_flush (iw_results w) of
        (False, results) \<Rightarrow> (False, w\<lparr>iw_results := results\<rparr>)
      | (True, results) \<Rightarrow> idem_deliver_loop now False (w\<lparr>iw_results := results\<rparr>))"

text \<open>One turn of the worker's loop, without its backoff.\<close>

definition idem_round :: "(nat \<Rightarrow> nat) \<Rightarrow> nat \<Rightarrow> IdemWorker \<Rightarrow> (bool \<times> IdemWorker) option" where
  "idem_round clock now w = do {
     (drained, w1) \<leftarrow> idem_drain_requests clock w;
     let (delivered, w2) = idem_deliver now w1;
     Some (drained \<or> delivered, w2)
   }"

section \<open>What it answers\<close>

text \<open>The answers to a whole sequence of requests: each is judged by the last body its id was checked with.\<close>

fun idem_answers :: "(TxId \<rightharpoonup> u64) \<Rightarrow> IdemRequest list \<Rightarrow> IdemReply list" where
  "idem_answers seen [] = []"
| "idem_answers seen (request # requests) =
     (let (verdict, seen1) = idem_verdict request seen in
      idem_reply request verdict # idem_answers seen1 requests)"

fun idem_seen_after :: "(TxId \<rightharpoonup> u64) \<Rightarrow> IdemRequest list \<Rightarrow> (TxId \<rightharpoonup> u64)" where
  "idem_seen_after seen [] = seen"
| "idem_seen_after seen (request # requests) = idem_seen_after (snd (idem_verdict request seen)) requests"

text \<open>The sequencer's calls and the worker's turns, in any order.\<close>

datatype IdemEvent = IdemAsked IdemRequest | IdemTurn "nat \<Rightarrow> nat" nat | IdemPolled

fun idem_run :: "IdemEvent list \<Rightarrow> IdemWorker \<Rightarrow> (IdemRequest list \<times> IdemReply list \<times> IdemWorker) option" where
  "idem_run [] w = Some ([], [], w)"
| "idem_run (IdemAsked request # es) w =
     (let (ok, c) = chan_push request (iw_requests w) in do {
        (asked, polled, w1) \<leftarrow> idem_run es (w\<lparr>iw_requests := c\<rparr>);
        Some (if ok then request # asked else asked, polled, w1) })"
| "idem_run (IdemTurn clock now # es) w = do {
     (progress, w1) \<leftarrow> idem_round clock now w;
     idem_run es w1 }"
| "idem_run (IdemPolled # es) w =
     (let (reply, results) = outlet_poll (iw_results w) in do {
        (asked, polled, w1) \<leftarrow> idem_run es (w\<lparr>iw_results := results\<rparr>);
        Some (asked, (case reply of None \<Rightarrow> polled | Some r \<Rightarrow> r # polled), w1) })"

definition reply_place :: "IdemReply \<Rightarrow> AccountId option" where
  "reply_place r = (if ir_seq r = UNORDERED then None else Some (ir_lane r))"

definition on_lane :: "AccountId \<Rightarrow> IdemReply list \<Rightarrow> IdemReply list" where
  "on_lane l = filter (\<lambda>r. reply_place r = Some l)"

text \<open>Everything a lane is owed, in order: in the queue to the sequencer, in the orderer, and still to be judged.\<close>

definition idem_owed :: "AccountId \<Rightarrow> IdemWorker \<Rightarrow> IdemReply list" where
  "idem_owed l w =
     on_lane l (outlet_contents (iw_results w)) @ lo_waiting (iw_orderer w) l
     @ on_lane l (idem_answers (iw_seen w) (ch_items (iw_requests w)))"

definition idem_ok :: "IdemWorker \<Rightarrow> bool" where
  "idem_ok w \<longleftrightarrow> lo_sorted reply_place (iw_orderer w) \<and> lo_violate_every (iw_orderer w) = 0 \<and> latency_ok (iw_latency w)"


lemma idem_answers_append:
  "idem_answers seen (xs @ ys) = idem_answers seen xs @ idem_answers (idem_seen_after seen xs) ys"
  by (induction xs arbitrary: seen) (auto simp: Let_def split: prod.splits)

lemma idem_seen_after_append:
  "idem_seen_after seen (xs @ ys) = idem_seen_after (idem_seen_after seen xs) ys"
  by (induction xs arbitrary: seen) auto

lemma reply_place_reply [simp]:
  "reply_place (idem_reply q v) = (if iq_seq q = UNORDERED then None else Some (iq_lane q))"
  by (simp add: reply_place_def idem_reply_def)

lemma on_lane_simps [simp]:
  "on_lane l [] = []" "on_lane l (xs @ ys) = on_lane l xs @ on_lane l ys"
  "on_lane l (r # rs) = (if reply_place r = Some l then r # on_lane l rs else on_lane l rs)"
  by (simp_all add: on_lane_def)

text \<open>Judging one request: the answer joins the end of what its lane is owed, and no panic.\<close>

lemma idem_take_owes:
  assumes "idem_ok w"
  shows "\<exists>w1. idem_take now q w = Some w1 \<and> idem_ok w1 \<and> iw_requests w1 = iw_requests w
    \<and> iw_results w1 = iw_results w \<and> iw_seen w1 = snd (idem_verdict q (iw_seen w))
    \<and> lo_waiting (iw_orderer w1) l
        = lo_waiting (iw_orderer w) l @ on_lane l [idem_reply q (fst (idem_verdict q (iw_seen w)))]"
proof -
  obtain due jitter where due: "due_from (iw_latency w) now (iw_jitter w) = Some (due, jitter)"
    using assms due_from_total by (meson idem_ok_def)
  have s: "lo_sorted reply_place (iw_orderer w)" and v: "lo_violate_every (iw_orderer w) = 0"
    using assms by (simp_all add: idem_ok_def)
  let ?r = "idem_reply q (fst (idem_verdict q (iw_seen w)))"
  show ?thesis
  proof (cases "iq_seq q = UNORDERED")
    case True
    then show ?thesis
      using assms due lo_push_unordered_sorted [OF s, of ?r due]
      by (auto simp: idem_take_def idem_ok_def lo_push_unordered_def split: prod.splits)
  next
    case False
    then show ?thesis
      using assms due lo_push_sorted [OF s v, of ?r "iq_lane q" due]
      by (auto simp: idem_take_def idem_ok_def lo_push_state(6) split: prod.splits)
  qed
qed

lemma idem_take_all_owes:
  "idem_ok w \<Longrightarrow> ch_items (iw_requests w) = qs \<Longrightarrow>
   \<exists>w1. idem_take_all clock i qs w = Some w1 \<and> idem_ok w1 \<and> ch_items (iw_requests w1) = []
     \<and> iw_results w1 = iw_results w \<and> iw_seen w1 = idem_seen_after (iw_seen w) qs
     \<and> (\<forall>l. lo_waiting (iw_orderer w1) l = lo_waiting (iw_orderer w) l @ on_lane l (idem_answers (iw_seen w) qs))"
proof (induction qs arbitrary: w i)
  case (Cons q qs)
  let ?w = "w\<lparr>iw_requests := (iw_requests w)\<lparr>ch_items := qs\<rparr>\<rparr>"
  have ok: "idem_ok ?w" using Cons.prems(1) by (simp add: idem_ok_def)
  obtain w1 where w1: "idem_take (clock i) q ?w = Some w1" using idem_take_owes [OF ok] by blast
  note t = idem_take_owes [OF ok, of "clock i" q, unfolded w1, simplified]
  obtain w2 where "idem_take_all clock (Suc i) qs w1 = Some w2" "idem_ok w2" "ch_items (iw_requests w2) = []"
    "iw_results w2 = iw_results w1" "iw_seen w2 = idem_seen_after (iw_seen w1) qs"
    "\<forall>l. lo_waiting (iw_orderer w2) l = lo_waiting (iw_orderer w1) l @ on_lane l (idem_answers (iw_seen w1) qs)"
    using Cons.IH [of w1 "Suc i"] t by auto
  then show ?case using w1 t by (auto simp: Let_def split: prod.splits)
qed simp

lemma idem_deliver_loop_owes:
  "idem_ok w \<Longrightarrow> idem_deliver_loop now progress w = (p, w1) \<Longrightarrow>
   idem_ok w1 \<and> iw_requests w1 = iw_requests w \<and> iw_seen w1 = iw_seen w
   \<and> (\<forall>l. on_lane l (outlet_contents (iw_results w1)) @ lo_waiting (iw_orderer w1) l
      = on_lane l (outlet_contents (iw_results w)) @ lo_waiting (iw_orderer w) l)"
proof (induction now progress w rule: idem_deliver_loop.induct)
  case (1 now progress w)
  show ?case
  proof (cases "outlet_is_stuck (iw_results w)")
    case True
    then show ?thesis using 1(2,3) by (simp add: idem_deliver_loop.simps [of now progress w])
  next
    case False
    obtain r orderer where pop: "lo_pop_ready now (iw_orderer w) = (r, orderer)" by force
    have s: "lo_sorted reply_place (iw_orderer w)" using 1(2) by (simp add: idem_ok_def)
    have k: "lo_ok (iw_orderer w)" using s by (simp add: lo_sorted_def)
    show ?thesis
    proof (cases r)
      case None
      then show ?thesis
        using 1(2,3) False pop lanes.pop_ok [OF s pop] lanes.pop_nothing [OF s] lo_pop_none [OF k]
        by (auto simp: idem_deliver_loop.simps [of now progress w] idem_ok_def)
    next
      case (Some v)
      let ?w = "w\<lparr>iw_orderer := orderer, iw_results := outlet_send v (iw_results w)\<rparr>"
      have ok: "idem_ok ?w"
        using 1(2) lanes.pop_ok [OF s pop] lo_pop_some [OF k] pop Some by (auto simp: idem_ok_def)
      have "idem_deliver_loop now True ?w = (p, w1)"
        using 1(3) False pop Some by (simp add: idem_deliver_loop.simps [of now progress w])
      from 1(1) [OF False pop [symmetric] Some ok this]
      show ?thesis
        using lanes.pop_takes_front [OF s pop [unfolded Some]] outlet_send_contents [OF False, of v]
        by simp
    qed
  qed
qed

lemma idem_deliver_owes:
  assumes "idem_ok w" "idem_deliver now w = (p, w1)"
  shows "idem_ok w1 \<and> iw_requests w1 = iw_requests w \<and> iw_seen w1 = iw_seen w
   \<and> (\<forall>l. on_lane l (outlet_contents (iw_results w1)) @ lo_waiting (iw_orderer w1) l
      = on_lane l (outlet_contents (iw_results w)) @ lo_waiting (iw_orderer w) l)"
proof -
  obtain ok res where fl: "outlet_flush (iw_results w) = (ok, res)" by force
  have w: "idem_ok (w\<lparr>iw_results := res\<rparr>)" using assms(1) by (simp add: idem_ok_def)
  show ?thesis
    using assms(2) fl outlet_flush_contents [OF fl] w idem_deliver_loop_owes [OF w]
    by (cases ok) (auto simp: idem_deliver_def)
qed

lemma idem_round_owes:
  assumes "idem_ok w"
  shows "\<exists>p w1. idem_round clock now w = Some (p, w1) \<and> idem_ok w1 \<and> (\<forall>l. idem_owed l w1 = idem_owed l w)
    \<and> idem_seen_after (iw_seen w1) (ch_items (iw_requests w1)) = idem_seen_after (iw_seen w) (ch_items (iw_requests w))"
proof -
  obtain w1 where w1: "idem_take_all clock 0 (ch_items (iw_requests w)) w = Some w1" "idem_ok w1"
    "ch_items (iw_requests w1) = []" "iw_results w1 = iw_results w"
    "iw_seen w1 = idem_seen_after (iw_seen w) (ch_items (iw_requests w))"
    "\<forall>l. lo_waiting (iw_orderer w1) l
       = lo_waiting (iw_orderer w) l @ on_lane l (idem_answers (iw_seen w) (ch_items (iw_requests w)))"
    using idem_take_all_owes [OF assms refl] by blast
  obtain p w2 where w2: "idem_deliver now w1 = (p, w2)" by force
  from idem_deliver_owes [OF w1(2) w2] w1 show ?thesis
    by (auto simp: idem_round_def idem_drain_requests_def w2 idem_owed_def)
qed

lemma idem_run_owes:
  "idem_ok w \<Longrightarrow> \<exists>asked polled w1. idem_run es w = Some (asked, polled, w1) \<and>
     (\<forall>l. on_lane l polled @ idem_owed l w1 = idem_owed l w
        @ on_lane l (idem_answers (idem_seen_after (iw_seen w) (ch_items (iw_requests w))) asked))"
proof (induction es arbitrary: w)
  case (Cons e es)
  show ?case
  proof (cases e)
    case (IdemAsked q)
    obtain ok c where c: "chan_push q (iw_requests w) = (ok, c)" by force
    have "idem_ok (w\<lparr>iw_requests := c\<rparr>)" using Cons.prems by (simp add: idem_ok_def)
    from Cons.IH [OF this] show ?thesis
      using IdemAsked c
      by (auto simp: chan_push_def idem_owed_def idem_answers_append idem_seen_after_append split: if_splits prod.splits)
  next
    case (IdemTurn clock now)
    then show ?thesis using idem_round_owes [OF Cons.prems, of clock now] Cons.IH by fastforce
  next
    case IdemPolled
    obtain r res where r: "outlet_poll (iw_results w) = (r, res)" by force
    have "idem_ok (w\<lparr>iw_results := res\<rparr>)" using Cons.prems by (simp add: idem_ok_def)
    from Cons.IH [OF this] show ?thesis
      using IdemPolled r outlet_poll_contents [of "iw_results w"]
      by (cases r) (auto simp: idem_owed_def)
  qed
qed simp


text \<open>The specification in closed form: the last earlier check of the same id decides.\<close>

definition checks_of :: "TxId \<Rightarrow> IdemRequest list \<Rightarrow> IdemRequest list" where
  "checks_of i = filter (\<lambda>q. iq_ask q = Check \<and> iq_tx_id q = i)"

definition verdict_given :: "IdemRequest list \<Rightarrow> IdemRequest \<Rightarrow> IdemVerdict" where
  "verdict_given earlier q =
     (case iq_ask q of
        Serialize \<Rightarrow> NotChecked
      | Check \<Rightarrow>
          (if checks_of (iq_tx_id q) earlier = [] then Fresh
           else if iq_digest (last (checks_of (iq_tx_id q) earlier)) = iq_digest q then DuplicateSameBody
           else DuplicateDifferentBody))"

definition answers_to :: "IdemRequest list \<Rightarrow> IdemReply list" where
  "answers_to qs = map (\<lambda>i. idem_reply (qs ! i) (verdict_given (take i qs) (qs ! i))) [0..<length qs]"

lemma idem_seen_is_last_check:
  "idem_seen_after Map.empty qs i
     = (if checks_of i qs = [] then None else Some (iq_digest (last (checks_of i qs))))"
proof (induction qs rule: rev_induct)
  case (snoc q qs)
  then show ?case
    by (auto simp: checks_of_def idem_seen_after_append idem_verdict_def split: IdemAsk.splits)
qed (simp add: checks_of_def)

lemma idem_answers_closed: "idem_answers Map.empty qs = answers_to qs"
proof (induction qs rule: rev_induct)
  case (snoc q qs)
  have v: "fst (idem_verdict q (idem_seen_after Map.empty qs)) = verdict_given qs q"
    by (auto simp: idem_verdict_def verdict_given_def idem_seen_is_last_check split: IdemAsk.splits)
  have "answers_to (qs @ [q]) = answers_to qs @ [idem_reply q (verdict_given qs q)]"
    by (auto simp: answers_to_def nth_append)
  then show ?case
    using snoc v by (auto simp: idem_answers_append Let_def split: prod.splits)
qed (simp add: answers_to_def)

text \<open>C24: with the fault knob \<open>violate_order_every\<close>, which has it answer out of order on purpose, off, and a range of
  latencies narrower than 2^64 - 1 nanoseconds, the idempotency store answers each lane in the order it was asked,
  whatever latencies are drawn within the range and however the asks, the worker's turns and the polls interleave, and
  it never panics: what a lane has been handed, followed by what is still on its way, is the answers to the requests
  accepted on it. The answers are given in closed form: a check is fresh when its id was never checked before, and
  otherwise a duplicate of the same or of a different body by the last body checked under that id; a request that only
  asked for its place is not checked.\<close>

theorem idem_answers_each_lane_in_order:
  assumes "latency_ok (mic_latency config)" and "mic_violate_order_every config = 0"
  shows "\<exists>asked polled w. idem_run es (idem_start config) = Some (asked, polled, w)
    \<and> on_lane l (answers_to asked) = on_lane l polled @ idem_owed l w"
proof -
  have "idem_ok (idem_start config)"
    using assms by (simp add: idem_ok_def idem_start_def Let_def lo_sorted_def lo_new_def lo_ok_def lo_queue_def)
  moreover have "idem_owed l (idem_start config) = []"
    by (simp add: idem_owed_def idem_start_def Let_def lo_waiting_def lo_new_def lo_queue_def)
  moreover have "iw_seen (idem_start config) = Map.empty" "ch_items (iw_requests (idem_start config)) = []"
    by (simp_all add: idem_start_def Let_def)
  ultimately show ?thesis
    using idem_run_owes [of "idem_start config" es] by (force simp: idem_answers_closed)
qed

definition idem_sample_config :: MemoryIdemConfig where
  "idem_sample_config =
     \<lparr>mic_queue_capacity = 4, mic_latency = \<lparr>lr_min = 1000, lr_max = 5000\<rparr>, mic_violate_order_every = 0, mic_seed = 7\<rparr>"

definition ask_of :: "TxId \<Rightarrow> Seq \<Rightarrow> u64 \<Rightarrow> IdemRequest" where
  "ask_of tx seq digest =
     \<lparr>iq_correlation = 0, iq_tx_id = tx, iq_lane = 9, iq_seq = seq, iq_digest = digest, iq_ask = Check\<rparr>"

definition idem_sample_events :: "IdemEvent list" where
  "idem_sample_events =
     [IdemAsked (ask_of 1 1 5), IdemAsked (ask_of 1 2 6), IdemTurn (\<lambda>i. i) 100, IdemAsked (ask_of 1 3 5),
      IdemTurn (\<lambda>i. 200 + i) 9000, IdemPolled, IdemPolled]"

theorem idem_answers_each_lane_in_order_witness:
  "\<exists>asked polled w. idem_run idem_sample_events (idem_start idem_sample_config) = Some (asked, polled, w)
    \<and> on_lane 9 (answers_to asked) = on_lane 9 polled @ idem_owed 9 w"
  by (rule idem_answers_each_lane_in_order) (simp_all add: idem_sample_config_def latency_ok_def)

text \<open>
  The stored body is the last one checked, not the first: after a conflicting body has been refused, the original
  body is refused too.
\<close>

lemma conflicting_body_replaces_the_first:
  "map ir_verdict (answers_to [ask_of 1 1 5, ask_of 1 2 6, ask_of 1 3 5])
     = [Fresh, DuplicateDifferentBody, DuplicateDifferentBody]"
  by code_simp

end
