(* ===== verification/Echo_Raft.thy ===== *)
theory Echo_Raft
  imports Lane_Order
begin

text \<open>
  The stand-in for consensus (\<open>raft/src/echo.rs\<close>): a worker that answers proposals in the order it got them, after a
  round trip, refusing every n-th when asked to. A committed batch takes the next position of the log and a refused
  one none. The gauges are reports and are left out; the log's mutex is never poisoned, since nothing panics with it
  held.
\<close>

section \<open>The worker\<close>

record RaftWorker =
  rw_log :: "Effect list"
  rw_keep_log :: bool
  rw_proposals :: "RaftProposal Channel"
  rw_commits :: "RaftCommit Outlet"
  rw_inflight :: "(nat \<times> RaftProposal \<times> RaftOutcome) list"
  rw_jitter :: Prng
  rw_round_trip :: LatencyRange
  rw_fail_every :: nat
  rw_reorder_every :: nat
  rw_proposals_seen :: nat
  rw_gate :: AnswerGate
  rw_next_index :: nat

record EchoRaftConfig =
  erc_queue_capacity :: nat
  erc_round_trip :: LatencyRange
  erc_fail_every :: nat
  erc_reorder_every :: nat
  erc_seed :: u64
  erc_keep_log :: bool

definition raft_start :: "EchoRaftConfig \<Rightarrow> RaftWorker" where
  "raft_start config =
     (let capacity = next_power_of_two (erc_queue_capacity config) in
      \<lparr>rw_log = [], rw_keep_log = erc_keep_log config,
       rw_proposals = \<lparr>ch_items = [], ch_capacity = capacity\<rparr>,
       rw_commits = outlet_new \<lparr>ch_items = [], ch_capacity = capacity\<rparr>,
       rw_inflight = [], rw_jitter = prng_new (erc_seed config), rw_round_trip = erc_round_trip config,
       rw_fail_every = erc_fail_every config, rw_reorder_every = erc_reorder_every config,
       rw_proposals_seen = 0, rw_gate = gate_default, rw_next_index = 0\<rparr>)"

definition raft_outcome :: "nat \<Rightarrow> nat \<Rightarrow> RaftOutcome" where
  "raft_outcome fail_every proposals_seen =
     (if fail_every > 0 \<and> proposals_seen mod fail_every = 0 then BatchFailed else BatchCommitted)"

definition raft_take :: "nat \<Rightarrow> RaftProposal \<Rightarrow> RaftWorker \<Rightarrow> RaftWorker option" where
  "raft_take now proposal w =
     (let seen = rw_proposals_seen w + 1;
          outcome = raft_outcome (rw_fail_every w) seen in
      do {
        (due, jitter) \<leftarrow> due_from (rw_round_trip w) now (rw_jitter w);
        let inflight = rw_inflight w @ [(due, proposal, outcome)];
        Some (w\<lparr>rw_proposals_seen := seen, rw_jitter := jitter,
                rw_inflight := (if rw_reorder_every w > 0 \<and> seen mod rw_reorder_every w = 0 \<and> length inflight \<ge> 2
                                then swap_last inflight else inflight)\<rparr>)
      })"

fun raft_take_all :: "(nat \<Rightarrow> nat) \<Rightarrow> nat \<Rightarrow> RaftProposal list \<Rightarrow> RaftWorker \<Rightarrow> RaftWorker option" where
  "raft_take_all clock i [] w = Some w"
| "raft_take_all clock i (proposal # proposals) w = do {
     w1 \<leftarrow> raft_take (clock i) proposal (w\<lparr>rw_proposals := (rw_proposals w)\<lparr>ch_items := proposals\<rparr>\<rparr>);
     raft_take_all clock (Suc i) proposals w1
   }"

definition raft_drain_proposals :: "(nat \<Rightarrow> nat) \<Rightarrow> RaftWorker \<Rightarrow> (bool \<times> RaftWorker) option" where
  "raft_drain_proposals clock w =
     (let proposals = ch_items (rw_proposals w) in
      map_option (\<lambda>w1. (proposals \<noteq> [], w1)) (raft_take_all clock 0 proposals w))"

definition raft_send :: "RaftProposal \<Rightarrow> RaftOutcome \<Rightarrow> RaftWorker \<Rightarrow> RaftWorker" where
  "raft_send proposal outcome w =
     (let next_index = (if outcome = BatchCommitted then rw_next_index w + 1 else rw_next_index w) in
      w\<lparr>rw_log := (if rw_keep_log w \<and> outcome = BatchCommitted then rw_log w @ rp_effects proposal else rw_log w),
        rw_next_index := next_index,
        rw_gate := gate_spend (rw_gate w),
        rw_commits := outlet_send
          \<lparr>rc_batch_id = rp_batch_id proposal, rc_index = next_index, rc_outcome = outcome,
           rc_effects = rp_effects proposal\<rparr> (rw_commits w)\<rparr>)"

function raft_deliver_loop :: "nat \<Rightarrow> bool \<Rightarrow> RaftWorker \<Rightarrow> bool \<times> RaftWorker" where
  "raft_deliver_loop now progress w =
     (if outlet_is_stuck (rw_commits w) \<or> \<not> gate_may_send (rw_gate w) then (progress, w)
      else case rw_inflight w of
             [] \<Rightarrow> (progress, w)
           | (due, proposal, outcome) # inflight \<Rightarrow>
               if due \<le> now then raft_deliver_loop now True (raft_send proposal outcome (w\<lparr>rw_inflight := inflight\<rparr>))
               else (progress, w))"
  by pat_completeness auto
termination
  by (relation "measure (\<lambda>(now, progress, w). length (rw_inflight w))") (auto simp: raft_send_def Let_def)

declare raft_deliver_loop.simps [simp del]

definition raft_deliver :: "nat \<Rightarrow> RaftWorker \<Rightarrow> bool \<times> RaftWorker" where
  "raft_deliver now w0 =
     (let w = (if gate_is_open (rw_gate w0) then w0
               else w0\<lparr>rw_gate := gate_note_waiting (length (rw_inflight w0)) (rw_gate w0)\<rparr>) in
      case outlet_flush (rw_commits w) of
        (False, commits) \<Rightarrow> (False, w\<lparr>rw_commits := commits\<rparr>)
      | (True, commits) \<Rightarrow> raft_deliver_loop now False (w\<lparr>rw_commits := commits\<rparr>))"

definition raft_round :: "(nat \<Rightarrow> nat) \<Rightarrow> nat \<Rightarrow> RaftWorker \<Rightarrow> (bool \<times> RaftWorker) option" where
  "raft_round clock now w = do {
     (drained, w1) \<leftarrow> raft_drain_proposals clock w;
     let (delivered, w2) = raft_deliver now w1;
     Some (drained \<or> delivered, w2)
   }"

section \<open>What it answers\<close>

text \<open>The answers to a whole sequence of proposals: the n-th one is refused when n is a multiple of \<open>fail_every\<close>, and
  each carries the number of batches committed so far.\<close>

definition echo_of :: "nat \<Rightarrow> RaftProposal list \<Rightarrow> RaftCommit list" where
  "echo_of fail_every ps =
     map (\<lambda>i. \<lparr>rc_batch_id = rp_batch_id (ps ! i),
               rc_index = length (filter (\<lambda>n. raft_outcome fail_every n = BatchCommitted) [1..<i + 2]),
               rc_outcome = raft_outcome fail_every (i + 1), rc_effects = rp_effects (ps ! i)\<rparr>) [0..<length ps]"

definition log_of :: "RaftCommit list \<Rightarrow> Effect list" where
  "log_of cs = concat (map rc_effects (filter (\<lambda>c. rc_outcome c = BatchCommitted) cs))"

text \<open>The answers to what waits, given the position the log has reached.\<close>

fun settle :: "nat \<Rightarrow> (RaftProposal \<times> RaftOutcome) list \<Rightarrow> RaftCommit list" where
  "settle index [] = []"
| "settle index ((p, outcome) # rest) =
     (let index1 = (if outcome = BatchCommitted then index + 1 else index) in
      \<lparr>rc_batch_id = rp_batch_id p, rc_index = index1, rc_outcome = outcome, rc_effects = rp_effects p\<rparr>
      # settle index1 rest)"

definition committed_in :: "(RaftProposal \<times> RaftOutcome) list \<Rightarrow> nat" where
  "committed_in xs = length (filter (\<lambda>x. snd x = BatchCommitted) xs)"

definition judged :: "nat \<Rightarrow> nat \<Rightarrow> RaftProposal list \<Rightarrow> (RaftProposal \<times> RaftOutcome) list" where
  "judged fail_every seen ps = map (\<lambda>i. (ps ! i, raft_outcome fail_every (seen + i + 1))) [0..<length ps]"

definition raft_queued :: "RaftWorker \<Rightarrow> (RaftProposal \<times> RaftOutcome) list" where
  "raft_queued w =
     map snd (rw_inflight w) @ judged (rw_fail_every w) (rw_proposals_seen w) (ch_items (rw_proposals w))"

definition raft_unsent :: "RaftWorker \<Rightarrow> RaftCommit list" where
  "raft_unsent w = settle (rw_next_index w) (raft_queued w)"

datatype RaftEvent = RaftProposed RaftProposal | RaftTurn "nat \<Rightarrow> nat" nat | RaftPolled
  | RaftHeld | RaftLetThrough u64 | RaftReleased

fun raft_run :: "RaftEvent list \<Rightarrow> RaftWorker \<Rightarrow> (RaftProposal list \<times> RaftCommit list \<times> RaftWorker) option" where
  "raft_run [] w = Some ([], [], w)"
| "raft_run (RaftProposed p # es) w =
     (let (ok, c) = chan_push p (rw_proposals w) in do {
        (taken, polled, w1) \<leftarrow> raft_run es (w\<lparr>rw_proposals := c\<rparr>);
        Some (if ok then p # taken else taken, polled, w1) })"
| "raft_run (RaftTurn clock now # es) w = do {
     (progress, w1) \<leftarrow> raft_round clock now w;
     raft_run es w1 }"
| "raft_run (RaftPolled # es) w =
     (let (commit, commits) = outlet_poll (rw_commits w) in do {
        (taken, polled, w1) \<leftarrow> raft_run es (w\<lparr>rw_commits := commits\<rparr>);
        Some (taken, (case commit of None \<Rightarrow> polled | Some c \<Rightarrow> c # polled), w1) })"
| "raft_run (RaftHeld # es) w = raft_run es (w\<lparr>rw_gate := gate_hold (rw_gate w)\<rparr>)"
| "raft_run (RaftLetThrough n # es) w = raft_run es (w\<lparr>rw_gate := gate_let_through n (rw_gate w)\<rparr>)"
| "raft_run (RaftReleased # es) w = raft_run es (w\<lparr>rw_gate := gate_release (rw_gate w)\<rparr>)"

section \<open>Settling\<close>

lemma settle_append: "settle i (xs @ ys) = settle i xs @ settle (i + committed_in xs) ys"
  by (induction i xs rule: settle.induct) (auto simp: committed_in_def Let_def)

lemma committed_in_append [simp]: "committed_in (xs @ ys) = committed_in xs + committed_in ys"
  by (simp add: committed_in_def)

lemma judged_append: "judged f n (ps @ qs) = judged f n ps @ judged f (n + length ps) qs"
proof (induction qs rule: rev_induct)
  case (snoc q qs)
  have snoc1: "judged f m (rs @ [r]) = judged f m rs @ [(r, raft_outcome f (m + length rs + 1))]" for m rs r
    by (simp add: judged_def nth_append)
  show ?case using snoc snoc1 [of n "ps @ qs" q] snoc1 [of "n + length ps" qs q] by (simp add: add.assoc)
qed (simp add: judged_def)

lemma judged_simps [simp]:
  "judged f n [] = []" "judged f n [p] = [(p, raft_outcome f (n + 1))]"
  by (simp_all add: judged_def)

lemma judged_Cons: "judged f n (p # ps) = (p, raft_outcome f (n + 1)) # judged f (n + 1) ps"
  using judged_append [of f n "[p]" ps] by simp

lemma committed_in_judged:
  "committed_in (judged f 0 ps) = length (filter (\<lambda>n. raft_outcome f n = BatchCommitted) [1..<length ps + 1])"
  by (induction ps rule: rev_induct) (simp_all add: judged_append committed_in_def)

lemma settle_judged: "settle 0 (judged f 0 ps) = echo_of f ps"
proof (induction ps rule: rev_induct)
  case (snoc p ps)
  have "echo_of f (ps @ [p]) = echo_of f ps
      @ [\<lparr>rc_batch_id = rp_batch_id p, rc_index = length (filter (\<lambda>n. raft_outcome f n = BatchCommitted) [1..<length ps + 2]),
          rc_outcome = raft_outcome f (length ps + 1), rc_effects = rp_effects p\<rparr>]"
    by (auto simp: echo_of_def nth_append simp del: upt_Suc intro!: map_cong) (simp add: upt_Suc)
  then show ?case
    using snoc by (simp add: judged_append settle_append committed_in_judged Let_def)
qed (simp add: echo_of_def)

lemma log_of_simps [simp]:
  "log_of [] = []" "log_of (xs @ ys) = log_of xs @ log_of ys"
  "log_of (c # cs) = (if rc_outcome c = BatchCommitted then rc_effects c else []) @ log_of cs"
  by (simp_all add: log_of_def)


section \<open>Every step of the worker moves answers along\<close>

definition raft_ok :: "RaftWorker \<Rightarrow> bool" where
  "raft_ok w \<longleftrightarrow> rw_reorder_every w = 0 \<and> latency_ok (rw_round_trip w)"

text \<open>\<open>raft_moves w w1\<close>: the answers sent and to be sent are the same, and so is the log they amount to.\<close>

definition raft_moves :: "RaftWorker \<Rightarrow> RaftWorker \<Rightarrow> bool" where
  "raft_moves w w1 \<longleftrightarrow> raft_ok w1 \<and> rw_fail_every w1 = rw_fail_every w \<and> rw_keep_log w1 = rw_keep_log w
     \<and> outlet_contents (rw_commits w1) @ raft_unsent w1 = outlet_contents (rw_commits w) @ raft_unsent w
     \<and> (rw_keep_log w \<longrightarrow> rw_log w1 @ log_of (raft_unsent w1) = rw_log w @ log_of (raft_unsent w))
     \<and> rw_next_index w1 + committed_in (raft_queued w1) = rw_next_index w + committed_in (raft_queued w)
     \<and> rw_proposals_seen w1 + length (ch_items (rw_proposals w1))
         = rw_proposals_seen w + length (ch_items (rw_proposals w))"

lemma raft_moves_refl: "raft_ok w \<Longrightarrow> raft_moves w w"
  by (simp add: raft_moves_def)

lemma raft_moves_trans: "raft_moves w w1 \<Longrightarrow> raft_moves w1 w2 \<Longrightarrow> raft_moves w w2"
  by (auto simp: raft_moves_def)

lemma raft_take_moves:
  assumes "raft_ok w" "ch_items (rw_proposals w) = p # ps"
  shows "\<exists>w1. raft_take now p (w\<lparr>rw_proposals := (rw_proposals w)\<lparr>ch_items := ps\<rparr>\<rparr>) = Some w1
    \<and> raft_moves w w1 \<and> ch_items (rw_proposals w1) = ps"
proof -
  obtain due jitter where due: "due_from (rw_round_trip w) now (rw_jitter w) = Some (due, jitter)"
    using assms due_from_total by (meson raft_ok_def)
  let ?w1 = "w\<lparr>rw_proposals := (rw_proposals w)\<lparr>ch_items := ps\<rparr>, rw_proposals_seen := rw_proposals_seen w + 1,
    rw_jitter := jitter,
    rw_inflight := rw_inflight w @ [(due, p, raft_outcome (rw_fail_every w) (rw_proposals_seen w + 1))]\<rparr>"
  have t: "raft_take now p (w\<lparr>rw_proposals := (rw_proposals w)\<lparr>ch_items := ps\<rparr>\<rparr>) = Some ?w1"
    using due assms(1) by (simp add: raft_take_def raft_ok_def Let_def)
  have "raft_queued ?w1 = raft_queued w" using assms(2) by (simp add: raft_queued_def judged_Cons)
  then have "raft_moves w ?w1" using assms by (simp add: raft_moves_def raft_unsent_def raft_ok_def)
  then show ?thesis using t by auto
qed

lemma raft_take_all_moves:
  "raft_ok w \<Longrightarrow> ch_items (rw_proposals w) = ps \<Longrightarrow> \<exists>w1. raft_take_all clock i ps w = Some w1 \<and> raft_moves w w1"
proof (induction ps arbitrary: w i)
  case (Cons p ps)
  obtain w1 where w1: "raft_take (clock i) p (w\<lparr>rw_proposals := (rw_proposals w)\<lparr>ch_items := ps\<rparr>\<rparr>) = Some w1"
    "raft_moves w w1" "ch_items (rw_proposals w1) = ps"
    using raft_take_moves [OF Cons.prems] by blast
  moreover have "raft_ok w1" using w1(2) by (simp add: raft_moves_def)
  ultimately show ?case using Cons.IH [of w1 "Suc i"] raft_moves_trans by fastforce
qed (simp add: raft_moves_refl)

lemma raft_send_moves:
  assumes "raft_ok w" "\<not> outlet_is_stuck (rw_commits w)" "rw_inflight w = (due, p, outcome) # rest"
  shows "raft_moves w (raft_send p outcome (w\<lparr>rw_inflight := rest\<rparr>))"
proof -
  have "raft_queued w = (p, outcome) # raft_queued (w\<lparr>rw_inflight := rest\<rparr>)"
    using assms(3) by (simp add: raft_queued_def)
  then show ?thesis
    using assms(1) outlet_send_contents [OF assms(2)]
    by (auto simp: raft_moves_def raft_send_def raft_unsent_def raft_queued_def raft_ok_def Let_def committed_in_def)
qed

lemma raft_deliver_loop_moves:
  "raft_ok w \<Longrightarrow> raft_deliver_loop now progress w = (q, w1) \<Longrightarrow> raft_moves w w1"
proof (induction now progress w rule: raft_deliver_loop.induct)
  case (1 now progress w)
  show ?case
  proof (cases "outlet_is_stuck (rw_commits w) \<or> \<not> gate_may_send (rw_gate w)
      \<or> (case rw_inflight w of [] \<Rightarrow> True | (due, _, _) # _ \<Rightarrow> now < due)")
    case True
    then have "w1 = w"
      using 1(3) by (auto simp: raft_deliver_loop.simps [of now progress w] split: if_splits list.splits)
    then show ?thesis using 1(2) by (simp add: raft_moves_refl)
  next
    case False
    then obtain due p outcome rest where h: "rw_inflight w = (due, p, outcome) # rest" "due \<le> now"
      by (cases "rw_inflight w") (auto simp: not_less)
    let ?w = "raft_send p outcome (w\<lparr>rw_inflight := rest\<rparr>)"
    have m: "raft_moves w ?w" using raft_send_moves [OF 1(2) _ h(1)] False by simp
    have "raft_deliver_loop now True ?w = (q, w1)"
      using 1(3) False h by (simp add: raft_deliver_loop.simps [of now progress w])
    moreover have "raft_ok ?w" using m by (simp add: raft_moves_def)
    ultimately have "raft_moves ?w w1" using 1(1) [OF _ h(1) refl refl h(2)] False by simp
    then show ?thesis using m raft_moves_trans by blast
  qed
qed

lemma raft_moves_frame:
  assumes "raft_ok w" "outlet_contents c = outlet_contents (rw_commits w)"
  shows "raft_moves w (w\<lparr>rw_gate := g, rw_commits := c\<rparr>)"
  using assms by (simp add: raft_moves_def raft_ok_def raft_unsent_def raft_queued_def)

lemma raft_deliver_moves:
  assumes "raft_ok w" "raft_deliver now w = (q, w1)"
  shows "raft_moves w w1"
proof -
  define g where "g = (if gate_is_open (rw_gate w) then rw_gate w
    else gate_note_waiting (length (rw_inflight w)) (rw_gate w))"
  obtain ok c where fl: "outlet_flush (rw_commits w) = (ok, c)" by force
  let ?w = "w\<lparr>rw_gate := g, rw_commits := c\<rparr>"
  have m: "raft_moves w ?w" using raft_moves_frame [OF assms(1)] outlet_flush_contents [OF fl] by simp
  have "raft_deliver now w = (if ok then raft_deliver_loop now False ?w else (False, ?w))"
    using fl by (auto simp: raft_deliver_def g_def Let_def)
  then show ?thesis
    using assms(2) m raft_deliver_loop_moves raft_moves_trans raft_moves_def
    by (metis prod.inject)
qed

lemma raft_round_moves:
  assumes "raft_ok w"
  shows "\<exists>q w1. raft_round clock now w = Some (q, w1) \<and> raft_moves w w1"
proof -
  obtain w1 where w1: "raft_take_all clock 0 (ch_items (rw_proposals w)) w = Some w1" "raft_moves w w1"
    using raft_take_all_moves [OF assms refl] by blast
  obtain q w2 where w2: "raft_deliver now w1 = (q, w2)" by force
  have "raft_moves w w2"
    using w1(2) raft_deliver_moves [OF _ w2] raft_moves_trans raft_moves_def by blast
  then show ?thesis using w1(1) w2 by (auto simp: raft_round_def raft_drain_proposals_def)
qed

text \<open>What a run adds: the answers to the proposals it accepted, judged where the count and the log stood.\<close>

definition raft_adds :: "RaftWorker \<Rightarrow> RaftProposal list \<Rightarrow> RaftCommit list" where
  "raft_adds w ps =
     settle (rw_next_index w + committed_in (raft_queued w))
       (judged (rw_fail_every w) (rw_proposals_seen w + length (ch_items (rw_proposals w))) ps)"

lemma raft_moves_adds: "raft_moves w w1 \<Longrightarrow> raft_adds w1 ps = raft_adds w ps"
  by (simp add: raft_moves_def raft_adds_def)

lemma raft_proposed_adds:
  fixes w p
  defines "w1 \<equiv> w\<lparr>rw_proposals := (rw_proposals w)\<lparr>ch_items := ch_items (rw_proposals w) @ [p]\<rparr>\<rparr>"
  shows "raft_unsent w1 = raft_unsent w @ raft_adds w [p]" "raft_adds w (p # ps) = raft_adds w [p] @ raft_adds w1 ps"
proof -
  have q: "raft_queued w1 = raft_queued w
      @ judged (rw_fail_every w) (rw_proposals_seen w + length (ch_items (rw_proposals w))) [p]"
    by (simp add: w1_def raft_queued_def judged_append)
  have n: "rw_next_index w1 = rw_next_index w" by (simp add: w1_def)
  show "raft_unsent w1 = raft_unsent w @ raft_adds w [p]"
    by (simp add: raft_unsent_def raft_adds_def q settle_append n)
  show "raft_adds w (p # ps) = raft_adds w [p] @ raft_adds w1 ps"
    using settle_append [of "rw_next_index w + committed_in (raft_queued w)"
      "judged (rw_fail_every w) (rw_proposals_seen w + length (ch_items (rw_proposals w))) [p]"]
    by (simp add: raft_adds_def q judged_append [of _ _ "[p]" ps, simplified])
      (simp add: w1_def add.assoc)
qed

lemma raft_run_adds:
  "raft_ok w \<Longrightarrow> \<exists>taken polled w1. raft_run es w = Some (taken, polled, w1)
     \<and> polled @ outlet_contents (rw_commits w1) @ raft_unsent w1
         = outlet_contents (rw_commits w) @ raft_unsent w @ raft_adds w taken
     \<and> (rw_keep_log w \<longrightarrow> rw_log w1 @ log_of (raft_unsent w1) = rw_log w @ log_of (raft_unsent w @ raft_adds w taken))"
proof (induction es arbitrary: w)
  case Nil
  then show ?case by (simp add: raft_adds_def)
next
  case (Cons e es)
  have by_moves: ?case if "\<exists>w1. raft_run (e # es) w = raft_run es w1 \<and> raft_moves w w1"
    using that Cons.IH raft_moves_adds unfolding raft_moves_def by (smt (verit, best) append.assoc log_of_simps(2))
  show ?case
  proof (cases e)
    case (RaftProposed p)
    show ?thesis
    proof (cases "length (ch_items (rw_proposals w)) < ch_capacity (rw_proposals w)")
      case True
      let ?w = "w\<lparr>rw_proposals := (rw_proposals w)\<lparr>ch_items := ch_items (rw_proposals w) @ [p]\<rparr>\<rparr>"
      have "raft_ok ?w" using Cons.prems by (simp add: raft_ok_def)
      then obtain taken polled w1 where run: "raft_run es ?w = Some (taken, polled, w1)"
        and all: "polled @ outlet_contents (rw_commits w1) @ raft_unsent w1
          = outlet_contents (rw_commits w) @ raft_unsent ?w @ raft_adds ?w taken"
        and log: "rw_keep_log w \<longrightarrow> rw_log w1 @ log_of (raft_unsent w1)
          = rw_log w @ log_of (raft_unsent ?w @ raft_adds ?w taken)"
        using Cons.IH [of ?w] by auto
      have "raft_run (e # es) w = Some (p # taken, polled, w1)"
        using RaftProposed True run by (simp add: chan_push_def)
      moreover have "raft_unsent ?w @ raft_adds ?w taken = raft_unsent w @ raft_adds w (p # taken)"
        unfolding raft_proposed_adds(1) [of w p] raft_proposed_adds(2) [of w p taken] by simp
      ultimately show ?thesis using all log by metis
    next
      case False
      then show ?thesis using RaftProposed Cons.IH [OF Cons.prems] by (auto simp: chan_push_def)
    qed
  next
    case (RaftTurn clock now)
    then show ?thesis using raft_round_moves [OF Cons.prems, of clock now] by (intro by_moves) auto
  next
    case RaftPolled
    obtain c cs where c: "outlet_poll (rw_commits w) = (c, cs)" by force
    let ?w = "w\<lparr>rw_commits := cs\<rparr>"
    have ok: "raft_ok ?w" using Cons.prems by (simp add: raft_ok_def)
    have same: "raft_unsent ?w = raft_unsent w" "\<And>ps. raft_adds ?w ps = raft_adds w ps"
      by (simp_all add: raft_unsent_def raft_queued_def raft_adds_def)
    show ?thesis
      using RaftPolled c same Cons.IH [OF ok] outlet_poll_contents [of "rw_commits w"] by (cases c) auto
  next
    case RaftHeld
    then show ?thesis using raft_moves_frame [OF Cons.prems refl] by (intro by_moves) auto
  next
    case (RaftLetThrough n)
    then show ?thesis using raft_moves_frame [OF Cons.prems refl] by (intro by_moves) auto
  next
    case RaftReleased
    then show ?thesis using raft_moves_frame [OF Cons.prems refl] by (intro by_moves) auto
  qed
qed

text \<open>C23: with the fault knob \<open>reorder_every\<close>, which has it answer out of order on purpose, off, and a range of round trips
  narrower than 2^64 - 1 nanoseconds, the consensus stand-in answers every proposal it accepted, in the order of the
  proposals, whatever round trips are drawn within the range, however proposals, turns and polls interleave and whenever
  a test holds the answers back, and it never panics. The n-th answer carries the number of batches committed up to it,
  so the positions of the committed batches are 1, 2, 3, \<dots> without a gap, and the log it keeps is the effects of
  the committed batches it has answered.\<close>

theorem raft_answers_in_proposal_order:
  assumes "latency_ok (erc_round_trip config)" and "erc_reorder_every config = 0"
  shows "\<exists>taken polled w. raft_run es (raft_start config) = Some (taken, polled, w)
    \<and> echo_of (erc_fail_every config) taken = polled @ outlet_contents (rw_commits w) @ raft_unsent w
    \<and> (erc_keep_log config \<longrightarrow> rw_log w = log_of (polled @ outlet_contents (rw_commits w)))"
proof -
  let ?w = "raft_start config"
  have start: "raft_ok ?w" "raft_unsent ?w = []" "outlet_contents (rw_commits ?w) = []" "rw_log ?w = []"
    "rw_keep_log ?w = erc_keep_log config"
    using assms by (simp_all add: raft_ok_def raft_start_def raft_unsent_def raft_queued_def Let_def)
  have adds: "raft_adds ?w ps = echo_of (erc_fail_every config) ps" for ps
    by (simp add: raft_adds_def raft_start_def raft_queued_def Let_def committed_in_def settle_judged)
  obtain taken polled w where run: "raft_run es ?w = Some (taken, polled, w)"
    and all: "polled @ outlet_contents (rw_commits w) @ raft_unsent w = echo_of (erc_fail_every config) taken"
    and log: "erc_keep_log config \<longrightarrow> rw_log w @ log_of (raft_unsent w) = log_of (echo_of (erc_fail_every config) taken)"
    using raft_run_adds [OF start(1), of es] by (auto simp: start adds)
  have "erc_keep_log config \<longrightarrow> rw_log w = log_of (polled @ outlet_contents (rw_commits w))"
    using log unfolding all [symmetric] by simp
  then show ?thesis using run all by auto
qed

definition raft_sample_config :: EchoRaftConfig where
  "raft_sample_config =
     \<lparr>erc_queue_capacity = 2, erc_round_trip = \<lparr>lr_min = 900, lr_max = 1400\<rparr>, erc_fail_every = 2,
      erc_reorder_every = 0, erc_seed = 3, erc_keep_log = True\<rparr>"

theorem raft_answers_in_proposal_order_witness:
  "\<exists>taken polled w.
    raft_run [RaftProposed \<lparr>rp_batch_id = 1, rp_effects = []\<rparr>, RaftTurn (\<lambda>i. i) 10, RaftHeld,
      RaftProposed \<lparr>rp_batch_id = 2, rp_effects = []\<rparr>, RaftTurn (\<lambda>i. i) 9000, RaftReleased, RaftTurn (\<lambda>i. i) 9000, RaftPolled]
      (raft_start raft_sample_config) = Some (taken, polled, w)
    \<and> echo_of (erc_fail_every raft_sample_config) taken = polled @ outlet_contents (rw_commits w) @ raft_unsent w
    \<and> (erc_keep_log raft_sample_config \<longrightarrow> rw_log w = log_of (polled @ outlet_contents (rw_commits w)))"
  by (rule raft_answers_in_proposal_order) (simp_all add: raft_sample_config_def latency_ok_def)

end
