(* ===== verification/Pending_Orderer.thy ===== *)
theory Pending_Orderer
  imports Lane_Order
begin

text \<open>
  The pending engine's orderer (\<open>pending/src/orderer.rs\<close>): a place is reserved when a command is taken off the queue
  and filled when its work finishes; a lane's replies leave in the order their places were reserved. It satisfies the
  contract \<open>lane_release\<close> of an orderer when its commands on a lane are numbered without a gap while the lane is busy,
  which is what the sequencer's fences are for.
\<close>

section \<open>Data\<close>

record 'a HeldReply =
  hr_ready_at :: nat
  hr_blocked :: bool
  hr_value :: 'a

record 'a OrderedLane =
  ol_next :: Seq
  ol_places :: "(Seq \<times> 'a HeldReply option) list"
  ol_exempt :: "'a HeldReply list"
  ol_swapped :: "(Seq \<times> Seq) list"
  ol_in_rotation :: bool

record 'a Orderer =
  od_lanes :: "(AccountId \<times> 'a OrderedLane) list"
  od_rotation :: "AccountId list"
  od_held :: nat
  od_deepest_lane :: nat
  od_violate_every :: u32
  od_pushes :: u32
  od_released :: nat
  od_order_nanos :: nat
  od_order_worst_nanos :: nat
  od_delivery_nanos :: nat
  od_order_held :: nat

record OrderWait =
  ow_released :: nat
  ow_held_for_order :: nat
  ow_order_nanos :: nat
  ow_order_worst_nanos :: nat
  ow_delivery_nanos :: nat
  ow_deepest_lane :: nat

definition ol_new :: "'a OrderedLane" where
  "ol_new = \<lparr>ol_next = 0, ol_places = [], ol_exempt = [], ol_swapped = [], ol_in_rotation = False\<rparr>"

definition od_new :: "u32 \<Rightarrow> 'a Orderer" where
  "od_new violate_every =
     \<lparr>od_lanes = [], od_rotation = [], od_held = 0, od_deepest_lane = 0, od_violate_every = violate_every, od_pushes = 0,
      od_released = 0, od_order_nanos = 0, od_order_worst_nanos = 0, od_delivery_nanos = 0, od_order_held = 0\<rparr>"

section \<open>Operations\<close>

definition lane_mut :: "AccountId \<Rightarrow> 'a Orderer \<Rightarrow> 'a OrderedLane" where
  "lane_mut lane s = (case map_of (od_lanes s) lane of None \<Rightarrow> ol_new | Some entry \<Rightarrow> entry)"

text \<open>The lane that was just touched is put back and joins the rotation when it is not in it.\<close>

definition enrol :: "AccountId \<Rightarrow> 'a OrderedLane \<Rightarrow> 'a Orderer \<Rightarrow> 'a Orderer" where
  "enrol lane entry s =
     (if ol_in_rotation entry then s\<lparr>od_lanes := AList.update lane entry (od_lanes s)\<rparr>
      else s\<lparr>od_lanes := AList.update lane (entry\<lparr>ol_in_rotation := True\<rparr>) (od_lanes s),
             od_rotation := od_rotation s @ [lane]\<rparr>)"

definition od_expect :: "AccountId \<Rightarrow> Seq \<Rightarrow> 'a Orderer \<Rightarrow> 'a Orderer" where
  "od_expect lane seq s =
     (if seq = UNORDERED then s
      else let entry = lane_mut lane s;
               entry1 = (if ol_places entry = [] then entry\<lparr>ol_next := seq\<rparr> else entry);
               entry2 = entry1\<lparr>ol_places := AList.update seq None (ol_places entry1)\<rparr> in
           enrol lane entry2 s)"

text \<open>Where a finished reply goes: to the place it was swapped to, in exchange with the place the lane waits for when
  the fault strikes, or to its own place.\<close>

definition fill_place :: "bool \<Rightarrow> Seq \<Rightarrow> 'a HeldReply \<Rightarrow> 'a OrderedLane \<Rightarrow> 'a OrderedLane" where
  "fill_place violate seq held entry =
     (case map_of (ol_swapped entry) seq of
        Some at \<Rightarrow>
          entry\<lparr>ol_swapped := AList.delete seq (ol_swapped entry),
                ol_places := AList.update at (Some held) (ol_places entry)\<rparr>
      | None \<Rightarrow>
          if violate \<and> ol_next entry \<noteq> seq \<and> map_of (ol_places entry) (ol_next entry) \<noteq> None then
            let claimed = AList.update (ol_next entry) (Some held) (ol_places entry) in
            (case map_of (ol_places entry) (ol_next entry) of
               Some (Some other) \<Rightarrow> entry\<lparr>ol_places := AList.update seq (Some other) claimed\<rparr>
             | _ \<Rightarrow> entry\<lparr>ol_places := AList.update seq None claimed,
                          ol_swapped := AList.update (ol_next entry) seq (ol_swapped entry)\<rparr>)
          else entry\<lparr>ol_places := AList.update seq (Some held) (ol_places entry)\<rparr>)"

definition od_fill :: "AccountId \<Rightarrow> Seq \<Rightarrow> nat \<Rightarrow> 'a \<Rightarrow> 'a Orderer \<Rightarrow> 'a Orderer" where
  "od_fill lane seq ready_at value s0 =
     (let s = s0\<lparr>od_pushes := od_pushes s0 + 1\<rparr>;
          violate = (od_violate_every s > 0 \<and> od_pushes s mod od_violate_every s = 0 \<and> seq \<noteq> UNORDERED);
          entry = lane_mut lane s;
          blocked = (seq \<noteq> UNORDERED \<and> seq \<noteq> ol_next entry);
          held = \<lparr>hr_ready_at = ready_at, hr_blocked = blocked, hr_value = value\<rparr> in
      if seq = UNORDERED then
        enrol lane (entry\<lparr>ol_exempt := ol_exempt entry @ [held]\<rparr>) (s\<lparr>od_held := od_held s + 1\<rparr>)
      else
        let entry1 = fill_place violate seq held entry;
            depth = length (ol_places entry1) + length (ol_exempt entry1) in
        enrol lane entry1
          (s\<lparr>od_held := od_held s + 1, od_deepest_lane := max (od_deepest_lane s) depth,
             od_order_held := (if blocked then od_order_held s + 1 else od_order_held s)\<rparr>))"

definition release_seq :: "'a OrderedLane \<Rightarrow> Seq option" where
  "release_seq lane =
     (if ol_exempt lane \<noteq> [] then Some UNORDERED
      else case map_of (ol_places lane) (ol_next lane) of Some (Some _) \<Rightarrow> Some (ol_next lane) | _ \<Rightarrow> None)"

definition ol_head :: "'a OrderedLane \<Rightarrow> Seq \<Rightarrow> 'a HeldReply option" where
  "ol_head lane seq =
     (if seq = UNORDERED then (case ol_exempt lane of [] \<Rightarrow> None | held # _ \<Rightarrow> Some held)
      else case map_of (ol_places lane) seq of None \<Rightarrow> None | Some place \<Rightarrow> place)"

definition od_next_due :: "'a Orderer \<Rightarrow> nat option" where
  "od_next_due s =
     (case List.map_filter (\<lambda>id. do {
             lane \<leftarrow> map_of (od_lanes s) id;
             seq \<leftarrow> release_seq lane;
             map_option hr_ready_at (ol_head lane seq) }) (od_rotation s) of
        [] \<Rightarrow> None
      | d # ds \<Rightarrow> Some (fold min ds d))"

definition od_behind_heads :: "'a Orderer \<Rightarrow> nat" where
  "od_behind_heads s =
     od_held s - length (filter (\<lambda>id. case map_of (od_lanes s) id of
                                        None \<Rightarrow> False | Some lane \<Rightarrow> release_seq lane \<noteq> None) (od_rotation s))"

definition order_wait :: "'a Orderer \<Rightarrow> OrderWait" where
  "order_wait s =
     \<lparr>ow_released = od_released s, ow_held_for_order = od_order_held s, ow_order_nanos = od_order_nanos s,
      ow_order_worst_nanos = od_order_worst_nanos s, ow_delivery_nanos = od_delivery_nanos s,
      ow_deepest_lane = od_deepest_lane s\<rparr>"

text \<open>The head a release found is the reply it takes, so its removal cannot find the place empty.\<close>

definition ol_take :: "Seq \<Rightarrow> 'a OrderedLane \<Rightarrow> 'a OrderedLane" where
  "ol_take seq lane =
     (if seq = UNORDERED then lane\<lparr>ol_exempt := tl (ol_exempt lane)\<rparr>
      else lane\<lparr>ol_places := AList.delete seq (ol_places lane), ol_next := seq + 1\<rparr>)"

definition od_release :: "nat \<Rightarrow> AccountId \<Rightarrow> AccountId list \<Rightarrow> 'a OrderedLane \<Rightarrow> Seq \<Rightarrow> 'a HeldReply \<Rightarrow> 'a Orderer \<Rightarrow> 'a Orderer" where
  "od_release now lane_id rotation lane seq held s =
     (let lane1 = ol_take seq lane;
          waited = now - hr_ready_at held;
          quiet = (ol_places lane1 = [] \<and> ol_exempt lane1 = [] \<and> ol_swapped lane1 = []);
          s1 = s\<lparr>od_held := usize_sub (od_held s) 1, od_released := od_released s + 1\<rparr>;
          s2 = (if hr_blocked held
                then s1\<lparr>od_order_nanos := od_order_nanos s1 + waited,
                        od_order_worst_nanos := max (od_order_worst_nanos s1) waited\<rparr>
                else s1\<lparr>od_delivery_nanos := od_delivery_nanos s1 + waited\<rparr>) in
      s2\<lparr>od_lanes := AList.update lane_id (if quiet then lane1\<lparr>ol_in_rotation := False\<rparr> else lane1) (od_lanes s2),
         od_rotation := (if quiet then rotation else rotation @ [lane_id])\<rparr>)"

fun od_pop_lanes :: "nat \<Rightarrow> nat \<Rightarrow> 'a Orderer \<Rightarrow> 'a option \<times> 'a Orderer" where
  "od_pop_lanes 0 now s = (None, s)"
| "od_pop_lanes (Suc n) now s =
     (case od_rotation s of
        [] \<Rightarrow> (None, s)
      | lane_id # rotation \<Rightarrow>
          (case map_of (od_lanes s) lane_id of
             None \<Rightarrow> od_pop_lanes n now (s\<lparr>od_rotation := rotation\<rparr>)
           | Some lane \<Rightarrow>
               (case release_seq lane of
                  None \<Rightarrow> od_pop_lanes n now (s\<lparr>od_rotation := rotation @ [lane_id]\<rparr>)
                | Some seq \<Rightarrow>
                    (case ol_head lane seq of
                       None \<Rightarrow> od_pop_lanes n now (s\<lparr>od_rotation := rotation @ [lane_id]\<rparr>)
                     | Some held \<Rightarrow>
                         if hr_ready_at held \<le> now
                         then (Some (hr_value held), od_release now lane_id rotation lane seq held s)
                         else od_pop_lanes n now (s\<lparr>od_rotation := rotation @ [lane_id]\<rparr>)))))"

definition od_pop_ready :: "nat \<Rightarrow> 'a Orderer \<Rightarrow> 'a option \<times> 'a Orderer" where
  "od_pop_ready now s = od_pop_lanes (length (od_rotation s)) now s"

section \<open>An orderly lane\<close>

text \<open>The places a lane has reserved, in order: consecutive numbers from the one it waits for.\<close>

definition ol_waiting :: "'a OrderedLane \<Rightarrow> Seq list" where
  "ol_waiting lane = map (\<lambda>i. ol_next lane + word_of_nat i) [0..<length (ol_places lane)]"

text \<open>\<open>place_of\<close> is the lane and the number a reply carries, nothing when it keeps no place.\<close>

definition lane_ordered :: "('a \<Rightarrow> (AccountId \<times> Seq) option) \<Rightarrow> AccountId \<Rightarrow> 'a OrderedLane \<Rightarrow> bool" where
  "lane_ordered place_of l lane \<longleftrightarrow> ol_swapped lane = [] \<and> distinct (map fst (ol_places lane))
     \<and> set (map fst (ol_places lane)) = set (ol_waiting lane)
     \<and> unat (ol_next lane) + length (ol_places lane) < 2 ^ 64 \<and> (ol_places lane \<noteq> [] \<longrightarrow> ol_next lane \<noteq> UNORDERED)
     \<and> (\<forall>seq held. map_of (ol_places lane) seq = Some (Some held) \<longrightarrow> place_of (hr_value held) = Some (l, seq))
     \<and> (\<forall>held \<in> set (ol_exempt lane). place_of (hr_value held) = None)"

definition ol_busy :: "'a OrderedLane \<Rightarrow> bool" where
  "ol_busy lane \<longleftrightarrow> ol_places lane \<noteq> [] \<or> ol_exempt lane \<noteq> []"

text \<open>The rotation holds each busy lane once.\<close>

definition od_orderly :: "('a \<Rightarrow> (AccountId \<times> Seq) option) \<Rightarrow> 'a Orderer \<Rightarrow> bool" where
  "od_orderly place_of s \<longleftrightarrow> od_violate_every s = 0 \<and> distinct (od_rotation s)
     \<and> (\<forall>l. lane_ordered place_of l (lane_mut l s) \<and> (l \<in> set (od_rotation s) \<longleftrightarrow> ol_in_rotation (lane_mut l s))
        \<and> (ol_in_rotation (lane_mut l s) \<longleftrightarrow> ol_busy (lane_mut l s)))"

definition od_waiting :: "'a Orderer \<Rightarrow> AccountId \<Rightarrow> Seq list" where
  "od_waiting s l = ol_waiting (lane_mut l s)"

lemma ol_new_ordered [simp]: "lane_ordered place_of l ol_new" "\<not> ol_in_rotation ol_new" "\<not> ol_busy ol_new"
  by (simp_all add: lane_ordered_def ol_new_def ol_waiting_def ol_busy_def)

lemma od_new_orderly: "od_orderly place_of (od_new 0)"
  by (simp add: od_orderly_def od_new_def lane_mut_def)

lemma lane_mut_update:
  "lane_mut l (s\<lparr>od_lanes := AList.update lane entry (od_lanes s)\<rparr>) = (if l = lane then entry else lane_mut l s)"
  by (auto simp: lane_mut_def update_conv)

lemma lane_mut_other [simp]:
  "lane_mut l (s\<lparr>od_rotation := r\<rparr>) = lane_mut l s" "lane_mut l (s\<lparr>od_held := h\<rparr>) = lane_mut l s"
  "lane_mut l (s\<lparr>od_pushes := k\<rparr>) = lane_mut l s" "lane_mut l (s\<lparr>od_deepest_lane := d\<rparr>) = lane_mut l s"
  "lane_mut l (s\<lparr>od_order_held := c\<rparr>) = lane_mut l s"
  by (simp_all add: lane_mut_def)


lemma in_rotation_irrelevant [simp]:
  "lane_ordered place_of l (e\<lparr>ol_in_rotation := b\<rparr>) = lane_ordered place_of l e"
  "ol_waiting (e\<lparr>ol_in_rotation := b\<rparr>) = ol_waiting e" "ol_busy (e\<lparr>ol_in_rotation := b\<rparr>) = ol_busy e"
  by (simp_all add: lane_ordered_def ol_waiting_def ol_busy_def)

lemma enrol_orderly:
  assumes "od_orderly place_of s" "lane_ordered place_of l e" "ol_busy e"
    "ol_in_rotation e = ol_in_rotation (lane_mut l s)"
    "od_lanes s1 = od_lanes s" "od_rotation s1 = od_rotation s" "od_violate_every s1 = od_violate_every s"
  shows "od_orderly place_of (enrol l e s1)" "od_waiting (enrol l e s1) = (od_waiting s)(l := ol_waiting e)"
proof -
  have m: "lane_mut k (enrol l e s1) = (if k = l then e\<lparr>ol_in_rotation := True\<rparr> else lane_mut k s)" for k
    using assms(5) by (auto simp: enrol_def lane_mut_def update_conv)
  have r: "od_rotation (enrol l e s1) = (if ol_in_rotation e then od_rotation s else od_rotation s @ [l])"
    using assms(6) by (simp add: enrol_def)
  have v: "od_violate_every (enrol l e s1) = od_violate_every s" using assms(7) by (simp add: enrol_def)
  show "od_waiting (enrol l e s1) = (od_waiting s)(l := ol_waiting e)"
    by (auto simp: od_waiting_def m fun_eq_iff)
  have l: "l \<in> set (od_rotation s) \<longleftrightarrow> ol_in_rotation e" using assms(1,4) by (simp add: od_orderly_def)
  have rot: "k \<in> set (od_rotation (enrol l e s1)) \<longleftrightarrow> k = l \<or> k \<in> set (od_rotation s)" for k
    using l by (auto simp: r)
  have d: "distinct (od_rotation (enrol l e s1))" using l assms(1) by (simp add: r od_orderly_def)
  have c: "lane_ordered place_of k (lane_mut k (enrol l e s1))
      \<and> (k \<in> set (od_rotation (enrol l e s1)) \<longleftrightarrow> ol_in_rotation (lane_mut k (enrol l e s1)))
      \<and> (ol_in_rotation (lane_mut k (enrol l e s1)) \<longleftrightarrow> ol_busy (lane_mut k (enrol l e s1)))" for k
  proof (cases "k = l")
    case True
    then show ?thesis using assms(2,3) by (simp add: m rot)
  next
    case False
    then show ?thesis using assms(1) by (simp add: m rot od_orderly_def)
  qed
  have z: "od_violate_every (enrol l e s1) = 0" using assms(1) v by (simp add: od_orderly_def)
  show "od_orderly place_of (enrol l e s1)"
    unfolding od_orderly_def by (rule conjI [OF z conjI [OF d allI [OF c]]])
qed

lemma unat_next: "unat (n :: u64) + i < 2 ^ 64 \<Longrightarrow> unat (n + word_of_nat i) = unat n + i"
  by (simp add: unat_word_ariths unat_of_nat)

lemma next_inj:
  assumes "unat (n :: u64) + i < 2 ^ 64" "unat n + j < 2 ^ 64" "n + word_of_nat i = n + word_of_nat j"
  shows "i = j"
proof -
  have "unat n + i = unat n + j" unfolding unat_next [OF assms(1), symmetric] unat_next [OF assms(2), symmetric] assms(3) ..
  then show ?thesis by (rule add_left_imp_eq)
qed

section \<open>Reserving, filling and taking a place\<close>

definition expect_fits :: "AccountId \<Rightarrow> Seq \<Rightarrow> 'a Orderer \<Rightarrow> bool" where
  "expect_fits lane seq s \<longleftrightarrow> seq = UNORDERED \<or>
     seq \<noteq> -1 \<and>
     (let entry = lane_mut lane s in
      ol_places entry = [] \<or> seq = ol_next entry + word_of_nat (length (ol_places entry)))"

definition fill_fits :: "('a \<Rightarrow> (AccountId \<times> Seq) option) \<Rightarrow> AccountId \<Rightarrow> Seq \<Rightarrow> 'a \<Rightarrow> 'a Orderer \<Rightarrow> bool" where
  "fill_fits place_of lane seq value s \<longleftrightarrow>
     (if seq = UNORDERED then place_of value = None
      else place_of value = Some (lane, seq) \<and> map_of (ol_places (lane_mut lane s)) seq = Some None)"

lemma seq_below_top: "(seq :: u64) \<noteq> -1 \<Longrightarrow> unat seq + 1 < 2 ^ 64"
proof -
  assume "seq \<noteq> -1"
  then have "unat seq \<noteq> unat (-1 :: u64)" by (metis word_unat_eq_iff)
  then have "unat seq \<noteq> 2 ^ 64 - 1" by (simp add: unsigned_minus_1_eq_mask mask_eq_exp_minus_1)
  moreover have "unat seq < 2 ^ 64" by (rule order_less_le_trans [OF unsigned_less]) simp
  ultimately show ?thesis by simp
qed

definition od_reserves :: "AccountId \<Rightarrow> Seq \<Rightarrow> AccountId \<Rightarrow> Seq list" where
  "od_reserves lane seq l = (if l = lane \<and> seq \<noteq> UNORDERED then [seq] else [])"

lemma reserve_ordered:
  assumes e: "lane_ordered place_of l e" and "seq \<noteq> UNORDERED" "unat seq + 1 < 2 ^ 64"
    and fits: "ol_places e = [] \<or> seq = ol_next e + word_of_nat (length (ol_places e))"
  defines "e1 \<equiv> if ol_places e = [] then e\<lparr>ol_next := seq\<rparr> else e"
  defines "e2 \<equiv> e1\<lparr>ol_places := AList.update seq None (ol_places e1)\<rparr>"
  shows "lane_ordered place_of l e2" "ol_waiting e2 = ol_waiting e @ [seq]"
proof -
  show "ol_waiting e2 = ol_waiting e @ [seq]" and "lane_ordered place_of l e2"
  proof (atomize (full), cases "ol_places e = []")
    case True
    then show "ol_waiting e2 = ol_waiting e @ [seq] \<and> lane_ordered place_of l e2"
      using e assms(2,3) by (auto simp: lane_ordered_def e2_def e1_def ol_waiting_def split: if_splits)
  next
    case False
    let ?n = "length (ol_places e)"
    have seq: "seq = ol_next e + word_of_nat ?n" using fits False by simp
    have bound: "unat (ol_next e) + ?n < 2 ^ 64" using e by (simp add: lane_ordered_def)
    have un: "unat seq = unat (ol_next e) + ?n" using unat_next [OF bound] seq by simp
    have fresh: "seq \<notin> set (map fst (ol_places e))"
    proof
      assume "seq \<in> set (map fst (ol_places e))"
      then obtain i where "i < ?n" "seq = ol_next e + word_of_nat i"
        using e by (auto simp: lane_ordered_def ol_waiting_def)
      then show False using next_inj [of "ol_next e" i ?n] bound seq by simp
    qed
    then have keys: "map fst (AList.update seq None (ol_places e)) = map fst (ol_places e) @ [seq]"
      by (simp add: update_keys)
    have len: "length (AList.update seq None (ol_places e)) = Suc ?n"
      using arg_cong [OF keys, of length] by simp
    have w: "ol_waiting e2 = ol_waiting e @ [seq]"
      using False len seq by (simp add: e2_def e1_def ol_waiting_def)
    have "lane_ordered place_of l e2"
      using e False keys len fresh w un assms(3)
      by (auto simp: lane_ordered_def e2_def e1_def update_conv split: if_splits)
    then show "ol_waiting e2 = ol_waiting e @ [seq] \<and> lane_ordered place_of l e2" using w by simp
  qed
qed

lemma od_expect_orderly:
  assumes "od_orderly place_of s" "expect_fits lane seq s"
  shows "od_orderly place_of (od_expect lane seq s)"
    and "od_waiting (od_expect lane seq s) l = od_waiting s l @ od_reserves lane seq l"
proof -
  let ?e = "lane_mut lane s"
  let ?e1 = "if ol_places ?e = [] then ?e\<lparr>ol_next := seq\<rparr> else ?e"
  let ?e2 = "?e1\<lparr>ol_places := AList.update seq None (ol_places ?e1)\<rparr>"
  have "od_orderly place_of (od_expect lane seq s)
      \<and> od_waiting (od_expect lane seq s) l = od_waiting s l @ od_reserves lane seq l"
  proof (cases "seq = UNORDERED")
    case True
    then show ?thesis using assms(1) by (simp add: od_expect_def od_reserves_def)
  next
    case False
    have e: "lane_ordered place_of lane ?e" using assms(1) by (simp add: od_orderly_def)
    have r: "lane_ordered place_of lane ?e2" "ol_waiting ?e2 = ol_waiting ?e @ [seq]"
      using reserve_ordered [OF e False seq_below_top] assms(2) False by (simp_all add: expect_fits_def Let_def)
    have "ol_busy ?e2" by (simp add: ol_busy_def)
    moreover have "ol_in_rotation ?e2 = ol_in_rotation ?e" by simp
    ultimately show ?thesis
      using enrol_orderly [OF assms(1) r(1) _ _ refl refl refl] r(2) False
      by (simp add: od_expect_def Let_def od_reserves_def od_waiting_def)
  qed
  then show "od_orderly place_of (od_expect lane seq s)"
    and "od_waiting (od_expect lane seq s) l = od_waiting s l @ od_reserves lane seq l" by simp_all
qed

lemma fill_ordered:
  assumes "lane_ordered place_of l e" "map_of (ol_places e) seq = Some p" "place_of (hr_value held) = Some (l, seq)"
  shows "lane_ordered place_of l (e\<lparr>ol_places := AList.update seq (Some held) (ol_places e)\<rparr>)"
    and "ol_waiting (e\<lparr>ol_places := AList.update seq (Some held) (ol_places e)\<rparr>) = ol_waiting e"
proof -
  let ?p = "AList.update seq (Some held) (ol_places e)"
  have "seq \<in> set (map fst (ol_places e))" using assms(2) by (metis map_of_eq_None_iff option.discI set_map)
  then have keys: "map fst ?p = map fst (ol_places e)" by (simp add: update_keys)
  have len: "length ?p = length (ol_places e)" using arg_cong [OF keys, of length] by simp
  show w: "ol_waiting (e\<lparr>ol_places := ?p\<rparr>) = ol_waiting e" by (simp add: ol_waiting_def len)
  show "lane_ordered place_of l (e\<lparr>ol_places := ?p\<rparr>)"
    using assms keys len w by (auto simp: lane_ordered_def update_conv split: if_splits)
qed

lemma exempt_ordered:
  assumes "lane_ordered place_of l e" "\<forall>h \<in> set hs. place_of (hr_value h) = None"
  shows "lane_ordered place_of l (e\<lparr>ol_exempt := hs\<rparr>)" "ol_waiting (e\<lparr>ol_exempt := hs\<rparr>) = ol_waiting e"
  using assms by (simp_all add: lane_ordered_def ol_waiting_def)

text \<open>With the fault off and nothing swapped, a fill puts the reply in its place, or at the end of the exempt ones.\<close>

lemma od_fill_enrols:
  assumes "od_violate_every s = 0" "ol_swapped (lane_mut lane s) = []"
  obtains h s1 where "hr_value h = v" "od_lanes s1 = od_lanes s" "od_rotation s1 = od_rotation s"
    "od_violate_every s1 = od_violate_every s"
    "od_fill lane seq at v s = enrol lane
       (if seq = UNORDERED then (lane_mut lane s)\<lparr>ol_exempt := ol_exempt (lane_mut lane s) @ [h]\<rparr>
        else (lane_mut lane s)\<lparr>ol_places := AList.update seq (Some h) (ol_places (lane_mut lane s))\<rparr>) s1"
proof -
  let ?e = "lane_mut lane s"
  let ?h = "\<lparr>hr_ready_at = at, hr_blocked = seq \<noteq> UNORDERED \<and> seq \<noteq> ol_next ?e, hr_value = v\<rparr>"
  show ?thesis
  proof (cases "seq = UNORDERED")
    case True
    have "od_fill lane seq at v s = enrol lane (?e\<lparr>ol_exempt := ol_exempt ?e @ [?h]\<rparr>)
        (s\<lparr>od_pushes := od_pushes s + 1, od_held := od_held s + 1\<rparr>)"
      using True by (simp add: od_fill_def Let_def)
    then show ?thesis
      using that [of ?h "s\<lparr>od_pushes := od_pushes s + 1, od_held := od_held s + 1\<rparr>"] True by simp
  next
    case False
    let ?e1 = "?e\<lparr>ol_places := AList.update seq (Some ?h) (ol_places ?e)\<rparr>"
    let ?s1 = "s\<lparr>od_pushes := od_pushes s + 1, od_held := od_held s + 1,
      od_deepest_lane := max (od_deepest_lane s) (length (ol_places ?e1) + length (ol_exempt ?e1)),
      od_order_held := (if seq \<noteq> ol_next ?e then od_order_held s + 1 else od_order_held s)\<rparr>"
    have "od_fill lane seq at v s = enrol lane ?e1 ?s1"
      using False assms by (auto simp: od_fill_def fill_place_def Let_def)
    then show ?thesis using that [of ?h ?s1] False by simp
  qed
qed

lemma od_fill_orderly:
  assumes s: "od_orderly place_of s" and fits: "fill_fits place_of lane seq v s"
  shows "od_orderly place_of (od_fill lane seq at v s)" "od_waiting (od_fill lane seq at v s) = od_waiting s"
proof -
  let ?e = "lane_mut lane s"
  have e: "lane_ordered place_of lane ?e" using s by (simp add: od_orderly_def)
  have same: "(od_waiting s)(lane := ol_waiting ?e) = od_waiting s" by (simp add: od_waiting_def fun_eq_iff)
  have quiet: "od_violate_every s = 0" "ol_swapped ?e = []" using s e by (simp_all add: od_orderly_def lane_ordered_def)
  obtain h s1 where h: "hr_value h = v" and s1: "od_lanes s1 = od_lanes s" "od_rotation s1 = od_rotation s"
      "od_violate_every s1 = od_violate_every s"
    and fill: "od_fill lane seq at v s = enrol lane
       (if seq = UNORDERED then ?e\<lparr>ol_exempt := ol_exempt ?e @ [h]\<rparr>
        else ?e\<lparr>ol_places := AList.update seq (Some h) (ol_places ?e)\<rparr>) s1" (is "_ = enrol lane ?e1 s1")
    using od_fill_enrols [OF quiet] .
  have e1: "lane_ordered place_of lane ?e1 \<and> ol_waiting ?e1 = ol_waiting ?e"
  proof (cases "seq = UNORDERED")
    case True
    then have "\<forall>x \<in> set (ol_exempt ?e @ [h]). place_of (hr_value x) = None"
      using e fits h by (auto simp: fill_fits_def lane_ordered_def)
    from exempt_ordered [OF e this] show ?thesis using True by simp
  next
    case False
    then have "map_of (ol_places ?e) seq = Some None" "place_of (hr_value h) = Some (lane, seq)"
      using fits h by (simp_all add: fill_fits_def)
    from fill_ordered [OF e this] show ?thesis using False by simp
  qed
  have "ol_busy ?e1" by (simp add: ol_busy_def)
  moreover have "ol_in_rotation ?e1 = ol_in_rotation ?e" by simp
  ultimately show "od_orderly place_of (od_fill lane seq at v s)" "od_waiting (od_fill lane seq at v s) = od_waiting s"
    using enrol_orderly [OF s conjunct1 [OF e1] _ _ s1] e1 same unfolding fill by simp_all
qed

definition takes :: "('a \<Rightarrow> (AccountId \<times> Seq) option) \<Rightarrow> AccountId \<Rightarrow> 'a \<Rightarrow> Seq option" where
  "takes place_of l v = (case place_of v of None \<Rightarrow> None | Some (lane, seq) \<Rightarrow> if lane = l then Some seq else None)"

lemma length_delete_key:
  "distinct (map fst xs) \<Longrightarrow> k \<in> set (map fst xs) \<Longrightarrow> Suc (length (AList.delete k xs)) = length xs"
proof (induction xs)
  case (Cons x xs)
  then show ?case
    by (cases x; cases "fst x = k") auto
qed simp

lemma take_place_ordered:
  assumes e: "lane_ordered place_of l e" and p: "map_of (ol_places e) (ol_next e) = Some p"
  defines "e1 \<equiv> e\<lparr>ol_places := AList.delete (ol_next e) (ol_places e), ol_next := ol_next e + 1\<rparr>"
  shows "lane_ordered place_of l e1" "ol_waiting e = ol_next e # ol_waiting e1"
proof -
  let ?n = "length (ol_places e)" and ?d = "AList.delete (ol_next e) (ol_places e)"
  have inkeys: "ol_next e \<in> set (map fst (ol_places e))"
    using p by (metis map_of_eq_None_iff option.discI set_map)
  have dist: "distinct (map fst (ol_places e))" and bound: "unat (ol_next e) + ?n < 2 ^ 64"
    and keys: "set (map fst (ol_places e)) = set (ol_waiting e)"
    using e by (simp_all add: lane_ordered_def)
  have len: "?n = Suc (length ?d)" using length_delete_key [OF dist inkeys] by simp
  show w: "ol_waiting e = ol_next e # ol_waiting e1"
    unfolding ol_waiting_def len e1_def
    by (simp add: upt_conv_Cons map_Suc_upt [symmetric] comp_def ac_simps del: upt_Suc)
  have "distinct (ol_waiting e)"
    using next_inj [of "ol_next e"] bound by (auto simp: ol_waiting_def distinct_map inj_on_def)
  then have kd: "set (map fst ?d) = set (ol_waiting e1)"
    using keys w by (simp add: delete_keys)
  have un: "unat (ol_next e + 1) = unat (ol_next e) + 1"
    using unat_next [of "ol_next e" 1] bound len by simp
  have nz: "ol_next e + 1 \<noteq> UNORDERED" using un by (auto simp: UNORDERED_def)
  show "lane_ordered place_of l e1"
    using e dist kd un nz bound len
    by (auto simp: lane_ordered_def e1_def delete_conv distinct_delete split: if_splits)
qed

lemma ol_take_ordered:
  assumes e: "lane_ordered place_of l e" and r: "release_seq e = Some seq" and h: "ol_head e seq = Some held"
  shows "lane_ordered place_of l (ol_take seq e)"
    and "ol_waiting e = (case takes place_of l (hr_value held) of
           None \<Rightarrow> ol_waiting (ol_take seq e) | Some k \<Rightarrow> k # ol_waiting (ol_take seq e))"
    and "l' \<noteq> l \<Longrightarrow> takes place_of l' (hr_value held) = None"
proof -
  have "lane_ordered place_of l (ol_take seq e) \<and>
    ol_waiting e = (case takes place_of l (hr_value held) of
           None \<Rightarrow> ol_waiting (ol_take seq e) | Some k \<Rightarrow> k # ol_waiting (ol_take seq e))
    \<and> (l' \<noteq> l \<longrightarrow> takes place_of l' (hr_value held) = None)"
  proof (cases "ol_exempt e = []")
    case False
    then have u: "seq = UNORDERED" using r by (simp add: release_seq_def)
    have "held \<in> set (ol_exempt e)" using h u False by (auto simp: ol_head_def split: list.splits)
    then have n: "place_of (hr_value held) = None" using e by (simp add: lane_ordered_def)
    have "\<forall>x \<in> set (tl (ol_exempt e)). place_of (hr_value x) = None"
      using e False by (auto simp: lane_ordered_def dest: list.set_sel(2))
    from exempt_ordered [OF e this] show ?thesis using u n by (simp add: ol_take_def takes_def)
  next
    case True
    then have m: "seq = ol_next e" "map_of (ol_places e) (ol_next e) \<noteq> None"
      using r by (auto simp: release_seq_def split: option.splits)
    then obtain p where p: "map_of (ol_places e) (ol_next e) = Some p" by auto
    then have nz: "seq \<noteq> UNORDERED" using e m(1) by (auto simp: lane_ordered_def)
    have "p = Some held" using h nz p m(1) by (simp add: ol_head_def)
    then have "place_of (hr_value held) = Some (l, seq)" using e p m(1) by (simp add: lane_ordered_def)
    then show ?thesis
      using take_place_ordered [OF e p] nz m(1) by (simp add: ol_take_def takes_def)
  qed
  then show "lane_ordered place_of l (ol_take seq e)"
    and "ol_waiting e = (case takes place_of l (hr_value held) of
           None \<Rightarrow> ol_waiting (ol_take seq e) | Some k \<Rightarrow> k # ol_waiting (ol_take seq e))"
    and "l' \<noteq> l \<Longrightarrow> takes place_of l' (hr_value held) = None" by simp_all
qed


section \<open>The orderer keeps its contract\<close>

lemma od_release_orderly:
  assumes s: "od_orderly place_of s" and rot: "od_rotation s = lid # rotation"
    and lane: "map_of (od_lanes s) lid = Some lane" and r: "release_seq lane = Some seq" and h: "ol_head lane seq = Some held"
  shows "od_orderly place_of (od_release now lid rotation lane seq held s)"
    and "od_waiting s l = (case takes place_of l (hr_value held) of
           None \<Rightarrow> od_waiting (od_release now lid rotation lane seq held s) l
         | Some k \<Rightarrow> k # od_waiting (od_release now lid rotation lane seq held s) l)"
proof -
  let ?s = "od_release now lid rotation lane seq held s" and ?lane = "ol_take seq lane"
  have lm: "lane_mut lid s = lane" using lane by (simp add: lane_mut_def)
  have e: "lane_ordered place_of lid lane" and inrot: "ol_in_rotation lane"
    using s rot lm by (auto simp: od_orderly_def)
  note t = ol_take_ordered [OF e r h]
  define quiet where "quiet \<longleftrightarrow> \<not> ol_busy ?lane"
  have sw: "ol_swapped ?lane = []" using t(1) by (simp add: lane_ordered_def)
  have m: "lane_mut k ?s = (if k = lid then (if quiet then ?lane\<lparr>ol_in_rotation := False\<rparr> else ?lane) else lane_mut k s)" for k
    using sw by (auto simp: od_release_def lane_mut_def update_conv Let_def quiet_def ol_busy_def)
  have rt: "od_rotation ?s = (if quiet then rotation else rotation @ [lid])"
    using sw by (simp add: od_release_def Let_def quiet_def ol_busy_def)
  have ir: "ol_in_rotation ?lane" using inrot by (simp add: ol_take_def)
  have fresh: "lid \<notin> set rotation" and dist: "distinct rotation" using s rot by (simp_all add: od_orderly_def)
  have z: "od_violate_every ?s = 0" using s by (simp add: od_release_def od_orderly_def Let_def)
  have d: "distinct (od_rotation ?s)" using fresh dist by (simp add: rt)
  have c: "lane_ordered place_of k (lane_mut k ?s) \<and> (k \<in> set (od_rotation ?s) \<longleftrightarrow> ol_in_rotation (lane_mut k ?s))
    \<and> (ol_in_rotation (lane_mut k ?s) \<longleftrightarrow> ol_busy (lane_mut k ?s))" for k
  proof (cases "k = lid")
    case True
    then show ?thesis using t(1) ir fresh by (simp add: m rt quiet_def)
  next
    case False
    have "k \<in> set rotation \<longleftrightarrow> k \<in> set (od_rotation s)" using rot False by simp
    then show ?thesis using s False by (simp add: m rt od_orderly_def)
  qed
  show "od_orderly place_of ?s" unfolding od_orderly_def by (rule conjI [OF z conjI [OF d allI [OF c]]])
  show "od_waiting s l = (case takes place_of l (hr_value held) of
      None \<Rightarrow> od_waiting ?s l | Some k \<Rightarrow> k # od_waiting ?s l)"
  proof (cases "l = lid")
    case True
    then show ?thesis using t(2) lm by (simp add: od_waiting_def m split: option.splits)
  next
    case False
    then show ?thesis using t(3) [of l] by (simp add: od_waiting_def m)
  qed
qed

text \<open>A reply of a lane that may leave at \<open>now\<close>.\<close>

definition may_leave :: "nat \<Rightarrow> 'a OrderedLane \<Rightarrow> bool" where
  "may_leave now lane \<longleftrightarrow>
     (case release_seq lane of
        None \<Rightarrow> False
      | Some seq \<Rightarrow> (case ol_head lane seq of None \<Rightarrow> False | Some held \<Rightarrow> hr_ready_at held \<le> now))"

lemma od_turn_orderly:
  assumes "od_orderly place_of s" "od_rotation s = lid # rotation"
  shows "od_orderly place_of (s\<lparr>od_rotation := rotation @ [lid]\<rparr>)"
    and "od_waiting (s\<lparr>od_rotation := rotation @ [lid]\<rparr>) = od_waiting s"
proof -
  have k: "k \<in> set (rotation @ [lid]) \<longleftrightarrow> k \<in> set (od_rotation s)" for k using assms(2) by auto
  have "distinct (rotation @ [lid])" using assms by (auto simp: od_orderly_def)
  then show "od_orderly place_of (s\<lparr>od_rotation := rotation @ [lid]\<rparr>)"
    using assms(1) k by (simp add: od_orderly_def del: set_append)
  show "od_waiting (s\<lparr>od_rotation := rotation @ [lid]\<rparr>) = od_waiting s" by (simp add: od_waiting_def fun_eq_iff)
qed

lemma od_pop_lanes_orderly:
  assumes "od_orderly place_of s" "n \<le> length (od_rotation s)" "od_pop_lanes n now s = (r, s')"
  shows "od_orderly place_of s' \<and>
    (case r of
       None \<Rightarrow> (\<forall>l. lane_mut l s' = lane_mut l s) \<and> (\<forall>l \<in> set (take n (od_rotation s)). \<not> may_leave now (lane_mut l s))
     | Some v \<Rightarrow> (\<forall>l. od_waiting s l
         = (case takes place_of l v of None \<Rightarrow> od_waiting s' l | Some k \<Rightarrow> k # od_waiting s' l)))"
  using assms
proof (induction n arbitrary: s)
  case (Suc n)
  note s = Suc.prems(1) and len = Suc.prems(2) and pop = Suc.prems(3)
  obtain lid rotation where rot: "od_rotation s = lid # rotation" using len by (cases "od_rotation s") auto
  have "ol_in_rotation (lane_mut lid s)" using s rot by (auto simp: od_orderly_def)
  then obtain lane where lane: "map_of (od_lanes s) lid = Some lane"
    by (cases "map_of (od_lanes s) lid") (auto simp: lane_mut_def)
  have lm: "lane_mut lid s = lane" using lane by (simp add: lane_mut_def)
  show ?case
  proof (cases "may_leave now lane")
    case True
    then obtain seq held where q: "release_seq lane = Some seq" "ol_head lane seq = Some held" "hr_ready_at held \<le> now"
      by (auto simp: may_leave_def split: option.splits)
    have rs: "r = Some (hr_value held)" "s' = od_release now lid rotation lane seq held s"
      using pop rot lane q by auto
    show ?thesis unfolding rs using od_release_orderly [OF s rot lane q(1,2), where now = now] by simp
  next
    case False
    let ?s = "s\<lparr>od_rotation := rotation @ [lid]\<rparr>"
    note turn = od_turn_orderly [OF s rot]
    have go: "od_pop_lanes n now ?s = (r, s')"
      using pop rot lane False by (auto simp: may_leave_def split: option.splits)
    have len1: "n \<le> length (od_rotation ?s)" using len rot by simp
    from Suc.IH [OF turn(1) len1 go] show ?thesis using turn(2) rot lm False len by (auto split: option.splits)
  qed
qed simp

lemma od_pop_orderly:
  assumes "od_orderly place_of s" "od_pop_ready now s = (r, s')"
  shows "od_orderly place_of s'"
    and "r = Some v \<Longrightarrow> od_waiting s l = (case takes place_of l v of None \<Rightarrow> od_waiting s' l | Some k \<Rightarrow> k # od_waiting s' l)"
    and "r = None \<Longrightarrow> od_waiting s' = od_waiting s"
    and "r = None \<Longrightarrow> \<not> may_leave now (lane_mut l s)"
proof -
  note p = od_pop_lanes_orderly [OF assms(1) order_refl assms(2) [unfolded od_pop_ready_def]]
  show "od_orderly place_of s'" using p by simp
  show "r = Some v \<Longrightarrow> od_waiting s l = (case takes place_of l v of None \<Rightarrow> od_waiting s' l | Some k \<Rightarrow> k # od_waiting s' l)"
    using p by simp
  show "r = None \<Longrightarrow> od_waiting s' = od_waiting s" using p by (simp add: od_waiting_def fun_eq_iff)
  show "\<not> may_leave now (lane_mut l s)" if "r = None"
  proof (cases "l \<in> set (od_rotation s)")
    case True
    then show ?thesis using p that by simp
  next
    case False
    then have "\<not> ol_busy (lane_mut l s)" using assms(1) by (simp add: od_orderly_def)
    then show ?thesis by (simp add: may_leave_def release_seq_def ol_busy_def)
  qed
qed

interpretation places: lane_release od_pop_ready "takes place_of" od_waiting "od_orderly place_of" for place_of
  by unfold_locales (auto dest: od_pop_orderly(1,3) od_pop_orderly(2) [OF _ _ refl])


text \<open>Reservations, fills and releases in any order: what was reserved, what was handed out, and the orderer.\<close>

datatype 'a OrderEvent = Expected AccountId Seq | Filled AccountId Seq nat 'a | Popped nat

fun od_run :: "'a OrderEvent list \<Rightarrow> 'a Orderer \<Rightarrow> (AccountId \<times> Seq) list \<times> 'a list \<times> 'a Orderer" where
  "od_run [] s = ([], [], s)"
| "od_run (Expected lane seq # es) s =
     (let (reserved, out, s1) = od_run es (od_expect lane seq s) in
      (if seq = UNORDERED then reserved else (lane, seq) # reserved, out, s1))"
| "od_run (Filled lane seq at v # es) s = od_run es (od_fill lane seq at v s)"
| "od_run (Popped now # es) s =
     (let (r, s1) = od_pop_ready now s; (reserved, out, s2) = od_run es s1 in
      (reserved, (case r of None \<Rightarrow> out | Some v \<Rightarrow> v # out), s2))"

text \<open>The use the worker makes of it: while a lane is busy its numbers follow on, and a reply fills a place reserved
  for it and not filled yet.\<close>

fun od_run_fits :: "('a \<Rightarrow> (AccountId \<times> Seq) option) \<Rightarrow> 'a OrderEvent list \<Rightarrow> 'a Orderer \<Rightarrow> bool" where
  "od_run_fits place_of [] s \<longleftrightarrow> True"
| "od_run_fits place_of (Expected lane seq # es) s \<longleftrightarrow>
     expect_fits lane seq s \<and> od_run_fits place_of es (od_expect lane seq s)"
| "od_run_fits place_of (Filled lane seq at v # es) s \<longleftrightarrow>
     fill_fits place_of lane seq v s \<and> od_run_fits place_of es (od_fill lane seq at v s)"
| "od_run_fits place_of (Popped now # es) s \<longleftrightarrow> od_run_fits place_of es (snd (od_pop_ready now s))"

definition of_lane :: "AccountId \<Rightarrow> (AccountId \<times> Seq) list \<Rightarrow> Seq list" where
  "of_lane l reserved = map snd (filter (\<lambda>(lane, _). lane = l) reserved)"

lemma od_run_in_order:
  "od_orderly place_of s \<Longrightarrow> od_run_fits place_of es s \<Longrightarrow> od_run es s = (reserved, out, s') \<Longrightarrow>
   od_orderly place_of s' \<and>
   od_waiting s l @ of_lane l reserved = List.map_filter (takes place_of l) out @ od_waiting s' l"
proof (induction es arbitrary: s reserved out)
  case Nil
  then show ?case by (simp add: of_lane_def)
next
  case (Cons e es)
  show ?case
  proof (cases e)
    case (Expected lane seq)
    obtain reserved1 where run: "od_run es (od_expect lane seq s) = (reserved1, out, s')"
      and res: "reserved = (if seq = UNORDERED then reserved1 else (lane, seq) # reserved1)"
      using Cons.prems(3) Expected by (auto split: prod.splits)
    have fits: "expect_fits lane seq s" "od_run_fits place_of es (od_expect lane seq s)"
      using Cons.prems(2) Expected by simp_all
    note x = od_expect_orderly [OF Cons.prems(1) fits(1)]
    have "od_reserves lane seq l @ of_lane l reserved1 = of_lane l reserved"
      by (simp add: od_reserves_def of_lane_def res)
    then show ?thesis using Cons.IH [OF x(1) fits(2) run] x(2) [of l] by simp
  next
    case (Filled lane seq at v)
    have fits: "fill_fits place_of lane seq v s" "od_run_fits place_of es (od_fill lane seq at v s)"
      using Cons.prems(2) Filled by simp_all
    note x = od_fill_orderly [OF Cons.prems(1) fits(1), of at]
    show ?thesis using Cons.IH [OF x(1) fits(2)] Cons.prems(3) x(2) Filled by simp
  next
    case (Popped now)
    obtain r s1 where pop: "od_pop_ready now s = (r, s1)" by force
    obtain out1 where run: "od_run es s1 = (reserved, out1, s')"
      and out: "out = (case r of None \<Rightarrow> out1 | Some v \<Rightarrow> v # out1)"
      using Cons.prems(3) Popped pop by (auto split: prod.splits)
    have fits: "od_run_fits place_of es s1" using Cons.prems(2) Popped pop by simp
    have ok: "od_orderly place_of s1" by (rule places.pop_ok [OF Cons.prems(1) pop])
    note ih = Cons.IH [OF ok fits run]
    show ?thesis
    proof (cases r)
      case None
      then show ?thesis using ih out places.pop_nothing [OF Cons.prems(1)] pop by simp
    next
      case (Some v)
      then show ?thesis
        using ih out places.pop_takes_front [OF Cons.prems(1) pop [unfolded Some], of l]
        by (auto simp: List.map_filter_simps split: option.splits)
    qed
  qed
qed

text \<open>C22: A lane's replies leave the pending engine in the order their places were reserved, however the work behind them
  finished: the numbers reserved on a lane are the numbers of the replies that have left it, followed by the places
  still waiting. The fault is off, the numbers of a busy lane follow on, and a reply fills a place reserved for it; a
  reply that keeps no place leaves at any time and disturbs nothing. And a release that hands out nothing has passed
  nothing over: no lane has a reply that may leave.\<close>

theorem replies_leave_in_reserved_order:
  assumes "od_run_fits place_of es (od_new 0)" and "od_run es (od_new 0) = (reserved, out, s)"
  shows "of_lane l reserved = List.map_filter (takes place_of l) out @ od_waiting s l
    \<and> (fst (od_pop_ready now s) = None \<longrightarrow> \<not> may_leave now (lane_mut l s))"
proof -
  note run = od_run_in_order [OF od_new_orderly assms]
  have "\<not> may_leave now (lane_mut l s)" if "fst (od_pop_ready now s) = None"
    using that run od_pop_orderly(4) [of place_of s now None "snd (od_pop_ready now s)" l] by (simp add: prod_eq_iff)
  moreover have "od_waiting (od_new 0 :: 'a Orderer) l = []"
    by (simp add: od_waiting_def od_new_def lane_mut_def ol_new_def ol_waiting_def)
  ultimately show ?thesis using run [of l] by simp
qed

text \<open>Replies as lane, number and label: the second finishes first, an exempt one passes both, and the last waits.\<close>

definition label_place :: "AccountId \<times> Seq \<times> nat \<Rightarrow> (AccountId \<times> Seq) option" where
  "label_place v = (case v of (l, s, _) \<Rightarrow> if s = UNORDERED then None else Some (l, s))"

definition sample_order :: "(AccountId \<times> Seq \<times> nat) OrderEvent list" where
  "sample_order =
     [Expected 9 4, Expected 9 5, Expected 9 6, Filled 9 5 10 (9, 5, 1), Popped 1000, Filled 9 0 5 (9, 0, 2), Popped 1000,
      Filled 9 4 20 (9, 4, 3), Popped 1000, Popped 1000, Popped 1000]"

theorem replies_leave_in_reserved_order_witness:
  "od_run_fits label_place sample_order (od_new 0) \<and>
   (\<exists>s. od_run sample_order (od_new 0) = ([(9, 4), (9, 5), (9, 6)], [(9, 0, 2), (9, 4, 3), (9, 5, 1)], s) \<and>
      of_lane 9 [(9, 4), (9, 5), (9, 6)]
        = List.map_filter (takes label_place 9) [(9, 0, 2), (9, 4, 3), (9, 5, 1)] @ od_waiting s 9)"
proof -
  have fits: "od_run_fits label_place sample_order (od_new 0)" by code_simp
  moreover obtain s where run: "od_run sample_order (od_new 0) = ([(9, 4), (9, 5), (9, 6)], [(9, 0, 2), (9, 4, 3), (9, 5, 1)], s)"
  proof -
    have "fst (od_run sample_order (od_new 0)) = [(9, 4), (9, 5), (9, 6)]
      \<and> fst (snd (od_run sample_order (od_new 0))) = [(9, 0, 2), (9, 4, 3), (9, 5, 1)]" by code_simp
    then show ?thesis using that by (metis prod.collapse)
  qed
  moreover note replies_leave_in_reserved_order [OF fits run, of 9 0]
  ultimately show ?thesis by blast
qed

end
