(* ===== verification/Pending_Worker.thy ===== *)
theory Pending_Worker
  imports Engine_Steps Pending_Orderer Holds
begin

text \<open>
  The pending worker (\<open>pending/src/memory.rs\<close>, \<open>PendingWorker\<close>): one thread between the sequencer's command queue and
  the engine. A round hands over notices, offers expiry voids, takes commands, fills the places of lookups the store
  has answered, moves blocks and delivers replies. The sequencer sends and polls between rounds. The store is a
  parameter, as it is of the engine; the worker is the one started without a snapshot directory. A clock reading is an
  argument wherever the code reads the clock.
\<close>

section \<open>Configuration\<close>

text \<open>
  The integer part of a capacity. The two shares are floating point; what they are multiplied out to, \<open>slots\<close> and
  \<open>resident_blocks\<close>, is an input of \<open>worker_start\<close>.
\<close>

record PendingCapacity =
  pcy_daily_arrivals :: nat
  pcy_retention_days :: nat
  pcy_grace_days :: nat
  pcy_flush_window_hours :: nat
  pcy_residency_hours :: nat

definition capacity_lifetime_days :: "PendingCapacity \<Rightarrow> nat" where
  "capacity_lifetime_days c = pcy_retention_days c + pcy_grace_days c"

definition live_segments :: "PendingCapacity \<Rightarrow> nat" where
  "live_segments c = capacity_lifetime_days c + 1"

definition arrivals_per_hour :: "PendingCapacity \<Rightarrow> nat" where
  "arrivals_per_hour c = pcy_daily_arrivals c div 24"

definition div_ceil :: "nat \<Rightarrow> nat \<Rightarrow> nat" where
  "div_ceil a b = (if a mod b = 0 then a div b else a div b + 1)"

definition blocks_for :: "nat \<Rightarrow> nat" where
  "blocks_for records = max (div_ceil records RECORDS_PER_BLOCK) 1"

definition capacity_flush_blocks :: "PendingCapacity \<Rightarrow> nat" where
  "capacity_flush_blocks c = blocks_for (arrivals_per_hour c * pcy_flush_window_hours c)"

record MemoryPendingConfig =
  mpc_queue_capacity :: nat
  mpc_latency :: LatencyRange
  mpc_violate_order_every :: u32
  mpc_stale_answer_every :: nat
  mpc_seed :: u64
  mpc_capacity :: PendingCapacity
  mpc_expiry_blocks_per_round :: nat

definition drain_blocks_per_round :: "MemoryPendingConfig \<Rightarrow> nat" where
  "drain_blocks_per_round c = max (div_ceil (mpc_queue_capacity c) RECORDS_PER_BLOCK) 1"

definition buffer_ceiling :: "MemoryPendingConfig \<Rightarrow> nat" where
  "buffer_ceiling c = capacity_flush_blocks (mpc_capacity c) + drain_blocks_per_round c"

definition NOTICE_QUEUE :: nat where
  "NOTICE_QUEUE = 64"

section \<open>State\<close>

text \<open>\<open>wk_wants_expiry\<close> and \<open>wk_published_applied\<close> are the two cells of \<open>Occupancy\<close> the other side writes and reads.\<close>

record 's PendingWorker =
  wk_commands :: "PendingCommand Channel"
  wk_results :: "PendingReply Outlet"
  wk_engine :: "'s PendingEngine"
  wk_wants_expiry :: bool
  wk_published_applied :: nat
  wk_replies :: AnswerGate
  wk_notices :: "PendingNotice Channel"
  wk_owed :: "PendingNotice list"
  wk_lifetime_days :: nat
  wk_expiry_blocks_per_round :: nat
  wk_drain_blocks_per_round :: nat
  wk_buffer_ceiling :: nat
  wk_buffer_stalls :: nat
  wk_orderer :: "PendingReply Orderer"
  wk_stale_answer_every :: nat
  wk_answers :: nat
  wk_inflight :: "u64 \<rightharpoonup> PendingLookup"
  wk_handles :: u64
  wk_deferred :: "PendingCommand option"
  wk_jitter :: Prng
  wk_latency :: LatencyRange
  wk_busy_until :: nat

definition worker_start :: "MemoryPendingConfig \<Rightarrow> nat \<Rightarrow> nat \<Rightarrow> 's \<Rightarrow> 's PendingWorker" where
  "worker_start config slots resident_blocks store =
     (let queue = next_power_of_two (mpc_queue_capacity config) in
      \<lparr>wk_commands = \<lparr>ch_items = [], ch_capacity = queue\<rparr>,
       wk_results = outlet_new \<lparr>ch_items = [], ch_capacity = queue\<rparr>,
       wk_engine = engine_sized slots (capacity_flush_blocks (mpc_capacity config)) resident_blocks store,
       wk_wants_expiry = True, wk_published_applied = 0, wk_replies = gate_default,
       wk_notices = \<lparr>ch_items = [], ch_capacity = next_power_of_two NOTICE_QUEUE\<rparr>, wk_owed = [],
       wk_lifetime_days = capacity_lifetime_days (mpc_capacity config),
       wk_expiry_blocks_per_round = mpc_expiry_blocks_per_round config,
       wk_drain_blocks_per_round = drain_blocks_per_round config, wk_buffer_ceiling = buffer_ceiling config,
       wk_buffer_stalls = 0, wk_orderer = od_new (mpc_violate_order_every config),
       wk_stale_answer_every = mpc_stale_answer_every config, wk_answers = 0, wk_inflight = Map.empty, wk_handles = 0,
       wk_deferred = None, wk_jitter = prng_new (mpc_seed config), wk_latency = mpc_latency config, wk_busy_until = 0\<rparr>)"

section \<open>Notices and expiry\<close>

fun hand_over_loop :: "PendingNotice list \<Rightarrow> PendingNotice Channel \<Rightarrow> bool \<times> PendingNotice list \<times> PendingNotice Channel" where
  "hand_over_loop [] c = (False, [], c)"
| "hand_over_loop (notice # owed) c =
     (case chan_push notice c of
        (False, c1) \<Rightarrow> (False, notice # owed, c1)
      | (True, c1) \<Rightarrow> (let (_, rest, c2) = hand_over_loop owed c1 in (True, rest, c2)))"

definition hand_over_notices :: "'s PendingWorker \<Rightarrow> bool \<times> 's PendingWorker" where
  "hand_over_notices w =
     (let (progress, owed, notices) = hand_over_loop (wk_owed w) (wk_notices w) in
      (progress, w\<lparr>wk_owed := owed, wk_notices := notices\<rparr>))"

definition owe :: "PendingNotice \<Rightarrow> 's PendingWorker \<Rightarrow> 's PendingWorker" where
  "owe notice w = w\<lparr>wk_owed := wk_owed w @ [notice]\<rparr>"

definition sweeping :: "'s PendingEngine \<Rightarrow> bool" where
  "sweeping e \<longleftrightarrow> days_behind e > 0"

definition sweep_expiry :: "Env \<Rightarrow> 's DurableStore \<Rightarrow> nat \<Rightarrow> nat \<Rightarrow> 's PendingWorker \<Rightarrow> bool \<times> 's PendingWorker" where
  "sweep_expiry env ops day now w0 =
     (let (opened, e1) = engine_open_day env day (wk_lifetime_days w0) (wk_engine w0);
          (freed, e2) = reclaim e1;
          w = w0\<lparr>wk_engine := e2\<rparr>;
          reclaimed = freed > 0 in
      if \<not> sweeping e2 then (opened \<or> reclaimed, w)
      else if wk_owed w \<noteq> [] then (opened \<or> reclaimed, w)
      else if \<not> wk_wants_expiry w then (opened \<or> reclaimed, w)
      else
        let (found, e3) = propose_expiry env ops (wk_expiry_blocks_per_round w) now e2 in
        (opened \<or> reclaimed \<or> found \<noteq> [], w\<lparr>wk_engine := e3, wk_owed := wk_owed w @ map HoldExpired found\<rparr>))"

section \<open>Commands\<close>

definition claimed_applies :: "'s PendingWorker \<Rightarrow> nat \<times> 's PendingWorker" where
  "claimed_applies w =
     (let applied = en_applied (wk_engine w);
          answers = wk_answers w + 1;
          stale = (wk_stale_answer_every w > 0 \<and> answers mod wk_stale_answer_every w = 0) in
      (if stale then applied - 1 else applied, w\<lparr>wk_answers := answers\<rparr>))"

definition wk_reply :: "PendingLookup \<Rightarrow> HoldData option \<Rightarrow> 's PendingWorker \<Rightarrow> PendingReply \<times> 's PendingWorker" where
  "wk_reply lookup found w =
     (let (applied, w1) = claimed_applies w in
      (\<lparr>pr_correlation = pl_correlation lookup, pr_lane = pl_lane lookup, pr_seq = pl_seq lookup,
        pr_pending_ref = pl_pending_ref lookup, pr_found = found, pr_applied = applied\<rparr>, w1))"

definition fence_reply :: "PendingFence \<Rightarrow> 's PendingWorker \<Rightarrow> PendingReply \<times> 's PendingWorker" where
  "fence_reply fence w =
     (let (applied, w1) = claimed_applies w in
      (\<lparr>pr_correlation = pf_correlation fence, pr_lane = pf_lane fence, pr_seq = pf_seq fence,
        pr_pending_ref = 0, pr_found = None, pr_applied = applied\<rparr>, w1))"

definition injected_delay :: "'s PendingWorker \<Rightarrow> (nat \<times> 's PendingWorker) option" where
  "injected_delay w = map_option (\<lambda>(wait, jitter). (wait, w\<lparr>wk_jitter := jitter\<rparr>)) (latency_sample (wk_latency w) (wk_jitter w))"

definition wk_expect :: "AccountId \<Rightarrow> Seq \<Rightarrow> 's PendingWorker \<Rightarrow> 's PendingWorker" where
  "wk_expect lane seq w = w\<lparr>wk_orderer := od_expect lane seq (wk_orderer w)\<rparr>"

definition wk_fill :: "AccountId \<Rightarrow> Seq \<Rightarrow> nat \<Rightarrow> PendingReply \<Rightarrow> 's PendingWorker \<Rightarrow> 's PendingWorker" where
  "wk_fill lane seq ready_at reply w = w\<lparr>wk_orderer := od_fill lane seq ready_at reply (wk_orderer w)\<rparr>"

text \<open>False when the store would not take the read this command needs, or the buffer is over its ceiling: the command is
  kept and the round's taking ends.\<close>

definition wk_take :: "Env \<Rightarrow> 's DurableStore \<Rightarrow> nat \<Rightarrow> PendingCommand \<Rightarrow> 's PendingWorker \<Rightarrow> (bool \<times> 's PendingWorker) option" where
  "wk_take env ops now command w0 =
     (case command of
        Lookup lookup \<Rightarrow>
          (let handle = wk_handles w0 + 1;
               (started, e) = begin_lookup env ops handle (pl_pending_ref lookup) now (wk_engine w0);
               w = w0\<lparr>wk_handles := handle, wk_engine := e\<rparr> in
           case started of
             Busy \<Rightarrow> Some (False, w\<lparr>wk_deferred := Some command\<rparr>)
           | Answered found \<Rightarrow> do {
               (wait, w1) \<leftarrow> injected_delay (wk_expect (pl_lane lookup) (pl_seq lookup) w);
               let (reply, w2) = wk_reply lookup found w1;
               Some (True, wk_fill (pl_lane lookup) (pl_seq lookup) (now + wait) reply w2) }
           | Fetching \<Rightarrow>
               (let w1 = wk_expect (pl_lane lookup) (pl_seq lookup) w in
                Some (True, w1\<lparr>wk_inflight := (wk_inflight w1)(handle \<mapsto> lookup)\<rparr>)))
      | ExpiryDeclined hold \<Rightarrow> Some (True, w0\<lparr>wk_engine := expiry_declined hold (wk_engine w0)\<rparr>)
      | Fence fence \<Rightarrow>
          (let (reply, w1) = fence_reply fence w0 in do {
             (wait, w2) \<leftarrow> injected_delay w1;
             Some (True, wk_fill (pf_lane fence) (pf_seq fence) (now + wait) reply
                           (wk_expect (pf_lane fence) (pf_seq fence) w2)) })
      | Apply effect at \<Rightarrow>
          if buffered_blocks (en_records (wk_engine w0)) > wk_buffer_ceiling w0
             \<or> writes_outstanding (en_records (wk_engine w0)) > wk_buffer_ceiling w0
          then Some (False, w0\<lparr>wk_buffer_stalls := wk_buffer_stalls w0 + 1, wk_deferred := Some command\<rparr>)
          else do {
            (stored, e) \<leftarrow> engine_write env ops effect at (wk_engine w0);
            Some (True, case stored of
                          Inl hold \<Rightarrow> owe (HoldNotStored hold) (w0\<lparr>wk_engine := e\<rparr>)
                        | Inr _ \<Rightarrow> w0\<lparr>wk_engine := e\<rparr>) })"

fun wk_take_all :: "Env \<Rightarrow> 's DurableStore \<Rightarrow> (nat \<Rightarrow> nat) \<Rightarrow> nat \<Rightarrow> PendingCommand list \<Rightarrow> 's PendingWorker
    \<Rightarrow> 's PendingWorker option" where
  "wk_take_all env ops clock i [] w = Some w"
| "wk_take_all env ops clock i (command # commands) w = do {
     (going, w1) \<leftarrow> wk_take env ops (clock i) command (w\<lparr>wk_commands := (wk_commands w)\<lparr>ch_items := commands\<rparr>\<rparr>);
     if going then wk_take_all env ops clock (Suc i) commands w1 else Some w1
   }"

text \<open>The command put off before anything else is dequeued.\<close>

definition wk_drain_commands :: "Env \<Rightarrow> 's DurableStore \<Rightarrow> (nat \<Rightarrow> nat) \<Rightarrow> 's PendingWorker \<Rightarrow> (bool \<times> 's PendingWorker) option" where
  "wk_drain_commands env ops clock w =
     (case wk_deferred w of
        None \<Rightarrow> map_option (\<lambda>w1. (ch_items (wk_commands w) \<noteq> [], w1)) (wk_take_all env ops clock 0 (ch_items (wk_commands w)) w)
      | Some held \<Rightarrow> do {
          (going, w1) \<leftarrow> wk_take env ops (clock 0) held (w\<lparr>wk_deferred := None\<rparr>);
          if going then map_option (\<lambda>w2. (True, w2)) (wk_take_all env ops clock 1 (ch_items (wk_commands w1)) w1)
          else Some (False, w1) })"

section \<open>Replies\<close>

partial_function (option) wk_harvest :: "Env \<Rightarrow> 's DurableStore \<Rightarrow> nat \<Rightarrow> bool \<Rightarrow> 's PendingWorker \<Rightarrow> (bool \<times> 's PendingWorker) option" where
  [code]: "wk_harvest env ops now progress w =
     (case engine_harvest env ops now (wk_engine w) of
        None \<Rightarrow> None
      | Some (None, e) \<Rightarrow> Some (progress, w\<lparr>wk_engine := e\<rparr>)
      | Some (Some (handle, found), e) \<Rightarrow>
          (let w1 = w\<lparr>wk_engine := e\<rparr> in
           case wk_inflight w1 handle of
             None \<Rightarrow> wk_harvest env ops now progress w1
           | Some lookup \<Rightarrow>
               (case injected_delay (w1\<lparr>wk_inflight := (wk_inflight w1)(handle := None)\<rparr>) of
                  None \<Rightarrow> None
                | Some (wait, w2) \<Rightarrow>
                    (case wk_reply lookup found w2 of (reply, w3) \<Rightarrow>
                       wk_harvest env ops now True (wk_fill (pl_lane lookup) (pl_seq lookup) (now + wait) reply w3)))))"

lemma sum_update_shrinks:
  "map_of xs k = Some v \<Longrightarrow> f v1 < f v \<Longrightarrow> (\<Sum>(k, v)\<leftarrow>AList.update k v1 xs. f v) < (\<Sum>(k, v)\<leftarrow>xs. (f v :: nat))"
  by (induction xs) (auto split: if_splits)

text \<open>The replies an orderer holds, which a release lessens.\<close>

definition ol_size :: "'a OrderedLane \<Rightarrow> nat" where
  "ol_size lane = length (filter (\<lambda>(seq, place). place \<noteq> None) (ol_places lane)) + length (ol_exempt lane)"

definition od_size :: "'a Orderer \<Rightarrow> nat" where
  "od_size s = (\<Sum>(l, lane)\<leftarrow>od_lanes s. ol_size lane)"

lemma delete_filled:
  "map_of xs k = Some (Some x) \<Longrightarrow>
   length (filter (\<lambda>(seq, place). place \<noteq> None) (AList.delete k xs)) < length (filter (\<lambda>(seq, place). place \<noteq> None) xs)"
proof (induction xs)
  case (Cons p xs)
  have le: "length (filter (\<lambda>(seq, place). place \<noteq> None) (AList.delete k xs))
      \<le> length (filter (\<lambda>(seq, place). place \<noteq> None) xs)"
    by (induction xs) auto
  show ?case using Cons le by (auto split: if_splits)
qed simp


lemma ol_take_shrinks:
  assumes "release_seq lane = Some seq" "ol_head lane seq = Some held"
  shows "ol_size (ol_take seq lane) < ol_size lane"
proof (cases "seq = UNORDERED")
  case True
  then show ?thesis using assms(2) by (auto simp: ol_take_def ol_head_def ol_size_def split: list.splits)
next
  case False
  then have "map_of (ol_places lane) seq = Some (Some held)" using assms(2) by (auto simp: ol_head_def split: option.splits)
  from delete_filled [OF this] show ?thesis using False by (simp add: ol_take_def ol_size_def)
qed

lemma od_pop_lanes_shrinks: "od_pop_lanes n now s = (Some v, s') \<Longrightarrow> od_size s' < od_size s"
proof (induction n arbitrary: s)
  case (Suc n)
  have turn: "od_size (s\<lparr>od_rotation := r\<rparr>) = od_size s" for r by (simp add: od_size_def)
  have quiet: "ol_size (l\<lparr>ol_in_rotation := b\<rparr>) = ol_size l" for l :: "'a OrderedLane" and b by (simp add: ol_size_def)
  show ?case
    using Suc.prems Suc.IH [of "s\<lparr>od_rotation := r\<rparr>" for r] ol_take_shrinks
    by (fastforce simp: od_release_def od_size_def Let_def quiet sum_update_shrinks split: list.splits option.splits if_splits)
qed simp

lemma od_pop_shrinks: "od_pop_ready now s = (Some v, s') \<Longrightarrow> od_size s' < od_size s"
  unfolding od_pop_ready_def by (rule od_pop_lanes_shrinks)

function wk_deliver_loop :: "nat \<Rightarrow> bool \<Rightarrow> 's PendingWorker \<Rightarrow> bool \<times> 's PendingWorker" where
  "wk_deliver_loop now progress w =
     (if outlet_is_stuck (wk_results w) \<or> \<not> gate_may_send (wk_replies w) then (progress, w)
      else case od_pop_ready now (wk_orderer w) of
             (None, orderer) \<Rightarrow> (progress, w\<lparr>wk_orderer := orderer\<rparr>)
           | (Some result, orderer) \<Rightarrow>
               wk_deliver_loop now True
                 (w\<lparr>wk_orderer := orderer, wk_replies := gate_spend (wk_replies w),
                    wk_results := outlet_send result (wk_results w)\<rparr>))"
  by pat_completeness auto
termination
  by (relation "measure (\<lambda>(now, progress, w). od_size (wk_orderer w))") (auto dest: od_pop_shrinks [OF sym])

declare wk_deliver_loop.simps [simp del]

definition wk_deliver :: "nat \<Rightarrow> 's PendingWorker \<Rightarrow> bool \<times> 's PendingWorker" where
  "wk_deliver now w0 =
     (let w = (if gate_is_open (wk_replies w0) then w0
               else w0\<lparr>wk_replies := gate_note_waiting (od_held (wk_orderer w0)) (wk_replies w0)\<rparr>) in
      case outlet_flush (wk_results w) of
        (False, results) \<Rightarrow> (False, w\<lparr>wk_results := results\<rparr>)
      | (True, results) \<Rightarrow> wk_deliver_loop now False (w\<lparr>wk_results := results\<rparr>))"

section \<open>A round\<close>

text \<open>The readings of the clock in a round: at the gate, for the round, for each command, for harvest and delivery, and
  when the store's charge is booked; and the day.\<close>

record RoundClock =
  rk_gate :: nat
  rk_now :: nat
  rk_take :: "nat \<Rightarrow> nat"
  rk_harvest :: nat
  rk_deliver :: nat
  rk_end :: nat
  rk_day :: nat

definition wk_publish :: "'s PendingWorker \<Rightarrow> 's PendingWorker" where
  "wk_publish w = w\<lparr>wk_published_applied := en_applied (wk_engine w)\<rparr>"

definition engine_take_store_charge :: "'s DurableStore \<Rightarrow> 's PendingEngine \<Rightarrow> nat \<times> 's PendingEngine" where
  "engine_take_store_charge ops e = (let (owed, l) = take_store_charge ops (en_records e) in (owed, e\<lparr>en_records := l\<rparr>))"

text \<open>What a round does once it has worked: the notice of a failed store, the time a modelled device holds the thread,
  and the published numbers.\<close>

definition wk_after :: "'s DurableStore \<Rightarrow> nat \<Rightarrow> bool \<Rightarrow> 's PendingWorker \<Rightarrow> 's PendingWorker" where
  "wk_after ops end_now progress w =
     (let (fault, e1) = take_store_fault (wk_engine w);
          w1 = (if fault then owe StoreFailed (w\<lparr>wk_engine := e1\<rparr>) else w\<lparr>wk_engine := e1\<rparr>);
          (charge, e2) = engine_take_store_charge ops e1;
          w2 = w1\<lparr>wk_engine := e2, wk_busy_until := (if charge > 0 then end_now + charge else wk_busy_until w1)\<rparr> in
      if progress then wk_publish w2 else w2)"

definition wk_round :: "Env \<Rightarrow> 's DurableStore \<Rightarrow> RoundClock \<Rightarrow> 's PendingWorker \<Rightarrow> (bool \<times> 's PendingWorker) option" where
  "wk_round env ops clock w =
     (if rk_gate clock < wk_busy_until w then Some (False, w)
      else
        let now = rk_now clock;
            (p1, w1) = hand_over_notices w;
            (p2, w2) = sweep_expiry env ops (rk_day clock) now w1 in
        do {
          (p3, w3) \<leftarrow> wk_drain_commands env ops (rk_take clock) w2;
          (p4, w4) \<leftarrow> wk_harvest env ops (rk_harvest clock) False w3;
          (p5, e5) \<leftarrow> engine_collect_writes ops now (wk_engine w4);
          let (p6, w6) = wk_deliver (rk_deliver clock) (w4\<lparr>wk_engine := e5\<rparr>);
          (p7, e7) \<leftarrow> engine_drain env ops (wk_drain_blocks_per_round w6) now (wk_engine w6);
          let (p8, e8) = engine_sync ops now e7;
          let progress = (p1 \<or> p2 \<or> p3 \<or> p4 \<or> p5 \<or> p6 \<or> p7 \<or> p8);
          Some (progress, wk_after ops (rk_end clock) progress (w6\<lparr>wk_engine := e8\<rparr>))
        })"

text \<open>The sequencer's side and the worker's rounds, in any order.\<close>

datatype WorkerEvent = CommandSent PendingCommand | WorkerRound RoundClock | ReplyPolled | NoticePolled
  | ExpiryWanted bool | RepliesHeld | RepliesLetThrough u64 | RepliesReleased

text \<open>What one event sends and receives.\<close>

definition wk_event :: "Env \<Rightarrow> 's DurableStore \<Rightarrow> WorkerEvent \<Rightarrow> 's PendingWorker
    \<Rightarrow> (PendingCommand list \<times> PendingReply list \<times> 's PendingWorker) option" where
  "wk_event env ops event w =
     (case event of
        CommandSent command \<Rightarrow>
          (case chan_push command (wk_commands w) of
             (ok, c) \<Rightarrow> Some (if ok then [command] else [], [], w\<lparr>wk_commands := c\<rparr>))
      | WorkerRound clock \<Rightarrow> map_option (\<lambda>(progress, w1). ([], [], w1)) (wk_round env ops clock w)
      | ReplyPolled \<Rightarrow>
          (case outlet_poll (wk_results w) of
             (reply, results) \<Rightarrow> Some ([], case reply of None \<Rightarrow> [] | Some r \<Rightarrow> [r], w\<lparr>wk_results := results\<rparr>))
      | NoticePolled \<Rightarrow> Some ([], [], w\<lparr>wk_notices := snd (chan_pop (wk_notices w))\<rparr>)
      | ExpiryWanted wanted \<Rightarrow> Some ([], [], w\<lparr>wk_wants_expiry := wanted\<rparr>)
      | RepliesHeld \<Rightarrow> Some ([], [], w\<lparr>wk_replies := gate_hold (wk_replies w)\<rparr>)
      | RepliesLetThrough n \<Rightarrow> Some ([], [], w\<lparr>wk_replies := gate_let_through n (wk_replies w)\<rparr>)
      | RepliesReleased \<Rightarrow> Some ([], [], w\<lparr>wk_replies := gate_release (wk_replies w)\<rparr>))"

fun wk_run :: "Env \<Rightarrow> 's DurableStore \<Rightarrow> WorkerEvent list \<Rightarrow> 's PendingWorker
    \<Rightarrow> (PendingCommand list \<times> PendingReply list \<times> 's PendingWorker) option" where
  "wk_run env ops [] w = Some ([], [], w)"
| "wk_run env ops (e # es) w =
     (case wk_event env ops e w of
        None \<Rightarrow> None
      | Some (sent, polled, w1) \<Rightarrow>
          map_option (\<lambda>(sent1, polled1, w2). (sent @ sent1, polled @ polled1, w2)) (wk_run env ops es w1))"

end
