(* ===== verification/Worker_Order.thy ===== *)
theory Worker_Order
  imports Pending_Worker
begin

text \<open>
  The pending worker answers each lane in the order it was asked, whatever the store does and in whatever order its
  reads come back: the promise the sequencer checks and quarantines a lane over.
\<close>

section \<open>What a lane is still owed\<close>

definition pr_place :: "PendingReply \<Rightarrow> (AccountId \<times> Seq) option" where
  "pr_place r = (if pr_seq r = UNORDERED then None else Some (pr_lane r, pr_seq r))"

definition cmd_place :: "PendingCommand \<Rightarrow> (AccountId \<times> Seq) option" where
  "cmd_place c =
     (case c of
        Lookup lookup \<Rightarrow> if pl_seq lookup = UNORDERED then None else Some (pl_lane lookup, pl_seq lookup)
      | Fence fence \<Rightarrow> if pf_seq fence = UNORDERED then None else Some (pf_lane fence, pf_seq fence)
      | _ \<Rightarrow> None)"

definition asked :: "AccountId \<Rightarrow> PendingCommand list \<Rightarrow> Seq list" where
  "asked l = List.map_filter (takes cmd_place l)"

definition answered :: "AccountId \<Rightarrow> PendingReply list \<Rightarrow> Seq list" where
  "answered l = List.map_filter (takes pr_place l)"

definition put_off :: "'s PendingWorker \<Rightarrow> PendingCommand list" where
  "put_off w = (case wk_deferred w of None \<Rightarrow> [] | Some c \<Rightarrow> [c])"

definition in_hand :: "'s PendingWorker \<Rightarrow> AccountId \<Rightarrow> Seq list" where
  "in_hand w l = answered l (outlet_contents (wk_results w)) @ od_waiting (wk_orderer w) l"

definition unanswered :: "'s PendingWorker \<Rightarrow> AccountId \<Rightarrow> Seq list" where
  "unanswered w l = in_hand w l @ asked l (put_off w) @ asked l (ch_items (wk_commands w))"

lemma asked_simps [simp]:
  "asked l [] = []" "asked l (xs @ ys) = asked l xs @ asked l ys" "answered l [] = []"
  "answered l (us @ vs) = answered l us @ answered l vs"
  by (simp_all add: asked_def answered_def List.map_filter_def)

lemma asked_Cons: "asked l (c # cs) = asked l [c] @ asked l cs"
  using asked_simps(2) [of l "[c]" cs] by simp

lemma answered_Cons: "answered l (r # rs) = answered l [r] @ answered l rs"
  using asked_simps(4) [of l "[r]" rs] by simp

section \<open>Places reserved and not filled\<close>

definition od_open :: "'a Orderer \<Rightarrow> AccountId \<Rightarrow> Seq \<Rightarrow> bool" where
  "od_open s l q \<longleftrightarrow> map_of (ol_places (lane_mut l s)) q = Some None"

lemma lane_mut_enrol:
  "od_lanes s1 = od_lanes s \<Longrightarrow>
   ol_places (lane_mut k (enrol l e s1)) = (if k = l then ol_places e else ol_places (lane_mut k s))"
  by (auto simp: enrol_def lane_mut_def update_conv)

lemma od_expect_open:
  "seq \<noteq> UNORDERED \<Longrightarrow> od_open (od_expect lane seq s) l q \<longleftrightarrow> l = lane \<and> q = seq \<or> od_open s l q"
  "od_open (od_expect lane UNORDERED s) l q \<longleftrightarrow> od_open s l q"
  by (auto simp: od_open_def od_expect_def Let_def lane_mut_enrol [OF refl] update_conv)

lemma od_fill_places:
  assumes "od_orderly place_of s"
  obtains h where "ol_places (lane_mut l (od_fill lane seq at v s))
      = (if l = lane \<and> seq \<noteq> UNORDERED then AList.update seq (Some h) (ol_places (lane_mut l s)) else ol_places (lane_mut l s))"
proof -
  have quiet: "od_violate_every s = 0" "ol_swapped (lane_mut lane s) = []"
    using assms by (simp_all add: od_orderly_def lane_ordered_def)
  obtain h s1 where s1: "od_lanes s1 = od_lanes s"
    and fill: "od_fill lane seq at v s = enrol lane
       (if seq = UNORDERED then (lane_mut lane s)\<lparr>ol_exempt := ol_exempt (lane_mut lane s) @ [h]\<rparr>
        else (lane_mut lane s)\<lparr>ol_places := AList.update seq (Some h) (ol_places (lane_mut lane s))\<rparr>) s1"
    using od_fill_enrols [OF quiet] .
  show ?thesis using that [of h] lane_mut_enrol [OF s1] by (simp add: fill)
qed

lemma od_fill_open:
  assumes "od_orderly place_of s"
  shows "od_open (od_fill lane seq at v s) l q \<longleftrightarrow> od_open s l q \<and> (seq = UNORDERED \<or> (l, q) \<noteq> (lane, seq))"
proof -
  obtain h where "ol_places (lane_mut l (od_fill lane seq at v s))
      = (if l = lane \<and> seq \<noteq> UNORDERED then AList.update seq (Some h) (ol_places (lane_mut l s)) else ol_places (lane_mut l s))"
    using od_fill_places [OF assms] .
  then show ?thesis by (auto simp: od_open_def update_conv)
qed

lemma ol_take_open:
  assumes "release_seq lane = Some seq" "ol_head lane seq = Some held" "map_of (ol_places lane) q = Some None"
  shows "map_of (ol_places (ol_take seq lane)) q = Some None"
proof (cases "seq = UNORDERED")
  case False
  then have "q \<noteq> seq" using assms(2,3) by (auto simp: ol_head_def split: option.splits)
  then show ?thesis using assms(3) False by (simp add: ol_take_def delete_conv)
qed (use assms(3) in \<open>simp add: ol_take_def\<close>)

lemma od_pop_lanes_open: "od_pop_lanes n now s = (r, s') \<Longrightarrow> od_open s l q \<Longrightarrow> od_open s' l q"
proof (induction n arbitrary: s)
  case (Suc n)
  have turn: "od_open (s\<lparr>od_rotation := r\<rparr>) l q" for r using Suc.prems(2) by (simp add: od_open_def)
  have release: "od_open (od_release now lid rotation lane seq held s) l q"
    if "map_of (od_lanes s) lid = Some lane" "release_seq lane = Some seq" "ol_head lane seq = Some held"
    for lid rotation lane seq held
  proof -
    have m: "ol_places (lane_mut l (od_release now lid rotation lane seq held s))
        = (if l = lid then ol_places (ol_take seq lane) else ol_places (lane_mut l s))"
      by (auto simp: od_release_def lane_mut_def update_conv Let_def)
    have lane: "l = lid \<Longrightarrow> lane_mut l s = lane" using that(1) by (simp add: lane_mut_def)
    show ?thesis
      using Suc.prems(2) ol_take_open [OF that(2,3)] lane unfolding od_open_def m by auto
  qed
  show ?case
    using Suc.prems(1) Suc.IH [OF _ turn] release turn Suc.prems(2)
    by (auto split: list.splits option.splits if_splits)
qed simp

lemma od_pop_open: "od_pop_ready now s = (r, s') \<Longrightarrow> od_open s l q \<Longrightarrow> od_open s' l q"
  unfolding od_pop_ready_def by (rule od_pop_lanes_open)

lemma waiting_distinct: "lane_ordered place_of l lane \<Longrightarrow> distinct (ol_waiting lane)"
  using next_inj [of "ol_next lane"] by (auto simp: lane_ordered_def ol_waiting_def distinct_map inj_on_def)

lemma od_open_waiting:
  assumes "od_orderly place_of s" "od_open s l q"
  shows "q \<in> set (od_waiting s l)"
proof -
  have "lane_ordered place_of l (lane_mut l s)" using assms(1) by (simp add: od_orderly_def)
  then have "set (map fst (ol_places (lane_mut l s))) = set (od_waiting s l)"
    by (simp add: lane_ordered_def od_waiting_def)
  moreover have "q \<in> set (map fst (ol_places (lane_mut l s)))"
    using assms(2) unfolding od_open_def by (metis map_of_eq_None_iff option.discI set_map)
  ultimately show ?thesis by simp
qed

lemma od_expect_fresh:
  assumes "od_orderly place_of s" "expect_fits lane seq s" "seq \<noteq> UNORDERED"
  shows "\<not> od_open s lane seq"
proof
  assume "od_open s lane seq"
  then have old: "seq \<in> set (od_waiting s lane)" by (rule od_open_waiting [OF assms(1)])
  have ord: "od_orderly place_of (od_expect lane seq s)" and new: "od_waiting (od_expect lane seq s) lane = od_waiting s lane @ [seq]"
    using od_expect_orderly [OF assms(1,2)] assms(3) by (simp_all add: od_reserves_def)
  then have "distinct (od_waiting (od_expect lane seq s) lane)"
    unfolding od_waiting_def by (intro waiting_distinct [of place_of lane]) (use ord in \<open>simp add: od_orderly_def\<close>)
  then show False using old new by simp
qed

section \<open>Consecutive numbers\<close>

fun follow_on :: "Seq list \<Rightarrow> bool" where
  "follow_on [] \<longleftrightarrow> True"
| "follow_on [s] \<longleftrightarrow> s \<noteq> UNORDERED \<and> s \<noteq> -1"
| "follow_on (s # t # ss) \<longleftrightarrow> s \<noteq> UNORDERED \<and> s \<noteq> -1 \<and> t = s + 1 \<and> follow_on (t # ss)"

lemma follow_on_append:
  "follow_on (xs @ ys) \<longleftrightarrow> follow_on xs \<and> follow_on ys \<and> (xs = [] \<or> ys = [] \<or> hd ys = last xs + 1)"
  by (induction xs rule: follow_on.induct) (cases ys; auto)+

lemma ol_waiting_last:
  "ol_places lane \<noteq> [] \<Longrightarrow> last (ol_waiting lane) + 1 = ol_next lane + word_of_nat (length (ol_places lane))"
  by (cases "length (ol_places lane)") (auto simp: ol_waiting_def last_map algebra_simps)

lemma follow_on_expect:
  assumes "follow_on (xs @ od_waiting s l @ seq # rest)"
  shows "expect_fits l seq s"
proof -
  have f: "follow_on (od_waiting s l @ seq # rest)" using assms by (simp add: follow_on_append)
  have "ol_places (lane_mut l s) = [] \<or> seq = last (od_waiting s l) + 1"
    using f by (auto simp: follow_on_append od_waiting_def ol_waiting_def)
  moreover have "seq \<noteq> -1" using f by (cases rest) (auto simp: follow_on_append)
  ultimately show ?thesis
    using ol_waiting_last [of "lane_mut l s"] by (auto simp: expect_fits_def Let_def od_waiting_def)
qed


section \<open>The invariant\<close>

text \<open>The lookups being fetched each hold a place of their own, reserved and not filled.\<close>

definition fetches_open :: "PendingReply Orderer \<Rightarrow> (u64 \<rightharpoonup> PendingLookup) \<Rightarrow> bool" where
  "fetches_open s inflight \<longleftrightarrow>
     (\<forall>h lookup. inflight h = Some lookup \<longrightarrow> pl_seq lookup \<noteq> UNORDERED \<longrightarrow>
        od_open s (pl_lane lookup) (pl_seq lookup)
        \<and> (\<forall>k other. inflight k = Some other \<longrightarrow> pl_lane other = pl_lane lookup \<longrightarrow> pl_seq other = pl_seq lookup \<longrightarrow> k = h))"

definition wk_ok :: "'s PendingWorker \<Rightarrow> bool" where
  "wk_ok w \<longleftrightarrow> od_orderly pr_place (wk_orderer w) \<and> fetches_open (wk_orderer w) (wk_inflight w)"

text \<open>Steps that touch neither replies nor commands.\<close>

definition wk_same :: "'s PendingWorker \<Rightarrow> 's PendingWorker \<Rightarrow> bool" where
  "wk_same w w1 \<longleftrightarrow> wk_orderer w1 = wk_orderer w \<and> wk_inflight w1 = wk_inflight w \<and> wk_results w1 = wk_results w
     \<and> wk_deferred w1 = wk_deferred w \<and> wk_commands w1 = wk_commands w"

text \<open>Steps that move answers along.\<close>

definition wk_moves :: "'s PendingWorker \<Rightarrow> 's PendingWorker \<Rightarrow> bool" where
  "wk_moves w w1 \<longleftrightarrow> wk_ok w1 \<and> (\<forall>l. unanswered w1 l = unanswered w l)"

lemma wk_same_moves: "wk_ok w \<Longrightarrow> wk_same w w1 \<Longrightarrow> wk_moves w w1"
  by (simp add: wk_moves_def wk_same_def wk_ok_def unanswered_def in_hand_def put_off_def)

lemma wk_moves_trans: "wk_moves w w1 \<Longrightarrow> wk_moves w1 w2 \<Longrightarrow> wk_moves w w2"
  by (simp add: wk_moves_def)

lemma wk_moves_ok: "wk_moves w w1 \<Longrightarrow> wk_ok w1"
  by (simp add: wk_moves_def)

lemma hand_over_same: "hand_over_notices w = (p, w1) \<Longrightarrow> wk_same w w1"
  by (auto simp: hand_over_notices_def wk_same_def Let_def split: prod.splits)

lemma sweep_expiry_same: "sweep_expiry env ops day now w = (p, w1) \<Longrightarrow> wk_same w w1"
  by (auto simp: sweep_expiry_def wk_same_def Let_def split: prod.splits if_splits)

lemma wk_after_same: "wk_same w (wk_after ops now progress w)"
  by (auto simp: wk_after_def wk_same_def owe_def wk_publish_def Let_def split: prod.splits)

lemma engine_update_same: "wk_same w (w\<lparr>wk_engine := e\<rparr>)"
  by (simp add: wk_same_def)

section \<open>Reserving and filling\<close>

text \<open>A reply to a command carries the command's place.\<close>

lemma reply_place [simp]:
  "wk_reply lookup found w = (reply, w1) \<Longrightarrow> pr_place reply = cmd_place (Lookup lookup)"
  "fence_reply fence w = (reply, w1) \<Longrightarrow> pr_place reply = cmd_place (Fence fence)"
  by (auto simp: wk_reply_def fence_reply_def pr_place_def cmd_place_def split: prod.splits)

lemma reply_same:
  "wk_reply lookup found w = (reply, w1) \<Longrightarrow> wk_same w w1" "fence_reply fence w = (reply, w1) \<Longrightarrow> wk_same w w1"
  "injected_delay w = Some (wait, w2) \<Longrightarrow> wk_same w w2"
  by (auto simp: wk_reply_def fence_reply_def claimed_applies_def injected_delay_def wk_same_def Let_def split: prod.splits)

lemma asked_one: "asked l [c] = (case takes cmd_place l c of None \<Rightarrow> [] | Some s \<Rightarrow> [s])"
  by (simp add: asked_def List.map_filter_simps split: option.splits)

text \<open>Reserving the place of a command that follows on, for a fetch or to be filled.\<close>

lemma expect_keeps:
  assumes "od_orderly pr_place s" "fetches_open s inflight" "follow_on (xs @ od_waiting s lane @ seq # rest) \<or> seq = UNORDERED"
  shows "od_orderly pr_place (od_expect lane seq s)" "fetches_open (od_expect lane seq s) inflight"
    and "od_waiting (od_expect lane seq s) l = od_waiting s l @ od_reserves lane seq l"
    and "seq \<noteq> UNORDERED \<Longrightarrow> od_open (od_expect lane seq s) lane seq"
    and "seq \<noteq> UNORDERED \<Longrightarrow> inflight h = Some other \<Longrightarrow> (pl_lane other, pl_seq other) \<noteq> (lane, seq)"
proof -
  have fits: "expect_fits lane seq s"
    using assms(3)
  proof
    assume "follow_on (xs @ od_waiting s lane @ seq # rest)"
    then show ?thesis by (rule follow_on_expect)
  qed (simp add: expect_fits_def)
  show "od_orderly pr_place (od_expect lane seq s)"
    and "od_waiting (od_expect lane seq s) l = od_waiting s l @ od_reserves lane seq l"
    using od_expect_orderly [OF assms(1) fits] by simp_all
  show "fetches_open (od_expect lane seq s) inflight"
  proof -
    have "od_open s l q \<Longrightarrow> od_open (od_expect lane seq s) l q" for l q
      by (cases "seq = UNORDERED") (simp_all add: od_expect_open)
    then show ?thesis using assms(2) unfolding fetches_open_def by blast
  qed
  show "od_open (od_expect lane seq s) lane seq" if "seq \<noteq> UNORDERED" using that by (simp add: od_expect_open)
  show "(pl_lane other, pl_seq other) \<noteq> (lane, seq)" if "seq \<noteq> UNORDERED" "inflight h = Some other"
    using od_expect_fresh [OF assms(1) fits that(1)] assms(2) that by (auto simp: fetches_open_def)
qed

lemma fill_keeps:
  assumes "od_orderly pr_place s" "fetches_open s inflight"
    and "seq \<noteq> UNORDERED \<Longrightarrow> od_open s lane seq"
    and "\<And>h other. seq \<noteq> UNORDERED \<Longrightarrow> inflight h = Some other \<Longrightarrow> (pl_lane other, pl_seq other) \<noteq> (lane, seq)"
    and "pr_place v = (if seq = UNORDERED then None else Some (lane, seq))"
  shows "od_orderly pr_place (od_fill lane seq at v s)" "fetches_open (od_fill lane seq at v s) inflight"
    and "od_waiting (od_fill lane seq at v s) = od_waiting s"
proof -
  have fits: "fill_fits pr_place lane seq v s" using assms(3,5) by (simp add: fill_fits_def od_open_def)
  show "od_orderly pr_place (od_fill lane seq at v s)" "od_waiting (od_fill lane seq at v s) = od_waiting s"
    using od_fill_orderly [OF assms(1) fits] by simp_all
  show "fetches_open (od_fill lane seq at v s) inflight"
    unfolding fetches_open_def od_fill_open [OF assms(1)]
    using assms(2,4) unfolding fetches_open_def by blast
qed

lemma reserves_asked:
  "cmd_place c = (if seq = UNORDERED then None else Some (lane, seq)) \<Longrightarrow> od_reserves lane seq l = asked l [c]"
  by (auto simp: asked_one takes_def od_reserves_def)

text \<open>A place reserved and filled at once.\<close>

lemma expect_fill_keeps:
  assumes "od_orderly pr_place s" "fetches_open s inflight"
    and "follow_on (xs @ od_waiting s lane @ seq # rest) \<or> seq = UNORDERED"
    and "pr_place v = (if seq = UNORDERED then None else Some (lane, seq))"
  shows "od_orderly pr_place (od_fill lane seq at v (od_expect lane seq s))"
    "fetches_open (od_fill lane seq at v (od_expect lane seq s)) inflight"
    and "od_waiting (od_fill lane seq at v (od_expect lane seq s)) l = od_waiting s l @ od_reserves lane seq l"
proof -
  note x = expect_keeps [OF assms(1-3)]
  note f = fill_keeps [OF x(1) x(2) x(4) x(5) assms(4), where at = at]
  show "od_orderly pr_place (od_fill lane seq at v (od_expect lane seq s))"
    "fetches_open (od_fill lane seq at v (od_expect lane seq s)) inflight" using f(1,2) by simp_all
  show "od_waiting (od_fill lane seq at v (od_expect lane seq s)) l = od_waiting s l @ od_reserves lane seq l"
    using f(3) x(3) by simp
qed


section \<open>Taking commands\<close>

lemma follow_on_place:
  assumes "follow_on (in_hand w lane @ asked lane [c] @ rest)"
    and "cmd_place c = (if seq = UNORDERED then None else Some (lane, seq))"
  shows "follow_on (answered lane (outlet_contents (wk_results w)) @ od_waiting (wk_orderer w) lane @ seq # rest)
    \<or> seq = UNORDERED"
  using assms by (auto simp: asked_one takes_def in_hand_def split: if_splits)

text \<open>A step that reserves and answers, or reserves and fetches, appends the command's place.\<close>

lemma placed_in_hand:
  assumes "wk_results w1 = wk_results w"
    and "\<And>l. od_waiting (wk_orderer w1) l = od_waiting (wk_orderer w) l @ od_reserves lane seq l"
    and "cmd_place c = (if seq = UNORDERED then None else Some (lane, seq))"
  shows "in_hand w1 l = in_hand w l @ asked l [c]"
  using assms(1,2) reserves_asked [OF assms(3), of l] by (simp add: in_hand_def)

definition takes_it :: "PendingCommand \<Rightarrow> 's PendingWorker \<Rightarrow> bool \<Rightarrow> 's PendingWorker \<Rightarrow> bool" where
  "takes_it c w going w1 \<longleftrightarrow> wk_ok w1 \<and> wk_commands w1 = wk_commands w \<and> wk_results w1 = wk_results w
     \<and> (\<forall>l. in_hand w1 l @ asked l (put_off w1) = in_hand w l @ asked l [c]) \<and> (going \<longrightarrow> wk_deferred w1 = None)"

lemma answered_takes_it:
  assumes "wk_ok w" "wk_deferred w = None" "\<And>l. follow_on (in_hand w l @ asked l [c] @ rest l)"
    and "cmd_place c = (if seq = UNORDERED then None else Some (lane, seq))" "pr_place v = cmd_place c"
    and "wk_same w w2"
  shows "takes_it c w True (wk_fill lane seq at v (wk_expect lane seq w2))"
proof -
  let ?w1 = "wk_fill lane seq at v (wk_expect lane seq w2)"
  have o: "wk_orderer ?w1 = od_fill lane seq at v (od_expect lane seq (wk_orderer w))"
    using assms(6) by (simp add: wk_fill_def wk_expect_def wk_same_def)
  have other: "wk_inflight ?w1 = wk_inflight w" "wk_results ?w1 = wk_results w" "wk_deferred ?w1 = None"
      "wk_commands ?w1 = wk_commands w"
    using assms(2,6) by (simp_all add: wk_fill_def wk_expect_def wk_same_def)
  note x = expect_fill_keeps [OF _ _ follow_on_place [OF assms(3) assms(4)], where inflight = "wk_inflight w" and at = at]
  have k: "wk_ok ?w1" using x(1,2) assms(1,4,5) by (simp add: wk_ok_def o other)
  have "in_hand ?w1 l = in_hand w l @ asked l [c]" for l
    using x(3) assms(1,4,5) by (intro placed_in_hand [OF other(2) _ assms(4)]) (simp add: o wk_ok_def)
  then show ?thesis using k other by (simp add: takes_it_def put_off_def)
qed

lemma fetched_takes_it:
  assumes "wk_ok w" "wk_deferred w = None" "\<And>l. follow_on (in_hand w l @ asked l [Lookup lookup] @ rest l)" "wk_same w w2"
  defines "w3 \<equiv> wk_expect (pl_lane lookup) (pl_seq lookup) w2"
  shows "takes_it (Lookup lookup) w True (w3\<lparr>wk_inflight := (wk_inflight w3)(h \<mapsto> lookup)\<rparr>)"
proof -
  let ?lane = "pl_lane lookup" and ?seq = "pl_seq lookup"
  let ?w1 = "w3\<lparr>wk_inflight := (wk_inflight w3)(h \<mapsto> lookup)\<rparr>"
  have c: "cmd_place (Lookup lookup) = (if ?seq = UNORDERED then None else Some (?lane, ?seq))" by (simp add: cmd_place_def)
  have o: "wk_orderer ?w1 = od_expect ?lane ?seq (wk_orderer w)"
    and i: "wk_inflight ?w1 = (wk_inflight w)(h \<mapsto> lookup)"
    and other: "wk_results ?w1 = wk_results w" "wk_deferred ?w1 = None" "wk_commands ?w1 = wk_commands w"
    using assms(2,4) by (simp_all add: w3_def wk_expect_def wk_same_def)
  have s: "od_orderly pr_place (wk_orderer w)" and f: "fetches_open (wk_orderer w) (wk_inflight w)"
    using assms(1) by (simp_all add: wk_ok_def)
  note x = expect_keeps [OF s f follow_on_place [OF assms(3) c]]
  have "fetches_open (od_expect ?lane ?seq (wk_orderer w)) ((wk_inflight w)(h \<mapsto> lookup))"
  proof -
    have n: "\<forall>k other. wk_inflight w k = Some other \<longrightarrow> pl_lane other = ?lane \<longrightarrow> pl_seq other = ?seq \<longrightarrow> ?seq = UNORDERED"
      using x(5) by blast
    show ?thesis
      unfolding fetches_open_def
    proof (intro allI impI)
      fix k other
      assume k: "((wk_inflight w)(h \<mapsto> lookup)) k = Some other" "pl_seq other \<noteq> UNORDERED"
      show "od_open (od_expect ?lane ?seq (wk_orderer w)) (pl_lane other) (pl_seq other)
        \<and> (\<forall>j another. ((wk_inflight w)(h \<mapsto> lookup)) j = Some another \<longrightarrow> pl_lane another = pl_lane other
            \<longrightarrow> pl_seq another = pl_seq other \<longrightarrow> j = k)"
      proof (cases "k = h")
        case True
        then show ?thesis using k x(4) n by auto
      next
        case False
        then have "wk_inflight w k = Some other" using k by simp
        then show ?thesis using x(2) k(2) n False unfolding fetches_open_def by (metis fun_upd_apply option.inject)
      qed
    qed
  qed
  then have k: "wk_ok ?w1" using x(1) by (simp add: wk_ok_def o i)
  have "in_hand ?w1 l = in_hand w l @ asked l [Lookup lookup]" for l
    using x(3) by (intro placed_in_hand [OF other(1) _ c]) (simp add: o)
  then show ?thesis using k other by (simp add: takes_it_def put_off_def)
qed

lemma put_off_takes_it: "wk_ok w \<Longrightarrow> wk_same w w2 \<Longrightarrow> takes_it c w False (w2\<lparr>wk_deferred := Some c\<rparr>)"
  by (simp add: takes_it_def wk_same_def wk_ok_def in_hand_def put_off_def)

lemma other_takes_it:
  "wk_ok w \<Longrightarrow> wk_deferred w = None \<Longrightarrow> cmd_place c = None \<Longrightarrow> wk_same w w1 \<Longrightarrow> takes_it c w True w1"
  by (simp add: takes_it_def wk_same_def wk_ok_def in_hand_def put_off_def asked_one takes_def)

lemma wk_same_trans: "wk_same w w1 \<Longrightarrow> wk_same w1 w2 \<Longrightarrow> wk_same w w2"
  by (simp add: wk_same_def)

lemma wk_take_takes_it:
  assumes ok: "wk_ok w" and d: "wk_deferred w = None" and follows: "\<And>l. follow_on (in_hand w l @ asked l [c] @ rest l)"
    and take: "wk_take env ops now c w = Some (going, w1)"
  shows "takes_it c w going w1"
proof (cases c)
  case (Lookup lookup)
  obtain started e where b: "begin_lookup env ops (wk_handles w + 1) (pl_pending_ref lookup) now (wk_engine w) = (started, e)"
    by force
  let ?w = "w\<lparr>wk_handles := wk_handles w + 1, wk_engine := e\<rparr>"
  have same: "wk_same w ?w" by (simp add: wk_same_def)
  show ?thesis
  proof (cases started)
    case (Answered found)
    obtain wait w2 where w2: "injected_delay (wk_expect (pl_lane lookup) (pl_seq lookup) ?w) = Some (wait, w2)"
      using take Lookup b Answered by (auto simp: wk_take_def split: Option.bind_splits)
    obtain j where j: "w2 = wk_expect (pl_lane lookup) (pl_seq lookup) ?w\<lparr>wk_jitter := j\<rparr>"
      using w2 by (auto simp: injected_delay_def)
    obtain reply w3 where r: "wk_reply lookup found w2 = (reply, w3)" by force
    then obtain n where w3: "w3 = w2\<lparr>wk_answers := n\<rparr>" by (auto simp: wk_reply_def claimed_applies_def Let_def)
    let ?w3 = "?w\<lparr>wk_jitter := j, wk_answers := n\<rparr>"
    have "w3 = wk_expect (pl_lane lookup) (pl_seq lookup) ?w3" by (simp add: w3 j wk_expect_def)
    moreover have "w1 = wk_fill (pl_lane lookup) (pl_seq lookup) (now + wait) reply w3" "going"
      using take Lookup b Answered w2 r by (auto simp: wk_take_def)
    moreover have "wk_same w ?w3" by (simp add: wk_same_def)
    ultimately show ?thesis
      using answered_takes_it [OF ok d follows _ _, of "pl_seq lookup" "pl_lane lookup" reply ?w3 "now + wait"]
        reply_place(1) [OF r] Lookup by (simp add: cmd_place_def)
  next
    case Fetching
    then show ?thesis
      using take Lookup b fetched_takes_it [OF ok d follows [unfolded Lookup] same] by (auto simp: wk_take_def Let_def)
  next
    case Busy
    then show ?thesis
      using take Lookup b put_off_takes_it [OF ok same] by (auto simp: wk_take_def Let_def)
  qed
next
  case (Fence fence)
  obtain reply w2 where r: "fence_reply fence w = (reply, w2)" by force
  obtain wait w3 where w3: "injected_delay w2 = Some (wait, w3)"
    "w1 = wk_fill (pf_lane fence) (pf_seq fence) (now + wait) reply (wk_expect (pf_lane fence) (pf_seq fence) w3)" "going"
    using take Fence r by (auto simp: wk_take_def split: Option.bind_splits)
  have "wk_same w w3" using reply_same(2) [OF r] reply_same(3) [OF w3(1)] by (rule wk_same_trans)
  then show ?thesis
    using answered_takes_it [OF ok d follows _ _ , of "pf_seq fence" "pf_lane fence" reply w3 "now + wait"]
      reply_place(2) [OF r] w3 Fence by (simp add: cmd_place_def)
next
  case (Apply effect at)
  show ?thesis
  proof (cases going)
    case True
    then have "wk_same w w1"
      using take Apply by (auto simp: wk_take_def wk_same_def owe_def split: if_splits Option.bind_splits sum.splits)
    then show ?thesis using other_takes_it [OF ok d] True Apply by (simp add: cmd_place_def)
  next
    case False
    then have "w1 = (w\<lparr>wk_buffer_stalls := wk_buffer_stalls w + 1\<rparr>)\<lparr>wk_deferred := Some c\<rparr>"
      using take Apply by (auto simp: wk_take_def split: if_splits Option.bind_splits)
    then show ?thesis using put_off_takes_it [OF ok, of "w\<lparr>wk_buffer_stalls := wk_buffer_stalls w + 1\<rparr>"] False
      by (simp add: wk_same_def)
  qed
next
  case (ExpiryDeclined hold)
  then show ?thesis
    using take other_takes_it [OF ok d] by (auto simp: wk_take_def cmd_place_def wk_same_def)
qed


lemma wk_take_all_moves:
  "wk_ok w \<Longrightarrow> wk_deferred w = None \<Longrightarrow> ch_items (wk_commands w) = cs \<Longrightarrow> (\<And>l. follow_on (unanswered w l)) \<Longrightarrow>
   wk_take_all env ops clock i cs w = Some w1 \<Longrightarrow> wk_moves w w1"
proof (induction cs arbitrary: w i)
  case Nil
  then show ?case by (simp add: wk_moves_def)
next
  case (Cons c cs)
  let ?w = "w\<lparr>wk_commands := (wk_commands w)\<lparr>ch_items := cs\<rparr>\<rparr>"
  obtain going w2 where t: "wk_take env ops (clock i) c ?w = Some (going, w2)"
    and rest: "(if going then wk_take_all env ops clock (Suc i) cs w2 else Some w2) = Some w1"
    using Cons.prems(5) by (auto split: Option.bind_splits)
  have u: "unanswered w l = in_hand ?w l @ asked l [c] @ asked l cs" for l
    using Cons.prems(2,3) by (simp add: unanswered_def in_hand_def put_off_def asked_Cons [of l c cs])
  have ok: "wk_ok ?w" "wk_deferred ?w = None" using Cons.prems(1,2) by (simp_all add: wk_ok_def)
  have t2: "takes_it c ?w going w2"
    using wk_take_takes_it [OF ok _ t, of "\<lambda>l. asked l cs"] Cons.prems(4) by (simp add: u)
  have items: "ch_items (wk_commands w2) = cs" and k: "wk_ok w2" using t2 by (simp_all add: takes_it_def)
  have "unanswered w2 l = unanswered w l" for l
    using t2 by (simp add: unanswered_def [of w2] u takes_it_def)
  then have m: "wk_moves w w2" using k by (simp add: wk_moves_def)
  show ?case
  proof (cases going)
    case True
    then have "wk_deferred w2 = None" using t2 by (simp add: takes_it_def)
    moreover have "follow_on (unanswered w2 l)" for l using m Cons.prems(4) by (simp add: wk_moves_def)
    ultimately have "wk_moves w2 w1" using Cons.IH [OF k _ items] rest True by simp
    then show ?thesis using m wk_moves_trans by blast
  next
    case False
    then show ?thesis using rest m by simp
  qed
qed

lemma wk_drain_moves:
  assumes "wk_ok w" "\<And>l. follow_on (unanswered w l)" "wk_drain_commands env ops clock w = Some (p, w1)"
  shows "wk_moves w w1"
proof (cases "wk_deferred w")
  case None
  then show ?thesis
    using assms(3) wk_take_all_moves [OF assms(1) None refl assms(2)] by (auto simp: wk_drain_commands_def)
next
  case (Some c)
  let ?w = "w\<lparr>wk_deferred := None\<rparr>"
  obtain going w2 where t: "wk_take env ops (clock 0) c ?w = Some (going, w2)"
    and rest: "if going then wk_take_all env ops clock 1 (ch_items (wk_commands w2)) w2 = Some w1 else w1 = w2"
    using assms(3) Some by (auto simp: wk_drain_commands_def split: Option.bind_splits if_splits)
  have ok: "wk_ok ?w" "wk_deferred ?w = None" using assms(1) by (simp_all add: wk_ok_def)
  have u: "unanswered w l = in_hand ?w l @ asked l [c] @ asked l (ch_items (wk_commands w))" for l
    using Some by (simp add: unanswered_def in_hand_def put_off_def)
  have t2: "takes_it c ?w going w2"
    using wk_take_takes_it [OF ok _ t, of "\<lambda>l. asked l (ch_items (wk_commands w))"] assms(2) by (simp add: u)
  have m: "wk_moves w w2"
    using t2 by (simp add: wk_moves_def unanswered_def [of w2] u takes_it_def)
  show ?thesis
  proof (cases going)
    case True
    then have "wk_deferred w2 = None" using t2 by (simp add: takes_it_def)
    moreover have "follow_on (unanswered w2 l)" for l using m assms(2) by (simp add: wk_moves_def)
    ultimately show ?thesis
      using wk_take_all_moves [OF wk_moves_ok [OF m] _ refl] rest True m wk_moves_trans by simp blast
  next
    case False
    then show ?thesis using rest m by simp
  qed
qed

section \<open>Filling and delivering\<close>

lemma wk_moves_in_hand:
  "wk_ok w1 \<Longrightarrow> wk_deferred w1 = wk_deferred w \<Longrightarrow> wk_commands w1 = wk_commands w \<Longrightarrow> (\<And>l. in_hand w1 l = in_hand w l)
    \<Longrightarrow> wk_moves w w1"
  by (simp add: wk_moves_def unanswered_def put_off_def)

lemma harvested_moves:
  assumes "wk_ok w" "wk_inflight w h = Some lookup" "wk_reply lookup found w2 = (reply, w3)"
    and "wk_same (w\<lparr>wk_inflight := (wk_inflight w)(h := None)\<rparr>) w3"
  shows "wk_moves w (wk_fill (pl_lane lookup) (pl_seq lookup) at reply w3)"
proof -
  let ?lane = "pl_lane lookup" and ?seq = "pl_seq lookup" and ?i = "(wk_inflight w)(h := None)"
  have s: "od_orderly pr_place (wk_orderer w)" and f: "fetches_open (wk_orderer w) (wk_inflight w)"
    using assms(1) by (simp_all add: wk_ok_def)
  have f1: "fetches_open (wk_orderer w) ?i" using f by (auto simp: fetches_open_def split: if_splits)
  have opened: "od_open (wk_orderer w) ?lane ?seq" if "?seq \<noteq> UNORDERED" using f assms(2) that by (simp add: fetches_open_def)
  have others: "(pl_lane other, pl_seq other) \<noteq> (?lane, ?seq)" if "?seq \<noteq> UNORDERED" "?i k = Some other" for k other
  proof
    assume "(pl_lane other, pl_seq other) = (?lane, ?seq)"
    then have "k = h" using f assms(2) that unfolding fetches_open_def by (auto split: if_splits)
    then show False using that(2) by simp
  qed
  have "pr_place reply = (if ?seq = UNORDERED then None else Some (?lane, ?seq))"
    using reply_place(1) [OF assms(3)] by (simp add: cmd_place_def)
  note x = fill_keeps [OF s f1 opened others this, where at = at]
  let ?w1 = "wk_fill ?lane ?seq at reply w3"
  have w1: "wk_orderer ?w1 = od_fill ?lane ?seq at reply (wk_orderer w)" "wk_inflight ?w1 = ?i"
      "wk_results ?w1 = wk_results w" "wk_deferred ?w1 = wk_deferred w" "wk_commands ?w1 = wk_commands w"
    using assms(4) by (simp_all add: wk_fill_def wk_same_def)
  show ?thesis using x by (intro wk_moves_in_hand) (simp_all add: w1 wk_ok_def in_hand_def)
qed

lemma wk_harvest_step:
  assumes "\<And>progress w y. f env ops now progress w = Some y \<Longrightarrow> wk_ok w \<Longrightarrow> wk_moves w (snd y)"
    and step: "(case engine_harvest env ops now (wk_engine w) of
        None \<Rightarrow> None
      | Some (None, e) \<Rightarrow> Some (progress, w\<lparr>wk_engine := e\<rparr>)
      | Some (Some (handle, found), e) \<Rightarrow>
          (let w1 = w\<lparr>wk_engine := e\<rparr> in
           case wk_inflight w1 handle of
             None \<Rightarrow> f env ops now progress w1
           | Some lookup \<Rightarrow>
               (case injected_delay (w1\<lparr>wk_inflight := (wk_inflight w1)(handle := None)\<rparr>) of
                  None \<Rightarrow> None
                | Some (wait, w2) \<Rightarrow>
                    (case wk_reply lookup found w2 of (reply, w3) \<Rightarrow>
                       f env ops now True (wk_fill (pl_lane lookup) (pl_seq lookup) (now + wait) reply w3))))) = Some y"
    and ok: "wk_ok w"
  shows "wk_moves w (snd y)"
proof -
  obtain harvested e where h: "engine_harvest env ops now (wk_engine w) = Some (harvested, e)"
    using step by (auto split: option.splits)
  let ?w = "w\<lparr>wk_engine := e\<rparr>"
  have m: "wk_moves w ?w" by (rule wk_same_moves [OF ok engine_update_same])
  show ?thesis
  proof (cases harvested)
    case None
    then show ?thesis using step h m by auto
  next
    case (Some hf)
    obtain handle found where hf: "hf = (handle, found)" by force
    show ?thesis
    proof (cases "wk_inflight w handle")
      case None
      then show ?thesis
        using step h Some hf assms(1) [of progress ?w y] wk_moves_ok [OF m] m wk_moves_trans by (simp add: Let_def) blast
    next
      case (Some lookup)
      let ?w1 = "?w\<lparr>wk_inflight := (wk_inflight w)(handle := None)\<rparr>"
      obtain wait w2 where w2: "injected_delay ?w1 = Some (wait, w2)"
        using step h \<open>harvested = Some hf\<close> hf Some by (auto simp: Let_def split: option.splits)
      obtain reply w3 where w3: "wk_reply lookup found w2 = (reply, w3)" by force
      let ?w4 = "wk_fill (pl_lane lookup) (pl_seq lookup) (now + wait) reply w3"
      have "wk_same ?w1 w3" using reply_same(3) [OF w2] reply_same(1) [OF w3] by (rule wk_same_trans)
      then have "wk_moves ?w ?w4"
        using harvested_moves [OF wk_moves_ok [OF m] _ w3, of handle] Some by simp
      then have m4: "wk_moves w ?w4" using m wk_moves_trans by blast
      have "f env ops now True ?w4 = Some y"
        using step h \<open>harvested = Some hf\<close> hf Some w2 w3 by (simp add: Let_def)
      from assms(1) [OF this wk_moves_ok [OF m4]] show ?thesis using m4 wk_moves_trans by blast
    qed
  qed
qed

lemma wk_harvest_moves:
  assumes "wk_harvest env ops now progress w = Some y" "wk_ok w"
  shows "wk_moves w (snd y)"
proof -
  have "wk_ok w \<longrightarrow> wk_moves w (snd y)"
  proof (rule wk_harvest.raw_induct [OF _ assms(1)], intro impI, goal_cases)
    case (1 f env ops now progress w y)
    show ?case by (rule wk_harvest_step [where f = f, OF _ 1(2,3)]) (use 1(1) in blast)
  qed
  then show ?thesis using assms(2) by simp
qed

lemma wk_deliver_loop_moves:
  "wk_ok w \<Longrightarrow> wk_deliver_loop now progress w = (p, w1) \<Longrightarrow> wk_moves w w1"
proof (induction now progress w rule: wk_deliver_loop.induct)
  case (1 now progress w)
  show ?case
  proof (cases "outlet_is_stuck (wk_results w) \<or> \<not> gate_may_send (wk_replies w)")
    case True
    then have "w1 = w" using 1(3) by (simp add: wk_deliver_loop.simps [of now progress w])
    then show ?thesis using 1(2) by (simp add: wk_moves_def)
  next
    case False
    obtain r orderer where pop: "od_pop_ready now (wk_orderer w) = (r, orderer)" by force
    have s: "od_orderly pr_place (wk_orderer w)" and f: "fetches_open (wk_orderer w) (wk_inflight w)"
      using 1(2) by (simp_all add: wk_ok_def)
    have s1: "od_orderly pr_place orderer" by (rule places.pop_ok [OF s pop])
    have f1: "fetches_open orderer (wk_inflight w)"
      using f od_pop_open [OF pop] unfolding fetches_open_def by blast
    show ?thesis
    proof (cases r)
      case None
      then have "w1 = w\<lparr>wk_orderer := orderer\<rparr>"
        using 1(3) False pop by (simp add: wk_deliver_loop.simps [of now progress w])
      then show ?thesis
        using s1 f1 places.pop_nothing [OF s pop [unfolded None]]
        by (intro wk_moves_in_hand) (simp_all add: wk_ok_def in_hand_def)
    next
      case (Some v)
      let ?w = "w\<lparr>wk_orderer := orderer, wk_replies := gate_spend (wk_replies w), wk_results := outlet_send v (wk_results w)\<rparr>"
      have out: "outlet_contents (wk_results ?w) = outlet_contents (wk_results w) @ [v]"
        using False by (simp add: outlet_send_contents)
      have "in_hand ?w l = in_hand w l" for l
        using places.pop_takes_front [OF s pop [unfolded Some], of l] unfolding in_hand_def out
        by (auto simp: answered_def List.map_filter_def split: option.splits)
      then have m: "wk_moves w ?w" using s1 f1 by (intro wk_moves_in_hand) (simp_all add: wk_ok_def)
      have "wk_deliver_loop now True ?w = (p, w1)"
        using 1(3) False pop Some by (simp add: wk_deliver_loop.simps [of now progress w])
      then have "wk_moves ?w w1" using 1(1) [OF _ pop [symmetric] Some wk_moves_ok [OF m]] False by simp
      then show ?thesis using m wk_moves_trans by blast
    qed
  qed
qed

lemma wk_deliver_moves:
  assumes "wk_ok w" "wk_deliver now w = (p, w1)"
  shows "wk_moves w w1"
proof -
  define g where "g = (if gate_is_open (wk_replies w) then wk_replies w
    else gate_note_waiting (od_held (wk_orderer w)) (wk_replies w))"
  obtain ok c where fl: "outlet_flush (wk_results w) = (ok, c)" by force
  let ?w = "w\<lparr>wk_replies := g, wk_results := c\<rparr>"
  have m: "wk_moves w ?w"
    using assms(1) outlet_flush_contents [OF fl] by (intro wk_moves_in_hand) (simp_all add: wk_ok_def in_hand_def)
  have "wk_deliver now w = (if ok then wk_deliver_loop now False ?w else (False, ?w))"
    using fl by (auto simp: wk_deliver_def g_def Let_def)
  then show ?thesis using assms(2) m wk_deliver_loop_moves [OF wk_moves_ok [OF m]] wk_moves_trans by (metis prod.inject)
qed

lemma wk_round_moves:
  assumes "wk_ok w" "\<And>l. follow_on (unanswered w l)" "wk_round env ops clock w = Some (p, w1)"
  shows "wk_moves w w1"
proof (cases "rk_gate clock < wk_busy_until w")
  case True
  then show ?thesis using assms by (simp add: wk_round_def wk_moves_def)
next
  case False
  obtain p1 u1 where u1: "hand_over_notices w = (p1, u1)" by force
  obtain p2 u2 where u2: "sweep_expiry env ops (rk_day clock) (rk_now clock) u1 = (p2, u2)" by force
  have m2: "wk_moves w u2"
    using wk_same_moves [OF assms(1) wk_same_trans [OF hand_over_same [OF u1] sweep_expiry_same [OF u2]]] .
  obtain p3 u3 where u3: "wk_drain_commands env ops (rk_take clock) u2 = Some (p3, u3)"
    using assms(3) False u1 u2 by (auto simp: wk_round_def Let_def split: Option.bind_splits)
  have m3: "wk_moves u2 u3"
    using wk_drain_moves [OF wk_moves_ok [OF m2] _ u3] m2 assms(2) by (simp add: wk_moves_def)
  obtain p4 u4 where u4: "wk_harvest env ops (rk_harvest clock) False u3 = Some (p4, u4)"
    using assms(3) False u1 u2 u3 by (auto simp: wk_round_def Let_def split: Option.bind_splits)
  have m4: "wk_moves u3 u4" using wk_harvest_moves [OF u4 wk_moves_ok [OF m3]] by simp
  obtain p5 e5 where e5: "engine_collect_writes ops (rk_now clock) (wk_engine u4) = Some (p5, e5)"
    using assms(3) False u1 u2 u3 u4 by (auto simp: wk_round_def Let_def split: Option.bind_splits)
  let ?u5 = "u4\<lparr>wk_engine := e5\<rparr>"
  have m5: "wk_moves u4 ?u5" by (rule wk_same_moves [OF wk_moves_ok [OF m4] engine_update_same])
  obtain p6 u6 where u6: "wk_deliver (rk_deliver clock) ?u5 = (p6, u6)" by force
  have m6: "wk_moves ?u5 u6" by (rule wk_deliver_moves [OF wk_moves_ok [OF m5] u6])
  obtain e8 progress where w1: "w1 = wk_after ops (rk_end clock) progress (u6\<lparr>wk_engine := e8\<rparr>)"
    using assms(3) False u1 u2 u3 u4 e5 u6 by (auto simp: wk_round_def Let_def split: Option.bind_splits prod.splits)
  have "wk_moves u6 w1"
    unfolding w1 by (rule wk_same_moves [OF wk_moves_ok [OF m6] wk_same_trans [OF engine_update_same wk_after_same]])
  then show ?thesis using m2 m3 m4 m5 m6 by (simp add: wk_moves_def)
qed


section \<open>Runs\<close>

text \<open>The sequencer's part: while a lane has something unanswered, the next number it sends on it follows on.\<close>

definition event_fits :: "WorkerEvent \<Rightarrow> 's PendingWorker \<Rightarrow> bool" where
  "event_fits event w =
     (case event of
        CommandSent command \<Rightarrow>
          (case cmd_place command of
             None \<Rightarrow> True
           | Some (lane, seq) \<Rightarrow> seq \<noteq> -1 \<and> (unanswered w lane = [] \<or> seq = last (unanswered w lane) + 1))
      | _ \<Rightarrow> True)"

fun wk_fits :: "Env \<Rightarrow> 's DurableStore \<Rightarrow> WorkerEvent list \<Rightarrow> 's PendingWorker \<Rightarrow> bool" where
  "wk_fits env ops [] w \<longleftrightarrow> True"
| "wk_fits env ops (e # es) w \<longleftrightarrow>
     event_fits e w \<and> (case wk_event env ops e w of None \<Rightarrow> True | Some (_, _, w1) \<Rightarrow> wk_fits env ops es w1)"

lemma cmd_place_nonzero: "cmd_place c = Some (lane, seq) \<Longrightarrow> seq \<noteq> UNORDERED"
  by (auto simp: cmd_place_def split: PendingCommand.splits if_splits)

text \<open>One event: what was unanswered and what it sends, is what it receives and what is unanswered after it.\<close>

lemma wk_event_in_order:
  assumes "wk_ok w" "\<And>l. follow_on (unanswered w l)" "event_fits e w" "wk_event env ops e w = Some (sent, polled, w1)"
  shows "wk_ok w1 \<and> (\<forall>l. unanswered w l @ asked l sent = answered l polled @ unanswered w1 l)
    \<and> (\<forall>l. follow_on (unanswered w1 l))"
proof (cases e)
  case (CommandSent c)
  obtain ok ch where push: "chan_push c (wk_commands w) = (ok, ch)" by force
  have w1: "sent = (if ok then [c] else [])" "polled = []" "w1 = w\<lparr>wk_commands := ch\<rparr>"
    using assms(4) CommandSent push by (simp_all add: wk_event_def)
  have items: "ch_items ch = ch_items (wk_commands w) @ sent" using push w1(1) by (auto simp: chan_push_def split: if_splits)
  have u: "unanswered w1 l = unanswered w l @ asked l sent" for l
    by (simp add: w1(3) unanswered_def in_hand_def put_off_def items)
  have "follow_on (unanswered w l @ asked l [c])" for l
    using assms(2) [of l] assms(3) CommandSent cmd_place_nonzero [of c]
    by (auto simp: event_fits_def follow_on_append asked_one takes_def split: option.splits)
  then have "follow_on (unanswered w1 l)" for l using assms(2) [of l] by (simp add: u w1(1))
  moreover have "wk_ok w1" using assms(1) by (simp add: w1(3) wk_ok_def)
  ultimately show ?thesis using w1(2) u by simp
next
  case (WorkerRound clock)
  then obtain p where "wk_round env ops clock w = Some (p, w1)" "sent = []" "polled = []"
    using assms(4) by (auto simp: wk_event_def)
  then show ?thesis using wk_round_moves [OF assms(1,2)] assms(2) by (simp add: wk_moves_def)
next
  case ReplyPolled
  obtain r res where r: "outlet_poll (wk_results w) = (r, res)" by force
  have w1: "sent = []" "polled = (case r of None \<Rightarrow> [] | Some v \<Rightarrow> [v])" "w1 = w\<lparr>wk_results := res\<rparr>"
    using assms(4) ReplyPolled r by (simp_all add: wk_event_def)
  have u: "unanswered w l = answered l polled @ unanswered w1 l" for l
    using outlet_poll_contents [of "wk_results w"] r w1(2)
    by (cases r) (auto simp: w1(3) unanswered_def in_hand_def put_off_def answered_Cons [of l _ "outlet_contents res"])
  have "follow_on (unanswered w1 l)" for l using assms(2) [of l] by (simp add: u follow_on_append)
  moreover have "wk_ok w1" using assms(1) by (simp add: w1(3) wk_ok_def)
  ultimately show ?thesis using w1(1) u by simp
qed (use assms wk_same_moves [OF assms(1), of w1] in \<open>auto simp: wk_event_def wk_same_def wk_moves_def\<close>)

lemma wk_run_in_order:
  "wk_ok w \<Longrightarrow> (\<And>l. follow_on (unanswered w l)) \<Longrightarrow> wk_fits env ops es w \<Longrightarrow>
   wk_run env ops es w = Some (sent, polled, w') \<Longrightarrow>
   unanswered w l @ asked l sent = answered l polled @ unanswered w' l"
proof (induction es arbitrary: w sent polled)
  case (Cons e es)
  obtain sent1 polled1 w1 where e: "wk_event env ops e w = Some (sent1, polled1, w1)"
    using Cons.prems(4) by (auto split: option.splits)
  obtain sent2 polled2 where rest: "wk_run env ops es w1 = Some (sent2, polled2, w')"
    and both: "sent = sent1 @ sent2" "polled = polled1 @ polled2"
    using Cons.prems(4) e by auto
  have fits: "event_fits e w" "wk_fits env ops es w1" using Cons.prems(3) e by simp_all
  note step = wk_event_in_order [OF Cons.prems(1,2) fits(1) e]
  have "unanswered w1 l @ asked l sent2 = answered l polled2 @ unanswered w' l"
    using Cons.IH [OF _ _ fits(2) rest] step by blast
  then show ?case using step by (simp add: both) (metis append.assoc)
qed simp

lemma worker_start_ok:
  assumes "mpc_violate_order_every config = 0"
  shows "wk_ok (worker_start config slots resident store)" "unanswered (worker_start config slots resident store) l = []"
  using assms od_new_orderly [of pr_place]
  by (simp_all add: wk_ok_def worker_start_def fetches_open_def unanswered_def in_hand_def put_off_def od_waiting_def
      od_new_def lane_mut_def ol_new_def ol_waiting_def Let_def)

text \<open>C20: The pending worker answers every lane in the order it was asked. Whatever the store is and whenever its reads come
  back, however rounds, sends, polls and a test's holds interleave, and whatever commands are put off because the store
  or the buffer is full: the numbers of the replies a lane has received, followed by the numbers still unanswered, are
  the numbers of the lookups and fences sent on it. The fault is off, and the numbers sent on a lane follow on while
  something on it is unanswered.\<close>

theorem worker_answers_each_lane_in_order:
  assumes "mpc_violate_order_every config = 0"
    and "wk_fits env ops es (worker_start config slots resident store)"
    and "wk_run env ops es (worker_start config slots resident store) = Some (sent, polled, w)"
  shows "asked l sent = answered l polled @ unanswered w l"
proof -
  note start = worker_start_ok [OF assms(1), of slots resident store]
  have "follow_on (unanswered (worker_start config slots resident store) k)" for k by (simp add: start(2))
  from wk_run_in_order [OF start(1) this assms(2,3), of l] show ?thesis by (simp add: start(2))
qed


text \<open>Two fences, a round of the worker, one reply taken and a third fence, over the memory store.\<close>

definition worker_sample_config :: MemoryPendingConfig where
  "worker_sample_config =
     \<lparr>mpc_queue_capacity = 4, mpc_latency = latency_fixed 0, mpc_violate_order_every = 0, mpc_stale_answer_every = 0,
      mpc_seed = 7, mpc_capacity = \<lparr>pcy_daily_arrivals = 24, pcy_retention_days = 1, pcy_grace_days = 1,
        pcy_flush_window_hours = 1, pcy_residency_hours = 1\<rparr>, mpc_expiry_blocks_per_round = 1\<rparr>"

definition sample_clock :: RoundClock where
  "sample_clock = \<lparr>rk_gate = 1, rk_now = 1, rk_take = (\<lambda>i. 2), rk_harvest = 3, rk_deliver = 4, rk_end = 5, rk_day = 0\<rparr>"

definition fence_of :: "Seq \<Rightarrow> PendingCommand" where
  "fence_of seq = Fence \<lparr>pf_correlation = 0, pf_lane = 9, pf_seq = seq\<rparr>"

definition worker_sample_events :: "WorkerEvent list" where
  "worker_sample_events =
     [CommandSent (fence_of 1), CommandSent (fence_of 2), WorkerRound sample_clock, ReplyPolled, CommandSent (fence_of 3)]"

text \<open>A log nothing was written to: every call leaves it as it is.\<close>

lemma idle_log:
  fixes flush resident :: nat
  defines "l \<equiv> log_new memory_store flush resident"
  shows "log_harvest crc memory_ops now l = (None, [], l)" "collect_writes memory_ops now l = Some (False, l)"
    "over_window l \<longleftrightarrow> False" "submit_writes memory_ops now l = (False, l)" "log_sync memory_ops now l = (False, l)"
    "take_fault l = (False, l)" "take_store_charge memory_ops l = (0, l)" "n < SEGMENTS \<Longrightarrow> blocks_in_day l (word_of_nat n) = 0"
proof -
  have s: "submit_writes memory_ops now l = (False, l)" by (simp add: submit_writes.simps l_def log_new_def)
  have "collect_loop memory_ops now False l = Some (False, l)"
    by (simp add: collect_loop.simps l_def log_new_def memory_ops_def mem_poll_written_def memory_store_def)
  moreover have "trim_residency l = l" by (simp add: trim_residency.simps l_def log_new_def)
  ultimately show "collect_writes memory_ops now l = Some (False, l)" by (simp add: collect_writes_def)
  show "submit_writes memory_ops now l = (False, l)" by (rule s)
  show "log_sync memory_ops now l = (False, l)" by (simp add: log_sync_def s) (simp add: l_def log_new_def)
  assume "n < SEGMENTS"
  then have "unat (word_of_nat n :: u8) < SEGMENT_VALUES" by (simp add: SEGMENTS_def SEGMENT_VALUES_def SEGMENT_BITS_def unat_of_nat)
  then show "blocks_in_day l (word_of_nat n) = 0" by (simp add: blocks_in_day_def log_day_def l_def log_new_def range_default_def)
qed (simp_all add: l_def log_new_def log_harvest_def memory_ops_def mem_poll_def memory_store_def over_window_def take_fault_def
       take_store_charge_def)

definition idle_engine :: "MemoryStore PendingEngine \<Rightarrow> bool" where
  "idle_engine e \<longleftrightarrow> (\<exists>flush resident. en_records e = log_new memory_store flush resident)"

lemma idle_engine_steps:
  assumes "idle_engine e"
  shows "engine_harvest env memory_ops now e = Some (None, e)" "engine_collect_writes memory_ops now e = Some (False, e)"
    "engine_drain env memory_ops blocks now e = Some (False, e)" "engine_sync memory_ops now e = (False, e)"
    "take_store_fault e = (False, e)" "engine_take_store_charge memory_ops e = (0, e)" "reclaim e = (0, e)"
proof -
  obtain flush resident where l: "en_records e = log_new memory_store flush resident"
    using assms by (auto simp: idle_engine_def)
  note idle = idle_log [where flush = flush and resident = resident]
  have same: "e\<lparr>en_records := log_new memory_store flush resident\<rparr> = e" by (simp flip: l)
  show "engine_harvest env memory_ops now e = Some (None, e)"
    by (simp add: engine_harvest.simps l idle same swept_voids_def)
  show "engine_collect_writes memory_ops now e = Some (False, e)" by (simp add: engine_collect_writes_def l idle same)
  have "drain_blocks env blocks 0 e = Some (0, e)" by (cases blocks) (simp_all add: l idle)
  then show "engine_drain env memory_ops blocks now e = Some (False, e)" by (simp add: engine_drain_def l idle same)
  show "engine_sync memory_ops now e = (False, e)" by (simp add: engine_sync_def l idle same)
  show "take_store_fault e = (False, e)" by (simp add: take_store_fault_def l idle same)
  show "engine_take_store_charge memory_ops e = (0, e)" by (simp add: engine_take_store_charge_def l idle same)
  have "reclaim_segment segment (n, e) = (n, e)" if "segment < SEGMENTS" for segment n
    using that by (simp add: reclaim_segment_def Let_def l idle)
  then have "set xs \<subseteq> {..<SEGMENTS} \<Longrightarrow> fold reclaim_segment xs (n, e) = (n, e)" for xs n by (induction xs) simp_all
  then show "reclaim e = (0, e)" by (simp add: reclaim_def lessThan_atLeast0)
qed

lemma idle_sweep:
  assumes "idle_engine (wk_engine w)" "en_today (wk_engine w) = 0" "sw_day (en_sweep (wk_engine w)) = None"
    "wk_lifetime_days w > 0"
  shows "\<exists>e. sweep_expiry env memory_ops 0 now w = (False, w\<lparr>wk_engine := e\<rparr>) \<and> idle_engine e
    \<and> en_applied e = en_applied (wk_engine w)"
proof -
  let ?e = "(wk_engine w)\<lparr>en_lifetime_days := wk_lifetime_days w, en_sweep := (en_sweep (wk_engine w))\<lparr>sw_day := Some 0\<rparr>\<rparr>"
  have idle: "idle_engine ?e" using assms(1) by (simp add: idle_engine_def)
  have opened: "engine_open_day env 0 (wk_lifetime_days w) (wk_engine w) = (False, ?e)"
    using assms by (simp add: engine_open_day_def oldest_unfinished_day_def Let_def)
  have "\<not> sweeping ?e" using assms(2,4) by (simp add: sweeping_def days_behind_def behind_def)
  then have "sweep_expiry env memory_ops 0 now w = (False, w\<lparr>wk_engine := ?e\<rparr>)"
    using opened idle_engine_steps(7) [OF idle] by (simp add: sweep_expiry_def)
  then show ?thesis using idle by (intro exI [of _ ?e]) simp
qed


lemma sample_sizes:
  "next_power_of_two 4 = 4" "next_power_of_two NOTICE_QUEUE = 64"
  "capacity_lifetime_days (mpc_capacity worker_sample_config) = 2" "drain_blocks_per_round worker_sample_config = 1"
  "buffer_ceiling worker_sample_config = 2"
  by code_simp+

text \<open>The sample worker over an engine, with the commands waiting for it.\<close>

definition sample_worker :: "MemoryStore PendingEngine \<Rightarrow> PendingCommand list \<Rightarrow> MemoryStore PendingWorker" where
  "sample_worker e commands =
     \<lparr>wk_commands = \<lparr>ch_items = commands, ch_capacity = 4\<rparr>, wk_results = outlet_new \<lparr>ch_items = [], ch_capacity = 4\<rparr>,
      wk_engine = e, wk_wants_expiry = True, wk_published_applied = 0, wk_replies = gate_default,
      wk_notices = \<lparr>ch_items = [], ch_capacity = 64\<rparr>, wk_owed = [], wk_lifetime_days = 2, wk_expiry_blocks_per_round = 1,
      wk_drain_blocks_per_round = 1, wk_buffer_ceiling = 2, wk_buffer_stalls = 0, wk_orderer = od_new 0,
      wk_stale_answer_every = 0, wk_answers = 0, wk_inflight = Map.empty, wk_handles = 0, wk_deferred = None,
      wk_jitter = prng_new 7, wk_latency = latency_fixed 0, wk_busy_until = 0\<rparr>"

lemma sample_worker_start:
  "worker_start worker_sample_config 8 4 memory_store =
   sample_worker (engine_sized 8 (capacity_flush_blocks (mpc_capacity worker_sample_config)) 4 memory_store) []"
  using sample_sizes by (simp add: worker_start_def sample_worker_def worker_sample_config_def Let_def)

definition last_events :: "WorkerEvent list" where
  "last_events = [ReplyPolled, CommandSent (fence_of 3)]"

lemma sample_round_replies:
  "case wk_drain_commands env memory_ops (\<lambda>i. 2) (sample_worker e [fence_of 1, fence_of 2]) of
     None \<Rightarrow> False
   | Some (p, w1) \<Rightarrow> p \<and> wk_engine w1 = e \<and>
       (case wk_deliver 4 w1 of (q, w2) \<Rightarrow> q \<and> wk_engine w2 = e \<and>
         (case wk_run env memory_ops last_events (wk_publish w2) of
            None \<Rightarrow> False
          | Some (sent, polled, w) \<Rightarrow> wk_fits env memory_ops last_events (wk_publish w2)
              \<and> sent = [fence_of 3] \<and> map pr_seq polled = [1] \<and> unanswered w 9 = [2, 3]))"
  by code_simp

lemma sample_round:
  assumes "idle_engine e" "en_today e = 0" "sw_day (en_sweep e) = None"
  obtains w where "wk_round plain_env memory_ops sample_clock (sample_worker e [fence_of 1, fence_of 2]) = Some (True, w)"
    "wk_fits plain_env memory_ops last_events w"
    "\<exists>polled w'. wk_run plain_env memory_ops last_events w = Some ([fence_of 3], polled, w') \<and> map pr_seq polled = [1] \<and> unanswered w' 9 = [2, 3]"
proof -
  let ?w = "\<lambda>e. sample_worker e [fence_of 1, fence_of 2]"
  have notices: "hand_over_notices (?w e) = (False, ?w e)" by (simp add: hand_over_notices_def sample_worker_def)
  have busy: "wk_busy_until (?w e) = 0" by (simp add: sample_worker_def)
  obtain e1 where sweep: "sweep_expiry plain_env memory_ops 0 1 (?w e) = (False, ?w e1)" and idle: "idle_engine e1"
    using idle_sweep [of "?w e" plain_env 1] assms by (auto simp: sample_worker_def)
  note idle = idle_engine_steps [OF idle]
  obtain w1 q w2 polled w' where drain: "wk_drain_commands plain_env memory_ops (\<lambda>i. 2) (?w e1) = Some (True, w1)"
      and deliver: "wk_deliver 4 w1 = (q, w2)" and e1: "wk_engine w1 = e1" "wk_engine w2 = e1"
      and fits: "wk_fits plain_env memory_ops last_events (wk_publish w2)"
      and run: "wk_run plain_env memory_ops last_events (wk_publish w2) = Some ([fence_of 3], polled, w')"
        "map pr_seq polled = [1]" "unanswered w' 9 = [2, 3]"
    using sample_round_replies [where env = plain_env and e = e1] by (auto split: option.splits prod.splits)
  have same: "w1\<lparr>wk_engine := e1\<rparr> = w1" "w2\<lparr>wk_engine := e1\<rparr> = w2" using e1 by auto
  have "wk_harvest plain_env memory_ops 3 False w1 = Some (False, w1)"
    by (simp add: wk_harvest.simps e1 idle same)
  then have "wk_round plain_env memory_ops sample_clock (?w e) = Some (True, wk_publish w2)"
    using e1 by (simp add: wk_round_def sample_clock_def notices sweep idle drain deliver same wk_after_def busy del: One_nat_def)
  then show thesis using fits by (rule that) (use run in auto)
qed

theorem worker_answers_each_lane_in_order_witness:
  "\<exists>polled w. wk_run plain_env memory_ops worker_sample_events (worker_start worker_sample_config 8 4 memory_store)
      = Some ([fence_of 1, fence_of 2, fence_of 3], polled, w)
    \<and> asked 9 [fence_of 1, fence_of 2, fence_of 3] = answered 9 polled @ unanswered w 9 \<and> map pr_seq polled = [1]"
proof -
  let ?e = "engine_sized 8 (capacity_flush_blocks (mpc_capacity worker_sample_config)) 4 memory_store"
  have idle: "idle_engine ?e" "en_today ?e = 0" "sw_day (en_sweep ?e) = None"
    by (auto simp: engine_sized_def idle_engine_def)
  obtain w polled w' where round: "wk_round plain_env memory_ops sample_clock (sample_worker ?e [fence_of 1, fence_of 2]) = Some (True, w)"
    and fits: "wk_fits plain_env memory_ops last_events w"
    and rest: "wk_run plain_env memory_ops last_events w = Some ([fence_of 3], polled, w')" "map pr_seq polled = [1]"
    using sample_round [OF idle] by metis
  have send: "wk_event plain_env memory_ops (CommandSent (fence_of 1)) (sample_worker ?e []) = Some ([fence_of 1], [], sample_worker ?e [fence_of 1])"
      "wk_event plain_env memory_ops (CommandSent (fence_of 2)) (sample_worker ?e [fence_of 1]) = Some ([fence_of 2], [], sample_worker ?e [fence_of 1, fence_of 2])"
    by (simp_all add: wk_event_def sample_worker_def chan_push_def)
  have event: "wk_event plain_env memory_ops (WorkerRound sample_clock) (sample_worker ?e [fence_of 1, fence_of 2]) = Some ([], [], w)"
    by (simp add: wk_event_def round)
  have "unanswered (sample_worker e []) 9 = []" "unanswered (sample_worker e [fence_of 1]) 9 = [1]" for e by code_simp+
  then have "event_fits (CommandSent (fence_of 1)) (sample_worker ?e [])" "event_fits (CommandSent (fence_of 2)) (sample_worker ?e [fence_of 1])"
    "event_fits (WorkerRound sample_clock) w" for w :: "MemoryStore PendingWorker"
    by (simp_all add: event_fits_def fence_of_def cmd_place_def UNORDERED_def)
  then have "wk_fits plain_env memory_ops worker_sample_events (sample_worker ?e [])"
    using fits by (simp add: worker_sample_events_def send event last_events_def)
  moreover have "wk_run plain_env memory_ops worker_sample_events (sample_worker ?e []) = Some ([fence_of 1, fence_of 2, fence_of 3], polled, w')"
    using rest by (simp add: worker_sample_events_def send event last_events_def)
  moreover have "mpc_violate_order_every worker_sample_config = 0" by (simp add: worker_sample_config_def)
  ultimately show ?thesis using rest(2)
    worker_answers_each_lane_in_order [of worker_sample_config plain_env memory_ops worker_sample_events 8 4 memory_store]
    by (auto simp: sample_worker_start)
qed

end
