(* ===== verification/Read_Cache.thy ===== *)
theory Read_Cache
  imports Block_Store "HOL-Library.Multiset"
begin

text \<open>
  The cold read cache in front of a volume (\<open>pending/src/cache.rs\<close>): the last blocks read, reads that are answered
  without going down, and reads that join one already on its way. It wraps any store and is a store itself. The lemmas
  show which bytes it answers with, and where that goes wrong.
\<close>

section \<open>The cache\<close>

type_synonym CacheKey = "ObjectId \<times> nat"

record 's Cached =
  ca_inner :: 's
  ca_slots :: "Block list"
  ca_held :: "(CacheKey \<times> nat) list"
  ca_order :: "nat list"
  ca_blocks :: nat
  ca_ready :: "(u64 \<times> ObjectId \<times> nat) list"
  ca_issued :: "(u64 \<times> CacheKey) list"
  ca_waiting :: "(CacheKey \<times> (u64 \<times> ObjectId \<times> nat) list) list"
  ca_hits :: nat
  ca_joined :: nat

definition cached_new :: "'s \<Rightarrow> nat \<Rightarrow> 's Cached" where
  "cached_new inner blocks =
     \<lparr>ca_inner = inner, ca_slots = replicate blocks block_zeroed, ca_held = [], ca_order = [], ca_blocks = blocks,
      ca_ready = [], ca_issued = [], ca_waiting = [], ca_hits = 0, ca_joined = 0\<rparr>"

definition take_from_cache :: "ObjectId \<Rightarrow> nat \<Rightarrow> 's Cached \<Rightarrow> Block option \<times> 's Cached" where
  "take_from_cache object offset c =
     (case map_of (ca_held c) (object, offset) of
        None \<Rightarrow> (None, c)
      | Some slot \<Rightarrow>
          (Some (ca_slots c ! slot),
           c\<lparr>ca_hits := ca_hits c + 1,
             ca_order := (if slot \<in> set (ca_order c) then remove1 slot (ca_order c) @ [slot] else ca_order c)\<rparr>))"

text \<open>The next slot is the number of those in use, or the one least recently read when all are.\<close>

definition cache_keep :: "ObjectId \<Rightarrow> nat \<Rightarrow> Block \<Rightarrow> 's Cached \<Rightarrow> 's Cached" where
  "cache_keep object offset block c =
     (if ca_blocks c = 0 \<or> map_of (ca_held c) (object, offset) \<noteq> None then c
      else
        let (slot, c1) =
              (if length (ca_order c) \<ge> ca_blocks c
               then (hd (ca_order c),
                     c\<lparr>ca_order := tl (ca_order c), ca_held := filter (\<lambda>(_, at). at \<noteq> hd (ca_order c)) (ca_held c)\<rparr>)
               else (length (ca_order c), c)) in
        c1\<lparr>ca_slots := (ca_slots c1)[slot := block], ca_held := AList.update (object, offset) slot (ca_held c1),
           ca_order := ca_order c1 @ [slot]\<rparr>)"

definition cache_forget :: "ObjectId \<Rightarrow> 's Cached \<Rightarrow> 's Cached" where
  "cache_forget object c =
     (let dropped = map snd (filter (\<lambda>((at, _), _). at = object) (ca_held c)) in
      c\<lparr>ca_held := filter (\<lambda>((at, _), _). at \<noteq> object) (ca_held c),
        ca_order := filter (\<lambda>slot. slot \<notin> set dropped) (ca_order c)\<rparr>)"

section \<open>The cache as a store\<close>

text \<open>A call passed down.\<close>

definition pass :: "('s \<Rightarrow> 'a \<times> 's) \<Rightarrow> 's Cached \<Rightarrow> 'a \<times> 's Cached" where
  "pass f c = (let (r, s) = f (ca_inner c) in (r, c\<lparr>ca_inner := s\<rparr>))"

definition ca_read_at :: "'s DurableStore \<Rightarrow> ObjectId \<Rightarrow> nat \<Rightarrow> 's Cached \<Rightarrow> (StoreFault + Block) \<times> 's Cached" where
  "ca_read_at ops object offset c =
     (case take_from_cache object offset c of
        (Some block, c1) \<Rightarrow> (Inr block, c1)
      | (None, c1) \<Rightarrow>
          (case pass (st_read_at ops object offset) c1 of
             (Inl e, c2) \<Rightarrow> (Inl e, c2)
           | (Inr block, c2) \<Rightarrow> (Inr block, cache_keep object offset block c2)))"

definition ca_submit :: "'s DurableStore \<Rightarrow> u64 \<Rightarrow> ObjectId \<Rightarrow> nat \<Rightarrow> nat \<Rightarrow> 's Cached \<Rightarrow> bool \<times> 's Cached" where
  "ca_submit ops handle object offset now c =
     (let key = (object, offset) in
      if map_of (ca_held c) key \<noteq> None then (True, c\<lparr>ca_ready := ca_ready c @ [(handle, object, offset)]\<rparr>)
      else case map_of (ca_waiting c) key of
        Some waiters \<Rightarrow>
          (True, c\<lparr>ca_waiting := AList.update key (waiters @ [(handle, object, offset)]) (ca_waiting c),
                   ca_joined := ca_joined c + 1\<rparr>)
      | None \<Rightarrow>
          (case pass (st_submit ops handle object offset now) c of
             (False, c1) \<Rightarrow> (False, c1)
           | (True, c1) \<Rightarrow>
               (True, c1\<lparr>ca_issued := AList.update handle key (ca_issued c1),
                         ca_waiting := AList.update key [] (ca_waiting c1)\<rparr>)))"

definition ca_poll :: "'s DurableStore \<Rightarrow> nat \<Rightarrow> 's Cached \<Rightarrow> (StoreFault + u64 \<times> Block) option \<times> 's Cached" where
  "ca_poll ops now c =
     (case ca_ready c of
        (handle, object, offset) # rest \<Rightarrow>
          (case take_from_cache object offset (c\<lparr>ca_ready := rest\<rparr>) of
             (Some block, c1) \<Rightarrow> (Some (Inr (handle, block)), c1)
           | (None, c1) \<Rightarrow>
               (case pass (st_read_at ops object offset) c1 of
                  (Inl e, c2) \<Rightarrow> (Some (Inl e), c2)
                | (Inr block, c2) \<Rightarrow> (Some (Inr (handle, block)), cache_keep object offset block c2)))
      | [] \<Rightarrow>
          (case pass (st_poll ops now) c of
             (None, c1) \<Rightarrow> (None, c1)
           | (Some (Inl e), c1) \<Rightarrow> (Some (Inl e), c1\<lparr>ca_issued := [], ca_waiting := []\<rparr>)
           | (Some (Inr (handle, block)), c1) \<Rightarrow>
               (case map_of (ca_issued c1) handle of
                  None \<Rightarrow> (Some (Inr (handle, block)), c1)
                | Some (object, offset) \<Rightarrow>
                    (let c2 = cache_keep object offset block (c1\<lparr>ca_issued := AList.delete handle (ca_issued c1)\<rparr>) in
                     (Some (Inr (handle, block)),
                      case map_of (ca_waiting c2) (object, offset) of
                        None \<Rightarrow> c2
                      | Some waiters \<Rightarrow>
                          c2\<lparr>ca_waiting := AList.delete (object, offset) (ca_waiting c2),
                             ca_ready := ca_ready c2 @ waiters\<rparr>)))))"

definition cached_stats :: "'s DurableStore \<Rightarrow> 's Cached \<Rightarrow> VolumeStats" where
  "cached_stats ops c =
     (st_stats ops (ca_inner c))\<lparr>vs_reads_cached := ca_hits c, vs_reads_joined := ca_joined c\<rparr>"

definition cached_ops :: "'s DurableStore \<Rightarrow> 's Cached DurableStore" where
  "cached_ops ops =
     \<lparr>st_submit_write = (\<lambda>handle object offset block creating now c.
        pass (st_submit_write ops handle object offset block creating now) (cache_forget object c)),
      st_submit_barrier = (\<lambda>handle now. pass (st_submit_barrier ops handle now)),
      st_poll_written = (\<lambda>now. pass (st_poll_written ops now)),
      st_writes_inflight = (\<lambda>c. st_writes_inflight ops (ca_inner c)),
      st_writes_are_queued = (\<lambda>c. st_writes_are_queued ops (ca_inner c)),
      st_stats = cached_stats ops, st_read_at = ca_read_at ops, st_submit = ca_submit ops, st_poll = ca_poll ops,
      st_inflight = (\<lambda>c. length (ca_ready c) + st_inflight ops (ca_inner c)),
      st_take_charge = pass (st_take_charge ops),
      st_submit_remove = (\<lambda>handle object now c. pass (st_submit_remove ops handle object now) (cache_forget object c)),
      st_submit_rename = (\<lambda>handle src dst now c.
        pass (st_submit_rename ops handle src dst now) (cache_forget dst (cache_forget src c))),
      st_blocks_in = (\<lambda>object. pass (st_blocks_in ops object)),
      st_exists = (\<lambda>object. pass (st_exists ops object))\<rparr>"

section \<open>Runs\<close>

datatype CacheOp = CacheRead ObjectId nat | CacheSubmit u64 ObjectId nat nat | CachePoll nat
  | CacheWrite u64 ObjectId nat Block bool nat | CacheRemove u64 ObjectId nat | CacheRename u64 ObjectId ObjectId nat

datatype CacheReply = Bytes "StoreFault + Block" | Completed "(StoreFault + u64 \<times> Block) option" | Accepted bool

definition store_do :: "'s DurableStore \<Rightarrow> CacheOp \<Rightarrow> 's \<Rightarrow> CacheReply \<times> 's" where
  "store_do ops op s =
     (case op of
        CacheRead object n \<Rightarrow> map_prod Bytes id (st_read_at ops object (n * BLOCK_BYTES) s)
      | CacheSubmit handle object n now \<Rightarrow> map_prod Accepted id (st_submit ops handle object (n * BLOCK_BYTES) now s)
      | CachePoll now \<Rightarrow> map_prod Completed id (st_poll ops now s)
      | CacheWrite handle object n block creating now \<Rightarrow>
          map_prod Accepted id (st_submit_write ops handle object (n * BLOCK_BYTES) block creating now s)
      | CacheRemove handle object now \<Rightarrow> map_prod Accepted id (st_submit_remove ops handle object now s)
      | CacheRename handle src dst now \<Rightarrow> map_prod Accepted id (st_submit_rename ops handle src dst now s))"

fun store_run :: "'s DurableStore \<Rightarrow> CacheOp list \<Rightarrow> 's \<Rightarrow> CacheReply list \<times> 's" where
  "store_run ops [] s = ([], s)"
| "store_run ops (op # rest) s =
     (let (r, s1) = store_do ops op s; (rs, s2) = store_run ops rest s1 in (r # rs, s2))"

section \<open>What a store promises\<close>

text \<open>The bytes of every object, the reads asked for and not answered, and whether a read has failed.\<close>

record Promise =
  pm_view :: View
  pm_asked :: "(u64 \<times> ObjectId \<times> nat) list"
  pm_faulted :: bool

definition promise_new :: Promise where
  "promise_new = \<lparr>pm_view = (\<lambda>_. Map.empty), pm_asked = [], pm_faulted = False\<rparr>"

text \<open>A read answers the bytes the object has. A completion answers a read that was asked for and is still unanswered,
  with the bytes its object has; no completion means every read was answered, until one has failed: a failed
  read names no handle.\<close>

definition promised :: "CacheOp \<Rightarrow> CacheReply \<Rightarrow> Promise \<Rightarrow> bool" where
  "promised op r s =
     (case op of
        CacheRead object n \<Rightarrow> r = Bytes (ok_or FaultMissing (pm_view s object n))
      | CachePoll _ \<Rightarrow>
          (case r of
             Completed None \<Rightarrow> pm_faulted s \<or> pm_asked s = []
           | Completed (Some (Inl _)) \<Rightarrow> list_ex (\<lambda>(_, object, n). pm_view s object n = None) (pm_asked s)
           | Completed (Some (Inr (handle, block))) \<Rightarrow>
               list_ex (\<lambda>(h, object, n). h = handle \<and> pm_view s object n = Some block) (pm_asked s)
           | _ \<Rightarrow> False)
      | _ \<Rightarrow> r = Accepted True)"

definition promise_next :: "CacheOp \<Rightarrow> CacheReply \<Rightarrow> Promise \<Rightarrow> Promise" where
  "promise_next op r s =
     (case op of
        CacheRead _ _ \<Rightarrow> s
      | CacheSubmit handle object n _ \<Rightarrow> s\<lparr>pm_asked := (handle, object, n) # pm_asked s\<rparr>
      | CachePoll _ \<Rightarrow>
          (case r of
             Completed (Some (Inr (handle, _))) \<Rightarrow> s\<lparr>pm_asked := filter (\<lambda>(h, _). h \<noteq> handle) (pm_asked s)\<rparr>
           | Completed (Some (Inl _)) \<Rightarrow> s\<lparr>pm_faulted := True\<rparr>
           | _ \<Rightarrow> s)
      | CacheWrite _ object n block creating _ \<Rightarrow> s\<lparr>pm_view := view_write object n block creating (pm_view s)\<rparr>
      | CacheRemove _ object _ \<Rightarrow> s\<lparr>pm_view := view_remove object (pm_view s)\<rparr>
      | CacheRename _ src dst _ \<Rightarrow> s\<lparr>pm_view := (pm_view s)(dst := pm_view s src, src := Map.empty)\<rparr>)"

fun all_promised :: "CacheOp list \<Rightarrow> CacheReply list \<Rightarrow> Promise \<Rightarrow> bool" where
  "all_promised (op # ops) (r # rs) s \<longleftrightarrow> promised op r s \<and> all_promised ops rs (promise_next op r s)"
| "all_promised ops rs s \<longleftrightarrow> ops = [] \<and> rs = []"

text \<open>What the callers keep to: objects there are, blocks after the last one, a handle of its own for every read. And what
  the cache needs of them: an object that is forgotten has nothing in the cache, or all of it.\<close>

definition forgets_whole :: "(ObjectId \<Rightarrow> bool) \<Rightarrow> 's Cached \<Rightarrow> bool" where
  "forgets_whole dropped c \<longleftrightarrow>
     list_all (\<lambda>((at, _), _). \<not> dropped at) (ca_held c) \<or> list_all (\<lambda>((at, _), _). dropped at) (ca_held c)"

definition op_suits :: "CacheOp \<Rightarrow> Promise \<Rightarrow> 's Cached \<Rightarrow> bool" where
  "op_suits op s c =
     (case op of
        CacheRead object _ \<Rightarrow> object < OBJECT_VALUES
      | CacheSubmit handle object _ _ \<Rightarrow> object < OBJECT_VALUES \<and> handle \<notin> fst ` set (pm_asked s)
      | CachePoll _ \<Rightarrow> True
      | CacheWrite _ object n _ creating _ \<Rightarrow>
          object < OBJECT_VALUES \<and> writable (pm_view s) object n creating \<and> forgets_whole ((=) object) c
      | CacheRemove _ object _ \<Rightarrow> object < OBJECT_VALUES \<and> forgets_whole ((=) object) c
      | CacheRename _ src dst _ \<Rightarrow>
          src < OBJECT_VALUES \<and> dst < OBJECT_VALUES \<and> src \<noteq> dst \<and> pm_view s src \<noteq> Map.empty
          \<and> forgets_whole (\<lambda>at. at = src \<or> at = dst) c)"

fun run_suits :: "'s DurableStore \<Rightarrow> CacheOp list \<Rightarrow> Promise \<Rightarrow> 's Cached \<Rightarrow> bool" where
  "run_suits ops [] s c \<longleftrightarrow> True"
| "run_suits ops (op # rest) s c \<longleftrightarrow>
     op_suits op s c \<and> (case store_do (cached_ops ops) op c of (r, c1) \<Rightarrow> run_suits ops rest (promise_next op r s) c1)"

section \<open>The slots\<close>

text \<open>Each slot in use is held by one block, which is the store's.\<close>

definition slots_held :: "View \<Rightarrow> 's Cached \<Rightarrow> bool" where
  "slots_held v c \<longleftrightarrow>
     length (ca_slots c) = ca_blocks c \<and> distinct (ca_order c)
     \<and> distinct (map fst (ca_held c)) \<and> distinct (map snd (ca_held c)) \<and> snd ` set (ca_held c) = set (ca_order c)
     \<and> (\<forall>((at, offset), slot)\<in>set (ca_held c). \<exists>n. offset = n * BLOCK_BYTES \<and> v at n = Some (ca_slots c ! slot))"

text \<open>The slots in use are the first ones, which is what \<open>keep\<close> counts on.\<close>

definition slots_packed :: "'s Cached \<Rightarrow> bool" where
  "slots_packed c \<longleftrightarrow> set (ca_order c) = {..<length (ca_order c)} \<and> length (ca_order c) \<le> ca_blocks c"

abbreviation slots_ok :: "View \<Rightarrow> 's Cached \<Rightarrow> bool" where
  "slots_ok v c \<equiv> slots_held v c \<and> slots_packed c"

text \<open>What the slots' operations leave alone.\<close>

definition same_reads :: "'s Cached \<Rightarrow> 's Cached \<Rightarrow> bool" where
  "same_reads c c1 \<longleftrightarrow> ca_inner c1 = ca_inner c \<and> ca_ready c1 = ca_ready c \<and> ca_issued c1 = ca_issued c
     \<and> ca_waiting c1 = ca_waiting c"

lemma update_new: "map_of xs k = None \<Longrightarrow> AList.update k v xs = xs @ [(k, v)]"
  by (induction xs) (auto split: if_splits)

lemma image_without: "inj_on f A \<Longrightarrow> f ` {x \<in> A. \<not> P x} = {y \<in> f ` A. y \<notin> f ` {x \<in> A. P x}}"
  by (auto simp: inj_on_def)

lemma held_in_order: "slots_held v c \<Longrightarrow> (k, slot) \<in> set (ca_held c) \<Longrightarrow> slot \<in> set (ca_order c)"
  by (force simp: slots_held_def)

lemma take_ok:
  assumes "slots_ok v c" "take_from_cache object (n * BLOCK_BYTES) c = (r, c1)"
  shows "slots_ok v c1" "r \<noteq> None \<Longrightarrow> r = v object n" "same_reads c c1"
proof -
  consider (miss) "map_of (ca_held c) (object, n * BLOCK_BYTES) = None"
    | (hit) slot where "((object, n * BLOCK_BYTES), slot) \<in> set (ca_held c)"
        "map_of (ca_held c) (object, n * BLOCK_BYTES) = Some slot"
    by (cases "map_of (ca_held c) (object, n * BLOCK_BYTES)") (auto dest: map_of_SomeD)
  then have "slots_ok v c1 \<and> (r \<noteq> None \<longrightarrow> r = v object n) \<and> same_reads c c1"
  proof cases
    case miss
    then show ?thesis using assms by (auto simp: take_from_cache_def same_reads_def)
  next
    case hit
    then have slot: "slot \<in> set (ca_order c)" using assms(1) held_in_order by blast
    then have len: "Suc (length (remove1 slot (ca_order c))) = length (ca_order c)"
      using length_pos_if_in_set [OF slot] by (simp add: length_remove1)
    have c1: "c1 = c\<lparr>ca_hits := ca_hits c + 1, ca_order := remove1 slot (ca_order c) @ [slot]\<rparr>" "r = Some (ca_slots c ! slot)"
      using assms(2) hit(2) slot by (simp_all add: take_from_cache_def)
    have "set (ca_order c1) = set (ca_order c)" "distinct (ca_order c1)" "length (ca_order c1) = length (ca_order c)"
      using assms(1) slot len by (auto simp: c1(1) slots_held_def)
    moreover have "r = v object n" using assms(1) hit(1) by (auto simp: c1(2) slots_held_def block_consts)
    ultimately show ?thesis using assms(1) by (simp add: c1(1) same_reads_def slots_held_def slots_packed_def)
  qed
  then show "slots_ok v c1" "r \<noteq> None \<Longrightarrow> r = v object n" "same_reads c c1" by simp_all
qed

lemma keep_in:
  assumes "slots_held v c" "slot < ca_blocks c" "slot \<notin> set (ca_order c)" "map_of (ca_held c) (object, n * BLOCK_BYTES) = None"
    "v object n = Some block"
  shows "slots_held v (c\<lparr>ca_slots := (ca_slots c)[slot := block], ca_held := ca_held c @ [((object, n * BLOCK_BYTES), slot)],
    ca_order := ca_order c @ [slot]\<rparr>)"
proof -
  have "slot \<notin> snd ` set (ca_held c)" using assms(1,3) by (simp add: slots_held_def)
  moreover have "(object, n * BLOCK_BYTES) \<notin> fst ` set (ca_held c)" using assms(4) by (simp add: map_of_eq_None_iff)
  moreover have "(k, s) \<in> set (ca_held c) \<Longrightarrow> s \<noteq> slot" for k s using calculation(1) by force
  ultimately show ?thesis using assms by (auto simp: slots_held_def nth_list_update) fastforce
qed

lemma keep_ok:
  assumes "slots_ok v c" "v object n = Some block"
  shows "slots_ok v (cache_keep object (n * BLOCK_BYTES) block c)" "same_reads c (cache_keep object (n * BLOCK_BYTES) block c)"
proof -
  show "same_reads c (cache_keep object (n * BLOCK_BYTES) block c)"
    by (simp add: cache_keep_def same_reads_def Let_def)
  show "slots_ok v (cache_keep object (n * BLOCK_BYTES) block c)"
  proof (cases "ca_blocks c = 0 \<or> map_of (ca_held c) (object, n * BLOCK_BYTES) \<noteq> None")
    case True
    then show ?thesis using assms(1) by (auto simp: cache_keep_def)
  next
    case False
    then have new: "map_of (ca_held c) (object, n * BLOCK_BYTES) = None" and blocks: "0 < ca_blocks c" by auto
    show ?thesis
    proof (cases "length (ca_order c) \<ge> ca_blocks c")
      case True
      then obtain oldest rest where order: "ca_order c = oldest # rest" using blocks by (cases "ca_order c") auto
      let ?c = "c\<lparr>ca_order := rest, ca_held := filter (\<lambda>(_, at). at \<noteq> oldest) (ca_held c)\<rparr>"
      have none: "map_of (ca_held ?c) (object, n * BLOCK_BYTES) = None" using new by (auto simp: map_of_eq_None_iff)
      from update_new [OF none, of oldest]
      have kept: "AList.update (object, n * BLOCK_BYTES) oldest (filter (\<lambda>(_, at). at \<noteq> oldest) (ca_held c)) =
          filter (\<lambda>(_, at). at \<noteq> oldest) (ca_held c) @ [((object, n * BLOCK_BYTES), oldest)]" by simp
      have eq: "cache_keep object (n * BLOCK_BYTES) block c =
          ?c\<lparr>ca_slots := (ca_slots ?c)[oldest := block], ca_held := ca_held ?c @ [((object, n * BLOCK_BYTES), oldest)],
            ca_order := ca_order ?c @ [oldest]\<rparr>"
        using True blocks new order kept by (simp add: cache_keep_def Let_def)
      have "slots_held v ?c"
        using assms(1) order by (auto simp: slots_held_def distinct_map_filter split_beta)
      moreover have "oldest < ca_blocks ?c" "oldest \<notin> set (ca_order ?c)"
        using assms(1) order by (auto simp: slots_held_def slots_packed_def)
      ultimately show ?thesis using keep_in [of v ?c] none assms order by (auto simp: eq slots_packed_def)
    next
      case False
      have eq: "cache_keep object (n * BLOCK_BYTES) block c =
          c\<lparr>ca_slots := (ca_slots c)[length (ca_order c) := block],
            ca_held := ca_held c @ [((object, n * BLOCK_BYTES), length (ca_order c))], ca_order := ca_order c @ [length (ca_order c)]\<rparr>"
        using False blocks new by (simp add: cache_keep_def update_new)
      show ?thesis using keep_in [of v c] assms new False by (auto simp: eq slots_packed_def lessThan_Suc)
    qed
  qed
qed

lemma forget_held:
  assumes "slots_held v c" "\<And>at. at \<noteq> object \<Longrightarrow> v' at = v at"
  shows "slots_held v' (cache_forget object c)" "same_reads c (cache_forget object c)"
proof -
  show "same_reads c (cache_forget object c)" by (simp add: cache_forget_def same_reads_def)
  let ?mine = "\<lambda>((at, _ :: nat), _ :: nat). at = object"
  have inj: "inj_on snd (set (ca_held c))" and order: "snd ` set (ca_held c) = set (ca_order c)"
    using assms(1) by (simp_all add: slots_held_def distinct_map)
  have held: "ca_held (cache_forget object c) = filter (\<lambda>x. \<not> ?mine x) (ca_held c)"
    by (auto simp: cache_forget_def intro: filter_cong)
  have "snd ` {x \<in> set (ca_held c). \<not> ?mine x} = {slot \<in> set (ca_order c). slot \<notin> snd ` {x \<in> set (ca_held c). ?mine x}}"
    unfolding order [symmetric] by (rule image_without [OF inj])
  then have "snd ` set (ca_held (cache_forget object c)) = set (ca_order (cache_forget object c))"
    by (simp add: held) (simp add: cache_forget_def)
  moreover have "distinct (map fst (ca_held (cache_forget object c)))" "distinct (map snd (ca_held (cache_forget object c)))"
    using assms(1) by (simp_all add: held distinct_map_filter slots_held_def)
  moreover have "\<forall>((at, offset), slot)\<in>set (ca_held (cache_forget object c)).
      \<exists>n. offset = n * BLOCK_BYTES \<and> v' at n = Some (ca_slots c ! slot)"
    using assms by (auto simp: held slots_held_def)
  moreover have "ca_slots (cache_forget object c) = ca_slots c" "ca_blocks (cache_forget object c) = ca_blocks c"
    "distinct (ca_order (cache_forget object c))"
    using assms(1) by (simp_all add: cache_forget_def slots_held_def)
  ultimately show "slots_held v' (cache_forget object c)" using assms(1) by (simp add: slots_held_def)
qed

lemma forget_none: "list_all (\<lambda>((at, _), _). at \<noteq> object) (ca_held c) \<Longrightarrow> cache_forget object c = c"
  by (simp add: cache_forget_def list_all_iff split_beta filter_id_conv filter_empty_conv)

lemma held_none: "slots_held v c \<Longrightarrow> ca_held c = [] \<Longrightarrow> slots_packed c"
  by (simp add: slots_held_def slots_packed_def)

lemma forget_ok:
  assumes "slots_ok v c" "forgets_whole ((=) object) c" "\<And>at. at \<noteq> object \<Longrightarrow> v' at = v at"
  shows "slots_ok v' (cache_forget object c)" "same_reads c (cache_forget object c)"
proof -
  note held = forget_held [where object = object and v' = v', OF _ assms(3)]
  show "same_reads c (cache_forget object c)" using held(2) assms(1) by blast
  have "slots_packed (cache_forget object c)"
    using assms(2) unfolding forgets_whole_def
  proof
    assume "list_all (\<lambda>((at, _), _). \<not> object = at) (ca_held c)"
    then have "cache_forget object c = c" by (intro forget_none) (auto simp: list_all_iff)
    then show ?thesis using assms(1) by simp
  next
    assume "list_all (\<lambda>((at, _), _). object = at) (ca_held c)"
    then have "ca_held (cache_forget object c) = []" by (auto simp: cache_forget_def list_all_iff filter_empty_conv)
    then show ?thesis using held_none held(1) assms(1) by blast
  qed
  then show "slots_ok v' (cache_forget object c)" using held(1) assms(1) by blast
qed

lemma forget_both_ok:
  assumes "slots_ok v c" "forgets_whole (\<lambda>at. at = src \<or> at = dst) c" "\<And>at. at \<noteq> src \<Longrightarrow> at \<noteq> dst \<Longrightarrow> v' at = v at"
  shows "slots_ok v' (cache_forget dst (cache_forget src c))" "same_reads c (cache_forget dst (cache_forget src c))"
proof -
  have one: "slots_held (v(src := v' src)) (cache_forget src c)" "same_reads c (cache_forget src c)"
    using forget_held [of v c src "v(src := v' src)"] assms(1) by simp_all
  have two: "slots_held v' (cache_forget dst (cache_forget src c))" "same_reads (cache_forget src c) (cache_forget dst (cache_forget src c))"
    using forget_held [OF one(1), of dst v'] assms(3) by auto
  show "same_reads c (cache_forget dst (cache_forget src c))" using one(2) two(2) by (simp add: same_reads_def)
  have "slots_packed (cache_forget dst (cache_forget src c))"
    using assms(2) unfolding forgets_whole_def
  proof
    assume a: "list_all (\<lambda>((at, _), _). \<not> (at = src \<or> at = dst)) (ca_held c)"
    then have "cache_forget src c = c" "cache_forget dst c = c" by (auto intro!: forget_none simp: list_all_iff)
    then show ?thesis using assms(1) by simp
  next
    assume "list_all (\<lambda>((at, _), _). at = src \<or> at = dst) (ca_held c)"
    then have "ca_held (cache_forget dst (cache_forget src c)) = []"
      by (auto simp: cache_forget_def list_all_iff filter_empty_conv)
    then show ?thesis using held_none two(1) by blast
  qed
  then show "slots_ok v' (cache_forget dst (cache_forget src c))" using two(1) by simp
qed


section \<open>The reads outstanding\<close>

definition to_block :: "u64 \<times> ObjectId \<times> nat \<Rightarrow> u64 \<times> ObjectId \<times> nat" where
  "to_block r = (case r of (h, object, offset) \<Rightarrow> (h, object, offset div BLOCK_BYTES))"

definition waiting_reads :: "(CacheKey \<times> (u64 \<times> ObjectId \<times> nat) list) list \<Rightarrow> (u64 \<times> ObjectId \<times> nat) multiset" where
  "waiting_reads ws = mset (concat (map snd ws))"

text \<open>The reads given to the store, those ready and those that joined one.\<close>

definition outstanding :: "(u64 \<times> ObjectId \<times> nat) list \<Rightarrow> 's Cached \<Rightarrow> (u64 \<times> ObjectId \<times> nat) multiset" where
  "outstanding reads c = mset reads + image_mset to_block (mset (ca_ready c) + waiting_reads (ca_waiting c))"

lemma waiters_update:
  "distinct (map fst ws) \<Longrightarrow> map_of ws k = Some old \<Longrightarrow> waiting_reads (AList.update k (old @ new) ws) = waiting_reads ws + mset new"
  by (induction ws) (auto simp: waiting_reads_def)

lemma waiters_new: "map_of ws k = None \<Longrightarrow> waiting_reads (AList.update k [] ws) = waiting_reads ws"
  by (simp add: update_new waiting_reads_def)

lemma waiters_delete:
  "distinct (map fst ws) \<Longrightarrow> map_of ws k = Some old \<Longrightarrow> waiting_reads ws = waiting_reads (AList.delete k ws) + mset old"
  by (induction ws) (auto simp: waiting_reads_def delete_id split: if_splits)

definition aligned :: "u64 \<times> ObjectId \<times> nat \<Rightarrow> bool" where
  "aligned r \<longleftrightarrow> (case r of (h, object, offset) \<Rightarrow> object < OBJECT_VALUES \<and> BLOCK_BYTES dvd offset)"

text \<open>A read given to the store is issued for the block it reads, if it is issued at all; a block that is waited for has a
  read issued for it.\<close>

definition issued_ok :: "(u64 \<times> ObjectId \<times> nat) list \<Rightarrow> (u64 \<rightharpoonup> CacheKey) \<Rightarrow> bool" where
  "issued_ok reads m \<longleftrightarrow>
     (\<forall>h object n. (h, object, n) \<in> set reads \<longrightarrow>
        object < OBJECT_VALUES \<and> (m h = None \<or> m h = Some (object, n * BLOCK_BYTES)))
     \<and> dom m \<subseteq> fst ` set reads"

definition waiting_ok :: "(u64 \<rightharpoonup> CacheKey) \<Rightarrow> (CacheKey \<times> (u64 \<times> ObjectId \<times> nat) list) list \<Rightarrow> bool" where
  "waiting_ok m ws \<longleftrightarrow>
     distinct (map fst ws) \<and> (\<forall>(key, owed)\<in>set ws. key \<in> ran m \<and> (\<forall>r\<in>set owed. aligned r))"

definition owed_ok :: "(u64 \<times> ObjectId \<times> nat) list \<Rightarrow> 's Cached \<Rightarrow> bool" where
  "owed_ok reads c \<longleftrightarrow>
     (\<forall>r\<in>set (ca_ready c). aligned r) \<and> issued_ok reads (map_of (ca_issued c)) \<and> waiting_ok (map_of (ca_issued c)) (ca_waiting c)"

lemma set_update_in: "x \<in> set (AList.update k v xs) \<Longrightarrow> x = (k, v) \<or> x \<in> set xs"
  by (induction xs) (auto split: if_splits)

lemma set_delete_in: "(k', v) \<in> set (AList.delete k xs) \<Longrightarrow> (k', v) \<in> set xs \<and> k' \<noteq> k"
  by (induction xs) (auto split: if_splits)

lemma issued_new:
  assumes "issued_ok reads m" "h \<notin> fst ` set reads" "object < OBJECT_VALUES"
  shows "issued_ok (reads @ [(h, object, n)]) (m(h \<mapsto> (object, n * BLOCK_BYTES)))"
  using assms unfolding issued_ok_def by (auto; force)

lemma issued_done:
  assumes "issued_ok ((h, object, n) # reads) m"
  shows "issued_ok reads (m(h := None))"
  using assms unfolding issued_ok_def by (auto; blast)

lemma waiting_join:
  assumes "waiting_ok m ws" "map_of ws key = Some owed" "aligned r"
  shows "waiting_ok m (AList.update key (owed @ [r]) ws)"
proof -
  have "key \<in> ran m" "\<forall>r\<in>set owed. aligned r" using assms(1) map_of_SomeD [OF assms(2)] by (auto simp: waiting_ok_def)
  then show ?thesis using assms(1,3) by (auto simp: waiting_ok_def distinct_update dest!: set_update_in)
qed

lemma waiting_new:
  assumes "waiting_ok m ws" "m h = None" "map_of ws key = None"
  shows "waiting_ok (m(h \<mapsto> key)) (AList.update key [] ws)"
  using assms by (auto simp: waiting_ok_def distinct_update ran_map_upd dest!: set_update_in)

lemma waiting_done:
  assumes "waiting_ok m ws" "m h = Some key"
  shows "waiting_ok (m(h := None)) (AList.delete key ws)"
proof -
  have "k \<in> ran m \<Longrightarrow> k \<noteq> key \<Longrightarrow> k \<in> ran (m(h := None))" for k
    using assms(2) by (force simp: ran_def)
  then show ?thesis using assms(1) by (auto simp: waiting_ok_def distinct_delete dest!: set_delete_in)
qed

text \<open>Reads outstanding are reads asked for, and all of them until one has failed.\<close>

definition keeps_promise :: "(u64 \<times> ObjectId \<times> nat) list \<Rightarrow> Promise \<Rightarrow> 's Cached \<Rightarrow> bool" where
  "keeps_promise reads s c \<longleftrightarrow>
     slots_ok (pm_view s) c \<and> owed_ok reads c \<and> distinct (map fst (pm_asked s))
     \<and> outstanding reads c \<subseteq># mset (pm_asked s) \<and> (pm_faulted s \<or> outstanding reads c = mset (pm_asked s))"

lemma same_reads_keep:
  assumes "same_reads c c1" 
  shows "owed_ok reads c1 = owed_ok reads c" "outstanding reads c1 = outstanding reads c"
  using assms by (simp_all add: same_reads_def owed_ok_def outstanding_def)

lemma handle_gone:
  "distinct (map fst xs) \<Longrightarrow> (h, x) \<in> set xs \<Longrightarrow> mset xs = add_mset (h, x) (mset (filter (\<lambda>(h', _). h' \<noteq> h) xs))"
proof (induction xs)
  case (Cons p xs)
  show ?case
  proof (cases "p = (h, x)")
    case True
    then have "filter (\<lambda>(h', _). h' \<noteq> h) xs = xs" using Cons.prems by (force simp: filter_id_conv)
    then show ?thesis using True by simp
  next
    case False
    then have x: "(h, x) \<in> set xs" using Cons.prems by simp
    then have "h \<in> fst ` set xs" by force
    then show ?thesis using Cons x by (cases p) auto
  qed
qed simp

lemma to_block_of [simp]: "to_block (h, object, n * BLOCK_BYTES) = (h, object, n)"
  by (simp add: to_block_def block_consts)

lemma subset_drop: "add_mset x M \<subseteq># N \<Longrightarrow> M \<subseteq># N"
  by (meson mset_subset_eq_insertD subset_mset.less_imp_le)

lemma reads_asked:
  "keeps_promise reads s c \<Longrightarrow> set reads \<subseteq> set (pm_asked s)"
  using mset_subset_eqD [of "outstanding reads c" "mset (pm_asked s)"] by (auto simp: keeps_promise_def outstanding_def)

context exact_store
begin

text \<open>Over any exact store.\<close>

lemma cached_read:
  assumes "inv (ca_inner c)" "view (ca_inner c) = pm_view s" "keeps_promise (reads (ca_inner c)) s c" "object < OBJECT_VALUES"
    and "ca_read_at ops object (n * BLOCK_BYTES) c = (r, c1)"
  shows "r = ok_or FaultMissing (pm_view s object n)" "inv (ca_inner c1)" "view (ca_inner c1) = pm_view s"
    "keeps_promise (reads (ca_inner c1)) s c1"
proof -
  obtain t c2 where take: "take_from_cache object (n * BLOCK_BYTES) c = (t, c2)" by force
  note ok = take_ok [OF _ take, of "pm_view s"]
  have slots: "slots_ok (pm_view s) c" using assms(3) by (simp add: keeps_promise_def)
  have same: "same_reads c c2" using ok(3) slots by blast
  have k2: "keeps_promise (reads (ca_inner c2)) s c2" "inv (ca_inner c2)" "view (ca_inner c2) = pm_view s"
    using assms(1-3) ok(1) slots same same_reads_keep [OF same] by (auto simp: keeps_promise_def same_reads_def)
  have "r = ok_or FaultMissing (pm_view s object n) \<and> inv (ca_inner c1) \<and> view (ca_inner c1) = pm_view s
      \<and> keeps_promise (reads (ca_inner c1)) s c1"
  proof (cases t)
    case (Some block)
    then have "pm_view s object n = Some block" using ok(2) slots by simp
    then show ?thesis using assms(5) take Some k2 by (simp add: ca_read_at_def)
  next
    case None
    obtain a s' where read: "st_read_at ops object (n * BLOCK_BYTES) (ca_inner c2) = (a, s')" by force
    note law = read_law [OF k2(2) assms(4) read]
    let ?c = "c2\<lparr>ca_inner := s'\<rparr>"
    have k: "keeps_promise (reads s') s ?c" using k2(1) law
      by (simp add: keeps_promise_def slots_held_def slots_packed_def owed_ok_def outstanding_def)
    show ?thesis
    proof (cases a)
      case (Inl e)
      then show ?thesis using assms(5) take None read law k k2(3) by (auto simp: ca_read_at_def pass_def)
    next
      case (Inr block)
      then have "pm_view s object n = Some block" using law k2(3) by (cases "pm_view s object n") auto
      then have "slots_ok (pm_view s) (cache_keep object (n * BLOCK_BYTES) block ?c)"
          and same: "same_reads ?c (cache_keep object (n * BLOCK_BYTES) block ?c)"
        using keep_ok [of "pm_view s" ?c object n block] k by (simp_all add: keeps_promise_def)
      then have "keeps_promise (reads s') s (cache_keep object (n * BLOCK_BYTES) block ?c)"
        using k same_reads_keep [OF same] by (simp add: keeps_promise_def)
      moreover have "c1 = cache_keep object (n * BLOCK_BYTES) block ?c" "r = Inr block"
        using assms(5) take None read Inr by (auto simp: ca_read_at_def pass_def)
      ultimately show ?thesis using law k2(3) Inr same by (auto simp: same_reads_def)
    qed
  qed
  then show "r = ok_or FaultMissing (pm_view s object n)" "inv (ca_inner c1)" "view (ca_inner c1) = pm_view s"
    "keeps_promise (reads (ca_inner c1)) s c1" by simp_all
qed


lemma cached_submit:
  assumes "inv (ca_inner c)" "view (ca_inner c) = pm_view s" "keeps_promise (reads (ca_inner c)) s c" "object < OBJECT_VALUES"
    "h \<notin> fst ` set (pm_asked s)" and "ca_submit ops h object (n * BLOCK_BYTES) now c = (ok, c1)"
  shows "ok \<and> inv (ca_inner c1) \<and> view (ca_inner c1) = pm_view s
    \<and> keeps_promise (reads (ca_inner c1)) (s\<lparr>pm_asked := (h, object, n) # pm_asked s\<rparr>) c1"
proof -
  let ?key = "(object, n * BLOCK_BYTES)" and ?r = "(h, object, n * BLOCK_BYTES)"
  have r: "aligned ?r" using assms(4) by (simp add: aligned_def)
  consider (held) "map_of (ca_held c) ?key \<noteq> None"
    | (joins) ws where "map_of (ca_held c) ?key = None" "map_of (ca_waiting c) ?key = Some ws"
    | (asks) "map_of (ca_held c) ?key = None" "map_of (ca_waiting c) ?key = None" by fastforce
  then show ?thesis
  proof cases
    case held
    then have c1: "c1 = c\<lparr>ca_ready := ca_ready c @ [?r]\<rparr>" "ok" using assms(6) by (auto simp: ca_submit_def Let_def)
    have "outstanding (reads (ca_inner c)) c1 = add_mset (h, object, n) (outstanding (reads (ca_inner c)) c)"
      by (simp add: c1 outstanding_def)
    then show ?thesis using assms(1-5) r
      by (auto simp: c1 keeps_promise_def slots_held_def slots_packed_def owed_ok_def)
  next
    case joins
    then have c1: "c1 = c\<lparr>ca_waiting := AList.update ?key (ws @ [?r]) (ca_waiting c), ca_joined := ca_joined c + 1\<rparr>" "ok"
      using assms(6) by (auto simp: ca_submit_def Let_def)
    have d: "distinct (map fst (ca_waiting c))" using assms(3) by (simp add: keeps_promise_def owed_ok_def waiting_ok_def)
    have "outstanding (reads (ca_inner c)) c1 = add_mset (h, object, n) (outstanding (reads (ca_inner c)) c)"
      using waiters_update [OF d joins(2), of "[?r]"] by (simp add: c1 outstanding_def)
    moreover have "owed_ok (reads (ca_inner c)) c1"
      using assms(3) waiting_join [OF _ joins(2) r] by (simp add: c1 keeps_promise_def owed_ok_def)
    ultimately show ?thesis using assms(1-5)
      by (auto simp: c1 keeps_promise_def slots_held_def slots_packed_def)
  next
    case asks
    obtain taken s' where sub: "st_submit ops h object (n * BLOCK_BYTES) now (ca_inner c) = (taken, s')" by force
    note law = submit_law [OF assms(1,4) sub]
    have c1: "c1 = c\<lparr>ca_inner := s', ca_issued := AList.update h ?key (ca_issued c), ca_waiting := AList.update ?key [] (ca_waiting c)\<rparr>" "ok"
      using assms(6) asks sub law by (auto simp: ca_submit_def pass_def Let_def)
    have new: "h \<notin> fst ` set (reads (ca_inner c))" using reads_asked [OF assms(3)] assms(5) by auto
    have "outstanding (reads s') c1 = add_mset (h, object, n) (outstanding (reads (ca_inner c)) c)"
      using law asks(2) by (simp add: c1 outstanding_def waiters_new)
    moreover have "map_of (ca_issued c) h = None"
      using assms(3) new by (auto simp: keeps_promise_def owed_ok_def issued_ok_def)
    then have "owed_ok (reads s') c1"
      using assms(3) law issued_new [OF _ new assms(4)] waiting_new [OF _ _ asks(2)]
      by (simp add: c1 keeps_promise_def owed_ok_def update_conv')
    ultimately show ?thesis using assms(1-5) law
      by (auto simp: c1 keeps_promise_def slots_held_def slots_packed_def)
  qed
qed


lemma answered_once:
  assumes "distinct (map fst (pm_asked s))" "add_mset (h, x) M \<subseteq># mset (pm_asked s)"
    "pm_faulted s \<or> add_mset (h, x) M = mset (pm_asked s)"
  defines "s' \<equiv> s\<lparr>pm_asked := filter (\<lambda>(h', _). h' \<noteq> h) (pm_asked s)\<rparr>"
  shows "(h, x) \<in> set (pm_asked s)" "distinct (map fst (pm_asked s'))" "M \<subseteq># mset (pm_asked s')"
    "pm_faulted s' \<or> M = mset (pm_asked s')"
proof -
  show x: "(h, x) \<in> set (pm_asked s)" using mset_subset_eqD [OF assms(2), of "(h, x)"] by simp
  note gone = handle_gone [OF assms(1) x]
  show "distinct (map fst (pm_asked s'))" using assms(1) by (simp add: s'_def distinct_map_filter)
  show "M \<subseteq># mset (pm_asked s')" using assms(2) unfolding gone by (simp add: s'_def)
  show "pm_faulted s' \<or> M = mset (pm_asked s')" using assms(3) unfolding gone by (auto simp: s'_def)
qed

lemma poll_ready:
  assumes "ca_ready c = (h, object, offset) # rest"
  shows "ca_poll ops now c =
     (case ca_read_at ops object offset (c\<lparr>ca_ready := rest\<rparr>) of (r, c1) \<Rightarrow> (Some (map_sum id (Pair h) r), c1))"
proof -
  obtain t c1 where take: "take_from_cache object offset (c\<lparr>ca_ready := rest\<rparr>) = (t, c1)" by force
  obtain a c2 where pass: "pass (st_read_at ops object offset) c1 = (a, c2)" by force
  show ?thesis by (cases t; cases a) (simp_all add: ca_poll_def ca_read_at_def assms take pass)
qed

lemma cached_poll:
  assumes "inv (ca_inner c)" "view (ca_inner c) = pm_view s" "keeps_promise (reads (ca_inner c)) s c"
    and "ca_poll ops now c = (r, c1)"
  defines "s' \<equiv> promise_next (CachePoll now) (Completed r) s"
  shows "promised (CachePoll now) (Completed r) s \<and> inv (ca_inner c1) \<and> view (ca_inner c1) = pm_view s
    \<and> keeps_promise (reads (ca_inner c1)) s' c1"
proof (cases "ca_ready c")
  case (Cons q rest)
  obtain h object offset where q: "q = (h, object, offset)" by (cases q)
  have "aligned q" using assms(3) Cons by (simp add: keeps_promise_def owed_ok_def)
  then obtain n where n: "offset = n * BLOCK_BYTES" "object < OBJECT_VALUES" by (auto simp: q aligned_def dvd_def mult.commute)
  let ?c = "c\<lparr>ca_ready := rest\<rparr>" and ?s = "s\<lparr>pm_asked := filter (\<lambda>(h', _). h' \<noteq> h) (pm_asked s)\<rparr>"
  obtain a where read: "ca_read_at ops object (n * BLOCK_BYTES) ?c = (a, c1)" and r: "r = Some (map_sum id (Pair h) a)"
    using assms(4) poll_ready [OF Cons [unfolded q n(1)]] by (auto split: prod.splits)
  have out: "outstanding (reads (ca_inner c)) c = add_mset (h, object, n) (outstanding (reads (ca_inner c)) ?c)"
    by (simp add: outstanding_def Cons q n)
  have s: "distinct (map fst (pm_asked s))" using assms(3) by (simp add: keeps_promise_def)
  have sub: "add_mset (h, object, n) (outstanding (reads (ca_inner c)) ?c) \<subseteq># mset (pm_asked s)"
      "pm_faulted s \<or> add_mset (h, object, n) (outstanding (reads (ca_inner c)) ?c) = mset (pm_asked s)"
    using assms(3) by (simp_all add: keeps_promise_def out)
  note once = answered_once [OF s sub]
  have rest: "slots_ok (pm_view s) ?c" "owed_ok (reads (ca_inner c)) ?c"
    using assms(3) by (simp_all add: keeps_promise_def slots_held_def slots_packed_def owed_ok_def Cons)
  note asked = once(1)
  have k: "keeps_promise (reads (ca_inner ?c)) ?s ?c" using once(2-4) rest by (simp add: keeps_promise_def)
  have "outstanding (reads (ca_inner c)) ?c \<subseteq># mset (pm_asked s)"
    using sub(1) by (rule subset_drop)
  then have kf: "keeps_promise (reads (ca_inner ?c)) (s\<lparr>pm_faulted := True\<rparr>) ?c"
    using rest s by (simp add: keeps_promise_def)
  show ?thesis
  proof (cases a)
    case (Inr block)
    have "Inr block = ok_or FaultMissing (pm_view s object n)"
      using cached_read(1) [OF _ _ k n(2) read] assms(1,2) Inr by simp
    then have "pm_view s object n = Some block" by (cases "pm_view s object n") auto
    then have "promised (CachePoll now) (Completed r) s"
      using asked by (auto simp: promised_def r Inr list_ex_iff)
    then show ?thesis using cached_read(2-4) [OF _ _ k n(2) read] assms(1,2) by (simp add: s'_def promise_next_def r Inr)
  next
    case (Inl e)
    have "Inl e = ok_or FaultMissing (pm_view s object n)"
      using cached_read(1) [OF _ _ k n(2) read] assms(1,2) Inl by simp
    then have "pm_view s object n = None" by (cases "pm_view s object n") auto
    then have "promised (CachePoll now) (Completed r) s"
      using asked by (auto simp: promised_def r Inl list_ex_iff)
    then show ?thesis using cached_read(2-4) [OF _ _ kf n(2) read] assms(1,2) by (simp add: s'_def promise_next_def r Inl)
  qed
next
  case Nil
  obtain p si where poll: "st_poll ops now (ca_inner c) = (p, si)" by force
  note law = poll_law [OF assms(1) poll]
  let ?c = "c\<lparr>ca_inner := si\<rparr>"
  have slots: "slots_ok (pm_view s) ?c" using assms(3) by (simp add: keeps_promise_def slots_held_def slots_packed_def)
  have issued: "issued_ok (reads (ca_inner c)) (map_of (ca_issued c))" and waiting: "waiting_ok (map_of (ca_issued c)) (ca_waiting c)"
    using assms(3) by (simp_all add: keeps_promise_def owed_ok_def)
  have s: "distinct (map fst (pm_asked s))" using assms(3) by (simp add: keeps_promise_def)
  show ?thesis
  proof (cases "reads (ca_inner c)")
    case Nil': Nil
    have "ca_waiting c = []" using issued waiting by (cases "ca_waiting c") (auto simp: Nil' issued_ok_def waiting_ok_def ran_def)
    then have "outstanding (reads (ca_inner c)) c = {#}" by (simp add: outstanding_def Nil Nil' waiting_reads_def)
    then have "promised (CachePoll now) (Completed None) s"
      using assms(3) by (auto simp: keeps_promise_def promised_def)
    moreover have "r = None" "c1 = ?c" using assms(4) Nil poll law Nil' by (auto simp: ca_poll_def pass_def)
    ultimately show ?thesis using assms(1-3) law slots Nil'
      by (simp add: s'_def promise_next_def keeps_promise_def owed_ok_def outstanding_def)
  next
    case (Cons q rs)
    obtain h object n where q: "q = (h, object, n)" by (cases q)
    have object: "object < OBJECT_VALUES" using issued by (auto simp: Cons q issued_ok_def)
    have p: "p = Some (map_sum id (Pair h) (ok_or FaultMissing (pm_view s object n)))" "reads si = rs"
      using law by (simp_all add: Cons q assms(2))
    have out: "outstanding (reads (ca_inner c)) c = add_mset (h, object, n) (outstanding rs ?c)"
      by (simp add: outstanding_def Cons q)
    have sub: "add_mset (h, object, n) (outstanding rs ?c) \<subseteq># mset (pm_asked s)"
        "pm_faulted s \<or> add_mset (h, object, n) (outstanding rs ?c) = mset (pm_asked s)"
      using assms(3) by (simp_all add: keeps_promise_def out)
    note once = answered_once [OF s sub]
    show ?thesis
    proof (cases "pm_view s object n")
      case None
      let ?c1 = "?c\<lparr>ca_issued := [], ca_waiting := []\<rparr>"
      have r: "r = Some (Inl FaultMissing)" "c1 = ?c1" using assms(4) Nil poll p None by (auto simp: ca_poll_def pass_def)
      have "outstanding rs ?c1 \<subseteq># outstanding rs ?c" by (simp add: outstanding_def waiting_reads_def)
      also have "\<dots> \<subseteq># mset (pm_asked s)" using sub(1) by (rule subset_drop)
      finally have "outstanding rs ?c1 \<subseteq># mset (pm_asked s)" .
      moreover have "owed_ok rs ?c1"
        using issued Nil by (auto simp: Cons owed_ok_def issued_ok_def waiting_ok_def)
      moreover have "promised (CachePoll now) (Completed r) s" using once(1) None by (auto simp: promised_def r list_ex_iff)
      ultimately show ?thesis using assms(1-3) law slots s p(2)
        by (simp add: s'_def promise_next_def r keeps_promise_def slots_held_def slots_packed_def)
    next
      case (Some block)
      have r: "r = Some (Inr (h, block))" using assms(4) Nil poll p Some
        by (auto simp: ca_poll_def pass_def Let_def split: option.splits)
      have right: "promised (CachePoll now) (Completed r) s" using once(1) Some by (auto simp: promised_def r list_ex_iff)
      have done': "owed_ok rs c1 \<and> outstanding rs c1 = outstanding rs ?c \<and> slots_ok (pm_view s) c1 \<and> ca_inner c1 = si"
      proof (cases "map_of (ca_issued c) h")
        case None
        then have "c1 = ?c" using assms(4) Nil poll p Some by (auto simp: ca_poll_def pass_def)
        then show ?thesis
          using slots issued_done [OF issued [unfolded Cons q]] waiting None fun_upd_idem [of "map_of (ca_issued c)" h None]
          by (simp add: owed_ok_def Nil)
      next
        case Some': (Some key)
        have key: "key = (object, n * BLOCK_BYTES)" using issued Some' by (auto simp: Cons q issued_ok_def)
        let ?c2 = "cache_keep object (n * BLOCK_BYTES) block (?c\<lparr>ca_issued := AList.delete h (ca_issued c)\<rparr>)"
        have slots2: "slots_ok (pm_view s) ?c2" and same: "same_reads (?c\<lparr>ca_issued := AList.delete h (ca_issued c)\<rparr>) ?c2"
          using keep_ok [of "pm_view s" "?c\<lparr>ca_issued := AList.delete h (ca_issued c)\<rparr>" object n block] slots Some
          by (simp_all add: slots_held_def slots_packed_def)
        have c2: "ca_inner ?c2 = si" "ca_ready ?c2 = []" "ca_issued ?c2 = AList.delete h (ca_issued c)" "ca_waiting ?c2 = ca_waiting c"
          using same Nil by (simp_all add: same_reads_def)
        have issued2: "issued_ok rs (map_of (ca_issued ?c2))"
          using issued_done [OF issued [unfolded Cons q]] by (simp add: c2 delete_conv')
        have waiting2: "waiting_ok (map_of (ca_issued ?c2)) (AList.delete key (ca_waiting c))"
          using waiting_done [OF waiting Some'] by (simp add: c2 delete_conv')
        have c1: "c1 = (case map_of (ca_waiting c) key of None \<Rightarrow> ?c2
            | Some waiters \<Rightarrow> ?c2\<lparr>ca_waiting := AList.delete key (ca_waiting ?c2), ca_ready := ca_ready ?c2 @ waiters\<rparr>)"
          using assms(4) Nil poll p Some Some' key c2(4) by (auto simp: ca_poll_def pass_def Let_def)
        show ?thesis
        proof (cases "map_of (ca_waiting c) key")
          case None
          then have "AList.delete key (ca_waiting c) = ca_waiting c" by (simp add: map_of_eq_None_iff)
          then show ?thesis using None slots2 c2 issued2 waiting2 Nil by (simp add: c1 owed_ok_def outstanding_def)
        next
          case (Some ws)
          have d: "distinct (map fst (ca_waiting c))" using waiting by (simp add: waiting_ok_def)
          have "\<forall>r\<in>set ws. aligned r" using waiting map_of_SomeD [OF Some] by (auto simp: waiting_ok_def)
          then show ?thesis using Some slots2 c2 issued2 waiting2 Nil waiters_delete [OF d Some]
            by (simp add: c1 owed_ok_def outstanding_def slots_held_def slots_packed_def)
        qed
      qed
      then show ?thesis using right assms(1-3) law once(2-4) p(2)
        by (simp add: s'_def promise_next_def r keeps_promise_def)
    qed
  qed
qed

text \<open>A cache its promise holds of.\<close>

definition serves :: "Promise \<Rightarrow> 's Cached \<Rightarrow> bool" where
  "serves s c \<longleftrightarrow> inv (ca_inner c) \<and> view (ca_inner c) = pm_view s \<and> keeps_promise (reads (ca_inner c)) s c"

text \<open>A call that changes an object: the object is forgotten, then the store is asked.\<close>

lemma changed_object:
  assumes "serves s c" "slots_ok v c0" "same_reads c c0"
    and "inv si" "view si = v" "reads si = reads (ca_inner c)"
  shows "serves (s\<lparr>pm_view := v\<rparr>) (c0\<lparr>ca_inner := si\<rparr>)"
  using assms by (simp add: serves_def keeps_promise_def same_reads_def slots_held_def slots_packed_def owed_ok_def outstanding_def)

lemma poll_view: "pm_view (promise_next (CachePoll now) r s) = pm_view s"
  by (simp add: promise_next_def split: CacheReply.split option.split sum.split)

lemma cached_step:
  assumes "serves s c" "op_suits op s c" "store_do (cached_ops ops) op c = (r, c1)"
  shows "promised op r s \<and> serves (promise_next op r s) c1"
proof (cases op)
  case (CacheRead object n)
  then show ?thesis
    using cached_read [of c s object n] assms
    by (auto simp: serves_def store_do_def cached_ops_def op_suits_def promised_def promise_next_def map_prod_def split: prod.splits)
next
  case (CacheSubmit h object n now)
  then show ?thesis
    using cached_submit [of c s object h n now] assms
    by (auto simp: serves_def store_do_def cached_ops_def op_suits_def promised_def promise_next_def map_prod_def split: prod.splits)
next
  case (CachePoll now)
  then show ?thesis
    using cached_poll [of c s now] assms
    by (auto simp: serves_def store_do_def cached_ops_def poll_view map_prod_def split: prod.splits)
next
  case (CacheWrite h object n block creating now)
  let ?v = "view_write object n block creating (pm_view s)"
  have suits: "object < OBJECT_VALUES" "writable (pm_view s) object n creating" "forgets_whole ((=) object) c"
    using assms(2) by (simp_all add: op_suits_def CacheWrite)
  have slots: "slots_ok ?v (cache_forget object c)" and same: "same_reads c (cache_forget object c)"
    using forget_ok [of "pm_view s" c object ?v] suits assms(1)
    by (auto simp: serves_def keeps_promise_def view_write_def)
  obtain ok si where wrote: "st_submit_write ops h object (n * BLOCK_BYTES) block creating now (ca_inner c) = (ok, si)" by force
  have law: "ok \<and> inv si \<and> view si = ?v \<and> reads si = reads (ca_inner c)"
    using write_law [OF _ suits(1) _ wrote] suits(2) assms(1) by (simp add: serves_def)
  have "r = Accepted True" "c1 = (cache_forget object c)\<lparr>ca_inner := si\<rparr>"
    using assms(3) wrote law same by (auto simp: store_do_def CacheWrite cached_ops_def pass_def same_reads_def)
  then show ?thesis using changed_object [OF assms(1) slots same] law by (simp add: promised_def promise_next_def CacheWrite)
next
  case (CacheRemove h object now)
  let ?v = "view_remove object (pm_view s)"
  have suits: "object < OBJECT_VALUES" "forgets_whole ((=) object) c"
    using assms(2) by (simp_all add: op_suits_def CacheRemove)
  have slots: "slots_ok ?v (cache_forget object c)" and same: "same_reads c (cache_forget object c)"
    using forget_ok [of "pm_view s" c object ?v] suits assms(1)
    by (auto simp: serves_def keeps_promise_def view_remove_def)
  obtain ok si where remove: "st_submit_remove ops h object now (ca_inner c) = (ok, si)" by force
  have law: "ok \<and> inv si \<and> view si = ?v \<and> reads si = reads (ca_inner c)"
    using remove_law [OF _ suits(1) remove] assms(1) by (simp add: serves_def)
  have "r = Accepted True" "c1 = (cache_forget object c)\<lparr>ca_inner := si\<rparr>"
    using assms(3) remove law same by (auto simp: store_do_def CacheRemove cached_ops_def pass_def same_reads_def)
  then show ?thesis using changed_object [OF assms(1) slots same] law by (simp add: promised_def promise_next_def CacheRemove)
next
  case (CacheRename h src dst now)
  let ?v = "(pm_view s)(dst := pm_view s src, src := Map.empty)"
  let ?c = "cache_forget dst (cache_forget src c)"
  have suits: "src < OBJECT_VALUES" "dst < OBJECT_VALUES" "src \<noteq> dst" "pm_view s src \<noteq> Map.empty"
      "forgets_whole (\<lambda>at. at = src \<or> at = dst) c"
    using assms(2) by (simp_all add: op_suits_def CacheRename)
  have slots: "slots_ok ?v ?c" and same: "same_reads c ?c"
    using forget_both_ok [of "pm_view s" c src dst ?v] suits assms(1) by (auto simp: serves_def keeps_promise_def)
  obtain ok si where rename: "st_submit_rename ops h src dst now (ca_inner c) = (ok, si)" by force
  have law: "ok \<and> inv si \<and> view si = ?v \<and> reads si = reads (ca_inner c)"
    using rename_law [OF _ suits(1-3) _ rename] suits(4) assms(1) by (simp add: serves_def)
  have "r = Accepted True" "c1 = ?c\<lparr>ca_inner := si\<rparr>"
    using assms(3) rename law same by (auto simp: store_do_def CacheRename cached_ops_def pass_def same_reads_def)
  then show ?thesis using changed_object [OF assms(1) slots same] law by (simp add: promised_def promise_next_def CacheRename)
qed

lemma cached_run:
  "serves s c \<Longrightarrow> run_suits ops es s c \<Longrightarrow> store_run (cached_ops ops) es c = (rs, c') \<Longrightarrow> all_promised es rs s"
proof (induction es arbitrary: s c rs c')
  case (Cons e es)
  obtain r c1 where do: "store_do (cached_ops ops) e c = (r, c1)" by force
  obtain rs1 c2 where run: "store_run (cached_ops ops) es c1 = (rs1, c2)" by force
  note step = cached_step [OF Cons.prems(1) _ do]
  show ?case using Cons.IH [OF _ _ run] step Cons.prems do run by auto
qed auto

lemma new_serves:
  assumes "inv store" "view store = (\<lambda>_. Map.empty)" "reads store = []"
  shows "serves promise_new (cached_new store blocks)"
  using assms by (simp add: serves_def keeps_promise_def promise_new_def cached_new_def slots_held_def slots_packed_def
      owed_ok_def issued_ok_def waiting_ok_def outstanding_def waiting_reads_def)

end

section \<open>What it answers\<close>

text \<open>Over the store in memory.\<close>

lemma memory_store_empty: "store_wf memory_store" "memory_view memory_store = (\<lambda>_. Map.empty)" "memory_reads memory_store = []"
  by (auto simp: store_wf_def memory_store_def memory_view_def memory_reads_def fun_eq_iff)

text \<open>C21: the memory store behind the cache keeps a store's promise: for every size of cache and every run whose forgotten
  objects have nothing in it or all of it, each read answers the bytes its object has, each completion answers a read that
  was asked for and not answered before with the bytes its object has, and no read is lost: when no completion is left,
  every read asked for was answered, the ones that joined another's read too. A read that failed is the exception, since
  it names no handle.\<close>

theorem cache_keeps_the_stores_promise:
  assumes "run_suits memory_ops es promise_new (cached_new memory_store blocks)"
    and "store_run (cached_ops memory_ops) es (cached_new memory_store blocks) = (rs, c)"
  shows "all_promised es rs promise_new"
  by (rule memory.cached_run [OF memory.new_serves [OF memory_store_empty] assms])

section \<open>Where it hands out another block\<close>

text \<open>Three objects of one block each, in a cache of two blocks.\<close>

definition three_objects :: "CacheOp list" where
  "three_objects = [CacheWrite 1 0 0 [10] True 0, CacheWrite 2 1 0 [11] True 0, CacheWrite 3 2 0 [12] True 0]"

definition joining_run :: "CacheOp list" where
  "joining_run = [CacheWrite 1 0 0 [10] True 0, CacheSubmit 5 0 0 0, CacheSubmit 6 0 0 0, CachePoll 0, CachePoll 0, CachePoll 0]"

definition stale_run :: "CacheOp list" where
  "stale_run = three_objects @ [CacheRead 0 0, CacheRead 1 0, CacheRemove 4 0 0, CacheRead 2 0, CacheRead 1 0]"

text \<open>The runs below only create objects; a cache of two blocks with any bytes in them.\<close>

definition op_plain :: "CacheOp \<Rightarrow> Promise \<Rightarrow> 's Cached \<Rightarrow> bool" where
  "op_plain op s c =
     (case op of
        CacheRead object _ \<Rightarrow> object < OBJECT_VALUES
      | CacheSubmit handle object _ _ \<Rightarrow> object < OBJECT_VALUES \<and> handle \<notin> fst ` set (pm_asked s)
      | CachePoll _ \<Rightarrow> True
      | CacheWrite _ object n _ creating _ \<Rightarrow> object < OBJECT_VALUES \<and> creating \<and> forgets_whole ((=) object) c
      | _ \<Rightarrow> False)"

fun run_plain :: "'s DurableStore \<Rightarrow> CacheOp list \<Rightarrow> Promise \<Rightarrow> 's Cached \<Rightarrow> bool" where
  "run_plain ops [] s c \<longleftrightarrow> True"
| "run_plain ops (op # rest) s c \<longleftrightarrow>
     op_plain op s c \<and> (case store_do (cached_ops ops) op c of (r, c1) \<Rightarrow> run_plain ops rest (promise_next op r s) c1)"

lemma run_plain_suits: "run_plain ops es s c \<Longrightarrow> run_suits ops es s c"
  by (induction es arbitrary: s c) (auto simp: op_plain_def op_suits_def writable_def split: CacheOp.splits)

text \<open>Only three objects are touched; the others are left as they are.\<close>

definition store_of_three :: "SegmentFile option list \<Rightarrow> MemoryStore" where
  "store_of_three others =
     \<lparr>mst_objects = None # None # None # others, mst_submitted = [], mst_written = [], mst_stats = stats_default\<rparr>"

definition cache_of_two :: "SegmentFile option list \<Rightarrow> Block \<Rightarrow> Block \<Rightarrow> MemoryStore Cached" where
  "cache_of_two others a b =
     \<lparr>ca_inner = store_of_three others, ca_slots = [a, b], ca_held = [], ca_order = [], ca_blocks = 2, ca_ready = [],
      ca_issued = [], ca_waiting = [], ca_hits = 0, ca_joined = 0\<rparr>"

lemma store_of_three: "memory_store = store_of_three (replicate 63 None)"
  by (simp add: memory_store_def store_of_three_def OBJECT_VALUES_def SEGMENT_VALUES_def SEGMENT_BITS_def eval_nat_numeral)

lemma cache_of_two: "cached_new memory_store 2 = cache_of_two (replicate 63 None) block_zeroed block_zeroed"
  by (simp add: cached_new_def cache_of_two_def store_of_three eval_nat_numeral)

lemma memory_calls:
  "st_submit_write memory_ops = mem_submit_write" "st_read_at memory_ops = mem_read_at" "st_submit memory_ops = mem_submit"
  "st_poll memory_ops = mem_poll" "st_submit_remove memory_ops = mem_submit_remove"
  by (simp_all add: memory_ops_def)

lemma cached_calls:
  "st_submit_write (cached_ops ops) handle object offset block creating now c =
     pass (st_submit_write ops handle object offset block creating now) (cache_forget object c)"
  "st_read_at (cached_ops ops) = ca_read_at ops" "st_submit (cached_ops ops) = ca_submit ops" "st_poll (cached_ops ops) = ca_poll ops"
  "st_submit_remove (cached_ops ops) handle object now c = pass (st_submit_remove ops handle object now) (cache_forget object c)"
  by (simp_all add: cached_ops_def)

lemmas run_simps = memory_calls cached_calls store_do_def mem_submit_write_def open_with_def answer_written_def mem_read_at_def
  read_block_def block_at_def sf_at_def mem_submit_def mem_poll_def mem_submit_remove_def ca_read_at_def ca_submit_def
  ca_poll_def pass_def take_from_cache_def
  cache_keep_def cache_forget_def store_of_three_def cache_of_two_def three_objects_def joining_run_def
  stale_run_def Let_def block_consts

lemma cache_of_two_runs:
  "run_plain memory_ops joining_run promise_new (cache_of_two others a b)"
  "fst (store_run (cached_ops memory_ops) joining_run (cache_of_two others a b)) =
     [Accepted True, Accepted True, Accepted True, Completed (Some (Inr (5, [10]))), Completed (Some (Inr (6, [10]))),
      Completed None]"
  "last (fst (store_run (cached_ops memory_ops) stale_run (cache_of_two others a b))) = Bytes (Inr [12])"
  "last (fst (store_run memory_ops stale_run (store_of_three others))) = Bytes (Inr [11])"
  by (simp_all add: run_simps op_plain_def promise_next_def promise_new_def forgets_whole_def OBJECT_VALUES_def
      SEGMENT_VALUES_def SEGMENT_BITS_def del: set_map set_filter)

theorem cache_keeps_the_stores_promise_witness:
  "all_promised joining_run
     [Accepted True, Accepted True, Accepted True, Completed (Some (Inr (5, [10]))), Completed (Some (Inr (6, [10]))),
      Completed None]
     promise_new"
  using cache_keeps_the_stores_promise [OF run_plain_suits, of joining_run 2] cache_of_two_runs(1,2) [of "replicate 63 None" block_zeroed block_zeroed]
  by (metis cache_of_two prod.collapse)

text \<open>The cache hands out another object's bytes. Forgetting an object frees its slots, and the next block kept takes
  the slot numbered by how many are in use, which another block may hold: after blocks of objects 0 and 1 were read,
  object 0 removed and object 2 read, a read of object 1 through the cache answers object 2's bytes, where the store
  itself answers object 1's.\<close>

lemma cache_hands_out_another_block:
  "last (fst (store_run (cached_ops memory_ops) stale_run (cached_new memory_store 2))) = Bytes (Inr [12])
   \<and> last (fst (store_run memory_ops stale_run memory_store)) = Bytes (Inr [11])"
  unfolding cache_of_two unfolding store_of_three by (intro conjI cache_of_two_runs(3,4))

end
