(* ===== verification/Snapshot_Stream.thy ===== *)
theory Snapshot_Stream
  imports Engine
begin

text \<open>
  The snapshot stream (\<open>pending/src/snapshot.rs\<close>): the index and the group totals as records of thirty-two bytes,
  written a chunk at a time while the table goes on changing, and read back in chunks into a table of the same size. The
  lemmas show that the stream is of one instant and that reading it gives that instant back.
\<close>

section \<open>The format\<close>

definition SNAPSHOT_RECORD :: nat where "SNAPSHOT_RECORD = 32"
definition SNAPSHOT_HEADER :: nat where "SNAPSHOT_HEADER = 2"
definition SNAPSHOT_MAGIC :: u64 where "SNAPSHOT_MAGIC = 0x50415f534e415031"
definition SNAPSHOT_VERSION :: u32 where "SNAPSHOT_VERSION = 4"

lemmas snapshot_consts = SNAPSHOT_RECORD_def SNAPSHOT_HEADER_def

datatype NotASnapshot = Unrecognised | VersionUnknown u32 | BucketsDiffer (theirs: u64) (ours: u64) | Malformed | Unreadable

section \<open>Writing\<close>

record SnapshotWriter =
  sn_coverage :: ApplyIndex
  sn_groups_reflect :: ApplyIndex
  sn_groups :: "(BudgetGroup \<times> BudgetState) list"
  sn_buckets :: nat
  sn_at :: nat

text \<open>The groups in the order of their ids.\<close>

definition snapshot_writer :: "nat \<Rightarrow> (BudgetGroup \<times> BudgetState) list \<Rightarrow> ApplyIndex \<Rightarrow> ApplyIndex \<Rightarrow> SnapshotWriter" where
  "snapshot_writer buckets budgets covered groups_reflect =
     \<lparr>sn_coverage = covered, sn_groups_reflect = groups_reflect, sn_groups = sort_key fst budgets, sn_buckets = buckets,
      sn_at = 0\<rparr>"

definition snapshot_records :: "SnapshotWriter \<Rightarrow> nat" where
  "snapshot_records w = SNAPSHOT_HEADER + sn_buckets w + length (sn_groups w)"

definition snapshot_bytes :: "SnapshotWriter \<Rightarrow> nat" where
  "snapshot_bytes w = snapshot_records w * SNAPSHOT_RECORD"

definition writer_complete :: "SnapshotWriter \<Rightarrow> bool" where
  "writer_complete w \<longleftrightarrow> sn_at w = snapshot_records w"

definition zeros :: "nat \<Rightarrow> u8 list" where
  "zeros n = replicate n 0"

text \<open>The four kinds of record.\<close>

definition header_record :: "SnapshotWriter \<Rightarrow> u8 list" where
  "header_record w =
     to_le_bytes 8 SNAPSHOT_MAGIC @ to_le_bytes 4 SNAPSHOT_VERSION @ to_le_bytes 8 (word_of_nat (sn_buckets w) :: u64)
     @ to_le_bytes 4 (word_of_nat (length (sn_groups w)) :: u32) @ to_le_bytes 8 (word_of_nat (sn_coverage w) :: u64)"

definition reflect_record :: "SnapshotWriter \<Rightarrow> u8 list" where
  "reflect_record w = to_le_bytes 8 (word_of_nat (sn_groups_reflect w) :: u64) @ zeros 24"

definition bucket_record :: "Slot list \<Rightarrow> u8 list" where
  "bucket_record words = concat (map (to_le_bytes 8) words)"

definition group_record :: "BudgetGroup \<times> BudgetState \<Rightarrow> u8 list" where
  "group_record g = to_le_bytes 16 (fst g) @ amount_bytes (bs_remaining (snd g)) @ to_le_bytes 4 (bs_members (snd g)) @ zeros 4"

text \<open>A slot whose record is not on a sealed block is written out empty.\<close>

definition slot_kept :: "'s RecordLog \<Rightarrow> Slot \<Rightarrow> Slot" where
  "slot_kept records word = (if word \<noteq> 0 \<and> is_durable records (address_of word) then word else 0)"

definition write_one :: "SnapshotWriter \<Rightarrow> HoldTable \<Rightarrow> 's RecordLog \<Rightarrow> u8 list option \<times> HoldTable" where
  "write_one w index records =
     (if sn_at w = 0 then (Some (header_record w), index)
      else if sn_at w = 1 then (Some (reflect_record w), index)
      else if sn_at w < SNAPSHOT_HEADER + sn_buckets w then
        (case bucket_for_snapshot (sn_at w - SNAPSHOT_HEADER) index of
           (None, index1) \<Rightarrow> (None, index1)
         | (Some words, index1) \<Rightarrow> (Some (bucket_record (map (slot_kept records) words)), index1))
      else
        let at = sn_at w - sn_buckets w - SNAPSHOT_HEADER in
        (if at < length (sn_groups w) then Some (group_record (sn_groups w ! at)) else None, index))"

fun write_records :: "nat \<Rightarrow> SnapshotWriter \<Rightarrow> HoldTable \<Rightarrow> 's RecordLog \<Rightarrow> u8 list \<times> SnapshotWriter \<times> HoldTable" where
  "write_records 0 w index records = ([], w, index)"
| "write_records (Suc n) w index records =
     (case write_one w index records of
        (None, index1) \<Rightarrow> ([], w, index1)
      | (Some record, index1) \<Rightarrow>
          (case write_records n (w\<lparr>sn_at := sn_at w + 1\<rparr>) index1 records of
             (bytes, w1, index2) \<Rightarrow> (record @ bytes, w1, index2)))"

text \<open>As many whole records as fit into the caller's buffer.\<close>

definition next_chunk :: "SnapshotWriter \<Rightarrow> nat \<Rightarrow> HoldTable \<Rightarrow> 's RecordLog \<Rightarrow> u8 list \<times> SnapshotWriter \<times> HoldTable" where
  "next_chunk w room index records = write_records (room div SNAPSHOT_RECORD) w index records"

text \<open>The engine's side.\<close>

definition engine_begin_snapshot :: "'s PendingEngine \<Rightarrow> SnapshotWriter \<times> 's PendingEngine" where
  "engine_begin_snapshot e0 =
     (let e = e0\<lparr>en_index := begin_snapshot (en_index e0)\<rparr> in
      (snapshot_writer (length (ht_buckets (en_index e))) (en_budgets e) (coverage e) (en_applied_through e), e))"

definition engine_next_chunk :: "SnapshotWriter \<Rightarrow> nat \<Rightarrow> 's PendingEngine \<Rightarrow> u8 list \<times> SnapshotWriter \<times> 's PendingEngine" where
  "engine_next_chunk w room e =
     (case next_chunk w room (en_index e) (en_records e) of
        (bytes, w1, index) \<Rightarrow>
          (bytes, w1, e\<lparr>en_index := (if writer_complete w1 then end_snapshot index else index)\<rparr>))"

definition engine_abandon_snapshot :: "'s PendingEngine \<Rightarrow> 's PendingEngine" where
  "engine_abandon_snapshot e = e\<lparr>en_index := end_snapshot (en_index e)\<rparr>"

section \<open>Reading\<close>

record SnapshotReader =
  sr_buckets :: u64
  sr_groups_expected :: nat
  sr_coverage :: ApplyIndex
  sr_groups_reflect :: ApplyIndex
  sr_at :: nat
  sr_groups :: "(BudgetGroup \<times> BudgetState) list"

definition snapshot_reader :: SnapshotReader where
  "snapshot_reader =
     \<lparr>sr_buckets = 0, sr_groups_expected = 0, sr_coverage = 0, sr_groups_reflect = 0, sr_at = 0, sr_groups = []\<rparr>"

definition reader_complete :: "SnapshotReader \<Rightarrow> bool" where
  "reader_complete r \<longleftrightarrow> sr_at r = SNAPSHOT_HEADER + unat (sr_buckets r) + sr_groups_expected r"

definition take_header :: "u8 list \<Rightarrow> SnapshotReader \<Rightarrow> HoldTable \<Rightarrow> (NotASnapshot + unit) \<times> SnapshotReader" where
  "take_header record r index =
     (let version = from_le_bytes (slice_at 8 4 record) in
      if from_le_bytes (slice_at 0 8 record) \<noteq> SNAPSHOT_MAGIC then (Inl Unrecognised, r)
      else if version \<noteq> SNAPSHOT_VERSION then (Inl (VersionUnknown version), r)
      else
        let r1 = r\<lparr>sr_buckets := from_le_bytes (slice_at 12 8 record),
                   sr_groups_expected := unat (from_le_bytes (slice_at 20 4 record) :: u32),
                   sr_coverage := unat (from_le_bytes (slice_at 24 8 record) :: u64)\<rparr>;
            ours = word_of_nat (length (ht_buckets index)) in
        (if sr_buckets r1 \<noteq> ours then Inl (BucketsDiffer (sr_buckets r1) ours) else Inr (), r1))"

definition words_in :: "u8 list \<Rightarrow> Slot list" where
  "words_in record = map (\<lambda>way. from_le_bytes (slice_at (way * 8) 8 record)) [0..<WAYS]"

definition take_one :: "u8 list \<Rightarrow> SnapshotReader \<Rightarrow> HoldTable \<Rightarrow> (NotASnapshot + unit) \<times> SnapshotReader \<times> HoldTable" where
  "take_one record r index =
     (if sr_at r = 0 then (case take_header record r index of (result, r1) \<Rightarrow> (result, r1, index))
      else if sr_at r = 1 then (Inr (), r\<lparr>sr_groups_reflect := unat (from_le_bytes (slice_at 0 8 record) :: u64)\<rparr>, index)
      else if sr_at r < SNAPSHOT_HEADER + unat (sr_buckets r) then
        (case restore_bucket (sr_at r - SNAPSHOT_HEADER) (words_in record) index of
           (ok, index1) \<Rightarrow> (if ok then Inr () else Inl Malformed, r, index1))
      else
        (Inr (), r\<lparr>sr_groups := AList.update (from_le_bytes (slice_at 0 16 record))
             \<lparr>bs_members = from_le_bytes (slice_at 24 4 record), bs_remaining = amount_from (slice_at 16 8 record)\<rparr>
             (sr_groups r)\<rparr>, index))"

fun take_records :: "u8 list list \<Rightarrow> SnapshotReader \<Rightarrow> HoldTable \<Rightarrow> (NotASnapshot + unit) \<times> SnapshotReader \<times> HoldTable" where
  "take_records [] r index = (Inr (), r, index)"
| "take_records (record # records) r index =
     (if reader_complete r then
        if list_ex (\<lambda>byte. byte \<noteq> 0) record then (Inl Malformed, r, index) else take_records records r index
      else
        case take_one record r index of
          (Inl e, r1, index1) \<Rightarrow> (Inl e, r1, index1)
        | (Inr _, r1, index1) \<Rightarrow> take_records records (r1\<lparr>sr_at := sr_at r1 + 1\<rparr>) index1)"

definition chunks_exact :: "nat \<Rightarrow> 'a list \<Rightarrow> 'a list list" where
  "chunks_exact width xs = map (\<lambda>i. slice_at (i * width) width xs) [0..<length xs div width]"

definition take_chunk :: "u8 list \<Rightarrow> SnapshotReader \<Rightarrow> HoldTable \<Rightarrow> (NotASnapshot + unit) \<times> SnapshotReader \<times> HoldTable" where
  "take_chunk bytes r index =
     (if length bytes mod SNAPSHOT_RECORD \<noteq> 0 then (Inl Malformed, r, index)
      else take_records (chunks_exact SNAPSHOT_RECORD bytes) r index)"

text \<open>Chunk after chunk, until one is refused.\<close>

fun take_chunks :: "u8 list list \<Rightarrow> SnapshotReader \<Rightarrow> HoldTable \<Rightarrow> (NotASnapshot + unit) \<times> SnapshotReader \<times> HoldTable" where
  "take_chunks [] r index = (Inr (), r, index)"
| "take_chunks (chunk # chunks) r index =
     (case take_chunk chunk r index of
        (Inl e, r1, index1) \<Rightarrow> (Inl e, r1, index1)
      | (Inr _, r1, index1) \<Rightarrow> take_chunks chunks r1 index1)"

section \<open>Records of thirty-two bytes\<close>

lemma record_lengths:
  "length (header_record w) = 32" "length (reflect_record w) = 32" "length (group_record g) = 32"
  by (simp_all add: header_record_def reflect_record_def group_record_def amount_bytes_def zeros_def)

lemma bucket_record_length: "length words = WAYS \<Longrightarrow> length (bucket_record words) = 32"
  by (simp add: bucket_record_def length_concat comp_def sum_list_triv WAYS_def)

lemma chunks_exact_Cons:
  assumes "length r = width" "0 < width"
  shows "chunks_exact width (r @ xs) = r # chunks_exact width xs"
proof -
  have "length (r @ xs) div width = Suc (length xs div width)"
    using assms div_add_self1 [of width "length xs"] by simp
  moreover have "slice_at (Suc i * width) width (r @ xs) = slice_at (i * width) width xs" for i
    using assms by (simp add: slice_at_def)
  ultimately show ?thesis
    using assms by (simp add: chunks_exact_def upt_conv_Cons slice_head del: upt_Suc)
      (simp add: map_Suc_upt [symmetric] del: upt_Suc)
qed

lemma chunks_exact_append:
  assumes "length xs mod width = 0" "0 < width"
  shows "chunks_exact width (xs @ ys) = chunks_exact width xs @ chunks_exact width ys"
  using assms(1)
proof (induction "length xs div width" arbitrary: xs)
  case 0
  then have "xs = []" using assms(2) by (auto simp: div_eq_0_iff)
  then show ?case by (simp add: chunks_exact_def)
next
  case (Suc n)
  then have w: "width \<le> length xs" using assms(2) by (metis div_less nat.distinct(1) not_le)
  let ?r = "take width xs" and ?rest = "drop width xs"
  have "length ?rest mod width = 0" "length ?rest div width = n"
    using Suc w assms(2) by (auto simp: le_mod_geq le_div_geq)
  then have "chunks_exact width (?rest @ ys) = chunks_exact width ?rest @ chunks_exact width ys" using Suc(1) by simp
  then show ?case
    using chunks_exact_Cons [of ?r width "?rest @ ys"] chunks_exact_Cons [of ?r width ?rest] w assms(2)
    by (simp flip: append_assoc)
qed

lemma chunks_exact_concat:
  "(\<And>r. r \<in> set rs \<Longrightarrow> length r = width) \<Longrightarrow> 0 < width \<Longrightarrow> chunks_exact width (concat rs) = rs"
  by (induction rs) (simp_all add: chunks_exact_Cons, simp add: chunks_exact_def)

text \<open>However the stream is cut into chunks, the reader takes the same records.\<close>

lemma take_records_append:
  "take_records (xs @ ys) r index =
     (case take_records xs r index of (Inl e, r1, i1) \<Rightarrow> (Inl e, r1, i1) | (Inr _, r1, i1) \<Rightarrow> take_records ys r1 i1)"
  by (induction xs r index rule: take_records.induct) (auto split: prod.splits sum.splits)

lemma take_chunks_is_take_records:
  assumes "\<And>c. c \<in> set chunks \<Longrightarrow> length c mod SNAPSHOT_RECORD = 0"
  shows "take_chunks chunks r index = take_records (chunks_exact SNAPSHOT_RECORD (concat chunks)) r index"
  using assms
proof (induction chunks arbitrary: r index)
  case Nil
  then show ?case by (simp add: chunks_exact_def)
next
  case (Cons c chunks)
  have "chunks_exact SNAPSHOT_RECORD (c @ concat chunks) = chunks_exact SNAPSHOT_RECORD c @ chunks_exact SNAPSHOT_RECORD (concat chunks)"
    using Cons.prems [of c] by (intro chunks_exact_append) (simp_all add: snapshot_consts)
  then show ?case using Cons by (auto simp: take_chunk_def take_records_append split: prod.splits sum.splits)
qed


section \<open>What is written\<close>

text \<open>Chunks of any size, between them any changes of the table, and any state of the log among \<open>logs\<close> at each.\<close>

inductive snapshot_writing :: "Hasher \<Rightarrow> 's RecordLog set \<Rightarrow> SnapshotWriter \<Rightarrow> HoldTable \<Rightarrow> u8 list \<Rightarrow> SnapshotWriter \<Rightarrow> HoldTable \<Rightarrow> bool"
  for hs logs w0 t0 where
  writing_begins: "snapshot_writing hs logs w0 t0 [] w0 (begin_snapshot t0)"
| table_changes: "snapshot_writing hs logs w0 t0 out w t \<Longrightarrow> table_step hs t t' \<Longrightarrow> snapshot_writing hs logs w0 t0 out w t'"
| chunk_written: "snapshot_writing hs logs w0 t0 out w t \<Longrightarrow> l \<in> logs \<Longrightarrow> next_chunk w room t l = (bytes, w', t') \<Longrightarrow>
    snapshot_writing hs logs w0 t0 (out @ bytes) w' t'"

text \<open>What a slot of the table became in the stream: itself if its record was durable all the while, empty if it was never.\<close>

definition slot_carried :: "'s RecordLog set \<Rightarrow> Slot \<Rightarrow> Slot \<Rightarrow> bool" where
  "slot_carried logs word word' \<longleftrightarrow> (\<exists>l\<in>logs. word' = slot_kept l word)"

definition carried :: "'s RecordLog set \<Rightarrow> Slot list \<Rightarrow> Slot list \<Rightarrow> bool" where
  "carried logs = list_all2 (slot_carried logs)"

text \<open>The records of a stream, up to the one the writer is at.\<close>

definition stream_so_far :: "SnapshotWriter \<Rightarrow> Slot list list \<Rightarrow> u8 list list" where
  "stream_so_far w kept =
     take (sn_at w) [header_record w, reflect_record w] @ map bucket_record kept
     @ map group_record (take (sn_at w - SNAPSHOT_HEADER - sn_buckets w) (sn_groups w))"

definition writer_ok :: "'s RecordLog set \<Rightarrow> Slot list list \<Rightarrow> SnapshotWriter \<Rightarrow> Slot list list \<Rightarrow> HoldTable \<Rightarrow> bool" where
  "writer_ok logs orig w kept t \<longleftrightarrow>
     sn_buckets w = length orig \<and> sn_at w \<le> snapshot_records w
     \<and> length kept = min (sn_at w - SNAPSHOT_HEADER) (length orig)
     \<and> list_all2 (carried logs) (take (length kept) orig) kept
     \<and> (\<forall>ws\<in>set orig. length ws = WAYS) \<and> stable orig (length kept) t \<and> table_shape t"

lemma writer_ok_counts:
  assumes "writer_ok logs orig w kept t"
  shows "sn_buckets w = length orig" "sn_at w \<le> 2 + length orig + length (sn_groups w)" "length kept = min (sn_at w - 2) (length orig)"
  using assms by (simp_all add: writer_ok_def snapshot_records_def snapshot_consts)

lemma writer_ok_table:
  assumes "writer_ok logs orig w kept t"
  shows "list_all2 (carried logs) (take (length kept) orig) kept" "\<forall>ws\<in>set orig. length ws = WAYS"
    "stable orig (length kept) t" "table_shape t"
  using assms unfolding writer_ok_def by blast+

lemma carried_ways:
  "list_all2 (carried logs) orig kept \<Longrightarrow> \<forall>ws\<in>set orig. length ws = WAYS \<Longrightarrow> \<forall>ws\<in>set kept. length ws = WAYS"
  by (induction rule: list_all2_induct) (auto simp: carried_def dest: list_all2_lengthD)

lemma kept_carried: "l \<in> logs \<Longrightarrow> carried logs ws (map (slot_kept l) ws)"
  by (auto simp: carried_def slot_carried_def list_all2_map2 intro!: list.rel_refl)

lemma record_fields [simp]:
  "header_record (w\<lparr>sn_at := n\<rparr>) = header_record w" "reflect_record (w\<lparr>sn_at := n\<rparr>) = reflect_record w"
  by (simp_all add: header_record_def reflect_record_def)

text \<open>One record.\<close>

lemma write_one_ok:
  assumes "writer_ok logs orig w kept t" "l \<in> logs" "write_one w t l = (written, t')"
  shows "case written of
      None \<Rightarrow> t' = t
    | Some record \<Rightarrow> \<exists>kept'. writer_ok logs orig (w\<lparr>sn_at := sn_at w + 1\<rparr>) kept' t'
        \<and> stream_so_far (w\<lparr>sn_at := sn_at w + 1\<rparr>) kept' = stream_so_far w kept @ [record]"
proof -
  note w = writer_ok_counts [OF assms(1)]
  consider (head) "sn_at w = 0" | (reflect) "sn_at w = 1" | (bucket) "2 \<le> sn_at w" "sn_at w < 2 + length orig"
    | (group) "2 + length orig \<le> sn_at w" by linarith
  then show ?thesis
  proof cases
    case head
    then have "written = Some (header_record w)" "t' = t" using assms(3) by (simp_all add: write_one_def)
    then show ?thesis using head assms(1)
      by (auto simp: writer_ok_def stream_so_far_def snapshot_consts snapshot_records_def intro!: exI [of _ "[]"])
  next
    case reflect
    then have "written = Some (reflect_record w)" "t' = t" using assms(3) by (simp_all add: write_one_def)
    then show ?thesis using reflect assms(1)
      by (auto simp: writer_ok_def stream_so_far_def snapshot_consts snapshot_records_def intro!: exI [of _ "[]"])
  next
    case bucket
    let ?b = "length kept"
    have b: "?b = sn_at w - 2" "?b < length orig" using w bucket by auto
    note before = writer_ok_table(1) [OF assms(1)] and st = writer_ok_table(3) [OF assms(1)] and sh = writer_ok_table(4) [OF assms(1)]
    note read = stable_next [OF st b(2)]
    obtain t1 where rd: "bucket_for_snapshot ?b t = (Some (orig ! ?b), t1)" using read by (metis prod.collapse)
    have written: "written = Some (bucket_record (map (slot_kept l) (orig ! ?b)))" "t' = t1"
      using assms(3) bucket rd b w(1) by (auto simp: write_one_def snapshot_consts)
    have "table_shape t1" using sh rd by (auto simp: bucket_for_snapshot_def table_shape_def split: option.splits if_splits)
    moreover have "list_all2 (carried logs) (take (Suc ?b) orig) (kept @ [map (slot_kept l) (orig ! ?b)])"
      using before kept_carried [OF assms(2)] unfolding take_Suc_conv_app_nth [OF b(2)]
      by (intro list_all2_appendI) simp_all
    ultimately have "writer_ok logs orig (w\<lparr>sn_at := sn_at w + 1\<rparr>) (kept @ [map (slot_kept l) (orig ! ?b)]) t1"
      using assms(1) read rd b bucket by (auto simp: writer_ok_def snapshot_consts snapshot_records_def)
    moreover have "stream_so_far (w\<lparr>sn_at := sn_at w + 1\<rparr>) (kept @ [map (slot_kept l) (orig ! ?b)]) =
        stream_so_far w kept @ [bucket_record (map (slot_kept l) (orig ! ?b))]"
      using bucket w(1) by (simp add: stream_so_far_def snapshot_consts)
    ultimately show ?thesis by (auto simp: written)
  next
    case group
    let ?g = "sn_at w - length orig - 2"
    show ?thesis
    proof (cases "?g < length (sn_groups w)")
      case True
      then have written: "written = Some (group_record (sn_groups w ! ?g))" "t' = t"
        using assms(3) group w(1) by (auto simp: write_one_def snapshot_consts)
      have "Suc (sn_at w) - 2 - length orig = Suc ?g" "sn_at w - 2 - length orig = ?g" using group by auto
      then have "stream_so_far (w\<lparr>sn_at := sn_at w + 1\<rparr>) kept = stream_so_far w kept @ [group_record (sn_groups w ! ?g)]"
        using group True w(1) by (simp add: stream_so_far_def snapshot_consts take_Suc_conv_app_nth)
      moreover have "writer_ok logs orig (w\<lparr>sn_at := sn_at w + 1\<rparr>) kept t"
        using assms(1) group True by (auto simp: writer_ok_def snapshot_consts snapshot_records_def)
      ultimately show ?thesis by (auto simp: written)
    next
      case False
      then show ?thesis using assms(3) group w(1) by (auto simp: write_one_def snapshot_consts)
    qed
  qed
qed

lemma write_one_ends:
  assumes "writer_ok logs orig w kept t"
  shows "fst (write_one w t l) = None \<longleftrightarrow> writer_complete w"
proof -
  note w = writer_ok_counts [OF assms] and st = writer_ok_table(3) [OF assms]
  show ?thesis
  proof (cases "2 \<le> sn_at w \<and> sn_at w < 2 + length orig")
    case True
    then have b: "length kept = sn_at w - 2" "length kept < length orig" using w by auto
    obtain t1 where "bucket_for_snapshot (length kept) t = (Some (orig ! length kept), t1)"
      using stable_next [OF st b(2)] by (metis prod.collapse)
    then show ?thesis using True b w(1)
      by (auto simp: write_one_def writer_complete_def snapshot_records_def snapshot_consts)
  next
    case False
    then show ?thesis using w
      by (auto simp: write_one_def writer_complete_def snapshot_records_def snapshot_consts Let_def split: if_splits)
  qed
qed

text \<open>A chunk carries as many records as there is room for, until the stream ends.\<close>

lemma write_records_ok:
  assumes "writer_ok logs orig w kept t" "l \<in> logs" "write_records n w t l = (bytes, w', t')"
  shows "\<exists>kept'. writer_ok logs orig w' kept' t' \<and> concat (stream_so_far w' kept') = concat (stream_so_far w kept) @ bytes
    \<and> w' = w\<lparr>sn_at := sn_at w'\<rparr>"
  using assms
proof (induction n arbitrary: w kept t bytes)
  case 0
  then show ?case by auto
next
  case (Suc n)
  obtain written t1 where one: "write_one w t l = (written, t1)" by force
  note ok = write_one_ok [OF Suc.prems(1,2) one]
  show ?case
  proof (cases written)
    case None
    then show ?thesis using ok Suc.prems one by auto
  next
    case (Some item)
    then obtain kept1 where k1: "writer_ok logs orig (w\<lparr>sn_at := sn_at w + 1\<rparr>) kept1 t1"
        "stream_so_far (w\<lparr>sn_at := sn_at w + 1\<rparr>) kept1 = stream_so_far w kept @ [item]"
      using ok by auto
    obtain bytes1 where rest: "write_records n (w\<lparr>sn_at := sn_at w + 1\<rparr>) t1 l = (bytes1, w', t')" and b: "bytes = item @ bytes1"
      using Suc.prems(3) one Some by (auto split: prod.splits)
    from Suc.IH [OF k1(1) Suc.prems(2) rest] show ?thesis by (auto simp: k1(2) [simplified] b)
  qed
qed

lemma write_records_advances:
  assumes "writer_ok logs orig w kept t" "l \<in> logs" "write_records n w t l = (bytes, w', t')"
  shows "sn_at w' = min (sn_at w + n) (snapshot_records w)"
  using assms
proof (induction n arbitrary: w kept t bytes)
  case 0
  then show ?case by (simp add: writer_ok_def)
next
  case (Suc n)
  obtain written t1 where one: "write_one w t l = (written, t1)" by force
  note ok = write_one_ok [OF Suc.prems(1,2) one]
  have ends: "written = None \<longleftrightarrow> writer_complete w" using write_one_ends [OF Suc.prems(1), of l] one by simp
  show ?case
  proof (cases written)
    case None
    then show ?thesis using ends Suc.prems(3) one by (simp add: writer_complete_def)
  next
    case (Some item)
    then obtain kept1 where k1: "writer_ok logs orig (w\<lparr>sn_at := sn_at w + 1\<rparr>) kept1 t1" using ok by auto
    obtain bytes1 where "write_records n (w\<lparr>sn_at := sn_at w + 1\<rparr>) t1 l = (bytes1, w', t')"
      using Suc.prems(3) one Some by (auto split: prod.splits)
    from Suc.IH [OF k1 Suc.prems(2) this] show ?thesis by (simp add: snapshot_records_def)
  qed
qed

lemma writing_ok:
  assumes "snapshot_writing hs logs w0 t0 out w t" "sn_at w0 = 0" "sn_buckets w0 = length (ht_buckets t0)" "table_shape t0"
  shows "\<exists>kept. writer_ok logs (ht_buckets t0) w kept t \<and> out = concat (stream_so_far w kept) \<and> w = w0\<lparr>sn_at := sn_at w\<rparr>"
  using assms(1)
proof induction
  case writing_begins
  have "table_shape (begin_snapshot t0)" using assms(4) by (simp add: table_shape_def begin_snapshot_def)
  then show ?case using assms(2-4) stable_begin [of t0]
    by (auto simp: writer_ok_def stream_so_far_def snapshot_consts table_shape_def intro!: exI [of _ "[]"])
next
  case (table_changes out w t t')
  then obtain kept where k: "writer_ok logs (ht_buckets t0) w kept t" "out = concat (stream_so_far w kept)" "w = w0\<lparr>sn_at := sn_at w\<rparr>"
    by blast
  have "stable_read.kept (ht_buckets t0) (length kept) t" using k(1) unfolding stable_read.kept_def writer_ok_def by blast
  then have "stable_read.kept (ht_buckets t0) (length kept) t'" using stable_read.step_kept table_changes.hyps(2) by blast
  then have "writer_ok logs (ht_buckets t0) w kept t'" using k(1) unfolding stable_read.kept_def writer_ok_def by blast
  then show ?case using k(2,3) by blast
next
  case (chunk_written out w t l room bytes w' t')
  then obtain kept where k: "writer_ok logs (ht_buckets t0) w kept t" "out = concat (stream_so_far w kept)" "w = w0\<lparr>sn_at := sn_at w\<rparr>"
    by blast
  obtain kept' where k': "writer_ok logs (ht_buckets t0) w' kept' t'" "concat (stream_so_far w' kept') = out @ bytes" "w' = w\<lparr>sn_at := sn_at w'\<rparr>"
    using write_records_ok [OF k(1) chunk_written.hyps(2) chunk_written.hyps(3) [unfolded next_chunk_def]] k(2) by auto
  have "w' = w0\<lparr>sn_at := sn_at w'\<rparr>" by (subst k'(3), subst k(3)) simp
  then show ?case using k' by metis
qed


section \<open>What is read back\<close>

lemma words_of_bucket: "length ws = WAYS \<Longrightarrow> words_in (bucket_record ws) = ws"
proof -
  assume "length ws = WAYS"
  then obtain a b c d where "ws = [a, b, c, d]" by (auto simp: WAYS_def length_Suc_conv eval_nat_numeral)
  then show ?thesis
    by (simp add: words_in_def bucket_record_def WAYS_def upt_rec slice_fields codec_widths codec_backs)
qed

lemma header_fields:
  "slice_at 0 8 (header_record w) = to_le_bytes 8 SNAPSHOT_MAGIC" "slice_at 8 4 (header_record w) = to_le_bytes 4 SNAPSHOT_VERSION"
  "slice_at 12 8 (header_record w) = to_le_bytes 8 (word_of_nat (sn_buckets w) :: u64)"
  "slice_at 20 4 (header_record w) = to_le_bytes 4 (word_of_nat (length (sn_groups w)) :: u32)"
  "slice_at 24 8 (header_record w) = to_le_bytes 8 (word_of_nat (sn_coverage w) :: u64)"
  by (simp_all add: header_record_def slice_fields)

lemma group_fields:
  "slice_at 0 16 (group_record g) = to_le_bytes 16 (fst g)" "slice_at 16 8 (group_record g) = amount_bytes (bs_remaining (snd g))"
  "slice_at 24 4 (group_record g) = to_le_bytes 4 (bs_members (snd g))"
  by (simp_all add: group_record_def slice_fields amount_bytes_def)

lemma restore_bucket_sets:
  assumes "table_shape t" "b < length (ht_buckets t)" "length ws = WAYS"
  shows "fst (restore_bucket b ws t)" "ht_buckets (snd (restore_bucket b ws t)) = (ht_buckets t)[b := ws]"
    "table_shape (snd (restore_bucket b ws t))"
proof -
  have len: "length (ht_buckets t ! b) = WAYS" by (rule table_shape_ways [OF assms(1,2)])
  obtain w x y z where ws: "ws = [w, x, y, z]" using assms(3) by (auto simp: WAYS_def length_Suc_conv eval_nat_numeral)
  obtain p q r s where old: "ht_buckets t ! b = [p, q, r, s]" using len by (auto simp: WAYS_def length_Suc_conv eval_nat_numeral)
  show "fst (restore_bucket b ws t)" using assms(2) by (simp add: restore_bucket_def)
  show "ht_buckets (snd (restore_bucket b ws t)) = (ht_buckets t)[b := ws]"
    using assms(2) by (simp add: restore_bucket_def ws write_word_def old eval_nat_numeral)
  show "table_shape (snd (restore_bucket b ws t))" using shape.restore_kept [OF _ assms(3)] assms(1) by (simp add: shape.kept_def)
qed

lemma reader_head:
  fixes w :: SnapshotWriter
  assumes "sn_buckets w = length (ht_buckets index)" "length (ht_buckets index) < 2 ^ 64" "length (sn_groups w) < 2 ^ 32"
    "sn_coverage w < 2 ^ 64" "sn_groups_reflect w < 2 ^ 64"
  shows "take_records [header_record w, reflect_record w] snapshot_reader index =
    (Inr (), \<lparr>sr_buckets = word_of_nat (length (ht_buckets index)), sr_groups_expected = length (sn_groups w),
       sr_coverage = sn_coverage w, sr_groups_reflect = sn_groups_reflect w, sr_at = 2, sr_groups = []\<rparr>, index)"
proof -
  have "take_header (header_record w) snapshot_reader index =
      (Inr (), snapshot_reader\<lparr>sr_buckets := word_of_nat (length (ht_buckets index)),
         sr_groups_expected := length (sn_groups w), sr_coverage := sn_coverage w\<rparr>)"
    using assms by (simp add: take_header_def header_fields codec_backs unsigned_of_nat take_bit_nat_eq_self)
  moreover have "unat (from_le_bytes (slice_at 0 8 (reflect_record w)) :: u64) = sn_groups_reflect w"
    using assms(5) by (simp add: reflect_record_def slice_fields codec_backs unsigned_of_nat take_bit_nat_eq_self)
  ultimately show ?thesis
    by (simp add: take_one_def reader_complete_def snapshot_reader_def snapshot_consts)
qed

lemma reader_buckets:
  assumes "\<forall>ws\<in>set kept. length ws = WAYS" "table_shape index" "unat (sr_buckets r) = length (ht_buckets index)"
    "sr_at r = 2 + length before" "length before + length kept \<le> length (ht_buckets index)"
    "take (length before) (ht_buckets index) = before"
  shows "\<exists>index'. take_records (map bucket_record kept) r index = (Inr (), r\<lparr>sr_at := sr_at r + length kept\<rparr>, index')
    \<and> table_shape index' \<and> length (ht_buckets index') = length (ht_buckets index)
    \<and> take (length before + length kept) (ht_buckets index') = before @ kept"
  using assms
proof (induction kept arbitrary: before r index)
  case (Cons ws kept)
  let ?b = "length before"
  obtain ok i where rb: "restore_bucket ?b ws index = (ok, i)" by force
  have b: "?b < length (ht_buckets index)" using Cons.prems(5) by simp
  note set_law = restore_bucket_sets [OF Cons.prems(2) b, of ws]
  have i: "ok" "ht_buckets i = (ht_buckets index)[?b := ws]" "table_shape i" using set_law Cons.prems(1) rb by simp_all
  have one: "take_records (bucket_record ws # rest) r index = take_records rest (r\<lparr>sr_at := sr_at r + 1\<rparr>) i" for rest
    using Cons.prems(1,3,4) b rb i(1) by (simp add: reader_complete_def take_one_def snapshot_consts words_of_bucket)
  have "take (length (before @ [ws])) (ht_buckets i) = before @ [ws]"
    using Cons.prems(6) b by (simp add: i(2) take_Suc_conv_app_nth)
  from Cons.IH [OF _ i(3) _ _ _ this, of "r\<lparr>sr_at := sr_at r + 1\<rparr>"] show ?case
    using Cons.prems by (auto simp: one i(2) simp del: take_records.simps)
qed auto

definition update_group :: "BudgetGroup \<times> BudgetState \<Rightarrow> (BudgetGroup \<times> BudgetState) list \<Rightarrow> (BudgetGroup \<times> BudgetState) list" where
  "update_group g groups = AList.update (fst g) (snd g) groups"

lemma reader_groups:
  assumes "\<forall>g\<in>set groups. i64_ok (bs_remaining (snd g))" "2 + unat (sr_buckets r) \<le> sr_at r"
    "sr_at r + length groups \<le> 2 + unat (sr_buckets r) + sr_groups_expected r"
  shows "take_records (map group_record groups) r index =
    (Inr (), r\<lparr>sr_at := sr_at r + length groups, sr_groups := fold update_group groups (sr_groups r)\<rparr>, index)"
  using assms
proof (induction groups arbitrary: r)
  case (Cons g groups)
  have g: "amount_from (amount_bytes (bs_remaining (snd g))) = bs_remaining (snd g)"
    using Cons.prems(1) by (simp add: codec_backs)
  have whole: "\<lparr>bs_members = bs_members (snd g), bs_remaining = bs_remaining (snd g)\<rparr> = snd g" by (cases "snd g") simp
  have "take_one (group_record g) r index = (Inr (), r\<lparr>sr_groups := update_group g (sr_groups r)\<rparr>, index)"
    using Cons.prems(2) g by (simp add: take_one_def snapshot_consts group_fields codec_backs update_group_def whole)
  then show ?case
    using Cons.IH [of "r\<lparr>sr_groups := update_group g (sr_groups r), sr_at := sr_at r + 1\<rparr>"] Cons.prems
    by (simp add: reader_complete_def snapshot_consts)
qed simp

lemma map_of_updates:
  "distinct (map fst gs) \<Longrightarrow> map_of (fold update_group gs xs) k = (case map_of gs k of None \<Rightarrow> map_of xs k | Some v \<Rightarrow> Some v)"
proof (induction gs arbitrary: xs)
  case (Cons g gs)
  then have "map_of gs (fst g) = None" by (simp add: map_of_eq_None_iff)
  then show ?case using Cons by (cases "k = fst g") (auto simp: update_group_def update_conv' map_of_Cons_code split: option.split)
qed simp

lemma reader_padding: "reader_complete r \<Longrightarrow> take_records (replicate n (zeros k)) r index = (Inr (), r, index)"
  by (induction n) (simp_all add: zeros_def list_ex_iff)

lemma chunks_of_zeros: "chunks_exact 32 (zeros (n * 32)) = replicate n (zeros 32)"
proof -
  have "zeros (n * 32) = concat (replicate n (zeros 32))" by (induction n) (simp_all add: zeros_def replicate_add)
  then show ?thesis by (simp only:) (rule chunks_exact_concat, auto simp: zeros_def)
qed

lemma map_of_sorted: "distinct (map fst xs) \<Longrightarrow> map_of (sort_key fst xs) = map_of xs"
  by (rule map_of_inject_set [THEN iffD2]) (simp_all add: distinct_map)


lemma whole_stream_read:
  fixes w :: SnapshotWriter
  assumes "length kept = length (ht_buckets index)" "\<forall>ws\<in>set kept. length ws = WAYS" "table_shape index"
    "sn_buckets w = length (ht_buckets index)" "length (sn_groups w) < 2 ^ 32" "sn_coverage w < 2 ^ 64" "sn_groups_reflect w < 2 ^ 64"
    "\<forall>g\<in>set (sn_groups w). i64_ok (bs_remaining (snd g))"
  shows "\<exists>r index'. take_records (([header_record w, reflect_record w] @ map bucket_record kept @ map group_record (sn_groups w))
        @ replicate n (zeros 32)) snapshot_reader index = (Inr (), r, index')
    \<and> reader_complete r \<and> sr_coverage r = sn_coverage w \<and> sr_groups_reflect r = sn_groups_reflect w
    \<and> sr_groups r = fold update_group (sn_groups w) [] \<and> ht_buckets index' = kept"
proof -
  obtain k where "k \<le> 32" "length (ht_buckets index) = 2 ^ k" using assms(3) by (auto simp: table_shape_def)
  then have "length (ht_buckets index) \<le> 2 ^ 32" using power_increasing [of k 32 "2 :: nat"] by simp
  then have big: "length (ht_buckets index) < 2 ^ 64" by simp
  let ?r1 = "\<lparr>sr_buckets = word_of_nat (length (ht_buckets index)), sr_groups_expected = length (sn_groups w),
    sr_coverage = sn_coverage w, sr_groups_reflect = sn_groups_reflect w, sr_at = 2, sr_groups = []\<rparr>"
  have u: "unat (sr_buckets ?r1) = length (ht_buckets index)" using big by (simp add: unsigned_of_nat take_bit_nat_eq_self)
  note head = reader_head [OF assms(4) big assms(5-7)]
  obtain i where i: "take_records (map bucket_record kept) ?r1 index = (Inr (), ?r1\<lparr>sr_at := 2 + length kept\<rparr>, i)"
      "length (ht_buckets i) = length (ht_buckets index)" "take (length kept) (ht_buckets i) = kept"
    using reader_buckets [OF assms(2,3) u, of "[]"] assms(1) by auto
  have kept: "ht_buckets i = kept" using i(2,3) assms(1) by simp
  let ?r2 = "?r1\<lparr>sr_at := 2 + length kept\<rparr>"
  have groups: "take_records (map group_record (sn_groups w)) ?r2 i =
      (Inr (), ?r2\<lparr>sr_at := sr_at ?r2 + length (sn_groups w), sr_groups := fold update_group (sn_groups w) (sr_groups ?r2)\<rparr>, i)"
    by (rule reader_groups) (use assms(1,8) u in simp_all)
  let ?r3 = "?r2\<lparr>sr_at := sr_at ?r2 + length (sn_groups w), sr_groups := fold update_group (sn_groups w) (sr_groups ?r2)\<rparr>"
  have whole: "reader_complete ?r3" using assms(1) u by (simp add: reader_complete_def snapshot_consts)
  have "take_records (([header_record w, reflect_record w] @ map bucket_record kept @ map group_record (sn_groups w))
      @ replicate n (zeros 32)) snapshot_reader index = (Inr (), ?r3, i)"
    using head i(1) groups reader_padding [OF whole] by (simp only: take_records_append append_assoc prod.case sum.case)
  then show ?thesis using whole kept by (intro exI [of _ ?r3] exI [of _ i]) simp
qed

lemma concat_whole: "\<forall>x\<in>set xs. length x mod n = 0 \<Longrightarrow> length (concat xs) mod (n :: nat) = 0"
  by (induction xs) (auto simp: mod_eq_0_iff_dvd)

lemma rest_whole: "a mod n = 0 \<Longrightarrow> b mod n = 0 \<Longrightarrow> b = a + c \<Longrightarrow> c mod (n :: nat) = 0"
  by (simp add: mod_eq_0_iff_dvd dvd_add_right_iff)

lemma snapshot_read_back:
  assumes "table_shape t0" "distinct (map fst budgets)" "\<forall>g\<in>set budgets. i64_ok (bs_remaining (snd g))"
    and "length budgets < 2 ^ 32" "covered < 2 ^ 64" "reflect < 2 ^ 64"
    and "snapshot_writing hs logs (snapshot_writer (length (ht_buckets t0)) budgets covered reflect) t0 out w t" "writer_complete w"
    and "concat chunks = out @ zeros padding" "\<forall>c\<in>set chunks. length c mod SNAPSHOT_RECORD = 0"
    and "table_shape index" "length (ht_buckets index) = length (ht_buckets t0)"
  shows "\<exists>r index'. take_chunks chunks snapshot_reader index = (Inr (), r, index')
    \<and> reader_complete r \<and> sr_coverage r = covered \<and> sr_groups_reflect r = reflect \<and> map_of (sr_groups r) = map_of budgets
    \<and> list_all2 (list_all2 (slot_carried logs)) (ht_buckets t0) (ht_buckets index')"
proof -
  let ?w0 = "snapshot_writer (length (ht_buckets t0)) budgets covered reflect"
  obtain kept where ok: "writer_ok logs (ht_buckets t0) w kept t" and out: "out = concat (stream_so_far w kept)" and w: "w = ?w0\<lparr>sn_at := sn_at w\<rparr>"
    using writing_ok [OF assms(7)] assms(1) by (auto simp: snapshot_writer_def)
  have fields: "sn_buckets w = length (ht_buckets t0)" "sn_groups w = sort_key fst budgets" "sn_coverage w = covered" "sn_groups_reflect w = reflect"
    by (subst w, simp add: snapshot_writer_def)+
  have at: "sn_at w = 2 + length (ht_buckets t0) + length budgets"
    using assms(8) by (simp add: writer_complete_def snapshot_records_def snapshot_consts fields)
  have len: "length kept = length (ht_buckets t0)" and all: "list_all2 (carried logs) (ht_buckets t0) kept"
    using ok at unfolding writer_ok_def by (auto simp: snapshot_consts)
  have ways: "\<forall>ws\<in>set kept. length ws = WAYS"
    using carried_ways [OF all] assms(1) by (simp add: table_shape_def)
  let ?stream = "[header_record w, reflect_record w] @ map bucket_record kept @ map group_record (sn_groups w)"
  have out: "out = concat ?stream" using at by (simp add: out stream_so_far_def snapshot_consts fields)
  have thirtytwo: "length x = 32" if "x \<in> set ?stream" for x using that ways by (auto simp: record_lengths bucket_record_length)
  have "length (concat ?stream) mod 32 = 0" by (rule concat_whole) (use thirtytwo in auto)
  moreover have "length (concat chunks) mod 32 = 0" by (rule concat_whole) (use assms(10) in \<open>simp add: snapshot_consts\<close>)
  moreover have "length (concat chunks) = length (concat ?stream) + padding"
    by (simp only: assms(9) out length_append zeros_def length_replicate)
  ultimately have "padding mod 32 = 0" by (rule rest_whole)
  then obtain n where n: "padding = n * 32" by (metis mod_eq_0_iff_dvd dvdE mult.commute)
  have "chunks_exact 32 (concat chunks) = ?stream @ replicate n (zeros 32)"
    unfolding assms(9) out n chunks_exact_append [OF \<open>length (concat ?stream) mod 32 = 0\<close> zero_less_numeral]
    using chunks_exact_concat [of ?stream 32] thirtytwo by (simp only: chunks_of_zeros)
  then have "take_chunks chunks snapshot_reader index = take_records (?stream @ replicate n (zeros 32)) snapshot_reader index"
    using take_chunks_is_take_records [of chunks] assms(10) by (simp add: snapshot_consts)
  moreover have "\<forall>g\<in>set (sn_groups w). i64_ok (bs_remaining (snd g))" using assms(3) by (simp add: fields)
  then obtain r index' where "take_records (?stream @ replicate n (zeros 32)) snapshot_reader index = (Inr (), r, index')"
      "reader_complete r" "sr_coverage r = covered" "sr_groups_reflect r = reflect"
      "sr_groups r = fold update_group (sn_groups w) []" "ht_buckets index' = kept"
    using whole_stream_read [of kept index w n] len ways assms(4-6,11,12) by (auto simp: fields)
  moreover have "map_of (fold update_group (sn_groups w) []) = map_of budgets"
    using map_of_updates [of "sort_key fst budgets" "[]"] map_of_sorted [OF assms(2)] assms(2)
    by (auto simp: fields fun_eq_iff distinct_map split: option.split)
  ultimately show ?thesis using all by (auto simp: carried_def)
qed

text \<open>C15: A snapshot is its instant, on the way out and back. The stream is written in chunks of any size while insertions,
  removals, repointings and compactions go on changing the table between the chunks and the log goes on sealing blocks;
  it is padded with zeroes to whole blocks, cut into chunks again, and read into a table of the same size, whatever that table
  held. The reader accepts it and finds it complete; coverage, the position of the group totals and the totals are
  those the writer was given; and every slot is the one the table had when the snapshot began, or empty where the record it
  names was not on a sealed block when it was written out.\<close>

theorem snapshot_gives_its_instant_back:
  assumes "table_shape t0" "distinct (map fst budgets)" "\<forall>g\<in>set budgets. i64_ok (bs_remaining (snd g))"
    and "length budgets < 2 ^ 32" "covered < 2 ^ 64" "reflect < 2 ^ 64"
    and "snapshot_writing hs logs (snapshot_writer (length (ht_buckets t0)) budgets covered reflect) t0 out w t" "writer_complete w"
    and "concat chunks = out @ zeros padding" "\<forall>c\<in>set chunks. length c mod SNAPSHOT_RECORD = 0"
    and "table_shape index" "length (ht_buckets index) = length (ht_buckets t0)"
  shows "\<exists>r index'. take_chunks chunks snapshot_reader index = (Inr (), r, index')
    \<and> reader_complete r \<and> sr_coverage r = covered \<and> sr_groups_reflect r = reflect \<and> map_of (sr_groups r) = map_of budgets
    \<and> list_all2 (list_all2 (slot_carried logs)) (ht_buckets t0) (ht_buckets index')"
  by (rule snapshot_read_back [OF assms])

text \<open>What was written so far is as many records as the writer counts.\<close>

lemma concat_length: "\<forall>x\<in>set xs. length x = n \<Longrightarrow> length (concat xs) = length xs * n"
  by (induction xs) auto

lemma stream_so_far_length:
  assumes "writer_ok logs orig w kept t"
  shows "length (concat (stream_so_far w kept)) = sn_at w * SNAPSHOT_RECORD"
proof -
  note k = writer_ok_counts [OF assms] writer_ok_table(1,2) [OF assms]
  have "\<forall>ws\<in>set kept. length ws = WAYS" by (rule carried_ways [OF k(4)]) (use k(5) in \<open>auto dest: in_set_takeD\<close>)
  then have "\<forall>x\<in>set (stream_so_far w kept). length x = 32"
    by (auto simp: stream_so_far_def record_lengths bucket_record_length take_Cons' snapshot_consts split: if_splits)
  from concat_length [OF this] have "length (concat (stream_so_far w kept)) = length (stream_so_far w kept) * 32" .
  moreover have "length (stream_so_far w kept) = min (sn_at w) 2 + (min (sn_at w - 2) (length orig)
      + min (sn_at w - 2 - length orig) (length (sn_groups w)))"
    by (simp add: stream_so_far_def snapshot_consts k(1,3))
  then have "length (stream_so_far w kept) = sn_at w" using k(2) by linarith
  ultimately show ?thesis by (simp add: snapshot_consts)
qed

text \<open>A table of two buckets with one entry, and one group; another entry goes in between the two chunks.\<close>

definition snapshot_table :: HoldTable where
  "snapshot_table = snd (insert_new mixing_hasher 7 (addr_new 3 1 2) (with_slots 8))"

definition sealed_log :: "MemoryStore RecordLog" where
  "sealed_log = (log_new memory_store 1 4)\<lparr>rl_next_block := 9\<rparr>"

definition snapshot_groups :: "(BudgetGroup \<times> BudgetState) list" where
  "snapshot_groups = [(5, \<lparr>bs_members = 1, bs_remaining = 100\<rparr>)]"

lemma snapshot_table_shape: "table_shape snapshot_table" "length (ht_buckets snapshot_table) = 2" "table_shape (with_slots 8)"
    "length (ht_buckets (with_slots 8)) = 2"
proof -
  show shape: "table_shape (with_slots 8)" using with_capacity_shape [of 8 MAX_HOPS] by (simp add: with_slots_def)
  then have "sized.kept (table_slots (with_slots 8)) (with_slots 8)" by (simp add: sized.kept_def)
  then have "sized.kept (table_slots (with_slots 8)) snapshot_table" unfolding snapshot_table_def by (rule sized.insert_kept)
  moreover have two: "length (ht_buckets (with_slots 8)) = 2" by code_simp
  ultimately have "table_slots snapshot_table = table_slots (with_slots 8) \<and> table_shape snapshot_table"
    unfolding sized.kept_def by blast
  then show "table_shape snapshot_table" "length (ht_buckets snapshot_table) = 2"
    using two by (simp_all add: table_slots_def WAYS_def)
  show "length (ht_buckets (with_slots 8)) = 2" by (rule two)
qed

theorem snapshot_gives_its_instant_back_witness:
  "\<exists>out w t r index'. snapshot_writing mixing_hasher {sealed_log} (snapshot_writer 2 snapshot_groups 8 9) snapshot_table out w t
    \<and> take_chunks [out, zeros 96] snapshot_reader (with_slots 8) = (Inr (), r, index')
    \<and> sr_coverage r = 8 \<and> map_of (sr_groups r) 5 = Some \<lparr>bs_members = 1, bs_remaining = 100\<rparr>
    \<and> list_all2 (list_all2 (slot_carried {sealed_log})) (ht_buckets snapshot_table) (ht_buckets index')"
proof -
  let ?w0 = "snapshot_writer 2 snapshot_groups 8 9" and ?t0 = "begin_snapshot snapshot_table"
  note start = writing_begins [of mixing_hasher "{sealed_log}" ?w0 snapshot_table]
  obtain b1 w1 t1 where c1: "next_chunk ?w0 64 ?t0 sealed_log = (b1, w1, t1)" by (metis prod_cases3)
  let ?t2 = "snd (insert_new mixing_hasher 8 (addr_new 3 1 3) t1)"
  obtain b2 w2 t3 where c2: "next_chunk w1 4096 ?t2 sealed_log = (b2, w2, t3)" by (metis prod_cases3)
  have one: "snapshot_writing mixing_hasher {sealed_log} ?w0 snapshot_table ([] @ b1) w1 t1"
    by (rule chunk_written [OF start _ c1]) simp
  have two: "snapshot_writing mixing_hasher {sealed_log} ?w0 snapshot_table ([] @ b1) w1 ?t2"
    by (rule table_changes [OF one step_insert])
  have three: "snapshot_writing mixing_hasher {sealed_log} ?w0 snapshot_table (([] @ b1) @ b2) w2 t3"
    by (rule chunk_written [OF two _ c2]) simp
  have zero: "sn_at ?w0 = 0" "sn_buckets ?w0 = length (ht_buckets snapshot_table)" "snapshot_records ?w0 = 5"
    by (simp_all add: snapshot_writer_def snapshot_table_shape snapshot_records_def snapshot_consts snapshot_groups_def)
  note ok = writing_ok [OF _ zero(1,2) snapshot_table_shape(1)]
  obtain k0 where k0: "writer_ok {sealed_log} (ht_buckets snapshot_table) ?w0 k0 ?t0" using ok [OF start] by blast
  have at1: "sn_at w1 = 2"
    using write_records_advances [OF k0 _ c1 [unfolded next_chunk_def]] zero by (simp add: snapshot_consts)
  obtain k1 where k1: "writer_ok {sealed_log} (ht_buckets snapshot_table) w1 k1 ?t2" "w1 = ?w0\<lparr>sn_at := sn_at w1\<rparr>"
    using ok [OF two] by blast
  have r1: "snapshot_records w1 = 5" by (subst k1(2)) (use zero(3) in \<open>simp add: snapshot_records_def\<close>)
  have at2: "sn_at w2 = 5"
    using write_records_advances [OF k1(1) _ c2 [unfolded next_chunk_def]] at1 r1 by (simp add: snapshot_consts)
  obtain k2 where k2: "writer_ok {sealed_log} (ht_buckets snapshot_table) w2 k2 t3" "(([] @ b1) @ b2) = concat (stream_so_far w2 k2)"
      "w2 = ?w0\<lparr>sn_at := sn_at w2\<rparr>"
    using ok [OF three] by blast
  have "snapshot_records w2 = 5" by (subst k2(3)) (use zero(3) in \<open>simp add: snapshot_records_def\<close>)
  then have whole: "writer_complete w2" using at2 by (simp add: writer_complete_def)
  have len: "length ([] @ b1 @ b2) = 160" using stream_so_far_length [OF k2(1)] k2(2) at2 by (simp add: snapshot_consts)
  have three': "snapshot_writing mixing_hasher {sealed_log} (snapshot_writer (length (ht_buckets snapshot_table)) snapshot_groups 8 9)
      snapshot_table (b1 @ b2) w2 t3"
    using three by (simp add: snapshot_table_shape)
  have "\<exists>r index'. take_chunks [b1 @ b2, zeros 96] snapshot_reader (with_slots 8) = (Inr (), r, index')
      \<and> reader_complete r \<and> sr_coverage r = 8 \<and> sr_groups_reflect r = 9 \<and> map_of (sr_groups r) = map_of snapshot_groups
      \<and> list_all2 (list_all2 (slot_carried {sealed_log})) (ht_buckets snapshot_table) (ht_buckets index')"
    by (rule snapshot_gives_its_instant_back [OF snapshot_table_shape(1) _ _ _ _ _ three' whole, where padding = 96])
       (use len in \<open>simp_all add: snapshot_groups_def i64_ok_def snapshot_consts zeros_def snapshot_table_shape\<close>)
  then obtain r index' where "take_chunks [b1 @ b2, zeros 96] snapshot_reader (with_slots 8) = (Inr (), r, index')"
      "sr_coverage r = 8" "map_of (sr_groups r) 5 = Some \<lparr>bs_members = 1, bs_remaining = 100\<rparr>"
      "list_all2 (list_all2 (slot_carried {sealed_log})) (ht_buckets snapshot_table) (ht_buckets index')"
    by (auto simp: snapshot_groups_def simp del: take_chunks.simps)
  moreover have "snapshot_writing mixing_hasher {sealed_log} ?w0 snapshot_table (b1 @ b2) w2 t3" using three by simp
  ultimately show ?thesis by blast
qed

end
