(* ===== verification/Snapshot_Stage.thy ===== *)
theory Snapshot_Stage
  imports Snapshot_Stream
begin

text \<open>
  The snapshot stage (\<open>pending/src/snapshots.rs\<close>): when a dump starts, the blocks it submits each round, the barrier and
  the rename that publish it, how one is given up, and how the current one is read at a restart. A dump goes to a volume of
  its own or to the engine's. The lemmas follow the calls a volume takes: a name is only given to a whole stream, and a whole
  stream under that name restores the instant it was begun at.
\<close>

section \<open>State\<close>

record SnapshotPolicy =
  sq_every :: nat
  sq_bytes_per_round :: nat
  sq_shadow_budget :: nat

definition DEFAULT_BYTES_PER_ROUND :: nat where "DEFAULT_BYTES_PER_ROUND = BLOCK_BYTES"
definition DEFAULT_SHADOW_BUDGET :: nat where "DEFAULT_SHADOW_BUDGET = 2 ^ 21"

definition snapshot_policy_default :: SnapshotPolicy where
  "snapshot_policy_default =
     \<lparr>sq_every = 0, sq_bytes_per_round = DEFAULT_BYTES_PER_ROUND, sq_shadow_budget = DEFAULT_SHADOW_BUDGET\<rparr>"

record SnapshotStats =
  ss_written :: nat
  ss_abandoned :: nat
  ss_bytes :: nat
  ss_shadow_peak :: nat
  ss_last_rounds :: nat
  ss_covered :: nat

datatype Phase = FillingUp | Sealing "u64 option" | Publishing "u64 option" | Draining "u64 option"

record InFlight =
  if_writer :: SnapshotWriter
  if_rounds :: nat
  if_blocks :: nat
  if_outstanding :: nat
  if_phase :: Phase

text \<open>\<open>sp_own\<close> is the volume of its own, or none: then the engine's blocks' volume serves.\<close>

record 'v Snapshots =
  sp_own :: "'v option"
  sp_policy :: SnapshotPolicy
  sp_chunk :: Block
  sp_unsubmitted :: bool
  sp_inflight :: "InFlight option"
  sp_handles :: nat
  sp_share :: nat
  sp_next_from :: ApplyIndex
  sp_stats :: SnapshotStats

definition snapshots_new :: "'v option \<Rightarrow> SnapshotPolicy \<Rightarrow> nat \<Rightarrow> 'v Snapshots" where
  "snapshots_new own policy share =
     \<lparr>sp_own = own, sp_policy = policy, sp_chunk = block_zeroed, sp_unsubmitted = False, sp_inflight = None, sp_handles = 0,
      sp_share = max share 1, sp_next_from = 0,
      sp_stats = \<lparr>ss_written = 0, ss_abandoned = 0, ss_bytes = 0, ss_shadow_peak = 0, ss_last_rounds = 0, ss_covered = 0\<rparr>\<rparr>"

section \<open>The volume\<close>

type_synonym ('v, 's) Stage = "'v Snapshots \<times> 's PendingEngine"

definition on_volume :: "('v \<Rightarrow> 'a \<times> 'v) \<Rightarrow> ('s \<Rightarrow> 'a \<times> 's) \<Rightarrow> ('v, 's) Stage \<Rightarrow> 'a \<times> ('v, 's) Stage" where
  "on_volume f g stage =
     (case stage of (sp, e) \<Rightarrow>
        case sp_own sp of
          Some v \<Rightarrow> (case f v of (r, v1) \<Rightarrow> (r, sp\<lparr>sp_own := Some v1\<rparr>, e))
        | None \<Rightarrow>
            (case g (rl_store (en_records e)) of
               (r, s1) \<Rightarrow> (r, sp, e\<lparr>en_records := (en_records e)\<lparr>rl_store := s1\<rparr>\<rparr>)))"

definition stage_completion :: "'v DurableStore \<Rightarrow> nat \<Rightarrow> ('v, 's) Stage \<Rightarrow> (u64 \<times> Written) option \<times> ('v, 's) Stage" where
  "stage_completion vops now stage =
     (case stage of (sp, e) \<Rightarrow>
        case sp_own sp of
          Some v \<Rightarrow> (case st_poll_written vops now v of (r, v1) \<Rightarrow> (r, sp\<lparr>sp_own := Some v1\<rparr>, e))
        | None \<Rightarrow> (case take_foreign (en_records e) of (r, l) \<Rightarrow> (r, sp, e\<lparr>en_records := l\<rparr>)))"

definition next_handle :: "'v Snapshots \<Rightarrow> u64" where
  "next_handle sp = io_handle OwnSnapshot (word_of_nat (sp_handles sp + 1))"

text \<open>An operation offered to the volume with the next handle, which counts once it is taken.\<close>

definition offer :: "(u64 \<Rightarrow> 'v \<Rightarrow> bool \<times> 'v) \<Rightarrow> (u64 \<Rightarrow> 's \<Rightarrow> bool \<times> 's) \<Rightarrow> ('v, 's) Stage \<Rightarrow> u64 option \<times> ('v, 's) Stage" where
  "offer f g stage =
     (let handle = next_handle (fst stage); (taken, sp, e) = on_volume (f handle) (g handle) stage in
      if taken then (Some handle, sp\<lparr>sp_handles := sp_handles sp + 1\<rparr>, e) else (None, sp, e))"

section \<open>A dump\<close>

definition stage_begin :: "'v DurableStore \<Rightarrow> 's DurableStore \<Rightarrow> nat \<Rightarrow> ('v, 's) Stage \<Rightarrow> bool \<times> ('v, 's) Stage" where
  "stage_begin vops ops now stage =
     (case offer (\<lambda>h. st_submit_remove vops h SNAPSHOT_PARTIAL now) (\<lambda>h. st_submit_remove ops h SNAPSHOT_PARTIAL now) stage of
        (None, stage1) \<Rightarrow> (False, stage1)
      | (Some _, sp, e) \<Rightarrow>
          (case engine_begin_snapshot e of
             (writer, e1) \<Rightarrow>
               (True, sp\<lparr>sp_inflight := Some \<lparr>if_writer = writer, if_rounds = 0, if_blocks = 0, if_outstanding = 1,
                           if_phase = FillingUp\<rparr>, sp_unsubmitted := False\<rparr>, e1)))"

definition is_draining :: "Phase \<Rightarrow> bool" where
  "is_draining phase \<longleftrightarrow> (case phase of Draining _ \<Rightarrow> True | _ \<Rightarrow> False)"

definition is_removing :: "Phase \<Rightarrow> bool" where
  "is_removing phase \<longleftrightarrow> (case phase of Draining (Some _) \<Rightarrow> True | _ \<Rightarrow> False)"

definition give_up :: "InFlight \<Rightarrow> ('v, 's) Stage \<Rightarrow> InFlight \<times> ('v, 's) Stage" where
  "give_up run stage =
     (case stage of (sp, e) \<Rightarrow>
        if is_draining (if_phase run) then (run, sp, e)
        else (run\<lparr>if_phase := Draining None\<rparr>,
              sp\<lparr>sp_unsubmitted := False, sp_stats := (sp_stats sp)\<lparr>ss_abandoned := ss_abandoned (sp_stats sp) + 1\<rparr>,
                 sp_next_from := en_applied_through e\<rparr>,
              engine_abandon_snapshot e))"

definition stage_abandon :: "('v, 's) Stage \<Rightarrow> ('v, 's) Stage" where
  "stage_abandon stage =
     (case stage of (sp, e) \<Rightarrow>
        case sp_inflight sp of
          None \<Rightarrow> (sp, e)
        | Some run \<Rightarrow> (case give_up run (sp\<lparr>sp_inflight := None\<rparr>, e) of (run1, sp1, e1) \<Rightarrow> (sp1\<lparr>sp_inflight := Some run1\<rparr>, e1)))"

text \<open>Every completion there is: whether one failed, and whether the rename was answered.\<close>

definition run_answered :: "u64 \<Rightarrow> Written \<Rightarrow> InFlight \<Rightarrow> InFlight \<times> bool \<times> bool" where
  "run_answered handle outcome run0 =
     (let run = run0\<lparr>if_outstanding := if_outstanding run0 - 1\<rparr> in
      if \<not> is_ok outcome then (run, True, False)
      else if if_phase run = Sealing (Some handle) then (run\<lparr>if_phase := Publishing None\<rparr>, False, False)
      else (run, False, if_phase run = Publishing (Some handle)))"

partial_function (option) stage_collect ::
  "'v DurableStore \<Rightarrow> nat \<Rightarrow> InFlight \<Rightarrow> bool \<Rightarrow> bool \<Rightarrow> ('v, 's) Stage \<Rightarrow> (InFlight \<times> bool \<times> bool \<times> ('v, 's) Stage) option" where
  [code]: "stage_collect vops now run broken published stage =
     (case stage_completion vops now stage of
        (None, stage1) \<Rightarrow> Some (run, broken, published, stage1)
      | (Some (handle, outcome), stage1) \<Rightarrow>
          (case run_answered handle outcome run of
             (run1, failed, named) \<Rightarrow> stage_collect vops now run1 (broken \<or> failed) (published \<or> named) stage1))"

text \<open>The block to submit: the one left over, or the next one produced; whether there was nothing more.\<close>

definition stage_produce :: "InFlight \<Rightarrow> ('v, 's) Stage \<Rightarrow> bool \<times> InFlight \<times> ('v, 's) Stage" where
  "stage_produce run stage =
     (case stage of (sp, e) \<Rightarrow>
        if sp_unsubmitted sp then (False, run, sp, e)
        else case engine_next_chunk (if_writer run) BLOCK_BYTES e of
          (bytes, writer, e1) \<Rightarrow>
            if bytes = [] then (True, run\<lparr>if_writer := writer, if_phase := Sealing None\<rparr>, sp, e1)
            else (False, run\<lparr>if_writer := writer\<rparr>,
                  sp\<lparr>sp_chunk := bytes @ zeros (BLOCK_BYTES - length bytes), sp_unsubmitted := True\<rparr>, e1))"

text \<open>Blocks produced and submitted, up to the round's share.\<close>

fun stage_fill :: "'v DurableStore \<Rightarrow> 's DurableStore \<Rightarrow> nat \<Rightarrow> nat \<Rightarrow> InFlight \<Rightarrow> ('v, 's) Stage \<Rightarrow> InFlight \<times> ('v, 's) Stage" where
  "stage_fill vops ops now 0 run stage = (run, stage)"
| "stage_fill vops ops now (Suc n) run (sp, e) =
     (if sp_share sp \<le> if_outstanding run then (run, sp, e)
      else
        let (nothing, run1, sp1, e1) = stage_produce run (sp, e) in
        if nothing then (run1, sp1, e1)
        else
          case offer (\<lambda>h. st_submit_write vops h SNAPSHOT_PARTIAL (if_blocks run1 * BLOCK_BYTES) (sp_chunk sp1) (if_blocks run1 = 0) now)
                     (\<lambda>h. st_submit_write ops h SNAPSHOT_PARTIAL (if_blocks run1 * BLOCK_BYTES) (sp_chunk sp1) (if_blocks run1 = 0) now)
                     (sp1, e1) of
            (None, stage2) \<Rightarrow> (run1, stage2)
          | (Some _, sp2, e2) \<Rightarrow>
              (let run2 = run1\<lparr>if_blocks := if_blocks run1 + 1, if_outstanding := if_outstanding run1 + 1\<rparr>;
                   sp3 = sp2\<lparr>sp_unsubmitted := False,
                     sp_stats := (sp_stats sp2)\<lparr>ss_bytes := ss_bytes (sp_stats sp2) + BLOCK_BYTES\<rparr>\<rparr> in
               if writer_complete (if_writer run2) then (run2\<lparr>if_phase := Sealing None\<rparr>, sp3, e2)
               else stage_fill vops ops now n run2 (sp3, e2)))"

text \<open>What the phase asks for.\<close>

definition asked_for :: "(u64 option \<Rightarrow> Phase) \<Rightarrow> u64 option \<times> ('v, 's) Stage \<Rightarrow> InFlight \<Rightarrow> InFlight \<times> ('v, 's) Stage" where
  "asked_for phase answer run =
     (case answer of
        (None, stage) \<Rightarrow> (run, stage)
      | (Some handle, stage) \<Rightarrow> (run\<lparr>if_outstanding := if_outstanding run + 1, if_phase := phase (Some handle)\<rparr>, stage))"

definition stage_phase :: "'v DurableStore \<Rightarrow> 's DurableStore \<Rightarrow> nat \<Rightarrow> InFlight \<Rightarrow> ('v, 's) Stage \<Rightarrow> InFlight \<times> ('v, 's) Stage" where
  "stage_phase vops ops now run stage =
     (case if_phase run of
        FillingUp \<Rightarrow> stage_fill vops ops now (max (sq_bytes_per_round (sp_policy (fst stage)) div BLOCK_BYTES) 1) run stage
      | Sealing None \<Rightarrow>
          asked_for Sealing (offer (\<lambda>h. st_submit_barrier vops h now) (\<lambda>h. st_submit_barrier ops h now) stage) run
      | Publishing None \<Rightarrow>
          asked_for Publishing (offer (\<lambda>h. st_submit_rename vops h SNAPSHOT_PARTIAL SNAPSHOT_CURRENT now)
            (\<lambda>h. st_submit_rename ops h SNAPSHOT_PARTIAL SNAPSHOT_CURRENT now) stage) run
      | Draining None \<Rightarrow>
          asked_for Draining (offer (\<lambda>h. st_submit_remove vops h SNAPSHOT_PARTIAL now)
            (\<lambda>h. st_submit_remove ops h SNAPSHOT_PARTIAL now) stage) run
      | _ \<Rightarrow> (run, stage))"

definition stage_finish :: "InFlight \<Rightarrow> ('v, 's) Stage \<Rightarrow> ('v, 's) Stage" where
  "stage_finish run stage =
     (case stage of (sp, e) \<Rightarrow>
        (sp\<lparr>sp_stats := (sp_stats sp)\<lparr>ss_written := ss_written (sp_stats sp) + 1, ss_last_rounds := if_rounds run,
              ss_covered := sn_coverage (if_writer run)\<rparr>,
            sp_next_from := en_applied_through e\<rparr>, e))"

text \<open>The shadow against its budget, and whether the dump is over.\<close>

definition stage_settle :: "bool \<Rightarrow> InFlight \<Rightarrow> ('v, 's) Stage \<Rightarrow> ('v, 's) Stage" where
  "stage_settle published run0 stage0 =
     (case stage0 of (sp0, e0) \<Rightarrow>
        let shadow = shadowed (en_index e0);
            sp1 = sp0\<lparr>sp_stats := (sp_stats sp0)\<lparr>ss_shadow_peak := max (ss_shadow_peak (sp_stats sp0)) shadow\<rparr>\<rparr>;
            (run, sp, e) = (if sq_shadow_budget (sp_policy sp1) < shadow then give_up run0 (sp1, e0) else (run0, sp1, e0)) in
        if 0 < if_outstanding run then (sp\<lparr>sp_inflight := Some run\<rparr>, e)
        else if published then stage_finish run (sp, e)
        else if is_removing (if_phase run) then (sp\<lparr>sp_next_from := en_applied_through e\<rparr>, e)
        else (sp\<lparr>sp_inflight := Some run\<rparr>, e))"

definition stage_step :: "'v DurableStore \<Rightarrow> 's DurableStore \<Rightarrow> nat \<Rightarrow> InFlight \<Rightarrow> ('v, 's) Stage \<Rightarrow> ('v, 's) Stage option" where
  "stage_step vops ops now run0 stage = do {
     (run, broken, published, stage1) \<leftarrow> stage_collect vops now (run0\<lparr>if_rounds := if_rounds run0 + 1\<rparr>) False False stage;
     let (run1, stage2) = (if broken then give_up run stage1 else (run, stage1));
     let (run2, stage3) = stage_phase vops ops now run1 stage2;
     Some (stage_settle published run2 stage3)
   }"

definition stage_round :: "'v DurableStore \<Rightarrow> 's DurableStore \<Rightarrow> nat \<Rightarrow> ('v, 's) Stage \<Rightarrow> (bool \<times> ('v, 's) Stage) option" where
  "stage_round vops ops now stage =
     (case stage of (sp, e) \<Rightarrow>
        case sp_inflight sp of
          Some run \<Rightarrow> map_option (Pair True) (stage_step vops ops now run (sp\<lparr>sp_inflight := None\<rparr>, e))
        | None \<Rightarrow>
            if sq_every (sp_policy sp) = 0 then Some (False, sp, e)
            else if en_applied_through e < sp_next_from sp + sq_every (sp_policy sp) then Some (False, sp, e)
            else Some (stage_begin vops ops now (sp, e)))"

text \<open>The current dump read back at a restart: there may be none, and one that is not a snapshot is an error.\<close>

partial_function (option) read_stream ::
  "'v DurableStore \<Rightarrow> 's DurableStore \<Rightarrow> nat \<Rightarrow> SnapshotReader \<Rightarrow> ('v, 's) Stage \<Rightarrow> ((NotASnapshot + SnapshotReader) \<times> ('v, 's) Stage) option" where
  [code]: "read_stream vops ops at reader stage =
     (if reader_complete reader then Some (Inr reader, stage)
      else
        case on_volume (st_read_at vops SNAPSHOT_CURRENT (at * BLOCK_BYTES)) (st_read_at ops SNAPSHOT_CURRENT (at * BLOCK_BYTES)) stage of
          (Inl FaultMissing, stage1) \<Rightarrow> Some (Inl Malformed, stage1)
        | (Inl FaultDevice, stage1) \<Rightarrow> Some (Inl Unreadable, stage1)
        | (Inr block, sp, e) \<Rightarrow>
            (case take_chunk block reader (en_index e) of
               (Inl refused, reader1, index) \<Rightarrow> Some (Inl refused, sp\<lparr>sp_chunk := block\<rparr>, e\<lparr>en_index := index\<rparr>)
             | (Inr _, reader1, index) \<Rightarrow>
                 read_stream vops ops (at + 1) reader1 (sp\<lparr>sp_chunk := block\<rparr>, e\<lparr>en_index := index\<rparr>)))"

definition read_into ::
  "'v DurableStore \<Rightarrow> 's DurableStore \<Rightarrow> ('v, 's) Stage \<Rightarrow> ((NotASnapshot + bool) \<times> ('v, 's) Stage) option" where
  "read_into vops ops stage =
     (case on_volume (st_exists vops SNAPSHOT_CURRENT) (st_exists ops SNAPSHOT_CURRENT) stage of
        (there, stage1) \<Rightarrow>
          if \<not> there then Some (Inr False, stage1)
          else
            case read_stream vops ops 0 snapshot_reader stage1 of
              None \<Rightarrow> None
            | Some (Inl refused, stage2) \<Rightarrow> Some (Inl refused, stage2)
            | Some (Inr reader, sp, e) \<Rightarrow> Some (Inr True, sp, engine_restore ops (sr_groups reader) (sr_coverage reader) e))"

section \<open>The calls a volume takes\<close>

text \<open>A volume that keeps the operations it took and the answers it gave, in order.\<close>

datatype VolumeCall = Wrote u64 ObjectId nat Block bool | Barrier u64 | Removed u64 ObjectId
  | Renamed u64 ObjectId ObjectId | Answered u64 Written

definition traced :: "VolumeCall \<Rightarrow> ('v \<Rightarrow> bool \<times> 'v) \<Rightarrow> 'v \<times> VolumeCall list \<Rightarrow> bool \<times> 'v \<times> VolumeCall list" where
  "traced call f v = (case f (fst v) of (taken, v1) \<Rightarrow> (taken, v1, if taken then snd v @ [call] else snd v))"

definition untraced :: "('v \<Rightarrow> 'a \<times> 'v) \<Rightarrow> 'v \<times> VolumeCall list \<Rightarrow> 'a \<times> 'v \<times> VolumeCall list" where
  "untraced f v = (case f (fst v) of (r, v1) \<Rightarrow> (r, v1, snd v))"

definition tracing :: "'v DurableStore \<Rightarrow> ('v \<times> VolumeCall list) DurableStore" where
  "tracing ops =
     \<lparr>st_submit_write = (\<lambda>h object offset block creating now.
        traced (Wrote h object offset block creating) (st_submit_write ops h object offset block creating now)),
      st_submit_barrier = (\<lambda>h now. traced (Barrier h) (st_submit_barrier ops h now)),
      st_poll_written = (\<lambda>now v. case st_poll_written ops now (fst v) of
         (r, v1) \<Rightarrow> (r, v1, case r of None \<Rightarrow> snd v | Some (h, outcome) \<Rightarrow> snd v @ [Answered h outcome])),
      st_writes_inflight = (\<lambda>v. st_writes_inflight ops (fst v)), st_writes_are_queued = (\<lambda>v. st_writes_are_queued ops (fst v)),
      st_stats = (\<lambda>v. st_stats ops (fst v)), st_read_at = (\<lambda>object offset. untraced (st_read_at ops object offset)),
      st_submit = (\<lambda>h object offset now. untraced (st_submit ops h object offset now)), st_poll = (\<lambda>now. untraced (st_poll ops now)),
      st_inflight = (\<lambda>v. st_inflight ops (fst v)), st_take_charge = untraced (st_take_charge ops),
      st_submit_remove = (\<lambda>h object now. traced (Removed h object) (st_submit_remove ops h object now)),
      st_submit_rename = (\<lambda>h src dst now. traced (Renamed h src dst) (st_submit_rename ops h src dst now)),
      st_blocks_in = (\<lambda>object. untraced (st_blocks_in ops object)), st_exists = (\<lambda>object. untraced (st_exists ops object))\<rparr>"

section \<open>Runs\<close>

text \<open>Rounds of the stage on a volume of its own, an abandonment by the worker, and in between whatever the engine does: any calls that
  change its table, and any log among \<open>logs\<close>.\<close>

inductive stage_run :: "Hasher \<Rightarrow> 's RecordLog set \<Rightarrow> 'v DurableStore \<Rightarrow> 's DurableStore \<Rightarrow> ('v, 's) Stage \<Rightarrow> ('v, 's) Stage \<Rightarrow> bool"
  for hs logs vops ops start where
  stage_starts: "stage_run hs logs vops ops start start"
| stage_rounds: "stage_run hs logs vops ops start stage \<Longrightarrow> stage_round vops ops now stage = Some (progress, stage') \<Longrightarrow>
    stage_run hs logs vops ops start stage'"
| stage_abandons: "stage_run hs logs vops ops start stage \<Longrightarrow> stage_run hs logs vops ops start (stage_abandon stage)"
| engine_works: "stage_run hs logs vops ops start (sp, e) \<Longrightarrow> (table_step hs)\<^sup>*\<^sup>* (en_index e) (en_index e') \<Longrightarrow>
    en_records e' \<in> logs \<Longrightarrow> stage_run hs logs vops ops start (sp, e')"

section \<open>A whole stream behind the name\<close>

text \<open>The blocks written since the calls began.\<close>

definition writes_of :: "VolumeCall list \<Rightarrow> (ObjectId \<times> nat \<times> Block \<times> bool) list" where
  "writes_of calls =
     List.map_filter (\<lambda>call. case call of Wrote _ object offset block creating \<Rightarrow> Some (object, offset, block, creating) | _ \<Rightarrow> None) calls"

definition as_writes :: "Block list \<Rightarrow> (ObjectId \<times> nat \<times> Block \<times> bool) list" where
  "as_writes blocks = map (\<lambda>i. (SNAPSHOT_PARTIAL, i * BLOCK_BYTES, blocks ! i, i = 0)) [0..<length blocks]"

definition within_dump :: "VolumeCall \<Rightarrow> bool" where
  "within_dump call \<longleftrightarrow>
     (case call of Answered _ outcome \<Rightarrow> is_ok outcome | Removed _ _ \<Rightarrow> False | Renamed _ _ _ \<Rightarrow> False | _ \<Rightarrow> True)"

text \<open>One dump's calls, from the removal of the last partial: nothing failed, and the blocks of a stream at their offsets.\<close>

definition dump_so_far :: "VolumeCall list \<Rightarrow> VolumeCall list \<Rightarrow> Block list \<Rightarrow> bool" where
  "dump_so_far trace calls blocks \<longleftrightarrow>
     (\<exists>earlier h. trace = earlier @ Removed h SNAPSHOT_PARTIAL # calls) \<and> writes_of calls = as_writes blocks
     \<and> list_all within_dump calls"

text \<open>The blocks are a whole stream, of one instant of the table, padded with zeroes.\<close>

definition whole_stream :: "Hasher \<Rightarrow> 's RecordLog set \<Rightarrow> Block list \<Rightarrow> bool" where
  "whole_stream hs logs blocks \<longleftrightarrow>
     (\<exists>t0 budgets covered reflect out w t padding.
        table_shape t0 \<and> snapshot_writing hs logs (snapshot_writer (length (ht_buckets t0)) budgets covered reflect) t0 out w t
        \<and> writer_complete w \<and> concat blocks = out @ zeros padding)"

text \<open>A barrier taken after the last block, and answered well.\<close>

definition barrier_held :: "VolumeCall list \<Rightarrow> bool" where
  "barrier_held calls \<longleftrightarrow>
     (\<exists>before h after. calls = before @ Barrier h # after \<and> writes_of after = [] \<and> Answered h (Inr ()) \<in> set after)"

definition may_be_named :: "Hasher \<Rightarrow> 's RecordLog set \<Rightarrow> VolumeCall list \<Rightarrow> bool" where
  "may_be_named hs logs trace \<longleftrightarrow>
     (\<exists>calls blocks. dump_so_far trace calls blocks \<and> whole_stream hs logs blocks \<and> barrier_held calls)"

text \<open>The current name is touched by nothing but a rename of the partial, and only when it may be named.\<close>

definition call_allowed :: "Hasher \<Rightarrow> 's RecordLog set \<Rightarrow> VolumeCall list \<Rightarrow> VolumeCall \<Rightarrow> bool" where
  "call_allowed hs logs trace call \<longleftrightarrow>
     (case call of
        Wrote _ object _ _ _ \<Rightarrow> object = SNAPSHOT_PARTIAL
      | Removed _ object \<Rightarrow> object = SNAPSHOT_PARTIAL
      | Renamed _ src dst \<Rightarrow> src = SNAPSHOT_PARTIAL \<and> dst = SNAPSHOT_CURRENT \<and> may_be_named hs logs trace
      | _ \<Rightarrow> True)"

definition trace_ok :: "Hasher \<Rightarrow> 's RecordLog set \<Rightarrow> VolumeCall list \<Rightarrow> bool" where
  "trace_ok hs logs trace \<longleftrightarrow> (\<forall>before call after. trace = before @ call # after \<longrightarrow> call_allowed hs logs before call)"

lemma trace_ok_Nil: "trace_ok hs logs []"
  by (simp add: trace_ok_def)

lemma trace_ok_snoc: "trace_ok hs logs (trace @ [call]) \<longleftrightarrow> trace_ok hs logs trace \<and> call_allowed hs logs trace call"
proof (intro iffI conjI)
  assume all: "trace_ok hs logs (trace @ [call])"
  show "trace_ok hs logs trace" unfolding trace_ok_def
  proof (intro allI impI)
    fix before c after assume "trace = before @ c # after"
    then have "trace @ [call] = before @ c # (after @ [call])" by simp
    then show "call_allowed hs logs before c" using all unfolding trace_ok_def by blast
  qed
  show "call_allowed hs logs trace call" using all unfolding trace_ok_def by blast
next
  assume ok: "trace_ok hs logs trace \<and> call_allowed hs logs trace call"
  show "trace_ok hs logs (trace @ [call])" unfolding trace_ok_def
  proof (intro allI impI)
    fix before c after assume eq: "trace @ [call] = before @ c # after"
    show "call_allowed hs logs before c"
    proof (cases after rule: rev_cases)
      case Nil
      then show ?thesis using eq ok by simp
    next
      case (snoc rest last)
      then have "trace = before @ c # rest" using eq by simp
      then show ?thesis using ok unfolding trace_ok_def by blast
    qed
  qed
qed


section \<open>What a run keeps\<close>

text \<open>The blocks produced so far are a stream being written; until it is whole, each is full.\<close>

definition stream_being_written :: "Hasher \<Rightarrow> 's RecordLog set \<Rightarrow> SnapshotWriter \<Rightarrow> HoldTable \<Rightarrow> Block list \<Rightarrow> bool" where
  "stream_being_written hs logs writer index blocks \<longleftrightarrow>
     (\<exists>t0 budgets covered reflect out.
        table_shape t0 \<and> snapshot_writing hs logs (snapshot_writer (length (ht_buckets t0)) budgets covered reflect) t0 out writer index
        \<and> \<not> writer_complete writer \<and> concat blocks = out)"

definition filling_ok :: "Hasher \<Rightarrow> 's RecordLog set \<Rightarrow> VolumeCall list \<Rightarrow> InFlight \<Rightarrow> bool \<Rightarrow> Block \<Rightarrow> HoldTable \<Rightarrow> bool" where
  "filling_ok hs logs trace run unsubmitted chunk index \<longleftrightarrow>
     (\<exists>calls blocks. dump_so_far trace calls blocks \<and> length blocks = if_blocks run
        \<and> (if unsubmitted then whole_stream hs logs (blocks @ [chunk]) \<and> writer_complete (if_writer run)
             \<or> stream_being_written hs logs (if_writer run) index (blocks @ [chunk])
           else stream_being_written hs logs (if_writer run) index blocks))"

definition run_ok :: "Hasher \<Rightarrow> 's RecordLog set \<Rightarrow> VolumeCall list \<Rightarrow> InFlight \<Rightarrow> bool \<Rightarrow> Block \<Rightarrow> HoldTable \<Rightarrow> bool" where
  "run_ok hs logs trace run unsubmitted chunk index \<longleftrightarrow>
     (case if_phase run of
        FillingUp \<Rightarrow> filling_ok hs logs trace run unsubmitted chunk index
      | Sealing None \<Rightarrow> \<exists>calls blocks. dump_so_far trace calls blocks \<and> whole_stream hs logs blocks
      | Sealing (Some h) \<Rightarrow> \<exists>calls blocks before after. dump_so_far trace calls blocks \<and> whole_stream hs logs blocks
          \<and> calls = before @ Barrier h # after \<and> writes_of after = []
      | Publishing None \<Rightarrow> may_be_named hs logs trace
      | _ \<Rightarrow> True)"

text \<open>A call appended to the trace.\<close>

lemma writes_of_append: "writes_of (xs @ ys) = writes_of xs @ writes_of ys"
  by (simp add: writes_of_def List.map_filter_def)

lemma as_writes_snoc: "as_writes (blocks @ [b]) = as_writes blocks @ [(SNAPSHOT_PARTIAL, length blocks * BLOCK_BYTES, b, blocks = [])]"
  by (auto simp: as_writes_def nth_append)

lemma dump_starts: "dump_so_far (trace @ [Removed h SNAPSHOT_PARTIAL]) [] []"
  by (auto simp: dump_so_far_def writes_of_def as_writes_def List.map_filter_def)

lemma writes_of_one [simp]:
  "writes_of [Barrier h] = []" "writes_of [Answered h outcome] = []" "writes_of [] = []"
  "writes_of [Wrote h object offset b creating] = [(object, offset, b, creating)]"
  by (simp_all add: writes_of_def List.map_filter_def)

lemma dump_grows:
  assumes "dump_so_far trace calls blocks" "within_dump call" "as_writes blocks' = as_writes blocks @ writes_of [call]"
  shows "dump_so_far (trace @ [call]) (calls @ [call]) blocks'"
proof -
  obtain earlier h where "trace = earlier @ Removed h SNAPSHOT_PARTIAL # calls" using assms(1) unfolding dump_so_far_def by blast
  then have "trace @ [call] = earlier @ Removed h SNAPSHOT_PARTIAL # (calls @ [call])" by simp
  moreover have "writes_of (calls @ [call]) = as_writes blocks'" "list_all within_dump (calls @ [call])"
    using assms unfolding dump_so_far_def by (simp_all only: writes_of_append) simp_all
  ultimately show ?thesis unfolding dump_so_far_def by blast
qed

lemma dump_quiet:
  assumes "dump_so_far trace calls blocks" "call = Barrier h \<or> call = Answered h outcome \<and> is_ok outcome"
  shows "dump_so_far (trace @ [call]) (calls @ [call]) blocks"
  using assms(2) by (intro dump_grows [OF assms(1)]) (auto simp: within_dump_def)

lemma dump_writes:
  assumes "dump_so_far trace calls blocks" "call = Wrote h SNAPSHOT_PARTIAL (length blocks * BLOCK_BYTES) b (length blocks = 0)"
  shows "dump_so_far (trace @ [call]) (calls @ [call]) (blocks @ [b])"
  using assms(2) by (intro dump_grows [OF assms(1)]) (auto simp: within_dump_def as_writes_snoc)

text \<open>An answer: a failure, or what was so stays so.\<close>

lemma answer_keeps:
  assumes "run_ok hs logs trace run unsubmitted chunk index" "run_answered h outcome run = (run1, failed, named)"
  shows "failed \<or> run_ok hs logs (trace @ [Answered h outcome]) run1 unsubmitted chunk index"
proof (cases "is_ok outcome")
  case False
  then show ?thesis using assms(2) by (simp add: run_answered_def)
next
  case ok: True
  then have o: "outcome = Inr ()" by (cases outcome) (auto simp: is_ok_def)
  note quiet = dump_quiet [where call = "Answered h outcome" and h = h and outcome = outcome]
  consider (sealed) "if_phase run = Sealing (Some h)" | (other) "if_phase run \<noteq> Sealing (Some h)" by blast
  then show ?thesis
  proof cases
    case sealed
    then obtain calls blocks before after where d: "dump_so_far trace calls blocks" "whole_stream hs logs blocks"
        "calls = before @ Barrier h # after" "writes_of after = []"
      using assms(1) by (auto simp: run_ok_def)
    have "dump_so_far (trace @ [Answered h outcome]) (calls @ [Answered h outcome]) blocks" using quiet [OF d(1)] ok by simp
    moreover have "barrier_held (calls @ [Answered h outcome])" unfolding barrier_held_def
      by (rule exI [of _ before], rule exI [of _ h], rule exI [of _ "after @ [Answered h outcome]"])
         (use d(3,4) in \<open>simp add: o writes_of_append\<close>)
    ultimately have "may_be_named hs logs (trace @ [Answered h outcome])" using d(2) unfolding may_be_named_def by blast
    moreover have "if_phase run1 = Publishing None" using assms(2) sealed ok by (auto simp: run_answered_def)
    ultimately show ?thesis by (simp add: run_ok_def)
  next
    case other
    then have r1: "run1 = run\<lparr>if_outstanding := if_outstanding run - 1\<rparr>" using assms(2) ok by (auto simp: run_answered_def)
    have named: "may_be_named hs logs trace \<Longrightarrow> may_be_named hs logs (trace @ [Answered h outcome])"
      unfolding may_be_named_def
    proof (elim exE conjE)
      fix calls blocks assume d: "dump_so_far trace calls blocks" "whole_stream hs logs blocks" "barrier_held calls"
      from d(3) obtain before h' after where b: "calls = before @ Barrier h' # after" "writes_of after = []" "Answered h' (Inr ()) \<in> set after"
        unfolding barrier_held_def by blast
      have "barrier_held (calls @ [Answered h outcome])" unfolding barrier_held_def
        by (rule exI [of _ before], rule exI [of _ h'], rule exI [of _ "after @ [Answered h outcome]"])
           (use b in \<open>simp add: writes_of_append\<close>)
      then show "\<exists>calls blocks. dump_so_far (trace @ [Answered h outcome]) calls blocks \<and> whole_stream hs logs blocks \<and> barrier_held calls"
        using quiet [OF d(1)] ok d(2) by blast
    qed
    show ?thesis
    proof (cases "if_phase run")
      case FillingUp
      let ?Q = "\<lambda>blocks. length blocks = if_blocks run
          \<and> (if unsubmitted then whole_stream hs logs (blocks @ [chunk]) \<and> writer_complete (if_writer run)
               \<or> stream_being_written hs logs (if_writer run) index (blocks @ [chunk])
             else stream_being_written hs logs (if_writer run) index blocks)"
      obtain calls blocks where d: "dump_so_far trace calls blocks" "?Q blocks"
        using assms(1) FillingUp by (auto simp: run_ok_def filling_ok_def)
      have "filling_ok hs logs (trace @ [Answered h outcome]) run1 unsubmitted chunk index"
        unfolding filling_ok_def
        by (rule exI [of _ "calls @ [Answered h outcome]"], rule exI [of _ blocks])
           (use quiet [OF d(1)] ok d(2) in \<open>simp add: r1\<close>)
      then show ?thesis using FillingUp by (simp add: run_ok_def r1)
    next
      case (Sealing sealing)
      show ?thesis
      proof (cases sealing)
        case None
        then obtain calls blocks where d: "dump_so_far trace calls blocks" "whole_stream hs logs blocks"
          using assms(1) Sealing by (auto simp: run_ok_def)
        show ?thesis using quiet [OF d(1)] ok d(2) None Sealing by (auto simp: run_ok_def r1)
      next
        case (Some h')
        then obtain calls blocks before after where d: "dump_so_far trace calls blocks" "whole_stream hs logs blocks"
            "calls = before @ Barrier h' # after" "writes_of after = []"
          using assms(1) Sealing by (auto simp: run_ok_def)
        have "calls @ [Answered h outcome] = before @ Barrier h' # (after @ [Answered h outcome])" using d(3) by simp
        moreover have "writes_of (after @ [Answered h outcome]) = []"
          using d(4) by (simp add: writes_of_append)
        moreover have "dump_so_far (trace @ [Answered h outcome]) (calls @ [Answered h outcome]) blocks" using quiet [OF d(1)] ok by simp
        ultimately have "run_ok hs logs (trace @ [Answered h outcome]) run1 unsubmitted chunk index"
          unfolding run_ok_def r1 using d(2) Some Sealing by simp blast
        then show ?thesis by simp
      qed
    qed (use assms(1) named in \<open>auto simp: run_ok_def r1 split: option.splits\<close>)
  qed
qed


lemma offer_own:
  assumes "sp_own sp = Some (v, trace)" "offer (\<lambda>h. traced (call h) (k h)) g (sp, e) = (r, stage)"
  obtains v' where "stage = (case r of None \<Rightarrow> (sp\<lparr>sp_own := Some (v', trace)\<rparr>, e)
      | Some h \<Rightarrow> (sp\<lparr>sp_own := Some (v', trace @ [call h]), sp_handles := sp_handles sp + 1\<rparr>, e))"
proof -
  obtain taken v' where "k (next_handle sp) v = (taken, v')" by force
  then have "stage = (case r of None \<Rightarrow> (sp\<lparr>sp_own := Some (v', trace)\<rparr>, e)
      | Some h \<Rightarrow> (sp\<lparr>sp_own := Some (v', trace @ [call h]), sp_handles := sp_handles sp + 1\<rparr>, e))"
    using assms by (cases taken) (auto simp: offer_def on_volume_def traced_def Let_def)
  then show thesis by (rule that)
qed

lemma tracing_calls:
  "(\<lambda>h. st_submit_remove (tracing vops) h object now) = (\<lambda>h. traced (Removed h object) (st_submit_remove vops h object now))"
  "(\<lambda>h. st_submit_barrier (tracing vops) h now) = (\<lambda>h. traced (Barrier h) (st_submit_barrier vops h now))"
  "(\<lambda>h. st_submit_rename (tracing vops) h src dst now) = (\<lambda>h. traced (Renamed h src dst) (st_submit_rename vops h src dst now))"
  "(\<lambda>h. st_submit_write (tracing vops) h object offset b creating now) =
     (\<lambda>h. traced (Wrote h object offset b creating) (st_submit_write vops h object offset b creating now))"
  by (simp_all add: tracing_def)

lemma collect_step:
  assumes IH: "\<And>run broken published stage y. f (tracing vops) now run broken published stage = Some y \<Longrightarrow>
      (\<forall>sp e v trace. stage = (sp, e) \<longrightarrow> sp_own sp = Some (v, trace) \<longrightarrow> trace_ok hs logs trace \<longrightarrow>
        broken \<or> run_ok hs logs trace run (sp_unsubmitted sp) (sp_chunk sp) (en_index e) \<longrightarrow>
        (\<exists>run' broken' published' v' trace'. y = (run', broken', published', sp\<lparr>sp_own := Some (v', trace')\<rparr>, e)
          \<and> trace_ok hs logs trace'
          \<and> (broken' \<or> run_ok hs logs trace' run' (sp_unsubmitted sp) (sp_chunk sp) (en_index e))))"
    and step: "(case stage_completion (tracing vops) now stage of
        (None, stage1) \<Rightarrow> Some (run, broken, published, stage1)
      | (Some (handle, outcome), stage1) \<Rightarrow>
          (case run_answered handle outcome run of
             (run1, failed, named) \<Rightarrow> f (tracing vops) now run1 (broken \<or> failed) (published \<or> named) stage1)) = Some y"
    and own: "stage = (sp, e)" "sp_own sp = Some (v, trace)" "trace_ok hs logs trace"
      "broken \<or> run_ok hs logs trace run (sp_unsubmitted sp) (sp_chunk sp) (en_index e)"
  shows "\<exists>run' broken' published' v' trace'. y = (run', broken', published', sp\<lparr>sp_own := Some (v', trace')\<rparr>, e)
          \<and> trace_ok hs logs trace'
          \<and> (broken' \<or> run_ok hs logs trace' run' (sp_unsubmitted sp) (sp_chunk sp) (en_index e))"
proof -
  obtain answer v1 where poll: "st_poll_written vops now v = (answer, v1)" by force
  show ?thesis
  proof (cases answer)
    case None
    then have "y = (run, broken, published, sp\<lparr>sp_own := Some (v1, trace)\<rparr>, e)"
      using step own poll by (auto simp: stage_completion_def tracing_def)
    then show ?thesis using own(3,4) by blast
  next
    case (Some a)
    obtain h outcome where a: "a = (h, outcome)" by force
    obtain run1 failed named where r: "run_answered h outcome run = (run1, failed, named)" by (metis prod_cases3)
    let ?sp = "sp\<lparr>sp_own := Some (v1, trace @ [Answered h outcome])\<rparr>"
    have "f (tracing vops) now run1 (broken \<or> failed) (published \<or> named) (?sp, e) = Some y"
      using step own poll Some a r by (auto simp: stage_completion_def tracing_def)
    moreover have "trace_ok hs logs (trace @ [Answered h outcome])" using own(3) by (simp add: trace_ok_snoc call_allowed_def)
    moreover have "(broken \<or> failed) \<or> run_ok hs logs (trace @ [Answered h outcome]) run1 (sp_unsubmitted sp) (sp_chunk sp) (en_index e)"
      using answer_keeps [OF _ r] own(4) by blast
    ultimately obtain run' broken' published' v' trace' where
        "y = (run', broken', published', ?sp\<lparr>sp_own := Some (v', trace')\<rparr>, e)" "trace_ok hs logs trace'"
        "broken' \<or> run_ok hs logs trace' run' (sp_unsubmitted sp) (sp_chunk sp) (en_index e)"
      using IH [of run1 "broken \<or> failed" "published \<or> named" "(?sp, e)" y] by auto
    then show ?thesis by auto
  qed
qed

lemma stage_collect_ok:
  assumes "stage_collect (tracing vops) now run broken published (sp, e) = Some y" "sp_own sp = Some (v, trace)" "trace_ok hs logs trace"
    "broken \<or> run_ok hs logs trace run (sp_unsubmitted sp) (sp_chunk sp) (en_index e)"
  shows "\<exists>run' broken' published' v' trace'. y = (run', broken', published', sp\<lparr>sp_own := Some (v', trace')\<rparr>, e)
          \<and> trace_ok hs logs trace'
          \<and> (broken' \<or> run_ok hs logs trace' run' (sp_unsubmitted sp) (sp_chunk sp) (en_index e))"
proof -
  let ?P = "\<lambda>ops now run broken published stage y. ops = tracing vops \<longrightarrow> (\<forall>sp e v trace. stage = (sp, e) \<longrightarrow>
        sp_own sp = Some (v, trace) \<longrightarrow> trace_ok hs logs trace \<longrightarrow>
        broken \<or> run_ok hs logs trace run (sp_unsubmitted sp) (sp_chunk sp) (en_index e) \<longrightarrow>
        (\<exists>run' broken' published' v' trace'. y = (run', broken', published', sp\<lparr>sp_own := Some (v', trace')\<rparr>, e)
          \<and> trace_ok hs logs trace'
          \<and> (broken' \<or> run_ok hs logs trace' run' (sp_unsubmitted sp) (sp_chunk sp) (en_index e))))"
  have "?P (tracing vops) now run broken published (sp, e) y"
  proof (rule stage_collect.raw_induct [of ?P, OF _ assms(1)], goal_cases)
    case outer: (1 f ops now run broken published stage y)
    show ?case
    proof (intro impI allI, goal_cases)
      case (1 sp e v trace)
      note tr = 1(1)
      show ?case
      proof (rule collect_step [where f = f and now = now and vops = vops and published = published, OF _ _ 1(2-5)])
        fix run broken published stage y assume "f (tracing vops) now run broken published stage = Some y"
        from outer(1) [OF this] show "\<forall>sp e v trace. stage = (sp, e) \<longrightarrow> sp_own sp = Some (v, trace) \<longrightarrow>
            trace_ok hs logs trace \<longrightarrow> broken \<or> run_ok hs logs trace run (sp_unsubmitted sp) (sp_chunk sp) (en_index e) \<longrightarrow>
            (\<exists>run' broken' published' v' trace'. y = (run', broken', published', sp\<lparr>sp_own := Some (v', trace')\<rparr>, e)
              \<and> trace_ok hs logs trace' \<and> (broken' \<or> run_ok hs logs trace' run' (sp_unsubmitted sp) (sp_chunk sp) (en_index e)))"
          by blast
      qed (use outer(2) [unfolded tr] in blast)
    qed
  qed
  then show ?thesis using assms(2-4) by blast
qed

text \<open>A block produced.\<close>

lemma produced_ok:
  assumes "stream_being_written hs logs writer (en_index e) blocks" "en_records e \<in> logs"
    "engine_next_chunk writer BLOCK_BYTES e = (bytes, writer', e')"
  defines "chunk \<equiv> bytes @ zeros (BLOCK_BYTES - length bytes)"
  shows "bytes \<noteq> []" "en_records e' = en_records e" "table_shape (en_index e')"
    "whole_stream hs logs (blocks @ [chunk]) \<and> writer_complete writer'
      \<or> \<not> writer_complete writer' \<and> stream_being_written hs logs writer' (en_index e') (blocks @ [chunk])"
    "snapshot_records writer \<le> sn_at writer + 128 \<Longrightarrow> writer_complete writer'"
proof -
  obtain t0 budgets covered reflect out where t0: "table_shape t0"
    and wr: "snapshot_writing hs logs (snapshot_writer (length (ht_buckets t0)) budgets covered reflect) t0 out writer (en_index e)"
    and inc: "\<not> writer_complete writer" and out: "concat blocks = out"
    using assms(1) unfolding stream_being_written_def by blast
  let ?w0 = "snapshot_writer (length (ht_buckets t0)) budgets covered reflect"
  have w0: "sn_at ?w0 = 0" "sn_buckets ?w0 = length (ht_buckets t0)" by (simp_all add: snapshot_writer_def)
  obtain index where chunk: "next_chunk writer BLOCK_BYTES (en_index e) (en_records e) = (bytes, writer', index)"
    and e': "e' = e\<lparr>en_index := (if writer_complete writer' then end_snapshot index else index)\<rparr>"
    using assms(3) by (auto simp: engine_next_chunk_def split: prod.splits)
  have wr': "snapshot_writing hs logs ?w0 t0 (out @ bytes) writer' index" by (rule chunk_written [OF wr assms(2) chunk])
  obtain kept where ok: "writer_ok logs (ht_buckets t0) writer kept (en_index e)" and o: "out = concat (stream_so_far writer kept)"
      and w: "writer = ?w0\<lparr>sn_at := sn_at writer\<rparr>"
    using writing_ok [OF wr w0 t0] by blast
  obtain kept' where ok': "writer_ok logs (ht_buckets t0) writer' kept' index" and o': "out @ bytes = concat (stream_so_far writer' kept')"
      and w': "writer' = ?w0\<lparr>sn_at := sn_at writer'\<rparr>"
    using writing_ok [OF wr' w0 t0] by blast
  have at: "sn_at writer' = min (sn_at writer + 128) (snapshot_records writer)"
    using write_records_advances [OF ok assms(2) chunk [unfolded next_chunk_def]] by (simp add: snapshot_consts BLOCK_BYTES_def)
  have same: "snapshot_records writer' = snapshot_records writer"
    by (subst w', subst w) (simp add: snapshot_records_def)
  have lt: "sn_at writer < snapshot_records writer" using ok inc by (auto simp: writer_ok_def writer_complete_def)
  have len: "length out = sn_at writer * 32" "length (out @ bytes) = sn_at writer' * 32"
    using stream_so_far_length [OF ok] stream_so_far_length [OF ok'] o o' by (simp_all add: snapshot_consts)
  show "bytes \<noteq> []" using len at lt by auto
  show "writer_complete writer'" if "snapshot_records writer \<le> sn_at writer + 128"
    using at same that by (simp add: writer_complete_def)
  show "en_records e' = en_records e" by (simp add: e')
  show "table_shape (en_index e')" using writer_ok_table(4) [OF ok'] by (simp add: e' table_shape_def end_snapshot_def)
  have cat: "concat (blocks @ [chunk]) = (out @ bytes) @ zeros (BLOCK_BYTES - length bytes)" by (simp add: out chunk_def)
  show "whole_stream hs logs (blocks @ [chunk]) \<and> writer_complete writer'
      \<or> \<not> writer_complete writer' \<and> stream_being_written hs logs writer' (en_index e') (blocks @ [chunk])"
  proof (cases "writer_complete writer'")
    case True
    then have "whole_stream hs logs (blocks @ [chunk])" unfolding whole_stream_def using t0 wr' cat by blast
    then show ?thesis using True by simp
  next
    case False
    then have "sn_at writer' = sn_at writer + 128" using at same by (auto simp: writer_complete_def min_def split: if_splits)
    then have "length bytes = BLOCK_BYTES" using len by (simp add: BLOCK_BYTES_def)
    then have "concat (blocks @ [chunk]) = out @ bytes" using cat by (simp add: zeros_def)
    then have "stream_being_written hs logs writer' (en_index e') (blocks @ [chunk])"
      unfolding stream_being_written_def using t0 wr' False by (auto simp: e')
    then show ?thesis using False by simp
  qed
qed

section \<open>Every round keeps it\<close>

definition stage_ok :: "Hasher \<Rightarrow> 's RecordLog set \<Rightarrow> InFlight option \<Rightarrow> ('v \<times> VolumeCall list, 's) Stage \<Rightarrow> bool" where
  "stage_ok hs logs run stage \<longleftrightarrow>
     (case stage of (sp, e) \<Rightarrow>
        table_shape (en_index e) \<and> en_records e \<in> logs \<and>
        (\<exists>v trace. sp_own sp = Some (v, trace) \<and> trace_ok hs logs trace
           \<and> (case run of None \<Rightarrow> True | Some r \<Rightarrow> run_ok hs logs trace r (sp_unsubmitted sp) (sp_chunk sp) (en_index e))))"

lemma produce_ok:
  assumes "filling_ok hs logs trace run (sp_unsubmitted sp) (sp_chunk sp) (en_index e)" "table_shape (en_index e)"
    "en_records e \<in> logs" "if_phase run = FillingUp" "stage_produce run (sp, e) = (nothing, run1, sp1, e1)"
  shows "\<not> nothing" "if_phase run1 = FillingUp" "sp_own sp1 = sp_own sp" "sp_unsubmitted sp1" "table_shape (en_index e1)"
    "en_records e1 \<in> logs" "filling_ok hs logs trace run1 True (sp_chunk sp1) (en_index e1)"
proof -
  have "\<not> nothing \<and> if_phase run1 = FillingUp \<and> sp_own sp1 = sp_own sp \<and> sp_unsubmitted sp1 \<and> table_shape (en_index e1)
      \<and> en_records e1 \<in> logs \<and> filling_ok hs logs trace run1 True (sp_chunk sp1) (en_index e1)"
  proof (cases "sp_unsubmitted sp")
    case True
    then show ?thesis using assms by (auto simp: stage_produce_def)
  next
    case False
    obtain bytes writer e' where c: "engine_next_chunk (if_writer run) BLOCK_BYTES e = (bytes, writer, e')" by (metis prod_cases3)
    obtain calls blocks where d: "dump_so_far trace calls blocks" "length blocks = if_blocks run"
        "stream_being_written hs logs (if_writer run) (en_index e) blocks"
      using assms(1) False by (auto simp: filling_ok_def)
    note p = produced_ok [OF d(3) assms(3) c]
    have "filling_ok hs logs trace (run\<lparr>if_writer := writer\<rparr>) True (bytes @ zeros (BLOCK_BYTES - length bytes)) (en_index e')"
      unfolding filling_ok_def using d(1,2) p(4) by auto
    then show ?thesis using assms False c p(1-3) by (auto simp: stage_produce_def)
  qed
  then show "\<not> nothing" "if_phase run1 = FillingUp" "sp_own sp1 = sp_own sp" "sp_unsubmitted sp1" "table_shape (en_index e1)"
    "en_records e1 \<in> logs" "filling_ok hs logs trace run1 True (sp_chunk sp1) (en_index e1)" by auto
qed

lemma submitted_ok:
  fixes h :: u64
  assumes "filling_ok hs logs trace run True chunk index"
  defines "trace' \<equiv> trace @ [Wrote h SNAPSHOT_PARTIAL (if_blocks run * BLOCK_BYTES) chunk (if_blocks run = 0)]"
  shows "writer_complete (if_writer run) \<Longrightarrow> \<exists>calls blocks. dump_so_far trace' calls blocks \<and> whole_stream hs logs blocks"
    "\<not> writer_complete (if_writer run) \<Longrightarrow>
      \<exists>calls blocks. dump_so_far trace' calls blocks \<and> length blocks = if_blocks run + 1
        \<and> stream_being_written hs logs (if_writer run) index blocks"
proof -
  obtain calls blocks where d: "dump_so_far trace calls blocks" "length blocks = if_blocks run"
      "whole_stream hs logs (blocks @ [chunk]) \<and> writer_complete (if_writer run)
        \<or> stream_being_written hs logs (if_writer run) index (blocks @ [chunk])"
    using assms(1) by (auto simp: filling_ok_def)
  note grown = dump_writes [OF d(1) refl, of h chunk, unfolded d(2)]
  show "\<exists>calls blocks. dump_so_far trace' calls blocks \<and> whole_stream hs logs blocks" if "writer_complete (if_writer run)"
    using grown d(3) that unfolding trace'_def by (auto simp: stream_being_written_def)
  show "\<exists>calls blocks. dump_so_far trace' calls blocks \<and> length blocks = if_blocks run + 1
        \<and> stream_being_written hs logs (if_writer run) index blocks" if "\<not> writer_complete (if_writer run)"
    using grown d(2,3) that unfolding trace'_def
    by (intro exI [of _ "calls @ [Wrote h SNAPSHOT_PARTIAL (if_blocks run * BLOCK_BYTES) chunk (if_blocks run = 0)]"]
          exI [of _ "blocks @ [chunk]"]) auto
qed

lemma stage_fill_ok:
  assumes "if_phase run = FillingUp" "stage_ok hs logs (Some run) stage" "stage_fill (tracing vops) ops now n run stage = (run', stage')"
  shows "stage_ok hs logs (Some run') stage'"
  using assms
proof (induction n arbitrary: run stage)
  case (Suc n)
  obtain sp e where stage: "stage = (sp, e)" by force
  show ?case
  proof (cases "sp_share sp \<le> if_outstanding run")
    case True
    then show ?thesis using Suc.prems stage by simp
  next
    case False': False
    obtain v trace where own: "sp_own sp = Some (v, trace)" "trace_ok hs logs trace" "table_shape (en_index e)" "en_records e \<in> logs"
        "filling_ok hs logs trace run (sp_unsubmitted sp) (sp_chunk sp) (en_index e)"
      using Suc.prems(1,2) stage by (auto simp: stage_ok_def run_ok_def)
    obtain nothing run1 sp1 e1 where p: "stage_produce run (sp, e) = (nothing, run1, sp1, e1)" by (metis prod_cases4)
    note made = produce_ok [OF own(5,3,4) Suc.prems(1) p]
    let ?call = "\<lambda>h. Wrote h SNAPSHOT_PARTIAL (if_blocks run1 * BLOCK_BYTES) (sp_chunk sp1) (if_blocks run1 = 0)"
    let ?submit = "\<lambda>h. st_submit_write vops h SNAPSHOT_PARTIAL (if_blocks run1 * BLOCK_BYTES) (sp_chunk sp1) (if_blocks run1 = 0) now"
    let ?g = "\<lambda>h. st_submit_write ops h SNAPSHOT_PARTIAL (if_blocks run1 * BLOCK_BYTES) (sp_chunk sp1) (if_blocks run1 = 0) now"
    obtain r stage2 where off: "offer (\<lambda>h. traced (?call h) (?submit h)) ?g (sp1, e1) = (r, stage2)" by (rule prod.exhaust)
    have own1: "sp_own sp1 = Some (v, trace)" using own(1) made(3) by simp
    obtain v' where s2: "stage2 = (case r of None \<Rightarrow> (sp1\<lparr>sp_own := Some (v', trace)\<rparr>, e1)
        | Some h \<Rightarrow> (sp1\<lparr>sp_own := Some (v', trace @ [?call h]), sp_handles := sp_handles sp1 + 1\<rparr>, e1))"
      by (rule offer_own [OF own1 off])
    show ?thesis
    proof (cases r)
      case None
      then have "run' = run1" "stage' = (sp1\<lparr>sp_own := Some (v', trace)\<rparr>, e1)"
        using Suc.prems(3) False' made(1) stage p off s2 by (simp_all add: tracing_calls Let_def)
      then show ?thesis using made own(2) by (simp add: stage_ok_def run_ok_def)
    next
      case (Some h)
      let ?run2 = "run1\<lparr>if_blocks := if_blocks run1 + 1, if_outstanding := if_outstanding run1 + 1\<rparr>"
      let ?sp2 = "sp1\<lparr>sp_own := Some (v', trace @ [?call h]), sp_handles := sp_handles sp1 + 1\<rparr>"
      let ?sp3 = "?sp2\<lparr>sp_unsubmitted := False, sp_stats := (sp_stats sp1)\<lparr>ss_bytes := ss_bytes (sp_stats sp1) + BLOCK_BYTES\<rparr>\<rparr>"
      have tr: "trace_ok hs logs (trace @ [?call h])" using own(2) by (simp add: trace_ok_snoc call_allowed_def)
      note wrote = submitted_ok [OF made(7), of h]
      show ?thesis
      proof (cases "writer_complete (if_writer run1)")
        case True
        then have "run' = ?run2\<lparr>if_phase := Sealing None\<rparr>" "stage' = (?sp3, e1)"
          using Suc.prems(3) False' made(1) stage p off s2 Some by (simp_all add: tracing_calls Let_def)
        then show ?thesis using wrote(1) [OF True] tr made(5,6) by (simp add: stage_ok_def run_ok_def)
      next
        case False
        have "stage_ok hs logs (Some ?run2) (?sp3, e1)"
          using wrote(2) [OF False] tr made(2,5,6) by (simp add: stage_ok_def run_ok_def filling_ok_def)
        moreover have "if_phase ?run2 = FillingUp" using made(2) by simp
        moreover have "stage_fill (tracing vops) ops now n ?run2 (?sp3, e1) = (run', stage')"
          using Suc.prems(3) False False' made(1) stage p off s2 Some by (simp add: tracing_calls Let_def)
        ultimately show ?thesis by (intro Suc.IH)
      qed
    qed
  qed
qed simp

lemma asked_ok:
  assumes "stage_ok hs logs (Some run) (sp, e)" "sp_own sp = Some (v, trace)"
    "asked_for phase (offer (\<lambda>h. traced (call h) (k h)) g (sp, e)) run = (run', stage')"
    "\<And>h. call_allowed hs logs trace (call h)"
    "\<And>h. run_ok hs logs (trace @ [call h]) (run\<lparr>if_outstanding := if_outstanding run + 1, if_phase := phase (Some h)\<rparr>)
        (sp_unsubmitted sp) (sp_chunk sp) (en_index e)"
  shows "stage_ok hs logs (Some run') stage'"
proof -
  obtain r stage2 where off: "offer (\<lambda>h. traced (call h) (k h)) g (sp, e) = (r, stage2)" by (rule prod.exhaust)
  obtain v' where "stage2 = (case r of None \<Rightarrow> (sp\<lparr>sp_own := Some (v', trace)\<rparr>, e)
      | Some h \<Rightarrow> (sp\<lparr>sp_own := Some (v', trace @ [call h]), sp_handles := sp_handles sp + 1\<rparr>, e))"
    by (rule offer_own [OF assms(2) off])
  then show ?thesis using assms off by (cases r) (auto simp: asked_for_def stage_ok_def trace_ok_snoc)
qed

lemma stage_phase_ok:
  assumes "stage_ok hs logs (Some run) stage" "stage_phase (tracing vops) ops now run stage = (run', stage')"
  shows "stage_ok hs logs (Some run') stage'"
proof -
  obtain sp e where stage: "stage = (sp, e)" by force
  obtain v trace where own: "sp_own sp = Some (v, trace)" "run_ok hs logs trace run (sp_unsubmitted sp) (sp_chunk sp) (en_index e)"
    using assms(1) stage by (auto simp: stage_ok_def)
  note asked = asked_ok [OF assms(1) [unfolded stage] own(1)]
  have same: ?thesis if "(run', stage') = (run, stage)" using assms(1) that by simp
  show ?thesis
  proof (cases "if_phase run")
    case FillingUp
    then show ?thesis using stage_fill_ok [OF FillingUp assms(1)] assms(2) by (simp add: stage_phase_def)
  next
    case (Sealing sealing)
    show ?thesis
    proof (cases sealing)
      case None
      obtain calls blocks where d: "dump_so_far trace calls blocks" "whole_stream hs logs blocks"
        using own(2) Sealing None by (auto simp: run_ok_def)
      show ?thesis
      proof (rule asked)
        show "asked_for Sealing (offer (\<lambda>h. traced (Barrier h) (st_submit_barrier vops h now)) (\<lambda>h. st_submit_barrier ops h now) (sp, e)) run
            = (run', stage')"
          using assms(2) Sealing None stage by (simp add: stage_phase_def tracing_calls)
      next
        fix h
        have "dump_so_far (trace @ [Barrier h]) (calls @ [Barrier h]) blocks" by (rule dump_quiet [OF d(1)]) simp
        then show "run_ok hs logs (trace @ [Barrier h]) (run\<lparr>if_outstanding := if_outstanding run + 1, if_phase := Sealing (Some h)\<rparr>)
            (sp_unsubmitted sp) (sp_chunk sp) (en_index e)"
          using d(2) by (simp add: run_ok_def) (metis append_Cons append_Nil writes_of_one(3))
      qed (simp add: call_allowed_def)
    qed (use same assms(2) Sealing in \<open>simp add: stage_phase_def\<close>)
  next
    case (Publishing publishing)
    show ?thesis
    proof (cases publishing)
      case None
      show ?thesis
      proof (rule asked)
        show "asked_for Publishing (offer (\<lambda>h. traced (Renamed h SNAPSHOT_PARTIAL SNAPSHOT_CURRENT)
              (st_submit_rename vops h SNAPSHOT_PARTIAL SNAPSHOT_CURRENT now))
            (\<lambda>h. st_submit_rename ops h SNAPSHOT_PARTIAL SNAPSHOT_CURRENT now) (sp, e)) run = (run', stage')"
          using assms(2) Publishing None stage by (simp add: stage_phase_def tracing_calls)
      qed (use own(2) Publishing None in \<open>simp_all add: call_allowed_def run_ok_def\<close>)
    qed (use same assms(2) Publishing in \<open>simp add: stage_phase_def\<close>)
  next
    case (Draining draining)
    show ?thesis
    proof (cases draining)
      case None
      show ?thesis
      proof (rule asked)
        show "asked_for Draining (offer (\<lambda>h. traced (Removed h SNAPSHOT_PARTIAL) (st_submit_remove vops h SNAPSHOT_PARTIAL now))
            (\<lambda>h. st_submit_remove ops h SNAPSHOT_PARTIAL now) (sp, e)) run = (run', stage')"
          using assms(2) Draining None stage by (simp add: stage_phase_def tracing_calls)
      qed (simp_all add: call_allowed_def run_ok_def)
    qed (use same assms(2) Draining in \<open>simp add: stage_phase_def\<close>)
  qed
qed

lemma stage_collect_keeps:
  assumes "stage_collect (tracing vops) now run broken published stage = Some (run', broken', published', stage')"
    "stage_ok hs logs (if broken then None else Some run) stage"
  shows "stage_ok hs logs (if broken' then None else Some run') stage'"
proof -
  obtain sp e where stage: "stage = (sp, e)" by force
  obtain v trace where own: "sp_own sp = Some (v, trace)" "trace_ok hs logs trace" "table_shape (en_index e)" "en_records e \<in> logs"
      "broken \<or> run_ok hs logs trace run (sp_unsubmitted sp) (sp_chunk sp) (en_index e)"
    using assms(2) stage by (auto simp: stage_ok_def split: if_splits)
  show ?thesis using stage_collect_ok [OF assms(1) [unfolded stage] own(1,2,5)] own(3,4) by (auto simp: stage_ok_def)
qed

lemma give_up_ok:
  assumes "give_up run stage = (run', stage')" "stage_ok hs logs None stage"
  shows "stage_ok hs logs (Some run') stage'"
  using assms
  by (cases stage) (auto simp: give_up_def stage_ok_def run_ok_def is_draining_def engine_abandon_snapshot_def end_snapshot_def
      table_shape_def split: Phase.splits if_splits)

lemma stage_ok_weaken: "stage_ok hs logs (Some run) stage \<Longrightarrow> stage_ok hs logs None stage"
  by (auto simp: stage_ok_def)

lemma stage_ok_quiet [simp]:
  "stage_ok hs logs run (sp\<lparr>sp_inflight := inflight\<rparr>, e) \<longleftrightarrow> stage_ok hs logs run (sp, e)"
  "stage_ok hs logs run (sp\<lparr>sp_stats := stats\<rparr>, e) \<longleftrightarrow> stage_ok hs logs run (sp, e)"
  "stage_ok hs logs run (sp\<lparr>sp_next_from := at\<rparr>, e) \<longleftrightarrow> stage_ok hs logs run (sp, e)"
  by (cases run; simp add: stage_ok_def)+

definition stage_holds :: "Hasher \<Rightarrow> 's RecordLog set \<Rightarrow> ('v \<times> VolumeCall list, 's) Stage \<Rightarrow> bool" where
  "stage_holds hs logs stage \<longleftrightarrow> stage_ok hs logs (sp_inflight (fst stage)) stage"

lemma stage_settle_ok:
  assumes "stage_ok hs logs (Some run) stage" "sp_inflight (fst stage) = None"
  shows "stage_holds hs logs (stage_settle published run stage)"
proof -
  obtain sp e where stage: "stage = (sp, e)" by force
  let ?sp1 = "sp\<lparr>sp_stats := (sp_stats sp)\<lparr>ss_shadow_peak := max (ss_shadow_peak (sp_stats sp)) (shadowed (en_index e))\<rparr>\<rparr>"
  obtain run' sp' e' where r: "(if sq_shadow_budget (sp_policy ?sp1) < shadowed (en_index e) then give_up run (?sp1, e)
      else (run, ?sp1, e)) = (run', sp', e')" by (metis prod.exhaust)
  have ok: "stage_ok hs logs (Some run') (sp', e')"
    using r assms(1) stage give_up_ok [of run "(?sp1, e)" run' "(sp', e')" hs logs]
    by (auto split: if_splits intro: stage_ok_weaken)
  have idle: "sp_inflight sp' = None"
    using r assms(2) stage by (auto simp: give_up_def split: if_splits)
  show ?thesis
    using r ok idle stage stage_ok_weaken [OF ok]
    by (simp add: stage_settle_def stage_holds_def stage_finish_def Let_def)
qed

lemma collect_idle:
  assumes "stage_collect vops now run broken published stage = Some (run', broken', published', stage')"
  shows "sp_inflight (fst stage') = sp_inflight (fst stage)"
proof -
  let ?P = "\<lambda>vops now run broken published stage y. sp_inflight (fst (snd (snd (snd y)))) = sp_inflight (fst stage)"
  have "?P vops now run broken published stage (run', broken', published', stage')"
  proof (rule stage_collect.raw_induct [of ?P, OF _ assms], goal_cases)
    case (1 f vops now run broken published stage y)
    have "sp_inflight (fst (snd (stage_completion vops now stage))) = sp_inflight (fst stage)"
      by (cases stage) (auto simp: stage_completion_def split: option.splits prod.splits)
    then show ?case using 1 by (auto split: option.splits prod.splits)
  qed
  then show ?thesis by simp
qed

lemma offer_idle: "offer f g stage = (r, stage') \<Longrightarrow> sp_inflight (fst stage') = sp_inflight (fst stage)"
  by (cases stage) (auto simp: offer_def on_volume_def Let_def split: option.splits prod.splits if_splits)

lemma produce_idle: "stage_produce run stage = (nothing, run', stage') \<Longrightarrow> sp_inflight (fst stage') = sp_inflight (fst stage)"
  by (cases stage) (auto simp: stage_produce_def split: prod.splits if_splits)

lemma fill_idle: "stage_fill vops ops now n run stage = (run', stage') \<Longrightarrow> sp_inflight (fst stage') = sp_inflight (fst stage)"
proof (induction vops ops now n run stage rule: stage_fill.induct)
  case (2 vops ops now n run sp e)
  obtain nothing run1 sp1 e1 where p: "stage_produce run (sp, e) = (nothing, run1, sp1, e1)" by (metis prod_cases4)
  let ?f = "\<lambda>h. st_submit_write vops h SNAPSHOT_PARTIAL (if_blocks run1 * BLOCK_BYTES) (sp_chunk sp1) (if_blocks run1 = 0) now"
  let ?g = "\<lambda>h. st_submit_write ops h SNAPSHOT_PARTIAL (if_blocks run1 * BLOCK_BYTES) (sp_chunk sp1) (if_blocks run1 = 0) now"
  obtain r sp2 e2 where off: "offer ?f ?g (sp1, e1) = (r, sp2, e2)" by (rule prod_cases3)
  have idle: "sp_inflight sp2 = sp_inflight sp" using produce_idle [OF p] offer_idle [OF off] by simp
  note IH = 2(1) [OF _ p [symmetric] refl refl refl _ off [symmetric] ]
  show ?case
    using 2(2) p off idle produce_idle [OF p]
    by (cases r) (auto simp: Let_def split: if_splits dest!: IH [rotated -1])
qed simp

lemma phase_idle:
  assumes "stage_phase vops ops now run stage = (run', stage')"
  shows "sp_inflight (fst stage') = sp_inflight (fst stage)"
proof -
  have asked: "sp_inflight (fst stage') = sp_inflight (fst stage)"
    if "asked_for phase (offer f g stage) run = (run', stage')" for phase f g
    using that offer_idle [of f g stage] by (cases "offer f g stage") (auto simp: asked_for_def split: option.splits)
  show ?thesis
    using assms asked
    by (auto simp: stage_phase_def split: Phase.splits option.splits dest: fill_idle simp del: split_paired_All)
qed


lemma run_ok_rounds [simp]:
  "run_ok hs logs trace (run\<lparr>if_rounds := n\<rparr>) unsubmitted chunk index = run_ok hs logs trace run unsubmitted chunk index"
  by (cases "if_phase run") (simp_all add: run_ok_def filling_ok_def)

lemma stage_step_ok:
  assumes "stage_step (tracing vops) ops now run (sp, e) = Some stage'" "stage_ok hs logs (Some run) (sp, e)" "sp_inflight sp = None"
  shows "stage_holds hs logs stage'"
proof -
  obtain run1 broken published stage1 where c:
      "stage_collect (tracing vops) now (run\<lparr>if_rounds := if_rounds run + 1\<rparr>) False False (sp, e) = Some (run1, broken, published, stage1)"
    using assms(1) by (auto simp: stage_step_def bind_eq_Some_conv)
  obtain run2 stage2 where g: "(if broken then give_up run1 stage1 else (run1, stage1)) = (run2, stage2)" by (rule prod.exhaust)
  obtain run3 stage3 where p: "stage_phase (tracing vops) ops now run2 stage2 = (run3, stage3)" by (rule prod.exhaust)
  have "stage_ok hs logs (Some (run\<lparr>if_rounds := if_rounds run + 1\<rparr>)) (sp, e)"
    using assms(2) by (simp add: stage_ok_def)
  then have "stage_ok hs logs (if broken then None else Some run1) stage1" using stage_collect_keeps [OF c] by simp
  then have "stage_ok hs logs (Some run2) stage2" using g give_up_ok [of run1 stage1 run2 stage2 hs logs] by (cases broken) auto
  then have ok: "stage_ok hs logs (Some run3) stage3" by (rule stage_phase_ok [OF _ p])
  have "sp_inflight (fst stage1) = None" using collect_idle [OF c] assms(3) by simp
  then have "sp_inflight (fst stage2) = None" using g by (cases stage1) (auto simp: give_up_def split: if_splits)
  then have "sp_inflight (fst stage3) = None" using phase_idle [OF p] by simp
  moreover have "stage' = stage_settle published run3 stage3" using assms(1) c g p by (simp add: stage_step_def)
  ultimately show ?thesis using stage_settle_ok [OF ok] by simp
qed

lemma stage_begin_ok:
  assumes "stage_begin (tracing vops) ops now (sp, e) = (progress, stage')" "stage_ok hs logs None (sp, e)" "sp_inflight sp = None"
  shows "stage_holds hs logs stage'"
proof -
  obtain v trace where own: "sp_own sp = Some (v, trace)" "trace_ok hs logs trace" "table_shape (en_index e)" "en_records e \<in> logs"
    using assms(2) by (auto simp: stage_ok_def)
  let ?f = "\<lambda>h. traced (Removed h SNAPSHOT_PARTIAL) (st_submit_remove vops h SNAPSHOT_PARTIAL now)"
  let ?g = "\<lambda>h. st_submit_remove ops h SNAPSHOT_PARTIAL now"
  obtain r stage2 where off: "offer ?f ?g (sp, e) = (r, stage2)" by (rule prod.exhaust)
  obtain v' where s2: "stage2 = (case r of None \<Rightarrow> (sp\<lparr>sp_own := Some (v', trace)\<rparr>, e)
      | Some h \<Rightarrow> (sp\<lparr>sp_own := Some (v', trace @ [Removed h SNAPSHOT_PARTIAL]), sp_handles := sp_handles sp + 1\<rparr>, e))"
    by (rule offer_own [OF own(1) off])
  show ?thesis
  proof (cases r)
    case None
    then have "stage' = (sp\<lparr>sp_own := Some (v', trace)\<rparr>, e)" using assms(1) off s2 by (simp add: stage_begin_def tracing_calls)
    then show ?thesis using own assms(3) by (simp add: stage_holds_def stage_ok_def)
  next
    case (Some h)
    let ?w = "snapshot_writer (length (ht_buckets (en_index e))) (en_budgets e)
        (coverage (e\<lparr>en_index := begin_snapshot (en_index e)\<rparr>)) (en_applied_through e)"
    let ?run = "\<lparr>if_writer = ?w, if_rounds = 0, if_blocks = 0, if_outstanding = 1, if_phase = FillingUp\<rparr>"
    have new: "stage' = (sp\<lparr>sp_own := Some (v', trace @ [Removed h SNAPSHOT_PARTIAL]), sp_handles := sp_handles sp + 1,
        sp_inflight := Some ?run, sp_unsubmitted := False\<rparr>, e\<lparr>en_index := begin_snapshot (en_index e)\<rparr>)"
      using assms(1) off s2 Some
      by (simp add: stage_begin_def tracing_calls engine_begin_snapshot_def Let_def begin_snapshot_def)
    have "stream_being_written hs logs ?w (begin_snapshot (en_index e)) []"
      unfolding stream_being_written_def using writing_begins own(3)
      by (fastforce simp: snapshot_writer_def writer_complete_def snapshot_records_def snapshot_consts)
    then have "filling_ok hs logs (trace @ [Removed h SNAPSHOT_PARTIAL]) ?run False (sp_chunk sp) (begin_snapshot (en_index e))"
      unfolding filling_ok_def using dump_starts by fastforce
    then show ?thesis using own(2,3,4)
      by (simp add: new stage_holds_def stage_ok_def run_ok_def trace_ok_snoc call_allowed_def begin_snapshot_def table_shape_def)
  qed
qed

lemma stage_round_ok:
  assumes "stage_round (tracing vops) ops now stage = Some (progress, stage')" "stage_holds hs logs stage"
  shows "stage_holds hs logs stage'"
proof -
  obtain sp e where stage: "stage = (sp, e)" by force
  show ?thesis
  proof (cases "sp_inflight sp")
    case None
    then show ?thesis using assms stage stage_begin_ok [of vops ops now sp e progress stage' hs logs]
      by (auto simp: stage_round_def stage_holds_def split: if_splits)
  next
    case (Some run)
    then have "stage_ok hs logs (Some run) (sp\<lparr>sp_inflight := None\<rparr>, e)" using assms(2) stage by (simp add: stage_holds_def)
    moreover have "stage_step (tracing vops) ops now run (sp\<lparr>sp_inflight := None\<rparr>, e) = Some stage'"
      using assms(1) stage Some by (auto simp: stage_round_def)
    ultimately show ?thesis using stage_step_ok [of vops ops now run "sp\<lparr>sp_inflight := None\<rparr>" e stage' hs logs] by simp
  qed
qed

lemma stage_abandon_ok: "stage_holds hs logs stage \<Longrightarrow> stage_holds hs logs (stage_abandon stage)"
proof -
  assume holds: "stage_holds hs logs stage"
  obtain sp e where stage: "stage = (sp, e)" by force
  show ?thesis
  proof (cases "sp_inflight sp")
    case None
    then show ?thesis using holds stage by (simp add: stage_abandon_def)
  next
    case (Some run)
    obtain run1 sp1 e1 where g: "give_up run (sp\<lparr>sp_inflight := None\<rparr>, e) = (run1, sp1, e1)" by (rule prod_cases3)
    have "stage_ok hs logs (Some run1) (sp1, e1)"
      by (rule give_up_ok [OF g]) (use holds stage Some in \<open>simp add: stage_holds_def stage_ok_weaken\<close>)
    then show ?thesis using g stage Some by (simp add: stage_abandon_def stage_holds_def)
  qed
qed

lemma table_steps_shape: "(table_step hs)\<^sup>*\<^sup>* t t' \<Longrightarrow> table_shape t \<Longrightarrow> table_shape t'"
  by (induction rule: rtranclp_induct) (auto dest: shape.step_kept simp: shape.kept_def)

lemma table_steps_writing:
  "(table_step hs)\<^sup>*\<^sup>* t t' \<Longrightarrow> snapshot_writing hs logs w0 t0 out w t \<Longrightarrow> snapshot_writing hs logs w0 t0 out w t'"
  by (induction rule: rtranclp_induct) (auto intro: table_changes)

lemma engine_works_ok:
  assumes "stage_holds hs logs (sp, e)" "(table_step hs)\<^sup>*\<^sup>* (en_index e) (en_index e')" "en_records e' \<in> logs"
  shows "stage_holds hs logs (sp, e')"
proof -
  have stream: "stream_being_written hs logs w (en_index e') blocks" if "stream_being_written hs logs w (en_index e) blocks" for w blocks
    using that table_steps_writing [OF assms(2)] unfolding stream_being_written_def by blast
  have "filling_ok hs logs trace run unsubmitted chunk (en_index e')"
    if "filling_ok hs logs trace run unsubmitted chunk (en_index e)" for trace run unsubmitted chunk
    using that stream unfolding filling_ok_def by (cases unsubmitted) auto
  then have "run_ok hs logs trace run unsubmitted chunk (en_index e')"
    if "run_ok hs logs trace run unsubmitted chunk (en_index e)" for trace run unsubmitted chunk
    using that by (cases "if_phase run") (simp_all add: run_ok_def)
  then show ?thesis using assms(1,3) table_steps_shape [OF assms(2)]
    by (cases "sp_inflight sp") (auto simp: stage_holds_def stage_ok_def)
qed

lemma stage_run_holds:
  assumes "stage_run hs logs (tracing vops) ops start stage" "stage_holds hs logs start"
  shows "stage_holds hs logs stage"
  using assms by induction (auto intro: stage_round_ok stage_abandon_ok engine_works_ok)

text \<open>C13: A snapshot's name is only ever given to a whole stream. Rounds of the stage on a volume of its own, whatever that volume
  takes, refuses, answers or fails, and whatever the engine does to its table and its log in between: every call the volume took
  is on the partial object, except renames of the partial to the current one; and when such a rename was taken, the calls
  since the partial was last removed had no failed answer, wrote one stream of one instant of the table, whole, block after
  block at its offset, with a barrier taken after the last block and answered well.\<close>

theorem name_only_for_a_whole_stream:
  assumes "stage_run hs logs (tracing vops) ops (snapshots_new (Some (v, [])) policy share, e0) (sp, e)"
    and "table_shape (en_index e0)" "en_records e0 \<in> logs"
    and "sp_own sp = Some (v', before @ call # after)"
  shows "call_allowed hs logs before call"
proof -
  have "stage_holds hs logs (snapshots_new (Some (v, [])) policy share, e0)"
    using assms(2,3) by (simp add: stage_holds_def stage_ok_def snapshots_new_def trace_ok_Nil)
  then have "trace_ok hs logs (before @ call # after)"
    using stage_run_holds [OF assms(1)] assms(4) by (auto simp: stage_holds_def stage_ok_def)
  then show ?thesis unfolding trace_ok_def by blast
qed

definition dumping_engine :: "MemoryStore PendingEngine" where
  "dumping_engine = (engine_sized 8 1 4 memory_store)
     \<lparr>en_index := snapshot_table, en_records := sealed_log, en_applied_through := 1, en_budgets := []\<rparr>"

definition dumping_writer :: SnapshotWriter where
  "dumping_writer = snapshot_writer 2 [] (coverage dumping_engine) 1"

lemma dumping_chunk:
  obtains bytes w e where
    "engine_next_chunk dumping_writer BLOCK_BYTES (dumping_engine\<lparr>en_index := begin_snapshot snapshot_table\<rparr>) = (bytes, w, e)"
    "bytes \<noteq> []" "writer_complete w" "shadowed (en_index e) = 0" "en_records e = sealed_log"
proof -
  let ?e = "dumping_engine\<lparr>en_index := begin_snapshot snapshot_table\<rparr>"
  obtain bytes w e where c: "engine_next_chunk dumping_writer BLOCK_BYTES ?e = (bytes, w, e)" by (rule prod_cases3)
  have records: "sn_at dumping_writer = 0" "snapshot_records dumping_writer = 4"
    by (simp_all add: dumping_writer_def snapshot_writer_def snapshot_records_def snapshot_consts)
  have "stream_being_written mixing_hasher {sealed_log} dumping_writer (begin_snapshot snapshot_table) []"
    unfolding stream_being_written_def
    by (rule exI [of _ snapshot_table], rule exI [of _ "[]"], rule exI [of _ "coverage dumping_engine"], rule exI [of _ 1])
      (use records in \<open>simp add: dumping_writer_def snapshot_table_shape writing_begins writer_complete_def\<close>)
  then have begun: "stream_being_written mixing_hasher {sealed_log} dumping_writer (en_index ?e) []" by simp
  have log: "en_records ?e \<in> {sealed_log}" by (simp add: dumping_engine_def)
  note p = produced_ok [OF begun log c]
  have whole: "writer_complete w" by (rule p(5)) (simp add: records)
  then have "shadowed (en_index e) = 0"
    using c by (auto simp: engine_next_chunk_def shadowed_def end_snapshot_def split: prod.splits)
  then show thesis using that [OF c p(1) whole] p(2) log by simp
qed

section \<open>A dump on the memory store\<close>

lemma memory_stage_calls:
  "st_submit_remove memory_ops = mem_submit_remove" "st_submit_barrier memory_ops = mem_submit_barrier"
  "st_submit_write memory_ops = mem_submit_write" "st_submit_rename memory_ops = mem_submit_rename"
  by (simp_all add: memory_ops_def)

lemma memory_answers:
  "mst_written (snd (mem_submit_remove h object now s)) = mst_written s @ [(h, Inr ())]"
  "mst_written (snd (mem_submit_barrier h now s)) = mst_written s @ [(h, Inr ())]"
  "mst_written (snd (mem_submit_write h object 0 b True now s)) = mst_written s @ [(h, Inr ())]"
  by (auto simp: mem_submit_remove_def mem_submit_barrier_def mem_submit_write_def answer_written_def open_with_def Let_def)

lemma memory_takes:
  "fst (mem_submit_remove h object now s)" "fst (mem_submit_barrier h now s)" "fst (mem_submit_write h object offset b creating now s)"
  "fst (mem_submit_rename h src dst now s)"
  by (auto simp: mem_submit_remove_def mem_submit_barrier_def mem_submit_write_def mem_submit_rename_def Let_def split: prod.splits)

lemma offer_memory:
  assumes "sp_own sp = Some (s, trace)" "fst (k (next_handle sp) s)"
  shows "offer (\<lambda>h. traced (call h) (k h)) g (sp, e) =
     (Some (next_handle sp), sp\<lparr>sp_own := Some (snd (k (next_handle sp) s), trace @ [call (next_handle sp)]),
       sp_handles := sp_handles sp + 1\<rparr>, e)"
  using assms by (cases "k (next_handle sp) s") (auto simp: offer_def on_volume_def traced_def Let_def)

text \<open>A volume with one answer waiting, the last handle's.\<close>

definition own_handle :: "nat \<Rightarrow> u64" where
  "own_handle n = io_handle OwnSnapshot (word_of_nat n)"

definition waiting :: "(MemoryStore \<times> VolumeCall list) Snapshots \<Rightarrow> VolumeCall list \<Rightarrow> InFlight \<Rightarrow> nat \<Rightarrow> bool" where
  "waiting sp trace run n \<longleftrightarrow>
     sp_inflight sp = Some run \<and> if_outstanding run = 1 \<and> sp_handles sp = n \<and> sp_policy sp = snapshot_policy_default\<lparr>sq_every := 1\<rparr>
     \<and> sp_share sp = 4 \<and> \<not> sp_unsubmitted sp
     \<and> (\<exists>s. sp_own sp = Some (s, trace) \<and> mst_written s = [(own_handle n, Inr ())])"

lemma round_memory:
  assumes "waiting sp trace run n" "run_answered (own_handle n) (Inr ()) (run\<lparr>if_rounds := if_rounds run + 1\<rparr>) = (run1, False, False)"
  shows "\<exists>s. mst_written s = [] \<and> (\<forall>run2 sp2 e2. stage_phase (tracing memory_ops) memory_ops 0 run1
      (sp\<lparr>sp_inflight := None, sp_own := Some (s, trace @ [Answered (own_handle n) (Inr ())])\<rparr>, e) = (run2, sp2, e2) \<longrightarrow>
    0 < if_outstanding run2 \<longrightarrow> shadowed (en_index e2) \<le> sq_shadow_budget (sp_policy sp2) \<longrightarrow>
    (\<exists>stats. stage_round (tracing memory_ops) memory_ops 0 (sp, e) = Some (True, sp2\<lparr>sp_stats := stats, sp_inflight := Some run2\<rparr>, e2)))"
proof -
  obtain s where s: "sp_own sp = Some (s, trace)" "mst_written s = [(own_handle n, Inr ())]" "sp_inflight sp = Some run"
    using assms(1) by (auto simp: waiting_def)
  have collect: "stage_collect (tracing memory_ops) 0 (run\<lparr>if_rounds := if_rounds run + 1\<rparr>) False False (sp\<lparr>sp_inflight := None\<rparr>, e) =
     Some (run1, False, False, sp\<lparr>sp_inflight := None, sp_own := Some (s\<lparr>mst_written := []\<rparr>, trace @ [Answered (own_handle n) (Inr ())])\<rparr>, e)"
    using s(1,2) assms(2) by (simp add: stage_collect.simps stage_completion_def tracing_def memory_ops_def mem_poll_written_def)
  show ?thesis
  proof (intro exI [of _ "s\<lparr>mst_written := []\<rparr>"] conjI allI impI)
    fix run2 sp2 e2 assume "stage_phase (tracing memory_ops) memory_ops 0 run1
        (sp\<lparr>sp_inflight := None, sp_own := Some (s\<lparr>mst_written := []\<rparr>, trace @ [Answered (own_handle n) (Inr ())])\<rparr>, e) = (run2, sp2, e2)"
      "0 < if_outstanding run2" "shadowed (en_index e2) \<le> sq_shadow_budget (sp_policy sp2)"
    then show "\<exists>stats. stage_round (tracing memory_ops) memory_ops 0 (sp, e) = Some (True, sp2\<lparr>sp_stats := stats, sp_inflight := Some run2\<rparr>, e2)"
      using collect s(3)
      by (intro exI [of _ "(sp_stats sp2)\<lparr>ss_shadow_peak := max (ss_shadow_peak (sp_stats sp2)) (shadowed (en_index e2))\<rparr>"])
         (simp add: stage_round_def stage_step_def stage_settle_def Let_def)
  qed simp
qed

lemma next_own_handle: "next_handle sp = own_handle (sp_handles sp + 1)"
  by (simp add: next_handle_def own_handle_def)

lemma seal_memory:
  assumes "waiting sp trace run n" "if_phase run = Sealing None" "shadowed (en_index e) = 0"
  shows "\<exists>sp' run'. stage_round (tracing memory_ops) memory_ops 0 (sp, e) = Some (True, sp', e)
    \<and> waiting sp' (trace @ [Answered (own_handle n) (Inr ()), Barrier (own_handle (n + 1))]) run' (n + 1)
    \<and> if_phase run' = Sealing (Some (own_handle (n + 1)))"
proof -
  let ?run1 = "run\<lparr>if_rounds := if_rounds run + 1, if_outstanding := 0\<rparr>"
  let ?run2 = "?run1\<lparr>if_outstanding := 1, if_phase := Sealing (Some (own_handle (n + 1)))\<rparr>"
  have w: "if_outstanding run = 1" "sp_handles sp = n" "sp_policy sp = snapshot_policy_default\<lparr>sq_every := 1\<rparr>" "sp_share sp = 4"
      "\<not> sp_unsubmitted sp"
    using assms(1) by (simp_all add: waiting_def)
  have answered: "run_answered (own_handle n) (Inr ()) (run\<lparr>if_rounds := if_rounds run + 1\<rparr>) = (?run1, False, False)"
    using w(1) assms(2) by (simp add: run_answered_def is_ok_def)
  obtain s where round: "\<And>run2 sp2 e2. stage_phase (tracing memory_ops) memory_ops 0 ?run1
      (sp\<lparr>sp_inflight := None, sp_own := Some (s, trace @ [Answered (own_handle n) (Inr ())])\<rparr>, e) = (run2, sp2, e2) \<Longrightarrow>
    0 < if_outstanding run2 \<Longrightarrow> shadowed (en_index e2) \<le> sq_shadow_budget (sp_policy sp2) \<Longrightarrow>
    \<exists>stats. stage_round (tracing memory_ops) memory_ops 0 (sp, e) = Some (True, sp2\<lparr>sp_stats := stats, sp_inflight := Some run2\<rparr>, e2)"
    and s: "mst_written s = []"
    using round_memory [where e = e, OF assms(1) answered] by blast
  let ?sp = "sp\<lparr>sp_inflight := None, sp_own := Some (s, trace @ [Answered (own_handle n) (Inr ())])\<rparr>"
  let ?s = "snd (mem_submit_barrier (own_handle (n + 1)) 0 s)"
  let ?sp2 = "?sp\<lparr>sp_own := Some (?s, (trace @ [Answered (own_handle n) (Inr ())]) @ [Barrier (own_handle (n + 1))]), sp_handles := n + 1\<rparr>"
  have "offer (\<lambda>h. traced (Barrier h) (mem_submit_barrier h 0)) (\<lambda>h. mem_submit_barrier h 0) (?sp, e) =
      (Some (own_handle (n + 1)), ?sp2, e)"
    by (subst offer_memory [where k = "\<lambda>h. mem_submit_barrier h 0", OF _ memory_takes(2)]) (simp_all add: next_own_handle w del: append_assoc)
  then have "stage_phase (tracing memory_ops) memory_ops 0 ?run1 (?sp, e) = (?run2, ?sp2, e)"
    using assms(2) by (simp add: stage_phase_def tracing_calls memory_stage_calls asked_for_def)
  from round [OF this] obtain stats where
      "stage_round (tracing memory_ops) memory_ops 0 (sp, e) = Some (True, ?sp2\<lparr>sp_stats := stats, sp_inflight := Some ?run2\<rparr>, e)"
    using assms(3) by auto
  moreover have "waiting (?sp2\<lparr>sp_stats := stats, sp_inflight := Some ?run2\<rparr>)
      (trace @ [Answered (own_handle n) (Inr ()), Barrier (own_handle (n + 1))]) ?run2 (n + 1)"
    using w s by (simp add: waiting_def memory_answers)
  ultimately show ?thesis by (intro exI [of _ "?sp2\<lparr>sp_stats := stats, sp_inflight := Some ?run2\<rparr>"] exI [of _ ?run2]) simp
qed

lemma fill_memory:
  assumes "waiting sp trace run n" "if_phase run = FillingUp" "if_blocks run = 0"
    and "engine_next_chunk (if_writer run) BLOCK_BYTES e = (bytes, w, e')" "bytes \<noteq> []" "writer_complete w" "shadowed (en_index e') = 0"
  shows "\<exists>sp' run' block. stage_round (tracing memory_ops) memory_ops 0 (sp, e) = Some (True, sp', e')
    \<and> waiting sp' (trace @ [Answered (own_handle n) (Inr ()), Wrote (own_handle (n + 1)) SNAPSHOT_PARTIAL 0 block True]) run' (n + 1)
    \<and> if_phase run' = Sealing None"
proof -
  let ?run1 = "run\<lparr>if_rounds := if_rounds run + 1, if_outstanding := 0\<rparr>"
  let ?run2 = "?run1\<lparr>if_writer := w, if_blocks := 1, if_outstanding := 1, if_phase := Sealing None\<rparr>"
  have v: "if_outstanding run = 1" "sp_handles sp = n" "sp_policy sp = snapshot_policy_default\<lparr>sq_every := 1\<rparr>" "sp_share sp = 4"
      "\<not> sp_unsubmitted sp"
    using assms(1) by (simp_all add: waiting_def)
  have answered: "run_answered (own_handle n) (Inr ()) (run\<lparr>if_rounds := if_rounds run + 1\<rparr>) = (?run1, False, False)"
    using v(1) assms(2) by (simp add: run_answered_def is_ok_def)
  obtain s where round: "\<And>run2 sp2 e2. stage_phase (tracing memory_ops) memory_ops 0 ?run1
      (sp\<lparr>sp_inflight := None, sp_own := Some (s, trace @ [Answered (own_handle n) (Inr ())])\<rparr>, e) = (run2, sp2, e2) \<Longrightarrow>
    0 < if_outstanding run2 \<Longrightarrow> shadowed (en_index e2) \<le> sq_shadow_budget (sp_policy sp2) \<Longrightarrow>
    \<exists>stats. stage_round (tracing memory_ops) memory_ops 0 (sp, e) = Some (True, sp2\<lparr>sp_stats := stats, sp_inflight := Some run2\<rparr>, e2)"
    and s: "mst_written s = []"
    using round_memory [where e = e, OF assms(1) answered] by blast
  let ?sp = "sp\<lparr>sp_inflight := None, sp_own := Some (s, trace @ [Answered (own_handle n) (Inr ())])\<rparr>"
  let ?block = "bytes @ zeros (BLOCK_BYTES - length bytes)"
  let ?call = "Wrote (own_handle (n + 1)) SNAPSHOT_PARTIAL 0 ?block True"
  let ?s = "snd (mem_submit_write (own_handle (n + 1)) SNAPSHOT_PARTIAL 0 ?block True 0 s)"
  let ?sp1 = "?sp\<lparr>sp_chunk := ?block, sp_unsubmitted := True\<rparr>"
  let ?sp2 = "?sp1\<lparr>sp_own := Some (?s, (trace @ [Answered (own_handle n) (Inr ())]) @ [?call]), sp_handles := n + 1\<rparr>"
  let ?sp3 = "?sp2\<lparr>sp_unsubmitted := False, sp_stats := (sp_stats sp)\<lparr>ss_bytes := ss_bytes (sp_stats sp) + BLOCK_BYTES\<rparr>\<rparr>"
  have off: "offer (\<lambda>h. traced (Wrote h SNAPSHOT_PARTIAL 0 ?block True) (mem_submit_write h SNAPSHOT_PARTIAL 0 ?block True 0))
      (\<lambda>h. mem_submit_write h SNAPSHOT_PARTIAL 0 ?block True 0) (?sp1, e') = (Some (own_handle (n + 1)), ?sp2, e')"
    by (subst offer_memory [where k = "\<lambda>h. mem_submit_write h SNAPSHOT_PARTIAL 0 ?block True 0", OF _ memory_takes(3)])
       (simp_all add: next_own_handle v del: append_assoc)
  have "stage_produce ?run1 (?sp, e) = (False, ?run1\<lparr>if_writer := w\<rparr>, ?sp1, e')"
    using assms(4,5) v(5) by (simp add: stage_produce_def)
  then have "stage_fill (tracing memory_ops) memory_ops 0 1 ?run1 (?sp, e) = (?run2, ?sp3, e')"
    using off assms(3,6) v by (simp add: tracing_calls memory_stage_calls Let_def)
  then have "stage_phase (tracing memory_ops) memory_ops 0 ?run1 (?sp, e) = (?run2, ?sp3, e')"
    using assms(2) v(3) by (simp add: stage_phase_def snapshot_policy_default_def DEFAULT_BYTES_PER_ROUND_def BLOCK_BYTES_def)
  from round [OF this] obtain stats where
      "stage_round (tracing memory_ops) memory_ops 0 (sp, e) = Some (True, ?sp3\<lparr>sp_stats := stats, sp_inflight := Some ?run2\<rparr>, e')"
    using assms(7) by auto
  moreover have "waiting (?sp3\<lparr>sp_stats := stats, sp_inflight := Some ?run2\<rparr>) (trace @ [Answered (own_handle n) (Inr ()), ?call]) ?run2 (n + 1)"
    using v s by (simp add: waiting_def memory_answers)
  ultimately show ?thesis
    by (intro exI [of _ "?sp3\<lparr>sp_stats := stats, sp_inflight := Some ?run2\<rparr>"] exI [of _ ?run2] exI [of _ ?block]) simp
qed

lemma name_memory:
  assumes "waiting sp trace run n" "if_phase run = Sealing (Some (own_handle n))" "shadowed (en_index e) = 0"
  shows "\<exists>sp' v. stage_round (tracing memory_ops) memory_ops 0 (sp, e) = Some (True, sp', e)
    \<and> sp_own sp' = Some (v, (trace @ [Answered (own_handle n) (Inr ())]) @ [Renamed (own_handle (n + 1)) SNAPSHOT_PARTIAL SNAPSHOT_CURRENT])"
proof -
  let ?run1 = "run\<lparr>if_rounds := if_rounds run + 1, if_outstanding := 0, if_phase := Publishing None\<rparr>"
  let ?run2 = "?run1\<lparr>if_outstanding := 1, if_phase := Publishing (Some (own_handle (n + 1)))\<rparr>"
  have v: "if_outstanding run = 1" "sp_handles sp = n"
    using assms(1) by (simp_all add: waiting_def)
  have answered: "run_answered (own_handle n) (Inr ()) (run\<lparr>if_rounds := if_rounds run + 1\<rparr>) = (?run1, False, False)"
    using v(1) assms(2) by (simp add: run_answered_def is_ok_def)
  obtain s where round: "\<And>run2 sp2 e2. stage_phase (tracing memory_ops) memory_ops 0 ?run1
      (sp\<lparr>sp_inflight := None, sp_own := Some (s, trace @ [Answered (own_handle n) (Inr ())])\<rparr>, e) = (run2, sp2, e2) \<Longrightarrow>
    0 < if_outstanding run2 \<Longrightarrow> shadowed (en_index e2) \<le> sq_shadow_budget (sp_policy sp2) \<Longrightarrow>
    \<exists>stats. stage_round (tracing memory_ops) memory_ops 0 (sp, e) = Some (True, sp2\<lparr>sp_stats := stats, sp_inflight := Some run2\<rparr>, e2)"
    using round_memory [where e = e, OF assms(1) answered] by blast
  let ?sp = "sp\<lparr>sp_inflight := None, sp_own := Some (s, trace @ [Answered (own_handle n) (Inr ())])\<rparr>"
  let ?s = "snd (mem_submit_rename (own_handle (n + 1)) SNAPSHOT_PARTIAL SNAPSHOT_CURRENT 0 s)"
  let ?trace = "(trace @ [Answered (own_handle n) (Inr ())]) @ [Renamed (own_handle (n + 1)) SNAPSHOT_PARTIAL SNAPSHOT_CURRENT]"
  let ?sp2 = "?sp\<lparr>sp_own := Some (?s, ?trace), sp_handles := n + 1\<rparr>"
  have "offer (\<lambda>h. traced (Renamed h SNAPSHOT_PARTIAL SNAPSHOT_CURRENT) (mem_submit_rename h SNAPSHOT_PARTIAL SNAPSHOT_CURRENT 0))
      (\<lambda>h. mem_submit_rename h SNAPSHOT_PARTIAL SNAPSHOT_CURRENT 0) (?sp, e) = (Some (own_handle (n + 1)), ?sp2, e)"
    by (subst offer_memory [where k = "\<lambda>h. mem_submit_rename h SNAPSHOT_PARTIAL SNAPSHOT_CURRENT 0", OF _ memory_takes(4)])
       (simp_all add: next_own_handle v del: append_assoc)
  then have "stage_phase (tracing memory_ops) memory_ops 0 ?run1 (?sp, e) = (?run2, ?sp2, e)"
    by (simp add: stage_phase_def tracing_calls memory_stage_calls asked_for_def)
  from round [OF this] obtain stats where
      "stage_round (tracing memory_ops) memory_ops 0 (sp, e) = Some (True, ?sp2\<lparr>sp_stats := stats, sp_inflight := Some ?run2\<rparr>, e)"
    using assms(3) by auto
  then show ?thesis by (intro exI [of _ "?sp2\<lparr>sp_stats := stats, sp_inflight := Some ?run2\<rparr>"] exI [of _ ?s]) simp
qed

definition dumping_stage :: "(MemoryStore \<times> VolumeCall list, MemoryStore) Stage" where
  "dumping_stage = (snapshots_new (Some (memory_store, [])) (snapshot_policy_default\<lparr>sq_every := 1\<rparr>) 4, dumping_engine)"

lemma dumping_stage_fields:
  "dumping_stage = (fst dumping_stage, dumping_engine)" "sp_own (fst dumping_stage) = Some (memory_store, [])"
  "sp_handles (fst dumping_stage) = 0" "sp_inflight (fst dumping_stage) = None" "sp_next_from (fst dumping_stage) = 0"
  "sp_policy (fst dumping_stage) = snapshot_policy_default\<lparr>sq_every := 1\<rparr>" "sp_share (fst dumping_stage) = 4"
  by (simp_all add: dumping_stage_def snapshots_new_def)

lemma begin_memory:
  "\<exists>sp run. stage_round (tracing memory_ops) memory_ops 0 dumping_stage
      = Some (True, sp, dumping_engine\<lparr>en_index := begin_snapshot snapshot_table\<rparr>)
    \<and> waiting sp [Removed (own_handle 1) SNAPSHOT_PARTIAL] run 1 \<and> if_phase run = FillingUp \<and> if_blocks run = 0
    \<and> if_writer run = dumping_writer"
proof -
  let ?run = "\<lparr>if_writer = dumping_writer, if_rounds = 0, if_blocks = 0, if_outstanding = 1, if_phase = FillingUp\<rparr>"
  let ?init = "fst dumping_stage"
  let ?s = "snd (mem_submit_remove (own_handle 1) SNAPSHOT_PARTIAL 0 memory_store)"
  let ?sp = "?init\<lparr>sp_own := Some (?s, [Removed (own_handle 1) SNAPSHOT_PARTIAL]), sp_handles := 1, sp_inflight := Some ?run, sp_unsubmitted := False\<rparr>"
  note new = dumping_stage_fields(2-)
  have begun: "engine_begin_snapshot dumping_engine = (dumping_writer, dumping_engine\<lparr>en_index := begin_snapshot snapshot_table\<rparr>)"
    by (simp add: engine_begin_snapshot_def dumping_engine_def dumping_writer_def begin_snapshot_def snapshot_table_shape
        engine_sized_def coverage_def)
  have "offer (\<lambda>h. traced (Removed h SNAPSHOT_PARTIAL) (mem_submit_remove h SNAPSHOT_PARTIAL 0))
      (\<lambda>h. mem_submit_remove h SNAPSHOT_PARTIAL 0) (?init, dumping_engine) =
      (Some (own_handle 1), ?init\<lparr>sp_own := Some (?s, [Removed (own_handle 1) SNAPSHOT_PARTIAL]), sp_handles := 1\<rparr>, dumping_engine)"
    by (subst offer_memory [where k = "\<lambda>h. mem_submit_remove h SNAPSHOT_PARTIAL 0", OF new(1) memory_takes(1)])
       (simp add: next_own_handle new)
  then have "stage_begin (tracing memory_ops) memory_ops 0 (?init, dumping_engine)
      = (True, ?sp, dumping_engine\<lparr>en_index := begin_snapshot snapshot_table\<rparr>)"
    by (simp add: stage_begin_def tracing_calls memory_stage_calls begun)
  moreover have "1 \<le> en_applied_through dumping_engine" by (simp add: dumping_engine_def)
  ultimately have "stage_round (tracing memory_ops) memory_ops 0 dumping_stage
      = Some (True, ?sp, dumping_engine\<lparr>en_index := begin_snapshot snapshot_table\<rparr>)"
    by (subst dumping_stage_fields(1)) (simp add: stage_round_def new snapshot_policy_default_def)
  moreover have "waiting ?sp [Removed (own_handle 1) SNAPSHOT_PARTIAL] ?run 1"
    by (simp add: waiting_def new memory_answers memory_store_def)
  ultimately show ?thesis by (intro exI [of _ ?sp] exI [of _ ?run]) simp
qed

theorem name_only_for_a_whole_stream_witness:
  "\<exists>sp e v before h. stage_run mixing_hasher {sealed_log} (tracing memory_ops) memory_ops dumping_stage (sp, e)
     \<and> sp_own sp = Some (v, before @ [Renamed h SNAPSHOT_PARTIAL SNAPSHOT_CURRENT])
     \<and> may_be_named mixing_hasher {sealed_log} before"
proof -
  let ?run = "stage_run mixing_hasher {sealed_log} (tracing memory_ops) memory_ops dumping_stage"
  obtain bytes w e where c:
      "engine_next_chunk dumping_writer BLOCK_BYTES (dumping_engine\<lparr>en_index := begin_snapshot snapshot_table\<rparr>) = (bytes, w, e)"
      "bytes \<noteq> []" "writer_complete w" "shadowed (en_index e) = 0"
    by (rule dumping_chunk)
  obtain sp1 run1 where r1: "stage_round (tracing memory_ops) memory_ops 0 dumping_stage
      = Some (True, sp1, dumping_engine\<lparr>en_index := begin_snapshot snapshot_table\<rparr>)"
    and s1: "waiting sp1 [Removed (own_handle 1) SNAPSHOT_PARTIAL] run1 1" "if_phase run1 = FillingUp" "if_blocks run1 = 0"
      "if_writer run1 = dumping_writer"
    using begin_memory by blast
  obtain sp2 run2 trace2 where r2: "stage_round (tracing memory_ops) memory_ops 0
        (sp1, dumping_engine\<lparr>en_index := begin_snapshot snapshot_table\<rparr>) = Some (True, sp2, e)"
      and s2: "waiting sp2 trace2 run2 2" "if_phase run2 = Sealing None"
    using fill_memory [OF s1(1-3) c(1) [folded s1(4)] c(2-4)] by (auto simp: numeral_2_eq_2)
  obtain sp3 run3 trace3 where r3: "stage_round (tracing memory_ops) memory_ops 0 (sp2, e) = Some (True, sp3, e)"
      and s3: "waiting sp3 trace3 run3 3" "if_phase run3 = Sealing (Some (own_handle 3))"
    using seal_memory [OF s2 c(4)] by (auto simp: numeral_2_eq_2 numeral_3_eq_3)
  obtain sp4 v where r4: "stage_round (tracing memory_ops) memory_ops 0 (sp3, e) = Some (True, sp4, e)"
      and s4: "sp_own sp4 = Some (v, (trace3 @ [Answered (own_handle 3) (Inr ())]) @ [Renamed (own_handle 4) SNAPSHOT_PARTIAL SNAPSHOT_CURRENT])"
    using name_memory [OF s3 c(4)] by auto
  have run: "?run (sp4, e)"
    by (rule stage_rounds [OF stage_rounds [OF stage_rounds [OF stage_rounds [OF stage_starts r1] r2] r3] r4])
  have "call_allowed mixing_hasher {sealed_log} (trace3 @ [Answered (own_handle 3) (Inr ())])
      (Renamed (own_handle 4) SNAPSHOT_PARTIAL SNAPSHOT_CURRENT)"
    by (rule name_only_for_a_whole_stream [OF run [unfolded dumping_stage_def] _ _ s4])
       (simp_all add: dumping_engine_def snapshot_table_shape)
  then show ?thesis using run s4 by (fastforce simp: call_allowed_def)
qed

section \<open>Reading the current one\<close>

lemma complete_reader_stays: "reader_complete r \<Longrightarrow> take_records records r index = (Inr x, r', index') \<Longrightarrow> r' = r \<and> index' = index"
  by (induction records) (auto split: if_splits)

lemma complete_chunks_stay: "reader_complete r \<Longrightarrow> take_chunks chunks r index = (Inr x, r', index') \<Longrightarrow> r' = r \<and> index' = index"
proof (induction chunks arbitrary: r index)
  case (Cons chunk chunks)
  obtain result r1 index1 where c: "take_chunk chunk r index = (result, r1, index1)" by (rule prod_cases3)
  then obtain y where y: "result = Inr y" using Cons.prems(2) by (cases result) auto
  have "r1 = r \<and> index1 = index"
    using c y complete_reader_stays [OF Cons.prems(1)] by (auto simp: take_chunk_def split: if_splits)
  then show ?case using Cons c y by simp
qed simp

context exact_store
begin

text \<open>The blocks of the current object, until the reader is complete.\<close>

lemma read_stream_reads:
  assumes "take_chunks (drop at blocks) r (en_index e) = (Inr (), r', index')" "reader_complete r'"
    "inv v" "\<forall>i<length blocks. view v SNAPSHOT_CURRENT i = Some (blocks ! i)" "sp_own sp = Some v"
  shows "\<exists>v' chunk. read_stream ops eops at r (sp, e) = Some (Inr r', sp\<lparr>sp_own := Some v', sp_chunk := chunk\<rparr>, e\<lparr>en_index := index'\<rparr>)
    \<and> inv v' \<and> view v' = view v"
  using assms
proof (induction "length blocks - at" arbitrary: at r e v sp)
  case (Suc n)
  show ?case
  proof (cases "reader_complete r")
    case True
    then have "r' = r \<and> index' = en_index e" using complete_chunks_stay Suc.prems(1) by blast
    then show ?thesis using True Suc.prems(3,5)
      by (intro exI [of _ v] exI [of _ "sp_chunk sp"]) (simp add: read_stream.simps)
  next
    case False
    have at: "at < length blocks" using Suc.hyps(2) by simp
    then have rest: "drop at blocks = blocks ! at # drop (Suc at) blocks" by (simp add: Cons_nth_drop_Suc)
    obtain result v1 where rd: "st_read_at ops SNAPSHOT_CURRENT (at * BLOCK_BYTES) v = (result, v1)" by (rule prod.exhaust)
    have read: "result = Inr (blocks ! at)" "inv v1" "view v1 = view v"
      using read_law [OF Suc.prems(3) _ rd] Suc.prems(4) at by (simp_all add: ok_or_def SNAPSHOT_CURRENT_def OBJECT_VALUES_def)
    obtain taken r1 index1 where c: "take_chunk (blocks ! at) r (en_index e) = (taken, r1, index1)" by (rule prod_cases3)
    have t: "taken = Inr ()" "take_chunks (drop (Suc at) blocks) r1 index1 = (Inr (), r', index')"
      using Suc.prems(1) rest c by (cases taken; simp)+
    let ?sp = "sp\<lparr>sp_own := Some v1, sp_chunk := blocks ! at\<rparr>" and ?e = "e\<lparr>en_index := index1\<rparr>"
    have step: "read_stream ops eops at r (sp, e) = read_stream ops eops (Suc at) r1 (?sp, ?e)"
      using False rd read(1) c t(1) Suc.prems(5) by (subst read_stream.simps) (simp add: on_volume_def)
    have "n = length blocks - Suc at" using Suc.hyps(2) by simp
    from Suc.hyps(1) [OF this, of r1 ?e v1 ?sp] t(2) Suc.prems(2,4) read(2,3) show ?thesis
      by (auto simp: step)
  qed
next
  case 0
  then have "reader_complete r" "r' = r" "index' = en_index e" by auto
  then show ?case using 0(4,6)
    by (intro exI [of _ v] exI [of _ "sp_chunk sp"]) (simp add: read_stream.simps)
qed

end

lemma restore_keeps [simp]:
  "en_index (engine_restore ops groups covered e) = en_index e" "en_budgets (engine_restore ops groups covered e) = groups"
  "en_applied_through (engine_restore ops groups covered e) = covered"
  by (simp_all add: engine_restore_def engine_reconcile_def split: prod.splits)

text \<open>C14: a node restarts from the instant its snapshot was taken at. Proved for a dumps' volume of its own that is the
  memory store: when its current object holds the blocks of a whole stream, reading it into an engine with a table of the
  same size succeeds; the group totals and the position applied through are the stream's, and every slot of the table is
  the one of that instant, or empty where the record it names was not on a sealed block when it was written out.\<close>

theorem restart_reads_the_instant_back:
  assumes "table_shape t0" "distinct (map fst budgets)" "\<forall>g\<in>set budgets. i64_ok (bs_remaining (snd g))"
    and "length budgets < 2 ^ 32" "covered < 2 ^ 64" "reflect < 2 ^ 64"
    and "snapshot_writing hs logs (snapshot_writer (length (ht_buckets t0)) budgets covered reflect) t0 out w t" "writer_complete w"
    and "concat blocks = out @ zeros padding" "\<forall>b\<in>set blocks. length b = BLOCK_BYTES"
    and "sp_own sp = Some v" "store_wf v" "\<forall>i<length blocks. memory_view v SNAPSHOT_CURRENT i = Some (blocks ! i)"
    and "table_shape (en_index e)" "length (ht_buckets (en_index e)) = length (ht_buckets t0)"
  shows "\<exists>sp' e'. read_into memory_ops ops (sp, e) = Some (Inr True, sp', e') \<and> map_of (en_budgets e') = map_of budgets
    \<and> en_applied_through e' = covered
    \<and> list_all2 (list_all2 (slot_carried logs)) (ht_buckets t0) (ht_buckets (en_index e'))"
proof -
  have width: "\<forall>c\<in>set blocks. length c mod SNAPSHOT_RECORD = 0" using assms(10) by (simp add: SNAPSHOT_RECORD_def BLOCK_BYTES_def)
  obtain r index' where taken: "take_chunks blocks snapshot_reader (en_index e) = (Inr (), r, index')" "reader_complete r"
      "sr_coverage r = covered" "map_of (sr_groups r) = map_of budgets"
      "list_all2 (list_all2 (slot_carried logs)) (ht_buckets t0) (ht_buckets index')"
    using snapshot_read_back [OF assms(1-9) width assms(14,15)] by blast
  have "blocks \<noteq> []"
    using taken(1,2) by (cases blocks) (auto simp: snapshot_reader_def reader_complete_def SNAPSHOT_HEADER_def)
  then have "memory_view v SNAPSHOT_CURRENT 0 \<noteq> None" using assms(13) by auto
  then have there: "st_exists memory_ops SNAPSHOT_CURRENT v = (True, v)"
    by (auto simp: memory_ops_def mem_exists_def memory_view_def bind_eq_Some_conv split: if_splits)
  obtain v' chunk where "read_stream memory_ops ops 0 snapshot_reader (sp, e)
      = Some (Inr r, sp\<lparr>sp_own := Some v', sp_chunk := chunk\<rparr>, e\<lparr>en_index := index'\<rparr>)"
    using memory.read_stream_reads [of 0 blocks snapshot_reader e r index' v sp ops] taken(1,2) assms(11-13) by auto
  then have "read_into memory_ops ops (sp, e) = Some (Inr True, sp\<lparr>sp_own := Some v', sp_chunk := chunk\<rparr>,
      engine_restore ops (sr_groups r) (sr_coverage r) (e\<lparr>en_index := index'\<rparr>))"
    using there assms(11) by (cases sp) (simp add: read_into_def on_volume_def)
  then show ?thesis using taken(3-5) by simp
qed

lemma dumping_stream:
  obtains bytes w t where "snapshot_writing mixing_hasher {sealed_log} dumping_writer snapshot_table bytes w t" "writer_complete w"
    "length bytes = 128"
proof -
  have w0: "sn_at dumping_writer = 0" "sn_buckets dumping_writer = length (ht_buckets snapshot_table)" "snapshot_records dumping_writer = 4"
    by (simp_all add: dumping_writer_def snapshot_writer_def snapshot_records_def snapshot_consts snapshot_table_shape)
  obtain bytes w t where c: "next_chunk dumping_writer BLOCK_BYTES (begin_snapshot snapshot_table) sealed_log = (bytes, w, t)"
    by (rule prod_cases3)
  have start: "snapshot_writing mixing_hasher {sealed_log} dumping_writer snapshot_table [] dumping_writer (begin_snapshot snapshot_table)"
    by (rule writing_begins)
  have stream: "snapshot_writing mixing_hasher {sealed_log} dumping_writer snapshot_table ([] @ bytes) w t"
    by (rule chunk_written [OF start _ c]) simp
  note ok = writing_ok [OF _ w0(1,2) snapshot_table_shape(1)]
  obtain k where "writer_ok {sealed_log} (ht_buckets snapshot_table) dumping_writer k (begin_snapshot snapshot_table)" using ok [OF start] by blast
  then have at: "sn_at w = 4"
    using write_records_advances [OF _ _ c [unfolded next_chunk_def]] w0 by (simp add: snapshot_consts BLOCK_BYTES_def)
  obtain k' where k': "writer_ok {sealed_log} (ht_buckets snapshot_table) w k' t" "[] @ bytes = concat (stream_so_far w k')"
      "w = dumping_writer\<lparr>sn_at := sn_at w\<rparr>"
    using ok [OF stream] by blast
  have "snapshot_records w = 4" by (subst k'(3)) (use w0(3) in \<open>simp add: snapshot_records_def\<close>)
  then show thesis
    using that [of bytes w t] stream at stream_so_far_length [OF k'(1)] k'(2) by (simp add: writer_complete_def snapshot_consts)
qed

definition restarting_volume :: "Block \<Rightarrow> MemoryStore" where
  "restarting_volume block =
     memory_store\<lparr>mst_objects := (replicate OBJECT_VALUES None)[SNAPSHOT_CURRENT := Some \<lparr>sf_base = 0, sf_blocks = [Some block]\<rparr>]\<rparr>"

lemma restarting_volume_wf: "store_wf (restarting_volume block)" "memory_view (restarting_volume block) SNAPSHOT_CURRENT 0 = Some block"
proof -
  have "SNAPSHOT_CURRENT < OBJECT_VALUES" by (simp add: SNAPSHOT_CURRENT_def OBJECT_VALUES_def)
  moreover have "set ((replicate OBJECT_VALUES None)[SNAPSHOT_CURRENT := x]) \<subseteq> {x, None :: SegmentFile option}" for x
    using set_update_subset_insert [of "replicate OBJECT_VALUES None" SNAPSHOT_CURRENT x] by auto
  ultimately show "store_wf (restarting_volume block)" "memory_view (restarting_volume block) SNAPSHOT_CURRENT 0 = Some block"
    by (fastforce simp: restarting_volume_def store_wf_def memory_store_def file_wf_def memory_view_def file_view_def sf_at_def)+
qed

theorem restart_reads_the_instant_back_witness:
  "\<exists>block sp e. length block = BLOCK_BYTES
     \<and> read_into memory_ops memory_ops (snapshots_new (Some (restarting_volume block)) snapshot_policy_default 4, engine_sized 8 1 4 memory_store)
       = Some (Inr True, sp, e)
     \<and> list_all2 (list_all2 (slot_carried {sealed_log})) (ht_buckets snapshot_table) (ht_buckets (en_index e))"
proof -
  obtain bytes w t where d: "snapshot_writing mixing_hasher {sealed_log} dumping_writer snapshot_table bytes w t" "writer_complete w"
      "length bytes = 128"
    by (rule dumping_stream)
  let ?block = "bytes @ zeros 3968"
  let ?sp = "snapshots_new (Some (restarting_volume ?block)) snapshot_policy_default 4"
  have len: "length ?block = BLOCK_BYTES" by (simp add: d(3) zeros_def BLOCK_BYTES_def)
  have covered: "coverage dumping_engine < 2 ^ 64"
    by (simp add: coverage_def durable_through_def dumping_engine_def sealed_log_def log_new_def filling_new_def)
  have stream: "snapshot_writing mixing_hasher {sealed_log} (snapshot_writer (length (ht_buckets snapshot_table)) [] (coverage dumping_engine) 1)
      snapshot_table bytes w t"
    using d(1) by (simp add: dumping_writer_def snapshot_table_shape)
  have "\<exists>sp' e'. read_into memory_ops memory_ops (?sp, engine_sized 8 1 4 memory_store) = Some (Inr True, sp', e')
      \<and> map_of (en_budgets e') = map_of [] \<and> en_applied_through e' = coverage dumping_engine
      \<and> list_all2 (list_all2 (slot_carried {sealed_log})) (ht_buckets snapshot_table) (ht_buckets (en_index e'))"
  proof (rule restart_reads_the_instant_back [OF snapshot_table_shape(1) _ _ _ covered _ stream d(2)])
    show "concat [?block] = bytes @ zeros 3968" "\<forall>b\<in>set [?block]. length b = BLOCK_BYTES"
        "\<forall>i<length [?block]. memory_view (restarting_volume ?block) SNAPSHOT_CURRENT i = Some ([?block] ! i)"
      using len by (simp_all add: restarting_volume_wf)
    show "sp_own ?sp = Some (restarting_volume ?block)" by (simp add: snapshots_new_def)
    show "store_wf (restarting_volume ?block)" by (rule restarting_volume_wf)
  qed (simp_all add: engine_sized_def snapshot_table_shape)
  then show ?thesis using len by blast
qed

end
