(* ===== verification/Spec2Isabelle.thy ===== *)
theory Spec2Isabelle
  imports Invariants Verdicts Engine_Steps Stand_Ins Echo_Raft Worker_Order Read_Cache Snapshot_Stage
begin

text \<open>
  A verification development for myLedger, a double-entry ledger node written in Rust (\<open>src/\<close>).

  \<^bold>\<open>The program.\<close> A node is a single-threaded sequencer (\<open>src/sequencer\<close>) between client rings and four
  components. It admits requests and the expiry voids of the pending engine, asks the idempotency store whether a
  request is new and the pending engine for the hold it names, judges it against the accounts and against what it has
  promised to requests that are not committed yet, batches the effects into proposals to the consensus log, applies
  what commits to the account store (\<open>src/account\<close>) and to the pending engine, and answers the client. The pending
  engine (\<open>src/pending\<close>) keeps the open holds: a cuckoo index of record addresses over an append-only log of hold
  records on a block volume, with a writeback buffer, a drain that compacts it, days that expire and are reclaimed
  whole. Shared types, ids, ports and the rings are in \<open>src/base\<close>.

  \<^bold>\<open>The theories\<close>, in the order of their imports, with the code each models:
  \<^item> \<open>Ledger_Prelude\<close>: Rust integers (wrapping and checked \<open>i64\<close>, \<open>usize\<close> subtraction), result and option helpers,
    the generic lemmas on lists and association lists.
  \<^item> \<open>Base_Types\<close>: ids, errors, transfers and their digest, effects, the client protocol and the port messages
    (\<open>base/src/{ids,error,transfer,effect,protocol}.rs\<close>, \<open>base/src/ports/\<close>).
  \<^item> \<open>Accounts\<close>: the four columns of an account and the in-memory store (\<open>base/src/ports/account.rs\<close>,
    \<open>account/src/store.rs\<close>): double entry, both sides or neither, refinement of an abstract ledger, a follower's
    replay equal to a leader's apply.
  \<^item> \<open>Channels\<close>: the single-producer single-consumer ring (\<open>base/src/spsc.rs\<close>) as steps of its two ends: first in,
    first out under any interleaving.
  \<^item> \<open>Queues\<close>, \<open>Batches\<close>, \<open>Linked\<close>, \<open>Lanes\<close>, \<open>Slots\<close>, \<open>Holds\<close>: the sequencer's own state (\<open>sequencer/src/state/\<close>,
    \<open>sequencer/src/rules/\<close>, \<open>pending/src/overlay.rs\<close>, the caller side of \<open>pending/src/memory.rs\<close>): outbox, expiry
    queue, cascade, safety, batcher, linked chains and budget rules, lanes, work slots, the overlay over the holds and
    the channel of committed decisions.
  \<^item> \<open>Reactor_State\<close>, \<open>Judge\<close>, \<open>Intake\<close>, \<open>Commit\<close>, \<open>Ticks\<close>: the reactor (\<open>sequencer/src/reactor.rs\<close> and
    \<open>sequencer/src/reactor/\<close>): its record, the judgement of requests and chains, admission, proposal and apply, and
    the loop.
  \<^item> \<open>Invariants\<close>, \<open>Verdicts\<close>: the invariant of a reactor and that every step keeps it; what a judgement promises.
  \<^item> \<open>Records\<close>: blocks, the 68-byte record and its codec, packed record addresses, checksums, I/O handles
    (\<open>pending/src/block.rs\<close>, to line 300 and \<open>Filling\<close>).
  \<^item> \<open>Hold_Index\<close>, \<open>Index_Map\<close>: the cuckoo index (\<open>pending/src/index.rs\<close>, \<open>base/src/prng.rs\<close>); its counts, its
    stable read for a snapshot, and that it refines a map from keys to addresses.
  \<^item> \<open>Block_Store\<close>: the \<open>DurableStore\<close> trait as a record of methods, the in-memory store, and the contract
    \<open>exact_store\<close> the log relies on, interpreted for that store.
  \<^item> \<open>Record_Log\<close>, \<open>Log_Records\<close>: the record log (\<open>RecordLog\<close> of \<open>pending/src/block.rs\<close>) over any store; its
    invariant, and which record each address has through appends, seals, compaction, writes, days and collection.
  \<^item> \<open>Engine\<close>, \<open>Engine_Map\<close>, \<open>Engine_Steps\<close>: the pending engine (\<open>pending/src/engine.rs\<close>); one operation at a time,
    then any run of them, it is a map of holds and a map of budget groups.
  \<^item> \<open>Pending_Orderer\<close>, \<open>Pending_Worker\<close>, \<open>Worker_Order\<close>: the worker between the rings and the engine
    (\<open>pending/src/orderer.rs\<close>, the worker of \<open>pending/src/memory.rs\<close>): the orderer that lets replies out in the order
    their places were taken, a round of the worker, and that every lane is answered in the order it asked.
  \<^item> \<open>Read_Cache\<close>: the cold read cache (\<open>pending/src/cache.rs\<close>), a store around any store: what it answers over an
    \<open>exact_store\<close>, and the run in which it answers another block's bytes.
  \<^item> \<open>Snapshot_Stream\<close>, \<open>Snapshot_Stage\<close>: the format of a snapshot (\<open>pending/src/snapshot.rs\<close>) and the stage that writes
    one block after block, publishes it and reads it at a restart (\<open>pending/src/snapshots.rs\<close>): a stream is the instant it
    was begun at, the current name is only given to a whole one, and a restart restores that instant.
  \<^item> \<open>Lane_Order\<close>, \<open>Stand_Ins\<close>, \<open>Echo_Raft\<close>: the kit of the in-process stand-ins (\<open>stubkit/src/{latency,gate,lane_order}.rs\<close>),
    the idempotency worker (\<open>idempotency/src/memory.rs\<close>) and the consensus worker (\<open>raft/src/echo.rs\<close>): each answers
    in order, whatever the latencies and holds.
  This theory holds the properties of the whole node: the steps of a node are \<open>tick\<close> with arbitrary messages from the
  clients, the idempotency store, the pending engine and the consensus log put into its queues in between, and the
  operator's calls; \<open>reachable\<close> are the states such steps lead to from a configured start.

  \<^bold>\<open>Modelling choices.\<close> A struct is a record, an enum a datatype, a method a function that returns the updated state.
  A panic (an index out of range, \<open>expect\<close>) is \<open>None\<close>; an error of the program is a value (\<open>LedgerError + 'a\<close>). The
  release profile is modelled: \<open>debug_assert\<close> is absent and integers wrap. Amounts are \<open>int\<close> with the \<open>i64\<close>
  wrap-around written out; ids, addresses, slots, sequence numbers and counters whose width matters are words;
  statistics and block numbers are natural numbers (an address still truncates a block number to its field, and the
  theorems say when it fits). Hash maps are association lists or maps where no order is observed. Queues between
  threads are their contents. The clock is read once per step. The hashers and the CRC are parameters of the
  definitions that use them and nothing is assumed of them; a \<open>dyn DurableStore\<close> is a record of its methods with its
  state as a type parameter. A callback called once per record is the list of records it is called with. The fuel of
  the deferred-dispatch loop is the number of deferred entries, which \<open>deferred_turns_enough\<close> proves enough; the
  cascade loop ends by a weight of the work left; loops over completions are partial functions proved to return.

  \<^bold>\<open>What the groups of properties show.\<close> Of the node: the books balance in every reachable state, no
  judged effect is lost while consensus answers each batch with its own effects (\<open>faithful\<close>), a sealed node applies
  nothing, acks and decisions follow the log, and decisions reach the engine ahead of later questions. Of judgement: a
  chain is all or nothing, a resolution stays within its hold, an accepted effect is covered, and what becomes ready is
  judged before control returns. Of the engine and below it: it refines a map, the
  index counts and snapshots correctly and names what it cannot store, records survive their blocks, damaged blocks
  are refused, collection ends; a dump is named when it is whole and on the disk, and restores its instant. Of the threads behind the ports: each lane's replies in
  the order of its requests, a consensus answer per proposal in proposal order, a cache that answers like its store.
  Of the parts: order, exclusivity and round trips of queues, batches, slots and lanes.

  \<^bold>\<open>Not modelled.\<close> Files, sockets, threads and process start (\<open>service\<close>, \<open>ledgerd\<close>, \<open>ledgerfio\<close>,
  \<open>stubkit/src/{server,worker}.rs\<close>, \<open>pending/src/files.rs\<close>, \<open>base/src/{affinity,signals,time}.rs\<close>): input and output
  around the modelled state machines. The simulator and the bench and test kits (\<open>ledgersim\<close>, \<open>benchkit\<close>,
  \<open>pending/src/testkit.rs\<close>), and the latency model of a volume (\<open>LatencyStore\<close>), which draws floating-point numbers to
  imitate a device. Memory
  sizing (\<open>base/src/{layout,sizing}.rs\<close>) and the capacities a worker derives from floating-point shares, footprint
  reports, gauges and log texts.
\<close>

section \<open>The books\<close>

text \<open>C1: in every state a node can reach the ledger balances. Whatever clients send, whatever the three
  components answer and in whatever order, and whatever the operator does, the account store stays well
  formed, its posted debits equal its posted credits and its pending debits its pending credits.\<close>

theorem ledger_balances_in_every_reachable_state:
  assumes "reachable r"
  shows "accounts_wf (rx_accounts r) \<and> balanced (column_totals (rx_accounts r))"
  using reachable_sound [OF assms] by (simp add: sound_def double_entry_def totals_balanced_def)

definition sample_start :: Reactor where
  "sample_start = sample_node [request_single sample_transfer 7]"

definition sample_asked :: Reactor where
  "sample_asked = snd (the (tick sample_start))"

definition sample_judged :: Reactor where
  "sample_judged = snd (the (tick (sample_asked\<lparr>rx_idem := (rx_idem sample_asked)\<lparr>idm_replies :=
     queue_of [\<lparr>ir_correlation = 0, ir_lane = 1, ir_seq = 0, ir_verdict = Fresh\<rparr>]\<rparr>\<rparr>)))"

definition sample_done :: Reactor where
  "sample_done = snd (the (tick (sample_judged\<lparr>rx_raft := (rx_raft sample_judged)\<lparr>rft_commits :=
     queue_of [\<lparr>rc_batch_id = 1, rc_index = 1, rc_outcome = BatchCommitted, rc_effects = [sample_effect]\<rparr>]\<rparr>\<rparr>)))"

text \<open>The node takes one request, asks, judges it, proposes it, and applies what consensus committed.\<close>

lemma sample_run:
  "map_option (\<lambda>_. ()) (tick sample_start) = Some ()"
  "map_option (\<lambda>(_, r). answers_fit (r\<lparr>rx_raft := (rx_raft r)\<lparr>rft_commits :=
     queue_of [\<lparr>rc_batch_id = 1, rc_index = 1, rc_outcome = BatchCommitted, rc_effects = [sample_effect]\<rparr>]\<rparr>\<rparr>)) (tick (sample_asked\<lparr>rx_idem := (rx_idem sample_asked)\<lparr>idm_replies :=
     queue_of [\<lparr>ir_correlation = 0, ir_lane = 1, ir_seq = 0, ir_verdict = Fresh\<rparr>]\<rparr>\<rparr>)) = Some True"
  "map_option (\<lambda>(_, r). (mt_committed (rx_metrics r), map ac_debits_posted (ma_records (rx_accounts r)), sf_applies_sealed (rx_safety r))) (tick (sample_judged\<lparr>rx_raft := (rx_raft sample_judged)\<lparr>rft_commits :=
     queue_of [\<lparr>rc_batch_id = 1, rc_index = 1, rc_outcome = BatchCommitted, rc_effects = [sample_effect]\<rparr>]\<rparr>\<rparr>)) = Some (1, [100, 0], False)"
  by code_simp+

lemma sample_ticks:
  "\<exists>p. tick sample_start = Some (p, sample_asked)"
  "\<exists>p. tick (sample_asked\<lparr>rx_idem := (rx_idem sample_asked)\<lparr>idm_replies :=
     queue_of [\<lparr>ir_correlation = 0, ir_lane = 1, ir_seq = 0, ir_verdict = Fresh\<rparr>]\<rparr>\<rparr>) = Some (p, sample_judged)"
  "\<exists>p. tick (sample_judged\<lparr>rx_raft := (rx_raft sample_judged)\<lparr>rft_commits :=
     queue_of [\<lparr>rc_batch_id = 1, rc_index = 1, rc_outcome = BatchCommitted, rc_effects = [sample_effect]\<rparr>]\<rparr>\<rparr>)
     = Some (p, sample_done)"
  "mt_committed (rx_metrics sample_done) = 1" "map ac_debits_posted (ma_records (rx_accounts sample_done)) = [100, 0]"
  "\<not> sf_applies_sealed (rx_safety sample_done)"
  "answers_fit (sample_judged\<lparr>rx_raft := (rx_raft sample_judged)\<lparr>rft_commits :=
     queue_of [\<lparr>rc_batch_id = 1, rc_index = 1, rc_outcome = BatchCommitted, rc_effects = [sample_effect]\<rparr>]\<rparr>\<rparr>)"
  using sample_run by (auto simp: sample_asked_def sample_judged_def sample_done_def)

lemma sample_done_faithful: "faithful sample_done"
proof -
  have "faithful sample_start"
    unfolding sample_start_def
    by (rule faithful_built [OF sample_node_built [unfolded sample_build_def] sample_accounts_wf])
       (simp_all add: sample_accounts_eval queue_of_def)
  then have asked: "faithful sample_asked" using sample_ticks(1) by (blast intro: faithful_tick)
  then have "answers_fit sample_asked" using faithful_accounted by (simp add: accounted_def)
  then have fit: "answers_fit (sample_asked\<lparr>rx_idem := q\<rparr>)" for q by (simp add: answers_fit_def)
  have "faithful (sample_asked\<lparr>rx_idem := (rx_idem sample_asked)\<lparr>idm_replies :=
     queue_of [\<lparr>ir_correlation = 0, ir_lane = 1, ir_seq = 0, ir_verdict = Fresh\<rparr>]\<rparr>\<rparr>)"
    by (rule faithful_around [OF asked idem_works fit])
  then have "faithful sample_judged" using sample_ticks(2) by (blast intro: faithful_tick)
  then have "faithful (sample_judged\<lparr>rx_raft := (rx_raft sample_judged)\<lparr>rft_commits :=
     queue_of [\<lparr>rc_batch_id = 1, rc_index = 1, rc_outcome = BatchCommitted, rc_effects = [sample_effect]\<rparr>]\<rparr>\<rparr>)"
    by (rule faithful_around [OF _ raft_works sample_ticks(7)])
  then show ?thesis using sample_ticks(3) by (blast intro: faithful_tick)
qed

lemma sample_done_reachable: "reachable sample_done"
  by (rule faithful_reachable [OF sample_done_faithful])

theorem ledger_balances_in_every_reachable_state_witness:
  "reachable sample_done \<and> map ac_debits_posted (ma_records (rx_accounts sample_done)) = [100, 0]
   \<and> balanced (column_totals (rx_accounts sample_done))"
  using ledger_balances_in_every_reachable_state [OF sample_done_reachable] sample_done_reachable sample_ticks(5)
  by blast

text \<open>C4: no effect is lost. In every reachable state the account store has applied exactly as many effects as the
  sequencer counts committed; what is committed, rolled back and still waiting on consensus together is never more than
  what was judged, and it is exactly that, so every judged effect is accounted for, as long as the apply path is not
  sealed and every answer consensus gave was for a batch in flight with as many effects as the batch has; no more
  proposals are outstanding than the configuration allows; and so, of the four checks made after every tick, three
  can never fire, whatever the other components answer.\<close>

theorem books_always_add_up:
  assumes "reachable r"
  shows "counts_add_up r \<in> {Inr (), Inl MoreRequestsThanSlots}
    \<and> ma_applied (rx_accounts r) = mt_committed (rx_metrics r)
    \<and> mt_committed (rx_metrics r) + mt_commit_failures (rx_metrics r) + slots_waiting (rx_batcher r)
        \<le> mt_judged (rx_metrics r)
    \<and> (faithful r \<and> \<not> sf_applies_sealed (rx_safety r) \<longrightarrow>
        mt_committed (rx_metrics r) + mt_commit_failures (rx_metrics r) + slots_waiting (rx_batcher r)
          = mt_judged (rx_metrics r))
    \<and> batcher_in_flight_len (rx_batcher r) \<le> bp_in_flight (cfg_batching (rx_config r))"
  using reachable_sound [OF assms] faithful_accounted [of r]
  by (auto simp: sound_def view_agrees_def covered_def batcher_ok_def counts_add_up_def batcher_in_flight_len_def
      accounted_def tally_def)

theorem books_always_add_up_witness:
  "ma_applied (rx_accounts sample_done) = 1 \<and> counts_add_up sample_done \<in> {Inr (), Inl MoreRequestsThanSlots}
   \<and> mt_commit_failures (rx_metrics sample_done) + slots_waiting (rx_batcher sample_done) + 1 = mt_judged (rx_metrics sample_done)"
  using books_always_add_up [OF sample_done_reachable] sample_done_faithful sample_ticks(6) sample_ticks(4) by auto

section \<open>Answers\<close>

text \<open>C2: a client is told \<open>Committed\<close> exactly as often as money moved for one. A tick only adds to the
  stream of acks the client reads; the \<open>Committed\<close> acks it adds and the expiry voids it releases are
  together as many as the effects it applied.\<close>

theorem committed_acks_match_applied_effects:
  assumes "tick r = Some (p, r')"
  shows "\<exists>acks. outbox_stream (rx_outbox r') = outbox_stream (rx_outbox r) @ acks
    \<and> length (filter (\<lambda>a. ak_outcome a = Committed) acks) + mt_holds_expired (rx_metrics r') + ma_applied (rx_accounts r)
      = mt_holds_expired (rx_metrics r) + ma_applied (rx_accounts r')"
proof -
  have "acked r r" by (simp add: acked_def)
  from acked_loop.tick_inv [OF this assms] show ?thesis by (simp add: acked_def)
qed

text \<open>A node with one batch at consensus, which has just answered.\<close>

definition sample_answered :: Reactor where
  "sample_answered = (let r = sample_node [] in
     r\<lparr>rx_pipeline := (rx_pipeline r)\<lparr>pp_slots := (pp_slots (rx_pipeline r))
         \<lparr>po_items := [work_item_default\<lparr>wi_tx := sample_transfer, wi_kind := SinglePhase, wi_lane := 1, wi_debit := 0, wi_credit := 1\<rparr>], po_free := []\<rparr>\<rparr>,
       rx_batcher := (rx_batcher r)\<lparr>bt_in_flight := [\<lparr>ib_batch_id = 1, ib_slots = [0], ib_proposed_at_nanos = 0\<rparr>]\<rparr>,
       rx_raft := (rx_raft r)\<lparr>rft_commits :=
         queue_of [\<lparr>rc_batch_id = 1, rc_index = 1, rc_outcome = BatchCommitted, rc_effects = [sample_effect]\<rparr>]\<rparr>\<rparr>)"

lemma sample_answered_ticks:
  "map_option (\<lambda>(_, r). (ma_applied (rx_accounts r), mt_holds_expired (rx_metrics r))) (tick sample_answered) = Some (1, 0)"
  "ma_applied (rx_accounts sample_answered) = 0" "mt_holds_expired (rx_metrics sample_answered) = 0"
  "outbox_stream (rx_outbox sample_answered) = []" "apply_stream (rx_pending sample_answered) = []"
  by code_simp+

theorem committed_acks_match_applied_effects_witness:
  "\<exists>p r'. tick sample_answered = Some (p, r')
     \<and> length (filter (\<lambda>a. ak_outcome a = Committed) (outbox_stream (rx_outbox r'))) = 1"
proof -
  obtain p r' where t: "tick sample_answered = Some (p, r')" "ma_applied (rx_accounts r') = 1"
      "mt_holds_expired (rx_metrics r') = 0"
    using sample_answered_ticks(1) by auto
  show ?thesis using committed_acks_match_applied_effects [OF t(1)] t sample_answered_ticks(2-4) by auto
qed

section \<open>Stopping\<close>

lemma node_step_sealed:
  assumes "node_step r r'" "sf_applies_sealed (rx_safety r)"
  shows "sf_applies_sealed (rx_safety r') \<and> rx_accounts r' = rx_accounts r"
proof -
  have tick: "sf_applies_sealed (rx_safety s) \<and> rx_accounts s = rx_accounts r" if "tick r = Some (p, s)" for p s
    using sealed_loop.tick_inv [OF _ that, of r] assms(2) by (simp add: sealed_since_def)
  show ?thesis
    using assms
    by (cases rule: node_step.cases)
       (auto simp: tick close_intake_def rx_release_quarantine_def rx_clear_fail_stop_def rx_record_def safety_ops Let_def
         elim!: env_stepE split: option.splits prod.splits sum.splits if_splits)
qed

text \<open>C3: a sealed node never moves money again. Once the apply path is sealed, no sequence of ticks, of
  messages from clients and components, and of operator actions changes an account or lifts the seal; only a
  restart does.\<close>

theorem sealed_node_never_applies:
  assumes "node_step\<^sup>*\<^sup>* r r'" and "sf_applies_sealed (rx_safety r)"
  shows "rx_accounts r' = rx_accounts r \<and> sf_applies_sealed (rx_safety r')"
  using assms by (induction rule: rtranclp_induct) (auto dest: node_step_sealed)

definition sample_sealed :: Reactor where
  "sample_sealed = rx_seal LK_STORE_FAILED 0 0 sample_answered"

lemma sample_sealed_ticks:
  "map_option (\<lambda>_. ()) (tick sample_sealed) = Some ()" "sf_applies_sealed (rx_safety sample_sealed)"
  "ma_applied (rx_accounts sample_sealed) = 0" "outbox_stream (rx_outbox sample_sealed) = []"
  by code_simp+

theorem sealed_node_never_applies_witness:
  "\<exists>p r'. tick sample_sealed = Some (p, r') \<and> ma_applied (rx_accounts (snd (rx_clear_fail_stop r'))) = 0"
proof -
  obtain p r' where t: "tick sample_sealed = Some (p, r')" using sample_sealed_ticks(1) by auto
  have "node_step r' (snd (rx_clear_fail_stop r'))" by (rule clears [of _ "fst (rx_clear_fail_stop r')"]) simp
  then have "node_step\<^sup>*\<^sup>* sample_sealed (snd (rx_clear_fail_stop r'))"
    using ticks [OF t] by (meson converse_rtranclp_into_rtranclp r_into_rtranclp)
  from sealed_node_never_applies [OF this sample_sealed_ticks(2)]
  have "ma_applied (rx_accounts (snd (rx_clear_fail_stop r'))) = 0" using sample_sealed_ticks(3) by simp
  then show ?thesis using t by blast
qed

text \<open>C26: a tick of a sealed node tells nobody \<open>Committed\<close> and decides nothing new: the decisions the engine has still to
  take, those in its queue followed by those held back for want of room, are the ones they were before the tick.
  Decisions made before the seal may still move from one to the other.\<close>

theorem sealed_tick_promises_nothing:
  assumes "tick r = Some (p, r')" and "sf_applies_sealed (rx_safety r)"
  shows "apply_stream (rx_pending r') = apply_stream (rx_pending r)
    \<and> (\<exists>acks. outbox_stream (rx_outbox r') = outbox_stream (rx_outbox r) @ acks \<and> Committed \<notin> ak_outcome ` set acks)"
  using sealed_loop.tick_inv [OF _ assms(1), of r] assms(2) by (simp add: sealed_since_def)

theorem sealed_tick_promises_nothing_witness:
  "\<exists>p r'. tick sample_sealed = Some (p, r') \<and> Committed \<notin> ak_outcome ` set (outbox_stream (rx_outbox r'))"
proof -
  obtain p r' where t: "tick sample_sealed = Some (p, r')" using sample_sealed_ticks(1) by auto
  show ?thesis
    using sealed_tick_promises_nothing [OF t sample_sealed_ticks(2)] sample_sealed_ticks(4) t by auto
qed

text \<open>C27: a fail-stopped node judges nothing. As long as the stop is on, no request becomes an effect: a tick leaves the
  count of judged effects alone, and the stop in place.\<close>

theorem fail_stopped_tick_judges_nothing:
  assumes "tick r = Some (p, r')" and "sf_fail_stop (rx_safety r)"
  shows "mt_judged (rx_metrics r') = mt_judged (rx_metrics r) \<and> sf_fail_stop (rx_safety r')"
  using halted_loop.tick_inv [OF _ assms(1), of r] assms(2) by (simp add: halted_since_def)

definition sample_stopped :: Reactor where
  "sample_stopped = trip_fail_stop sample_start"

lemma sample_stopped_ticks:
  "map_option (\<lambda>(_, r). map ak_outcome (outbox_stream (rx_outbox r))) (tick sample_stopped) = Some [Rejected FailStop]"
  "sf_fail_stop (rx_safety sample_stopped)" "mt_judged (rx_metrics sample_stopped) = 0"
  by code_simp+

theorem fail_stopped_tick_judges_nothing_witness:
  "\<exists>p r'. tick sample_stopped = Some (p, r') \<and> map ak_outcome (outbox_stream (rx_outbox r')) = [Rejected FailStop]
     \<and> mt_judged (rx_metrics r') = 0"
proof -
  obtain p r' where t: "tick sample_stopped = Some (p, r')" "map ak_outcome (outbox_stream (rx_outbox r')) = [Rejected FailStop]"
    using sample_stopped_ticks(1) by auto
  show ?thesis using fail_stopped_tick_judges_nothing [OF t(1) sample_stopped_ticks(2)] sample_stopped_ticks(3) t by simp
qed

end
